(* ===== verification/LTC_Prelude.thy ===== *)
theory LTC_Prelude
  imports Main "HOL-Library.Word"
begin

text \<open>
  Shared vocabulary of the development.

  The firmware runs on a Cortex-M0+ (32-bit, little-endian, byte-addressed, plain \<^verbatim>\<open>char\<close>
  unsigned).  This theory fixes the machine types, the byte-addressed memory
  \<open>mem\<close>, the little-endian word accesses, and the generic lemmas on
  words, lists and memory ranges that the component theories share.

  Collections: \<open>mem_simps\<close> holds the rewriting rules for loads and stores, and
  \<open>word_bounds\<close> the facts that turn word arithmetic into arithmetic on \<open>nat\<close>.
\<close>

unbundle bit_operations_syntax

named_theorems mem_simps \<open>loads, stores and range updates of the byte-addressed memory\<close>
named_theorems word_bounds \<open>word arithmetic read as arithmetic on natural numbers\<close>

section \<open>Machine types\<close>

type_synonym u8 = "8 word"
type_synonym u16 = "16 word"
type_synonym u32 = "32 word"
type_synonym u64 = "64 word"

text \<open>The flat address space: every 32-bit address holds a byte.\<close>

type_synonym mem = "u32 \<Rightarrow> u8"

abbreviation ERASED :: u32 where
  "ERASED \<equiv> 0xFFFFFFFF"

text \<open>C's truth values.\<close>

definition c_bool :: "bool \<Rightarrow> int" where
  "c_bool b = (if b then 1 else 0)"

lemma c_bool_simps [simp]: "c_bool True = 1" "c_bool False = 0"
  by (simp_all add: c_bool_def)

lemma c_bool_eq_0 [simp]: "c_bool b = 0 \<longleftrightarrow> \<not> b"
  by (simp add: c_bool_def)

lemma c_bool_eq_1 [simp]: "c_bool b = 1 \<longleftrightarrow> b"
  by (simp add: c_bool_def)

text \<open>
  C's \<^verbatim>\<open>/\<close> and \<^verbatim>\<open>%\<close> on signed integers truncate towards zero.
\<close>

definition c_div :: "int \<Rightarrow> int \<Rightarrow> int" where
  "c_div a b = sgn a * sgn b * (\<bar>a\<bar> div \<bar>b\<bar>)"

definition c_mod :: "int \<Rightarrow> int \<Rightarrow> int" where
  "c_mod a b = a - c_div a b * b"

lemma c_div_nonneg [simp]: "0 \<le> a \<Longrightarrow> 0 < b \<Longrightarrow> c_div a b = a div b"
  by (cases "a = 0") (simp_all add: c_div_def)

lemma c_mod_nonneg [simp]: "0 \<le> a \<Longrightarrow> 0 < b \<Longrightarrow> c_mod a b = a mod b"
  by (simp add: c_mod_def minus_div_mult_eq_mod)

section \<open>Little-endian words\<close>

definition le32 :: "u8 \<Rightarrow> u8 \<Rightarrow> u8 \<Rightarrow> u8 \<Rightarrow> u32" where
  "le32 b0 b1 b2 b3 =
     ucast b0 OR push_bit 8 (ucast b1) OR push_bit 16 (ucast b2) OR push_bit 24 (ucast b3)"

definition le16 :: "u8 \<Rightarrow> u8 \<Rightarrow> u16" where
  "le16 b0 b1 = ucast b0 OR push_bit 8 (ucast b1)"

definition byte_of :: "u32 \<Rightarrow> nat \<Rightarrow> u8" where
  "byte_of w i = ucast (drop_bit (8 * i) w)"

definition load32 :: "mem \<Rightarrow> u32 \<Rightarrow> u32" where
  "load32 m a = le32 (m a) (m (a + 1)) (m (a + 2)) (m (a + 3))"

definition store32 :: "u32 \<Rightarrow> u32 \<Rightarrow> mem \<Rightarrow> mem" where
  "store32 a w m =
     m(a := byte_of w 0, a + 1 := byte_of w 1, a + 2 := byte_of w 2, a + 3 := byte_of w 3)"

lemma bit_le32:
  "bit (le32 b0 b1 b2 b3) n \<longleftrightarrow>
     n < 32 \<and> (if n < 8 then bit b0 n else if n < 16 then bit b1 (n - 8)
              else if n < 24 then bit b2 (n - 16) else bit b3 (n - 24))"
  by (auto simp: le32_def bit_simps dest: bit_imp_le_length)

lemma byte_of_le32 [simp]:
  "byte_of (le32 b0 b1 b2 b3) 0 = b0"
  "byte_of (le32 b0 b1 b2 b3) (Suc 0) = b1"
  "byte_of (le32 b0 b1 b2 b3) 1 = b1"
  "byte_of (le32 b0 b1 b2 b3) 2 = b2"
  "byte_of (le32 b0 b1 b2 b3) 3 = b3"
  by (auto simp: byte_of_def bit_simps bit_le32 intro!: bit_word_eqI)

lemma bit_byte_of: "bit (byte_of w i) n \<longleftrightarrow> n < 8 \<and> bit w (8 * i + n)"
  by (auto simp: byte_of_def bit_simps)

lemma le32_byte_of [simp]:
  "le32 (byte_of w 0) (byte_of w (Suc 0)) (byte_of w 2) (byte_of w 3) = w"
  by (rule bit_word_eqI) (auto simp: bit_le32 bit_byte_of)

lemma le32_inject:
  "le32 a0 a1 a2 a3 = le32 b0 b1 b2 b3 \<longleftrightarrow> a0 = b0 \<and> a1 = b1 \<and> a2 = b2 \<and> a3 = b3"
  by (metis byte_of_le32(1) byte_of_le32(2) byte_of_le32(4) byte_of_le32(5))

lemma load32_store32_same [simp, mem_simps]: "load32 (store32 a w m) a = w"
  by (simp add: load32_def store32_def)

lemma le32_erased: "le32 b0 b1 b2 b3 = ERASED \<longleftrightarrow> b0 = 0xFF \<and> b1 = 0xFF \<and> b2 = 0xFF \<and> b3 = 0xFF"
proof -
  have "ERASED = le32 0xFF 0xFF 0xFF 0xFF" by (simp add: le32_def)
  then show ?thesis by (simp only: le32_inject)
qed

section \<open>Byte ranges of the memory\<close>

text \<open>
  The offset of an address \<open>x\<close> in a range that starts at \<open>a\<close> is \<open>unat (x - a)\<close>; the
  subtraction wraps, so the range may run through the top of the address space.
\<close>

definition mem_bytes :: "mem \<Rightarrow> u32 \<Rightarrow> nat \<Rightarrow> u8 list" where
  "mem_bytes m a n = map (\<lambda>i. m (a + of_nat i)) [0..<n]"

definition in_range :: "u32 \<Rightarrow> u32 \<Rightarrow> nat \<Rightarrow> bool" where
  "in_range x a n \<longleftrightarrow> unat (x - a) < n"

fun put_bytes :: "u32 \<Rightarrow> u8 list \<Rightarrow> mem \<Rightarrow> mem" where
  "put_bytes a [] m = m"
| "put_bytes a (b # bs) m = put_bytes (a + 1) bs (m(a := b))"

lemma put_bytes_Nil: "put_bytes a [] m = m"
  by simp

lemma put_bytes_Cons: "put_bytes a (b # bs) m = put_bytes (a + 1) bs (m(a := b))"
  by simp

declare put_bytes.simps [simp del] put_bytes_Nil [simp] put_bytes_Cons [simp]

lemma fold_upt_Suc [simp]: "fold f [0..<Suc k] s = f k (fold f [0..<k] s)"
  by simp

lemma length_mem_bytes [simp]: "length (mem_bytes m a n) = n"
  by (simp add: mem_bytes_def)

lemma nth_mem_bytes [simp]: "i < n \<Longrightarrow> mem_bytes m a n ! i = m (a + of_nat i)"
  by (simp add: mem_bytes_def)

lemma mem_bytes_0 [simp]: "mem_bytes m a 0 = []"
  by (simp add: mem_bytes_def)

lemma mem_bytes_Suc: "mem_bytes m a (Suc n) = m a # mem_bytes m (a + 1) n"
  by (rule nth_equalityI) (auto simp: nth_Cons add.assoc split: nat.split)

lemma mem_bytes_cong:
  "(\<And>i. i < n \<Longrightarrow> m (a + of_nat i) = m' (a' + of_nat i)) \<Longrightarrow> mem_bytes m a n = mem_bytes m' a' n"
  by (simp add: mem_bytes_def)

lemma unat_of_nat_small [simp, word_bounds]: "n < 2 ^ 32 \<Longrightarrow> unat (of_nat n :: u32) = n"
  by (simp add: unat_of_nat take_bit_nat_eq_self)

lemma unat_u32_lt [word_bounds]: "unat (w :: u32) < 2 ^ 32"
  using unsigned_less [of w] by simp

lemma unat_u16_lt [word_bounds]: "unat (w :: u16) < 2 ^ 16"
  using unsigned_less [of w] by simp

lemma unat_u8_lt [word_bounds]: "unat (w :: u8) < 256"
  using unsigned_less [of w] by simp

lemma unat_inc [word_bounds]: "a < b \<Longrightarrow> unat (a + 1) = Suc (unat a)" for a b :: u32
  using unat_u32_lt [of b] by (simp add: unat_word_ariths word_less_nat_alt)

lemma in_range_offset: "i < n \<Longrightarrow> n \<le> 2 ^ 32 \<Longrightarrow> in_range (a + of_nat i) a n"
  by (simp add: in_range_def)

lemma in_range_iff: "n \<le> 2 ^ 32 \<Longrightarrow> in_range x a n \<longleftrightarrow> (\<exists>i < n. x = a + of_nat i)"
proof
  assume "in_range x a n"
  then have "unat (x - a) < n" by (simp add: in_range_def)
  moreover have "x = a + of_nat (unat (x - a))" by simp
  ultimately show "\<exists>i < n. x = a + of_nat i" by blast
qed (auto intro: in_range_offset)

lemma offset_inject:
  "i < 2 ^ 32 \<Longrightarrow> j < 2 ^ 32 \<Longrightarrow> (a + of_nat i :: u32) = a + of_nat j \<longleftrightarrow> i = j"
  by (metis add_left_cancel unat_of_nat_small)

lemma unat_minus_1: "x \<noteq> (a :: u32) \<Longrightarrow> unat (x - a) = Suc (unat (x - (a + 1)))"
proof -
  assume "x \<noteq> a"
  then have "x - a \<noteq> 0" by simp
  then have "unat (x - a) = Suc (unat (x - a - 1))"
    by (simp add: unat_minus_one unat_gt_0)
  then show ?thesis by (simp add: diff_diff_eq)
qed

lemma put_bytes_apply:
  "length bs \<le> 2 ^ 32 \<Longrightarrow>
   put_bytes a bs m x = (if unat (x - a) < length bs then bs ! unat (x - a) else m x)"
proof (induction bs arbitrary: a m)
  case Nil
  then show ?case by simp
next
  case (Cons b bs)
  show ?case
  proof (cases "x = a")
    case True
    have "unat (- 1 :: u32) = 2 ^ 32 - 1" by (simp add: unsigned_minus_1_eq_mask mask_eq_exp_minus_1)
    then have "unat (a - (a + 1)) = 2 ^ 32 - 1" by simp
    with True Cons show ?thesis by simp
  next
    case False
    with Cons show ?thesis by (simp add: unat_minus_1 [OF False])
  qed
qed

lemma put_bytes_append:
  "put_bytes a (xs @ ys) m = put_bytes (a + of_nat (length xs)) ys (put_bytes a xs m)"
  by (induction xs arbitrary: a m) (simp_all add: put_bytes_Nil put_bytes_Cons add.assoc)

lemma store32_put_bytes: "store32 a w m = put_bytes a (map (byte_of w) [0, 1, 2, 3]) m"
  by (simp add: store32_def put_bytes_Nil put_bytes_Cons add.assoc)

lemma mem_bytes_append: "mem_bytes m a (n + k) = mem_bytes m a n @ mem_bytes m (a + of_nat n) k"
  by (induction n arbitrary: a) (simp_all add: mem_bytes_Suc add.assoc)

lemma byte_of_load32 [simp]:
  "byte_of (load32 m a) 0 = m a" "byte_of (load32 m a) (Suc 0) = m (a + 1)"
  "byte_of (load32 m a) 2 = m (a + 2)" "byte_of (load32 m a) 3 = m (a + 3)"
  by (simp_all add: load32_def flip: One_nat_def)

lemma put_bytes_outside [mem_simps]:
  "length bs \<le> 2 ^ 32 \<Longrightarrow> \<not> in_range x a (length bs) \<Longrightarrow> put_bytes a bs m x = m x"
  by (simp add: put_bytes_apply in_range_def)

lemma mem_bytes_put_bytes [simp, mem_simps]:
  "length bs \<le> 2 ^ 32 \<Longrightarrow> mem_bytes (put_bytes a bs m) a (length bs) = bs"
  by (rule nth_equalityI) (simp_all add: put_bytes_apply)

text \<open>Ranges that do not wrap around the address space.\<close>

lemma in_range_unat:
  assumes "unat a + n \<le> 2 ^ 32"
  shows "in_range x a n \<longleftrightarrow> unat a \<le> unat x \<and> unat x < unat a + n"
proof -
  have "unat (x - a) = (if unat a \<le> unat x then unat x - unat a else unat x + 2 ^ 32 - unat a)"
    unfolding unat_sub_if' by (simp add: word_size)
  then show ?thesis using assms by (auto simp: in_range_def)
qed

lemma unat_offset: "unat (a :: u32) + i < 2 ^ 32 \<Longrightarrow> unat (a + of_nat i) = unat a + i"
  by (simp add: unat_word_ariths)

definition apart :: "u32 \<Rightarrow> nat \<Rightarrow> u32 \<Rightarrow> nat \<Rightarrow> bool" where
  "apart a n b k \<longleftrightarrow> unat a + n \<le> 2 ^ 32 \<and> unat b + k \<le> 2 ^ 32 \<and>
     (unat a + n \<le> unat b \<or> unat b + k \<le> unat a)"

lemma apart_sym: "apart a n b k \<Longrightarrow> apart b k a n"
  by (auto simp: apart_def)

lemma apart_not_in: "apart a n b k \<Longrightarrow> i < k \<Longrightarrow> \<not> in_range (b + of_nat i) a n"
  by (auto simp: apart_def in_range_unat unat_offset)

lemma put_bytes_apart: "apart a (length bs) b k \<Longrightarrow> i < k \<Longrightarrow> put_bytes a bs m (b + of_nat i) = m (b + of_nat i)"
  by (rule put_bytes_outside [OF _ apart_not_in]) (simp_all add: apart_def)

lemma mem_bytes_apart [mem_simps]:
  "apart a (length bs) b k \<Longrightarrow> mem_bytes (put_bytes a bs m) b k = mem_bytes m b k"
  by (rule mem_bytes_cong) (simp add: put_bytes_apart)

lemma load32_mem_bytes:
  "load32 m a = (let bs = mem_bytes m a 4 in le32 (bs ! 0) (bs ! 1) (bs ! 2) (bs ! 3))"
  by (simp add: load32_def)

lemma load32_apart [mem_simps]: "apart a (length bs) b 4 \<Longrightarrow> load32 (put_bytes a bs m) b = load32 m b"
  by (simp add: load32_mem_bytes mem_bytes_apart)

lemma load32_put_bytes:
  "length bs = 4 \<Longrightarrow> load32 (put_bytes a bs m) a = le32 (bs ! 0) (bs ! 1) (bs ! 2) (bs ! 3)"
  unfolding load32_mem_bytes using mem_bytes_put_bytes [of bs a m] by simp

section \<open>Signed reading of words\<close>

lemma sint_eq_uint_bit: "sint (w :: 'a::len word) = uint w - 2 ^ LENGTH('a) * of_bool (bit w (LENGTH('a) - Suc 0))"
proof -
  have "sint w = signed_take_bit (LENGTH('a) - Suc 0) (uint w)" by (simp add: sint_uint)
  also have "\<dots> = take_bit (Suc (LENGTH('a) - Suc 0)) (uint w) - 2 ^ Suc (LENGTH('a) - Suc 0) * of_bool (bit (uint w) (LENGTH('a) - Suc 0))"
    by (rule signed_take_bit_eq_take_bit_minus)
  finally show ?thesis by (simp add: bit_uint_iff take_bit_int_eq_self)
qed

lemma sint_u32: "sint (w :: u32) = uint w - 2 ^ 32 * of_bool (bit w 31)"
  using sint_eq_uint_bit [of w] by simp
lemma sint_u64: "sint (w :: u64) = uint w - 2 ^ 64 * of_bool (bit w 63)"
  using sint_eq_uint_bit [of w] by simp

lemma sint_eq_iff: "sint a = sint b \<longleftrightarrow> a = b" by (auto intro: signed_word_eqI)

end
