(* ===== verification/Demodulator.thy ===== *)
theory Demodulator
  imports LTC_Prelude
begin

text \<open>
  The physical layer: the sampling interrupt of \<^verbatim>\<open>orchard/esplanade_analog.c\<close> with its
  double buffer, and the FSK demodulator of \<^verbatim>\<open>orchard/esplanade_demod.c\<close>.

  The 32-bit signed quantities of the demodulator are modelled as unbounded integers, and the
  theorems show that none of them leaves the 32-bit range.  The filter tables
  (\<^verbatim>\<open>dsptables.h\<close>) are generated when the firmware is built; they are the parameter
  \<open>FSK_demod_const\<close> of the definitions, and \<open>dsp_tables_ok\<close> states what the generator
  \<^verbatim>\<open>dsptable_gen.c\<close> guarantees of them.  The callback \<^verbatim>\<open>put_bit\<close> is a parameter too.
  Calls that change the sampling rate of the ADC are recorded in \<open>adc_log\<close>.
  A store outside an array is \<open>None\<close>.
\<close>

unbundle bit_operations_syntax

section \<open>Double-buffered sampling (esplanade_analog.c)\<close>

abbreviation (input) DMBUF_DEPTH :: nat where "DMBUF_DEPTH \<equiv> 256"
abbreviation (input) MIC_SAMPLE_DEPTH :: nat where "MIC_SAMPLE_DEPTH \<equiv> 512"

text \<open>\<open>bufloc\<close> is the offset of the delivered half in \<open>mic_sample\<close>.\<close>

record analog =
  mic_sample :: "u16 list"
  adc_current_index :: nat
  bufloc :: nat
  buf_n :: nat
  dataReadyFlag :: u8

definition analog_init :: analog where
  "analog_init = \<lparr>mic_sample = replicate MIC_SAMPLE_DEPTH 0, adc_current_index = 0,
     bufloc = 0, buf_n = 0, dataReadyFlag = 0\<rparr>"

definition analog_fast_isr :: "u16 \<Rightarrow> analog \<Rightarrow> analog option" where
  "analog_fast_isr adc_ra s =
     (if adc_current_index s \<ge> length (mic_sample s) then None
      else
        let s = s\<lparr>mic_sample := (mic_sample s)[adc_current_index s := adc_ra],
                  adc_current_index := adc_current_index s + 1\<rparr>
        in Some
          (if adc_current_index s = MIC_SAMPLE_DEPTH then
             let half = MIC_SAMPLE_DEPTH div 2; half_index = half * 1
             in s\<lparr>bufloc := half_index, buf_n := half, adc_current_index := 0,
                  dataReadyFlag := dataReadyFlag s + 1\<rparr>
           else if adc_current_index s = MIC_SAMPLE_DEPTH div 2 then
             s\<lparr>bufloc := 0, buf_n := MIC_SAMPLE_DEPTH div 2,
               dataReadyFlag := dataReadyFlag s + 1\<rparr>
           else s))"

section \<open>Demodulator state\<close>

abbreviation (input) FSK_FILTER_BUF_SIZE :: nat where "FSK_FILTER_BUF_SIZE \<equiv> 18"
abbreviation (input) COS_BITS :: nat where "COS_BITS \<equiv> 14"
abbreviation (input) RUN_THRESH :: u32 where "RUN_THRESH \<equiv> 1500"
abbreviation (input) HOLDOVER_THRESH :: u16 where "HOLDOVER_THRESH \<equiv> 80"
abbreviation (input) LBR_HOLDOUT :: u32 where "LBR_HOLDOUT \<equiv> 48000"

record FSK_demod_const =
  f_lo :: u32
  f_hi :: u32
  sample_rate :: int
  baud_rate :: int
  filter_size :: nat
  filter_lo_i :: "int list"
  filter_lo_q :: "int list"
  filter_hi_i :: "int list"
  filter_hi_q :: "int list"

record FSK_demod_state =
  filter_buf :: "int list"
  buf_ptr :: nat
  baud_incr :: int
  baud_pll :: int
  baud_pll_adj :: int
  lastsample :: int
  shift :: int

datatype adc_cmd = AdcStop | AdcStartLBR | AdcStartHBR

text \<open>The file-level variables, and the state of whatever receives the bits.\<close>

record 'm demod =
  fsk_state :: FSK_demod_state
  runcount :: u32
  lbr_time :: u32
  holdover :: u16
  adc_log :: "adc_cmd list"
  sink :: 'm

section \<open>Operations\<close>

definition corr :: "FSK_demod_const \<Rightarrow> int list \<Rightarrow> int list \<Rightarrow> int" where
  "corr fsk_const b coef =
     fold (\<lambda>j c. c + b ! j * coef ! j) [0..<filter_size fsk_const] 0"

definition FSK_core :: "FSK_demod_const \<Rightarrow> int list \<Rightarrow> int" where
  "FSK_core fsk_const b =
     (let c0 = drop_bit COS_BITS (corr fsk_const b (filter_hi_i fsk_const));
          c1 = drop_bit COS_BITS (corr fsk_const b (filter_hi_q fsk_const));
          c2 = drop_bit COS_BITS (corr fsk_const b (filter_lo_i fsk_const));
          c3 = drop_bit COS_BITS (corr fsk_const b (filter_lo_q fsk_const))
      in 0 + c0 * c0 + c1 * c1 - c2 * c2 - c3 * c3)"

text \<open>Appending a sample, and moving the last \<open>filter_size\<close> samples to the front when the
  buffer is full (\<^verbatim>\<open>memmove_aligned\<close> copies word by word, upwards).\<close>

definition push_sample :: "FSK_demod_const \<Rightarrow> int \<Rightarrow> FSK_demod_state \<Rightarrow> FSK_demod_state option" where
  "push_sample fsk_const x f =
     (if buf_ptr f \<ge> length (filter_buf f) then None
      else
        let f = f\<lparr>filter_buf := (filter_buf f)[buf_ptr f := x div 2 ^ nat (shift f)],
                  buf_ptr := buf_ptr f + 1\<rparr>
        in Some
          (if buf_ptr f = FSK_FILTER_BUF_SIZE then
             f\<lparr>filter_buf := fold (\<lambda>i b. b[i := b ! (FSK_FILTER_BUF_SIZE - filter_size fsk_const + i)])
                              [0..<filter_size fsk_const] (filter_buf f),
               buf_ptr := filter_size fsk_const\<rparr>
           else f))"

text \<open>The slice \<^verbatim>\<open>filter_buf + buf_ptr - filter_size\<close> the correlation reads.\<close>

definition window :: "FSK_demod_const \<Rightarrow> FSK_demod_state \<Rightarrow> int list" where
  "window fsk_const f =
     take (filter_size fsk_const) (drop (buf_ptr f - filter_size fsk_const) (filter_buf f))"

text \<open>Counting the run of zeros that announces the low bit rate, and the switches of rate.\<close>

definition count_run :: "int \<Rightarrow> 'm demod \<Rightarrow> 'm demod" where
  "count_run sm d =
     (if sm < 0 then d\<lparr>runcount := runcount d + 1\<rparr>
      else if runcount d < RUN_THRESH then d\<lparr>runcount := 0, holdover := 0\<rparr>
      else if holdover d > HOLDOVER_THRESH then d\<lparr>runcount := 0, holdover := 0\<rparr>
      else d\<lparr>holdover := holdover d + 1\<rparr>)"

definition switch_rate :: "bool \<Rightarrow> 'm demod \<Rightarrow> 'm demod" where
  "switch_rate app_idle d =
     (let d = (if runcount d = RUN_THRESH
               then d\<lparr>lbr_time := 1, adc_log := adc_log d @ [AdcStop, AdcStartLBR]\<rparr> else d)
      in if app_idle then
           let d = (if lbr_time d > 0 then d\<lparr>lbr_time := lbr_time d + 1\<rparr> else d)
           in if lbr_time d > LBR_HOLDOUT
              then d\<lparr>adc_log := adc_log d @ [AdcStop, AdcStartHBR],
                     runcount := 0, holdover := 0, lbr_time := 0\<rparr>
              else d
         else d)"

text \<open>The baud clock: the new state and whether a bit is put out.\<close>

definition baud_clock :: "int \<Rightarrow> FSK_demod_state \<Rightarrow> FSK_demod_state \<times> bool" where
  "baud_clock newsample f =
     (let f = (if lastsample f \<noteq> newsample then
                 f\<lparr>lastsample := newsample,
                   baud_pll := (if baud_pll f < 0x8000 then baud_pll f + baud_pll_adj f
                                else baud_pll f - baud_pll_adj f)\<rparr>
               else f);
          f = f\<lparr>baud_pll := baud_pll f + baud_incr f\<rparr>
      in if baud_pll f \<ge> 0x10000 then (f\<lparr>baud_pll := baud_pll f - 0x10000\<rparr>, True)
         else (f, False))"

definition demod_sample ::
  "FSK_demod_const \<Rightarrow> bool \<Rightarrow> (int \<Rightarrow> 'm \<Rightarrow> 'm option) \<Rightarrow> int \<Rightarrow> 'm demod \<Rightarrow> 'm demod option" where
  "demod_sample fsk_const app_idle put_bit x d =
     (case push_sample fsk_const x (fsk_state d) of
        None \<Rightarrow> None
      | Some f \<Rightarrow>
        let sm = FSK_core fsk_const (window fsk_const f);
            newsample = c_bool (sm > 0);
            d = switch_rate app_idle (count_run sm (d\<lparr>fsk_state := f\<rparr>));
            (f, tick) = baud_clock newsample (fsk_state d);
            d = d\<lparr>fsk_state := f\<rparr>
        in if tick then map_option (\<lambda>m. d\<lparr>sink := m\<rparr>) (put_bit (lastsample f) (sink d))
           else Some d)"

fun FSKdemod ::
  "FSK_demod_const \<Rightarrow> bool \<Rightarrow> (int \<Rightarrow> 'm \<Rightarrow> 'm option) \<Rightarrow> int list \<Rightarrow> 'm demod \<Rightarrow> 'm demod option" where
  "FSKdemod fsk_const app_idle put_bit [] d = Some d"
| "FSKdemod fsk_const app_idle put_bit (x # xs) d =
     Option.bind (demod_sample fsk_const app_idle put_bit x d) (FSKdemod fsk_const app_idle put_bit xs)"

text \<open>\<^verbatim>\<open>while (a != 0) { shift++; a /= 2; }\<close>\<close>

function shift_loop :: "int \<Rightarrow> int \<Rightarrow> int" where
  "shift_loop a sh = (if a \<noteq> 0 then shift_loop (c_div a 2) (sh + 1) else sh)"
  by pat_completeness auto
termination
  by (relation "measure (\<lambda>(a, sh). nat \<bar>a\<bar>)") (auto simp: c_div_def abs_mult)

declare shift_loop.simps [simp del]

definition demodInit :: "FSK_demod_const \<Rightarrow> FSK_demod_state \<Rightarrow> FSK_demod_state" where
  "demodInit fsk_const f =
     (let incr = c_div (baud_rate fsk_const * 0x10000) (sample_rate fsk_const)
      in f\<lparr>baud_incr := incr, baud_pll := 0, baud_pll_adj := c_div incr 4,
           filter_buf := map (\<lambda>_. 0) (filter_buf f), buf_ptr := filter_size fsk_const,
           lastsample := 0, shift := shift_loop (int (filter_size fsk_const)) (-2)\<rparr>)"

section \<open>What the table generator guarantees\<close>

text \<open>\<^verbatim>\<open>gen_filter_tab\<close> writes \<^verbatim>\<open>SAMPLE_RATE / BAUD_RATE\<close> = 9 coefficients per filter, each a
  sine or cosine scaled by \<^verbatim>\<open>COS_BASE\<close> and truncated.\<close>

definition filter_ok :: "int list \<Rightarrow> bool" where
  "filter_ok c \<longleftrightarrow> length c = 9 \<and> (\<forall>v \<in> set c. \<bar>v\<bar> \<le> 16384)"

definition dsp_tables_ok :: "FSK_demod_const \<Rightarrow> bool" where
  "dsp_tables_ok k \<longleftrightarrow> sample_rate k = 74957 \<and> baud_rate k = 8000 \<and> filter_size k = 9 \<and>
     filter_ok (filter_lo_i k) \<and> filter_ok (filter_lo_q k) \<and>
     filter_ok (filter_hi_i k) \<and> filter_ok (filter_hi_q k)"

text \<open>The invariant of the demodulator between two samples.\<close>

definition demod_inv :: "FSK_demod_state \<Rightarrow> bool" where
  "demod_inv f \<longleftrightarrow> length (filter_buf f) = 18 \<and> 9 \<le> buf_ptr f \<and> buf_ptr f < 18 \<and>
     (\<forall>v \<in> set (filter_buf f). \<bar>v\<bar> \<le> 512) \<and> baud_incr f = 6994 \<and> baud_pll_adj f = 1748 \<and>
     0 \<le> baud_pll f \<and> baud_pll f < 0x10000 \<and> lastsample f \<in> {0, 1} \<and> shift f = 2"

definition adc_range :: "int \<Rightarrow> bool" where
  "adc_range x \<longleftrightarrow> -2048 \<le> x \<and> x < 2048"

text \<open>Nine terms of \<open>512 * 16384\<close> stay far below \<open>2 ^ 31\<close>, at every step of the loop.\<close>

definition corr_upto :: "int list \<Rightarrow> int list \<Rightarrow> nat \<Rightarrow> int" where
  "corr_upto b c n = fold (\<lambda>j a. a + b ! j * c ! j) [0..<n] 0"

lemma corr_upto_simps [simp]:
  "corr_upto b c 0 = 0"
  "corr_upto b c (Suc n) = corr_upto b c n + b ! n * c ! n"
  by (simp_all add: corr_upto_def)

lemma corr_upto_bound:
  assumes "\<forall>v \<in> set b. \<bar>v\<bar> \<le> 512" "filter_ok c" "n \<le> length b" "n \<le> 9"
  shows "\<bar>corr_upto b c n\<bar> \<le> 8388608 * int n"
  using assms(3,4)
proof (induction n)
  case 0 then show ?case by simp
next
  case (Suc n)
  have "\<bar>b ! n\<bar> \<le> 512" "\<bar>c ! n\<bar> \<le> 16384"
    using assms Suc.prems by (simp_all add: filter_ok_def)
  then have "\<bar>b ! n * c ! n\<bar> \<le> 512 * 16384"
    unfolding abs_mult by (intro mult_mono) auto
  then show ?case using Suc by simp
qed

lemma drop_bit_bound:
  fixes v :: int
  assumes "\<bar>v\<bar> \<le> 75497472"
  shows "\<bar>drop_bit 14 v\<bar> \<le> 4608"
proof -
  have "-75497472 div 16384 \<le> v div 16384" "v div 16384 \<le> 75497472 div 16384"
    using assms by (intro zdiv_mono1; simp)+
  then show ?thesis by (simp add: drop_bit_eq_div)
qed

lemma square_bound:
  fixes v :: int
  assumes "\<bar>v\<bar> \<le> 4608"
  shows "0 \<le> v * v" "v * v \<le> 21233664"
proof -
  have "\<bar>v\<bar> * \<bar>v\<bar> \<le> 4608 * 4608" using assms by (intro mult_mono) auto
  then show "v * v \<le> 21233664" by simp
qed simp

lemma corr_eq: "filter_size k = 9 \<Longrightarrow> corr k b c = corr_upto b c 9"
  by (simp add: corr_def corr_upto_def)

lemma corr_square_bound:
  assumes "\<forall>v \<in> set b. \<bar>v\<bar> \<le> 512" "filter_ok c" "length b = 9" "filter_size k = 9"
  shows "0 \<le> drop_bit 14 (corr k b c) * drop_bit 14 (corr k b c)"
    "drop_bit 14 (corr k b c) * drop_bit 14 (corr k b c) \<le> 21233664"
proof -
  have "\<bar>corr k b c\<bar> \<le> 75497472"
    using corr_upto_bound [of b c 9] assms by (simp add: corr_eq)
  from square_bound [OF drop_bit_bound [OF this]]
  show "0 \<le> drop_bit 14 (corr k b c) * drop_bit 14 (corr k b c)"
    "drop_bit 14 (corr k b c) * drop_bit 14 (corr k b c) \<le> 21233664" by auto
qed

lemma FSK_core_bound:
  assumes "dsp_tables_ok k" "\<forall>v \<in> set b. \<bar>v\<bar> \<le> 512" "length b = 9"
  shows "\<bar>FSK_core k b\<bar> \<le> 42467328"
proof -
  have k: "filter_size k = 9" "filter_ok (filter_lo_i k)" "filter_ok (filter_lo_q k)"
    "filter_ok (filter_hi_i k)" "filter_ok (filter_hi_q k)"
    using assms(1) by (simp_all add: dsp_tables_ok_def)
  note B = corr_square_bound [OF assms(2) _ assms(3) k(1)]
  show ?thesis
    using B [OF k(2)] B [OF k(3)] B [OF k(4)] B [OF k(5)] unfolding FSK_core_def Let_def by linarith
qed

section \<open>The filter buffer is a nine-sample shift register\<close>

definition window_push :: "int \<Rightarrow> int list \<Rightarrow> int list" where
  "window_push x w = tl w @ [x]"

lemma move_down:
  assumes "length b = 18" "n \<le> 9"
  shows "fold (\<lambda>i b. b[i := b ! (9 + i)]) [0..<n] b = take n (drop 9 b) @ drop n b"
  using assms(2)
proof (induction n)
  case 0 then show ?case by simp
next
  case (Suc n)
  let ?b = "take n (drop 9 b) @ drop n b"
  have "?b ! (9 + n) = b ! (9 + n)"
    using assms(1) Suc.prems by (simp add: nth_append add.commute)
  moreover have "drop n b = b ! n # drop (Suc n) b"
    using assms(1) Suc.prems by (simp add: Cons_nth_drop_Suc)
  moreover have "take (Suc n) (drop 9 b) = take n (drop 9 b) @ [b ! (9 + n)]"
    using assms(1) Suc.prems by (simp add: take_Suc_conv_app_nth)
  ultimately show ?case
    using Suc assms(1) by (simp add: list_update_append add.commute)
qed

lemma window_length: "filter_size k = 9 \<Longrightarrow> demod_inv f \<Longrightarrow> length (window k f) = 9"
  by (auto simp: window_def demod_inv_def)

lemma window_bound:
  "demod_inv f \<Longrightarrow> v \<in> set (window k f) \<Longrightarrow> \<bar>v\<bar> \<le> 512"
  unfolding demod_inv_def window_def by (meson in_set_dropD in_set_takeD)

lemma adc_shift_bound: "adc_range x \<Longrightarrow> \<bar>x div 4\<bar> \<le> 512"
  unfolding adc_range_def by linarith

lemma take_drop_update:
  assumes "i < length b" "i \<ge> 9"
  shows "take 9 (drop (i - 8) (b[i := v])) = tl (take 9 (drop (i - 9) b)) @ [v]"
proof (rule nth_equalityI)
  fix j assume "j < length (take 9 (drop (i - 8) (b[i := v])))"
  then show "take 9 (drop (i - 8) (b[i := v])) ! j = (tl (take 9 (drop (i - 9) b)) @ [v]) ! j"
    using assms by (auto simp: nth_append nth_tl nth_list_update Suc_diff_Suc numeral_eq_Suc)
qed (use assms in auto)

lemma push_sample_step:
  assumes "filter_size k = 9" "demod_inv f" "adc_range x"
  obtains f' where "push_sample k x f = Some f'" "demod_inv f'"
    "window k f' = window_push (x div 4) (window k f)"
    "f' = f\<lparr>filter_buf := filter_buf f', buf_ptr := buf_ptr f'\<rparr>"
proof -
  let ?b = "(filter_buf f)[buf_ptr f := x div 4]"
  have len: "length ?b = 18" and p: "9 \<le> buf_ptr f" "buf_ptr f < 18"
    using assms(2) by (simp_all add: demod_inv_def)
  have bnd: "\<forall>v \<in> set ?b. \<bar>v\<bar> \<le> 512"
    using assms(2) adc_shift_bound [OF assms(3)] set_update_subset_insert
    unfolding demod_inv_def by fastforce
  have win: "take 9 (drop (buf_ptr f - 8) ?b) = window_push (x div 4) (window k f)"
    using assms(1,2) p by (simp add: take_drop_update window_def window_push_def demod_inv_def)
  show thesis
  proof (cases "buf_ptr f = 17")
    case False
    let ?f = "f\<lparr>filter_buf := ?b, buf_ptr := buf_ptr f + 1\<rparr>"
    have "push_sample k x f = Some ?f"
      using assms(1,2) False by (simp add: push_sample_def demod_inv_def)
    moreover have "demod_inv ?f"
      using assms(2) bnd False by (simp add: demod_inv_def)
    moreover have "window k ?f = window_push (x div 4) (window k f)"
      using win p assms(1) by (simp add: window_def Suc_diff_le)
    ultimately show thesis by (intro that [of ?f]) simp_all
  next
    case True
    let ?c = "take 9 (drop 9 ?b) @ drop 9 ?b"
    let ?f = "f\<lparr>filter_buf := ?c, buf_ptr := 9\<rparr>"
    have "push_sample k x f = Some ?f"
      using assms(1,2) True len by (simp add: push_sample_def demod_inv_def move_down)
    moreover have "demod_inv ?f"
    proof -
      have "set ?c \<subseteq> set ?b" by (simp add: set_drop_subset set_take_subset [THEN subset_trans])
      then have "\<forall>v \<in> set ?c. \<bar>v\<bar> \<le> 512" using bnd by (meson subsetD)
      then show ?thesis using assms(2) len by (simp add: demod_inv_def)
    qed
    moreover have "window k ?f = window_push (x div 4) (window k f)"
    proof -
      have "window k ?f = drop 9 ?b"
        using assms(1) len by (simp add: window_def)
      also have "\<dots> = window_push (x div 4) (window k f)" using win True len by simp
      finally show ?thesis .
    qed
    ultimately show thesis by (intro that [of ?f]) simp_all
  qed
qed

section \<open>The baud clock\<close>

lemma baud_clock_inv:
  assumes "demod_inv f" "s \<in> {0, 1}" "baud_clock s f = (f', tick)"
  shows "demod_inv f'" "lastsample f' = s" "filter_buf f' = filter_buf f" "buf_ptr f' = buf_ptr f"
  using assms unfolding baud_clock_def by (auto simp: demod_inv_def Let_def split: if_splits)

text \<open>While the line does not change, the clock divides exactly.\<close>

fun clock_run :: "int \<Rightarrow> nat \<Rightarrow> FSK_demod_state \<Rightarrow> FSK_demod_state \<times> nat" where
  "clock_run s 0 f = (f, 0)"
| "clock_run s (Suc n) f =
     (let (f, tick) = baud_clock s f; (f, m) = clock_run s n f in (f, m + of_bool tick))"

lemma clock_run_count:
  assumes "demod_inv f" "lastsample f = s" "clock_run s n f = (f', m)"
  shows "demod_inv f' \<and> lastsample f' = s \<and>
    int m = (baud_pll f + 6994 * int n) div 65536 \<and> baud_pll f' = (baud_pll f + 6994 * int n) mod 65536"
  using assms
proof (induction n arbitrary: f m)
  case 0 then show ?case by (auto simp: demod_inv_def)
next
  case (Suc n)
  obtain g tick where g: "baud_clock s f = (g, tick)" by fastforce
  obtain j where j: "clock_run s n g = (f', j)" and m: "m = j + of_bool tick"
    using Suc.prems(3) g by (auto simp: Let_def split: prod.splits)
  have inv: "demod_inv g" "lastsample g = s"
    using baud_clock_inv [OF Suc.prems(1) _ g] Suc.prems(1,2) by (auto simp: demod_inv_def)
  have "baud_pll g = baud_pll f + 6994 - 65536 * of_bool tick"
    using g Suc.prems(1,2) by (auto simp: baud_clock_def Let_def demod_inv_def split: if_splits)
  then have eq: "baud_pll f + 6994 * int (Suc n) = baud_pll g + 6994 * int n + 65536 * of_bool tick"
    by simp
  show ?case
    unfolding eq using Suc.IH [OF inv j] m by (cases tick) simp_all
qed

text \<open>The state after \<^verbatim>\<open>demodInit\<close>.\<close>

lemma shift_loop_9: "shift_loop 9 (-2) = 2"
  by (simp add: shift_loop.simps c_div_def)

lemma demodInit_values:
  assumes "dsp_tables_ok k" "length (filter_buf f) = 18"
  shows "demod_inv (demodInit k f)" "window k (demodInit k f) = replicate 9 0"
    "baud_pll (demodInit k f) = 0" "lastsample (demodInit k f) = 0"
  using assms
  by (auto simp: demodInit_def Let_def dsp_tables_ok_def demod_inv_def shift_loop_9 c_div_def
      window_def map_replicate_const take_replicate drop_replicate)

section \<open>Refinement of the sample loop\<close>

text \<open>The specification keeps exactly nine samples and shifts them: \<open>filter_buf\<close> is the register
  and \<open>buf_ptr\<close> stays at 9.\<close>

definition push_spec :: "int \<Rightarrow> FSK_demod_state \<Rightarrow> FSK_demod_state" where
  "push_spec x f = f\<lparr>filter_buf := window_push (x div 4) (filter_buf f)\<rparr>"

definition decide ::
  "FSK_demod_const \<Rightarrow> bool \<Rightarrow> (int \<Rightarrow> 'm \<Rightarrow> 'm option) \<Rightarrow> int list \<Rightarrow> 'm demod \<Rightarrow> 'm demod option" where
  "decide k app_idle put_bit w d =
     (let sm = FSK_core k w;
          d = switch_rate app_idle (count_run sm d);
          (f, tick) = baud_clock (c_bool (sm > 0)) (fsk_state d);
          d = d\<lparr>fsk_state := f\<rparr>
      in if tick then map_option (\<lambda>m. d\<lparr>sink := m\<rparr>) (put_bit (lastsample f) (sink d))
         else Some d)"

fun FSKdemod_spec ::
  "FSK_demod_const \<Rightarrow> bool \<Rightarrow> (int \<Rightarrow> 'm \<Rightarrow> 'm option) \<Rightarrow> int list \<Rightarrow> 'm demod \<Rightarrow> 'm demod option" where
  "FSKdemod_spec k app_idle put_bit [] d = Some d"
| "FSKdemod_spec k app_idle put_bit (x # xs) d =
     (let f = push_spec x (fsk_state d)
      in Option.bind (decide k app_idle put_bit (filter_buf f) (d\<lparr>fsk_state := f\<rparr>))
           (FSKdemod_spec k app_idle put_bit xs))"

definition abs_state :: "FSK_demod_const \<Rightarrow> FSK_demod_state \<Rightarrow> FSK_demod_state" where
  "abs_state k f = f\<lparr>filter_buf := window k f, buf_ptr := 9\<rparr>"

definition abs_demod :: "FSK_demod_const \<Rightarrow> 'm demod \<Rightarrow> 'm demod" where
  "abs_demod k d = d\<lparr>fsk_state := abs_state k (fsk_state d)\<rparr>"

lemma demod_sample_decide:
  "demod_sample k i pb x d =
     (case push_sample k x (fsk_state d) of None \<Rightarrow> None
      | Some f \<Rightarrow> decide k i pb (window k f) (d\<lparr>fsk_state := f\<rparr>))"
  by (simp add: demod_sample_def decide_def Let_def split: option.splits)

lemma rate_frame [simp]:
  "fsk_state (count_run v d) = fsk_state d" "sink (count_run v d) = sink d"
  "fsk_state (switch_rate i d) = fsk_state d" "sink (switch_rate i d) = sink d"
  by (simp_all add: count_run_def switch_rate_def Let_def)

lemma rate_fsk_update:
  "count_run v (d\<lparr>fsk_state := f\<rparr>) = (count_run v d)\<lparr>fsk_state := f\<rparr>"
  "switch_rate i (d\<lparr>fsk_state := f\<rparr>) = (switch_rate i d)\<lparr>fsk_state := f\<rparr>"
  by (simp_all add: count_run_def switch_rate_def Let_def)

lemma baud_clock_abs:
  "baud_clock s f = (g, t) \<Longrightarrow> baud_clock s (abs_state k f) = (abs_state k g, t)"
  by (auto simp: baud_clock_def abs_state_def window_def Let_def split: if_splits)

lemma decide_abs:
  fixes d :: "'a demod"
  shows "map_option (abs_demod k) (decide k i pb w d) = decide k i pb w (abs_demod k d)"
proof -
  obtain g t where g: "baud_clock (c_bool (FSK_core k w > 0)) (fsk_state d) = (g, t)" by fastforce
  have ls: "lastsample (abs_state k g) = lastsample g" by (simp add: abs_state_def)
  have comm: "(e :: 'a demod)\<lparr>sink := m, fsk_state := h\<rparr> = e\<lparr>fsk_state := h, sink := m\<rparr>" for e m h
    by simp
  show ?thesis
    by (simp add: decide_def Let_def g baud_clock_abs [OF g] ls abs_demod_def rate_fsk_update
        option.map_comp comp_def comm)
qed

lemma decide_inv:
  assumes "demod_inv (fsk_state d)" "decide k i pb w d = Some d'"
  shows "demod_inv (fsk_state d')" "window k (fsk_state d') = window k (fsk_state d)"
proof -
  obtain g t where g: "baud_clock (c_bool (FSK_core k w > 0)) (fsk_state d) = (g, t)" by fastforce
  have "fsk_state d' = g"
    using assms(2) by (auto simp: decide_def Let_def g split: if_splits)
  moreover have "c_bool b \<in> {0, 1}" for b by (cases b) auto
  ultimately show "demod_inv (fsk_state d')" "window k (fsk_state d') = window k (fsk_state d)"
    using baud_clock_inv [OF assms(1) _ g] by (simp_all add: window_def)
qed

lemma FSKdemod_abs:
  assumes "dsp_tables_ok k" "demod_inv (fsk_state d)" "\<forall>x \<in> set xs. adc_range x"
  shows "map_option (abs_demod k) (FSKdemod k i pb xs d) = FSKdemod_spec k i pb xs (abs_demod k d)"
  using assms(2,3)
proof (induction xs arbitrary: d)
  case Nil then show ?case by simp
next
  case (Cons x xs)
  have k: "filter_size k = 9" using assms(1) by (simp add: dsp_tables_ok_def)
  obtain f where f: "push_sample k x (fsk_state d) = Some f" "demod_inv f"
    "window k f = window_push (x div 4) (window k (fsk_state d))"
    "f = (fsk_state d)\<lparr>filter_buf := filter_buf f, buf_ptr := buf_ptr f\<rparr>"
    using push_sample_step [OF k Cons.prems(1), of x] Cons.prems(2) by (metis list.set_intros(1))
  have "abs_state k f = push_spec x (abs_state k (fsk_state d))"
    by (subst (1) abs_state_def, subst f(4), simp add: f(3) push_spec_def abs_state_def)
  then have ab: "abs_demod k (d\<lparr>fsk_state := f\<rparr>) =
      (abs_demod k d)\<lparr>fsk_state := push_spec x (fsk_state (abs_demod k d))\<rparr>"
    by (simp add: abs_demod_def)
  have w: "filter_buf (push_spec x (fsk_state (abs_demod k d))) = window k f"
    by (simp add: push_spec_def abs_demod_def abs_state_def f(3))
  show ?case
  proof (cases "decide k i pb (window k f) (d\<lparr>fsk_state := f\<rparr>)")
    case None
    then show ?thesis
      using decide_abs [of k i pb "window k f" "d\<lparr>fsk_state := f\<rparr>"]
      by (simp add: demod_sample_decide f(1) Let_def w flip: ab)
  next
    case (Some d')
    then have "demod_inv (fsk_state d')" using decide_inv(1) [OF _ Some] f(2) by simp
    then show ?thesis
      using decide_abs [of k i pb "window k f" "d\<lparr>fsk_state := f\<rparr>", symmetric] Some Cons
      by (simp add: demod_sample_decide f(1) Let_def w flip: ab)
  qed
qed

text \<open>The nine samples the correlators see are the last nine that arrived.\<close>

lemma FSKdemod_window:
  assumes "dsp_tables_ok k" "demod_inv (fsk_state d)" "\<forall>x \<in> set xs. adc_range x"
    "FSKdemod k i pb xs d = Some d'"
  shows "demod_inv (fsk_state d') \<and> window k (fsk_state d') =
    drop (length xs) (window k (fsk_state d) @ map (\<lambda>x. x div 4) xs)"
  using assms(2-4)
proof (induction xs arbitrary: d)
  case Nil then show ?case by simp
next
  case (Cons x xs)
  have k: "filter_size k = 9" using assms(1) by (simp add: dsp_tables_ok_def)
  obtain f where f: "push_sample k x (fsk_state d) = Some f" "demod_inv f"
    "window k f = window_push (x div 4) (window k (fsk_state d))"
    using push_sample_step [OF k Cons.prems(1), of x] Cons.prems(2) by (metis list.set_intros(1))
  obtain e where e: "decide k i pb (window k f) (d\<lparr>fsk_state := f\<rparr>) = Some e"
    "FSKdemod k i pb xs e = Some d'"
    using Cons.prems(3) by (auto simp: demod_sample_decide f(1) split: Option.bind_splits)
  have "demod_inv (fsk_state e)" "window k (fsk_state e) = window k f"
    using decide_inv [OF _ e(1)] f(2) by simp_all
  moreover have "drop (Suc (length xs)) (window k (fsk_state d) @ x div 4 # map (\<lambda>x. x div 4) xs) =
      drop (length xs) (window_push (x div 4) (window k (fsk_state d)) @ map (\<lambda>x. x div 4) xs)"
    using window_length [OF k Cons.prems(1)]
    by (cases "window k (fsk_state d)") (auto simp: window_push_def)
  ultimately show ?case
    using Cons.IH [of e] Cons.prems(2) e(2) f(3) by simp
qed

section \<open>The contract of the receiver of the bits\<close>

locale bit_sink =
  fixes put_bit :: "int \<Rightarrow> 'm \<Rightarrow> 'm option"
    and ok :: "'m \<Rightarrow> bool"
  assumes put_bit_ok: "ok m \<Longrightarrow> b \<in> {0, 1} \<Longrightarrow> \<exists>m'. put_bit b m = Some m' \<and> ok m'"
begin

lemma decide_total:
  assumes "demod_inv (fsk_state d)" "ok (sink d)"
  shows "\<exists>d'. decide k i put_bit w d = Some d' \<and> ok (sink d')"
proof -
  obtain g t where g: "baud_clock (c_bool (FSK_core k w > 0)) (fsk_state d) = (g, t)" by fastforce
  have "c_bool b \<in> {0, 1}" for b by (cases b) auto
  then have "lastsample g \<in> {0, 1}"
    using baud_clock_inv(2) [OF assms(1) _ g] by simp
  then obtain m where "put_bit (lastsample g) (sink d) = Some m" "ok m"
    using put_bit_ok [OF assms(2)] by blast
  then show ?thesis
    using assms(2) by (simp add: decide_def Let_def g)
qed

lemma FSKdemod_total:
  assumes "dsp_tables_ok k" "demod_inv (fsk_state d)" "ok (sink d)" "\<forall>x \<in> set xs. adc_range x"
  shows "\<exists>d'. FSKdemod k i put_bit xs d = Some d' \<and> demod_inv (fsk_state d') \<and> ok (sink d')"
  using assms(2-4)
proof (induction xs arbitrary: d)
  case Nil then show ?case by simp
next
  case (Cons x xs)
  have k: "filter_size k = 9" using assms(1) by (simp add: dsp_tables_ok_def)
  obtain f where f: "push_sample k x (fsk_state d) = Some f" "demod_inv f"
    using push_sample_step [OF k Cons.prems(1), of x] Cons.prems(3) by (metis list.set_intros(1))
  obtain e where e: "decide k i put_bit (window k f) (d\<lparr>fsk_state := f\<rparr>) = Some e" "ok (sink e)"
    using decide_total [of "d\<lparr>fsk_state := f\<rparr>" k i "window k f"] f(2) Cons.prems(2) by auto
  then have "demod_inv (fsk_state e)" using decide_inv(1) [OF _ e(1)] f(2) by simp
  then show ?case
    using Cons.IH [of e] Cons.prems(3) e by (simp add: demod_sample_decide f(1))
qed

end

section \<open>Properties of the physical layer\<close>

definition example_tables :: FSK_demod_const where
  "example_tables = \<lparr>f_lo = 8666, f_hi = 12500, sample_rate = 74957, baud_rate = 8000, filter_size = 9,
     filter_lo_i = [16384, 12250, 1934, -9357, -15927, -14461, -5697, 5940, 14580],
     filter_lo_q = [0, 10880, 16269, 13449, 3842, -7703, -15361, -15268, -7473],
     filter_hi_i = [16384, 8190, -8195, -16383, -8179, 8206, 16383, 8173, -8211],
     filter_hi_q = [0, 14189, 14186, -8, -14195, -14180, 17, 14199, 14177]\<rparr>"

lemma example_tables_ok: "dsp_tables_ok example_tables"
  by (simp add: dsp_tables_ok_def example_tables_def filter_ok_def)

text \<open>C19: Refinement of the demodulator.  The double-length filter buffer with its occasional block
  move behaves as a nine-sample shift register: on every run of samples in the ADC's range the loop
  yields what the register-based specification yields, bit deliveries included.\<close>

theorem FSKdemod_refines_shift_register:
  assumes "dsp_tables_ok k" "demod_inv (fsk_state d)" "\<forall>x \<in> set xs. adc_range x"
  shows "map_option (abs_demod k) (FSKdemod k idle pb xs d) = FSKdemod_spec k idle pb xs (abs_demod k d)"
  using FSKdemod_abs [OF assms] .

definition blank_fsk :: FSK_demod_state where
  "blank_fsk = \<lparr>filter_buf = replicate 18 0, buf_ptr = 0, baud_incr = 0, baud_pll = 0,
     baud_pll_adj = 0, lastsample = 0, shift = 0\<rparr>"

definition demod_start :: "FSK_demod_const \<Rightarrow> 'm \<Rightarrow> 'm demod" where
  "demod_start k m = \<lparr>fsk_state = demodInit k blank_fsk, runcount = 0, lbr_time = 0, holdover = 0,
     adc_log = [], sink = m\<rparr>"

lemma demod_start_inv:
  assumes "dsp_tables_ok k"
  shows "demod_inv (fsk_state (demod_start k m))" "window k (fsk_state (demod_start k m)) = replicate 9 0"
    "sink (demod_start k m) = m"
  using demodInit_values [OF assms, of blank_fsk] by (simp_all add: demod_start_def blank_fsk_def)

theorem FSKdemod_refines_shift_register_witness:
  "map_option (abs_demod example_tables)
     (FSKdemod example_tables True (\<lambda>b l. Some (l @ [b])) [1000, -1000] (demod_start example_tables [])) =
   FSKdemod_spec example_tables True (\<lambda>b l. Some (l @ [b])) [1000, -1000]
     (abs_demod example_tables (demod_start example_tables []))"
  by (rule FSKdemod_refines_shift_register [OF example_tables_ok demod_start_inv(1) [OF example_tables_ok]])
     (simp add: adc_range_def)

text \<open>C29: No correlation and no decision of the demodulator leaves the range of \<^verbatim>\<open>int32_t\<close>: after
  any run of ADC samples, every partial sum of each of the four correlations over the current window
  is below \<open>2 ^ 31\<close> in absolute value, and so is the discriminator \<^verbatim>\<open>FSK_core\<close>.\<close>

theorem FSKdemod_no_overflow:
  assumes "dsp_tables_ok k" "demod_inv (fsk_state d)" "\<forall>x \<in> set xs. adc_range x"
    "FSKdemod k idle pb xs d = Some d'"
  shows "(\<forall>n \<le> 9. \<forall>c \<in> {filter_lo_i k, filter_lo_q k, filter_hi_i k, filter_hi_q k}.
            \<bar>corr_upto (window k (fsk_state d')) c n\<bar> < 2 ^ 31) \<and>
         \<bar>FSK_core k (window k (fsk_state d'))\<bar> < 2 ^ 31 \<and>
         (\<forall>c. corr k (window k (fsk_state d')) c = corr_upto (window k (fsk_state d')) c 9)"
proof (intro conjI allI impI ballI)
  have inv: "demod_inv (fsk_state d')" using FSKdemod_window [OF assms] by simp
  have k: "filter_size k = 9" using assms(1) by (simp add: dsp_tables_ok_def)
  let ?w = "window k (fsk_state d')"
  have w: "length ?w = 9" "\<forall>v \<in> set ?w. \<bar>v\<bar> \<le> 512"
    using window_length [OF k inv] window_bound [OF inv] by auto
  show "\<bar>FSK_core k ?w\<bar> < 2 ^ 31" using FSK_core_bound [OF assms(1) w(2,1)] by simp
  show "corr k ?w c = corr_upto ?w c 9" for c using corr_eq [OF k] .
  fix n c assume n: "n \<le> (9 :: nat)" and "c \<in> {filter_lo_i k, filter_lo_q k, filter_hi_i k, filter_hi_q k}"
  then have "filter_ok c" using assms(1) by (auto simp: dsp_tables_ok_def)
  with corr_upto_bound [OF w(2) this] w(1) n show "\<bar>corr_upto ?w c n\<bar> < 2 ^ 31" by fastforce
qed

theorem FSKdemod_no_overflow_witness:
  "\<exists>d'. FSKdemod example_tables True (\<lambda>b l. Some (l @ [b])) [1000] (demod_start example_tables []) = Some d'
     \<and> \<bar>FSK_core example_tables (window example_tables (fsk_state d'))\<bar> < 2 ^ 31"
proof -
  note inv = demod_start_inv(1) [OF example_tables_ok]
  have r: "\<forall>x \<in> set [1000]. adc_range x" by (simp add: adc_range_def)
  have "FSKdemod_spec example_tables True (\<lambda>b l. Some (l @ [b])) [1000]
      (abs_demod example_tables (demod_start example_tables ([] :: int list))) \<noteq> None"
    by (simp add: decide_def Let_def split: prod.splits)
  with FSKdemod_abs [OF example_tables_ok inv r, of True "\<lambda>b l. Some (l @ [b])" "[]"]
  obtain d' where d: "FSKdemod example_tables True (\<lambda>b l. Some (l @ [b])) [1000]
      (demod_start example_tables []) = Some d'" by fastforce
  from FSKdemod_no_overflow [OF example_tables_ok inv r d] d show ?thesis by blast
qed

text \<open>The baud clock is exact between transitions: over \<open>n\<close> samples of an unchanging line the
  demodulator puts out exactly \<open>(phase + 6994 * n) div 65536\<close> bits and keeps the remainder as
  phase; the phase never leaves \<open>0 ..< 65536\<close>.\<close>

theorem baud_clock_exact:
  assumes "demod_inv f" "lastsample f = s" "clock_run s n f = (f', m)"
  shows "int m = (baud_pll f + 6994 * int n) div 65536 \<and>
    baud_pll f' = (baud_pll f + 6994 * int n) mod 65536 \<and> demod_inv f'"
  using clock_run_count [OF assms] by simp_all

theorem baud_clock_exact_witness:
  "int (snd (clock_run 0 19 (demodInit example_tables blank_fsk))) = 2"
proof -
  have inv: "demod_inv (demodInit example_tables blank_fsk)"
    "baud_pll (demodInit example_tables blank_fsk) = 0" "lastsample (demodInit example_tables blank_fsk) = 0"
    using demodInit_values [OF example_tables_ok, of blank_fsk] by (simp_all add: blank_fsk_def)
  show ?thesis
    using baud_clock_exact [OF inv(1) inv(3), of 19 "fst (clock_run 0 19 (demodInit example_tables blank_fsk))"]
    by (simp add: inv(2))
qed

text \<open>The sampling interrupt over a run of conversions.\<close>

fun analog_run :: "u16 list \<Rightarrow> analog \<Rightarrow> analog option" where
  "analog_run [] s = Some s"
| "analog_run (v # vs) s = Option.bind (analog_fast_isr v s) (analog_run vs)"

definition delivered :: "analog \<Rightarrow> u16 list" where
  "delivered s = take (buf_n s) (drop (bufloc s) (mic_sample s))"

lemma analog_run_append: "analog_run (xs @ ys) s = Option.bind (analog_run xs s) (analog_run ys)"
  by (induction xs arbitrary: s) (auto split: Option.bind_splits)

lemma analog_fill:
  assumes "length (mic_sample s) = 512" "adc_current_index s = p" "p = 0 \<or> p = 256" "length vs < 256"
  shows "analog_run vs s = Some (s\<lparr>mic_sample := take p (mic_sample s) @ vs @ drop (p + length vs) (mic_sample s),
            adc_current_index := p + length vs\<rparr>)"
  using assms(4)
proof (induction vs rule: rev_induct)
  case Nil then show ?case using assms by simp
next
  case (snoc v vs)
  have "drop (p + length vs) (mic_sample s) =
      mic_sample s ! (p + length vs) # drop (p + Suc (length vs)) (mic_sample s)"
    using assms snoc.prems by (subst Cons_nth_drop_Suc [symmetric]) auto
  then show ?case
    using snoc assms by (auto simp: analog_run_append analog_fast_isr_def Let_def list_update_append)
qed

text \<open>C32: The sampling interrupt never writes outside \<^verbatim>\<open>mic_sample\<close>, and every 256 conversions it
  delivers exactly those 256 samples, in order, alternating between the halves of the buffer and
  leaving the other half untouched.\<close>

theorem analog_double_buffer:
  assumes "length (mic_sample s) = 512" "adc_current_index s = p" "p = 0 \<or> p = 256" "length vs = 256"
  shows "\<exists>s'. analog_run vs s = Some s' \<and> delivered s' = vs \<and> bufloc s' = p \<and>
     dataReadyFlag s' = dataReadyFlag s + 1 \<and> adc_current_index s' = 256 - p \<and>
     length (mic_sample s') = 512 \<and>
     take 256 (drop (256 - p) (mic_sample s')) = take 256 (drop (256 - p) (mic_sample s))"
proof -
  obtain ws v where vs: "vs = ws @ [v]" and lw: "length ws = 255"
    using assms(4) by (cases vs rule: rev_exhaust) auto
  have d: "drop (p + 255) (mic_sample s) = mic_sample s ! (p + 255) # drop (p + 256) (mic_sample s)"
    using assms by (subst Cons_nth_drop_Suc [symmetric]) auto
  show ?thesis
    using assms lw d
    by (auto simp: vs analog_run_append analog_fill [OF assms(1-3)] analog_fast_isr_def Let_def list_update_append delivered_def)
qed

theorem analog_double_buffer_witness:
  "\<exists>s'. analog_run (replicate 256 7) analog_init = Some s' \<and> delivered s' = replicate 256 7"
  using analog_double_buffer [of analog_init 0 "replicate 256 7"] by (auto simp: analog_init_def)

text \<open>The switch to the low bit rate is not a single event per preamble, whatever the comment in
  \<^verbatim>\<open>FSKdemod\<close> says: a \<open>1\<close> decided while the run counter stands at the threshold leaves the counter
  there (it only spends holdover), so the next evaluation of the condition restarts the ADC again.\<close>

theorem lbr_switch_repeats:
  assumes "runcount d = 1500" "holdover d \<le> 80" "0 \<le> v"
  shows "adc_log (switch_rate False (count_run v d)) = adc_log d @ [AdcStop, AdcStartLBR] \<and>
    runcount (switch_rate False (count_run v d)) = 1500"
  using assms by (auto simp: switch_rate_def count_run_def Let_def not_less)

theorem lbr_switch_repeats_witness:
  "adc_log (switch_rate False (count_run 5 ((demod_start example_tables ([] :: nat list))\<lparr>runcount := 1500\<rparr>)))
     = [AdcStop, AdcStartLBR]"
  using lbr_switch_repeats [of "(demod_start example_tables ([] :: nat list))\<lparr>runcount := 1500\<rparr>" 5]
  by (simp add: demod_start_def)

end
