(* ===== verification/Flash_Driver.thy ===== *)
theory Flash_Driver
  imports LTC_Prelude
begin

text \<open>
  The flash driver: \<^verbatim>\<open>orchard/flash.c\<close> and its application wrappers
  \<^verbatim>\<open>orchard/arduino-flash.c\<close>.

  The flash controller is hardware, so it is a parameter: \<open>ftfx\<close> collects what a read or write of
  each of its registers does to the device, and how the memory behind it answers reads and stores.
  \<open>ftfx_documented\<close> states the behaviour the reference manual gives for the commands the driver
  uses.  Every register write the driver makes is also recorded in \<open>reg_log\<close>, so that what
  the driver asks of the hardware can be stated for every device, documented or not.
  A poll of \<^verbatim>\<open>FSTAT\<close> may never see \<^verbatim>\<open>CCIF\<close>; then the result is \<open>None\<close>.
\<close>

unbundle bit_operations_syntax

section \<open>Constants\<close>

abbreviation (input) FTFx_FSTAT_CCIF :: u8 where "FTFx_FSTAT_CCIF \<equiv> 0x80"
abbreviation (input) FTFx_FSTAT_ACCERR :: u8 where "FTFx_FSTAT_ACCERR \<equiv> 0x20"
abbreviation (input) FTFx_FSTAT_FPVIOL :: u8 where "FTFx_FSTAT_FPVIOL \<equiv> 0x10"
abbreviation (input) FTFx_FSTAT_MGSTAT0 :: u8 where "FTFx_FSTAT_MGSTAT0 \<equiv> 0x01"

abbreviation (input) FTFx_CMD_SECTSTAT :: u8 where "FTFx_CMD_SECTSTAT \<equiv> 0x01"
abbreviation (input) FTFx_CMD_PROGCHECK :: u8 where "FTFx_CMD_PROGCHECK \<equiv> 0x02"
abbreviation (input) FTFx_CMD_LWORDPROG :: u8 where "FTFx_CMD_LWORDPROG \<equiv> 0x06"
abbreviation (input) FTFx_CMD_SECTERASE :: u8 where "FTFx_CMD_SECTERASE \<equiv> 0x09"

abbreviation (input) F_ERR_OK :: int where "F_ERR_OK \<equiv> 0"
abbreviation (input) F_ERR_NOTBLANK :: int where "F_ERR_NOTBLANK \<equiv> -1"
abbreviation (input) F_ERR_NOTALIGN :: int where "F_ERR_NOTALIGN \<equiv> -2"
abbreviation (input) F_ERR_LOWLEVEL :: int where "F_ERR_LOWLEVEL \<equiv> -3"
abbreviation (input) F_ERR_RANGE :: int where "F_ERR_RANGE \<equiv> -4"
abbreviation (input) F_ERR_U_MARGIN :: int where "F_ERR_U_MARGIN \<equiv> -6"

text \<open>The linker places \<^verbatim>\<open>__storage_start__\<close> at \<^verbatim>\<open>0x5800\<close>, sector 22 of 32.\<close>

abbreviation (input) P_FLASH_END :: u32 where "P_FLASH_END \<equiv> 0x8000"
abbreviation (input) FTFx_PSECTOR_SIZE :: u32 where "FTFx_PSECTOR_SIZE \<equiv> 1024"
abbreviation (input) F_USER_SECTOR_START :: u32 where "F_USER_SECTOR_START \<equiv> 22"
abbreviation (input) READ_USER_MARGIN :: u32 where "READ_USER_MARGIN \<equiv> 1"

section \<open>The controller and the driver's view of it\<close>

record 'd ftfx =
  rd_fstat :: "'d \<Rightarrow> u8 \<times> 'd"
  rd_fsec :: "'d \<Rightarrow> u8 \<times> 'd"
  wr_fstat :: "u8 \<Rightarrow> 'd \<Rightarrow> 'd"
  wr_fccob3 :: "u32 \<Rightarrow> 'd \<Rightarrow> 'd"
  wr_fccob7 :: "u32 \<Rightarrow> 'd \<Rightarrow> 'd"
  wr_fccobb :: "u32 \<Rightarrow> 'd \<Rightarrow> 'd"
  bus_mem :: "'d \<Rightarrow> mem"
  bus_store :: "u32 \<Rightarrow> u8 list \<Rightarrow> 'd \<Rightarrow> 'd"

datatype reg_write = WrFSTAT u8 | WrFCCOB3 u32 | WrFCCOB7 u32 | WrFCCOBB u32

record 'd flash_st =
  dev :: 'd
  reg_log :: "reg_write list"

fun reg_write_dev :: "'d ftfx \<Rightarrow> reg_write \<Rightarrow> 'd \<Rightarrow> 'd" where
  "reg_write_dev hw (WrFSTAT v) = wr_fstat hw v"
| "reg_write_dev hw (WrFCCOB3 v) = wr_fccob3 hw v"
| "reg_write_dev hw (WrFCCOB7 v) = wr_fccob7 hw v"
| "reg_write_dev hw (WrFCCOBB v) = wr_fccobb hw v"

definition write_reg :: "'d ftfx \<Rightarrow> reg_write \<Rightarrow> 'd flash_st \<Rightarrow> 'd flash_st" where
  "write_reg hw w s = s\<lparr>dev := reg_write_dev hw w (dev s), reg_log := reg_log s @ [w]\<rparr>"

definition readb_fstat :: "'d ftfx \<Rightarrow> 'd flash_st \<Rightarrow> u8 \<times> 'd flash_st" where
  "readb_fstat hw s = (let (v, d) = rd_fstat hw (dev s) in (v, s\<lparr>dev := d\<rparr>))"

abbreviation flash_mem :: "'d ftfx \<Rightarrow> 'd flash_st \<Rightarrow> mem" where
  "flash_mem hw s \<equiv> bus_mem hw (dev s)"

section \<open>Operations\<close>

text \<open>\<^verbatim>\<open>while (!(readb(FTFx_FSTAT) & FTFx_FSTAT_CCIF));\<close>\<close>

partial_function (option) wait_ccif :: "'d ftfx \<Rightarrow> 'd flash_st \<Rightarrow> 'd flash_st option" where
  "wait_ccif hw s =
     (let (v, s') = readb_fstat hw s
      in if v AND FTFx_FSTAT_CCIF \<noteq> 0 then Some s' else wait_ccif hw s')"

definition make_fccob :: "u32 \<Rightarrow> u32 \<Rightarrow> u32 \<Rightarrow> u32 \<Rightarrow> u32" where
  "make_fccob a b c d =
     (push_bit 24 a AND 0xff000000) OR (push_bit 16 b AND 0x00ff0000) OR
     (push_bit 8 c AND 0x0000ff00) OR (d AND 0x000000ff)"

definition fccob3_of :: "u8 \<Rightarrow> u32 \<Rightarrow> u32" where
  "fccob3_of cmd addr = (addr AND 0xffffff) OR push_bit 24 (ucast cmd)"

definition kinetis_flash_cmd ::
  "'d ftfx \<Rightarrow> u8 \<Rightarrow> u32 \<Rightarrow> u32 \<Rightarrow> u32 \<Rightarrow> 'd flash_st \<Rightarrow> (int \<times> 'd flash_st) option" where
  "kinetis_flash_cmd hw cmd addr data1 data2 s =
     (case wait_ccif hw s of None \<Rightarrow> None
      | Some s \<Rightarrow>
        let (v, s) = readb_fstat hw s;
            s = (if v AND (FTFx_FSTAT_ACCERR OR FTFx_FSTAT_FPVIOL) \<noteq> 0
                 then write_reg hw (WrFSTAT (FTFx_FSTAT_ACCERR OR FTFx_FSTAT_FPVIOL)) s else s);
            s = write_reg hw (WrFCCOB3 (fccob3_of cmd addr)) s;
            s = write_reg hw (WrFCCOB7 data1) s;
            s = write_reg hw (WrFCCOBB data2) s;
            s = write_reg hw (WrFSTAT FTFx_FSTAT_CCIF) s
        in case wait_ccif hw s of None \<Rightarrow> None
           | Some s \<Rightarrow>
             let (fstat, s) = readb_fstat hw s
             in Some (if fstat AND (FTFx_FSTAT_ACCERR OR FTFx_FSTAT_FPVIOL OR FTFx_FSTAT_MGSTAT0) \<noteq> 0
                      then F_ERR_LOWLEVEL else F_ERR_OK, s))"

text \<open>The three margin reads of one sector; the result of the last one remains.\<close>

fun margin_reads :: "'d ftfx \<Rightarrow> u32 \<Rightarrow> u32 list \<Rightarrow> int \<Rightarrow> 'd flash_st \<Rightarrow> (int \<times> 'd flash_st) option" where
  "margin_reads hw destination [] retval s = Some (retval, s)"
| "margin_reads hw destination (margin_read_level # ms) retval s =
     (let number = FTFx_PSECTOR_SIZE div 4
      in case kinetis_flash_cmd hw FTFx_CMD_SECTSTAT (destination * FTFx_PSECTOR_SIZE)
                (make_fccob (drop_bit 8 number) number margin_read_level 0) 0 s of
           None \<Rightarrow> None
         | Some (retval, s) \<Rightarrow> margin_reads hw destination ms retval s)"

function erase_loop :: "'d ftfx \<Rightarrow> u32 \<Rightarrow> u32 \<Rightarrow> int \<Rightarrow> 'd flash_st \<Rightarrow> (int \<times> 'd flash_st) option" where
  "erase_loop hw destination end retval s =
     (if destination < end then
        case kinetis_flash_cmd hw FTFx_CMD_SECTERASE (destination * FTFx_PSECTOR_SIZE) 0 0 s of
          None \<Rightarrow> None
        | Some (retval, s) \<Rightarrow>
          if F_ERR_OK \<noteq> retval then Some (retval, s)
          else case margin_reads hw destination [0, 1, 2] retval s of
                 None \<Rightarrow> None
               | Some (retval, s) \<Rightarrow> erase_loop hw (destination + 1) end retval s
      else Some (retval, s))"
  by pat_completeness auto
termination
  by (relation "measure (\<lambda>(hw, destination, end, retval, s). unat end - unat destination)")
     (auto simp: unat_inc word_less_nat_alt)

declare erase_loop.simps [simp del]

definition flashEraseSectors :: "'d ftfx \<Rightarrow> u32 \<Rightarrow> u16 \<Rightarrow> 'd flash_st \<Rightarrow> (int \<times> 'd flash_st) option" where
  "flashEraseSectors hw offset sectorCount s =
     (let destination = offset;
          end = destination + ucast sectorCount
      in if destination < F_USER_SECTOR_START then Some (F_ERR_RANGE, s)
         else if end > P_FLASH_END div FTFx_PSECTOR_SIZE then Some (F_ERR_RANGE, s)
         else erase_loop hw destination end F_ERR_OK s)"

definition flashGetSecurity :: "'d ftfx \<Rightarrow> 'd flash_st \<Rightarrow> u32 \<times> 'd flash_st" where
  "flashGetSecurity hw s = (let (v, d) = rd_fsec hw (dev s) in (ucast (v AND 3), s\<lparr>dev := d\<rparr>))"

text \<open>The two loops over the words of a programming request; \<open>is\<close> are the values of \<open>i\<close>.\<close>

fun program_words ::
  "'d ftfx \<Rightarrow> u32 \<Rightarrow> u32 \<Rightarrow> u32 list \<Rightarrow> int \<Rightarrow> 'd flash_st \<Rightarrow> (int \<times> 'd flash_st) option" where
  "program_words hw src dest [] ret s = Some (ret, s)"
| "program_words hw src dest (i # is) ret s =
     (case kinetis_flash_cmd hw FTFx_CMD_LWORDPROG (dest + i) (load32 (flash_mem hw s) (src + i)) 0 s of
        None \<Rightarrow> None
      | Some (ret, s) \<Rightarrow> program_words hw src dest is ret s)"

fun check_words ::
  "'d ftfx \<Rightarrow> u32 \<Rightarrow> u32 \<Rightarrow> u32 list \<Rightarrow> int \<Rightarrow> 'd flash_st \<Rightarrow> (int \<times> 'd flash_st) option" where
  "check_words hw src dest [] ret s = Some (ret, s)"
| "check_words hw src dest (i # is) ret s =
     (case kinetis_flash_cmd hw FTFx_CMD_PROGCHECK (dest + i) (make_fccob READ_USER_MARGIN 0 0 0)
             (load32 (flash_mem hw s) (src + i)) s of
        None \<Rightarrow> None
      | Some (ret, s) \<Rightarrow> check_words hw src dest is ret s)"

text \<open>\<^verbatim>\<open>for (i = 0; i < count; i += 4)\<close>, for a count that is a multiple of four.\<close>

definition word_offsets :: "u32 \<Rightarrow> u32 list" where
  "word_offsets count = map (\<lambda>j. of_nat (4 * j)) [0..<unat count div 4]"

definition flashProgram ::
  "'d ftfx \<Rightarrow> u32 \<Rightarrow> u32 \<Rightarrow> u32 \<Rightarrow> 'd flash_st \<Rightarrow> (int \<times> 'd flash_st) option" where
  "flashProgram hw src dest count s =
     (if count = 0 then Some (F_ERR_OK, s)
      else if dest < F_USER_SECTOR_START * FTFx_PSECTOR_SIZE \<or> dest + count > P_FLASH_END
      then Some (F_ERR_RANGE, s)
      else if count mod 4 \<noteq> 0 \<or> dest mod 4 \<noteq> 0 \<or> src mod 4 \<noteq> 0 then Some (F_ERR_NOTALIGN, s)
      else if \<not> list_all (\<lambda>i. flash_mem hw s (dest + of_nat i) = 0xFF) [0..<unat count]
      then Some (F_ERR_NOTBLANK, s)
      else case program_words hw src dest (word_offsets count) F_ERR_OK s of
             None \<Rightarrow> None
           | Some (ret, s) \<Rightarrow>
             if ret \<noteq> 0 then Some (ret, s)
             else case check_words hw src dest (word_offsets count) ret s of
                    None \<Rightarrow> None
                  | Some (ret, s) \<Rightarrow>
                    if ret \<noteq> 0 then Some (F_ERR_U_MARGIN, s) else Some (ret, s))"

text \<open>\<^verbatim>\<open>arduino-flash.c\<close>: the result passes through a \<^verbatim>\<open>uint8_t\<close> on its way back to \<^verbatim>\<open>int8_t\<close>;
  the system lock is not part of this state.\<close>

definition through_u8 :: "int \<Rightarrow> int" where
  "through_u8 v = sint (ucast (word_of_int v :: u8) :: 8 word)"

definition flashErase :: "'d ftfx \<Rightarrow> u32 \<Rightarrow> u16 \<Rightarrow> 'd flash_st \<Rightarrow> (int \<times> 'd flash_st) option" where
  "flashErase hw sectorOffset sectorCount s =
     map_option (map_prod through_u8 id) (flashEraseSectors hw sectorOffset sectorCount s)"

definition flashWrite :: "'d ftfx \<Rightarrow> u32 \<Rightarrow> u32 \<Rightarrow> u32 \<Rightarrow> 'd flash_st \<Rightarrow> (int \<times> 'd flash_st) option" where
  "flashWrite hw src dst count s =
     map_option (map_prod through_u8 id) (flashProgram hw src dst count s)"

section \<open>What the driver asks of any controller\<close>

text \<open>The commands in a log of register writes: command byte and 24-bit address of each load of
  \<^verbatim>\<open>FCCOB3\<close>.\<close>

definition commands :: "reg_write list \<Rightarrow> (u8 \<times> u32) list" where
  "commands ws = concat (map (\<lambda>w. case w of
     WrFCCOB3 v \<Rightarrow> [(ucast (drop_bit 24 v), v AND 0xffffff)] | _ \<Rightarrow> []) ws)"

lemma commands_append [simp]: "commands (a @ b) = commands a @ commands b"
  by (simp add: commands_def)

lemma commands_simps [simp]:
  "commands [] = []"
  "commands (WrFSTAT v # ws) = commands ws"
  "commands (WrFCCOB7 w # ws) = commands ws"
  "commands (WrFCCOBB w # ws) = commands ws"
  "commands (WrFCCOB3 w # ws) = (ucast (drop_bit 24 w), w AND 0xffffff) # commands ws"
  by (simp_all add: commands_def)

lemma fccob3_of_cmd [simp]: "ucast (drop_bit 24 (fccob3_of cmd addr)) = cmd"
proof (rule bit_word_eqI)
  fix n assume "n < LENGTH(8)"
  moreover have "\<not> bit (0xffffff :: u32) (24 + n)" if "n < 8"
    using that by (auto simp: less_Suc_eq numeral_eq_Suc)
  ultimately show "bit (ucast (drop_bit 24 (fccob3_of cmd addr)) :: u8) n = bit cmd n"
    by (auto simp: fccob3_of_def bit_simps)
qed

lemma fccob3_of_addr [simp]: "fccob3_of cmd addr AND 0xffffff = addr AND 0xffffff"
proof -
  have m: "(0xffffff :: u32) = mask 24" by (simp add: mask_eq_exp_minus_1)
  show ?thesis
    unfolding m by (rule bit_word_eqI) (auto simp: fccob3_of_def m bit_simps)
qed

lemma wait_ccif_log: "wait_ccif hw s = Some s' \<Longrightarrow> reg_log s' = reg_log s"
  by (erule wait_ccif.raw_induct [where P = "\<lambda>_ s s'. reg_log s' = reg_log s", rotated])
     (fastforce simp: readb_fstat_def Let_def split: prod.splits if_splits)

lemma readb_fstat_log: "readb_fstat hw s = (v, s') \<Longrightarrow> reg_log s' = reg_log s"
  by (auto simp: readb_fstat_def split: prod.splits)

lemma write_reg_log [simp]: "reg_log (write_reg hw w s) = reg_log s @ [w]"
  by (simp add: write_reg_def)

lemma kinetis_flash_cmd_commands:
  assumes "kinetis_flash_cmd hw cmd addr d1 d2 s = Some (r, s')"
  shows "commands (reg_log s') = commands (reg_log s) @ [(cmd, addr AND 0xffffff)]" "r \<in> {0, -3}"
  using assms
  by (auto simp: kinetis_flash_cmd_def Let_def split: option.splits prod.splits if_splits
      dest!: wait_ccif_log readb_fstat_log)

lemma margin_reads_commands:
  assumes "margin_reads hw dst ms r s = Some (r', s')"
  shows "commands (reg_log s') = commands (reg_log s) @ map (\<lambda>m. (0x01, (dst * 1024) AND 0xffffff)) ms"
  using assms
  by (induction ms arbitrary: r s)
     (auto simp: Let_def kinetis_flash_cmd_commands split: option.splits prod.splits)

lemma program_words_commands:
  assumes "program_words hw src dest is r s = Some (r', s')"
  shows "commands (reg_log s') = commands (reg_log s) @ map (\<lambda>i. (0x06, (dest + i) AND 0xffffff)) is"
  using assms
  by (induction "is" arbitrary: r s) (auto simp: kinetis_flash_cmd_commands split: option.splits prod.splits)

lemma check_words_commands:
  assumes "check_words hw src dest is r s = Some (r', s')"
  shows "commands (reg_log s') = commands (reg_log s) @ map (\<lambda>i. (0x02, (dest + i) AND 0xffffff)) is"
  using assms
  by (induction "is" arbitrary: r s) (auto simp: kinetis_flash_cmd_commands split: option.splits prod.splits)

text \<open>The sectors one erase request touches, in order, each with its erase and margin commands.\<close>

definition sector_commands :: "u32 \<Rightarrow> (u8 \<times> u32) list" where
  "sector_commands k = (0x09, k * 1024) # replicate 3 (0x01, k * 1024)"

lemma small_and_24: "unat (a :: u32) < 2 ^ 24 \<Longrightarrow> a AND 0xffffff = a"
proof -
  assume "unat a < 2 ^ 24"
  then have "take_bit 24 a = a"
    by (simp add: word_unat_eq_iff unsigned_take_bit_eq take_bit_nat_eq_self)
  then show ?thesis by (simp add: take_bit_eq_mask mask_eq_exp_minus_1)
qed

lemma sector_addr: "k < (32 :: u32) \<Longrightarrow> unat (k * 1024) = unat k * 1024"
  by (simp add: unat_word_ariths word_less_nat_alt)

lemma erase_loop_commands:
  assumes "erase_loop hw dst e r s = Some (r', s')" "e \<le> 32"
  shows "\<exists>new. commands (reg_log s') = commands (reg_log s) @ new \<and>
    (\<forall>(c, a) \<in> set new. c \<in> {0x09, 0x01} \<and> (\<exists>k. dst \<le> k \<and> k < e \<and> a = k * 1024))"
  using assms
proof (induction hw dst e r s rule: erase_loop.induct)
  case (1 hw dst e r s)
  show ?case
  proof (cases "dst < e")
    case False
    then show ?thesis using 1 by (simp add: erase_loop.simps)
  next
    case True
    have a: "(dst * 1024) AND 0xffffff = dst * 1024"
      using True 1(3) by (intro small_and_24) (simp add: sector_addr word_less_nat_alt word_le_nat_alt)
    have self: "\<exists>k. dst \<le> k \<and> k < e \<and> dst * 1024 = k * 1024" using True by blast
    obtain r1 s1 where c1: "kinetis_flash_cmd hw 0x09 (dst * 1024) 0 0 s = Some (r1, s1)"
      using 1(2) True by (auto simp: erase_loop.simps [of hw dst] split: option.splits)
    note k1 = kinetis_flash_cmd_commands(1) [OF c1]
    show ?thesis
    proof (cases "r1 = 0")
      case False
      then show ?thesis
        using 1(2) True c1 k1 a self by (auto simp: erase_loop.simps [of hw dst])
    next
      case z: True
      obtain r2 s2 where c2: "margin_reads hw dst [0, 1, 2] 0 s1 = Some (r2, s2)"
        using 1(2) True c1 z by (auto simp: erase_loop.simps [of hw dst] simp del: margin_reads.simps split: option.splits)
      have c3: "erase_loop hw (dst + 1) e r2 s2 = Some (r', s')"
        using 1(2) True c1 z c2 by (simp add: erase_loop.simps [of hw dst] del: margin_reads.simps)
      obtain new where new: "commands (reg_log s') = commands (reg_log s2) @ new"
        "\<forall>(c, a) \<in> set new. c \<in> {0x09, 0x01} \<and> (\<exists>k. dst + 1 \<le> k \<and> k < e \<and> a = k * 1024)"
        using 1(1) [OF True c1 refl _ _ refl c3 1(3)] z c2 by auto
      have le: "dst \<le> k" if "dst + 1 \<le> k" for k
        using that unat_inc [OF True] by (simp add: word_le_nat_alt)
      show ?thesis
        using new(1) k1 margin_reads_commands [OF c2] a self
          new(2) le by (intro exI [of _ "sector_commands dst @ new"])
            (fastforce simp: sector_commands_def numeral_eq_Suc)
    qed
  qed
qed

section \<open>The documented controller\<close>

text \<open>The commands of the reference manual the driver uses: the new contents, and whether the command
  ends without an error flag.  Programming can only clear bits.\<close>

definition sector_fill :: "u32 \<Rightarrow> mem \<Rightarrow> mem" where
  "sector_fill a m = (\<lambda>x. if in_range x a 1024 then 0xFF else m x)"

type_synonym effect = "u8 \<Rightarrow> u32 \<Rightarrow> u32 \<Rightarrow> u32 \<Rightarrow> mem \<Rightarrow> mem \<times> bool"

definition ftfx_effect :: effect where
  "ftfx_effect cmd addr d1 d2 m =
     (if cmd = FTFx_CMD_LWORDPROG then (store32 addr (load32 m addr AND d1) m, True)
      else if cmd = FTFx_CMD_SECTERASE then (sector_fill addr m, True)
      else if cmd = FTFx_CMD_SECTSTAT then
        (m, list_all (\<lambda>i. m (addr + of_nat i) = 0xFF) [0..<4 * unat (drop_bit 16 d1)])
      else if cmd = FTFx_CMD_PROGCHECK then (m, load32 m addr = d2)
      else (m, False))"

text \<open>The RAM of the KL02 lies between \<^verbatim>\<open>0x1FFFFC00\<close> and \<^verbatim>\<open>0x20000C00\<close>.\<close>

definition ram_range :: "u32 \<Rightarrow> nat \<Rightarrow> bool" where
  "ram_range a n \<longleftrightarrow> 0x1FFFFC00 \<le> unat a \<and> unat a + n \<le> 0x20000C00"

definition poll :: "'d ftfx \<Rightarrow> 'd \<Rightarrow> 'd" where
  "poll hw d = snd (rd_fstat hw d)"

text \<open>\<open>idle\<close>: no command is running.  Reading the status of an idle controller changes nothing that
  can be observed; a store to RAM stores; the error flags are cleared by writing them; a command at an aligned address of the flash, launched with clear flags,
  completes after finitely many polls with its effect done and its outcome in the flags.
  The effect of the commands is an argument, so that a faulty device can be described too.\<close>

definition cmd_aligned :: "u8 \<Rightarrow> u32 \<Rightarrow> bool" where
  "cmd_aligned cmd addr \<longleftrightarrow> addr mod 4 = 0 \<and> (cmd = FTFx_CMD_SECTERASE \<longrightarrow> addr mod 1024 = 0)"

definition ftfx_behaves :: "effect \<Rightarrow> 'd ftfx \<Rightarrow> ('d \<Rightarrow> bool) \<Rightarrow> bool" where
  "ftfx_behaves eff hw idle \<longleftrightarrow>
     (\<forall>d. idle d \<longrightarrow> fst (rd_fstat hw d) AND 0x80 \<noteq> 0 \<and> idle (poll hw d) \<and>
        bus_mem hw (poll hw d) = bus_mem hw d \<and> fst (rd_fstat hw (poll hw d)) = fst (rd_fstat hw d)) \<and>
     (\<forall>d a bs. idle d \<and> ram_range a (length bs) \<longrightarrow>
        idle (bus_store hw a bs d) \<and> bus_mem hw (bus_store hw a bs d) = put_bytes a bs (bus_mem hw d)) \<and>
     (\<forall>d. idle d \<longrightarrow> idle (wr_fstat hw 0x30 d) \<and> bus_mem hw (wr_fstat hw 0x30 d) = bus_mem hw d \<and>
        fst (rd_fstat hw (wr_fstat hw 0x30 d)) AND 0x30 = 0) \<and>
     (\<forall>d cmd addr d1 d2. idle d \<and> fst (rd_fstat hw d) AND 0x30 = 0 \<and> addr < 0x8000 \<and> cmd_aligned cmd addr \<longrightarrow>
        (\<exists>n d'. d' = (poll hw ^^ n)
                  (wr_fstat hw 0x80 (wr_fccobb hw d2 (wr_fccob7 hw d1 (wr_fccob3 hw (fccob3_of cmd addr) d)))) \<and>
           (\<forall>j < n. fst (rd_fstat hw ((poll hw ^^ j)
                  (wr_fstat hw 0x80 (wr_fccobb hw d2 (wr_fccob7 hw d1 (wr_fccob3 hw (fccob3_of cmd addr) d))))))
                AND 0x80 = 0) \<and>
           idle d' \<and> bus_mem hw d' = fst (eff cmd addr d1 d2 (bus_mem hw d)) \<and>
           (fst (rd_fstat hw d') AND 0x31 = 0) = snd (eff cmd addr d1 d2 (bus_mem hw d))))"

abbreviation ftfx_documented :: "'d ftfx \<Rightarrow> ('d \<Rightarrow> bool) \<Rightarrow> bool" where
  "ftfx_documented \<equiv> ftfx_behaves ftfx_effect"

lemma readb_fstat_poll: "readb_fstat hw s = (fst (rd_fstat hw (dev s)), s\<lparr>dev := poll hw (dev s)\<rparr>)"
  by (simp add: readb_fstat_def poll_def split: prod.splits)

lemma wait_ccif_polls:
  assumes "\<forall>j < n. fst (rd_fstat hw ((poll hw ^^ j) (dev s))) AND 0x80 = 0"
    "fst (rd_fstat hw ((poll hw ^^ n) (dev s))) AND 0x80 \<noteq> 0"
  shows "wait_ccif hw s = Some (s\<lparr>dev := poll hw ((poll hw ^^ n) (dev s))\<rparr>)"
  using assms
proof (induction n arbitrary: s)
  case 0
  then show ?case by (simp add: wait_ccif.simps [of hw s] readb_fstat_poll)
next
  case (Suc n)
  have "fst (rd_fstat hw (dev s)) AND 0x80 = 0" using Suc.prems(1) by fastforce
  then have "wait_ccif hw s = wait_ccif hw (s\<lparr>dev := poll hw (dev s)\<rparr>)"
    by (simp add: wait_ccif.simps [of hw s] readb_fstat_poll)
  moreover have "\<forall>j < n. fst (rd_fstat hw ((poll hw ^^ j) (poll hw (dev s)))) AND 0x80 = 0"
    using Suc.prems(1) by (metis Suc_less_eq funpow_Suc_right comp_apply)
  ultimately show ?case
    using Suc.IH [of "s\<lparr>dev := poll hw (dev s)\<rparr>"] Suc.prems(2)
    by (simp add: funpow_swap1)
qed

lemma word_mod4_iff: "(w :: u32) mod 4 = 0 \<longleftrightarrow> unat w mod 4 = 0"
  by (simp add: word_unat_eq_iff unat_mod)

lemma dest_word_aligned:
  assumes "dest mod 4 = 0"
  shows "(dest + of_nat (4 * k)) mod 4 = (0 :: u32)"
proof -
  have d: "4 dvd unat dest" using assms by (simp only: word_mod4_iff dvd_eq_mod_eq_0)
  have p: "4 dvd (2 :: nat) ^ LENGTH(32)" by simp
  have "4 dvd unat (of_nat (4 * k) :: u32)" unfolding unat_of_nat using p by (intro dvd_mod) simp_all
  then have "4 dvd unat (dest + of_nat (4 * k))" unfolding unat_word_ariths(1) using d p by (intro dvd_mod dvd_add)
  then show ?thesis by (simp only: word_mod4_iff dvd_eq_mod_eq_0)
qed

lemma sector_aligned: "k < 32 \<Longrightarrow> cmd_aligned cmd (k * 1024)"
proof -
  assume "k < 32"
  then have "unat (k * 1024) = unat k * 1024" by (rule sector_addr)
  then show ?thesis by (simp add: cmd_aligned_def word_unat_eq_iff unat_mod)
qed

lemma kinetis_flash_cmd_behaves:
  assumes hw: "ftfx_behaves eff hw idle" and s: "idle (dev s)" and a: "addr < 0x8000" "cmd_aligned cmd addr"
  shows "\<exists>s'. kinetis_flash_cmd hw cmd addr d1 d2 s =
      Some (if snd (eff cmd addr d1 d2 (flash_mem hw s)) then 0 else -3, s') \<and>
    idle (dev s') \<and> flash_mem hw s' = fst (eff cmd addr d1 d2 (flash_mem hw s))"
proof -
  let ?d = "poll hw (poll hw (dev s))"
  have rd: "fst (rd_fstat hw d) AND 0x80 \<noteq> 0 \<and> idle (poll hw d) \<and>
      bus_mem hw (poll hw d) = bus_mem hw d \<and> fst (rd_fstat hw (poll hw d)) = fst (rd_fstat hw d)"
    if "idle d" for d using hw that unfolding ftfx_behaves_def by blast
  have clr: "idle (wr_fstat hw 0x30 d) \<and> bus_mem hw (wr_fstat hw 0x30 d) = bus_mem hw d \<and>
      fst (rd_fstat hw (wr_fstat hw 0x30 d)) AND 0x30 = 0"
    if "idle d" for d using hw that unfolding ftfx_behaves_def by blast
  have w0: "wait_ccif hw s = Some (s\<lparr>dev := poll hw (dev s)\<rparr>)"
    using wait_ccif_polls [of 0 hw s] rd [OF s] by simp
  define e where "e = (if fst (rd_fstat hw (poll hw (dev s))) AND 0x30 \<noteq> 0 then wr_fstat hw 0x30 ?d else ?d)"
  have d: "idle ?d" "bus_mem hw ?d = flash_mem hw s"
    "fst (rd_fstat hw ?d) = fst (rd_fstat hw (poll hw (dev s)))"
    using rd s by simp_all
  have e: "idle e" "bus_mem hw e = flash_mem hw s" "fst (rd_fstat hw e) AND 0x30 = 0"
    using clr [OF d(1)] d by (auto simp: e_def)
  let ?l = "wr_fstat hw 0x80 (wr_fccobb hw d2 (wr_fccob7 hw d1 (wr_fccob3 hw (fccob3_of cmd addr) e)))"
  obtain n where n: "\<forall>j < n. fst (rd_fstat hw ((poll hw ^^ j) ?l)) AND 0x80 = 0"
    "idle ((poll hw ^^ n) ?l)"
    "bus_mem hw ((poll hw ^^ n) ?l) = fst (eff cmd addr d1 d2 (flash_mem hw s))"
    "(fst (rd_fstat hw ((poll hw ^^ n) ?l)) AND 0x31 = 0) = snd (eff cmd addr d1 d2 (flash_mem hw s))"
    using hw e a unfolding ftfx_behaves_def by metis
  define t where "t = write_reg hw (WrFSTAT 0x80) (write_reg hw (WrFCCOBB d2) (write_reg hw (WrFCCOB7 d1)
    (write_reg hw (WrFCCOB3 (fccob3_of cmd addr))
      (if fst (rd_fstat hw (poll hw (dev s))) AND 0x30 \<noteq> 0
       then write_reg hw (WrFSTAT 0x30) (s\<lparr>dev := ?d\<rparr>) else s\<lparr>dev := ?d\<rparr>))))"
  have t: "dev t = ?l" by (simp add: t_def e_def write_reg_def)
  have w1: "wait_ccif hw t = Some (t\<lparr>dev := poll hw ((poll hw ^^ n) ?l)\<rparr>)"
    using wait_ccif_polls [of n hw t] n(1) rd [OF n(2)] by (simp add: t)
  have "kinetis_flash_cmd hw cmd addr d1 d2 s =
      (case wait_ccif hw t of None \<Rightarrow> None
       | Some s \<Rightarrow> Some (if fst (rd_fstat hw (dev s)) AND 0x31 \<noteq> 0 then -3 else 0, s\<lparr>dev := poll hw (dev s)\<rparr>))"
    by (simp add: kinetis_flash_cmd_def w0 readb_fstat_poll Let_def t_def split: option.splits)
  then show ?thesis
    using w1 rd [OF n(2)] rd [of "poll hw ((poll hw ^^ n) ?l)"] n(3,4) by simp
qed

section \<open>Programming with a documented controller\<close>

text \<open>The memory once the first \<open>n\<close> bytes of \<open>src\<close> have been programmed at \<open>dest\<close>.\<close>

definition programmed :: "mem \<Rightarrow> u32 \<Rightarrow> u32 \<Rightarrow> nat \<Rightarrow> mem" where
  "programmed m src dest n = (\<lambda>x. if in_range x dest n then m (src + (x - dest)) else m x)"

lemma programmed_0 [simp]: "programmed m src dest 0 = m"
  by (simp add: programmed_def in_range_def)

lemma programmed_put_bytes:
  "n \<le> 2 ^ 32 \<Longrightarrow> programmed m src dest n = put_bytes dest (mem_bytes m src n) m"
  by (rule ext) (simp add: programmed_def put_bytes_apply in_range_def)

lemma mem_bytes_4: "mem_bytes m a 4 = [m a, m (a + 1), m (a + 2), m (a + 3)]"
  by (simp add: mem_bytes_def upt_rec)

lemma programmed_step:
  assumes "n + 4 \<le> 2 ^ 32"
  shows "store32 (dest + of_nat n) (load32 m (src + of_nat n)) (programmed m src dest n) =
    programmed m src dest (n + 4)"
proof -
  have "mem_bytes m (src + of_nat n) 4 = map (byte_of (load32 m (src + of_nat n))) [0, 1, 2, 3]"
    by (simp add: mem_bytes_4)
  then show ?thesis
    using assms by (simp add: programmed_put_bytes mem_bytes_append put_bytes_append store32_put_bytes)
qed

lemma programmed_load32:
  assumes "\<And>i. i < 4 \<Longrightarrow> \<not> in_range (a + of_nat i) dest n"
  shows "load32 (programmed m src dest n) a = load32 m a"
  using assms [of 0] assms [of 1] assms [of 2] assms [of 3] by (simp add: load32_def programmed_def)

text \<open>A blank word programs to exactly the data.\<close>

lemma program_blank: "load32 m a = ERASED \<Longrightarrow> fst (ftfx_effect 0x06 a d 0 m) = store32 a d m"
proof -
  have "ERASED = - 1" by simp
  then show "load32 m a = ERASED \<Longrightarrow> fst (ftfx_effect 0x06 a d 0 m) = store32 a d m"
    unfolding ftfx_effect_def by (simp only: refl if_True fst_conv and.left_neutral)
qed

lemma ftfx_effect_ok [simp]:
  "snd (ftfx_effect 0x06 a d1 d2 m)" "snd (ftfx_effect 0x09 a d1 d2 m)"
  "ftfx_effect 0x02 a d1 d2 m = (m, load32 m a = d2)"
  "fst (ftfx_effect 0x09 a d1 d2 m) = sector_fill a m"
  by (simp_all add: ftfx_effect_def)

definition program_pre :: "mem \<Rightarrow> u32 \<Rightarrow> u32 \<Rightarrow> nat \<Rightarrow> bool" where
  "program_pre m src dest n \<longleftrightarrow> 0x5800 \<le> unat dest \<and> unat dest + n \<le> 0x8000 \<and>
     n mod 4 = 0 \<and> dest mod 4 = 0 \<and> src mod 4 = 0 \<and>
     (\<forall>i < n. m (dest + of_nat i) = 0xFF) \<and> (\<forall>i < n. \<not> in_range (src + of_nat i) dest n)"

lemma word_offsets_Suc:
  "map (\<lambda>j. of_nat (4 * j)) [k..<Suc n] = map (\<lambda>j. of_nat (4 * j)) [k..<n] @ (if k \<le> n then [of_nat (4 * n)] else [])"
  by simp

lemma programmed_blank_word:
  assumes "program_pre m src dest n" "4 * k + 4 \<le> n"
  shows "load32 (programmed m src dest (4 * k)) (dest + of_nat (4 * k)) = ERASED"
    "load32 (programmed m src dest (4 * k)) (src + of_nat (4 * k)) = load32 m (src + of_nat (4 * k))"
    "load32 (programmed m src dest n) (dest + of_nat (4 * k)) = load32 m (src + of_nat (4 * k))"
    "load32 (programmed m src dest n) (src + of_nat (4 * k)) = load32 m (src + of_nat (4 * k))"
proof -
  have n: "n < 2 ^ 32" using assms(1) by (simp add: program_pre_def)
  have o: "a + of_nat (4 * k) + of_nat i = a + of_nat (4 * k + i)" for a :: u32 and i by simp
  have w: "unat (a + of_nat (4 * k + i) - a) = 4 * k + i" if "i < 4" for a :: u32 and i
    using that assms(2) n by (simp del: of_nat_add)
  have blank: "m (dest + of_nat (4 * k + i)) = 0xFF" if "i < 4" for i
    using assms that by (simp add: program_pre_def del: of_nat_add of_nat_mult)
  have src: "\<not> in_range (src + of_nat (4 * k + i)) dest n" if "i < 4" for i
    using assms that by (simp add: program_pre_def del: of_nat_add of_nat_mult)
  have src': "\<not> in_range (src + of_nat (4 * k + i)) dest (4 * k)" if "i < 4" for i
    using src [OF that] assms(2) by (simp add: in_range_def)
  have byte: "load32 f a = le32 (f (a + of_nat 0)) (f (a + of_nat 1)) (f (a + of_nat 2)) (f (a + of_nat 3))"
    for f a by (simp add: load32_def)
  show "load32 (programmed m src dest (4 * k)) (src + of_nat (4 * k)) = load32 m (src + of_nat (4 * k))"
    by (rule programmed_load32) (simp only: o src' not_False_eq_True)
  show "load32 (programmed m src dest n) (src + of_nat (4 * k)) = load32 m (src + of_nat (4 * k))"
    by (rule programmed_load32) (simp only: o src not_False_eq_True)
  have nr: "\<not> in_range (dest + of_nat (4 * k + i)) dest (4 * k)" if "i < 4" for i
    using w [OF that, of dest] by (simp add: in_range_def)
  have "load32 (programmed m src dest (4 * k)) (dest + of_nat (4 * k)) = load32 m (dest + of_nat (4 * k))"
    by (rule programmed_load32) (simp only: o nr not_False_eq_True)
  then show "load32 (programmed m src dest (4 * k)) (dest + of_nat (4 * k)) = ERASED"
    using blank [of 0] blank [of 1] blank [of 2] blank [of 3] unfolding byte o by (simp add: le32_erased)
  have "programmed m src dest n (dest + of_nat (4 * k + i)) = m (src + of_nat (4 * k + i))" if "i < 4" for i
    using that assms(2) w [OF that, of dest] by (simp add: programmed_def in_range_def del: of_nat_add)
  from this [of 0] this [of 1] this [of 2] this [of 3]
  show "load32 (programmed m src dest n) (dest + of_nat (4 * k)) = load32 m (src + of_nat (4 * k))"
    unfolding byte o by simp
qed

lemma program_words_append:
  "program_words hw src dest (xs @ ys) r s =
     (case program_words hw src dest xs r s of None \<Rightarrow> None
      | Some (r, s) \<Rightarrow> program_words hw src dest ys r s)"
  by (induction xs arbitrary: r s) (auto split: option.splits)

lemma check_words_append:
  "check_words hw src dest (xs @ ys) r s =
     (case check_words hw src dest xs r s of None \<Rightarrow> None
      | Some (r, s) \<Rightarrow> check_words hw src dest ys r s)"
  by (induction xs arbitrary: r s) (auto split: option.splits)

lemma dest_word_lt:
  assumes "unat (dest :: u32) + n \<le> 0x8000" "4 * k + 4 \<le> n"
  shows "dest + of_nat (4 * k) < 0x8000"
  using assms by (simp add: word_less_nat_alt unat_word_ariths)

lemma program_words_run:
  assumes hw: "ftfx_documented hw idle" and s: "idle (dev s)" and pre: "program_pre (flash_mem hw s) src dest n"
    and k: "4 * k \<le> n"
  shows "\<exists>s'. program_words hw src dest (map (\<lambda>j. of_nat (4 * j)) [0..<k]) 0 s = Some (0, s') \<and>
    idle (dev s') \<and> flash_mem hw s' = programmed (flash_mem hw s) src dest (4 * k)"
  using k
proof (induction k)
  case 0
  then show ?case using s by simp
next
  case (Suc k)
  then obtain t where t: "program_words hw src dest (map (\<lambda>j. of_nat (4 * j)) [0..<k]) 0 s = Some (0, t)"
    "idle (dev t)" "flash_mem hw t = programmed (flash_mem hw s) src dest (4 * k)" by auto
  have k4: "4 * k + 4 \<le> n" using Suc.prems by simp
  have a: "dest + of_nat (4 * k) < 0x8000"
    using dest_word_lt [OF _ k4] pre by (simp add: program_pre_def)
  have al: "cmd_aligned 0x06 (dest + of_nat (4 * k))" "cmd_aligned 0x02 (dest + of_nat (4 * k))"
    using dest_word_aligned [of dest k] pre by (simp_all add: cmd_aligned_def program_pre_def)
  note B = programmed_blank_word [OF pre k4]
  have st: "store32 (dest + of_nat (4 * k)) (load32 (flash_mem hw s) (src + of_nat (4 * k)))
      (programmed (flash_mem hw s) src dest (4 * k)) = programmed (flash_mem hw s) src dest (4 * k + 4)"
    by (rule programmed_step) (use k4 pre in \<open>simp add: program_pre_def\<close>)
  obtain u where u: "kinetis_flash_cmd hw 0x06 (dest + of_nat (4 * k))
        (load32 (flash_mem hw t) (src + of_nat (4 * k))) 0 t = Some (0, u)" "idle (dev u)"
      "flash_mem hw u = fst (ftfx_effect 0x06 (dest + of_nat (4 * k)) (load32 (flash_mem hw t) (src + of_nat (4 * k))) 0 (flash_mem hw t))"
    using kinetis_flash_cmd_behaves [OF hw t(2) a al(1), of "load32 (flash_mem hw t) (src + of_nat (4 * k))" 0]
    by (auto simp del: of_nat_mult)
  have "flash_mem hw u = programmed (flash_mem hw s) src dest (4 * k + 4)"
    using u(3) st program_blank [OF B(1)] by (simp only: t(3) B(2))
  then show ?case
    using t(1) u(1,2) by (simp add: word_offsets_Suc program_words_append add.commute del: of_nat_mult)
qed

lemma check_words_run:
  assumes hw: "ftfx_documented hw idle" and s: "idle (dev s)" and pre: "program_pre m src dest n"
    and m: "flash_mem hw s = programmed m src dest n" and k: "4 * k \<le> n"
  shows "\<exists>s'. check_words hw src dest (map (\<lambda>j. of_nat (4 * j)) [0..<k]) 0 s = Some (0, s') \<and>
    idle (dev s') \<and> flash_mem hw s' = programmed m src dest n"
  using k
proof (induction k)
  case 0
  then show ?case using s m by simp
next
  case (Suc k)
  then obtain t where t: "check_words hw src dest (map (\<lambda>j. of_nat (4 * j)) [0..<k]) 0 s = Some (0, t)"
    "idle (dev t)" "flash_mem hw t = programmed m src dest n" by auto
  have k4: "4 * k + 4 \<le> n" using Suc.prems by simp
  have a: "dest + of_nat (4 * k) < 0x8000"
    using dest_word_lt [OF _ k4] pre by (simp add: program_pre_def)
  have al: "cmd_aligned 0x06 (dest + of_nat (4 * k))" "cmd_aligned 0x02 (dest + of_nat (4 * k))"
    using dest_word_aligned [of dest k] pre by (simp_all add: cmd_aligned_def program_pre_def)
  note B = programmed_blank_word [OF pre k4]
  have "\<exists>u. kinetis_flash_cmd hw 0x02 (dest + of_nat (4 * k)) (make_fccob 1 0 0 0)
        (load32 (flash_mem hw t) (src + of_nat (4 * k))) t = Some (0, u) \<and> idle (dev u) \<and>
        flash_mem hw u = flash_mem hw t"
    using kinetis_flash_cmd_behaves [OF hw t(2) a al(2), of "make_fccob 1 0 0 0" "load32 (flash_mem hw t) (src + of_nat (4 * k))"]
    by (simp only: ftfx_effect_ok fst_conv snd_conv t(3) B(3,4) if_True refl)
  then show ?case
    using t(1,3) by (auto simp: word_offsets_Suc check_words_append simp del: of_nat_mult)
qed

lemma program_pre_checks:
  assumes "program_pre m src dest (unat count)"
  shows "\<not> dest < 22 * 1024" "\<not> dest + count > 0x8000" "count mod 4 = 0" "dest mod 4 = 0" "src mod 4 = 0"
    "list_all (\<lambda>i. m (dest + of_nat i) = 0xFF) [0..<unat count]"
  using assms
  by (auto simp: program_pre_def word_less_nat_alt unat_word_ariths word_mod4_iff list_all_iff)

section \<open>A reference controller\<close>

text \<open>A simulated device, given the effect of a command: each command takes two polls.  With the
  documented effect it is a documented controller.\<close>

record sim =
  sim_mem :: mem
  sim_err :: u8
  sim_3 :: u32
  sim_7 :: u32
  sim_b :: u32
  sim_busy :: nat

definition sim_rd :: "sim \<Rightarrow> u8 \<times> sim" where
  "sim_rd d = (if sim_busy d > 0 then (0, d\<lparr>sim_busy := sim_busy d - 1\<rparr>) else (0x80 OR sim_err d, d))"

definition sim_wr :: "effect \<Rightarrow> u8 \<Rightarrow> sim \<Rightarrow> sim" where
  "sim_wr eff v d =
     (if v AND 0x80 = 0 then d\<lparr>sim_err := sim_err d AND NOT v\<rparr>
      else if sim_busy d = 0 \<and> sim_err d AND 0x30 = 0 then
        let (m, ok) = eff (ucast (drop_bit 24 (sim_3 d))) (sim_3 d AND 0xffffff) (sim_7 d) (sim_b d) (sim_mem d)
        in d\<lparr>sim_mem := m, sim_err := (if ok then 0 else 1), sim_busy := 2\<rparr>
      else d)"

definition sim_dev :: "effect \<Rightarrow> sim ftfx" where
  "sim_dev eff = \<lparr>rd_fstat = sim_rd, rd_fsec = Pair 2, wr_fstat = sim_wr eff, wr_fccob3 = (\<lambda>v d. d\<lparr>sim_3 := v\<rparr>),
     wr_fccob7 = (\<lambda>v d. d\<lparr>sim_7 := v\<rparr>), wr_fccobb = (\<lambda>v d. d\<lparr>sim_b := v\<rparr>), bus_mem = sim_mem,
     bus_store = (\<lambda>a bs d. d\<lparr>sim_mem := put_bytes a bs (sim_mem d)\<rparr>)\<rparr>"

abbreviation sim_hw :: "sim ftfx" where
  "sim_hw \<equiv> sim_dev ftfx_effect"

definition sim_start :: "mem \<Rightarrow> sim flash_st" where
  "sim_start m = \<lparr>dev = \<lparr>sim_mem = m, sim_err = 0, sim_3 = 0, sim_7 = 0, sim_b = 0, sim_busy = 0\<rparr>, reg_log = []\<rparr>"

lemma or80: "(0x80 OR e) AND 0x80 \<noteq> (0 :: u8)"
proof
  assume "(0x80 OR e) AND 0x80 = (0 :: u8)"
  then have "bit ((0x80 OR e) AND 0x80 :: u8) 7 = bit (0 :: u8) 7" by simp
  then show False by (simp add: bit_simps)
qed

text \<open>Polling the simulated device always ends.\<close>

lemma sim_wait: "wait_ccif (sim_dev eff) s = Some (s\<lparr>dev := (dev s)\<lparr>sim_busy := 0\<rparr>\<rparr>)"
proof (induction "sim_busy (dev s)" arbitrary: s)
  case 0
  then show ?case
    using or80 by (simp add: wait_ccif.simps [of _ s] readb_fstat_def sim_dev_def sim_rd_def)
next
  case (Suc n)
  have "wait_ccif (sim_dev eff) s = wait_ccif (sim_dev eff) (s\<lparr>dev := (dev s)\<lparr>sim_busy := n\<rparr>\<rparr>)"
    using Suc.hyps(2) by (subst wait_ccif.simps) (simp add: readb_fstat_def sim_dev_def sim_rd_def flip: Suc.hyps(2))
  then show ?case using Suc.hyps(1) [of "s\<lparr>dev := (dev s)\<lparr>sim_busy := n\<rparr>\<rparr>"] by simp
qed

lemma sim_cmd_total: "\<exists>r s'. kinetis_flash_cmd (sim_dev eff) cmd addr d1 d2 s = Some (r, s')"
  by (simp add: kinetis_flash_cmd_def sim_wait Let_def split: prod.splits)

lemma sim_words_total:
  "\<exists>r' s'. program_words (sim_dev eff) src dest is r s = Some (r', s')"
  "\<exists>r' s'. check_words (sim_dev eff) src dest is r s = Some (r', s')"
proof (induction "is" arbitrary: r s)
  case (Cons i "is")
  note c = sim_cmd_total [of eff]
  { case 1 show ?case using c Cons(1) by (fastforce split: option.splits) }
  { case 2 show ?case using c Cons(2) by (fastforce split: option.splits) }
qed simp_all

lemma sim_program_total: "\<exists>r s'. flashProgram (sim_dev eff) src dest count s = Some (r, s')"
proof -
  obtain r1 s1 where "program_words (sim_dev eff) src dest (word_offsets count) 0 s = Some (r1, s1)"
    using sim_words_total(1) by blast
  moreover obtain r2 s2 where "check_words (sim_dev eff) src dest (word_offsets count) r1 s1 = Some (r2, s2)"
    using sim_words_total(2) by blast
  ultimately show ?thesis by (auto simp: flashProgram_def)
qed

abbreviation sim_idle :: "sim \<Rightarrow> bool" where
  "sim_idle d \<equiv> sim_busy d = 0 \<and> sim_err d AND 0x80 = 0"

lemma sim_behaves: "ftfx_behaves eff (sim_dev eff) sim_idle"
proof -
  let ?hw = "sim_dev eff"
  have rd: "rd_fstat ?hw = sim_rd" "wr_fstat ?hw = sim_wr eff" "bus_mem ?hw = sim_mem" by (simp_all add: sim_dev_def)
  have p: "poll ?hw d = snd (sim_rd d)" for d by (simp add: poll_def rd)
  have or30: "(0x80 OR e) AND 0x30 = e AND (0x30 :: u8)" for e by (simp add: bit.conj_disj_distrib2)
  have clear: "(e AND NOT 0x30) AND 0x30 = (0 :: u8)" for e by (simp add: and.assoc)
  have clear80: "(e AND NOT 0x30) AND 0x80 = e AND (0x80 :: u8)" for e by (simp add: and.assoc)
  have rd_part: "fst (rd_fstat ?hw d) AND 0x80 \<noteq> 0 \<and> sim_idle (poll ?hw d) \<and>
      bus_mem ?hw (poll ?hw d) = bus_mem ?hw d \<and>
      fst (rd_fstat ?hw (poll ?hw d)) = fst (rd_fstat ?hw d)" if "sim_idle d" for d
    using that or80 by (simp add: rd p sim_rd_def)
  have st_part: "sim_idle (bus_store ?hw a bs d) \<and> bus_mem ?hw (bus_store ?hw a bs d) = put_bytes a bs (bus_mem ?hw d)"
    if "sim_idle d" for a bs d using that by (simp add: sim_dev_def)
  have clr_part: "sim_idle (wr_fstat ?hw 0x30 d) \<and> bus_mem ?hw (wr_fstat ?hw 0x30 d) = bus_mem ?hw d \<and>
      fst (rd_fstat ?hw (wr_fstat ?hw 0x30 d)) AND 0x30 = 0" if "sim_idle d" for d
    using that clear clear80 or30 by (simp add: rd sim_wr_def sim_rd_def)
  have run_part: "\<exists>n d'. d' = (poll ?hw ^^ n) l \<and> (\<forall>j < n. fst (rd_fstat ?hw ((poll ?hw ^^ j) l)) AND 0x80 = 0) \<and>
      sim_idle d' \<and> bus_mem ?hw d' = fst (eff cmd addr d1 d2 (bus_mem ?hw d)) \<and>
      (fst (rd_fstat ?hw d') AND 0x31 = 0) = snd (eff cmd addr d1 d2 (bus_mem ?hw d))"
    if d: "sim_idle d" "fst (rd_fstat ?hw d) AND 0x30 = 0" "addr < 0x8000"
      and l: "l = wr_fstat ?hw 0x80 (wr_fccobb ?hw d2 (wr_fccob7 ?hw d1 (wr_fccob3 ?hw (fccob3_of cmd addr) d)))"
    for d cmd addr d1 d2 l
  proof -
    have a: "addr AND 0xffffff = addr"
      using d(3) by (intro small_and_24) (simp add: word_less_nat_alt)
    have e: "sim_err d AND 0x30 = 0" using d(1,2) or30 by (simp add: rd sim_rd_def)
    obtain m ok where mo: "eff cmd addr d1 d2 (sim_mem d) = (m, ok)" by fastforce
    have l': "l = d\<lparr>sim_3 := fccob3_of cmd addr, sim_7 := d1, sim_b := d2, sim_mem := m,
        sim_err := (if ok then 0 else 1), sim_busy := 2\<rparr>"
      using d(1) e mo a by (simp add: l rd sim_wr_def sim_dev_def)
    have "(\<forall>j < 2. fst (rd_fstat ?hw ((poll ?hw ^^ j) l)) AND 0x80 = 0)"
      by (auto simp: less_2_cases_iff rd p sim_rd_def l')
    moreover have "(poll ?hw ^^ 2) l = l\<lparr>sim_busy := 0\<rparr>"
      by (simp add: numeral_2_eq_2 p sim_rd_def l')
    ultimately show ?thesis
      using mo by (intro exI [of _ 2] exI [of _ "l\<lparr>sim_busy := 0\<rparr>"]) (simp add: rd sim_rd_def l')
  qed
  show ?thesis
    unfolding ftfx_behaves_def
    by (intro conjI allI impI; (elim conjE)?; (rule run_part [OF _ _ _ refl]; simp)?)
       (use rd_part clr_part st_part in auto)
qed

section \<open>Properties of the flash driver\<close>

text \<open>C24: Confinement of erasing.  Whatever the controller does, \<^verbatim>\<open>flashEraseSectors\<close> only ever issues
  erase and blank-check commands, each at the start of a sector of the user area.\<close>

theorem flashEraseSectors_confined:
  assumes "flashEraseSectors hw offset n s = Some (r, s')"
  shows "\<exists>new. commands (reg_log s') = commands (reg_log s) @ new \<and>
    (\<forall>(c, a) \<in> set new. c \<in> {0x09, 0x01} \<and> 0x5800 \<le> a \<and> a < 0x8000 \<and> a mod 1024 = 0)"
proof (cases "offset < 22 \<or> offset + ucast n > 0x8000 div 1024")
  case True
  then have "s' = s" using assms by (auto simp: flashEraseSectors_def Let_def split: if_splits)
  then show ?thesis by (intro exI [of _ "[]"]) simp
next
  case False
  then have "erase_loop hw offset (offset + ucast n) 0 s = Some (r, s')" and e: "offset + ucast n \<le> 32"
    using assms by (simp_all add: flashEraseSectors_def Let_def not_less split: if_splits)
  from erase_loop_commands [OF this] obtain new where
    new: "commands (reg_log s') = commands (reg_log s) @ new"
      "\<forall>(c, a) \<in> set new. c \<in> {0x09, 0x01} \<and> (\<exists>k. offset \<le> k \<and> k < offset + ucast n \<and> a = k * 1024)"
    by auto
  have "0x5800 \<le> a \<and> a < 0x8000 \<and> a mod 1024 = 0"
    if "offset \<le> k" "k < offset + ucast n" "a = k * 1024" for a k
  proof -
    have k: "k < 32" "22 \<le> k" using that e False by auto
    then show ?thesis
      using that(3) sector_addr [OF k(1)]
      by (simp add: word_le_nat_alt word_less_nat_alt word_unat_eq_iff unat_mod)
  qed
  then show ?thesis using new by fastforce
qed

text \<open>The addresses of the words of an accepted request.\<close>

lemma program_targets:
  assumes lo: "22528 \<le> unat dest" and hi: "unat dest + unat count \<le> 0x8000"
    and al: "unat dest mod 4 = 0" "unat count mod 4 = 0" and blank: "\<And>i. i < unat count \<Longrightarrow> m (dest + of_nat i) = 0xFF"
  defines "prog \<equiv> map (\<lambda>i. (dest + i) AND 0xffffff) (word_offsets count)"
  shows "distinct prog" "a \<in> set prog \<Longrightarrow> 0x5800 \<le> a \<and> a < 0x8000 \<and> a mod 4 = 0 \<and> load32 m a = ERASED"
proof -
  have o: "unat (dest + of_nat (4 * j)) = unat dest + 4 * j" if "j < unat count div 4" for j
    using that hi by (simp add: unat_word_ariths)
  have in24: "(dest + of_nat (4 * j)) AND 0xffffff = dest + of_nat (4 * j)" if "j < unat count div 4" for j
    using o [OF that] that hi by (intro small_and_24) simp
  have prog: "prog = map (\<lambda>j. dest + of_nat (4 * j)) [0..<unat count div 4]"
    using in24 by (simp add: prog_def word_offsets_def del: of_nat_mult)
  show "distinct prog"
    unfolding prog distinct_map using o by (auto simp: inj_on_def simp del: of_nat_mult) (metis add_left_cancel mult_cancel1 zero_neq_numeral)
  assume "a \<in> set prog"
  then obtain j where j: "j < unat count div 4" "a = dest + of_nat (4 * j)" unfolding prog by auto
  have "m (a + of_nat i) = 0xFF" if "i < 4" for i
  proof -
    have "4 * j + i < unat count" using j(1) that by linarith
    from blank [OF this] show ?thesis by (simp add: j(2) add.assoc)
  qed
  from this [of 0] this [of 1] this [of 2] this [of 3]
  have "load32 m a = ERASED" by (simp add: load32_def le32_erased)
  then show "0x5800 \<le> a \<and> a < 0x8000 \<and> a mod 4 = 0 \<and> load32 m a = ERASED"
    using o [OF j(1)] j lo hi al by (simp add: word_le_nat_alt word_less_nat_alt word_mod4_iff del: of_nat_mult)
qed

text \<open>C25: Confinement of programming.  Whatever the controller does, a request that does not wrap
  around the address space makes \<^verbatim>\<open>flashProgram\<close> issue only program and check commands on words
  of the user area, and each program command hits a word that was blank when the
  request started, at most once.\<close>

theorem flashProgram_confined:
  assumes "flashProgram hw src dest count s = Some (r, s')" "unat dest + unat count < 2 ^ 32"
  shows "\<exists>prog chk. commands (reg_log s') = commands (reg_log s) @ map (Pair 0x06) prog @ map (Pair 0x02) chk \<and>
    distinct prog \<and> (\<forall>a \<in> set prog. 0x5800 \<le> a \<and> a < 0x8000 \<and> a mod 4 = 0 \<and> load32 (flash_mem hw s) a = ERASED) \<and>
    set chk \<subseteq> set prog"
proof (cases "count = 0 \<or> dest < 22 * 1024 \<or> dest + count > 0x8000 \<or> count mod 4 \<noteq> 0 \<or> dest mod 4 \<noteq> 0 \<or>
    src mod 4 \<noteq> 0 \<or> \<not> list_all (\<lambda>i. flash_mem hw s (dest + of_nat i) = 0xFF) [0..<unat count]")
  case True
  then have "s' = s" using assms(1) by (auto simp: flashProgram_def split: if_splits)
  then show ?thesis by (intro exI [of _ "[]"]) simp
next
  case False
  let ?o = "word_offsets count"
  let ?prog = "map (\<lambda>i. (dest + i) AND 0xffffff) ?o"
  have lo: "22528 \<le> unat dest" and hi: "unat dest + unat count \<le> 0x8000"
    using False assms(2) by (auto simp: word_less_nat_alt unat_word_ariths)
  have al: "unat dest mod 4 = 0" "unat count mod 4 = 0" using False by (simp_all add: word_mod4_iff)
  have blank: "flash_mem hw s (dest + of_nat i) = 0xFF" if "i < unat count" for i using False that by (simp add: list_all_iff)
  note T = program_targets [of dest count "flash_mem hw s", OF lo hi al blank]
  obtain r1 s1 where p: "program_words hw src dest ?o 0 s = Some (r1, s1)"
    using assms(1) False by (auto simp: flashProgram_def split: option.splits)
  note c1 = program_words_commands [OF p]
  have "(r1 \<noteq> 0 \<and> s' = s1) \<or> (\<exists>r2. check_words hw src dest ?o r1 s1 = Some (r2, s'))"
    using assms(1) False p by (auto simp: flashProgram_def split: option.splits if_splits)
  then have "\<exists>chk. commands (reg_log s') = commands (reg_log s) @ map (Pair 0x06) ?prog @ map (Pair 0x02) chk \<and>
      set chk \<subseteq> set ?prog"
  proof (elim disjE exE conjE)
    assume "s' = s1"
    with c1 show ?thesis by (intro exI [of _ "[]"]) (simp add: comp_def)
  next
    fix r2 assume "check_words hw src dest ?o r1 s1 = Some (r2, s')"
    from check_words_commands [OF this] c1 show ?thesis
      by (intro exI [of _ ?prog]) (simp add: comp_def)
  qed
  then show ?thesis using T by blast
qed

lemma flashProgram_run:
  assumes hw: "ftfx_documented hw idle" and s: "idle (dev s)"
    and pre: "program_pre (flash_mem hw s) src dest (unat count)"
  shows "\<exists>s'. flashProgram hw src dest count s = Some (0, s') \<and> idle (dev s') \<and>
    flash_mem hw s' = put_bytes dest (mem_bytes (flash_mem hw s) src (unat count)) (flash_mem hw s)"
proof (cases "count = 0")
  case True
  then show ?thesis using s by (simp add: flashProgram_def put_bytes_Nil)
next
  case False
  have n: "unat count = 4 * (unat count div 4)"
    using pre by (auto simp: program_pre_def)
  obtain t where t: "program_words hw src dest (word_offsets count) 0 s = Some (0, t)" "idle (dev t)"
    "flash_mem hw t = programmed (flash_mem hw s) src dest (unat count)"
    using program_words_run [OF hw s pre, of "unat count div 4"] n unfolding word_offsets_def by auto
  obtain u where u: "check_words hw src dest (word_offsets count) 0 t = Some (0, u)" "idle (dev u)"
    "flash_mem hw u = programmed (flash_mem hw s) src dest (unat count)"
    using check_words_run [OF hw t(2) pre t(3), of "unat count div 4"] n unfolding word_offsets_def by auto
  have "flashProgram hw src dest count s = Some (0, u)"
    using False program_pre_checks [OF pre] t(1) u(1) unfolding flashProgram_def by simp
  then show ?thesis
    using u unat_u32_lt [of count] by (simp add: programmed_put_bytes)
qed

text \<open>C18: Programming works.  On a controller that behaves as documented, an aligned request inside
  the user area on blank words, with its source elsewhere, returns \<^verbatim>\<open>F_ERR_OK\<close>, and the memory is
  the old memory with exactly the source bytes stored at the destination.\<close>

theorem flashProgram_correct:
  assumes "ftfx_documented hw idle" "idle (dev s)" "program_pre (flash_mem hw s) src dest (unat count)"
  shows "\<exists>s'. flashProgram hw src dest count s = Some (0, s') \<and> idle (dev s') \<and>
    flash_mem hw s' = put_bytes dest (mem_bytes (flash_mem hw s) src (unat count)) (flash_mem hw s)"
  using flashProgram_run [OF assms] .

lemma sim_start_simps [simp]:
  "flash_mem sim_hw (sim_start m) = m" "sim_busy (dev (sim_start m)) = 0" "sim_err (dev (sim_start m)) = 0"
  by (simp_all add: sim_start_def sim_dev_def)

definition ram_and_flash :: mem where
  "ram_and_flash x = (if x < 0x8000 then 0xFF else ucast x)"

lemma ram_and_flash_pre: "program_pre ram_and_flash 0x20000000 0x5900 8"
proof -
  have eq: "i < 8 \<longleftrightarrow> i = 0 \<or> i = 1 \<or> i = 2 \<or> i = 3 \<or> i = 4 \<or> i = 5 \<or> i = 6 \<or> i = 7" for i :: nat by auto
  show ?thesis
    unfolding program_pre_def eq by (auto simp: ram_and_flash_def in_range_def)
qed

theorem flashProgram_correct_witness:
  "\<exists>s'. flashProgram sim_hw 0x20000000 0x5900 8 (sim_start ram_and_flash) = Some (0, s') \<and>
     mem_bytes (flash_mem sim_hw s') 0x5900 8 = mem_bytes ram_and_flash 0x20000000 8"
  using flashProgram_correct [OF sim_behaves, of "sim_start ram_and_flash" "0x20000000" "0x5900" 8] ram_and_flash_pre
    mem_bytes_put_bytes [of "mem_bytes ram_and_flash 0x20000000 8" "0x5900" ram_and_flash]
  by auto

theorem flashProgram_confined_witness:
  "\<exists>r s' prog chk. flashProgram sim_hw 0x20000000 0x5900 8 (sim_start ram_and_flash) = Some (r, s') \<and>
     commands (reg_log s') = commands (reg_log (sim_start ram_and_flash)) @ map (Pair 0x06) prog @ map (Pair 0x02) chk \<and>
     distinct prog"
proof -
  obtain s' where run: "flashProgram sim_hw 0x20000000 0x5900 8 (sim_start ram_and_flash) = Some (0, s')"
    using flashProgram_run [OF sim_behaves, of "sim_start ram_and_flash" "0x20000000" "0x5900" 8] ram_and_flash_pre
    by auto
  show ?thesis using flashProgram_confined [OF run] run by simp blast
qed

text \<open>The range check of \<^verbatim>\<open>flashProgram\<close> adds without regard to wrap-around: 16 blank bytes at the
  very end of the address space pass it (\<open>0xFFFFFFF0 + 16 = 0\<close>), and the driver issues a program
  command for the truncated address \<open>0xFFFFF0\<close>, far outside the user area.\<close>

theorem flashProgram_range_check_wraps:
  assumes "flashProgram hw src 0xFFFFFFF0 16 s = Some (r, s')" "src mod 4 = 0"
    "\<forall>i < 16. flash_mem hw s (0xFFFFFFF0 + of_nat i) = 0xFF"
  shows "(0x06, 0xFFFFF0) \<in> set (commands (reg_log s'))"
proof -
  let ?o = "word_offsets 16"
  have o: "?o = [0, 4, 8, 12]" by (simp add: word_offsets_def upt_rec)
  have guard: "\<not> (0xFFFFFFF0 :: u32) < 22 * 1024" "\<not> (0xFFFFFFF0 + 16 :: u32) > 0x8000"
    "(16 :: u32) mod 4 = 0" "(0xFFFFFFF0 :: u32) mod 4 = 0" by simp_all
  have "list_all (\<lambda>i. flash_mem hw s (0xFFFFFFF0 + of_nat i) = 0xFF) [0..<unat (16 :: u32)]"
    using assms(3) by (simp add: list_all_iff)
  then obtain r1 s1 where p: "program_words hw src 0xFFFFFFF0 ?o 0 s = Some (r1, s1)"
    and q: "s' = s1 \<or> (\<exists>r2. check_words hw src 0xFFFFFFF0 ?o r1 s1 = Some (r2, s'))"
    using assms(1,2) guard unfolding flashProgram_def
    by (simp only: if_False if_True not_True_eq_False not_False_eq_True simp_thms) 
       (auto split: option.splits if_splits)
  have "(0x06, 0xFFFFF0) \<in> set (commands (reg_log s1))"
    using program_words_commands [OF p] by (simp add: o)
  with q show ?thesis using check_words_commands by fastforce
qed

theorem flashProgram_range_check_wraps_witness:
  "\<exists>r s'. flashProgram sim_hw 0 0xFFFFFFF0 16 (sim_start (\<lambda>_. 0xFF)) = Some (r, s') \<and>
     (0x06, 0xFFFFF0) \<in> set (commands (reg_log s'))"
proof -
  obtain r s' where run: "flashProgram sim_hw 0 0xFFFFFFF0 16 (sim_start (\<lambda>_. 0xFF)) = Some (r, s')"
    using sim_program_total by blast
  show ?thesis using flashProgram_range_check_wraps [OF run] run by simp
qed

text \<open>A failure of all but the last word goes unreported.  \<^verbatim>\<open>flashProgram\<close> overwrites \<^verbatim>\<open>ret\<close> in
  both loops, so on a controller whose first word is stuck (programming and checking it both report
  an error) an eight-byte request returns \<^verbatim>\<open>F_ERR_OK\<close> with the first word not written.\<close>

definition stuck_word :: "u32 \<Rightarrow> effect" where
  "stuck_word a cmd addr d1 d2 m = (if addr = a then (m, False) else ftfx_effect cmd addr d1 d2 m)"

theorem flashProgram_masks_failure:
  "\<exists>s'. flashProgram (sim_dev (stuck_word 0x5900)) 0x20000000 0x5900 8 (sim_start ram_and_flash) = Some (0, s') \<and>
     load32 (flash_mem (sim_dev (stuck_word 0x5900)) s') 0x5900 = ERASED \<and>
     load32 ram_and_flash 0x20000000 \<noteq> ERASED"
proof -
  let ?hw = "sim_dev (stuck_word 0x5900)"
  have o: "word_offsets 8 = [0, 4]" by (simp add: word_offsets_def upt_rec)
  have pre: "program_pre ram_and_flash 0x20000000 0x5900 (unat (8 :: u32))"
    using ram_and_flash_pre by simp
  let ?m = "ram_and_flash" and ?d = "load32 ram_and_flash 0x20000004"
  have mem: "flash_mem ?hw (sim_start m) = m" for m by (simp add: sim_start_def sim_dev_def)
  note B = kinetis_flash_cmd_behaves [OF sim_behaves [of "stuck_word 0x5900"]]
  obtain s1 where s1: "kinetis_flash_cmd ?hw 0x06 0x5900 (load32 ?m 0x20000000) 0 (sim_start ?m) = Some (-3, s1)"
    "sim_idle (dev s1)" "flash_mem ?hw s1 = ?m"
    using B [of "sim_start ?m" "0x5900" "0x06" "load32 ?m 0x20000000" 0] by (auto simp: stuck_word_def mem cmd_aligned_def)
  have blank: "load32 ?m 0x5904 = ERASED" by (simp add: load32_def ram_and_flash_def le32_erased)
  obtain s2 where s2: "kinetis_flash_cmd ?hw 0x06 0x5904 ?d 0 s1 = Some (0, s2)"
    "sim_idle (dev s2)" "flash_mem ?hw s2 = store32 0x5904 ?d ?m"
    using B [of s1 "0x5904" "0x06" ?d 0] s1(2,3) program_blank [OF blank, of ?d]
    by (auto simp: stuck_word_def cmd_aligned_def)
  obtain s3 r3 where s3: "kinetis_flash_cmd ?hw 0x02 0x5900 (make_fccob 1 0 0 0) (load32 (flash_mem ?hw s2) 0x20000000) s2 = Some (r3, s3)"
    "sim_idle (dev s3)" "flash_mem ?hw s3 = store32 0x5904 ?d ?m"
    using B [of s2 "0x5900" "0x02" "make_fccob 1 0 0 0" "load32 (flash_mem ?hw s2) 0x20000000"] s2(2,3) by (auto simp: stuck_word_def cmd_aligned_def)
  have src: "load32 (store32 0x5904 ?d ?m) 0x20000004 = ?d" "load32 (store32 0x5904 ?d ?m) 0x5900 = ERASED"
    by (simp_all add: load32_def store32_def ram_and_flash_def le32_erased)
  obtain s4 where s4: "kinetis_flash_cmd ?hw 0x02 0x5904 (make_fccob 1 0 0 0) (load32 (flash_mem ?hw s3) 0x20000004) s3 = Some (0, s4)"
    "flash_mem ?hw s4 = store32 0x5904 ?d ?m"
    using B [of s3 "0x5904" "0x02" "make_fccob 1 0 0 0" "load32 (flash_mem ?hw s3) 0x20000004"] s3(2,3) src
    by (auto simp: stuck_word_def cmd_aligned_def)
  have "flashProgram ?hw 0x20000000 0x5900 8 (sim_start ?m) = Some (0, s4)"
    using program_pre_checks [OF pre] s1 s2 s3 s4 unfolding flashProgram_def by (simp add: o mem)
  then show ?thesis using s4(2) src by (auto simp: load32_def ram_and_flash_def le32_erased)
qed

text \<open>Erasing on a documented controller.\<close>

definition sectors_fill :: "nat \<Rightarrow> nat \<Rightarrow> mem \<Rightarrow> mem" where
  "sectors_fill k e m = (\<lambda>x. if k * 1024 \<le> unat x \<and> unat x < e * 1024 then 0xFF else m x)"

lemma in_sector:
  assumes "k < (32 :: u32)"
  shows "in_range x (k * 1024) 1024 \<longleftrightarrow> unat k * 1024 \<le> unat x \<and> unat x < unat k * 1024 + 1024"
proof -
  have k: "unat (k * 1024) = unat k * 1024" "unat k < 32"
    using assms by (simp_all add: sector_addr word_less_nat_alt)
  have "unat (x - k * 1024) = (if unat k * 1024 \<le> unat x then unat x - unat k * 1024
      else unat x + 2 ^ 32 - unat k * 1024)"
    unfolding unat_sub_if' k(1) by (simp add: word_size)
  then show ?thesis using k(2) unat_u32_lt [of x] by (auto simp: in_range_def split: if_splits)
qed

lemma sector_blank_check:
  assumes "k < (32 :: u32)"
  shows "snd (ftfx_effect 0x01 (k * 1024) (make_fccob 1 256 lv 0) d2 (sector_fill (k * 1024) m))"
proof -
  have "drop_bit 16 (make_fccob 1 256 lv 0) = (256 :: u32)"
    by (rule bit_word_eqI) (auto simp: make_fccob_def bit_simps)
  then show ?thesis
    by (auto simp: ftfx_effect_def list_all_iff sector_fill_def in_range_offset)
qed

lemma sector_read_keeps: "fst (ftfx_effect 0x01 a d1 d2 m) = m"
  by (simp add: ftfx_effect_def)

lemma margin_reads_run:
  assumes hw: "ftfx_documented hw idle" and k: "k < 32"
    and "idle (dev s)" "flash_mem hw s = sector_fill (k * 1024) m"
  shows "\<exists>s'. margin_reads hw k ms 0 s = Some (0, s') \<and> idle (dev s') \<and> flash_mem hw s' = sector_fill (k * 1024) m"
  using assms(3,4)
proof (induction ms arbitrary: s)
  case Nil
  then show ?case by simp
next
  case (Cons lv ms)
  have a: "k * 1024 < 0x8000" using k sector_addr [OF k] by (simp add: word_less_nat_alt)
  have al: "cmd_aligned 0x09 (k * 1024)" "cmd_aligned 0x01 (k * 1024)" by (rule sector_aligned [OF k])+
  have "\<exists>t. kinetis_flash_cmd hw 0x01 (k * 1024) (make_fccob 1 256 lv 0) 0 s = Some (0, t) \<and> idle (dev t) \<and>
      flash_mem hw t = sector_fill (k * 1024) m"
    using kinetis_flash_cmd_behaves [OF hw Cons.prems(1) a al(2), of "make_fccob 1 256 lv 0" 0]
      sector_blank_check [OF k, of lv 0 m]
    by (simp add: Cons.prems(2) sector_read_keeps)
  then show ?case using Cons.IH by (auto simp: Let_def)
qed

lemma erase_loop_run:
  assumes "ftfx_documented hw idle" "e \<le> 32" "k \<le> e" "idle (dev s)"
  shows "\<exists>s'. erase_loop hw k e 0 s = Some (0, s') \<and> idle (dev s') \<and>
    flash_mem hw s' = sectors_fill (unat k) (unat e) (flash_mem hw s)"
  using assms(3,4)
proof (induction "unat e - unat k" arbitrary: k s)
  case 0
  then have "k = e" by (simp add: word_le_nat_alt word_unat_eq_iff)
  then show ?case using 0 by (auto simp: erase_loop.simps sectors_fill_def intro!: ext)
next
  case (Suc n)
  then have lt: "k < e" by (simp add: word_less_nat_alt)
  then have k: "k < 32" using assms(2) by simp
  note inc = unat_inc [OF lt]
  have a: "k * 1024 < 0x8000" using k sector_addr [OF k] by (simp add: word_less_nat_alt)
  have al: "cmd_aligned 0x09 (k * 1024)" "cmd_aligned 0x01 (k * 1024)" by (rule sector_aligned [OF k])+
  obtain t where t: "kinetis_flash_cmd hw 0x09 (k * 1024) 0 0 s = Some (0, t)" "idle (dev t)"
    "flash_mem hw t = sector_fill (k * 1024) (flash_mem hw s)"
    using kinetis_flash_cmd_behaves [OF assms(1) Suc.prems(2) a al(1), of 0 0] by auto
  obtain u where u: "margin_reads hw k [0, 1, 2] 0 t = Some (0, u)" "idle (dev u)"
    "flash_mem hw u = sector_fill (k * 1024) (flash_mem hw s)"
    using margin_reads_run [OF assms(1) k t(2,3)] by blast
  have "n = unat e - unat (k + 1)" "k + 1 \<le> e"
    using Suc.hyps(2) lt inc by (simp_all add: word_le_nat_alt word_less_nat_alt)
  from Suc.hyps(1) [OF this u(2)] obtain v where
    v: "erase_loop hw (k + 1) e 0 u = Some (0, v)" "idle (dev v)"
      "flash_mem hw v = sectors_fill (unat (k + 1)) (unat e) (flash_mem hw u)" by blast
  have "erase_loop hw k e 0 s = Some (0, v)"
    using lt t(1) u(1) v(1) by (subst erase_loop.simps) (simp del: margin_reads.simps)
  moreover have "sectors_fill (unat (k + 1)) (unat e) (sector_fill (k * 1024) m) = sectors_fill (unat k) (unat e) m" for m
    using lt by (intro ext) (auto simp: sectors_fill_def sector_fill_def in_sector [OF k] inc word_less_nat_alt)
  ultimately show ?case using v u(3) by simp
qed

lemma flashEraseSectors_run:
  assumes "ftfx_documented hw idle" "idle (dev s)" "22 \<le> offset" "unat offset + unat n \<le> 32"
  shows "\<exists>s'. flashEraseSectors hw offset n s = Some (0, s') \<and> idle (dev s') \<and>
    flash_mem hw s' = sectors_fill (unat offset) (unat offset + unat n) (flash_mem hw s)"
proof -
  have e: "unat (offset + ucast n) = unat offset + unat n"
    using assms(4) by (simp add: unat_word_ariths unsigned_ucast_eq take_bit_nat_eq_self unat_u16_lt [THEN less_trans])
  then have "offset + ucast n \<le> 32" "offset \<le> offset + ucast n"
    using assms(4) by (simp_all add: word_le_nat_alt)
  from erase_loop_run [OF assms(1) this assms(2)] show ?thesis
    using assms(3) \<open>offset + ucast n \<le> 32\<close> by (simp add: flashEraseSectors_def Let_def e not_less)
qed

text \<open>C22: Erasing works.  On a documented controller a request for sectors of the user area returns
  \<^verbatim>\<open>F_ERR_OK\<close> with exactly those sectors blank and everything else unchanged.\<close>

theorem flashEraseSectors_correct:
  assumes "ftfx_documented hw idle" "idle (dev s)" "22 \<le> offset" "unat offset + unat n \<le> 32"
  shows "\<exists>s'. flashEraseSectors hw offset n s = Some (0, s') \<and> idle (dev s') \<and>
    flash_mem hw s' = sectors_fill (unat offset) (unat offset + unat n) (flash_mem hw s)"
  using flashEraseSectors_run [OF assms] .

theorem flashEraseSectors_correct_witness:
  "\<exists>s'. flashEraseSectors sim_hw 22 10 (sim_start (\<lambda>_. 0)) = Some (0, s') \<and>
     flash_mem sim_hw s' = sectors_fill 22 32 (\<lambda>_. 0)"
  using flashEraseSectors_correct [OF sim_behaves, of "sim_start (\<lambda>_. 0)" 22 10] by auto

lemma one_sector_commands:
  "flashEraseSectors hw 22 1 s = Some (0, s') \<Longrightarrow> commands (reg_log s') = commands (reg_log s) @ sector_commands 22"
  by (auto simp: flashEraseSectors_def Let_def erase_loop.simps [of hw 22] erase_loop.simps [of hw 23] sector_commands_def numeral_3_eq_3
      dest!: kinetis_flash_cmd_commands(1) margin_reads_commands split: option.splits if_splits)

theorem flashEraseSectors_confined_witness:
  "\<exists>s' new. flashEraseSectors sim_hw 22 1 (sim_start (\<lambda>_. 0)) = Some (0, s') \<and>
     commands (reg_log s') = commands (reg_log (sim_start (\<lambda>_. 0) :: sim flash_st)) @ new \<and> new = sector_commands 22 \<and>
     (\<forall>(c, a) \<in> set new. c \<in> {0x09, 0x01} \<and> 0x5800 \<le> a \<and> a < 0x8000 \<and> a mod 1024 = 0)"
proof -
  obtain s' where run: "flashEraseSectors sim_hw 22 1 (sim_start (\<lambda>_. 0)) = Some (0, s')"
    using flashEraseSectors_run [OF sim_behaves, of "sim_start (\<lambda>_. 0)" 22 1] by auto
  from flashEraseSectors_confined [OF run] one_sector_commands [OF run] run show ?thesis by auto
qed

end
