(* ===== verification/Murmur3.thy ===== *)
theory Murmur3
  imports LTC_Prelude
begin

text \<open>
  MurmurHash3 (\<^verbatim>\<open>orchard/murmur3.c\<close>), the hash that protects every packet and the whole
  program, and the pseudo-random numbers of \<^verbatim>\<open>orchard/arduino-math.c\<close> that are drawn from it.

  The key is the list of the \<^verbatim>\<open>len\<close> bytes at \<^verbatim>\<open>key\<close>; the block loop reads little-endian
  words, as the source does on this machine.  The 64-bit helpers of the file (\<^verbatim>\<open>rotl64\<close>,
  \<^verbatim>\<open>getblock64\<close>, \<^verbatim>\<open>fmix64\<close>) are not called by the 32-bit hash; the first and the
  last are modelled beside their 32-bit counterparts.

  The interface \<open>block_hash\<close> states when a chained hash detects a change of one block: its
  step must be injective in the running state and in the block.  It is interpreted for
  the mixing step of MurmurHash3.
\<close>

unbundle bit_operations_syntax

section \<open>Definitions\<close>

definition rotl32 :: "u32 \<Rightarrow> nat \<Rightarrow> u32" where
  "rotl32 x r = push_bit r x OR drop_bit (32 - r) x"

definition rotl64 :: "u64 \<Rightarrow> nat \<Rightarrow> u64" where
  "rotl64 x r = push_bit r x OR drop_bit (64 - r) x"

definition getblock32 :: "u8 list \<Rightarrow> nat \<Rightarrow> u32" where
  "getblock32 p i = le32 (p ! (4 * i)) (p ! (4 * i + 1)) (p ! (4 * i + 2)) (p ! (4 * i + 3))"

definition fmix32 :: "u32 \<Rightarrow> u32" where
  "fmix32 h =
     (let h = h XOR drop_bit 16 h; h = h * 0x85ebca6b;
          h = h XOR drop_bit 13 h; h = h * 0xc2b2ae35
      in h XOR drop_bit 16 h)"

definition fmix64 :: "u64 \<Rightarrow> u64" where
  "fmix64 k =
     (let k = k XOR drop_bit 33 k; k = k * 0xff51afd7ed558ccd;
          k = k XOR drop_bit 33 k; k = k * 0xc4ceb9fe1a85ec53
      in k XOR drop_bit 33 k)"

text \<open>The scrambling of a block, and the body of the block loop.\<close>

definition mix_k1 :: "u32 \<Rightarrow> u32" where
  "mix_k1 k1 = rotl32 (k1 * 0xcc9e2d51) 15 * 0x1b873593"

definition mix_h1 :: "u32 \<Rightarrow> u32 \<Rightarrow> u32" where
  "mix_h1 h1 k1 = rotl32 (h1 XOR mix_k1 k1) 13 * 5 + 0xe6546b64"

definition hash_body :: "u8 list \<Rightarrow> u32 \<Rightarrow> u32" where
  "hash_body data seed =
     fold (\<lambda>i h1. mix_h1 h1 (getblock32 data i)) [0..<length data div 4] seed"

text \<open>The fall-through \<^verbatim>\<open>switch (len & 3)\<close> on the bytes after the last whole block.\<close>

definition hash_tail :: "u8 list \<Rightarrow> u32 \<Rightarrow> u32" where
  "hash_tail data h1 =
     (let t = 4 * (length data div 4); r = length data mod 4;
          k1 = 0 :: u32;
          k1 = (if r \<ge> 3 then k1 XOR push_bit 16 (ucast (data ! (t + 2))) else k1);
          k1 = (if r \<ge> 2 then k1 XOR push_bit 8 (ucast (data ! (t + 1))) else k1)
      in if r \<ge> 1 then h1 XOR mix_k1 (k1 XOR ucast (data ! t)) else h1)"

definition MurmurHash3_x86_32 :: "u8 list \<Rightarrow> u32 \<Rightarrow> u32" where
  "MurmurHash3_x86_32 data seed =
     fmix32 (hash_tail data (hash_body data seed) XOR of_nat (length data))"

section \<open>Every step of the hash is injective\<close>

lemma mult_inj_by_inverse:
  assumes "c * d = (1 :: u32)"
  shows "x * c = y * c \<longleftrightarrow> x = y"
proof
  assume "x * c = y * c"
  then have "x * (c * d) = y * (c * d)" by (simp add: mult.assoc [symmetric])
  then show "x = y" by (simp add: assms)
qed simp

lemma mult_constants_inj:
  "x * 0xcc9e2d51 = y * 0xcc9e2d51 \<longleftrightarrow> x = (y :: u32)"
  "x * 0x1b873593 = y * 0x1b873593 \<longleftrightarrow> x = (y :: u32)"
  "x * 5 = y * 5 \<longleftrightarrow> x = (y :: u32)"
  "x * 0x85ebca6b = y * 0x85ebca6b \<longleftrightarrow> x = (y :: u32)"
  "x * 0xc2b2ae35 = y * 0xc2b2ae35 \<longleftrightarrow> x = (y :: u32)"
  by (simp_all add: mult_inj_by_inverse [of "0xcc9e2d51" "0xdee13bb1"]
      mult_inj_by_inverse [of "0x1b873593" "0x56ed309b"]
      mult_inj_by_inverse [of "5" "0xcccccccd"]
      mult_inj_by_inverse [of "0x85ebca6b" "0xa5cb9243"]
      mult_inj_by_inverse [of "0xc2b2ae35" "0x7ed1b41d"])

lemma bit_rotl32:
  "0 < r \<Longrightarrow> r < 32 \<Longrightarrow>
   bit (rotl32 x r) n \<longleftrightarrow> n < 32 \<and> (if n < r then bit x (n + (32 - r)) else bit x (n - r))"
  by (auto simp: rotl32_def bit_simps add.commute dest: bit_imp_le_length)

lemma rotl32_inverse: "0 < r \<Longrightarrow> r < 32 \<Longrightarrow> rotl32 (rotl32 x r) (32 - r) = x"
  by (rule bit_word_eqI) (auto simp: bit_rotl32)

lemma rotl32_inj: "0 < r \<Longrightarrow> r < 32 \<Longrightarrow> rotl32 x r = rotl32 y r \<longleftrightarrow> x = y"
  by (metis rotl32_inverse)

lemma xorshift16_inverse: "(h XOR drop_bit 16 h) XOR drop_bit 16 (h XOR drop_bit 16 h) = (h :: u32)"
  by (rule bit_word_eqI) (auto simp: bit_simps dest: bit_imp_le_length)

lemma xorshift13_inverse:
  fixes h :: u32
  defines "y \<equiv> h XOR drop_bit 13 h"
  shows "y XOR drop_bit 13 y XOR drop_bit 26 y = h"
  unfolding y_def by (rule bit_word_eqI) (auto simp: bit_simps dest: bit_imp_le_length)

lemma xorshift_inj:
  "h XOR drop_bit 16 h = g XOR drop_bit 16 g \<longleftrightarrow> h = (g :: u32)"
  "h XOR drop_bit 13 h = g XOR drop_bit 13 g \<longleftrightarrow> h = (g :: u32)"
  using xorshift16_inverse [of h] xorshift16_inverse [of g]
    xorshift13_inverse [of h] xorshift13_inverse [of g] by metis+

lemma fmix32_inj: "fmix32 g = fmix32 h \<longleftrightarrow> g = h"
  by (simp add: fmix32_def Let_def xorshift_inj mult_constants_inj)

lemma mix_k1_inj: "mix_k1 j = mix_k1 k \<longleftrightarrow> j = k"
  by (simp add: mix_k1_def mult_constants_inj rotl32_inj)

lemma xor_left_inj: "(a XOR b = a XOR c) \<longleftrightarrow> b = (c :: u32)"
  by (metis xor.left_commute xor_self_eq xor.right_neutral)

lemma xor_right_inj: "(b XOR a = c XOR a) \<longleftrightarrow> b = (c :: u32)"
  by (metis xor.commute xor_left_inj)

lemma mix_h1_inj_state: "mix_h1 g k = mix_h1 h k \<Longrightarrow> g = h"
  by (simp add: mix_h1_def mult_constants_inj rotl32_inj xor_right_inj)

lemma mix_h1_inj_block: "mix_h1 h j = mix_h1 h k \<Longrightarrow> j = k"
  by (simp add: mix_h1_def mult_constants_inj rotl32_inj xor_left_inj mix_k1_inj)

section \<open>Chained hashes that detect a change of one block\<close>

locale block_hash =
  fixes step :: "'s \<Rightarrow> 'k \<Rightarrow> 's"
  assumes step_inj_state: "step g k = step h k \<Longrightarrow> g = h"
    and step_inj_block: "step h j = step h k \<Longrightarrow> j = k"
begin

lemma run_inj_state:
  "fold (\<lambda>i h. step h (b i)) is g = fold (\<lambda>i h. step h (b i)) is h \<Longrightarrow> g = h"
  by (induction "is" arbitrary: g h) (auto dest: step_inj_state)

lemma run_detects:
  assumes "j < n" and "\<And>i. i < n \<Longrightarrow> i \<noteq> j \<Longrightarrow> a i = b i" and "a j \<noteq> b j"
  shows "fold (\<lambda>i h. step h (a i)) [0..<n] s \<noteq> fold (\<lambda>i h. step h (b i)) [0..<n] s"
proof -
  have split: "[0..<n] = [0..<j] @ j # [Suc j..<n]"
    using assms(1) by (metis le_simps(1) upt_add_eq_append upt_conv_Cons le0 less_imp_add_positive)
  let ?pre = "fold (\<lambda>i h. step h (b i)) [0..<j] s"
  have pre: "fold (\<lambda>i h. step h (a i)) [0..<j] s = ?pre"
    using assms by (intro fold_cong) auto
  have post: "fold (\<lambda>i h. step h (a i)) [Suc j..<n] g = fold (\<lambda>i h. step h (b i)) [Suc j..<n] g" for g
    using assms by (intro fold_cong) auto
  show ?thesis
    unfolding split fold_append using assms(3) pre post
    by (auto dest: run_inj_state step_inj_block)
qed

end

interpretation murmur: block_hash mix_h1
  by unfold_locales (fact mix_h1_inj_state, fact mix_h1_inj_block)

section \<open>The tail\<close>

text \<open>The word the \<^verbatim>\<open>switch\<close> assembles is the little-endian reading of the last bytes, padded by zeros.\<close>

definition tail_byte :: "u8 list \<Rightarrow> nat \<Rightarrow> u8" where
  "tail_byte data i = (if i < length data mod 4 then data ! (4 * (length data div 4) + i) else 0)"

lemma hash_tail_alt:
  "hash_tail data h1 =
     (if length data mod 4 = 0 then h1
      else h1 XOR mix_k1 (le32 (tail_byte data 0) (tail_byte data 1) (tail_byte data 2) 0))"
proof -
  let ?r = "length data mod 4"
  have "(push_bit 16 (ucast c) XOR push_bit 8 (ucast b)) XOR ucast a = le32 a b c 0"
    "push_bit 8 (ucast b) XOR ucast a = le32 a b 0 0" "ucast a = le32 a 0 0 0" for a b c :: u8
    by (rule bit_word_eqI; auto simp: bit_le32 bit_simps dest: bit_imp_le_length)+
  moreover consider "?r = 0" | "?r = 1" | "?r = 2" | "?r = 3" by linarith
  ultimately show ?thesis
    by cases (simp_all add: hash_tail_def tail_byte_def Let_def)
qed

lemma hash_tail_inj_state: "hash_tail data g = hash_tail data h \<Longrightarrow> g = h"
  by (auto simp: hash_tail_alt xor_right_inj split: if_splits)

lemma hash_tail_cong:
  "length a = length b \<Longrightarrow> (\<And>k. tail_byte a k = tail_byte b k) \<Longrightarrow> hash_tail a h = hash_tail b h"
  by (simp add: hash_tail_alt)

lemma hash_tail_detects:
  assumes len: "length a = length b" and j: "j < length a" "length a div 4 \<le> j div 4" and "a ! j \<noteq> b ! j"
  shows "hash_tail a h \<noteq> hash_tail b h"
proof
  let ?t = "4 * (length a div 4)" and ?r = "length a mod 4"
  have "length a = ?t + ?r" by simp
  moreover have "?t \<le> 4 * (j div 4)" using j(2) by simp
  moreover have "4 * (j div 4) \<le> j" by simp
  ultimately have j': "j = ?t + (j - ?t)" "j - ?t < ?r" using j(1) by linarith+
  moreover have "?r < 4" by simp
  ultimately have k: "?r \<noteq> 0" "j - ?t \<in> {0, 1, 2}" by auto
  assume "hash_tail a h = hash_tail b h"
  with k have "tail_byte a (j - ?t) = tail_byte b (j - ?t)"
    by (auto simp: hash_tail_alt len xor_left_inj mix_k1_inj le32_inject)
  with j' len assms(4) show False by (simp add: tail_byte_def)
qed

section \<open>Detection of corrupted words\<close>

lemma getblock32_cong:
  "(\<And>j. j div 4 = i \<Longrightarrow> a ! j = b ! j) \<Longrightarrow> getblock32 a i = getblock32 b i"
  by (simp add: getblock32_def)

lemma hash_body_detects:
  assumes len: "length a = length b" and i: "i < length a div 4"
    and same: "\<And>j. j < length a \<Longrightarrow> j div 4 \<noteq> i \<Longrightarrow> a ! j = b ! j"
    and diff: "j < length a" "a ! j \<noteq> b ! j"
  shows "hash_body a s \<noteq> hash_body b s"
proof -
  have j: "j div 4 = i" using same diff by blast
  have "getblock32 a i \<noteq> getblock32 b i"
  proof
    assume "getblock32 a i = getblock32 b i"
    then have eq: "\<forall>k < 4. a ! (4 * i + k) = b ! (4 * i + k)"
      by (auto simp: getblock32_def le32_inject numeral_eq_Suc less_Suc_eq)
    have "j = 4 * i + j mod 4" "j mod 4 < 4" using j by auto
    with eq diff show False by metis
  qed
  moreover have "getblock32 a k = getblock32 b k" if "k < length a div 4" "k \<noteq> i" for k
    using that by (intro getblock32_cong same) auto
  ultimately show ?thesis
    unfolding hash_body_def len [symmetric] using i by (intro murmur.run_detects) auto
qed

lemma hash_body_same:
  assumes len: "length a = length b"
    and same: "\<And>j. j < length a \<Longrightarrow> j div 4 < length a div 4 \<Longrightarrow> a ! j = b ! j"
  shows "hash_body a s = hash_body b s"
proof -
  have "getblock32 a k = getblock32 b k" if "k < length a div 4" for k
    using that by (intro getblock32_cong same) auto
  then show ?thesis
    unfolding hash_body_def len [symmetric] by (intro fold_cong) auto
qed

lemma murmur_word_diff:
  assumes len: "length a = length b"
    and same: "\<And>j. j < length a \<Longrightarrow> j div 4 \<noteq> i \<Longrightarrow> a ! j = b ! j"
    and diff: "a \<noteq> b"
  shows "MurmurHash3_x86_32 a seed \<noteq> MurmurHash3_x86_32 b seed"
proof -
  obtain j where j: "j < length a" "a ! j \<noteq> b ! j"
    using len diff by (auto simp: list_eq_iff_nth_eq)
  then have ji: "j div 4 = i" using same by blast
  have "hash_tail a (hash_body a seed) \<noteq> hash_tail b (hash_body b seed)"
  proof (cases "i < length a div 4")
    case True
    have "a ! (4 * (length a div 4) + k) = b ! (4 * (length a div 4) + k)" if "k < length a mod 4" for k
    proof (rule same)
      have "length a = 4 * (length a div 4) + length a mod 4" by simp
      with that show "4 * (length a div 4) + k < length a" by linarith
      have "k < 4" using that by linarith
      then show "(4 * (length a div 4) + k) div 4 \<noteq> i" using True by simp
    qed
    then have "hash_tail b h = hash_tail a h" for h
      using len by (intro hash_tail_cong) (auto simp: tail_byte_def)
    then show ?thesis
      using hash_body_detects [OF len True same j] hash_tail_inj_state by metis
  next
    case False
    then have "hash_body a seed = hash_body b seed"
      using same by (intro hash_body_same [OF len]) auto
    then show ?thesis
      using hash_tail_detects [OF len j(1) _ j(2)] False ji by simp
  qed
  then show ?thesis
    by (simp add: MurmurHash3_x86_32_def fmix32_inj len xor_right_inj)
qed

text \<open>
  C30: a change of the key that stays within one aligned 32-bit word always changes the
  hash, whatever the seed; in particular every single-bit error of a packet is detected.
\<close>

theorem murmur_detects_word_corruption:
  assumes len: "length a = length b"
    and same: "\<And>j. j < length a \<Longrightarrow> j div 4 \<noteq> i \<Longrightarrow> a ! j = b ! j"
    and diff: "a \<noteq> b"
  shows "MurmurHash3_x86_32 a seed \<noteq> MurmurHash3_x86_32 b seed"
  using murmur_word_diff [OF len same diff] .

theorem murmur_detects_word_corruption_witness:
  "MurmurHash3_x86_32 [1, 2, 3, 4, 5] 0xdeadbeef \<noteq> MurmurHash3_x86_32 [1, 2, 3, 4, 6] 0xdeadbeef"
  by (rule murmur_detects_word_corruption [where i = 1]) (auto simp: nth_Cons split: nat.split)

text \<open>Published test vectors of the algorithm.\<close>

lemma murmur_test_vectors:
  "MurmurHash3_x86_32 [] 1 = 0x514e28b7"
  "MurmurHash3_x86_32 [0x74, 0x65, 0x73, 0x74] 0 = 0xba6bd213"
  "MurmurHash3_x86_32 [0x21, 0x43, 0x65] 0 = 0x7e4a8634"
  by code_simp+

end
