(* ===== verification/Mac_Layer.thy ===== *)
theory Mac_Layer
  imports LTC_Prelude
begin

text \<open>
  The MAC layer (\<^verbatim>\<open>orchard/esplanade_mac.c\<close> and \<^verbatim>\<open>esplanade_mac.h\<close>): the bit-level state
  machine that finds the synchronisation sequence and assembles packets.

  The file-level variables are the record \<open>mac\<close>.  The arrays \<^verbatim>\<open>mac_sync\<close> and the bytes of
  the packet union \<^verbatim>\<open>pkt\<close> are lists of their size; \<open>putBitMac\<close> returns \<open>None\<close> where the
  source would store outside an array.  The assertion on \<^verbatim>\<open>pktReady\<close> is compiled out
  (\<^verbatim>\<open>CH_DBG_ENABLE_ASSERTS\<close> is \<^verbatim>\<open>FALSE\<close> in \<^verbatim>\<open>chconf.h\<close>).  The three cases of the
  switch are definitions of their own.
\<close>

unbundle bit_operations_syntax

section \<open>Packets\<close>

abbreviation (input) PAYLOAD_LEN :: nat where "PAYLOAD_LEN \<equiv> 256"
abbreviation (input) HEADER_LEN :: u32 where "HEADER_LEN \<equiv> 2"
abbreviation (input) DATA_LEN :: u32 where "DATA_LEN \<equiv> 264"
abbreviation (input) CTRL_LEN :: u32 where "CTRL_LEN \<equiv> 32"
abbreviation (input) PKTTYPE_CTRL :: u8 where "PKTTYPE_CTRL \<equiv> 0x01"
abbreviation (input) PKTTYPE_DATA :: u8 where "PKTTYPE_DATA \<equiv> 0x02"
abbreviation (input) PKT_VER_1 :: u8 where "PKT_VER_1 \<equiv> 0x01"
abbreviation (input) PKT_VER_2 :: u8 where "PKT_VER_2 \<equiv> 0x02"

text \<open>
  The packet buffer is the packed union \<^verbatim>\<open>demod_pkt_t\<close>, that is its 264 bytes; the fields
  are read at their offsets.
\<close>

type_synonym demod_pkt_t = "u8 list"

definition bytes32 :: "u8 list \<Rightarrow> nat \<Rightarrow> u32" where
  "bytes32 p i = le32 (p ! i) (p ! (i + 1)) (p ! (i + 2)) (p ! (i + 3))"

definition hdr_version :: "demod_pkt_t \<Rightarrow> u8" where "hdr_version p = p ! 0"
definition hdr_type :: "demod_pkt_t \<Rightarrow> u8" where "hdr_type p = p ! 1"

definition data_block :: "demod_pkt_t \<Rightarrow> u16" where "data_block p = le16 (p ! 2) (p ! 3)"
definition data_payload :: "demod_pkt_t \<Rightarrow> u8 list" where "data_payload p = take 256 (drop 4 p)"
definition data_hash :: "demod_pkt_t \<Rightarrow> u32" where "data_hash p = bytes32 p 260"

definition ctrl_length :: "demod_pkt_t \<Rightarrow> u32" where "ctrl_length p = bytes32 p 4"
definition ctrl_fullhash :: "demod_pkt_t \<Rightarrow> u32" where "ctrl_fullhash p = bytes32 p 8"
definition ctrl_guid :: "demod_pkt_t \<Rightarrow> u8 list" where "ctrl_guid p = take 16 (drop 12 p)"
definition ctrl_hash :: "demod_pkt_t \<Rightarrow> u32" where "ctrl_hash p = bytes32 p 28"

section \<open>The state machine\<close>

datatype mac_state_t = MAC_IDLE | MAC_SYNC | MAC_PACKET

record mac =
  mstate :: mac_state_t
  g_bitpos :: int
  g_curbyte :: u8
  idle_zeros :: u8
  mac_sync :: "u8 list"
  sync_count :: u8
  pkt_ptr :: u32
  pkt_len :: u32
  pkt_read :: u32
  pkt :: demod_pkt_t
  pktReady :: u8

definition mac_init :: mac where
  "mac_init = \<lparr>mstate = MAC_IDLE, g_bitpos = 9, g_curbyte = 0, idle_zeros = 0,
     mac_sync = replicate 4 0, sync_count = 0, pkt_ptr = 0, pkt_len = 0, pkt_read = 0,
     pkt = replicate 264 0, pktReady = 0\<rparr>"

definition mac_idle_bit :: "int \<Rightarrow> mac \<Rightarrow> mac" where
  "mac_idle_bit b s =
     (if idle_zeros s > 32 then
        if b \<noteq> 0 then
          s\<lparr>mstate := MAC_SYNC, g_bitpos := 6, g_curbyte := 0x80, sync_count := 0\<rparr>
        else if idle_zeros s < 255 then s\<lparr>idle_zeros := idle_zeros s + 1\<rparr> else s
      else if b \<noteq> 0 then s\<lparr>idle_zeros := 0\<rparr>
      else s\<lparr>idle_zeros := idle_zeros s + 1\<rparr>)"

text \<open>\<^verbatim>\<open>g_curbyte >>= 1; if (bit) g_curbyte |= 0x80;\<close>\<close>

definition shift_in :: "u8 \<Rightarrow> int \<Rightarrow> u8" where
  "shift_in c b = (if b \<noteq> 0 then drop_bit 1 c OR 0x80 else drop_bit 1 c)"

definition load_bit :: "int \<Rightarrow> mac \<Rightarrow> mac" where
  "load_bit b s = s\<lparr>g_curbyte := shift_in (g_curbyte s) b, g_bitpos := g_bitpos s - 1\<rparr>"

definition mac_sync_bit :: "int \<Rightarrow> mac \<Rightarrow> mac option" where
  "mac_sync_bit b s =
     (let s = load_bit b s in
      if g_bitpos s \<noteq> 0 then Some s
      else if g_curbyte s = 0 then Some (s\<lparr>mstate := MAC_IDLE, idle_zeros := 8\<rparr>)
      else if unat (sync_count s) \<ge> length (mac_sync s) then None
      else
        let s = s\<lparr>mac_sync := (mac_sync s)[unat (sync_count s) := g_curbyte s],
                  sync_count := sync_count s + 1\<rparr>;
            s = (if sync_count s \<ge> 3 then
                   if mac_sync s ! 0 = 0xAA \<and> mac_sync s ! 1 = 0x55 \<and> mac_sync s ! 2 = 0x42
                   then s\<lparr>mstate := MAC_PACKET, pkt_ptr := 0, pkt_len := 0, pkt_read := 0\<rparr>
                   else s\<lparr>mstate := MAC_IDLE, idle_zeros := 0\<rparr>
                 else s)
        in Some (s\<lparr>g_bitpos := 8, g_curbyte := 0\<rparr>))"

definition make_idle :: "mac \<Rightarrow> mac" where
  "make_idle s = s\<lparr>mstate := MAC_IDLE, idle_zeros := 0\<rparr>"

text \<open>The length of the packet by its header; \<open>None\<close> where the packet is abandoned.\<close>

definition packet_length :: "demod_pkt_t \<Rightarrow> u32 option" where
  "packet_length p =
     (if hdr_version p \<noteq> PKT_VER_1 \<and> hdr_version p \<noteq> PKT_VER_2 then None
      else if hdr_type p = PKTTYPE_CTRL then Some CTRL_LEN
      else if hdr_type p = PKTTYPE_DATA then Some DATA_LEN
      else None)"

text \<open>Loading the next bit, and the end of a byte and of the packet.\<close>

definition packet_load :: "int \<Rightarrow> mac \<Rightarrow> mac option" where
  "packet_load b s =
     (let s = load_bit b s in
      if g_bitpos s = 0 \<and> unat (pkt_read s) \<ge> length (pkt s) then None
      else
        let s = (if g_bitpos s = 0 then
                   s\<lparr>pkt := (pkt s)[unat (pkt_read s) := g_curbyte s],
                     pkt_read := pkt_read s + 1, g_bitpos := 8, g_curbyte := 0\<rparr>
                 else s)
        in if pkt_len s \<noteq> 0 \<and> pkt_read s \<ge> pkt_len s
           then Some (make_idle (s\<lparr>pktReady := 1\<rparr>))
           else Some s)"

definition mac_packet_bit :: "int \<Rightarrow> mac \<Rightarrow> mac option" where
  "mac_packet_bit b s =
     (if pkt_len s = 0 \<and> pkt_read s > HEADER_LEN then
        (case packet_length (pkt s) of
           None \<Rightarrow> Some (make_idle s)
         | Some len \<Rightarrow> packet_load b (s\<lparr>pkt_len := len\<rparr>))
      else packet_load b s)"

definition putBitMac :: "int \<Rightarrow> mac \<Rightarrow> mac option" where
  "putBitMac b s =
     (case mstate s of
        MAC_IDLE \<Rightarrow> Some (mac_idle_bit b s)
      | MAC_SYNC \<Rightarrow> mac_sync_bit b s
      | MAC_PACKET \<Rightarrow> mac_packet_bit b s)"

text \<open>The demodulator calls \<open>putBitMac\<close> once per bit.\<close>

fun put_bits :: "int list \<Rightarrow> mac \<Rightarrow> mac option" where
  "put_bits [] s = Some s"
| "put_bits (b # bs) s = Option.bind (putBitMac b s) (put_bits bs)"

section \<open>The invariant\<close>

definition mac_inv :: "mac \<Rightarrow> bool" where
  "mac_inv s \<longleftrightarrow>
     length (pkt s) = 264 \<and> length (mac_sync s) = 4 \<and>
     (case mstate s of
        MAC_IDLE \<Rightarrow> True
      | MAC_SYNC \<Rightarrow> 1 \<le> g_bitpos s \<and> g_bitpos s \<le> 8 \<and> sync_count s \<le> 2
      | MAC_PACKET \<Rightarrow>
          1 \<le> g_bitpos s \<and> g_bitpos s \<le> 8 \<and>
          (if pkt_len s = 0 then pkt_read s \<le> 3
           else packet_length (pkt s) = Some (pkt_len s) \<and> 3 \<le> pkt_read s \<and> pkt_read s < pkt_len s))"

text \<open>The packet flag only goes up on a complete packet with a valid header.\<close>

definition delivers :: "mac \<Rightarrow> mac \<Rightarrow> bool" where
  "delivers s s' \<longleftrightarrow>
     pktReady s' = pktReady s \<or> pktReady s' = 1 \<and> packet_length (pkt s') = Some (pkt_read s')"

lemma mac_inv_init: "mac_inv mac_init"
  by (simp add: mac_inv_def mac_init_def)

lemma mac_inv_idle: "mac_inv s \<Longrightarrow> mstate s = MAC_IDLE \<Longrightarrow> mac_inv (mac_idle_bit b s)"
  by (auto simp: mac_inv_def mac_idle_bit_def)

lemma mac_inv_sync:
  assumes "mac_inv s" "mstate s = MAC_SYNC"
  obtains s' where "mac_sync_bit b s = Some s'" "mac_inv s'"
proof -
  from assms have sc: "unat (sync_count s) \<le> 2" by (simp add: mac_inv_def word_le_nat_alt)
  then have "unat (sync_count s + 1) = Suc (unat (sync_count s))"
    by (simp add: unat_word_ariths)
  with assms sc show thesis
    by (intro that [of "the (mac_sync_bit b s)"])
      (auto simp: mac_inv_def mac_sync_bit_def load_bit_def Let_def word_le_nat_alt)
qed

lemma packet_length_cases: "packet_length p = Some n \<Longrightarrow> n = CTRL_LEN \<or> n = DATA_LEN"
  by (auto simp: packet_length_def split: if_splits)

lemma packet_length_update: "2 \<le> i \<Longrightarrow> packet_length (p[i := w]) = packet_length p"
  by (simp add: packet_length_def hdr_version_def hdr_type_def)

lemma packet_load_inv:
  assumes "length (pkt s) = 264" "length (mac_sync s) = 4" "mstate s = MAC_PACKET"
    and bp: "1 \<le> g_bitpos s" "g_bitpos s \<le> 8"
    and len: "if pkt_len s = 0 then pkt_read s \<le> 2
              else packet_length (pkt s) = Some (pkt_len s) \<and> 3 \<le> pkt_read s \<and> pkt_read s < pkt_len s"
  shows "\<exists>s'. packet_load b s = Some s' \<and> mac_inv s' \<and> delivers s s'"
proof -
  have read: "unat (pkt_read s) < 264"
    using len packet_length_cases [of "pkt s" "pkt_len s"]
    by (auto simp: word_le_nat_alt word_less_nat_alt split: if_splits)
  then have suc: "unat (pkt_read s + 1) = Suc (unat (pkt_read s))"
    by (simp add: unat_word_ariths)
  have upd: "3 \<le> pkt_read s \<Longrightarrow>
      packet_length ((pkt s)[unat (pkt_read s) := w]) = packet_length (pkt s)" for w
    by (simp add: packet_length_update word_le_nat_alt)
  have eq: "pkt_len s = pkt_read s + 1" if "pkt_len s \<le> pkt_read s + 1" "pkt_read s < pkt_len s"
    using that suc by (simp add: word_le_nat_alt word_less_nat_alt word_unat_eq_iff)
  show ?thesis
  proof (cases "pkt_len s = 0")
    case True
    with assms read suc show ?thesis
      by (auto simp: packet_load_def load_bit_def mac_inv_def delivers_def Let_def word_le_nat_alt)
  next
    case False
    then have "\<not> pkt_len s \<le> pkt_read s" using len by (simp add: not_le)
    with False assms read upd suc eq show ?thesis
      by (auto simp: packet_load_def load_bit_def make_idle_def mac_inv_def delivers_def Let_def
          word_le_nat_alt word_less_nat_alt)
  qed
qed

lemma mac_inv_packet:
  assumes "mac_inv s" "mstate s = MAC_PACKET"
  shows "\<exists>s'. mac_packet_bit b s = Some s' \<and> mac_inv s' \<and> delivers s s'"
proof (cases "pkt_len s = 0 \<and> pkt_read s > HEADER_LEN")
  case True
  then show ?thesis
  proof (cases "packet_length (pkt s)")
    case None
    with True assms show ?thesis by (simp add: mac_packet_bit_def make_idle_def mac_inv_def delivers_def)
  next
    case (Some n)
    moreover have "n = CTRL_LEN \<or> n = DATA_LEN" using Some by (rule packet_length_cases)
    ultimately have "\<exists>s'. packet_load b (s\<lparr>pkt_len := n\<rparr>) = Some s' \<and> mac_inv s' \<and>
        delivers (s\<lparr>pkt_len := n\<rparr>) s'"
      using True assms Some
      by (intro packet_load_inv) (auto simp: mac_inv_def word_le_nat_alt word_less_nat_alt)
    then show ?thesis using True Some by (simp add: mac_packet_bit_def delivers_def)
  qed
next
  case False
  with assms have "\<exists>s'. packet_load b s = Some s' \<and> mac_inv s' \<and> delivers s s'"
    by (intro packet_load_inv) (auto simp: mac_inv_def word_le_nat_alt word_less_nat_alt split: if_splits)
  then show ?thesis using False by (auto simp: mac_packet_bit_def)
qed

lemma putBitMac_step:
  assumes "mac_inv s"
  shows "\<exists>s'. putBitMac b s = Some s' \<and> mac_inv s' \<and> delivers s s'"
proof (cases "mstate s")
  case MAC_IDLE
  moreover have "delivers s (mac_idle_bit b s)" by (simp add: delivers_def mac_idle_bit_def)
  ultimately show ?thesis using assms by (simp add: putBitMac_def mac_inv_idle)
next
  case MAC_SYNC
  moreover have "mac_sync_bit b s = Some s' \<Longrightarrow> delivers s s'" for s'
    by (auto simp: delivers_def mac_sync_bit_def load_bit_def Let_def split: if_splits)
  moreover obtain s' where "mac_sync_bit b s = Some s'" "mac_inv s'"
    using assms MAC_SYNC by (rule mac_inv_sync)
  ultimately show ?thesis by (simp add: putBitMac_def)
next
  case MAC_PACKET
  with assms show ?thesis using mac_inv_packet [of s b] by (auto simp: putBitMac_def)
qed

text \<open>
  C31: fed any bit in any state the receiver can be in, \<open>putBitMac\<close> stores inside its
  arrays, keeps its invariant, and raises the packet flag only on a complete packet whose
  header has a known version and type.
\<close>

theorem putBitMac_safe:
  assumes "mac_inv s"
  shows "\<exists>s'. putBitMac b s = Some s' \<and> mac_inv s' \<and> delivers s s'"
  using putBitMac_step [OF assms] .

theorem putBitMac_safe_witness:
  "\<exists>s'. putBitMac 1 mac_init = Some s' \<and> mac_inv s' \<and> delivers mac_init s'"
  by (rule putBitMac_safe) (rule mac_inv_init)

lemma put_bits_append: "put_bits (xs @ ys) s = Option.bind (put_bits xs s) (put_bits ys)"
  by (induction xs arbitrary: s) (simp_all split: Option.bind_split)

section \<open>Frames\<close>

text \<open>
  The transmission format documented in \<^verbatim>\<open>esplanade_updater.c\<close>: a preamble of zero
  bytes, the synchronisation bytes AA 55 42, the packet; each byte least significant bit first.
\<close>

definition byte_bits :: "u8 \<Rightarrow> int list" where
  "byte_bits w = map (\<lambda>i. c_bool (bit w i)) [0..<8]"

definition frame :: "nat \<Rightarrow> u8 list \<Rightarrow> int list" where
  "frame zeros p = replicate zeros 0 @ concat (map byte_bits ([0xAA, 0x55, 0x42] @ p))"

definition well_formed_packet :: "u8 list \<Rightarrow> bool" where
  "well_formed_packet p \<longleftrightarrow>
     (case packet_length p of None \<Rightarrow> False | Some n \<Rightarrow> length p = unat n)"

lemma byte_bits_eq:
  "byte_bits w = [c_bool (bit w 0), c_bool (bit w 1), c_bool (bit w 2), c_bool (bit w 3),
                  c_bool (bit w 4), c_bool (bit w 5), c_bool (bit w 6), c_bool (bit w 7)]"
  by (simp add: byte_bits_def upt_conv_Cons eval_nat_numeral)

lemma bit_shift_in: "bit (shift_in c v) n \<longleftrightarrow> (n < 7 \<and> bit c (Suc n)) \<or> (n = 7 \<and> v \<noteq> 0)"
proof -
  have "bit (0x80 :: u8) n \<longleftrightarrow> n = 7"
    using bit_push_bit_iff [of 7 "1 :: u8" n] by (auto simp: bit_simps)
  then show ?thesis
    by (auto simp: shift_in_def bit_simps dest: bit_imp_le_length)
qed

lemma shift_in_byte:
  "foldl shift_in c (byte_bits w) = w"
  by (rule bit_word_eqI)
    (auto simp: byte_bits_eq bit_shift_in less_Suc_eq numeral_eq_Suc)

section \<open>Reception of a frame\<close>

text \<open>Idle: the preamble.\<close>

lemma idle_zero: "mstate s = MAC_IDLE \<Longrightarrow>
  putBitMac 0 s = Some (s\<lparr>idle_zeros := (if idle_zeros s = 255 then 255 else idle_zeros s + 1)\<rparr>)"
proof -
  have "idle_zeros s < 255 \<longleftrightarrow> idle_zeros s \<noteq> 255"
    using word_le_nat_alt [of "idle_zeros s" 255] unat_u8_lt [of "idle_zeros s"] by auto
  then show "mstate s = MAC_IDLE \<Longrightarrow> ?thesis"
    by (auto simp: putBitMac_def mac_idle_bit_def)
qed

lemma idle_zeros_run:
  "mstate s = MAC_IDLE \<Longrightarrow>
   \<exists>z. put_bits (replicate n 0) s = Some (s\<lparr>idle_zeros := z\<rparr>) \<and>
       min 255 (unat (idle_zeros s) + n) = unat z"
proof (induction n arbitrary: s)
  case 0
  then show ?case
    using unat_u8_lt [of "idle_zeros s"] by (intro exI [of _ "idle_zeros s"]) simp
next
  case (Suc n)
  let ?z = "if idle_zeros s = 255 then 255 else idle_zeros s + 1"
  have z: "unat ?z = min 255 (Suc (unat (idle_zeros s)))"
    using unat_u8_lt [of "idle_zeros s"] by (auto simp: unat_word_ariths word_unat_eq_iff)
  obtain z where "put_bits (replicate n 0) (s\<lparr>idle_zeros := ?z\<rparr>) = Some (s\<lparr>idle_zeros := z\<rparr>)"
    and "min 255 (unat ?z + n) = unat z"
    using Suc.IH [of "s\<lparr>idle_zeros := ?z\<rparr>"] Suc.prems by auto
  with z show ?case using Suc.prems by (auto simp: idle_zero)
qed

lemma idle_to_sync:
  "mstate s = MAC_IDLE \<Longrightarrow> idle_zeros s > 32 \<Longrightarrow> b \<noteq> 0 \<Longrightarrow>
   putBitMac b s = Some (s\<lparr>mstate := MAC_SYNC, g_bitpos := 6, g_curbyte := 0x80, sync_count := 0\<rparr>)"
  by (simp add: putBitMac_def mac_idle_bit_def)

text \<open>Synchronisation: all bits but the last of a byte are only shifted in.\<close>

lemma sync_bit_mid:
  "mstate s = MAC_SYNC \<Longrightarrow> g_bitpos s > 1 \<Longrightarrow> putBitMac b s = Some (load_bit b s)"
  by (simp add: putBitMac_def mac_sync_bit_def load_bit_def)

lemma load_bit_sel [simp]:
  "mstate (load_bit b s) = mstate s" "g_bitpos (load_bit b s) = g_bitpos s - 1"
  "pkt_len (load_bit b s) = pkt_len s" "pkt_read (load_bit b s) = pkt_read s"
  "pkt (load_bit b s) = pkt s" "g_curbyte (load_bit b s) = shift_in (g_curbyte s) b"
  by (simp_all add: load_bit_def)

lemma sync_sequence:
  assumes "mstate s = MAC_IDLE" "idle_zeros s > 32" "length (mac_sync s) = 4"
  shows "\<exists>ms sc. put_bits (tl (concat (map byte_bits [0xAA, 0x55, 0x42]))) s =
     Some (s\<lparr>mstate := MAC_PACKET, g_bitpos := 8, g_curbyte := 0, mac_sync := ms, sync_count := sc,
             pkt_ptr := 0, pkt_len := 0, pkt_read := 0\<rparr>) \<and> length ms = 4"
proof -
  have bits: "tl (concat (map byte_bits [0xAA, 0x55, 0x42])) =
    [1,0,1,0,1,0,1, 1,0,1,0,1,0,1,0, 0,1,0,0,0,0,1,0]"
    by code_simp
  obtain a b c d where ms: "mac_sync s = [a, b, c, d]"
    using assms(3) by (auto simp: numeral_eq_Suc length_Suc_conv)
  have le: "\<not> (3 :: u8) \<le> 1" by (simp add: word_le_nat_alt)
  show ?thesis
    unfolding bits using assms(1,2) ms le
    by (intro exI [of _ "[0xAA, 0x55, 0x42, d]"] exI [of _ 3]) (simp add: mac_idle_bit_def putBitMac_def mac_sync_bit_def load_bit_def shift_in_def Let_def)
qed

text \<open>Packet bytes.\<close>

definition length_settled :: "mac \<Rightarrow> bool" where
  "length_settled s \<longleftrightarrow> (if pkt_len s = 0 then pkt_read s \<le> HEADER_LEN else pkt_read s < pkt_len s)"

definition end_byte :: "u8 \<Rightarrow> mac \<Rightarrow> mac" where
  "end_byte w s =
     (let s = s\<lparr>pkt := (pkt s)[unat (pkt_read s) := w], pkt_read := pkt_read s + 1,
                g_bitpos := 8, g_curbyte := 0\<rparr>
      in if pkt_len s \<noteq> 0 \<and> pkt_read s \<ge> pkt_len s then make_idle (s\<lparr>pktReady := 1\<rparr>) else s)"

lemma packet_bits_mid:
  "mstate s = MAC_PACKET \<Longrightarrow> length_settled s \<Longrightarrow> int (length bs) < g_bitpos s \<Longrightarrow>
   put_bits bs s = Some (s\<lparr>g_curbyte := foldl shift_in (g_curbyte s) bs,
                          g_bitpos := g_bitpos s - int (length bs)\<rparr>)"
proof (induction bs arbitrary: s)
  case (Cons b bs)
  have "putBitMac b s = Some (load_bit b s)"
    using Cons.prems
    by (auto simp: putBitMac_def mac_packet_bit_def packet_load_def length_settled_def Let_def split: if_splits)
  moreover have "put_bits bs (load_bit b s) = Some ((load_bit b s)\<lparr>g_curbyte := foldl shift_in (g_curbyte (load_bit b s)) bs,
                          g_bitpos := g_bitpos (load_bit b s) - int (length bs)\<rparr>)"
    using Cons.prems by (intro Cons.IH) (simp_all add: length_settled_def)
  ultimately show ?case by (simp add: load_bit_def algebra_simps)
qed simp

lemma packet_bit_last:
  assumes "mstate s = MAC_PACKET" "length_settled s" "g_bitpos s = 1" "unat (pkt_read s) < length (pkt s)"
  shows "putBitMac b s = Some (end_byte (shift_in (g_curbyte s) b) s)"
  using assms
  by (auto simp: putBitMac_def mac_packet_bit_def packet_load_def length_settled_def end_byte_def
      load_bit_def make_idle_def Let_def split: if_splits)

lemma packet_byte:
  assumes "mstate s = MAC_PACKET" "length_settled s" "g_bitpos s = 8" "unat (pkt_read s) < length (pkt s)"
  shows "put_bits (byte_bits w) s = Some (end_byte w s)"
proof -
  have split: "byte_bits w = butlast (byte_bits w) @ [last (byte_bits w)]"
    and len: "length (butlast (byte_bits w)) = 7"
    by (simp_all add: byte_bits_eq)
  let ?s = "s\<lparr>g_curbyte := foldl shift_in (g_curbyte s) (butlast (byte_bits w)), g_bitpos := 1\<rparr>"
  have "put_bits (butlast (byte_bits w)) s = Some ?s"
    using assms len by (subst packet_bits_mid) simp_all
  moreover have "putBitMac (last (byte_bits w)) ?s = Some (end_byte w ?s)"
  proof -
    have "shift_in (g_curbyte ?s) (last (byte_bits w)) = foldl shift_in (g_curbyte s) (byte_bits w)"
      using arg_cong [OF split, of "foldl shift_in (g_curbyte s)"] by simp
    then show ?thesis
      using assms packet_bit_last [of ?s "last (byte_bits w)"]
      by (simp add: shift_in_byte length_settled_def)
  qed
  moreover have "end_byte w ?s = end_byte w s"
    by (simp add: end_byte_def make_idle_def Let_def)
  ultimately show ?thesis
    by (subst split) (simp add: put_bits_append)
qed

lemma header_complete:
  assumes "mstate s = MAC_PACKET" "pkt_len s = 0" "pkt_read s > HEADER_LEN" "packet_length (pkt s) = Some n"
  shows "put_bits (byte_bits w) s = put_bits (byte_bits w) (s\<lparr>pkt_len := n\<rparr>)"
  using assms packet_length_cases [of "pkt s" n]
  by (auto simp: byte_bits_eq putBitMac_def mac_packet_bit_def)

text \<open>The state after the first \<open>k\<close> bytes of a packet \<open>p\<close>.\<close>

definition received :: "u8 list \<Rightarrow> mac \<Rightarrow> nat \<Rightarrow> mac" where
  "received p s k = s\<lparr>pkt := take k p @ drop k (pkt s), pkt_read := of_nat k,
     pkt_len := (if k \<le> 3 then 0 else of_nat (length p))\<rparr>"

lemma well_formed_length:
  "well_formed_packet p \<Longrightarrow> (length p = 32 \<or> length p = 264) \<and> packet_length p = Some (of_nat (length p))"
  by (auto simp: well_formed_packet_def split: option.splits dest!: packet_length_cases)

lemma packet_length_prefix:
  "2 \<le> k \<Longrightarrow> k \<le> length p \<Longrightarrow> packet_length (take k p @ q) = packet_length p"
  by (simp add: packet_length_def hdr_version_def hdr_type_def nth_append)

lemma list_update_received:
  "k < length p \<Longrightarrow> length p \<le> length q \<Longrightarrow>
   (take k p @ drop k q)[k := p ! k] = take (Suc k) p @ drop (Suc k) q"
  by (simp add: list_update_append take_Suc_conv_app_nth Cons_nth_drop_Suc [symmetric])

lemma received_step:
  assumes p: "well_formed_packet p" and s: "mstate s = MAC_PACKET" "g_bitpos s = 8" "g_curbyte s = 0"
    "length (pkt s) = 264" and k: "k < length p"
  shows "put_bits (byte_bits (p ! k)) (received p s k) =
     Some (if Suc k < length p then received p s (Suc k)
           else make_idle ((received p s (length p))\<lparr>pktReady := 1\<rparr>))"
proof -
  let ?s = "received p s k"
  let ?n = "of_nat (length p) :: u32"
  have len: "packet_length p = Some ?n" and le: "4 < length p" "length p \<le> length (pkt s)"
    and small: "length p < 2 ^ 32"
    using well_formed_length [OF p] s by auto
  have n: "unat ?n = length p" "?n \<noteq> 0" and kn: "unat (of_nat k :: u32) = k" "unat (of_nat (Suc k) :: u32) = Suc k"
    using small le k by (auto simp: word_unat_eq_iff simp del: of_nat_Suc)
  define t where "t = (if k = 3 then ?s\<lparr>pkt_len := ?n\<rparr> else ?s)"
  have t_sel: "mstate t = MAC_PACKET" "g_bitpos t = 8" "pkt t = take k p @ drop k (pkt s)"
    "pkt_read t = of_nat k" "pkt_len t = (if k < 3 then 0 else ?n)"
    using s by (auto simp: t_def received_def)
  have "put_bits (byte_bits (p ! k)) ?s = put_bits (byte_bits (p ! k)) t"
    using header_complete [of ?s ?n] len k s
    by (auto simp: t_def received_def packet_length_prefix word_less_nat_alt)
  also have "\<dots> = Some (end_byte (p ! k) t)"
  proof (rule packet_byte)
    show "length_settled t"
      using n k kn by (auto simp: length_settled_def t_sel word_less_nat_alt word_le_nat_alt)
    show "unat (pkt_read t) < length (pkt t)" using k kn le by (simp add: t_sel)
  qed (simp_all add: t_sel)
  also have "end_byte (p ! k) t = (if Suc k < length p then received p s (Suc k)
           else make_idle ((received p s (length p))\<lparr>pktReady := 1\<rparr>))"
  proof -
    have more: "pkt_len (received p s (Suc k)) \<noteq> 0 \<and>
        pkt_len (received p s (Suc k)) \<le> pkt_read (received p s (Suc k)) \<longleftrightarrow> \<not> Suc k < length p"
      using n kn le by (auto simp: received_def word_le_nat_alt simp del: of_nat_Suc)
    have upd: "t\<lparr>pkt := (pkt t)[unat (pkt_read t) := p ! k], pkt_read := pkt_read t + 1,
                g_bitpos := 8, g_curbyte := 0\<rparr> = received p s (Suc k)"
      using s kn list_update_received [OF k le(2)]
      by (auto simp: t_sel(3,4)) (auto simp: t_def received_def add.commute)
    have "Suc k = length p" if "\<not> Suc k < length p" using that k by simp
    with more show ?thesis
      unfolding end_byte_def Let_def upd by (cases "Suc k < length p") auto
  qed
  finally show ?thesis .
qed

lemma received_prefix:
  assumes p: "well_formed_packet p" and s: "mstate s = MAC_PACKET" "g_bitpos s = 8" "g_curbyte s = 0"
    "length (pkt s) = 264" "pkt_len s = 0" "pkt_read s = 0" and k: "k < length p"
  shows "put_bits (concat (map byte_bits (take k p))) s = Some (received p s k)"
  using k
proof (induction k)
  case 0
  then show ?case using s by (simp add: received_def)
next
  case (Suc k)
  then show ?case
    using received_step [OF p s(1-4), of k]
    by (simp add: take_Suc_conv_app_nth put_bits_append)
qed

lemma packet_received:
  assumes p: "well_formed_packet p" and s: "mstate s = MAC_PACKET" "g_bitpos s = 8" "g_curbyte s = 0"
    "length (pkt s) = 264" "pkt_len s = 0" "pkt_read s = 0"
  shows "put_bits (concat (map byte_bits p)) s =
     Some (make_idle ((received p s (length p))\<lparr>pktReady := 1\<rparr>))"
proof -
  define k where "k = length p - 1"
  have k: "k < length p" "length p = Suc k"
    using well_formed_length [OF p] by (auto simp: k_def)
  have "take (Suc k) p = take k p @ [p ! k]"
    using k(1) by (rule take_Suc_conv_app_nth)
  then have "concat (map byte_bits (take (Suc k) p)) = concat (map byte_bits (take k p)) @ byte_bits (p ! k)"
    by simp
  then have "put_bits (concat (map byte_bits p)) s =
     put_bits (concat (map byte_bits (take k p)) @ byte_bits (p ! k)) s"
    using k(2) by simp
  also have "\<dots> = put_bits (byte_bits (p ! k)) (received p s k)"
    using received_prefix [OF p s k(1)] by (simp add: put_bits_append)
  finally show ?thesis
    using received_step [OF p s(1-4) k(1)] k by simp
qed

text \<open>
  C3: a frame with a preamble of at least 32 zero bits and a well-formed control or data packet
  is received whatever the earlier history of the idle receiver: the packet flag is up, the
  buffer starts with exactly the bytes sent, and the receiver is idle again.
\<close>

theorem mac_receives_frame:
  assumes s: "mac_inv s" "mstate s = MAC_IDLE" and p: "well_formed_packet p" and z: "32 \<le> zeros"
  shows "\<exists>s'. put_bits (frame zeros p) s = Some s' \<and> pktReady s' = 1 \<and>
     take (length p) (pkt s') = p \<and> mstate s' = MAC_IDLE \<and> idle_zeros s' = 0 \<and> mac_inv s'"
proof -
  let ?sync = "concat (map byte_bits [0xAA, 0x55, 0x42])"
  have frame: "frame zeros p = replicate (Suc zeros) 0 @ tl ?sync @ concat (map byte_bits p)"
    by (simp add: frame_def byte_bits_eq replicate_append_same [symmetric])
  obtain z where 1: "put_bits (replicate (Suc zeros) 0) s = Some (s\<lparr>idle_zeros := z\<rparr>)"
    and z: "z > 32"
    using idle_zeros_run [OF s(2), of "Suc zeros"] z by (auto simp: word_less_nat_alt)
  let ?s1 = "s\<lparr>idle_zeros := z\<rparr>"
  have len: "length (pkt s) = 264" "length (mac_sync s) = 4"
    using s by (simp_all add: mac_inv_def)
  obtain ms sc where 2: "put_bits (tl ?sync) ?s1 =
     Some (?s1\<lparr>mstate := MAC_PACKET, g_bitpos := 8, g_curbyte := 0, mac_sync := ms, sync_count := sc,
             pkt_ptr := 0, pkt_len := 0, pkt_read := 0\<rparr>)" "length ms = 4"
    using sync_sequence [of ?s1] s z len by auto
  let ?s2 = "?s1\<lparr>mstate := MAC_PACKET, g_bitpos := 8, g_curbyte := 0, mac_sync := ms, sync_count := sc,
             pkt_ptr := 0, pkt_len := 0, pkt_read := 0\<rparr>"
  have 3: "put_bits (concat (map byte_bits p)) ?s2 =
     Some (make_idle ((received p ?s2 (length p))\<lparr>pktReady := 1\<rparr>))"
    using p len by (intro packet_received) simp_all
  have run: "put_bits (frame zeros p) s = Some (make_idle ((received p ?s2 (length p))\<lparr>pktReady := 1\<rparr>))"
    by (simp only: frame put_bits_append 1 2(1) 3 Option.bind.simps)
  show ?thesis
    unfolding run using 2(2) len well_formed_length [OF p]
    by (auto simp: make_idle_def received_def mac_inv_def)
qed

theorem mac_receives_frame_witness:
  "\<exists>s'. put_bits (frame 32 ([1, 1] @ replicate 30 7)) mac_init = Some s' \<and> pktReady s' = 1 \<and>
     take 32 (pkt s') = [1, 1] @ replicate 30 7 \<and> mstate s' = MAC_IDLE \<and> idle_zeros s' = 0 \<and> mac_inv s'"
proof -
  have "well_formed_packet ([1, 1] @ replicate 30 7)"
    by (simp add: well_formed_packet_def packet_length_def hdr_version_def hdr_type_def)
  then show ?thesis
    using mac_receives_frame [of mac_init "[1, 1] @ replicate 30 7" 32]
    by (simp add: mac_inv_init) (simp add: mac_init_def)
qed

end
