(* ===== verification/C_Library.thy ===== *)
theory C_Library
  imports LTC_Prelude
begin

text \<open>
  The runtime library of the firmware: the 64-bit comparison helpers of
  \<^verbatim>\<open>orchard/math.c\<close> and the character, string and memory routines of
  \<^verbatim>\<open>orchard/__aeabi.c\<close>.

  Memory routines work on the byte-addressed memory; the address 0 is C's \<^verbatim>\<open>NULL\<close>.  A
  NUL-terminated string that is only read is the list of its bytes before the terminator:
  \<open>chr0\<close> reads the byte the pointer is at (0 at the end) and \<open>tl\<close> advances it; a pointer that
  may be \<^verbatim>\<open>NULL\<close> is an option.  The word-wise routines return \<open>None\<close> where the Cortex-M0+
  faults on an access that is not 4-aligned.

  The interface \<open>mem_copy\<close> states what a caller may expect of a copying routine; it is
  interpreted for \<open>memcpy\<close> and for \<open>memmove\<close>, which is the same forward loop and therefore
  does not satisfy C's contract of \<^verbatim>\<open>memmove\<close> on overlapping blocks.
\<close>

unbundle bit_operations_syntax

section \<open>64-bit comparison (math.c)\<close>

definition uu_hi :: "u64 \<Rightarrow> u32" where
  "uu_hi q = ucast (drop_bit 32 q)"

definition uu_lo :: "u64 \<Rightarrow> u32" where
  "uu_lo q = ucast q"

definition aeabi_lcmp :: "u64 \<Rightarrow> u64 \<Rightarrow> int" where
  "aeabi_lcmp a b =
     (if sint (uu_hi a) < sint (uu_hi b) then -1
      else if sint (uu_hi a) > sint (uu_hi b) then 1
      else if sint (uu_lo a) < sint (uu_lo b) then -1
      else if sint (uu_lo a) > sint (uu_lo b) then 1
      else 0)"

definition aeabi_ulcmp :: "u64 \<Rightarrow> u64 \<Rightarrow> int" where
  "aeabi_ulcmp a b =
     (if uu_hi a < uu_hi b then -1
      else if uu_hi a > uu_hi b then 1
      else if uu_lo a < uu_lo b then -1
      else if uu_lo a > uu_lo b then 1
      else 0)"

section \<open>Characters\<close>

definition isspace :: "u8 \<Rightarrow> bool" where
  "isspace c \<longleftrightarrow> c = 0x20 \<or> c = 0x0C \<or> c = 0x0A \<or> c = 0x0D \<or> c = 0x09 \<or> c = 0x0B"

definition isdigit :: "u8 \<Rightarrow> bool" where
  "isdigit c \<longleftrightarrow> 0x30 \<le> c \<and> c \<le> 0x39"

definition isxdigit :: "u8 \<Rightarrow> bool" where
  "isxdigit c \<longleftrightarrow> 0x30 \<le> c \<and> c \<le> 0x39 \<or> 0x61 \<le> c \<and> c \<le> 0x66 \<or> 0x41 \<le> c \<and> c \<le> 0x46"

definition isupper :: "u8 \<Rightarrow> bool" where
  "isupper c \<longleftrightarrow> 0x41 \<le> c \<and> c \<le> 0x5A"

definition islower :: "u8 \<Rightarrow> bool" where
  "islower c \<longleftrightarrow> 0x61 \<le> c \<and> c \<le> 0x7A"

definition isalpha :: "u8 \<Rightarrow> bool" where
  "isalpha c \<longleftrightarrow> isupper c \<or> islower c"

definition isalnum :: "u8 \<Rightarrow> bool" where
  "isalnum c \<longleftrightarrow> isalpha c \<or> isdigit c"

definition toupper :: "u8 \<Rightarrow> u8" where
  "toupper c = (if \<not> islower c then c else c - (0x61 - 0x41))"

section \<open>Numbers from strings\<close>

text \<open>The byte a string pointer is at.\<close>

definition chr0 :: "u8 list \<Rightarrow> u8" where
  "chr0 s = (case s of [] \<Rightarrow> 0 | c # _ \<Rightarrow> c)"

definition digit_value :: "u8 \<Rightarrow> u32" where
  "digit_value c =
     (if isdigit c then ucast c - 0x30
      else ucast (if islower c then toupper c else c) - 0x41 + 10)"

fun strtoul_loop :: "u32 \<Rightarrow> u32 \<Rightarrow> u8 list \<Rightarrow> u32 \<times> u8 list" where
  "strtoul_loop base result [] = (result, [])"
| "strtoul_loop base result (c # cp) =
     (if isxdigit c \<and> digit_value c < base
      then strtoul_loop base (result * base + digit_value c) cp
      else (result, c # cp))"

text \<open>
  The result pairs the number with what \<^verbatim>\<open>*endp\<close> is set to: \<open>None\<close> where the source returns
  before it writes \<^verbatim>\<open>*endp\<close>.
\<close>

definition simple_strtoul :: "u8 list option \<Rightarrow> u32 \<Rightarrow> u32 \<times> u8 list option" where
  "simple_strtoul cpo base =
     (case cpo of None \<Rightarrow> (0, None)
      | Some cp \<Rightarrow>
        let (cp, base) =
              (if chr0 cp = 0x30 then
                 let cp = tl cp;
                     (cp, base) = (if chr0 cp = 0x78 \<and> isxdigit (chr0 (tl cp)) then (tl cp, 16)
                                   else (cp, base))
                 in (cp, if base = 0 then 8 else base)
               else (cp, base));
            base = (if base = 0 then 10 else base);
            (result, endp) = strtoul_loop base 0 cp
        in (result, Some endp))"

definition simple_strtol :: "u8 list \<Rightarrow> u32 \<Rightarrow> u32 \<times> u8 list option" where
  "simple_strtol cp base =
     (if chr0 cp = 0x2D
      then (let (r, e) = simple_strtoul (Some (tl cp)) base in (- r, e))
      else simple_strtoul (Some cp) base)"

section \<open>Memory blocks\<close>

definition memset_aligned :: "u32 \<Rightarrow> u32 \<Rightarrow> u32 \<Rightarrow> mem \<Rightarrow> mem option" where
  "memset_aligned dst0 val len m =
     (let n = unat len div 4
      in if n > 0 \<and> dst0 mod 4 \<noteq> 0 then None
         else Some (fold (\<lambda>i m. store32 (dst0 + 4 * of_nat i) val m) [0..<n] m))"

text \<open>The bodies of the byte loops: \<^verbatim>\<open>*ptr++ = val\<close> and \<^verbatim>\<open>d[i] = s[i]\<close>.\<close>

definition set_byte :: "u32 \<Rightarrow> u32 \<Rightarrow> nat \<Rightarrow> mem \<Rightarrow> mem" where
  "set_byte dst0 val i m = m(dst0 + of_nat i := ucast val)"

definition copy_byte :: "u32 \<Rightarrow> u32 \<Rightarrow> nat \<Rightarrow> mem \<Rightarrow> mem" where
  "copy_byte d s i m = m(d + of_nat i := m (s + of_nat i))"

definition memset :: "u32 \<Rightarrow> u32 \<Rightarrow> u32 \<Rightarrow> mem \<Rightarrow> mem" where
  "memset dst0 val len m = fold (set_byte dst0 val) [0..<unat len] m"

definition memclr :: "u32 \<Rightarrow> u32 \<Rightarrow> mem \<Rightarrow> mem" where
  "memclr dst0 len m = memset dst0 0 len m"

definition memcpy :: "u32 \<Rightarrow> u32 \<Rightarrow> u32 \<Rightarrow> mem \<Rightarrow> mem" where
  "memcpy dest src n m = fold (copy_byte dest src) [0..<unat n] m"

definition memmove :: "u32 \<Rightarrow> u32 \<Rightarrow> u32 \<Rightarrow> mem \<Rightarrow> mem" where
  "memmove dest src n m = memcpy dest src n m"

definition memcpy_aligned :: "u32 \<Rightarrow> u32 \<Rightarrow> u32 \<Rightarrow> mem \<Rightarrow> mem option" where
  "memcpy_aligned dest src n m =
     (let k = unat n div 4
      in if k > 0 \<and> (dest mod 4 \<noteq> 0 \<or> src mod 4 \<noteq> 0) then None
         else Some (fold (\<lambda>i m. store32 (dest + 4 * of_nat i) (load32 m (src + 4 * of_nat i)) m)
                      [0..<k] m))"

definition memmove_aligned :: "u32 \<Rightarrow> u32 \<Rightarrow> u32 \<Rightarrow> mem \<Rightarrow> mem option" where
  "memmove_aligned dest src n m = memcpy_aligned dest src n m"

fun memcmp_loop :: "nat \<Rightarrow> u32 \<Rightarrow> u32 \<Rightarrow> mem \<Rightarrow> int" where
  "memcmp_loop 0 s1 s2 m = 0"
| "memcmp_loop (Suc n) s1 s2 m =
     (if m s1 \<noteq> m s2 then uint (m s1) - uint (m s2) else memcmp_loop n (s1 + 1) (s2 + 1) m)"

definition memcmp :: "u32 \<Rightarrow> u32 \<Rightarrow> u32 \<Rightarrow> mem \<Rightarrow> int" where
  "memcmp s1 s2 n m =
     (if s1 = 0 \<and> s2 = 0 then 0
      else if s1 = 0 then -1
      else if s2 = 0 then 1
      else memcmp_loop (unat n) s1 s2 m)"

section \<open>Strings\<close>

fun strncpy_fill :: "u32 \<Rightarrow> nat \<Rightarrow> mem \<Rightarrow> mem" where
  "strncpy_fill d 0 m = m"
| "strncpy_fill d (Suc n) m = strncpy_fill (d + 1) n (m(d := 0))"

fun strncpy_loop :: "u32 \<Rightarrow> u8 list \<Rightarrow> nat \<Rightarrow> mem \<Rightarrow> mem" where
  "strncpy_loop d s 0 m = m"
| "strncpy_loop d s (Suc n) m =
     (if chr0 s \<noteq> 0 then strncpy_loop (d + 1) (tl s) n (m(d := chr0 s))
      else strncpy_fill d (Suc n) m)"

text \<open>The returned pointer and the memory; the source string does not overlap the destination.\<close>

definition strncpy :: "u32 \<Rightarrow> u8 list option \<Rightarrow> u32 \<Rightarrow> mem \<Rightarrow> u32 \<times> mem" where
  "strncpy dest srco n m =
     (case srco of None \<Rightarrow> (0, m)
      | Some src \<Rightarrow> if dest = 0 then (0, m) else (dest, strncpy_loop dest src (unat n) m))"

fun strcpy_loop :: "u32 \<Rightarrow> u8 list \<Rightarrow> mem \<Rightarrow> mem" where
  "strcpy_loop d [] m = m(d := 0)"
| "strcpy_loop d (c # s) m = (if c \<noteq> 0 then strcpy_loop (d + 1) s (m(d := c)) else m(d := 0))"

definition strcpy :: "u32 \<Rightarrow> u8 list option \<Rightarrow> mem \<Rightarrow> u32 \<times> mem" where
  "strcpy dest srco m =
     (case srco of None \<Rightarrow> (0, m)
      | Some src \<Rightarrow> if dest = 0 then (0, m) else (dest, strcpy_loop dest src m))"

fun strchr :: "u8 list \<Rightarrow> int \<Rightarrow> u8 list option" where
  "strchr [] c = (if c = 0 then Some [] else None)"
| "strchr (x # s) c =
     (if x \<noteq> 0 \<and> uint x \<noteq> c then strchr s c
      else if uint x = c then Some (x # s) else None)"

function strncmp_loop :: "u8 list \<Rightarrow> u8 list \<Rightarrow> u32 \<Rightarrow> int" where
  "strncmp_loop s1 s2 n =
     (if chr0 s1 = chr0 s2
      then if chr0 s1 = 0 \<or> n - 1 = 0 then 0 else strncmp_loop (tl s1) (tl s2) (n - 1)
      else uint (chr0 s1) - uint (chr0 s2))"
  by pat_completeness auto
termination
  by (relation "measure (\<lambda>(s1, s2, n). length s1)") (auto simp: chr0_def split: list.splits)

declare strncmp_loop.simps [simp del]

definition strncmp :: "u8 list option \<Rightarrow> u8 list option \<Rightarrow> u32 \<Rightarrow> int" where
  "strncmp s1o s2o n =
     (case (s1o, s2o) of (None, None) \<Rightarrow> 0 | (None, Some _) \<Rightarrow> -1 | (Some _, None) \<Rightarrow> 1
      | (Some s1, Some s2) \<Rightarrow> strncmp_loop s1 s2 n)"

definition strcmp :: "u8 list option \<Rightarrow> u8 list option \<Rightarrow> int" where
  "strcmp s1 s2 = strncmp s1 s2 (NOT 0)"

definition strlen :: "u8 list option \<Rightarrow> u32" where
  "strlen so = (case so of None \<Rightarrow> 0 | Some s \<Rightarrow> of_nat (length (takeWhile (\<lambda>c. c \<noteq> 0) s)))"

section \<open>Defining equations in the form the proofs use\<close>

lemma strncpy_fill_simps:
  "strncpy_fill d 0 m = m"
  "strncpy_fill d (Suc n) m = strncpy_fill (d + 1) n (m(d := 0))"
  by simp_all

lemma strncpy_loop_simps:
  "strncpy_loop d s 0 m = m"
  "strncpy_loop d s (Suc n) m =
     (if chr0 s \<noteq> 0 then strncpy_loop (d + 1) (tl s) n (m(d := chr0 s))
      else strncpy_fill d (Suc n) m)"
  by simp_all

lemma strcpy_loop_simps:
  "strcpy_loop d [] m = m(d := 0)"
  "strcpy_loop d (c # s) m = (if c \<noteq> 0 then strcpy_loop (d + 1) s (m(d := c)) else m(d := 0))"
  by simp_all

declare strncpy_fill.simps [simp del] strncpy_fill_simps [simp]
declare strncpy_loop.simps [simp del] strncpy_loop_simps [simp]
declare strcpy_loop.simps [simp del] strcpy_loop_simps [simp]

lemma uint_uu: "uint q = uint (uu_hi q) * 2 ^ 32 + uint (uu_lo q)"
proof -
  have "uint q < 2 ^ 64" using uint_lt2p [of q] by simp
  then have "uint q div 2 ^ 32 mod 2 ^ 32 = uint q div 2 ^ 32"
    by (intro mod_pos_pos_trivial pos_imp_zdiv_nonneg_iff [THEN iffD2]) auto
  then have hi: "uint (uu_hi q) = uint q div 2 ^ 32"
    by (simp add: uu_hi_def unsigned_ucast_eq drop_bit_eq_div take_bit_eq_mod uint_div_distrib)
  have lo: "uint (uu_lo q) = uint q mod 2 ^ 32"
    by (simp add: uu_lo_def unsigned_ucast_eq take_bit_eq_mod)
  show ?thesis unfolding hi lo by (simp)
qed
lemma sint_uu: "sint q = sint (uu_hi q) * 2 ^ 32 + uint (uu_lo q)"
proof -
  have "bit (uu_hi q) 31 = bit q 63" by (simp add: uu_hi_def bit_simps)
  then show ?thesis
    by (simp add: sint_u32 sint_u64 uint_uu [of q] algebra_simps)
qed
lemma lo_bit: "bit (uu_lo q) 31 = bit q 31" by (simp add: uu_lo_def bit_simps)


lemma lex_int:
  fixes h h' l l' :: int
  assumes "0 \<le> l" "l < 2 ^ 32" "0 \<le> l'" "l' < 2 ^ 32"
  shows "h * 2 ^ 32 + l < h' * 2 ^ 32 + l' \<longleftrightarrow> h < h' \<or> h = h' \<and> l < l'"
  using assms by simp arith

lemma uu_lo_bounds: "0 \<le> uint (uu_lo a)" "uint (uu_lo a) < 2 ^ 32"
    using uint_lt2p [of "uu_lo a"] by simp_all

lemma uu_hi_less_iff: "a < b \<longleftrightarrow> uu_hi a < uu_hi b \<or> uu_hi a = uu_hi b \<and> uu_lo a < uu_lo b"
  unfolding word_less_def word_uint_eq_iff uint_uu [of a] uint_uu [of b]
  by (rule lex_int) (simp_all add: uu_lo_bounds [simplified])
lemma sint_less_uu: "sint a < sint b \<longleftrightarrow> sint (uu_hi a) < sint (uu_hi b) \<or> uu_hi a = uu_hi b \<and> uu_lo a < uu_lo b"
  unfolding word_less_def sint_eq_iff [symmetric] sint_uu [of a] sint_uu [of b]
  by (rule lex_int) (simp_all add: uu_lo_bounds [simplified])

lemma ulcmp_correct: "aeabi_ulcmp a b = (if a < b then -1 else if b < a then 1 else 0)"
  by (auto simp: aeabi_ulcmp_def uu_hi_less_iff)


lemma signed_low_cmp:
  fixes la lb :: int
  assumes "0 \<le> la" "la < 2 ^ 32" "0 \<le> lb" "lb < 2 ^ 32"
    and "- (2 ^ 31) \<le> la - 2 ^ 32 * of_bool p" "la - 2 ^ 32 * of_bool p < 2 ^ 31"
    and "- (2 ^ 31) \<le> lb - 2 ^ 32 * of_bool q" "lb - 2 ^ 32 * of_bool q < 2 ^ 31"
  shows "(if la - 2 ^ 32 * of_bool p < lb - 2 ^ 32 * of_bool q then -1
          else if la - 2 ^ 32 * of_bool p > lb - 2 ^ 32 * of_bool q then 1 else (0 :: int)) =
         (if la < lb then -1 else if lb < la then 1 else 0) \<longleftrightarrow> (p \<longleftrightarrow> q)"
  using assms by (cases p; cases q; simp)

text \<open>C40: \<^verbatim>\<open>__aeabi_lcmp\<close> orders two signed 64-bit values correctly exactly when their high halves differ
  or their low halves have the same top bit: the low halves are compared as signed integers.\<close>

theorem lcmp_correct_iff:
  "aeabi_lcmp a b = (if sint a < sint b then -1 else if sint b < sint a then 1 else 0)
   \<longleftrightarrow> uu_hi a \<noteq> uu_hi b \<or> (bit a 31 \<longleftrightarrow> bit b 31)"
proof (cases "uu_hi a = uu_hi b")
  case True
  have lo: "sint (uu_lo x) = uint (uu_lo x) - 2 ^ 32 * of_bool (bit x 31)" for x
    by (simp add: sint_u32 lo_bit)
  have r: "- (2 ^ 31) \<le> sint (uu_lo x)" "sint (uu_lo x) < 2 ^ 31" for x
    using sint_ge [of "uu_lo x"] sint_lt [of "uu_lo x"] by simp_all
  have "sint x < sint y \<longleftrightarrow> uint (uu_lo x) < uint (uu_lo y)" if "uu_hi x = uu_hi y" for x y
    using that by (simp add: sint_less_uu word_less_def)
  note this [of a b, OF True] this [of b a, OF True [symmetric]]
  then show ?thesis
    using signed_low_cmp [OF uu_lo_bounds [of a] uu_lo_bounds [of b] r [of a, unfolded lo] r [of b, unfolded lo]]
    by (simp only: aeabi_lcmp_def True less_irrefl if_False lo simp_thms)
next
  case False
  then show ?thesis by (auto simp: aeabi_lcmp_def sint_less_uu sint_eq_iff [symmetric])
qed

theorem lcmp_correct_iff_witness:
  "aeabi_lcmp 1 0x80000000 \<noteq>
     (if sint (1 :: u64) < sint (0x80000000 :: u64) then -1 else if sint (0x80000000 :: u64) < sint (1 :: u64) then 1 else 0)"
  unfolding lcmp_correct_iff [of 1 "0x80000000"]
  by (simp add: uu_hi_def bit_simps bit_numeral_word_iff)


text \<open>A forward copy is right when no byte is read after it was overwritten.\<close>

definition no_clobber :: "u32 \<Rightarrow> u32 \<Rightarrow> u32 \<Rightarrow> bool" where
  "no_clobber dest src n \<longleftrightarrow> dest = src \<or> n \<le> dest - src"

locale mem_copy =
  fixes copy :: "u32 \<Rightarrow> u32 \<Rightarrow> u32 \<Rightarrow> mem \<Rightarrow> mem"
  assumes copy_inside: "no_clobber dest src n \<Longrightarrow> in_range x dest (unat n) \<Longrightarrow>
      copy dest src n m x = m (src + (x - dest))"
    and copy_outside: "\<not> in_range x dest (unat n) \<Longrightarrow> copy dest src n m x = m x"
begin

lemma copy_bytes:
  assumes "no_clobber dest src n"
  shows "mem_bytes (copy dest src n m) dest (unat n) = mem_bytes m src (unat n)"
proof (rule mem_bytes_cong)
  fix i assume "i < unat n"
  moreover have "unat n < 2 ^ 32" by (rule unat_u32_lt)
  ultimately show "copy dest src n m (dest + of_nat i) = m (src + of_nat i)"
    using assms by (simp add: copy_inside in_range_offset)
qed

lemma copy_frame:
  assumes "\<And>i. i < k \<Longrightarrow> \<not> in_range (a + of_nat i) dest (unat n)"
  shows "mem_bytes (copy dest src n m) a k = mem_bytes m a k"
  using assms by (intro mem_bytes_cong copy_outside)

lemma copy_self: "copy p p n m = m"
proof
  fix x show "copy p p n m x = m x"
    by (cases "in_range x p (unat n)") (simp_all add: copy_outside copy_inside no_clobber_def)
qed

end

lemma memcpy_prefix_outside:
  "k \<le> 2 ^ 32 \<Longrightarrow> \<not> in_range x dest k \<Longrightarrow>
   fold (copy_byte dest src) [0..<k] m x = m x"
proof (induction k)
  case 0
  then show ?case by simp
next
  case (Suc k)
  then have "x \<noteq> dest + of_nat k" by (auto simp: in_range_def)
  moreover have "\<not> in_range x dest k" using Suc.prems by (simp add: in_range_def)
  ultimately show ?case using Suc by (simp add: copy_byte_def)
qed

lemma memcpy_prefix_inside:
  "k \<le> unat n \<Longrightarrow> no_clobber dest src n \<Longrightarrow> j < k \<Longrightarrow>
   fold (copy_byte dest src) [0..<k] m (dest + of_nat j) =
     m (src + of_nat j)"
proof (induction k)
  case 0
  then show ?case by simp
next
  case (Suc k)
  let ?m = "fold (copy_byte dest src) [0..<k] m"
  have n: "unat n < 2 ^ 32" by (rule unat_u32_lt)
  then have k: "k \<le> 2 ^ 32" using Suc.prems by simp
  show ?case
  proof (cases "j = k")
    case True
    have "?m (src + of_nat k) = m (src + of_nat k)"
    proof (cases "dest = src")
      case True
      have "\<not> in_range (src + of_nat k) dest k" using True Suc.prems n by (simp add: in_range_def)
      then show ?thesis by (rule memcpy_prefix_outside [OF k])
    next
      case False
      then have "n \<le> dest - src" using Suc.prems by (simp add: no_clobber_def)
      then have "unat n \<le> unat (dest - src)" by (simp add: word_le_nat_alt)
      moreover have "unat (of_nat k - (dest - src)) = unat (of_nat k :: u32) + 2 ^ 32 - unat (dest - src)"
        using Suc.prems n calculation by (simp add: unat_sub_if_size word_size)
      ultimately have "\<not> unat (of_nat k - (dest - src)) < k"
        using Suc.prems n unat_u32_lt [of "dest - src"] by simp
      then have "\<not> in_range (src + of_nat k) dest k"
        by (simp add: in_range_def algebra_simps)
      then show ?thesis by (rule memcpy_prefix_outside [OF k])
    qed
    with True show ?thesis by (simp only: fold_upt_Suc) (simp add: copy_byte_def)
  next
    case False
    with Suc n show ?thesis by (simp add: copy_byte_def offset_inject [of j k, simplified])
  qed
qed

interpretation memcpy: mem_copy memcpy
proof
  fix dest src n x :: u32 and m :: mem
  have n: "unat n < 2 ^ 32" by (rule unat_u32_lt)
  show "memcpy dest src n m x = m x" if "\<not> in_range x dest (unat n)"
    using that n unfolding memcpy_def by (intro memcpy_prefix_outside) simp_all
  show "memcpy dest src n m x = m (src + (x - dest))"
    if "no_clobber dest src n" "in_range x dest (unat n)"
    using that memcpy_prefix_inside [of "unat n" n dest src "unat (x - dest)" m]
    by (simp add: memcpy_def in_range_def)
qed

interpretation memmove: mem_copy memmove
  unfolding memmove_def [abs_def] by (rule memcpy.mem_copy_axioms)


text \<open>Where C's \<^verbatim>\<open>memmove\<close> would shift a block up by one byte, the forward loop fills the destination with
  copies of the block's first byte.\<close>

theorem memmove_shift_repeats:
  "mem_bytes (memmove (src + 1) src n m) (src + 1) (unat n) = replicate (unat n) (m src)"
proof -
  have "fold (copy_byte (src + 1) src) [0..<k] m (src + of_nat j) = m src"
    if "j \<le> k" "k < 2 ^ 32" for k j
    using that
  proof (induction k arbitrary: j)
    case (Suc k)
    let ?m = "fold (copy_byte (src + 1) src) [0..<k] m"
    have IH: "?m (src + of_nat i) = m src" if "i \<le> k" for i
      using Suc that by simp
    show ?case
    proof (cases "j = Suc k")
      case True
      then show ?thesis using IH [of k] by (simp only: fold_upt_Suc) (simp add: copy_byte_def add.assoc)
    next
      case False
      then have "src + of_nat j \<noteq> src + of_nat (Suc k)" using Suc.prems by (subst offset_inject) simp_all
      then show ?thesis using IH [of j] False Suc.prems by (simp only: fold_upt_Suc) (simp add: copy_byte_def add.assoc)
    qed
  qed simp
  note * = this
  show ?thesis
  proof (rule nth_equalityI)
    fix i assume "i < length (mem_bytes (memmove (src + 1) src n m) (src + 1) (unat n))"
    then show "mem_bytes (memmove (src + 1) src n m) (src + 1) (unat n) ! i = replicate (unat n) (m src) ! i"
      using * [of "Suc i" "unat n"] unat_u32_lt [of n] by (simp add: memmove_def memcpy_def add.assoc)
  qed simp
qed

lemma memset_apply:
  "memset d v n m x = (if in_range x d (unat n) then ucast v else m x)"
proof -
  have "fold (set_byte d v) [0..<k] m x = (if in_range x d k then ucast v else m x)"
    if "k < 2 ^ 32" for k using that
  proof (induction k)
    case (Suc k)
    have "in_range x d (Suc k) \<longleftrightarrow> x = d + of_nat k \<or> in_range x d k"
      using Suc.prems by (auto simp: in_range_iff less_Suc_eq)
    with Suc show ?case by (simp add: set_byte_def)
  qed (simp add: in_range_def)
  then show ?thesis by (simp add: memset_def unat_u32_lt [simplified])
qed

lemma memcmp_loop_eq_0: "memcmp_loop n s1 s2 m = 0 \<longleftrightarrow> mem_bytes m s1 n = mem_bytes m s2 n"
  by (induction n arbitrary: s1 s2) (simp_all add: mem_bytes_Suc word_uint_eq_iff)

lemma memcmp_eq_0:
  "s1 \<noteq> 0 \<Longrightarrow> s2 \<noteq> 0 \<Longrightarrow>
   memcmp s1 s2 n m = 0 \<longleftrightarrow> mem_bytes m s1 (unat n) = mem_bytes m s2 (unat n)"
  by (simp add: memcmp_def memcmp_loop_eq_0)

lemma strncpy_fill_eq: "strncpy_fill d n m = put_bytes d (replicate n 0) m"
  by (induction n arbitrary: d m) simp_all

lemma strncpy_loop_eq:
  "strncpy_loop d s n m =
     put_bytes d (take n (takeWhile (\<lambda>c. c \<noteq> 0) s @ replicate n 0)) m"
proof (induction n arbitrary: d s m)
  case (Suc n)
  then show ?case
    by (cases s) (auto simp: chr0_def strncpy_fill_eq simp del: fun_upd_apply replicate.simps simp flip: replicate_Suc)
qed simp

lemma strncpy_correct:
  "dest \<noteq> 0 \<Longrightarrow>
   strncpy dest (Some s) n m =
     (dest, put_bytes dest (take (unat n) (takeWhile (\<lambda>c. c \<noteq> 0) s @ replicate (unat n) 0)) m)"
  by (simp add: strncpy_def strncpy_loop_eq)

definition cstr :: "u8 list \<Rightarrow> u8 list" where
  "cstr s = takeWhile (\<lambda>c. c \<noteq> 0) s"

lemma cstr_Nil: "chr0 s = 0 \<Longrightarrow> cstr s = []"
  by (cases s) (auto simp: chr0_def cstr_def)

lemma cstr_unfold: "chr0 s \<noteq> 0 \<Longrightarrow> cstr s = chr0 s # cstr (tl s)"
  by (cases s) (auto simp: chr0_def cstr_def)

text \<open>How many characters \<open>strncmp\<close> compares: the decrement comes before the test, so 0 wraps.\<close>

definition strncmp_bound :: "u32 \<Rightarrow> nat" where
  "strncmp_bound n = (if n = 0 then 2 ^ 32 else unat n)"

lemma strncmp_bound_Suc: "strncmp_bound n = (if n - 1 = 0 then 1 else Suc (strncmp_bound (n - 1)))"
proof -
  have "unat (- 1 :: u32) = 2 ^ 32 - 1"
    by (simp add: unsigned_minus_1_eq_mask mask_eq_exp_minus_1)
  moreover have "n \<noteq> 0 \<Longrightarrow> n \<noteq> 1 \<Longrightarrow> unat n = Suc (unat (n - 1))"
    by (simp add: unat_minus_one unat_gt_0)
  ultimately show ?thesis by (auto simp: strncmp_bound_def)
qed

lemma strncmp_loop_eq_0:
  "strncmp_loop s1 s2 n = 0 \<longleftrightarrow>
     take (strncmp_bound n) (cstr s1) = take (strncmp_bound n) (cstr s2)"
proof (induction s1 s2 n rule: strncmp_loop.induct)
  case (1 s1 s2 n)
  show ?case
  proof (cases "chr0 s1 = chr0 s2")
    case True
    then show ?thesis
      using "1.IH" by (cases "chr0 s1 = 0")
        (auto simp: strncmp_loop.simps [of s1 s2 n] strncmp_bound_Suc [of n] cstr_unfold cstr_Nil)
  next
    case False
    have "0 < strncmp_bound n" by (subst strncmp_bound_Suc) simp
    then obtain k where k: "strncmp_bound n = Suc k" by (cases "strncmp_bound n") auto
    have "take (Suc k) (cstr s1) \<noteq> take (Suc k) (cstr s2)"
      using False by (cases "chr0 s1 = 0"; cases "chr0 s2 = 0") (auto simp: cstr_unfold cstr_Nil)
    then show ?thesis
      using False k by (simp add: strncmp_loop.simps [of s1 s2 n] word_uint_eq_iff)
  qed
qed

text \<open>\<^verbatim>\<open>strncmp\<close> returns 0 exactly when the two C strings agree on the first \<open>n\<close> characters, except that a
  bound of 0 stands for \<open>2 ^ 32\<close> characters.\<close>

theorem strncmp_eq_0:
  "strncmp (Some s1) (Some s2) n = 0 \<longleftrightarrow>
     take (strncmp_bound n) (cstr s1) = take (strncmp_bound n) (cstr s2)"
  by (simp add: strncmp_def strncmp_loop_eq_0)

definition ends_number :: "u32 \<Rightarrow> u8 list \<Rightarrow> bool" where
  "ends_number base s \<longleftrightarrow> (case s of [] \<Rightarrow> True | c # _ \<Rightarrow> \<not> (isxdigit c \<and> digit_value c < base))"

lemma strtoul_loop_append:
  "\<forall>c \<in> set ds. isxdigit c \<and> digit_value c < base \<Longrightarrow> ends_number base rest \<Longrightarrow>
   strtoul_loop base r (ds @ rest) = (foldl (\<lambda>r c. r * base + digit_value c) r ds, rest)"
proof (induction ds arbitrary: r)
  case Nil
  then show ?case by (cases rest) (auto simp: ends_number_def)
qed simp

lemma digit_value_decimal: "isdigit c \<Longrightarrow> digit_value c = of_nat (unat c - 48)"
proof -
  assume d: "isdigit c"
  then have "48 \<le> unat c" by (simp add: isdigit_def word_le_nat_alt)
  then have "of_nat (unat c - 48) = (ucast c :: u32) - 48" by (simp add: of_nat_diff)
  with d show ?thesis by (simp add: digit_value_def)
qed

lemma decimal_digit: "isdigit c \<Longrightarrow> isxdigit c \<and> digit_value c < 10"
proof
  assume d: "isdigit c"
  then show "isxdigit c" by (simp add: isdigit_def isxdigit_def)
  have "unat c \<le> 57" using d by (simp add: isdigit_def word_le_nat_alt)
  then have "unat c - 48 < 10" by arith
  then show "digit_value c < 10"
    using d by (simp add: digit_value_decimal word_less_nat_alt)
qed

definition dec_value :: "u8 list \<Rightarrow> nat" where
  "dec_value ds = foldl (\<lambda>r c. r * 10 + (unat c - 48)) 0 ds"

lemma foldl_digits_of_nat:
  "\<forall>c \<in> set ds. isdigit c \<Longrightarrow>
   foldl (\<lambda>r c. r * 10 + digit_value c) (of_nat k :: u32) ds =
     of_nat (foldl (\<lambda>r c. r * 10 + (unat c - 48)) k ds)"
proof (induction ds arbitrary: k)
  case (Cons c ds)
  have "(of_nat k :: u32) * 10 + digit_value c = of_nat (k * 10 + (unat c - 48))"
    using Cons.prems by (simp add: digit_value_decimal)
  then show ?case using Cons by (simp del: of_nat_add of_nat_mult)
qed simp

lemma simple_strtoul_decimal:
  assumes "\<forall>c \<in> set (d # ds). isdigit c" "d \<noteq> 0x30" "ends_number 10 rest"
  shows "simple_strtoul (Some (d # ds @ rest)) 10 = (of_nat (dec_value (d # ds)), Some rest)"
proof -
  have "strtoul_loop 10 0 (d # ds @ rest) =
      (foldl (\<lambda>r c. r * 10 + digit_value c) 0 (d # ds), rest)"
    using strtoul_loop_append [of "d # ds" 10 rest 0] assms decimal_digit by (simp del: strtoul_loop.simps)
  also have "foldl (\<lambda>r c. r * 10 + digit_value c) 0 (d # ds) = (of_nat (dec_value (d # ds)) :: u32)"
    using foldl_digits_of_nat [of "d # ds" 0] assms(1) by (simp add: dec_value_def)
  finally show ?thesis
    using assms(2) by (simp add: simple_strtoul_def chr0_def del: strtoul_loop.simps)
qed

end
