(* ===== verification/Updater.thy ===== *)
theory Updater
  imports Flash_Driver Murmur3 Mac_Layer C_Library
begin

text \<open>
  The firmware updater \<^verbatim>\<open>orchard/esplanade_updater.c\<close>, with \<^verbatim>\<open>appIsValid\<close> and \<^verbatim>\<open>errorCondition\<close> of
  \<^verbatim>\<open>orchard/esplanade_app.c\<close>.

  \<open>updaterPacketProcess\<close> runs on the flash driver's state; the packet, the RAM copy of the header and
  the word \<^verbatim>\<open>dummy\<close> live in the memory behind the controller, at addresses the linker and the compiler
  choose (\<open>upd_env\<close>).  Writes to the two status LEDs are recorded in \<open>led_log\<close>; text printed on the
  serial port is not modelled.  A call ends in one of three ways: it returns, it leaves the
  bootloader for the application through \<^verbatim>\<open>chThdExit\<close>, or it blinks the red LED for ever.
\<close>

unbundle bit_operations_syntax

section \<open>Layout of the storage area\<close>

abbreviation (input) STORAGE_START :: u32 where "STORAGE_START \<equiv> 0x5800"
abbreviation (input) STORAGE_PROGRAM_OFFSET :: u32 where "STORAGE_PROGRAM_OFFSET \<equiv> 0x5900"
abbreviation (input) BLOCK_SIZE :: u32 where "BLOCK_SIZE \<equiv> 256"
abbreviation (input) SECTOR_MIN :: u32 where "SECTOR_MIN \<equiv> 22"
abbreviation (input) SECTOR_COUNT :: u16 where "SECTOR_COUNT \<equiv> 10"
abbreviation (input) STORAGE_VERSION :: u32 where "STORAGE_VERSION \<equiv> 0"
abbreviation (input) STORAGE_MAGIC :: u32 where "STORAGE_MAGIC \<equiv> 0x62696843"
abbreviation (input) MURMUR_SEED_BLOCK :: u32 where "MURMUR_SEED_BLOCK \<equiv> 0xdeadbeef"
abbreviation (input) MURMUR_SEED_TOTAL :: u32 where "MURMUR_SEED_TOTAL \<equiv> 0x32d0babe"
abbreviation (input) APP_MAGIC :: u32 where "APP_MAGIC \<equiv> 0xd3fbf67a"
abbreviation (input) APP_VERSION :: u32 where "APP_VERSION \<equiv> 0x00000100"

text \<open>The fields of \<^verbatim>\<open>storage_header\<close> and of \<^verbatim>\<open>struct app_header\<close>, read from memory.\<close>

definition hdr_magic :: "mem \<Rightarrow> u32" where "hdr_magic m = load32 m (STORAGE_START + 4)"
definition hdr_fullhash :: "mem \<Rightarrow> u32" where "hdr_fullhash m = load32 m (STORAGE_START + 8)"
definition hdr_length :: "mem \<Rightarrow> u32" where "hdr_length m = load32 m (STORAGE_START + 12)"
definition hdr_guid :: "mem \<Rightarrow> u8 list" where "hdr_guid m = mem_bytes m (STORAGE_START + 16) 16"
definition hdr_complete :: "mem \<Rightarrow> u32" where "hdr_complete m = load32 m (STORAGE_START + 32)"
definition blockmap_addr :: "u32 \<Rightarrow> u32" where "blockmap_addr b = STORAGE_START + 36 + 4 * b"
definition hdr_blockmap :: "mem \<Rightarrow> u32 \<Rightarrow> u32" where "hdr_blockmap m b = load32 m (blockmap_addr b)"

definition app_magic :: "mem \<Rightarrow> u32" where "app_magic m = load32 m (STORAGE_PROGRAM_OFFSET + 0x18)"
definition app_version :: "mem \<Rightarrow> u32" where "app_version m = load32 m (STORAGE_PROGRAM_OFFSET + 0x1C)"

definition appIsValid :: "mem \<Rightarrow> bool" where
  "appIsValid m \<longleftrightarrow> app_magic m = APP_MAGIC \<and> app_version m = APP_VERSION"

section \<open>State\<close>

datatype app_state = APP_IDLE | APP_GOT_ID | APP_UPDATING | APP_UPDATED | APP_FAIL

datatype led = STATG bool | STATR bool

datatype outcome = Returned int | BootedApp | ErrorLoop

record upd_env =
  pkt_at :: u32
  proto_at :: u32
  dummy_at :: u32

record 'd upd =
  astate :: app_state
  led_state :: bool
  led_log :: "led list"
  pkt_ready :: u8
  fl :: "'d flash_st"

abbreviation upd_mem :: "'d ftfx \<Rightarrow> 'd upd \<Rightarrow> mem" where
  "upd_mem hw s \<equiv> flash_mem hw (fl s)"

definition set_leds :: "led list \<Rightarrow> 'd upd \<Rightarrow> 'd upd" where
  "set_leds ls s = s\<lparr>led_log := led_log s @ ls\<rparr>"

text \<open>The packet as the updater reads it through its pointer.\<close>

definition the_packet :: "'d ftfx \<Rightarrow> upd_env \<Rightarrow> 'd upd \<Rightarrow> demod_pkt_t" where
  "the_packet hw e s = mem_bytes (upd_mem hw s) (pkt_at e) 264"

definition store_ram :: "'d ftfx \<Rightarrow> u32 \<Rightarrow> u8 list \<Rightarrow> 'd upd \<Rightarrow> 'd upd" where
  "store_ram hw a bs s = s\<lparr>fl := (fl s)\<lparr>dev := bus_store hw a bs (dev (fl s))\<rparr>\<rparr>"

definition run_flash ::
  "('d flash_st \<Rightarrow> (int \<times> 'd flash_st) option) \<Rightarrow> 'd upd \<Rightarrow> (int \<times> 'd upd) option" where
  "run_flash f s = map_option (\<lambda>(err, t). (err, s\<lparr>fl := t\<rparr>)) (f (fl s))"

section \<open>Operations\<close>

definition word_bytes :: "u32 \<Rightarrow> u8 list" where
  "word_bytes w = [byte_of w 0, byte_of w 1, byte_of w 2, byte_of w 3]"

text \<open>\<open>bootToUserApp\<close>: whether the thread exits.\<close>

definition bootToUserApp :: "'d ftfx \<Rightarrow> 'd upd \<Rightarrow> bool \<times> 'd upd" where
  "bootToUserApp hw s = (let s = set_leds [STATG True] s in (appIsValid (upd_mem hw s), s))"

definition init_storage_header :: "'d ftfx \<Rightarrow> upd_env \<Rightarrow> 'd upd \<Rightarrow> 'd upd option" where
  "init_storage_header hw e s =
     (let cpkt = the_packet hw e s;
          proto = word_bytes STORAGE_VERSION @ word_bytes STORAGE_MAGIC @
                  word_bytes (ctrl_fullhash cpkt) @ word_bytes (ctrl_length cpkt) @ ctrl_guid cpkt;
          s = store_ram hw (proto_at e) proto s
      in map_option snd (run_flash (flashProgram hw (proto_at e) STORAGE_START 32) s))"

definition erase_storage :: "'d ftfx \<Rightarrow> 'd upd \<Rightarrow> (int \<times> 'd upd) option" where
  "erase_storage hw = run_flash (flashEraseSectors hw SECTOR_MIN SECTOR_COUNT)"

text \<open>\<^verbatim>\<open>uint32_t dummy = 0; flashProgram(&dummy, addr, 4)\<close>\<close>

definition clear_word :: "'d ftfx \<Rightarrow> upd_env \<Rightarrow> u32 \<Rightarrow> 'd upd \<Rightarrow> (int \<times> 'd upd) option" where
  "clear_word hw e addr s =
     run_flash (flashProgram hw (dummy_at e) addr 4) (store_ram hw (dummy_at e) (word_bytes 0) s)"

text \<open>The \<^verbatim>\<open>alldone\<close> loop over the block map.\<close>

definition blocks_expected :: "u32 \<Rightarrow> u32" where
  "blocks_expected len = (len - 1) div BLOCK_SIZE + 1"

definition all_blocks_done :: "mem \<Rightarrow> bool" where
  "all_blocks_done m =
     list_all (\<lambda>i. hdr_blockmap m (of_nat i) \<noteq> ERASED) [0..<unat (blocks_expected (hdr_length m))]"

text \<open>\<^verbatim>\<open>MurmurHash3_x86_32\<close> takes the length as a signed integer; lengths of \<open>2 ^ 31\<close> and more, which
  exceed the memory, are not represented.\<close>

definition program_hash :: "mem \<Rightarrow> u32" where
  "program_hash m =
     MurmurHash3_x86_32 (mem_bytes m STORAGE_PROGRAM_OFFSET (unat (hdr_length m))) MURMUR_SEED_TOTAL"

definition process_idle :: "'d ftfx \<Rightarrow> upd_env \<Rightarrow> 'd upd \<Rightarrow> (outcome \<times> 'd upd) option" where
  "process_idle hw e s =
     (let s = set_leds [STATG False, STATR True] s;
          cpkt = the_packet hw e s
      in if hdr_type cpkt \<noteq> PKTTYPE_CTRL then Some (Returned 0, s)
         else if MurmurHash3_x86_32 (take 28 cpkt) MURMUR_SEED_BLOCK \<noteq> ctrl_hash cpkt
         then Some (Returned 0, s)
         else if memcmp (STORAGE_START + 16) (pkt_at e + 12) 16 (upd_mem hw s) = 0 then
           if hdr_complete (upd_mem hw s) = ERASED
           then Some (Returned 0, s\<lparr>astate := APP_UPDATING\<rparr>)
           else Some (Returned 0, s\<lparr>astate := APP_UPDATED\<rparr>)
         else case erase_storage hw s of None \<Rightarrow> None
           | Some (err, s) \<Rightarrow>
             map_option (\<lambda>s. (Returned err, s\<lparr>astate := APP_UPDATING\<rparr>)) (init_storage_header hw e s))"

text \<open>The end of a transmission: the check of the whole image, and the boot.\<close>

definition finish_update :: "'d ftfx \<Rightarrow> upd_env \<Rightarrow> 'd upd \<Rightarrow> (outcome \<times> 'd upd) option" where
  "finish_update hw e s =
     (if program_hash (upd_mem hw s) = hdr_fullhash (upd_mem hw s) then
        case clear_word hw e (STORAGE_START + 32) s of None \<Rightarrow> None
        | Some (err, s) \<Rightarrow>
          let s = set_leds [STATG False, STATR False] (s\<lparr>astate := APP_UPDATED\<rparr>);
              (booted, s) = bootToUserApp hw s
          in if booted then Some (BootedApp, s)
             else Some (Returned err, s\<lparr>astate := APP_FAIL\<rparr>)
      else
        case erase_storage hw s of None \<Rightarrow> None
        | Some (err, s) \<Rightarrow> Some (Returned err, s\<lparr>astate := APP_FAIL\<rparr>))"

definition program_block :: "'d ftfx \<Rightarrow> upd_env \<Rightarrow> u32 \<Rightarrow> 'd upd \<Rightarrow> (int \<times> 'd upd) option" where
  "program_block hw e block s =
     (case clear_word hw e (blockmap_addr block) s of None \<Rightarrow> None
      | Some (err, s) \<Rightarrow>
        run_flash (flashProgram hw (pkt_at e + 4) (STORAGE_PROGRAM_OFFSET + block * BLOCK_SIZE) BLOCK_SIZE) s)"

definition process_updating :: "'d ftfx \<Rightarrow> upd_env \<Rightarrow> 'd upd \<Rightarrow> (outcome \<times> 'd upd) option" where
  "process_updating hw e s =
     (let s = set_leds [STATG False, STATR (\<not> led_state s)] s;
          s = s\<lparr>led_state := \<not> led_state s\<rparr>
      in if hdr_magic (upd_mem hw s) \<noteq> STORAGE_MAGIC then
           case erase_storage hw s of None \<Rightarrow> None
           | Some (err, s) \<Rightarrow> Some (Returned err, s\<lparr>astate := APP_IDLE\<rparr>)
         else
           let dpkt = the_packet hw e s
           in if hdr_type dpkt \<noteq> PKTTYPE_DATA then Some (Returned 0, s)
              else if MurmurHash3_x86_32 (take 260 dpkt) MURMUR_SEED_BLOCK \<noteq> data_hash dpkt
              then Some (Returned 0, s)
              else
                let block = ucast (data_block dpkt)
                in case (if hdr_blockmap (upd_mem hw s) block = ERASED
                         then program_block hw e block s else Some (0, s)) of
                     None \<Rightarrow> None
                   | Some (err, s) \<Rightarrow>
                     if \<not> all_blocks_done (upd_mem hw s) then Some (Returned err, s)
                     else finish_update hw e s)"

text \<open>The handler.  Leaving through \<^verbatim>\<open>chThdExit\<close> or the error loop skips the reset of \<^verbatim>\<open>pktReady\<close>.\<close>

definition updaterPacketProcess :: "'d ftfx \<Rightarrow> upd_env \<Rightarrow> 'd upd \<Rightarrow> (outcome \<times> 'd upd) option" where
  "updaterPacketProcess hw e s =
     map_option (\<lambda>(r, s). case r of Returned err \<Rightarrow> (r, s\<lparr>pkt_ready := 0\<rparr>) | _ \<Rightarrow> (r, s))
       (case astate s of
          APP_IDLE \<Rightarrow> process_idle hw e s
        | APP_UPDATING \<Rightarrow> process_updating hw e s
        | APP_UPDATED \<Rightarrow>
            let s = set_leds [STATG True, STATR False] s;
                (booted, s) = bootToUserApp hw s
            in if booted then Some (BootedApp, s)
               else Some (Returned 0, s\<lparr>astate := APP_FAIL\<rparr>)
        | APP_FAIL \<Rightarrow> Some (ErrorLoop, set_leds [STATG False] s)
        | APP_GOT_ID \<Rightarrow> Some (Returned 0, s))"

section \<open>Flash requests of the updater on a documented controller\<close>

text \<open>Where the compiler and the linker put the updater's data.\<close>

definition env_ok :: "upd_env \<Rightarrow> bool" where
  "env_ok e \<longleftrightarrow> ram_range (pkt_at e) 264 \<and> ram_range (proto_at e) 32 \<and> ram_range (dummy_at e) 4 \<and>
     pkt_at e mod 4 = 0 \<and> proto_at e mod 4 = 0 \<and> dummy_at e mod 4 = 0 \<and>
     apart (pkt_at e) 264 (proto_at e) 32 \<and> apart (pkt_at e) 264 (dummy_at e) 4"

text \<open>A programming request is accepted exactly when its target is an aligned blank range of the
  user area.\<close>

definition flash_blank :: "mem \<Rightarrow> u32 \<Rightarrow> nat \<Rightarrow> bool" where
  "flash_blank m dest n \<longleftrightarrow> 0x5800 \<le> unat dest \<and> unat dest + n \<le> 0x8000 \<and> n mod 4 = 0 \<and> dest mod 4 = 0 \<and>
     (\<forall>i < n. m (dest + of_nat i) = 0xFF)"

lemma ram_apart_flash: "ram_range a n \<Longrightarrow> unat d + k \<le> 0x8000 \<Longrightarrow> apart d k a n"
  by (auto simp: ram_range_def apart_def)

lemma program_pre_iff:
  assumes "ram_range src n" "src mod 4 = 0"
  shows "program_pre m src dest n \<longleftrightarrow> flash_blank m dest n"
proof (cases "unat dest + n \<le> 0x8000")
  case True
  have "\<forall>i < n. \<not> in_range (src + of_nat i) dest n"
    using apart_not_in [OF ram_apart_flash [OF assms(1) True]] by blast
  then show ?thesis unfolding program_pre_def flash_blank_def using assms(2) by blast
qed (simp add: program_pre_def flash_blank_def)

lemma flashProgram_cases:
  assumes hw: "ftfx_documented hw idle" "idle (dev s)"
    and src: "ram_range src (unat count)" "src mod 4 = 0" and c: "count \<noteq> 0" "unat dest + unat count < 2 ^ 32"
  obtains
    (programmed) s' where "flash_blank (flash_mem hw s) dest (unat count)"
      "flashProgram hw src dest count s = Some (0, s')" "idle (dev s')"
      "flash_mem hw s' = put_bytes dest (mem_bytes (flash_mem hw s) src (unat count)) (flash_mem hw s)"
  | (refused) r where "\<not> flash_blank (flash_mem hw s) dest (unat count)" "r \<noteq> 0"
      "flashProgram hw src dest count s = Some (r, s)"
proof (cases "flash_blank (flash_mem hw s) dest (unat count)")
  case True
  then have "program_pre (flash_mem hw s) src dest (unat count)" by (simp add: program_pre_iff src)
  from flashProgram_run [OF hw this] True show thesis by (auto intro: programmed)
next
  case False
  have "dest < 22 * 1024 \<or> dest + count > 0x8000 \<or> count mod 4 \<noteq> 0 \<or> dest mod 4 \<noteq> 0 \<or>
      \<not> list_all (\<lambda>i. flash_mem hw s (dest + of_nat i) = 0xFF) [0..<unat count]"
  proof (rule ccontr)
    assume n: "\<not> ?thesis"
    then have "22528 \<le> unat dest" "unat dest + unat count \<le> 0x8000"
      using c(2) by (auto simp: word_less_nat_alt unat_word_ariths)
    with n False show False
      by (auto simp: flash_blank_def list_all_iff word_mod4_iff)
  qed
  then have "\<exists>r. r \<noteq> 0 \<and> flashProgram hw src dest count s = Some (r, s)"
    using c(1) src(2) by (auto simp: flashProgram_def)
  with False show thesis by (auto intro: refused)
qed

lemma bus_store_ram:
  assumes "ftfx_documented hw idle" "idle (dev (fl s))" "ram_range a (length bs)"
  shows "idle (dev (fl (store_ram hw a bs s)))" "upd_mem hw (store_ram hw a bs s) = put_bytes a bs (upd_mem hw s)"
  using assms unfolding ftfx_behaves_def store_ram_def by simp_all

lemma store_ram_frame [simp]:
  "astate (store_ram hw a bs s) = astate s" "led_state (store_ram hw a bs s) = led_state s"
  "pkt_ready (store_ram hw a bs s) = pkt_ready s"
  by (simp_all add: store_ram_def)

lemma length_word_bytes [simp]: "length (word_bytes w) = 4"
  by (simp add: word_bytes_def)

lemma load32_word_bytes [simp]: "load32 (put_bytes a (word_bytes w) m) a = w"
  by (subst load32_put_bytes) (simp_all add: word_bytes_def)

text \<open>Writing zero over one word.\<close>

lemma clear_word_cases:
  assumes "ftfx_documented hw idle" "idle (dev (fl s))" "env_ok e" "unat addr + 4 < 2 ^ 32"
  obtains
    (cleared) s' where "flash_blank (upd_mem hw s) addr 4" "clear_word hw e addr s = Some (0, s\<lparr>fl := s'\<rparr>)"
      "idle (dev s')" "flash_mem hw s' = put_bytes addr (word_bytes 0) (put_bytes (dummy_at e) (word_bytes 0) (upd_mem hw s))"
  | (refused) r s' where "\<not> flash_blank (upd_mem hw s) addr 4" "r \<noteq> 0" "clear_word hw e addr s = Some (r, s\<lparr>fl := s'\<rparr>)"
      "idle (dev s')" "flash_mem hw s' = put_bytes (dummy_at e) (word_bytes 0) (upd_mem hw s)"
proof -
  let ?s = "store_ram hw (dummy_at e) (word_bytes 0) s"
  have d: "ram_range (dummy_at e) 4" "dummy_at e mod 4 = 0" using assms(3) by (simp_all add: env_ok_def)
  note st = bus_store_ram [OF assms(1,2), of "dummy_at e" "word_bytes 0", unfolded length_word_bytes, OF d(1)]
  have fl: "?s\<lparr>fl := t\<rparr> = s\<lparr>fl := t\<rparr>" for t by (simp add: store_ram_def)
  have src: "mem_bytes (put_bytes (dummy_at e) (word_bytes 0) m) (dummy_at e) 4 = word_bytes 0" for m
    using mem_bytes_put_bytes [of "word_bytes 0" "dummy_at e" m] by simp
  have blank: "flash_blank (put_bytes (dummy_at e) (word_bytes 0) m) addr 4 = flash_blank m addr 4" for m
  proof (cases "unat addr + 4 \<le> 0x8000")
    case True
    have "apart (dummy_at e) 4 addr 4" by (rule apart_sym, rule ram_apart_flash [OF d(1) True])
    then show ?thesis by (simp add: flash_blank_def put_bytes_apart)
  qed (simp add: flash_blank_def)
  have c: "ram_range (dummy_at e) (unat (4 :: u32))" "(4 :: u32) \<noteq> 0" "unat addr + unat (4 :: u32) < 2 ^ 32"
    using d(1) assms(4) by simp_all
  show thesis
  proof (cases rule: flashProgram_cases [OF assms(1) st(1) c(1) d(2) c(2,3)])
    case (1 t)
    then show thesis using st(2) blank src
      by (intro cleared [of t]) (simp_all add: clear_word_def run_flash_def fl)
  next
    case (2 r)
    then show thesis using st blank
      by (intro refused [of r "fl ?s"]) (simp_all add: clear_word_def run_flash_def fl)
  qed
qed

section \<open>The completeness flag vouches for the image\<close>

definition image_fits :: "mem \<Rightarrow> bool" where
  "image_fits m \<longleftrightarrow> unat (hdr_length m) \<le> 0x2700"

definition verified :: "mem \<Rightarrow> bool" where
  "verified m \<longleftrightarrow> (hdr_complete m \<noteq> ERASED \<and> image_fits m \<longrightarrow> program_hash m = hdr_fullhash m)"

definition upd_inv :: "'d ftfx \<Rightarrow> ('d \<Rightarrow> bool) \<Rightarrow> 'd upd \<Rightarrow> bool" where
  "upd_inv hw idle s \<longleftrightarrow> idle (dev (fl s)) \<and> verified (upd_mem hw s) \<and>
     (astate s = APP_UPDATING \<longrightarrow> hdr_complete (upd_mem hw s) = ERASED) \<and>
     (astate s = APP_UPDATED \<longrightarrow> hdr_complete (upd_mem hw s) \<noteq> ERASED)"

lemma apart_sub:
  "apart a n b k \<Longrightarrow> unat b \<le> unat b' \<Longrightarrow> unat b' + k' \<le> unat b + k \<Longrightarrow> apart a n b' k'"
  by (auto simp: apart_def)

text \<open>Stores away from the header keep its fields; stores away from the image keep its hash.\<close>

lemma hdr_apart:
  assumes "apart a (length bs) 0x5800 36"
  shows "hdr_magic (put_bytes a bs m) = hdr_magic m" "hdr_fullhash (put_bytes a bs m) = hdr_fullhash m"
    "hdr_length (put_bytes a bs m) = hdr_length m" "hdr_guid (put_bytes a bs m) = hdr_guid m"
    "hdr_complete (put_bytes a bs m) = hdr_complete m" "image_fits (put_bytes a bs m) = image_fits m"
  using apart_sub [OF assms]
  by (simp_all add: hdr_magic_def hdr_fullhash_def hdr_length_def hdr_guid_def hdr_complete_def
      image_fits_def load32_apart mem_bytes_apart)

lemma program_hash_apart:
  assumes "apart a (length bs) 0x5900 0x2700" "hdr_length (put_bytes a bs m) = hdr_length m" "image_fits m"
  shows "program_hash (put_bytes a bs m) = program_hash m"
  using apart_sub [OF assms(1), of "0x5900" "unat (hdr_length m)"] assms(2,3)
  by (simp add: program_hash_def mem_bytes_apart image_fits_def)

lemma ram_apart:
  assumes "ram_range a n"
  shows "apart a n 0x5800 36" "apart a n 0x5900 0x2700"
  using assms by (simp_all add: apart_def ram_range_def)

lemma verified_ram:
  assumes "ram_range a (length bs)"
  shows "verified (put_bytes a bs m) = verified m"
  using hdr_apart [OF ram_apart(1) [OF assms]] program_hash_apart [OF ram_apart(2) [OF assms]]
  by (auto simp: verified_def)

lemma dummy_ram: "env_ok e \<Longrightarrow> ram_range (dummy_at e) (length (word_bytes 0))"
  by (simp add: env_ok_def)

lemma hdr_dummy:
  assumes "env_ok e"
  shows "hdr_complete (put_bytes (dummy_at e) (word_bytes 0) m) = hdr_complete m"
    "hdr_length (put_bytes (dummy_at e) (word_bytes 0) m) = hdr_length m"
    "hdr_fullhash (put_bytes (dummy_at e) (word_bytes 0) m) = hdr_fullhash m"
    "hdr_magic (put_bytes (dummy_at e) (word_bytes 0) m) = hdr_magic m"
    "image_fits (put_bytes (dummy_at e) (word_bytes 0) m) = image_fits m"
  using hdr_apart [OF ram_apart(1) [OF dummy_ram [OF assms]]] by simp_all

text \<open>An erased storage area has a blank header.\<close>

lemma erased_header:
  "hdr_complete (sectors_fill 22 32 m) = ERASED" "hdr_magic (sectors_fill 22 32 m) = ERASED"
  by (simp_all add: hdr_complete_def hdr_magic_def load32_def sectors_fill_def le32_erased)

lemma verified_erased: "hdr_complete m = ERASED \<Longrightarrow> verified m"
  by (simp add: verified_def)

lemma erase_storage_run:
  assumes "ftfx_documented hw idle" "idle (dev (fl s))"
  obtains t where "erase_storage hw s = Some (0, s\<lparr>fl := t\<rparr>)" "idle (dev t)"
    "flash_mem hw t = sectors_fill 22 32 (upd_mem hw s)"
proof -
  have "(22 :: u32) \<le> 22" "unat (22 :: u32) + unat (10 :: u16) \<le> 32" by simp_all
  from flashEraseSectors_run [OF assms this] show thesis
    by (auto simp: erase_storage_def run_flash_def intro: that)
qed

lemma set_leds_frame [simp]:
  "astate (set_leds ls s) = astate s" "fl (set_leds ls s) = fl s" "led_state (set_leds ls s) = led_state s"
  by (simp_all add: set_leds_def)

text \<open>The header is programmed below the completeness flag.\<close>

lemma init_storage_header_run:
  assumes "ftfx_documented hw idle" "idle (dev (fl s))" "env_ok e" "hdr_complete (upd_mem hw s) = ERASED"
  obtains t where "init_storage_header hw e s = Some (s\<lparr>fl := t\<rparr>)" "idle (dev t)"
    "hdr_complete (flash_mem hw t) = ERASED"
proof -
  define proto where "proto = word_bytes 0 @ word_bytes 0x62696843 @ word_bytes (ctrl_fullhash (the_packet hw e s)) @
    word_bytes (ctrl_length (the_packet hw e s)) @ ctrl_guid (the_packet hw e s)"
  have len: "length proto = 32" by (simp add: proto_def ctrl_guid_def the_packet_def)
  have r: "ram_range (proto_at e) (length proto)" "ram_range (proto_at e) (unat (32 :: u32))" "proto_at e mod 4 = 0"
    using assms(3) by (simp_all add: env_ok_def len)
  note st = bus_store_ram [OF assms(1,2) r(1)]
  have c: "hdr_complete (upd_mem hw (store_ram hw (proto_at e) proto s)) = ERASED"
    unfolding st(2) hdr_apart [OF ram_apart(1) [OF r(1)]] by (rule assms(4))
  have lo: "apart 0x5800 32 0x5820 4" by (simp add: apart_def)
  have "\<exists>r t. flashProgram hw (proto_at e) 0x5800 32 (fl (store_ram hw (proto_at e) proto s)) = Some (r, t) \<and>
      idle (dev t) \<and> hdr_complete (flash_mem hw t) = ERASED"
  proof (cases rule: flashProgram_cases [OF assms(1) st(1) r(2,3), of "0x5800"])
    case (3 t)
    then show ?thesis using lo c by (auto simp: hdr_complete_def load32_apart)
  next
    case (4 r)
    then show ?thesis using st(1) c by auto
  qed simp_all
  then show thesis
    by (auto simp: init_storage_header_def Let_def proto_def [symmetric] run_flash_def store_ram_def intro: that)
qed

text \<open>Programming a block never touches the header below the block map.\<close>

lemma blockmap_unat: "b < 0x10000 \<Longrightarrow> unat (blockmap_addr b) = 0x5824 + 4 * unat b"
  by (simp add: blockmap_addr_def unat_word_ariths word_less_nat_alt)

lemma block_unat: "b < 0x10000 \<Longrightarrow> unat (0x5900 + b * 256 :: u32) = 0x5900 + 256 * unat b"
  by (simp add: unat_word_ariths word_less_nat_alt)

lemma program_block_run:
  assumes hw: "ftfx_documented hw idle" and s: "idle (dev (fl s))" and e: "env_ok e" and b: "b < 0x10000"
  obtains r t where "program_block hw e b s = Some (r, s\<lparr>fl := t\<rparr>)" "idle (dev t)"
    "hdr_complete (flash_mem hw t) = hdr_complete (upd_mem hw s)"
proof -
  let ?C = "hdr_complete (upd_mem hw s)"
  have a: "unat (blockmap_addr b) + 4 < 2 ^ 32" "unat (0x5900 + b * 256) + unat (256 :: u32) < 2 ^ 32"
    using b by (simp_all add: blockmap_unat block_unat word_less_nat_alt)
  have ap: "apart (blockmap_addr b) 4 0x5800 36" "apart (0x5900 + b * 256) 256 0x5800 36"
    using b by (simp_all add: apart_def blockmap_unat block_unat word_less_nat_alt)
  obtain r1 t1 where t1: "clear_word hw e (blockmap_addr b) s = Some (r1, s\<lparr>fl := t1\<rparr>)" "idle (dev t1)"
    "hdr_complete (flash_mem hw t1) = ?C"
  proof (cases rule: clear_word_cases [OF hw s e a(1)])
    case (1 t) then show thesis using ap(1) by (intro that [of 0 t]) (simp_all add: hdr_apart hdr_dummy [OF e])
  next
    case (2 r t) then show thesis by (intro that [of r t]) (simp_all add: hdr_dummy [OF e])
  qed
  have src: "ram_range (pkt_at e + 4) (unat (256 :: u32))" "(pkt_at e + 4) mod 4 = 0"
    using e by (auto simp: env_ok_def ram_range_def unat_word_ariths word_mod4_iff)
  have "\<exists>r t. flashProgram hw (pkt_at e + 4) (0x5900 + b * 256) 256 t1 = Some (r, t) \<and> idle (dev t) \<and>
      hdr_complete (flash_mem hw t) = ?C"
  proof (cases rule: flashProgram_cases [OF hw t1(2) src _ a(2)])
    case (2 t) then show ?thesis using ap(2) t1(3) by (auto simp: hdr_apart)
  next
    case (3 r) then show ?thesis using t1 by auto
  qed simp
  then show thesis
    using t1(1) by (auto simp: program_block_def run_flash_def intro: that)
qed

lemma complete_cleared:
  assumes "image_fits m"
  shows "program_hash (put_bytes 0x5820 (word_bytes 0) m) = program_hash m"
    "hdr_fullhash (put_bytes 0x5820 (word_bytes 0) m) = hdr_fullhash m"
    "image_fits (put_bytes 0x5820 (word_bytes 0) m) = image_fits m"
    "hdr_complete (put_bytes 0x5820 (word_bytes 0) m) = 0"
proof -
  have ap: "apart 0x5820 4 0x5808 4" "apart 0x5820 4 0x580C 4" "apart 0x5820 4 0x5900 0x2700"
    by (simp_all add: apart_def)
  then have l: "hdr_length (put_bytes 0x5820 (word_bytes 0) m) = hdr_length m"
    by (simp add: hdr_length_def load32_apart)
  show "program_hash (put_bytes 0x5820 (word_bytes 0) m) = program_hash m"
    using program_hash_apart [of "0x5820" "word_bytes 0"] ap l assms by simp
  show "hdr_fullhash (put_bytes 0x5820 (word_bytes 0) m) = hdr_fullhash m"
    using ap by (simp add: hdr_fullhash_def load32_apart)
  show "image_fits (put_bytes 0x5820 (word_bytes 0) m) = image_fits m"
    using l by (simp add: image_fits_def)
  show "hdr_complete (put_bytes 0x5820 (word_bytes 0) m) = 0"
    by (simp add: hdr_complete_def)
qed

lemma complete_blank:
  assumes "hdr_complete m = ERASED"
  shows "flash_blank m 0x5820 4"
proof -
  have "i < 4 \<longleftrightarrow> i = 0 \<or> i = 1 \<or> i = 2 \<or> i = 3" for i :: nat by auto
  then show ?thesis
    using assms by (auto simp: flash_blank_def hdr_complete_def load32_def le32_erased)
qed

text \<open>What a call of the handler establishes besides its outcome: the invariant, and for a boot
  that the image was verified and carries a valid application header.\<close>

definition upd_post :: "'d ftfx \<Rightarrow> ('d \<Rightarrow> bool) \<Rightarrow> (outcome \<times> 'd upd) option \<Rightarrow> bool" where
  "upd_post hw idle r \<longleftrightarrow> (case r of None \<Rightarrow> False
     | Some (v, s) \<Rightarrow> upd_inv hw idle s \<and>
         (v = BootedApp \<longrightarrow> appIsValid (upd_mem hw s) \<and>
            (image_fits (upd_mem hw s) \<longrightarrow> program_hash (upd_mem hw s) = hdr_fullhash (upd_mem hw s))))"

lemma upd_post_Some:
  "upd_post hw idle (Some (v, s)) \<longleftrightarrow> upd_inv hw idle s \<and>
     (v = BootedApp \<longrightarrow> appIsValid (upd_mem hw s) \<and>
        (image_fits (upd_mem hw s) \<longrightarrow> program_hash (upd_mem hw s) = hdr_fullhash (upd_mem hw s)))"
  by (simp add: upd_post_def)

lemma bootToUserApp_frame:
  "bootToUserApp hw s = (appIsValid (upd_mem hw s), set_leds [STATG True] s)"
  by (simp add: bootToUserApp_def Let_def)

lemma finish_update_post:
  assumes hw: "ftfx_documented hw idle" and s: "idle (dev (fl s))" and e: "env_ok e"
    and c: "hdr_complete (upd_mem hw s) = ERASED"
  shows "upd_post hw idle (finish_update hw e s)"
proof (cases "program_hash (upd_mem hw s) = hdr_fullhash (upd_mem hw s)")
  case False
  obtain t where "erase_storage hw s = Some (0, s\<lparr>fl := t\<rparr>)" "idle (dev t)"
    "flash_mem hw t = sectors_fill 22 32 (upd_mem hw s)" by (rule erase_storage_run [OF hw s])
  then show ?thesis
    using False by (simp add: finish_update_def upd_post_Some upd_inv_def verified_erased erased_header)
next
  case True
  let ?m = "put_bytes (dummy_at e) (word_bytes 0) (upd_mem hw s)"
  have a: "unat (0x5820 :: u32) + 4 < 2 ^ 32" by simp
  obtain t where t: "clear_word hw e 0x5820 s = Some (0, s\<lparr>fl := t\<rparr>)" "idle (dev t)"
    "flash_mem hw t = put_bytes 0x5820 (word_bytes 0) ?m"
    by (rule clear_word_cases [OF hw s e a]) (use complete_blank [OF c] in auto)
  have ph: "image_fits ?m \<Longrightarrow> program_hash ?m = hdr_fullhash ?m"
    using True program_hash_apart [OF ram_apart(2) [OF dummy_ram [OF e]]] by (simp add: hdr_dummy [OF e])
  have len: "image_fits (flash_mem hw t) = image_fits ?m"
    by (simp add: t(3) image_fits_def hdr_length_def load32_apart apart_def)
  have ok: "image_fits (flash_mem hw t) \<Longrightarrow> program_hash (flash_mem hw t) = hdr_fullhash (flash_mem hw t)"
    using ph len complete_cleared [of ?m] by (simp add: t(3))
  have "hdr_complete (flash_mem hw t) \<noteq> ERASED"
    by (simp add: t(3) hdr_complete_def)
  with ok show ?thesis
    using True t(1,2) by (simp add: finish_update_def bootToUserApp_frame Let_def upd_post_Some upd_inv_def verified_def)
qed

lemma process_idle_post:
  assumes hw: "ftfx_documented hw idle" and e: "env_ok e" and i: "upd_inv hw idle s"
  shows "upd_post hw idle (process_idle hw e s)"
proof -
  let ?s = "set_leds [STATG False, STATR True] s"
  have d: "idle (dev (fl ?s))" using i by (simp add: upd_inv_def)
  obtain t where t: "erase_storage hw ?s = Some (0, ?s\<lparr>fl := t\<rparr>)" "idle (dev t)"
    "flash_mem hw t = sectors_fill 22 32 (upd_mem hw ?s)" by (rule erase_storage_run [OF hw d])
  obtain u where u: "init_storage_header hw e (?s\<lparr>fl := t\<rparr>) = Some (?s\<lparr>fl := t, fl := u\<rparr>)" "idle (dev u)"
    "hdr_complete (flash_mem hw u) = ERASED"
    by (rule init_storage_header_run [OF hw _ e, of "?s\<lparr>fl := t\<rparr>"]) (use t erased_header in auto)
  show ?thesis
    using i t(1) u verified_erased [OF u(3)]
    by (auto simp: process_idle_def Let_def upd_post_Some upd_inv_def)
qed

lemma process_updating_post:
  assumes hw: "ftfx_documented hw idle" and e: "env_ok e" and i: "upd_inv hw idle s" and u: "astate s = APP_UPDATING"
  shows "upd_post hw idle (process_updating hw e s)"
proof -
  define s1 where "s1 = (set_leds [STATG False, STATR (\<not> led_state s)] s)\<lparr>led_state := \<not> led_state s\<rparr>"
  have s1: "fl s1 = fl s" "astate s1 = APP_UPDATING" by (simp_all add: s1_def u)
  have d: "idle (dev (fl s1))" and c: "hdr_complete (upd_mem hw s1) = ERASED"
    using i u by (simp_all add: s1 upd_inv_def)
  have i1: "upd_inv hw idle s1" using i u by (simp add: upd_inv_def s1)
  obtain t where t: "erase_storage hw s1 = Some (0, s1\<lparr>fl := t\<rparr>)" "idle (dev t)"
    "flash_mem hw t = sectors_fill 22 32 (upd_mem hw s1)" by (rule erase_storage_run [OF hw d])
  let ?b = "ucast (data_block (the_packet hw e s1)) :: u32"
  have b: "?b < 0x10000"
    using unat_u16_lt [of "data_block (the_packet hw e s1)"]
    by (simp add: word_less_nat_alt unsigned_ucast_eq take_bit_nat_eq_self)
  obtain r v where v: "(if hdr_blockmap (upd_mem hw s1) ?b = ERASED then program_block hw e ?b s1 else Some (0, s1))
      = Some (r, s1\<lparr>fl := v\<rparr>)" "idle (dev v)" "hdr_complete (flash_mem hw v) = ERASED"
  proof (cases "hdr_blockmap (upd_mem hw s1) ?b = ERASED")
    case True
    obtain r v where "program_block hw e ?b s1 = Some (r, s1\<lparr>fl := v\<rparr>)" "idle (dev v)"
      "hdr_complete (flash_mem hw v) = hdr_complete (upd_mem hw s1)" by (rule program_block_run [OF hw d e b])
    with True c show thesis by (intro that [of r v]) simp_all
  next
    case False
    with d c show thesis by (intro that [of 0 "fl s1"]) simp_all
  qed
  have inv: "upd_inv hw idle (s1\<lparr>fl := v\<rparr>)"
    using v s1 verified_erased [OF v(3)] by (simp add: upd_inv_def)
  have fin: "upd_post hw idle (finish_update hw e (s1\<lparr>fl := v\<rparr>))"
    by (rule finish_update_post [OF hw _ e]) (use v in simp_all)
  have er: "upd_post hw idle (Some (Returned 0, s1\<lparr>fl := t, astate := APP_IDLE\<rparr>))"
    using t by (simp add: upd_post_Some upd_inv_def verified_erased erased_header)
  show ?thesis
    using t(1) v(1) inv fin er i1
    by (auto simp: process_updating_def s1_def [symmetric] Let_def upd_post_Some)
qed

lemma upd_inv_pkt_ready [simp]: "upd_inv hw idle (s\<lparr>pkt_ready := v\<rparr>) = upd_inv hw idle s"
  by (simp add: upd_inv_def)

lemma updater_post:
  assumes hw: "ftfx_documented hw idle" and e: "env_ok e" and i: "upd_inv hw idle s"
  shows "upd_post hw idle (updaterPacketProcess hw e s)"
proof -
  have lift: "upd_post hw idle r \<Longrightarrow> upd_post hw idle (map_option (\<lambda>(r, s). case r of
      Returned err \<Rightarrow> (r, s\<lparr>pkt_ready := 0\<rparr>) | _ \<Rightarrow> (r, s)) r)" for r
    by (auto simp: upd_post_def split: option.splits prod.splits outcome.splits)
  show ?thesis
  proof (cases "astate s")
    case APP_UPDATED
    then show ?thesis
      using i by (auto simp: updaterPacketProcess_def bootToUserApp_frame Let_def upd_post_Some upd_inv_def verified_def)
  qed (use i process_idle_post [OF hw e i] process_updating_post [OF hw e i] in
       \<open>auto simp: updaterPacketProcess_def upd_post_Some upd_inv_def intro!: lift\<close>)
qed

section \<open>Runs of the bootloader\<close>

text \<open>A run over any number of sessions: packets with arbitrary contents arrive in the packet buffer and are processed; the board is
  reset between two packets, or after a packet that made the updater leave for the program or blink for ever, which resets the variables but
  keeps the flash; and the RAM may change in any way in between, by the program that was booted or by the loss of power.  A reset inside a call, and a
  program that writes the flash itself, are not covered.\<close>

definition receive :: "'d ftfx \<Rightarrow> upd_env \<Rightarrow> demod_pkt_t \<Rightarrow> 'd upd \<Rightarrow> 'd upd" where
  "receive hw e p s = (store_ram hw (pkt_at e) p s)\<lparr>pkt_ready := 1\<rparr>"

definition board_reset :: "'d upd \<Rightarrow> 'd upd" where
  "board_reset s = s\<lparr>astate := APP_IDLE, led_state := False, pkt_ready := 0\<rparr>"

inductive upd_run :: "'d ftfx \<Rightarrow> upd_env \<Rightarrow> 'd upd \<Rightarrow> 'd upd \<Rightarrow> bool" for hw e s0 where
  start: "upd_run hw e s0 s0"
| packet: "upd_run hw e s0 s \<Longrightarrow> length p = 264 \<Longrightarrow>
     updaterPacketProcess hw e (receive hw e p s) = Some (Returned err, s') \<Longrightarrow> upd_run hw e s0 s'"
| power_cycle: "upd_run hw e s0 s \<Longrightarrow> upd_run hw e s0 (board_reset s)"
| reboot: "upd_run hw e s0 s \<Longrightarrow> length p = 264 \<Longrightarrow> updaterPacketProcess hw e (receive hw e p s) = Some (r, s') \<Longrightarrow>
     r = BootedApp \<or> r = ErrorLoop \<Longrightarrow> upd_run hw e s0 (board_reset s')"
| ram: "upd_run hw e s0 s \<Longrightarrow> ram_range a (length bs) \<Longrightarrow> upd_run hw e s0 (store_ram hw a bs s)"

inductive_cases upd_runE: "upd_run hw e s0 s"

lemma receive_inv:
  assumes "ftfx_documented hw idle" "env_ok e" "upd_inv hw idle s" "length p = 264"
  shows "upd_inv hw idle (receive hw e p s)" "the_packet hw e (receive hw e p s) = p"
    "fl (receive hw e p s) = (fl s)\<lparr>dev := bus_store hw (pkt_at e) p (dev (fl s))\<rparr>"
    "astate (receive hw e p s) = astate s"
proof -
  have r: "ram_range (pkt_at e) (length p)" using assms(2,4) by (simp add: env_ok_def)
  have d: "idle (dev (fl s))" using assms(3) by (simp add: upd_inv_def)
  note st = bus_store_ram [OF assms(1) d r]
  show "upd_inv hw idle (receive hw e p s)"
    using st assms(3) hdr_apart(5) [OF ram_apart(1) [OF r]] verified_ram [OF r]
    by (simp add: upd_inv_def receive_def)
  show "the_packet hw e (receive hw e p s) = p"
    using mem_bytes_put_bytes [of p "pkt_at e" "upd_mem hw s"] st(2) assms(4)
    by (simp add: the_packet_def receive_def)
qed (simp_all add: receive_def store_ram_def)

lemma upd_run_inv:
  assumes "upd_run hw e s0 s" "ftfx_documented hw idle" "env_ok e" "upd_inv hw idle s0"
  shows "upd_inv hw idle s"
  using assms(1)
proof (induction rule: upd_run.induct)
  case start show ?case by (rule assms(4))
next
  case (packet s p err s')
  have "upd_post hw idle (updaterPacketProcess hw e (receive hw e p s))"
    by (rule updater_post [OF assms(2,3) receive_inv(1) [OF assms(2,3) packet.IH packet.hyps(2)]])
  then show ?case using packet.hyps(3) by (simp add: upd_post_Some)
next
  case (power_cycle s) then show ?case by (simp add: upd_inv_def board_reset_def)
next
  case (reboot s p r s')
  have "upd_post hw idle (updaterPacketProcess hw e (receive hw e p s))"
    by (rule updater_post [OF assms(2,3) receive_inv(1) [OF assms(2,3) reboot.IH reboot.hyps(2)]])
  then show ?case using reboot.hyps(3) by (simp add: upd_post_Some upd_inv_def board_reset_def)
next
  case (ram s a bs)
  then show ?case
    using bus_store_ram [OF assms(2) _ ram.hyps(2), of s] hdr_apart(5) [OF ram_apart(1) [OF ram.hyps(2)]] verified_ram [OF ram.hyps(2)]
    by (simp add: upd_inv_def)
qed

text \<open>The states a factory-fresh device starts from: storage blank, no transmission under way.\<close>

definition fresh :: "'d ftfx \<Rightarrow> ('d \<Rightarrow> bool) \<Rightarrow> 'd upd \<Rightarrow> bool" where
  "fresh hw idle s \<longleftrightarrow> idle (dev (fl s)) \<and> astate s = APP_IDLE \<and> hdr_complete (upd_mem hw s) = ERASED"

lemma fresh_inv: "fresh hw idle s \<Longrightarrow> upd_inv hw idle s"
  by (simp add: fresh_def upd_inv_def verified_erased)

text \<open>C1: Only verified programs are booted.  Starting from a device whose storage is not marked complete, after any sequence of
  packets (of arbitrary contents), resets and changes of RAM, earlier boots included, the updater leaves for the program only when
  the header of the program is valid and, if the announced length is at most the 0x2700 bytes of the storage area, that many bytes from the start of the program hash to the
  announced hash.  This covers the shortcut for a program already present.  The length itself is not checked by the code: for a longer one, where the hash
  runs over memory behind the flash, nothing is claimed.\<close>

theorem boots_only_verified_image:
  assumes "ftfx_documented hw idle" "env_ok e" "fresh hw idle s0" "upd_run hw e s0 s" "length p = 264"
    "updaterPacketProcess hw e (receive hw e p s) = Some (BootedApp, s')"
  shows "appIsValid (upd_mem hw s') \<and>
    (unat (hdr_length (upd_mem hw s')) \<le> 0x2700 \<longrightarrow>
       MurmurHash3_x86_32 (mem_bytes (upd_mem hw s') 0x5900 (unat (hdr_length (upd_mem hw s')))) 0x32d0babe = hdr_fullhash (upd_mem hw s'))"
proof -
  have "upd_inv hw idle s"
    by (rule upd_run_inv [OF assms(4,1,2) fresh_inv [OF assms(3)]])
  from updater_post [OF assms(1,2) receive_inv(1) [OF assms(1,2) this assms(5)]] assms(6)
  show ?thesis by (simp add: upd_post_Some image_fits_def program_hash_def)
qed

text \<open>C17: The completeness flag in flash is trustworthy.  In every state the device can reach from one whose storage is not marked complete, over any number of
  updates, boots and resets, a header whose \<^verbatim>\<open>complete\<close> word is no longer blank and whose length is at most the 0x2700 bytes of
  the storage area belongs to a program whose bytes hash to the announced hash; and every packet is processed to an outcome.\<close>

theorem complete_flag_trustworthy:
  assumes "ftfx_documented hw idle" "env_ok e" "fresh hw idle s0" "upd_run hw e s0 s"
  shows "(hdr_complete (upd_mem hw s) \<noteq> ERASED \<and> unat (hdr_length (upd_mem hw s)) \<le> 0x2700 \<longrightarrow>
       MurmurHash3_x86_32 (mem_bytes (upd_mem hw s) 0x5900 (unat (hdr_length (upd_mem hw s)))) 0x32d0babe = hdr_fullhash (upd_mem hw s)) \<and>
     (\<forall>p. length p = 264 \<longrightarrow> updaterPacketProcess hw e (receive hw e p s) \<noteq> None)"
proof -
  have i: "upd_inv hw idle s"
    by (rule upd_run_inv [OF assms(4,1,2) fresh_inv [OF assms(3)]])
  moreover have "updaterPacketProcess hw e (receive hw e p s) \<noteq> None" if "length p = 264" for p
    using updater_post [OF assms(1,2) receive_inv(1) [OF assms(1,2) i that]] by (auto simp: upd_post_def split: option.splits)
  ultimately show ?thesis by (simp add: upd_inv_def verified_def image_fits_def program_hash_def)
qed

section \<open>Damaged packets\<close>

lemma process_idle_bad_hash:
  assumes "MurmurHash3_x86_32 (take 28 (the_packet hw e s)) 0xdeadbeef \<noteq> ctrl_hash (the_packet hw e s)"
  shows "process_idle hw e s = Some (Returned 0, set_leds [STATG False, STATR True] s)"
proof -
  have "the_packet hw e (set_leds ls s) = the_packet hw e s" for ls by (simp add: the_packet_def)
  then show ?thesis using assms by (simp add: process_idle_def Let_def)
qed

lemma process_updating_bad_hash:
  assumes "MurmurHash3_x86_32 (take 260 (the_packet hw e s)) 0xdeadbeef \<noteq> data_hash (the_packet hw e s)"
    "hdr_magic (upd_mem hw s) = 0x62696843"
  shows "process_updating hw e s =
    Some (Returned 0, (set_leds [STATG False, STATR (\<not> led_state s)] s)\<lparr>led_state := \<not> led_state s\<rparr>)"
proof -
  have "the_packet hw e ((set_leds ls s)\<lparr>led_state := v\<rparr>) = the_packet hw e s" for ls v
    by (simp add: the_packet_def)
  then show ?thesis using assms by (simp add: process_updating_def Let_def)
qed

text \<open>Two packets that differ only inside one aligned 32-bit word, up to and including the hash at offset \<open>n\<close>.\<close>

definition one_word_damaged :: "nat \<Rightarrow> u8 list \<Rightarrow> u8 list \<Rightarrow> bool" where
  "one_word_damaged n good bad \<longleftrightarrow> length good = 264 \<and> length bad = 264 \<and>
     (\<exists>i. (\<forall>j < 264. j div 4 \<noteq> i \<longrightarrow> good ! j = bad ! j) \<and> take (n + 4) good \<noteq> take (n + 4) bad)"

definition packet_valid :: "nat \<Rightarrow> demod_pkt_t \<Rightarrow> bool" where
  "packet_valid n p \<longleftrightarrow> MurmurHash3_x86_32 (take n p) 0xdeadbeef = bytes32 p n"

lemma bytes32_eq: "bytes32 p n = bytes32 q n \<longleftrightarrow> (\<forall>k < 4. p ! (n + k) = q ! (n + k))"
proof -
  have "k < 4 \<longleftrightarrow> k = 0 \<or> k = 1 \<or> k = 2 \<or> k = 3" for k :: nat by auto
  then show ?thesis by (auto simp: bytes32_def le32_inject)
qed

lemma damaged_invalid:
  assumes "one_word_damaged n good bad" "packet_valid n good" "n = 28 \<or> n = 260"
  shows "\<not> packet_valid n bad"
proof -
  obtain i where i: "\<forall>j < 264. j div 4 \<noteq> i \<longrightarrow> good ! j = bad ! j" "take (n + 4) good \<noteq> take (n + 4) bad"
    and len: "length good = 264" "length bad = 264"
    using assms(1) by (auto simp: one_word_damaged_def)
  have "\<exists>j < n + 4. good ! j \<noteq> bad ! j"
  proof (rule ccontr)
    assume "\<not> ?thesis"
    then have "take (n + 4) good = take (n + 4) bad" using len assms(3) by (intro nth_take_lemma) auto
    with i(2) show False ..
  qed
  then obtain j where j: "j < n + 4" "good ! j \<noteq> bad ! j" by blast
  moreover have "j < 264" using j(1) assms(3) by auto
  ultimately have ji: "j div 4 = i" using i(1) by blast
  show ?thesis
  proof (cases "j < n")
    case True
    have "i < n div 4" using ji True assms(3) by auto
    then have "\<forall>k < 4. good ! (n + k) = bad ! (n + k)" using i(1) assms(3) by auto
    then have "bytes32 good n = bytes32 bad n" by (simp add: bytes32_eq)
    moreover have "take n good ! j \<noteq> take n bad ! j" using True j(2) by simp
    then have ne: "take n good \<noteq> take n bad" by metis
    have "MurmurHash3_x86_32 (take n good) 0xdeadbeef \<noteq> MurmurHash3_x86_32 (take n bad) 0xdeadbeef"
      by (rule murmur_word_diff [where i = i]) (use i len ne assms(3) \<open>i < n div 4\<close> in auto)
    ultimately show ?thesis using assms(2) by (simp add: packet_valid_def)
  next
    case False
    then have "i = n div 4" using ji j(1) assms(3) by auto
    then have "take n good = take n bad" using i(1) len assms(3) by (intro nth_equalityI) auto
    moreover have "bytes32 good n \<noteq> bytes32 bad n"
      using False j unfolding bytes32_eq by (metis add_diff_inverse_nat nat_add_left_cancel_less)
    ultimately show ?thesis using assms(2) by (simp add: packet_valid_def)
  qed
qed

text \<open>C28: Damaged packets are ignored while packets are being received.  A control packet in the state APP_IDLE, or a data packet in the state APP_UPDATING with an intact
  storage header, that differs from a valid packet inside one aligned 32-bit word (any burst within a word, any single bit, the hash
  word included) is not acted upon: the call returns 0, the flash controller is not touched, the state does not change.  In APP_UPDATED the contents of
  a packet do not matter, and nothing is claimed.\<close>

theorem damaged_packet_ignored:
  assumes "ftfx_documented hw idle" "env_ok e" "upd_inv hw idle s"
    "packet_valid n good" "one_word_damaged n good bad"
    "astate s = APP_IDLE \<and> n = 28 \<or>
     astate s = APP_UPDATING \<and> n = 260 \<and> hdr_magic (upd_mem hw s) = 0x62696843"
  shows "\<exists>s'. updaterPacketProcess hw e (receive hw e bad s) = Some (Returned 0, s') \<and>
    fl s' = fl (receive hw e bad s) \<and> astate s' = astate s \<and> pkt_ready s' = 0"
proof -
  have n: "n = 28 \<or> n = 260" and len: "length bad = 264" using assms(5,6) by (auto simp: one_word_damaged_def)
  note r = receive_inv [OF assms(1-3) len]
  have bad: "MurmurHash3_x86_32 (take n bad) 0xdeadbeef \<noteq> bytes32 bad n"
    using damaged_invalid [OF assms(5,4) n] by (simp add: packet_valid_def)
  have ram: "ram_range (pkt_at e) (length bad)" using assms(2) len by (simp add: env_ok_def)
  have magic: "hdr_magic (upd_mem hw (receive hw e bad s)) = hdr_magic (upd_mem hw s)"
    using bus_store_ram(2) [OF assms(1) _ ram] assms(3) hdr_apart(1) [OF ram_apart(1) [OF ram]]
    by (simp add: receive_def upd_inv_def)
  from assms(6) show ?thesis
  proof (elim disjE conjE)
    assume "astate s = APP_IDLE" "n = 28"
    with bad r show ?thesis
      by (simp add: updaterPacketProcess_def process_idle_bad_hash ctrl_hash_def)
  next
    assume "astate s = APP_UPDATING" "n = 260" "hdr_magic (upd_mem hw s) = 0x62696843"
    with bad r magic show ?thesis
      by (simp add: updaterPacketProcess_def process_updating_bad_hash data_hash_def)
  qed
qed

section \<open>A complete transmission\<close>

text \<open>A control packet announcing \<open>img\<close>, and a data packet carrying block \<open>b\<close> of it.\<close>

definition announces :: "u8 list \<Rightarrow> demod_pkt_t \<Rightarrow> bool" where
  "announces img p \<longleftrightarrow> length p = 264 \<and> hdr_type p = 0x01 \<and> packet_valid 28 p \<and>
     ctrl_length p = of_nat (length img) \<and> ctrl_fullhash p = MurmurHash3_x86_32 img 0x32d0babe"

definition blocks_of :: "u8 list \<Rightarrow> nat" where
  "blocks_of img = (length img + 255) div 256"

definition carries :: "u8 list \<Rightarrow> nat \<Rightarrow> demod_pkt_t \<Rightarrow> bool" where
  "carries img b p \<longleftrightarrow> length p = 264 \<and> hdr_type p = 0x02 \<and> packet_valid 260 p \<and>
     b < blocks_of img \<and> data_block p = of_nat b \<and>
     (\<forall>j < 256. 256 * b + j < length img \<longrightarrow> p ! (4 + j) = img ! (256 * b + j))"

text \<open>Processing packets one after the other until one does not return.\<close>

fun process_all :: "'d ftfx \<Rightarrow> upd_env \<Rightarrow> demod_pkt_t list \<Rightarrow> 'd upd \<Rightarrow> (outcome \<times> 'd upd) option" where
  "process_all hw e [] s = Some (Returned 0, s)"
| "process_all hw e (p # ps) s =
     (case updaterPacketProcess hw e (receive hw e p s) of
        Some (Returned err, s') \<Rightarrow> process_all hw e ps s'
      | r \<Rightarrow> r)"

definition block_written :: "u8 list \<Rightarrow> mem \<Rightarrow> nat \<Rightarrow> bool" where
  "block_written img m b \<longleftrightarrow> hdr_blockmap m (of_nat b) = 0 \<and>
     (\<forall>j < 256. 256 * b + j < length img \<longrightarrow> m (0x5900 + of_nat (256 * b + j)) = img ! (256 * b + j))"

definition block_empty :: "mem \<Rightarrow> nat \<Rightarrow> bool" where
  "block_empty m b \<longleftrightarrow> hdr_blockmap m (of_nat b) = ERASED \<and>
     (\<forall>j < 256. m (0x5900 + of_nat (256 * b + j)) = 0xFF)"

definition header_for :: "u8 list \<Rightarrow> mem \<Rightarrow> bool" where
  "header_for img m \<longleftrightarrow> hdr_magic m = 0x62696843 \<and> hdr_length m = of_nat (length img) \<and>
     hdr_fullhash m = MurmurHash3_x86_32 img 0x32d0babe \<and> hdr_complete m = ERASED"

definition partial_image :: "u8 list \<Rightarrow> nat set \<Rightarrow> mem \<Rightarrow> bool" where
  "partial_image img B m \<longleftrightarrow> header_for img m \<and>
     (\<forall>b < 39. if b \<in> B then block_written img m b else block_empty m b)"

text \<open>Where blocks and block-map entries lie.\<close>

lemma block_addr: "b < 39 \<Longrightarrow> unat (blockmap_addr (of_nat b)) = 0x5824 + 4 * b"
  by (subst blockmap_unat) (simp_all add: word_less_nat_alt)

lemma block_base: "b < 39 \<Longrightarrow> unat (0x5900 + of_nat b * 256 :: u32) = 0x5900 + 256 * b"
  by (subst block_unat) (simp_all add: word_less_nat_alt)

lemma block_offset: "0x5900 + of_nat (256 * b + j) = (0x5900 + of_nat b * 256) + (of_nat j :: u32)"
  by simp

lemma block_apart:
  assumes "apart a (length bs) (blockmap_addr (of_nat b)) 4" "apart a (length bs) (0x5900 + of_nat b * 256) 256"
  shows "block_written img (put_bytes a bs m) b = block_written img m b"
    "block_empty (put_bytes a bs m) b = block_empty m b"
  unfolding block_written_def block_empty_def block_offset
  using assms by (simp_all add: hdr_blockmap_def load32_apart put_bytes_apart)

lemma header_apart:
  "apart a (length bs) 0x5800 36 \<Longrightarrow> header_for img (put_bytes a bs m) = header_for img m"
  by (simp add: header_for_def hdr_apart)

lemma partial_image_ram:
  assumes "ram_range a (length bs)"
  shows "partial_image img B (put_bytes a bs m) = partial_image img B m"
proof -
  have "apart a (length bs) (blockmap_addr (of_nat b)) 4" "apart a (length bs) (0x5900 + of_nat b * 256) 256"
    if "b < 39" for b
    using assms that by (auto simp: apart_def ram_range_def block_addr block_base)
  then show ?thesis
    using header_apart [OF ram_apart(1) [OF assms]] by (simp add: partial_image_def block_apart)
qed

lemma block_empty_blank:
  assumes "b < 39" "block_empty m b"
  shows "flash_blank m (blockmap_addr (of_nat b)) 4" "flash_blank m (0x5900 + of_nat b * 256) 256"
proof -
  have eq: "i < 4 \<longleftrightarrow> i = 0 \<or> i = 1 \<or> i = 2 \<or> i = 3" for i :: nat by auto
  show "flash_blank m (blockmap_addr (of_nat b)) 4"
    using assms unfolding flash_blank_def word_mod4_iff eq
    by (auto simp: block_addr block_empty_def hdr_blockmap_def load32_def le32_erased)
  show "flash_blank m (0x5900 + of_nat b * 256) 256"
    using assms unfolding flash_blank_def word_mod4_iff block_empty_def block_offset
    by (auto simp: block_base)
qed

text \<open>Programming a missing block adds exactly that block.\<close>

lemma program_block_adds:
  assumes hw: "ftfx_documented hw idle" and s: "idle (dev (fl s))" and e: "env_ok e"
    and P: "partial_image img B (upd_mem hw s)" and b: "b < 39" "b \<notin> B"
    and c: "carries img b (the_packet hw e s)"
  obtains t where "program_block hw e (of_nat b) s = Some (0, s\<lparr>fl := t\<rparr>)" "idle (dev t)"
    "partial_image img (insert b B) (flash_mem hw t)"
proof -
  let ?m = "upd_mem hw s" and ?A = "blockmap_addr (of_nat b)" and ?D = "0x5900 + of_nat b * 256 :: u32"
  let ?m1 = "put_bytes (dummy_at e) (word_bytes 0) ?m"
  let ?m2 = "put_bytes ?A (word_bytes 0) ?m1"
  have be: "block_empty ?m b" using P b by (auto simp: partial_image_def)
  have P1: "partial_image img B ?m1" by (simp add: partial_image_ram [OF dummy_ram [OF e]] P)
  have be1: "block_empty ?m1 b" using P1 b by (auto simp: partial_image_def)
  have a: "unat ?A + 4 < 2 ^ 32" "unat ?D + unat (256 :: u32) < 2 ^ 32"
    using b by (simp_all add: block_addr block_base)
  obtain t1 where t1: "clear_word hw e ?A s = Some (0, s\<lparr>fl := t1\<rparr>)" "idle (dev t1)" "flash_mem hw t1 = ?m2"
    by (rule clear_word_cases [OF hw s e a(1)]) (use block_empty_blank(1) [OF b(1) be] in auto)
  have src: "ram_range (pkt_at e + 4) (unat (256 :: u32))" "(pkt_at e + 4) mod 4 = 0"
    using e by (auto simp: env_ok_def ram_range_def unat_word_ariths word_mod4_iff)
  have blank2: "flash_blank ?m2 ?D 256"
  proof -
    have "apart ?A (length (word_bytes 0)) ?D 256" using b by (simp add: apart_def block_addr block_base)
    from put_bytes_apart [OF this] show ?thesis
      using block_empty_blank(2) [OF b(1) be1] by (simp add: flash_blank_def)
  qed
  obtain t2 where t2: "flashProgram hw (pkt_at e + 4) ?D 256 t1 = Some (0, t2)" "idle (dev t2)"
    "flash_mem hw t2 = put_bytes ?D (mem_bytes ?m2 (pkt_at e + 4) 256) ?m2"
    by (rule flashProgram_cases [OF hw t1(2) src _ a(2)]) (use blank2 t1(3) in auto)
  let ?pay = "mem_bytes ?m2 (pkt_at e + 4) 256"
  let ?m3 = "put_bytes ?D ?pay ?m2"
  have pay: "?pay ! j = the_packet hw e s ! (4 + j)" if "j < 256" for j
  proof -
    have pk: "unat (pkt_at e) + 264 \<le> 0x20000C00" "0x1FFFFC00 \<le> unat (pkt_at e)" "apart (pkt_at e) 264 (dummy_at e) 4"
      using e by (simp_all add: env_ok_def ram_range_def)
    then have "apart ?A 4 (pkt_at e) 264" "apart (dummy_at e) 4 (pkt_at e) 264"
      using b by (auto simp: apart_def block_addr)
    then have "?m2 (pkt_at e + of_nat (4 + j)) = ?m (pkt_at e + of_nat (4 + j))"
      using that put_bytes_apart [of _ "word_bytes 0" "pkt_at e" 264 "4 + j"] by simp
    then show ?thesis using that by (simp add: the_packet_def add.assoc)
  qed
  have hdr3: "header_for img ?m3"
    using P1 b by (simp add: partial_image_def header_apart apart_def block_addr block_base)
  have wr: "block_written img ?m3 b"
  proof -
    have "apart ?D 256 ?A 4" using b by (simp add: apart_def block_addr block_base)
    then have "hdr_blockmap ?m3 (of_nat b) = 0" by (simp add: hdr_blockmap_def load32_apart)
    moreover have "?m3 (?D + of_nat j) = ?pay ! j" if "j < 256" for j
      using that by (simp add: put_bytes_apply)
    ultimately show ?thesis
      unfolding block_written_def block_offset using c pay by (simp add: carries_def)
  qed
  have other: "block_written img ?m3 c = block_written img ?m1 c" "block_empty ?m3 c = block_empty ?m1 c"
    if "c < 39" "c \<noteq> b" for c
  proof -
    have "apart ?A 4 (blockmap_addr (of_nat c)) 4" "apart ?A 4 (0x5900 + of_nat c * 256) 256"
      "apart ?D 256 (blockmap_addr (of_nat c)) 4" "apart ?D 256 (0x5900 + of_nat c * 256) 256"
      using that b by (auto simp: apart_def block_addr block_base)
    then show "block_written img ?m3 c = block_written img ?m1 c" "block_empty ?m3 c = block_empty ?m1 c"
      by (simp_all add: block_apart)
  qed
  have "partial_image img (insert b B) ?m3"
    unfolding partial_image_def
  proof (intro conjI allI impI)
    show "header_for img ?m3" by (rule hdr3)
    fix c assume c: "c < (39 :: nat)"
    show "if c \<in> insert b B then block_written img ?m3 c else block_empty ?m3 c"
    proof (cases "c = b")
      case True then show ?thesis using wr by simp
    next
      case False
      then show ?thesis using P1 other [OF c False] c by (simp add: partial_image_def)
    qed
  qed
  then show thesis
    using t1 t2 by (intro that [of t2]) (simp_all add: program_block_def run_flash_def)
qed

lemma blocks_expected_len:
  assumes "1 \<le> n" "n < 2 ^ 32"
  shows "unat (blocks_expected (of_nat n)) = (n + 255) div 256"
proof -
  have "unat (of_nat n - 1 :: u32) = n - 1"
  proof -
    have "of_nat n - 1 = (of_nat (n - 1) :: u32)" using assms(1) by (simp add: of_nat_diff)
    then show ?thesis using assms(2) unat_of_nat_small [of "n - 1"] by simp
  qed
  then have "unat ((of_nat n - 1) div 256 :: u32) = (n - 1) div 256" by (simp add: unat_div)
  moreover have "(n - 1) div 256 \<le> 0xFFFFFF" using assms by simp
  moreover have "(n + 255) div 256 = (n - 1) div 256 + 1"
  proof -
    have "n + 255 = (n - 1) + 256" using assms by simp
    then show ?thesis by simp
  qed
  ultimately show ?thesis
    unfolding blocks_expected_def by (simp add: unat_word_ariths)
qed

lemma partial_image_done:
  assumes P: "partial_image img B m" and len: "1 \<le> length img" "length img \<le> 0x2700"
  shows "all_blocks_done m \<longleftrightarrow> {0..<blocks_of img} \<subseteq> B"
proof -
  have l: "hdr_length m = of_nat (length img)" using P by (simp add: partial_image_def header_for_def)
  have n: "blocks_of img \<le> 39" using len by (simp add: blocks_of_def)
  have "hdr_blockmap m (of_nat b) \<noteq> ERASED \<longleftrightarrow> b \<in> B" if "b < blocks_of img" for b
  proof -
    have "if b \<in> B then block_written img m b else block_empty m b"
      using P that n by (simp add: partial_image_def)
    then show ?thesis by (auto simp: block_written_def block_empty_def split: if_splits)
  qed
  then show ?thesis
    by (auto simp: all_blocks_done_def l blocks_expected_len [OF len(1) order_le_less_trans [OF len(2)]] list_all_iff blocks_of_def)
qed

lemma partial_image_full:
  assumes P: "partial_image img B m" and len: "1 \<le> length img" "length img \<le> 0x2700"
    and all: "{0..<blocks_of img} \<subseteq> B"
  shows "mem_bytes m 0x5900 (length img) = img"
proof (rule nth_equalityI)
  fix i assume "i < length (mem_bytes m 0x5900 (length img))"
  then have i: "i < length img" by simp
  have b: "i div 256 < blocks_of img" "i div 256 < 39" using i len by (auto simp: blocks_of_def)
  then have "block_written img m (i div 256)" using P all by (auto simp: partial_image_def)
  moreover have eq: "256 * (i div 256) + i mod 256 = i" by simp
  ultimately have "m (0x5900 + of_nat i) = img ! i"
    unfolding block_written_def eq using i eq by (metis mod_less_divisor zero_less_numeral)
  then show "mem_bytes m 0x5900 (length img) ! i = img ! i" using i by simp
qed simp

text \<open>The state of a session that has received the blocks \<open>B\<close>.\<close>

definition session :: "'d ftfx \<Rightarrow> ('d \<Rightarrow> bool) \<Rightarrow> u8 list \<Rightarrow> nat set \<Rightarrow> 'd upd \<Rightarrow> bool" where
  "session hw idle img B s \<longleftrightarrow> idle (dev (fl s)) \<and> astate s = APP_UPDATING \<and> partial_image img B (upd_mem hw s)"

definition bootable :: "u8 list \<Rightarrow> bool" where
  "bootable img \<longleftrightarrow> 32 \<le> length img \<and> length img \<le> 0x2700 \<and>
     bytes32 img 0x18 = 0xd3fbf67a \<and> bytes32 img 0x1C = 0x100"

definition booted_with :: "'d ftfx \<Rightarrow> u8 list \<Rightarrow> (outcome \<times> 'd upd) option \<Rightarrow> bool" where
  "booted_with hw img r \<longleftrightarrow> (\<exists>s. r = Some (BootedApp, s) \<and>
     mem_bytes (upd_mem hw s) 0x5900 (length img) = img \<and> hdr_complete (upd_mem hw s) = 0 \<and>
     hdr_length (upd_mem hw s) = of_nat (length img))"

lemma bootable_valid:
  assumes "bootable img" "mem_bytes m 0x5900 (length img) = img"
  shows "appIsValid m"
proof -
  have "m (0x5900 + of_nat i) = img ! i" if "i < 32" for i
    using that assms by (metis bootable_def nth_mem_bytes order_less_le_trans)
  from this [of 24] this [of 25] this [of 26] this [of 27] this [of 28] this [of 29] this [of 30] this [of 31]
  show ?thesis
    using assms(1) by (simp add: appIsValid_def app_magic_def app_version_def load32_def bootable_def bytes32_def)
qed

lemma finish_boots:
  assumes hw: "ftfx_documented hw idle" and s: "idle (dev (fl s))" and e: "env_ok e" and img: "bootable img"
    and P: "partial_image img B (upd_mem hw s)" and all: "{0..<blocks_of img} \<subseteq> B"
  shows "booted_with hw img (finish_update hw e s)"
proof -
  have len: "1 \<le> length img" "length img \<le> 0x2700" using img by (simp_all add: bootable_def)
  have full: "mem_bytes (upd_mem hw s) 0x5900 (length img) = img" by (rule partial_image_full [OF P len all])
  have h: "hdr_length (upd_mem hw s) = of_nat (length img)" "hdr_complete (upd_mem hw s) = ERASED"
    "program_hash (upd_mem hw s) = hdr_fullhash (upd_mem hw s)"
    using P full len by (simp_all add: partial_image_def header_for_def program_hash_def)
  have a: "unat (0x5820 :: u32) + 4 < 2 ^ 32" by simp
  obtain t where t: "clear_word hw e 0x5820 s = Some (0, s\<lparr>fl := t\<rparr>)"
    "flash_mem hw t = put_bytes 0x5820 (word_bytes 0) (put_bytes (dummy_at e) (word_bytes 0) (upd_mem hw s))"
    by (rule clear_word_cases [OF hw s e a]) (use complete_blank [OF h(2)] in auto)
  have ap: "apart 0x5820 4 0x5900 (length img)" "apart (dummy_at e) 4 0x5900 (length img)"
    using len e by (auto simp: apart_def env_ok_def ram_range_def)
  then have full': "mem_bytes (flash_mem hw t) 0x5900 (length img) = img"
    using full by (simp add: t(2) mem_bytes_apart)
  have "hdr_complete (flash_mem hw t) = 0" by (simp add: t(2) hdr_complete_def)
  moreover have "hdr_length (flash_mem hw t) = of_nat (length img)"
    using h(1) hdr_dummy(2) [OF e] by (simp add: t(2) hdr_length_def load32_apart apart_def)
  ultimately show ?thesis
    using h(3) t(1) full' bootable_valid [OF img full']
    by (simp add: booted_with_def finish_update_def bootToUserApp_frame Let_def)
qed

lemma session_packet:
  assumes hw: "ftfx_documented hw idle" and e: "env_ok e" and img: "bootable img"
    and S: "session hw idle img B s" and c: "carries img b p"
  shows "if {0..<blocks_of img} \<subseteq> insert b B
    then booted_with hw img (updaterPacketProcess hw e (receive hw e p s))
    else \<exists>err s'. updaterPacketProcess hw e (receive hw e p s) = Some (Returned err, s') \<and>
           session hw idle img (insert b B) s'"
proof -
  have len: "1 \<le> length img" "length img \<le> 0x2700" using img by (simp_all add: bootable_def)
  have "blocks_of img \<le> 39" using len by (simp add: blocks_of_def)
  then have b: "b < 39" using c by (simp add: carries_def)
  have lp: "length p = 264" using c by (simp add: carries_def)
  have ram: "ram_range (pkt_at e) (length p)" using e lp by (simp add: env_ok_def)
  have d: "idle (dev (fl s))" using S by (simp add: session_def)
  note st = bus_store_ram [OF hw d ram]
  let ?r = "receive hw e p s"
  define s1 where "s1 = (set_leds [STATG False, STATR (\<not> led_state ?r)] ?r)\<lparr>led_state := \<not> led_state ?r\<rparr>"
  have s1: "fl s1 = fl ?r" "astate s1 = APP_UPDATING"
    using S by (simp_all add: s1_def receive_def session_def)
  have P: "partial_image img B (upd_mem hw s1)" and d1: "idle (dev (fl s1))"
    using S st partial_image_ram [OF ram] by (simp_all add: s1 session_def receive_def)
  have pk: "the_packet hw e s1 = p"
    using mem_bytes_put_bytes [of p "pkt_at e" "upd_mem hw s"] st(2) lp by (simp add: the_packet_def s1 receive_def)
  have blk: "ucast (data_block p) = (of_nat b :: u32)"
    using c b by (simp add: carries_def word_unat_eq_iff unsigned_ucast_eq take_bit_nat_eq_self unat_of_nat)
  have step: "\<exists>r t. (if hdr_blockmap (upd_mem hw s1) (of_nat b) = ERASED then program_block hw e (of_nat b) s1
      else Some (0, s1)) = Some (r, t) \<and> idle (dev (fl t)) \<and> astate t = APP_UPDATING \<and>
      partial_image img (insert b B) (upd_mem hw t)"
  proof (cases "b \<in> B")
    case True
    then have "hdr_blockmap (upd_mem hw s1) (of_nat b) \<noteq> ERASED"
      using P b by (auto simp: partial_image_def block_written_def)
    then show ?thesis using P d1 True s1(2) by (simp add: insert_absorb)
  next
    case False
    then have "hdr_blockmap (upd_mem hw s1) (of_nat b) = ERASED"
      using P b by (auto simp: partial_image_def block_empty_def)
    moreover obtain t where "program_block hw e (of_nat b) s1 = Some (0, s1\<lparr>fl := t\<rparr>)" "idle (dev t)"
      "partial_image img (insert b B) (flash_mem hw t)"
      by (rule program_block_adds [OF hw d1 e P b False]) (use c pk in simp_all)
    ultimately show ?thesis using s1(2) by auto
  qed
  then obtain r t where t: "(if hdr_blockmap (upd_mem hw s1) (of_nat b) = ERASED then program_block hw e (of_nat b) s1
      else Some (0, s1)) = Some (r, t)" "idle (dev (fl t))" "astate t = APP_UPDATING"
      "partial_image img (insert b B) (upd_mem hw t)" by blast
  have magic: "hdr_magic (upd_mem hw s1) = 0x62696843" using P by (simp add: partial_image_def header_for_def)
  have ok: "hdr_type p = 0x02" "MurmurHash3_x86_32 (take 260 p) 0xdeadbeef = data_hash p"
    using c by (simp_all add: carries_def packet_valid_def data_hash_def)
  have run: "process_updating hw e ?r = (if \<not> all_blocks_done (upd_mem hw t) then Some (Returned r, t)
      else finish_update hw e t)"
    using t(1) magic [unfolded s1(1)]
    by (simp add: process_updating_def s1_def [symmetric] Let_def magic pk ok blk split: if_splits)
  have up: "astate ?r = APP_UPDATING" using S by (simp add: receive_def session_def)
  note dn = partial_image_done [OF t(4) len]
  show ?thesis
  proof (cases "{0..<blocks_of img} \<subseteq> insert b B")
    case True
    have "booted_with hw img (finish_update hw e t)"
      by (rule finish_boots [OF hw _ e img _ True]) (use t in simp_all)
    then show ?thesis
      using run dn True up by (auto simp: updaterPacketProcess_def booted_with_def)
  next
    case False
    then show ?thesis
      using run dn up t by (simp add: updaterPacketProcess_def session_def)
  qed
qed

lemma session_packets:
  assumes "ftfx_documented hw idle" "env_ok e" "bootable img" "session hw idle img B s"
    "\<forall>(b, p) \<in> set bps. carries img b p" "{0..<blocks_of img} \<subseteq> B \<union> fst ` set bps" "\<not> {0..<blocks_of img} \<subseteq> B"
  shows "booted_with hw img (process_all hw e (map snd bps) s)"
  using assms(4-7)
proof (induction bps arbitrary: B s)
  case Nil
  then show ?case by simp
next
  case (Cons bp bps)
  obtain b p where bp: "bp = (b, p)" by fastforce
  have c: "carries img b p" using Cons.prems(2) bp by simp
  note step = session_packet [OF assms(1-3) Cons.prems(1) c]
  show ?case
  proof (cases "{0..<blocks_of img} \<subseteq> insert b B")
    case True
    then show ?thesis using step by (auto simp: bp booted_with_def)
  next
    case False
    then obtain err s' where s': "updaterPacketProcess hw e (receive hw e p s) = Some (Returned err, s')"
      "session hw idle img (insert b B) s'" using step by auto
    have "{0..<blocks_of img} \<subseteq> insert b B \<union> fst ` set bps" using Cons.prems(3) bp by auto
    from Cons.IH [OF s'(2) _ this False] show ?thesis
      using Cons.prems(2) s'(1) by (simp add: bp)
  qed
qed

lemma put_bytes_nth: "i < length bs \<Longrightarrow> length bs \<le> 2 ^ 32 \<Longrightarrow> put_bytes a bs m (a + of_nat i) = bs ! i"
  by (simp add: put_bytes_apply)

lemma load32_put_bytes_at:
  assumes "i + 4 \<le> length bs" "length bs \<le> 2 ^ 32"
  shows "load32 (put_bytes a bs m) (a + of_nat i) = bytes32 bs i"
  using put_bytes_nth [of i bs a m] put_bytes_nth [of "i + 1" bs a m] put_bytes_nth [of "i + 2" bs a m]
    put_bytes_nth [of "i + 3" bs a m] assms
  by (simp add: load32_def bytes32_def ac_simps)

definition proto_of :: "demod_pkt_t \<Rightarrow> u8 list" where
  "proto_of p = word_bytes 0 @ word_bytes 0x62696843 @ word_bytes (ctrl_fullhash p) @ word_bytes (ctrl_length p) @ ctrl_guid p"

lemma length_proto_of: "length p = 264 \<Longrightarrow> length (proto_of p) = 32"
  by (simp add: proto_of_def ctrl_guid_def)

lemma bytes32_proto:
  "bytes32 (proto_of p) 4 = 0x62696843" "bytes32 (proto_of p) 8 = ctrl_fullhash p" "bytes32 (proto_of p) 12 = ctrl_length p"
  by (simp_all add: proto_of_def bytes32_def word_bytes_def)

lemma erased_partial:
  assumes "announces img p" "ram_range a 32"
  shows "partial_image img {} (put_bytes 0x5800 (proto_of p) (put_bytes a (proto_of p) (sectors_fill 22 32 m)))"
proof -
  have lp: "length (proto_of p) = 32" using assms(1) by (simp add: announces_def length_proto_of)
  let ?e = "put_bytes a (proto_of p) (sectors_fill 22 32 m)"
  have fill: "sectors_fill 22 32 m x = 0xFF" if "0x5800 \<le> unat x" "unat x < 0x8000" for x
    using that by (simp add: sectors_fill_def)
  have e: "?e x = 0xFF" if "0x5800 \<le> unat x" "unat x < 0x8000" for x
    using that fill [OF that] assms(2) put_bytes_outside [of "proto_of p" x a] lp
    by (simp add: in_range_unat ram_range_def)
  have far: "put_bytes 0x5800 (proto_of p) ?e x = 0xFF" if "0x5820 \<le> unat x" "unat x < 0x8000" for x
    using that e put_bytes_outside [of "proto_of p" x "0x5800" ?e] lp by (simp add: in_range_unat)
  have w: "load32 (put_bytes 0x5800 (proto_of p) ?e) x = ERASED" if "0x5820 \<le> unat x" "unat x + 4 \<le> 0x8000" for x
  proof -
    have "put_bytes 0x5800 (proto_of p) ?e (x + of_nat i) = 0xFF" if i: "i < 4" for i
      by (rule far) (use that \<open>0x5820 \<le> unat x\<close> \<open>unat x + 4 \<le> 0x8000\<close> in \<open>simp_all add: unat_offset\<close>)
    from this [of 0] this [of 1] this [of 2] this [of 3] show ?thesis by (simp add: load32_def le32_erased)
  qed
  have "header_for img (put_bytes 0x5800 (proto_of p) ?e)"
    using load32_put_bytes_at [of 4 "proto_of p" "0x5800" ?e] load32_put_bytes_at [of 8 "proto_of p" "0x5800" ?e]
      load32_put_bytes_at [of 12 "proto_of p" "0x5800" ?e] lp w [of "0x5820"] assms(1)
    by (simp add: header_for_def hdr_magic_def hdr_fullhash_def hdr_length_def hdr_complete_def bytes32_proto announces_def)
  moreover have "block_empty (put_bytes 0x5800 (proto_of p) ?e) b" if "b < 39" for b
    unfolding block_empty_def block_offset hdr_blockmap_def
    using that by (auto intro!: w far simp: block_addr block_base unat_offset)
  ultimately show ?thesis by (simp add: partial_image_def)
qed

lemma announce_starts_session:
  assumes hw: "ftfx_documented hw idle" and e: "env_ok e" and d: "idle (dev (fl s))" and a: "astate s = APP_IDLE"
    and p: "announces img p" and g: "hdr_guid (upd_mem hw s) \<noteq> ctrl_guid p"
  shows "\<exists>err s'. updaterPacketProcess hw e (receive hw e p s) = Some (Returned err, s') \<and> session hw idle img {} s'"
proof -
  have lp: "length p = 264" and ok: "hdr_type p = 1" "MurmurHash3_x86_32 (take 28 p) 0xdeadbeef = ctrl_hash p"
    using p by (simp_all add: announces_def packet_valid_def ctrl_hash_def)
  have ram: "ram_range (pkt_at e) (length p)" "ram_range (proto_at e) 32" "proto_at e mod 4 = 0"
    using e lp by (simp_all add: env_ok_def)
  note st = bus_store_ram [OF hw d ram(1)]
  define s1 where "s1 = set_leds [STATG False, STATR True] (receive hw e p s)"
  have s1: "upd_mem hw s1 = put_bytes (pkt_at e) p (upd_mem hw s)" "idle (dev (fl s1))"
    using st by (simp_all add: s1_def receive_def)
  have pk: "the_packet hw e s1 = p"
    using mem_bytes_put_bytes [of p "pkt_at e" "upd_mem hw s"] s1 lp by (simp add: the_packet_def)
  have nz: "pkt_at e + 12 \<noteq> 0"
    using ram(1) by (auto simp: ram_range_def word_unat_eq_iff unat_word_ariths)
  have "mem_bytes (upd_mem hw s1) (pkt_at e + 12) 16 = ctrl_guid p"
  proof (rule nth_equalityI)
    fix i assume i: "i < length (mem_bytes (upd_mem hw s1) (pkt_at e + 12) 16)"
    then show "mem_bytes (upd_mem hw s1) (pkt_at e + 12) 16 ! i = ctrl_guid p ! i"
      using lp put_bytes_nth [of "12 + i" p "pkt_at e" "upd_mem hw s"] by (simp add: s1 ctrl_guid_def add.assoc)
  qed (simp add: ctrl_guid_def lp)
  moreover have "hdr_guid (upd_mem hw s1) = hdr_guid (upd_mem hw s)"
    using hdr_apart(4) [OF ram_apart(1) [OF ram(1)]] by (simp add: s1)
  ultimately have cmp: "memcmp 0x5810 (pkt_at e + 12) 16 (upd_mem hw s1) \<noteq> 0"
    using g nz memcmp_eq_0 [of "0x5810" "pkt_at e + 12" 16 "upd_mem hw s1"] by (simp add: hdr_guid_def)
  obtain t where t: "erase_storage hw s1 = Some (0, s1\<lparr>fl := t\<rparr>)" "idle (dev t)"
    "flash_mem hw t = sectors_fill 22 32 (upd_mem hw s1)" by (rule erase_storage_run [OF hw s1(2)])
  let ?s2 = "s1\<lparr>fl := t\<rparr>"
  have pk2: "the_packet hw e ?s2 = p"
  proof -
    have "sectors_fill 22 32 m (pkt_at e + of_nat i) = m (pkt_at e + of_nat i)" if "i < 264" for i m
      using that ram(1) lp by (simp add: sectors_fill_def ram_range_def unat_offset)
    then have "mem_bytes (sectors_fill 22 32 m) (pkt_at e) 264 = mem_bytes m (pkt_at e) 264" for m
      by (intro mem_bytes_cong) simp
    then show ?thesis using pk t(3) by (simp add: the_packet_def)
  qed
  have lpr: "length (proto_of p) = 32" by (simp add: length_proto_of lp)
  note sp = bus_store_ram [OF hw, of ?s2 "proto_at e" "proto_of p", unfolded lpr, simplified, OF t(2) ram(2)]
  have bl: "flash_blank (flash_mem hw (fl (store_ram hw (proto_at e) (proto_of p) ?s2))) 0x5800 (unat (32 :: u32))"
  proof -
    have "apart (proto_at e) (length (proto_of p)) 0x5800 32" using ram(2) lpr by (simp add: ram_range_def apart_def)
    from put_bytes_apart [OF this] show ?thesis
      using sp(2) t(3) by (simp add: flash_blank_def sectors_fill_def unat_word_ariths)
  qed
  have r32: "ram_range (proto_at e) (unat (32 :: u32))" using ram(2) by simp
  obtain u where u: "flashProgram hw (proto_at e) 0x5800 32 (fl (store_ram hw (proto_at e) (proto_of p) ?s2)) = Some (0, u)"
    "idle (dev u)" "flash_mem hw u = put_bytes 0x5800 (proto_of p) (put_bytes (proto_at e) (proto_of p) (flash_mem hw t))"
  proof (rule flashProgram_cases [OF hw sp(1) r32 ram(3), of "0x5800"])
    fix u assume "flashProgram hw (proto_at e) 0x5800 32 (fl (store_ram hw (proto_at e) (proto_of p) ?s2)) = Some (0, u)"
      "idle (dev u)" "flash_mem hw u = put_bytes 0x5800 (mem_bytes (upd_mem hw (store_ram hw (proto_at e) (proto_of p) ?s2))
        (proto_at e) (unat (32 :: u32))) (upd_mem hw (store_ram hw (proto_at e) (proto_of p) ?s2))"
    then show thesis
      using that sp(2) mem_bytes_put_bytes [of "proto_of p" "proto_at e" "flash_mem hw t"] lpr by simp
  qed (use bl in simp_all)
  have init: "init_storage_header hw e ?s2 = Some (s1\<lparr>fl := u\<rparr>)"
    using u(1) by (simp add: init_storage_header_def Let_def pk2 proto_of_def [symmetric] run_flash_def store_ram_def)
  have "process_idle hw e (receive hw e p s) = Some (Returned 0, s1\<lparr>fl := u, astate := APP_UPDATING\<rparr>)"
    using ok cmp t(1) init by (simp add: process_idle_def s1_def [symmetric] Let_def pk)
  moreover have "partial_image img {} (flash_mem hw u)"
    unfolding u(3) t(3) by (rule erased_partial [OF p ram(2)])
  moreover have "astate (receive hw e p s) = APP_IDLE" by (simp add: receive_def a)
  ultimately show ?thesis using u(2) by (simp add: updaterPacketProcess_def session_def)
qed

lemma transmission_boots:
  assumes "ftfx_documented hw idle" "env_ok e" "idle (dev (fl s))" "astate s = APP_IDLE"
    "bootable img" "announces img cp" "hdr_guid (upd_mem hw s) \<noteq> ctrl_guid cp"
    "\<forall>(b, p) \<in> set bps. carries img b p" "{0..<blocks_of img} \<subseteq> fst ` set bps"
  shows "booted_with hw img (process_all hw e (cp # map snd bps) s)"
proof -
  obtain err s' where s': "updaterPacketProcess hw e (receive hw e cp s) = Some (Returned err, s')"
    "session hw idle img {} s'" using announce_starts_session [OF assms(1-4,6,7)] by blast
  have "\<not> {0..<blocks_of img} \<subseteq> {}" using assms(5) by (auto simp: blocks_of_def bootable_def)
  from session_packets [OF assms(1,2,5) s'(2) assms(8) _ this] assms(9) s'(1) show ?thesis by simp
qed

text \<open>C2: A transmission succeeds.  On a documented controller, an idle bootloader that receives the
  control packet of a new, bootable program and then its data blocks, in any order, with any
  repetitions, boots the application as soon as every block has arrived; the flash then holds exactly
  the transmitted image and the header is marked complete.\<close>

theorem transmission_succeeds:
  assumes "ftfx_documented hw idle" "env_ok e" "idle (dev (fl s))" "astate s = APP_IDLE"
    "bootable img" "announces img cp" "hdr_guid (upd_mem hw s) \<noteq> ctrl_guid cp"
    "\<forall>(b, p) \<in> set bps. carries img b p" "{0..<blocks_of img} \<subseteq> fst ` set bps"
  shows "\<exists>s'. process_all hw e (cp # map snd bps) s = Some (BootedApp, s') \<and>
    mem_bytes (upd_mem hw s') 0x5900 (length img) = img \<and> hdr_complete (upd_mem hw s') = 0"
  using transmission_boots [OF assms] unfolding booted_with_def by blast


section \<open>Witnesses and limits of the updater\<close>

text \<open>A bootable image of one block, and packets that carry it.\<close>

definition demo_img :: "u8 list" where
  "demo_img = replicate 24 0 @ word_bytes 0xd3fbf67a @ word_bytes 0x100"

definition sealed :: "nat \<Rightarrow> u8 list \<Rightarrow> demod_pkt_t" where
  "sealed n p = p @ word_bytes (MurmurHash3_x86_32 p 0xdeadbeef) @ replicate (260 - n) 0"

definition demo_ctrl :: demod_pkt_t where
  "demo_ctrl = sealed 28 ([2, 1, 0, 0] @ word_bytes 32 @ word_bytes (MurmurHash3_x86_32 demo_img 0x32d0babe) @ replicate 16 7)"

definition demo_data :: demod_pkt_t where
  "demo_data = sealed 260 ([2, 2, 0, 0] @ demo_img @ replicate 224 0)"

definition demo_env :: upd_env where
  "demo_env = \<lparr>pkt_at = 0x20000000, proto_at = 0x20000200, dummy_at = 0x20000300\<rparr>"

definition demo_start :: "sim upd" where
  "demo_start = \<lparr>astate = APP_IDLE, led_state = False, led_log = [], pkt_ready = 0, fl = sim_start (\<lambda>_. 0xFF)\<rparr>"

lemma sealed_valid:
  assumes "length p = n" "n = 28 \<or> n = 260"
  shows "packet_valid n (sealed n p)" "length (sealed n p) = 264"
proof -
  have "bytes32 (p @ word_bytes w @ q) (length p) = w" for w q
    by (simp add: bytes32_def word_bytes_def nth_append)
  then show "packet_valid n (sealed n p)" "length (sealed n p) = 264"
    using assms by (auto simp: packet_valid_def sealed_def)
qed

lemma length_demo_img: "length demo_img = 32"
  by (simp add: demo_img_def)

lemma demo_img_bootable: "bootable demo_img"
  by (simp add: bootable_def length_demo_img) (simp add: demo_img_def bytes32_def word_bytes_def nth_append)

lemma sealed_nth: "i < length p \<Longrightarrow> sealed n p ! i = p ! i"
  by (simp add: sealed_def nth_append)

lemma demo_ctrl_announces: "announces demo_img demo_ctrl"
proof -
  let ?p = "[2, 1, 0, 0] @ word_bytes 32 @ word_bytes (MurmurHash3_x86_32 demo_img 0x32d0babe) @ replicate 16 7"
  have len: "length ?p = 28" by simp
  note v = sealed_valid [OF len]
  have f: "bytes32 (sealed 28 ?p) i = bytes32 ?p i" if "i + 4 \<le> 28" for i
    using that len by (simp add: bytes32_def sealed_nth)
  show ?thesis
    using v f [of 4] f [of 8]
    by (simp add: announces_def demo_ctrl_def hdr_type_def sealed_nth ctrl_length_def ctrl_fullhash_def length_demo_img)
       (simp add: bytes32_def word_bytes_def)
qed

lemma demo_data_carries: "carries demo_img 0 demo_data"
proof -
  let ?p = "[2, 2, 0, 0] @ demo_img @ replicate 224 0"
  have len: "length ?p = 260" by (simp add: length_demo_img)
  have v: "packet_valid 260 demo_data" "length demo_data = 264"
    using sealed_valid [OF len] unfolding demo_data_def by simp_all
  have n: "demo_data ! i = ?p ! i" if "i < 260" for i
    using that len by (simp add: demo_data_def sealed_nth)
  have "demo_data ! (4 + j) = demo_img ! j" if "j < 32" for j
    using n [of "4 + j"] that by (simp add: length_demo_img nth_append)
  then show ?thesis
    using v n [of 1] n [of 2] n [of 3]
    by (simp add: carries_def hdr_type_def data_block_def le16_def blocks_of_def length_demo_img)
qed

lemma demo_env_ok: "env_ok demo_env"
  by (simp add: env_ok_def demo_env_def ram_range_def apart_def)

lemma demo_guid: "hdr_guid (upd_mem sim_hw demo_start) \<noteq> ctrl_guid demo_ctrl"
proof
  assume "hdr_guid (upd_mem sim_hw demo_start) = ctrl_guid demo_ctrl"
  moreover have "hdr_guid (upd_mem sim_hw demo_start) ! 0 = 0xFF"
    by (simp add: hdr_guid_def demo_start_def)
  moreover have "ctrl_guid demo_ctrl ! 0 = 7"
    by (simp add: ctrl_guid_def demo_ctrl_def sealed_def word_bytes_def)
  ultimately show False by simp
qed

lemma demo_start_idle: "sim_idle (dev (fl demo_start))" "astate demo_start = APP_IDLE"
  by (simp_all add: demo_start_def)

theorem transmission_succeeds_witness:
  "\<exists>s'. process_all sim_hw demo_env [demo_ctrl, demo_data] demo_start = Some (BootedApp, s') \<and>
     mem_bytes (upd_mem sim_hw s') 0x5900 (length demo_img) = demo_img"
  using transmission_succeeds [OF sim_behaves demo_env_ok demo_start_idle demo_img_bootable demo_ctrl_announces
      demo_guid, of "[(0, demo_data)]"] demo_data_carries
  by (auto simp: blocks_of_def length_demo_img)

lemma demo_fresh: "fresh sim_hw sim_idle demo_start"
  by (simp add: fresh_def demo_start_def hdr_complete_def load32_def le32_erased)

lemma demo_announced: "\<exists>s. upd_run sim_hw demo_env demo_start s \<and> session sim_hw sim_idle demo_img {} s"
proof -
  obtain err s where s: "updaterPacketProcess sim_hw demo_env (receive sim_hw demo_env demo_ctrl demo_start) =
      Some (Returned err, s)" "session sim_hw sim_idle demo_img {} s"
    using announce_starts_session [OF sim_behaves demo_env_ok demo_start_idle demo_ctrl_announces demo_guid] by blast
  have "upd_run sim_hw demo_env demo_start s"
    by (rule upd_run.packet [OF upd_run.start _ s(1)]) (use demo_ctrl_announces in \<open>simp add: announces_def\<close>)
  with s(2) show ?thesis by blast
qed

lemma demo_boot_run:
  "\<exists>s s'. upd_run sim_hw demo_env demo_start s \<and>
     updaterPacketProcess sim_hw demo_env (receive sim_hw demo_env demo_data s) = Some (BootedApp, s') \<and>
     mem_bytes (upd_mem sim_hw s') 0x5900 32 = demo_img \<and> hdr_complete (upd_mem sim_hw s') = 0 \<and> hdr_length (upd_mem sim_hw s') = 32"
proof -
  obtain s where s: "upd_run sim_hw demo_env demo_start s" "session sim_hw sim_idle demo_img {} s" using demo_announced by blast
  moreover have "booted_with sim_hw demo_img (updaterPacketProcess sim_hw demo_env (receive sim_hw demo_env demo_data s))"
    using session_packet [OF sim_behaves demo_env_ok demo_img_bootable s(2) demo_data_carries]
    by (simp add: blocks_of_def length_demo_img)
  ultimately show ?thesis by (auto simp: booted_with_def length_demo_img)
qed

lemma length_demo_data: "length demo_data = 264"
  using demo_data_carries by (simp add: carries_def)

theorem boots_only_verified_image_witness:
  "\<exists>s s'. upd_run sim_hw demo_env demo_start s \<and>
     updaterPacketProcess sim_hw demo_env (receive sim_hw demo_env demo_data s) = Some (BootedApp, s') \<and>
     appIsValid (upd_mem sim_hw s') \<and> MurmurHash3_x86_32 demo_img 0x32d0babe = hdr_fullhash (upd_mem sim_hw s')"
proof -
  obtain s s' where r: "upd_run sim_hw demo_env demo_start s"
    "updaterPacketProcess sim_hw demo_env (receive sim_hw demo_env demo_data s) = Some (BootedApp, s')"
    "mem_bytes (upd_mem sim_hw s') 0x5900 32 = demo_img" "hdr_length (upd_mem sim_hw s') = 32"
    using demo_boot_run by blast
  from boots_only_verified_image [OF sim_behaves demo_env_ok demo_fresh r(1) length_demo_data r(2)] r show ?thesis by auto
qed

theorem complete_flag_trustworthy_witness:
  "\<exists>s. upd_run sim_hw demo_env demo_start s \<and> hdr_complete (upd_mem sim_hw s) \<noteq> ERASED \<and> astate s = APP_IDLE \<and>
     MurmurHash3_x86_32 demo_img 0x32d0babe = hdr_fullhash (upd_mem sim_hw s)"
proof -
  obtain s s' where r: "upd_run sim_hw demo_env demo_start s"
    "updaterPacketProcess sim_hw demo_env (receive sim_hw demo_env demo_data s) = Some (BootedApp, s')"
    "mem_bytes (upd_mem sim_hw s') 0x5900 32 = demo_img" "hdr_complete (upd_mem sim_hw s') = 0" "hdr_length (upd_mem sim_hw s') = 32"
    using demo_boot_run by blast
  let ?s = "board_reset s'"
  have run: "upd_run sim_hw demo_env demo_start ?s" by (rule upd_run.reboot [OF r(1) length_demo_data r(2)]) simp
  have m: "upd_mem sim_hw ?s = upd_mem sim_hw s'" "astate ?s = APP_IDLE" by (simp_all add: board_reset_def)
  from complete_flag_trustworthy [OF sim_behaves demo_env_ok demo_fresh run] r run m show ?thesis by (intro exI [of _ ?s]) auto
qed

theorem damaged_packet_ignored_witness:
  "\<exists>s'. updaterPacketProcess sim_hw demo_env (receive sim_hw demo_env (demo_ctrl[4 := 33]) demo_start) = Some (Returned 0, s')"
proof -
  have len: "length demo_ctrl = 264" and v: "packet_valid 28 demo_ctrl"
    using demo_ctrl_announces by (simp_all add: announces_def)
  have b4: "demo_ctrl ! 4 = 32" by (simp add: demo_ctrl_def sealed_def word_bytes_def byte_of_def)
  have "take 32 demo_ctrl ! 4 \<noteq> take 32 (demo_ctrl[4 := 33]) ! 4" using len b4 by simp
  then have ne: "take 32 demo_ctrl \<noteq> take 32 (demo_ctrl[4 := 33])" by metis
  have "one_word_damaged 28 demo_ctrl (demo_ctrl[4 := 33])"
    unfolding one_word_damaged_def using len ne by (intro conjI exI [of _ 1]) (auto simp: nth_list_update)
  from damaged_packet_ignored [OF sim_behaves demo_env_ok fresh_inv [OF demo_fresh] v this] demo_start_idle
  show ?thesis by blast
qed

lemma block_55_programs:
  assumes "ftfx_documented hw idle" "env_ok e" "idle (dev (fl s))" "load32 (upd_mem hw s) 0x5900 = ERASED"
  shows "\<exists>t. program_block hw e 55 s = Some (F_ERR_RANGE, s\<lparr>fl := t\<rparr>) \<and>
    flash_mem hw t = put_bytes 0x5900 (word_bytes 0) (put_bytes (dummy_at e) (word_bytes 0) (upd_mem hw s))"
proof -
  have A: "blockmap_addr 55 = 0x5900" by (simp add: blockmap_addr_def)
  have eq: "i < 4 \<longleftrightarrow> i = 0 \<or> i = 1 \<or> i = 2 \<or> i = 3" for i :: nat by auto
  have bl: "flash_blank (upd_mem hw s) 0x5900 4"
    using assms(4) unfolding flash_blank_def eq by (auto simp: load32_def le32_erased)
  have a: "unat (0x5900 :: u32) + 4 < 2 ^ 32" by simp
  obtain t where t: "clear_word hw e 0x5900 s = Some (0, s\<lparr>fl := t\<rparr>)"
    "flash_mem hw t = put_bytes 0x5900 (word_bytes 0) (put_bytes (dummy_at e) (word_bytes 0) (upd_mem hw s))"
    by (rule clear_word_cases [OF assms(1,3,2) a]) (use bl in auto)
  have "flashProgram hw (pkt_at e + 4) (0x5900 + 55 * 256) 256 t = Some (F_ERR_RANGE, t)"
    by (simp add: flashProgram_def)
  then show ?thesis using t by (intro exI [of _ t]) (simp add: program_block_def A run_flash_def)
qed

text \<open>C38: The block number of a data packet is not checked against the size of the block map.  A data packet with a correct hash
  for block 55, received while a block of the program is still missing, makes \<^verbatim>\<open>updaterPacketProcess\<close> read the \<^verbatim>\<open>blockmap\<close> beyond its 40 entries and beyond the header:
  the word it then clears is the first word of the program area, if that was still to be written, and its own payload is refused as out of range.\<close>

theorem block_55_clears_program:
  assumes hw: "ftfx_documented hw idle" and e: "env_ok e" and inv: "upd_inv hw idle s"
    and st: "astate s = APP_UPDATING" "hdr_magic (upd_mem hw s) = 0x62696843"
    and p: "length p = 264" "hdr_type p = 0x02" "packet_valid 260 p" "data_block p = 55"
    and first: "load32 (upd_mem hw s) 0x5900 = ERASED"
    and missing: "b < 39" "b < unat (blocks_expected (hdr_length (upd_mem hw s)))" "hdr_blockmap (upd_mem hw s) (of_nat b) = ERASED"
  shows "\<exists>s'. updaterPacketProcess hw e (receive hw e p s) = Some (Returned F_ERR_RANGE, s') \<and>
    load32 (upd_mem hw s') 0x5900 = 0 \<and> astate s' = APP_UPDATING"
proof -
  note r = receive_inv [OF hw e inv p(1)]
  let ?s = "(set_leds [STATG False, STATR (\<not> led_state s)] (receive hw e p s))\<lparr>led_state := \<not> led_state s\<rparr>"
  have ram: "ram_range (pkt_at e) (length p)" using e p(1) by (simp add: env_ok_def)
  have d: "idle (dev (fl s))" using inv by (simp add: upd_inv_def)
  have m: "upd_mem hw (receive hw e p s) = put_bytes (pkt_at e) p (upd_mem hw s)"
    using bus_store_ram(2) [OF hw d ram] by (simp add: receive_def)
  have ap: "apart (pkt_at e) 264 a k" "apart (dummy_at e) 4 a k" if "unat a + k \<le> 0x8000" for a k
    using that e by (auto simp: env_ok_def intro: apart_sym ram_apart_flash)
  have H: "hdr_magic (upd_mem hw ?s) = 0x62696843" "hdr_length (upd_mem hw ?s) = hdr_length (upd_mem hw s)"
    using st(2) hdr_apart [OF ram_apart(1) [OF ram]] by (simp_all add: m)
  have f: "load32 (upd_mem hw ?s) 0x5900 = ERASED" using first p(1) ap(1) [of "0x5900" 4] by (simp add: m load32_apart)
  have "idle (dev (fl ?s))" using r(1) by (simp add: upd_inv_def)
  from block_55_programs [OF hw e this f] obtain t where t: "program_block hw e 55 ?s = Some (F_ERR_RANGE, ?s\<lparr>fl := t\<rparr>)"
    "flash_mem hw t = put_bytes 0x5900 (word_bytes 0) (put_bytes (dummy_at e) (word_bytes 0) (upd_mem hw ?s))" by blast
  have ba: "unat (blockmap_addr (of_nat b)) = 0x5824 + 4 * b" by (rule block_addr [OF missing(1)])
  have "apart 0x5900 4 (blockmap_addr (of_nat b)) 4" using missing(1) by (simp add: apart_def ba)
  then have "hdr_blockmap (flash_mem hw t) (of_nat b) = ERASED"
    using missing(1,3) p(1) ap [of "blockmap_addr (of_nat b)" 4] by (simp add: t(2) m hdr_blockmap_def load32_apart ba)
  moreover have "hdr_length (flash_mem hw t) = hdr_length (upd_mem hw s)"
    using H(2) hdr_dummy(2) [OF e] by (simp add: t(2) hdr_length_def load32_apart apart_def)
  ultimately have nd: "\<not> all_blocks_done (flash_mem hw t)" using missing(2) by (auto simp: all_blocks_done_def list_all_iff)
  have pk: "the_packet hw e ?s = p" using r(2) by (simp add: the_packet_def)
  have "hdr_blockmap (upd_mem hw ?s) 55 = ERASED" using f by (simp add: hdr_blockmap_def blockmap_addr_def)
  then have "process_updating hw e (receive hw e p s) = Some (Returned F_ERR_RANGE, ?s\<lparr>fl := t\<rparr>)"
    using H(1) pk p(2-4) t(1) nd r(4) by (simp add: process_updating_def Let_def packet_valid_def data_hash_def receive_def)
  then show ?thesis using st(1) r(4) t(2) by (simp add: updaterPacketProcess_def)
qed

theorem block_55_clears_program_witness:
  "\<exists>s s'. session sim_hw sim_idle demo_img {} s \<and>
     updaterPacketProcess sim_hw demo_env (receive sim_hw demo_env (sealed 260 ([2, 2, 55, 0] @ replicate 256 1)) s) = Some (Returned F_ERR_RANGE, s') \<and>
     load32 (upd_mem sim_hw s') 0x5900 = 0"
proof -
  obtain s where s: "upd_run sim_hw demo_env demo_start s" "session sim_hw sim_idle demo_img {} s" using demo_announced by blast
  have inv: "upd_inv sim_hw sim_idle s" by (rule upd_run_inv [OF s(1) sim_behaves demo_env_ok fresh_inv [OF demo_fresh]])
  let ?p = "sealed 260 ([2, 2, 55, 0] @ replicate 256 1)"
  have P: "header_for demo_img (upd_mem sim_hw s)" "block_empty (upd_mem sim_hw s) 0" "astate s = APP_UPDATING"
    using s(2) by (simp_all add: session_def partial_image_def)
  have E: "upd_mem sim_hw s (0x5900 + of_nat j) = 0xFF" if "j < 256" for j using P(2) that by (simp add: block_empty_def)
  have "load32 (upd_mem sim_hw s) 0x5900 = ERASED" using E [of 0] E [of 1] E [of 2] E [of 3] by (simp add: load32_def le32_erased)
  moreover have "packet_valid 260 ?p" "length ?p = 264" using sealed_valid [of "[2, 2, 55, 0] @ replicate 256 1" 260] by simp_all
  moreover have "hdr_type ?p = 0x02" "data_block ?p = 55" by (simp_all add: hdr_type_def data_block_def sealed_nth le16_def)
  moreover have "0 < unat (blocks_expected (hdr_length (upd_mem sim_hw s)))" "hdr_blockmap (upd_mem sim_hw s) (of_nat 0) = ERASED"
    "hdr_magic (upd_mem sim_hw s) = 0x62696843"
    using P(1,2) by (simp_all add: header_for_def block_empty_def length_demo_img blocks_expected_def)
  ultimately show ?thesis
    using block_55_clears_program [OF sim_behaves demo_env_ok inv P(3), of ?p 0] s(2) by auto
qed

text \<open>The number of blocks a transmission expects is the rounded-up quotient for every length from
  one on, but an announced length of zero makes the completeness test walk \<open>2 ^ 24\<close> entries.\<close>

theorem blocks_expected_values:
  "blocks_expected 0 = 0x1000000 \<and>
   (\<forall>n. 1 \<le> n \<and> n < 2 ^ 32 \<longrightarrow> unat (blocks_expected (of_nat n)) = (n + 255) div 256)"
proof (intro conjI allI impI)
  show "blocks_expected 0 = 0x1000000" by (simp add: blocks_expected_def)
  fix n :: nat assume "1 \<le> n \<and> n < 2 ^ 32"
  then show "unat (blocks_expected (of_nat n)) = (n + 255) div 256" using blocks_expected_len by simp
qed

theorem blocks_expected_values_witness: "unat (blocks_expected (of_nat 257)) = 2"
  using conjunct2 [OF blocks_expected_values, rule_format, of 257] by simp

end
