(* ===== verification/Main_Loop.thy ===== *)
theory Main_Loop
  imports Demodulator Updater
begin

text \<open>
  The bootloader's main thread, \<^verbatim>\<open>orchard/main.c\<close>: copying samples out of the double buffer, running the
  demodulator over them, undoing the baud striping of a received packet and handing it to the
  updater, and the decision to boot.  The loop is cut at its accesses to the variables it shares with the
  sampling interrupt, which may run between any two of them; \<open>boot_step\<close> is the resulting step relation.  It composes the models of the
  physical layer, the MAC layer and the updater.
\<close>

unbundle bit_operations_syntax

section \<open>Baud striping\<close>

text \<open>The byte xor'ed into position \<open>i\<close> of a data packet, by protocol version.\<close>

definition stripe :: "u8 \<Rightarrow> nat \<Rightarrow> u8" where
  "stripe version i =
     (if version = PKT_VER_1 then
        if i mod 16 = 7 then 0x55 else if i mod 16 = 15 then 0xAA else 0
      else if version = PKT_VER_2 then
        if i mod 3 = 0 then 0x35 else if i mod 3 = 1 then 0xac else 0x95
      else 0)"

definition unstripe :: "demod_pkt_t \<Rightarrow> demod_pkt_t" where
  "unstripe p =
     (if hdr_type p = PKTTYPE_DATA
      then fold (\<lambda>i q. q[i := q ! i XOR stripe (hdr_version q) i]) [2..<260] p
      else p)"

section \<open>The loop\<close>

text \<open>Where the loop is: at the top, at the test \<^verbatim>\<open>i < buf_n\<close>, before the load of \<^verbatim>\<open>bufloc\<close>, with that pointer loaded but the sample not
  yet copied, or before frame \<open>f\<close> of \<^verbatim>\<open>phy_demodulate\<close>.\<close>

datatype loop_pc = Top | Test nat | Fetch nat | Copy nat nat | Frame nat

record 'd boot =
  ana :: analog
  dm_buf :: "int list"
  dem :: "mac demod"
  updr :: "'d upd"
  pc :: loop_pc

text \<open>\<^verbatim>\<open>(int16_t) (((int16_t) bufloc[i]) - 2048)\<close>\<close>

definition dm_sample :: "u16 \<Rightarrow> int" where
  "dm_sample w = sint (word_of_int (sint w - 2048) :: u16)"

text \<open>The inner loop, entered while no packet is ready.\<close>

definition poll_flag :: "'d boot \<Rightarrow> 'd boot" where
  "poll_flag s = (if dataReadyFlag (ana s) \<noteq> 0 then s\<lparr>pc := Test 0\<rparr> else s)"

definition copy_test :: "nat \<Rightarrow> 'd boot \<Rightarrow> 'd boot" where
  "copy_test i s = (if i < buf_n (ana s) then s\<lparr>pc := Fetch i\<rparr> else s\<lparr>pc := Frame 0\<rparr>)"

definition copy_fetch :: "nat \<Rightarrow> 'd boot \<Rightarrow> 'd boot" where
  "copy_fetch i s = s\<lparr>pc := Copy i (bufloc (ana s))\<rparr>"

definition copy_sample :: "nat \<Rightarrow> nat \<Rightarrow> 'd boot \<Rightarrow> 'd boot option" where
  "copy_sample i b s =
     (if i < length (dm_buf s) \<and> b + i < length (mic_sample (ana s))
      then Some (s\<lparr>dm_buf := (dm_buf s)[i := dm_sample (mic_sample (ana s) ! (b + i))], pc := Test (i + 1)\<rparr>)
      else None)"

text \<open>One turn of the loop of \<^verbatim>\<open>phy_demodulate\<close>, and its end.  \<^verbatim>\<open>FSKdemod\<close> shares nothing with the interrupt.\<close>

definition phy_demodulate :: "FSK_demod_const \<Rightarrow> nat \<Rightarrow> 'd boot \<Rightarrow> 'd boot option" where
  "phy_demodulate k f s =
     (if f < 32 then
        if f * 8 + 8 \<le> length (dm_buf s)
        then map_option (\<lambda>d. s\<lparr>dem := d, pc := Frame (f + 1)\<rparr>)
               (FSKdemod k (astate (updr s) = APP_IDLE) putBitMac (take 8 (drop (f * 8) (dm_buf s))) (dem s))
        else None
      else Some (s\<lparr>ana := (ana s)\<lparr>dataReadyFlag := 0\<rparr>, pc := Top\<rparr>))"

definition loop_step :: "FSK_demod_const \<Rightarrow> 'd boot \<Rightarrow> 'd boot option" where
  "loop_step k s =
     (case pc s of
        Top \<Rightarrow> Some (poll_flag s)
      | Test i \<Rightarrow> Some (copy_test i s)
      | Fetch i \<Rightarrow> Some (copy_fetch i s)
      | Copy i b \<Rightarrow> copy_sample i b s
      | Frame f \<Rightarrow> phy_demodulate k f s)"

text \<open>The rest of the outer loop, once a packet is ready.  \<^verbatim>\<open>pkt\<close> and \<^verbatim>\<open>pktReady\<close> are shared with the MAC
  layer: the packet is unstriped in place, and the updater's reset of the flag is seen by the MAC.\<close>

definition handle_packet :: "'d ftfx \<Rightarrow> upd_env \<Rightarrow> 'd boot \<Rightarrow> (outcome \<times> 'd boot) option" where
  "handle_packet hw e s =
     (let m = sink (dem s);
          p = unstripe (pkt m);
          u = (store_ram hw (pkt_at e) p (updr s))\<lparr>pkt_ready := pktReady m\<rparr>
      in map_option (\<lambda>(r, u). (r, s\<lparr>dem := (dem s)\<lparr>sink := m\<lparr>pkt := p, pktReady := pkt_ready u\<rparr>\<rparr>, updr := u\<rparr>))
           (updaterPacketProcess hw e u))"

section \<open>Interleaving with the sampling interrupt\<close>

text \<open>\<open>adc_value\<close> is a 12-bit conversion result.\<close>

inductive boot_step ::
  "'d ftfx \<Rightarrow> upd_env \<Rightarrow> FSK_demod_const \<Rightarrow> 'd boot \<Rightarrow> 'd boot \<Rightarrow> bool" for hw e k where
  isr: "v < 4096 \<Longrightarrow> analog_fast_isr v (ana s) = Some a \<Longrightarrow> boot_step hw e k s (s\<lparr>ana := a\<rparr>)"
| loop: "pc s = Top \<longrightarrow> pktReady (sink (dem s)) = 0 \<Longrightarrow> loop_step k s = Some s' \<Longrightarrow> boot_step hw e k s s'"
| packet: "pc s = Top \<Longrightarrow> pktReady (sink (dem s)) \<noteq> 0 \<Longrightarrow> handle_packet hw e s = Some (Returned err, s') \<Longrightarrow>
     boot_step hw e k s s'"

inductive_cases boot_stepE: "boot_step hw e k s s'"

text \<open>The packet handler is one step because it does not touch the variables of the interrupt, so that an interrupt inside it has the same effect as
  one before it.\<close>

lemma handle_packet_isr:
  "handle_packet hw e (s\<lparr>ana := a\<rparr>) = map_option (\<lambda>(r, s). (r, s\<lparr>ana := a\<rparr>)) (handle_packet hw e s)"
  by (auto simp: handle_packet_def Let_def option.map_comp comp_def split_beta intro!: option.map_cong)

text \<open>The same holds for the turns of \<^verbatim>\<open>phy_demodulate\<close> that demodulate a frame.\<close>

lemma phy_demodulate_isr:
  "f < 32 \<Longrightarrow> phy_demodulate k f (s\<lparr>ana := a\<rparr>) = map_option (\<lambda>s. s\<lparr>ana := a\<rparr>) (phy_demodulate k f s)"
  by (cases s) (simp add: phy_demodulate_def option.map_comp comp_def)

text \<open>\<^verbatim>\<open>demod_thread\<close>: after the start-up delay, a user who does not hold the button (\<^verbatim>\<open>RESET_LEVEL\<close>, bit 7
  of port B) and has a valid application gets it booted.\<close>

definition boot_decision :: "u32 \<Rightarrow> mem \<Rightarrow> bool" where
  "boot_decision gpiob_pdir m \<longleftrightarrow> gpiob_pdir AND 0x80 \<noteq> 0 \<and> appIsValid m"

text \<open>\<^verbatim>\<open>blcrt_init\<close>, with the linker's symbols as arguments.\<close>

definition blcrt_init :: "u32 \<Rightarrow> u32 \<Rightarrow> u32 \<Rightarrow> u32 \<Rightarrow> u32 \<Rightarrow> mem \<Rightarrow> mem" where
  "blcrt_init textbldata_start bldata_start bldata_end blbss_start blbss_end m =
     memcpy bldata_start textbldata_start (bldata_end - bldata_start)
       (memset blbss_start 0 (blbss_end - blbss_start) m)"

lemma unstripe_fold:
  assumes "length p = 264" "n \<le> 260" "2 \<le> n"
  shows "let q = fold (\<lambda>i q. q[i := q ! i XOR stripe (hdr_version q) i]) [2..<n] p in
    length q = 264 \<and> (\<forall>j < 264. q ! j = (if 2 \<le> j \<and> j < n then p ! j XOR stripe (hdr_version p) j else p ! j))"
  using assms(3,2)
proof (induction n rule: dec_induct)
  case base
  then show ?case using assms(1) by auto
next
  case (step n)
  let ?q = "fold (\<lambda>i q. q[i := q ! i XOR stripe (hdr_version q) i]) [2..<n] p"
  have q: "length ?q = 264" "\<forall>j < 264. ?q ! j = (if 2 \<le> j \<and> j < n then p ! j XOR stripe (hdr_version p) j else p ! j)"
    using step by (simp_all add: Let_def)
  have "hdr_version ?q = hdr_version p" using q by (simp add: hdr_version_def)
  then show ?case using q step.hyps step.prems by (auto simp: Let_def nth_list_update)
qed

lemma unstripe_nth:
  assumes "length p = 264" "j < 264"
  shows "unstripe p ! j =
    (if hdr_type p = 0x02 \<and> 2 \<le> j \<and> j < 260 then p ! j XOR stripe (hdr_version p) j else p ! j)"
  using unstripe_fold [OF assms(1), of 260] assms(2) by (simp add: unstripe_def Let_def del: upt_rec_numeral)

lemma length_unstripe: "length p = 264 \<Longrightarrow> length (unstripe p) = 264"
  using unstripe_fold [of p 260] by (simp add: unstripe_def Let_def del: upt_rec_numeral)

lemma unstripe_header:
  assumes "length p = 264"
  shows "hdr_type (unstripe p) = hdr_type p" "hdr_version (unstripe p) = hdr_version p"
    "packet_length (unstripe p) = packet_length p"
proof -
  show a: "hdr_type (unstripe p) = hdr_type p" "hdr_version (unstripe p) = hdr_version p"
    using assms by (simp_all add: hdr_type_def hdr_version_def unstripe_nth)
  show "packet_length (unstripe p) = packet_length p" by (simp add: packet_length_def a)
qed

text \<open>Striping is undone by the very same pass.  Unstriping is an involution on packet buffers, so a
  sender that stripes with the same function is understood; it keeps the header and the
  packet hash in place, and leaves control packets alone.\<close>

theorem unstripe_involution:
  assumes "length p = 264"
  shows "unstripe (unstripe p) = p \<and> take 2 (unstripe p) = take 2 p \<and> drop 260 (unstripe p) = drop 260 p \<and>
    (hdr_type p \<noteq> 0x02 \<longrightarrow> unstripe p = p)"
proof (intro conjI impI)
  note l = length_unstripe [OF assms] unstripe_header [OF assms]
  show "unstripe (unstripe p) = p"
    by (rule nth_equalityI) (simp_all add: l length_unstripe unstripe_nth assms xor.assoc)
  show "take 2 (unstripe p) = take 2 p"
    by (rule nth_equalityI) (simp_all add: l assms unstripe_nth)
  show "drop 260 (unstripe p) = drop 260 p"
    by (rule nth_equalityI) (simp_all add: l assms unstripe_nth)
qed (simp add: unstripe_def)

theorem unstripe_involution_witness: "unstripe (unstripe demo_data) = demo_data"
  using unstripe_involution [of demo_data] demo_data_carries by (simp add: carries_def)

section \<open>The physical layer drives the MAC layer\<close>

interpretation mac: bit_sink putBitMac mac_inv
  by unfold_locales (use putBitMac_step in blast)

lemma dm_sample_range:
  assumes "w < (4096 :: u16)"
  shows "adc_range (dm_sample w)" "dm_sample w = int (unat w) - 2048"
proof -
  have u: "unat w < 4096" using assms by (simp add: word_less_nat_alt)
  have "\<not> bit w 15"
    using bit_unsigned_iff [where 'a = nat, of w 15] u by (simp add: bit_iff_odd)
  then have s: "sint w = int (unat w)" by (simp add: sint_eq_uint_bit)
  show eq: "dm_sample w = int (unat w) - 2048"
  proof -
    have "int (unat w) < 4096" using u by linarith
    then have "uint w < 4096" by simp
    then have "signed_take_bit 15 (uint w - 2048) = uint w - 2048"
      by (intro signed_take_bit_int_eq_self) simp_all
    then show ?thesis unfolding dm_sample_def s signed_of_int by simp
  qed
  show "adc_range (dm_sample w)" using u unfolding eq adc_range_def by linarith
qed


section \<open>Invariant of the bootloader\<close>

definition analog_inv :: "analog \<Rightarrow> bool" where
  "analog_inv a \<longleftrightarrow> length (mic_sample a) = 512 \<and> adc_current_index a < 512 \<and> (\<forall>v \<in> set (mic_sample a). v < 4096) \<and>
     buf_n a \<le> 256 \<and> bufloc a \<le> 256"

text \<open>What the loop may rely on at each place, whatever the interrupt does in between.\<close>

fun pc_inv :: "loop_pc \<Rightarrow> bool" where
  "pc_inv Top \<longleftrightarrow> True"
| "pc_inv (Test i) \<longleftrightarrow> i \<le> 256"
| "pc_inv (Fetch i) \<longleftrightarrow> i < 256"
| "pc_inv (Copy i b) \<longleftrightarrow> i < 256 \<and> b \<le> 256"
| "pc_inv (Frame f) \<longleftrightarrow> f \<le> 32"

definition boot_inv :: "'d ftfx \<Rightarrow> ('d \<Rightarrow> bool) \<Rightarrow> 'd boot \<Rightarrow> bool" where
  "boot_inv hw idle s \<longleftrightarrow> analog_inv (ana s) \<and> length (dm_buf s) = 256 \<and> (\<forall>x \<in> set (dm_buf s). adc_range x) \<and>
     demod_inv (fsk_state (dem s)) \<and> mac_inv (sink (dem s)) \<and> upd_inv hw idle (updr s) \<and> pc_inv (pc s)"

lemma analog_isr_inv:
  assumes "analog_inv a" "v < 4096"
  shows "\<exists>a'. analog_fast_isr v a = Some a' \<and> analog_inv a'"
proof -
  have "\<forall>w \<in> set ((mic_sample a)[adc_current_index a := v]). w < 4096"
    using assms set_update_subset_insert by (fastforce simp: analog_inv_def)
  then show ?thesis
    using assms(1) by (auto simp: analog_inv_def analog_fast_isr_def Let_def)
qed

lemma copy_sample_inv:
  assumes "boot_inv hw idle s" "i < 256" "b \<le> 256"
  shows "\<exists>s'. copy_sample i b s = Some s' \<and> boot_inv hw idle s'"
proof -
  let ?v = "dm_sample (mic_sample (ana s) ! (b + i))"
  have "b + i < length (mic_sample (ana s))" using assms by (simp add: boot_inv_def analog_inv_def)
  moreover from this have "adc_range ?v"
    using assms(1) by (intro dm_sample_range) (simp add: boot_inv_def analog_inv_def)
  then have "\<forall>x \<in> set ((dm_buf s)[i := ?v]). adc_range x"
    using assms(1) set_update_subset_insert by (fastforce simp: boot_inv_def)
  ultimately show ?thesis using assms by (simp add: copy_sample_def boot_inv_def)
qed

lemma phy_demodulate_inv:
  assumes "dsp_tables_ok k" "boot_inv hw idle s" "f \<le> 32"
  shows "\<exists>s'. phy_demodulate k f s = Some s' \<and> boot_inv hw idle s'"
proof (cases "f < 32")
  case True
  have b: "length (dm_buf s) = 256" "\<forall>x \<in> set (dm_buf s). adc_range x" "demod_inv (fsk_state (dem s))" "mac_inv (sink (dem s))"
    using assms(2) by (simp_all add: boot_inv_def)
  have "\<forall>x \<in> set (take 8 (drop (f * 8) (dm_buf s))). adc_range x" using b(2) by (meson in_set_dropD in_set_takeD)
  from mac.FSKdemod_total [OF assms(1) b(3,4) this] show ?thesis
    using True b(1) assms(2) by (fastforce simp: phy_demodulate_def boot_inv_def)
next
  case False
  then show ?thesis using assms(2) by (simp add: phy_demodulate_def boot_inv_def analog_inv_def)
qed

lemma loop_step_inv:
  assumes "dsp_tables_ok k" "boot_inv hw idle s"
  shows "\<exists>s'. loop_step k s = Some s' \<and> boot_inv hw idle s'"
proof (cases "pc s")
  case (Copy i b)
  then show ?thesis using copy_sample_inv [OF assms(2), of i b] assms(2) by (simp add: loop_step_def boot_inv_def)
next
  case (Frame f)
  then show ?thesis using phy_demodulate_inv [OF assms, of f] assms(2) by (simp add: loop_step_def boot_inv_def)
qed (use assms(2) in \<open>auto simp: loop_step_def boot_inv_def analog_inv_def poll_flag_def copy_test_def copy_fetch_def\<close>)

lemma handle_packet_inv:
  assumes hw: "ftfx_documented hw idle" and e: "env_ok e" and s: "boot_inv hw idle s"
  shows "\<exists>r s'. handle_packet hw e s = Some (r, s') \<and> boot_inv hw idle s'"
proof -
  let ?m = "sink (dem s)" and ?p = "unstripe (pkt (sink (dem s)))"
  have len: "length (pkt ?m) = 264" using s by (simp add: boot_inv_def mac_inv_def)
  let ?u = "(store_ram hw (pkt_at e) ?p (updr s))\<lparr>pkt_ready := pktReady ?m\<rparr>"
  have "upd_inv hw idle (updr s)" using s by (simp add: boot_inv_def)
  from receive_inv(1) [OF hw e this length_unstripe [OF len]]
  have "upd_inv hw idle ?u" by (simp add: receive_def)
  from updater_post [OF hw e this] obtain r u where
    u: "updaterPacketProcess hw e ?u = Some (r, u)" "upd_inv hw idle u"
    by (auto simp: upd_post_def split: option.splits)
  have "mac_inv (?m\<lparr>pkt := ?p, pktReady := v\<rparr>)" for v
    using s length_unstripe [OF len] unstripe_header(3) [OF len]
    by (auto simp: boot_inv_def mac_inv_def split: mac_state_t.splits)
  then show ?thesis
    using u s by (simp add: handle_packet_def Let_def boot_inv_def)
qed

lemma boot_step_inv:
  assumes "boot_step hw e k s s'" "ftfx_documented hw idle" "env_ok e" "dsp_tables_ok k" "boot_inv hw idle s"
  shows "boot_inv hw idle s'"
  using assms(1)
proof (cases rule: boot_step.cases)
  case (isr v a)
  then show ?thesis using analog_isr_inv [of "ana s" v] assms(5) by (auto simp: boot_inv_def)
next
  case loop
  then show ?thesis using loop_step_inv [OF assms(4,5)] by auto
next
  case (packet err)
  then show ?thesis using handle_packet_inv [OF assms(2,3,5)] by auto
qed

definition boot_start :: "FSK_demod_const \<Rightarrow> 'd upd \<Rightarrow> 'd boot" where
  "boot_start k u = \<lparr>ana = analog_init, dm_buf = replicate 256 0, dem = demod_start k mac_init, updr = u, pc = Top\<rparr>"

lemma boot_start_inv:
  assumes "dsp_tables_ok k" "fresh hw idle u"
  shows "boot_inv hw idle (boot_start k u)"
  using demod_start_inv [OF assms(1), where m = mac_init] mac_inv_init fresh_inv [OF assms(2)]
  by (simp add: boot_start_def boot_inv_def analog_inv_def analog_init_def adc_range_def)

lemma boot_reach_inv:
  assumes "(boot_step hw e k)\<^sup>*\<^sup>* s0 s" "ftfx_documented hw idle" "env_ok e" "dsp_tables_ok k" "boot_inv hw idle s0"
  shows "boot_inv hw idle s"
  using assms(1) by (induction rule: rtranclp_induct) (use assms boot_step_inv in blast)+

text \<open>C4: The buffers of the receiver are never overrun and the boot loader never gets stuck.  However the interrupts that deliver the 12-bit samples
  interleave with the accesses of the main loop, in every state reachable from power-on neither the interrupt, nor the copy loop, nor the demodulator, nor
  the MAC layer it drives reads or writes outside the sample buffers, the filter buffer or the packet, the call that handles a packet
  ends, and the invariants of the four layers hold.  The block map in flash is not among these arrays: its index is not checked.\<close>

theorem bootloader_never_faults:
  assumes "ftfx_documented hw idle" "env_ok e" "dsp_tables_ok k" "fresh hw idle u"
    "(boot_step hw e k)\<^sup>*\<^sup>* (boot_start k u) s"
  shows "boot_inv hw idle s \<and> (\<forall>v < 4096. analog_fast_isr v (ana s) \<noteq> None) \<and> loop_step k s \<noteq> None \<and>
    handle_packet hw e s \<noteq> None"
proof -
  have i: "boot_inv hw idle s"
    by (rule boot_reach_inv [OF assms(5,1-3) boot_start_inv [OF assms(3,4)]])
  have "analog_inv (ana s)" using i by (simp add: boot_inv_def)
  then show ?thesis
    using i analog_isr_inv loop_step_inv [OF assms(3) i] handle_packet_inv [OF assms(1,2) i] by auto
qed

text \<open>A run in which the interrupt fills the first half of the buffer and strikes again between the load of the pointer and the copy of the
  first sample.\<close>

lemma isr_run:
  "analog_run vs (ana s) = Some a \<Longrightarrow> \<forall>v \<in> set vs. v < 4096 \<Longrightarrow> (boot_step hw e k)\<^sup>*\<^sup>* s (s\<lparr>ana := a\<rparr>)"
proof (induction vs arbitrary: s)
  case Nil
  then have "s\<lparr>ana := a\<rparr> = s" by (cases s) simp
  then show ?case by simp
next
  case (Cons v vs)
  then obtain a1 where a1: "analog_fast_isr v (ana s) = Some a1" "analog_run vs a1 = Some a" by (auto split: Option.bind_splits)
  then have "boot_step hw e k s (s\<lparr>ana := a1\<rparr>)" using Cons.prems(2) by (intro boot_step.isr) auto
  moreover have "(boot_step hw e k)\<^sup>*\<^sup>* (s\<lparr>ana := a1\<rparr>) (s\<lparr>ana := a1, ana := a\<rparr>)" using Cons.IH [of "s\<lparr>ana := a1\<rparr>"] Cons.prems(2) a1(2) by simp
  ultimately show ?case by (simp add: converse_rtranclp_into_rtranclp)
qed

lemma demo_half_full:
  "\<exists>a. analog_run (replicate 256 7) analog_init = Some a \<and> dataReadyFlag a = 1 \<and> buf_n a = 256 \<and> bufloc a = 0"
proof -
  have "replicate 256 7 = replicate 255 7 @ [7 :: u16]" using replicate_add [of 255 1 "7 :: u16"] by simp
  then show ?thesis
    using analog_fill [of analog_init 0 "replicate 255 7"]
    by (simp add: analog_run_append analog_init_def analog_fast_isr_def Let_def)
qed

theorem bootloader_never_faults_witness:
  "\<exists>s. (boot_step sim_hw demo_env example_tables)\<^sup>*\<^sup>* (boot_start example_tables demo_start) s \<and> pc s = Copy 0 0 \<and>
    loop_step example_tables s \<noteq> None"
proof -
  let ?R = "boot_step sim_hw demo_env example_tables" and ?s = "boot_start example_tables demo_start"
  obtain a where a: "analog_run (replicate 256 7) analog_init = Some a" "dataReadyFlag a = 1" "buf_n a = 256" "bufloc a = 0"
    using demo_half_full by blast
  have "?R\<^sup>*\<^sup>* ?s (?s\<lparr>ana := a\<rparr>)" by (rule isr_run [of "replicate 256 7"]) (use a(1) in \<open>simp_all add: boot_start_def\<close>)
  moreover have "?R (?s\<lparr>ana := a\<rparr>) (?s\<lparr>ana := a, pc := Test 0\<rparr>)"
    by (rule boot_step.loop) (use a(2) in \<open>simp_all add: boot_start_def loop_step_def poll_flag_def demod_start_def mac_init_def\<close>)
  moreover have "?R (?s\<lparr>ana := a, pc := Test 0\<rparr>) (?s\<lparr>ana := a, pc := Fetch 0\<rparr>)"
    by (rule boot_step.loop) (use a(3) in \<open>simp_all add: boot_start_def loop_step_def copy_test_def\<close>)
  moreover have "?R (?s\<lparr>ana := a, pc := Fetch 0\<rparr>) (?s\<lparr>ana := a, pc := Copy 0 0\<rparr>)"
    by (rule boot_step.loop) (use a(4) in \<open>simp_all add: boot_start_def loop_step_def copy_fetch_def\<close>)
  ultimately have r: "?R\<^sup>*\<^sup>* ?s (?s\<lparr>ana := a, pc := Copy 0 0\<rparr>)" by (meson rtranclp.rtrancl_into_rtrancl)
  then obtain a' where "analog_fast_isr 9 a = Some a'"
    using bootloader_never_faults [OF sim_behaves demo_env_ok example_tables_ok demo_fresh r] by fastforce
  then have "?R (?s\<lparr>ana := a, pc := Copy 0 0\<rparr>) (?s\<lparr>ana := a, pc := Copy 0 0, ana := a'\<rparr>)" by (intro boot_step.isr) simp_all
  with r have r': "?R\<^sup>*\<^sup>* ?s (?s\<lparr>ana := a, pc := Copy 0 0, ana := a'\<rparr>)" by (rule rtranclp.rtrancl_into_rtrancl)
  with bootloader_never_faults [OF sim_behaves demo_env_ok example_tables_ok demo_fresh r'] show ?thesis
    by (intro exI [of _ "?s\<lparr>ana := a, pc := Copy 0 0, ana := a'\<rparr>"]) simp
qed

end
