(* ===== verification/App_Heap.thy ===== *)
theory App_Heap
  imports LTC_Prelude C_Library
begin

text \<open>
  Dynamic memory: the core allocator \<^verbatim>\<open>os/rt/src/chmemcore.c\<close>, the first-fit heap
  \<^verbatim>\<open>os/rt/src/chheap.c\<close> and the application's \<^verbatim>\<open>malloc\<close>, \<^verbatim>\<open>free\<close> and \<^verbatim>\<open>realloc\<close> in
  \<^verbatim>\<open>orchard/esplanade_app.c\<close>.

  A \<^verbatim>\<open>union heap_header\<close> is eight bytes: a word that links free blocks (or names the owning heap of an
  allocated one) and a word with the size.  The free list lives in the byte memory, as in the code;
  the theorems relate it to a list of blocks.  The heap's mutex is not part of this state.
  Walking a corrupted (cyclic) list may not end; then the result is \<open>None\<close>.
\<close>

unbundle bit_operations_syntax

section \<open>Alignment (chmemcore.h)\<close>

definition MEM_ALIGN_PREV :: "u32 \<Rightarrow> u32" where
  "MEM_ALIGN_PREV p = p AND NOT 7"

definition MEM_ALIGN_NEXT :: "u32 \<Rightarrow> u32" where
  "MEM_ALIGN_NEXT p = MEM_ALIGN_PREV (p + 7)"

section \<open>The core allocator (chmemcore.c)\<close>

record core =
  nextmem :: u32
  endmem :: u32

text \<open>\<^verbatim>\<open>__heap_base__\<close> and \<^verbatim>\<open>__heap_end__\<close> come from the linker.\<close>

definition core_init :: "u32 \<Rightarrow> u32 \<Rightarrow> core" where
  "core_init heap_base heap_end = \<lparr>nextmem = MEM_ALIGN_NEXT heap_base, endmem = MEM_ALIGN_PREV heap_end\<rparr>"

definition chCoreAllocI :: "u32 \<Rightarrow> core \<Rightarrow> u32 \<times> core" where
  "chCoreAllocI req c =
     (let req = MEM_ALIGN_NEXT req
      in if endmem c - nextmem c < req then (0, c)
         else (nextmem c, c\<lparr>nextmem := nextmem c + req\<rparr>))"

definition chCoreAlloc :: "u32 \<Rightarrow> core \<Rightarrow> u32 \<times> core" where
  "chCoreAlloc req c = chCoreAllocI req c"

definition chCoreGetStatusX :: "core \<Rightarrow> u32" where
  "chCoreGetStatusX c = endmem c - nextmem c"

section \<open>The heap (chheap.c)\<close>

text \<open>A heap descriptor: where its \<^verbatim>\<open>h_free\<close> header lies, its own address (stored in allocated
  headers), and whether its provider is \<^verbatim>\<open>chCoreAlloc\<close> or \<^verbatim>\<open>NULL\<close>.\<close>

record memory_heap_t =
  heap_id :: u32
  h_free :: u32
  h_provider :: bool

record heap_st =
  hmem :: mem
  hcore :: core

abbreviation (input) HEADER :: u32 where "HEADER \<equiv> 8"

definition get_next :: "mem \<Rightarrow> u32 \<Rightarrow> u32" where "get_next m p = load32 m p"
definition get_size :: "mem \<Rightarrow> u32 \<Rightarrow> u32" where "get_size m p = load32 m (p + 4)"
definition set_next :: "u32 \<Rightarrow> u32 \<Rightarrow> mem \<Rightarrow> mem" where "set_next p v m = store32 p v m"
definition set_size :: "u32 \<Rightarrow> u32 \<Rightarrow> mem \<Rightarrow> mem" where "set_size p v m = store32 (p + 4) v m"

definition LIMIT :: "mem \<Rightarrow> u32 \<Rightarrow> u32" where
  "LIMIT m p = p + HEADER + get_size m p"

definition heap_init :: "u32 \<Rightarrow> u32 \<Rightarrow> mem \<Rightarrow> memory_heap_t \<times> mem" where
  "heap_init default_heap hf m =
     (\<lparr>heap_id = default_heap, h_free = hf, h_provider = True\<rparr>, set_size hf 0 (set_next hf 0 m))"

definition chHeapObjectInit :: "u32 \<Rightarrow> u32 \<Rightarrow> u32 \<Rightarrow> u32 \<Rightarrow> mem \<Rightarrow> memory_heap_t \<times> mem" where
  "chHeapObjectInit heapp hf buf req m =
     (\<lparr>heap_id = heapp, h_free = hf, h_provider = False\<rparr>,
      set_size buf (req - HEADER) (set_next buf 0 (set_size hf 0 (set_next hf buf m))))"

text \<open>Taking \<open>hp\<close>, the successor of \<open>qp\<close>, off the list, splitting it when it is big enough.\<close>

definition take_block :: "memory_heap_t \<Rightarrow> u32 \<Rightarrow> u32 \<Rightarrow> u32 \<Rightarrow> mem \<Rightarrow> mem" where
  "take_block heapp qp hp req m =
     (let m = (if get_size m hp < req + HEADER
               then set_next qp (get_next m hp) m
               else
                 let fp = hp + HEADER + req;
                     m = set_next fp (get_next m hp) m;
                     m = set_size fp ((get_size m hp - HEADER) - req) m;
                     m = set_next qp fp m
                 in set_size hp req m)
      in set_next hp (heap_id heapp) m)"

partial_function (option) alloc_loop ::
  "memory_heap_t \<Rightarrow> u32 \<Rightarrow> u32 \<Rightarrow> mem \<Rightarrow> (u32 \<times> mem) option" where
  "alloc_loop heapp req qp m =
     (if get_next m qp \<noteq> 0 then
        let hp = get_next m qp
        in if get_size m hp \<ge> req then Some (hp + HEADER, take_block heapp qp hp req m)
           else alloc_loop heapp req hp m
      else Some (0, m))"

definition chHeapAlloc :: "memory_heap_t \<Rightarrow> u32 \<Rightarrow> heap_st \<Rightarrow> (u32 \<times> heap_st) option" where
  "chHeapAlloc heapp req s =
     (let req = MEM_ALIGN_NEXT req
      in case alloc_loop heapp req (h_free heapp) (hmem s) of
           None \<Rightarrow> None
         | Some (p, m) \<Rightarrow>
           if p \<noteq> 0 then Some (p, s\<lparr>hmem := m\<rparr>)
           else if h_provider heapp then
             let (hp, c) = chCoreAlloc (req + HEADER) (hcore s)
             in if hp \<noteq> 0
                then Some (hp + HEADER, s\<lparr>hmem := set_size hp req (set_next hp (heap_id heapp) m), hcore := c\<rparr>)
                else Some (0, s\<lparr>hmem := m, hcore := c\<rparr>)
           else Some (0, s\<lparr>hmem := m\<rparr>))"

text \<open>Insertion after \<open>qp\<close> and the two possible merges.\<close>

definition insert_block :: "u32 \<Rightarrow> u32 \<Rightarrow> mem \<Rightarrow> mem" where
  "insert_block qp hp m =
     (let m = set_next hp (get_next m qp) m;
          m = set_next qp hp m;
          m = (if LIMIT m hp = get_next m hp then
                 let nx = get_next m hp;
                     m = set_size hp (get_size m hp + (get_size m nx + HEADER)) m
                 in set_next hp (get_next m nx) m
               else m)
      in if LIMIT m qp = hp then
           let m = set_size qp (get_size m qp + (get_size m hp + HEADER)) m
           in set_next qp (get_next m hp) m
         else m)"

partial_function (option) free_loop :: "u32 \<Rightarrow> u32 \<Rightarrow> u32 \<Rightarrow> mem \<Rightarrow> mem option" where
  "free_loop hf hp qp m =
     (if (qp = hf \<or> hp > qp) \<and> (get_next m qp = 0 \<or> hp < get_next m qp)
      then Some (insert_block qp hp m)
      else free_loop hf hp (get_next m qp) m)"

text \<open>The owning heap is found through the header; \<open>hf_of\<close> gives its \<^verbatim>\<open>h_free\<close>.\<close>

definition chHeapFree :: "(u32 \<Rightarrow> u32) \<Rightarrow> u32 \<Rightarrow> heap_st \<Rightarrow> heap_st option" where
  "chHeapFree hf_of p s =
     (let hp = p - HEADER;
          hf = hf_of (get_next (hmem s) hp)
      in map_option (\<lambda>m. s\<lparr>hmem := m\<rparr>) (free_loop hf hp hf (hmem s)))"

partial_function (option) status_loop :: "u32 \<Rightarrow> u32 \<Rightarrow> u32 \<Rightarrow> mem \<Rightarrow> (u32 \<times> u32) option" where
  "status_loop qp n sz m =
     (if get_next m qp \<noteq> 0
      then status_loop (get_next m qp) (n + 1) (sz + get_size m (get_next m qp)) m
      else Some (n, sz))"

definition chHeapStatus :: "memory_heap_t \<Rightarrow> heap_st \<Rightarrow> (u32 \<times> u32) option" where
  "chHeapStatus heapp s = status_loop (h_free heapp) 0 0 (hmem s)"

section \<open>malloc, free, realloc (esplanade_app.c)\<close>

definition malloc :: "memory_heap_t \<Rightarrow> u32 \<Rightarrow> heap_st \<Rightarrow> (u32 \<times> heap_st) option" where
  "malloc app_heap req s = chHeapAlloc app_heap req s"

definition app_free :: "(u32 \<Rightarrow> u32) \<Rightarrow> u32 \<Rightarrow> heap_st \<Rightarrow> heap_st option" where
  "app_free hf_of ptr s = (if ptr \<noteq> 0 then chHeapFree hf_of ptr s else Some s)"

definition realloc ::
  "memory_heap_t \<Rightarrow> (u32 \<Rightarrow> u32) \<Rightarrow> u32 \<Rightarrow> u32 \<Rightarrow> heap_st \<Rightarrow> (u32 \<times> heap_st) option" where
  "realloc app_heap hf_of addr req s =
     (if addr = 0 then chHeapAlloc app_heap req s
      else
        let prev_size = get_size (hmem s) (addr - HEADER);
            new_size = (if req mod 8 = 0 then req else (req div 8) * 8 + 8)
        in if prev_size \<ge> new_size then Some (addr, s)
           else case chHeapAlloc app_heap req s of
                  None \<Rightarrow> None
                | Some (ptr, s) \<Rightarrow>
                  if ptr = 0 then Some (0, s)
                  else
                    let s = s\<lparr>hmem := memcpy ptr addr prev_size (hmem s)\<rparr>
                    in map_option (\<lambda>s. (ptr, s)) (chHeapFree hf_of addr s))"

section \<open>Aligned headers do not overlap\<close>

definition al8 :: "u32 \<Rightarrow> bool" where "al8 p \<longleftrightarrow> unat p mod 8 = 0"

lemma al8_add: "al8 a \<Longrightarrow> al8 b \<Longrightarrow> al8 (a + b)"
  by (simp add: al8_def unat_word_ariths mod_mod_cancel) (metis dvd_add mod_0_imp_dvd dvd_imp_mod_0 mod_eq_0_iff_dvd)

lemma al8_8 [simp]: "al8 8" and al8_0 [simp]: "al8 0"
  by (simp_all add: al8_def)

lemma al8_diff: "al8 a \<Longrightarrow> al8 b \<Longrightarrow> b \<le> a \<Longrightarrow> al8 (a - b)"
  unfolding al8_def by (simp add: unat_sub) (metis dvd_diff_nat mod_0_imp_dvd mod_eq_0_iff_dvd)

lemma al8_mult: "al8 p \<Longrightarrow> \<exists>k. unat p = 8 * k \<and> k < 2 ^ 29"
  using unat_u32_lt [of p] unfolding al8_def by (auto elim!: dvdE simp flip: dvd_eq_mod_eq_0)

lemma al8_bound: "al8 p \<Longrightarrow> unat p + 8 \<le> 2 ^ 32"
  using al8_mult [of p] by auto

lemma al8_word: "al8 p \<Longrightarrow> unat (p + 4) = unat p + 4"
  using al8_bound [of p] unat_offset [of p 4] by simp

lemma al8_apart:
  assumes "al8 p" "al8 q" "p \<noteq> q"
  shows "apart p 8 q 8"
proof -
  obtain j k where jk: "unat p = 8 * j" "unat q = 8 * k" using al8_mult assms(1,2) by blast
  then have "j \<noteq> k" using assms(3) by (auto simp: word_unat_eq_iff)
  then have "unat p + 8 \<le> unat q \<or> unat q + 8 \<le> unat p" using jk by linarith
  then show ?thesis using al8_bound assms(1,2) by (simp add: apart_def)
qed

text \<open>Two words of aligned headers that are not the same word lie apart.\<close>

lemma header_words_apart:
  assumes "al8 p" "al8 q"
  shows "p \<noteq> q \<Longrightarrow> apart p 4 q 4" "apart p 4 (q + 4) 4" "apart (p + 4) 4 q 4" "p \<noteq> q \<Longrightarrow> apart (p + 4) 4 (q + 4) 4"
  using al8_apart [OF assms] al8_word [OF assms(1)] al8_word [OF assms(2)] al8_bound [OF assms(1)] al8_bound [OF assms(2)]
  unfolding apart_def by (cases "p = q"; auto)+

lemma load32_store32_apart: "apart a 4 b 4 \<Longrightarrow> load32 (store32 a w m) b = load32 m b"
proof -
  assume x: "apart a 4 b 4"
  have l: "length (map (byte_of w) [0, 1, 2, 3]) = 4" by simp
  show "load32 (store32 a w m) b = load32 m b"
    unfolding store32_put_bytes by (rule load32_apart; unfold l) (rule x)
qed

lemma store32_outside: "\<not> in_range x a 4 \<Longrightarrow> store32 a w m x = m x"
proof -
  assume x: "\<not> in_range x a 4"
  have l: "length (map (byte_of w) [0, 1, 2, 3]) = 4" by simp
  show "store32 a w m x = m x"
    unfolding store32_put_bytes by (rule put_bytes_outside; unfold l) (simp, rule x)
qed

lemma header_get_set:
  assumes "al8 p" "al8 q"
  shows "get_next (set_next p v m) q = (if p = q then v else get_next m q)"
    "get_next (set_size p v m) q = get_next m q"
    "get_size (set_size p v m) q = (if p = q then v else get_size m q)"
    "get_size (set_next p v m) q = get_size m q"
proof -
  note w = header_words_apart [OF assms, THEN load32_store32_apart]
  show "get_next (set_next p v m) q = (if p = q then v else get_next m q)"
    using w(1) by (auto simp: get_next_def set_next_def)
  show "get_next (set_size p v m) q = get_next m q"
    using w(3) by (simp add: get_next_def set_size_def)
  show "get_size (set_size p v m) q = (if p = q then v else get_size m q)"
    using w(4) by (auto simp: get_size_def set_size_def)
  show "get_size (set_next p v m) q = get_size m q"
    using w(2) by (simp add: get_size_def set_next_def)
qed

lemma set_outside:
  assumes "\<not> in_range x p 8" "al8 p"
  shows "set_next p v m x = m x" "set_size p v m x = m x"
proof -
  have b: "unat p + 8 \<le> 2 ^ 32" "unat (p + 4) = unat p + 4"
    using al8_word [OF assms(2)] al8_bound [OF assms(2)] by simp_all
  have "\<not> in_range x p 4" "\<not> in_range x (p + 4) 4"
    using assms(1) b by (auto simp: in_range_unat)
  then show "set_next p v m x = m x" "set_size p v m x = m x"
    by (simp_all add: set_next_def set_size_def store32_outside)
qed

lemma get_cong:
  assumes "\<And>x. in_range x p 8 \<Longrightarrow> m' x = m x"
  shows "get_next m' p = get_next m p" "get_size m' p = get_size m p"
proof -
  have "m' (p + of_nat i) = m (p + of_nat i)" if "i < 8" for i
    using assms in_range_offset [OF that, of p] by simp
  from this [of 0] this [of 1] this [of 2] this [of 3] this [of 4] this [of 5] this [of 6] this [of 7]
  show "get_next m' p = get_next m p" "get_size m' p = get_size m p"
    by (simp_all add: get_next_def get_size_def load32_def add.assoc)
qed

section \<open>The free list as a list of blocks\<close>

type_synonym block = "u32 \<times> u32"

fun chain :: "mem \<Rightarrow> u32 \<Rightarrow> block list \<Rightarrow> bool" where
  "chain m p [] \<longleftrightarrow> get_next m p = 0"
| "chain m p ((a, z) # bs) \<longleftrightarrow> get_next m p = a \<and> a \<noteq> 0 \<and> get_size m a = z \<and> chain m a bs"

definition block_end :: "block \<Rightarrow> nat" where
  "block_end b = unat (fst b) + 8 + unat (snd b)"

lemma block_end_simp [simp]: "block_end (a, z) = unat a + 8 + unat z"
  by (simp add: block_end_def)

text \<open>Sorted, aligned, inside \<open>[lo, hi)\<close>, and with a gap between neighbours: nothing left to merge.\<close>

fun free_ok :: "nat \<Rightarrow> nat \<Rightarrow> block list \<Rightarrow> bool" where
  "free_ok lo hi [] \<longleftrightarrow> True"
| "free_ok lo hi ((a, z) # bs) \<longleftrightarrow> lo \<le> unat a \<and> block_end (a, z) \<le> hi \<and> al8 a \<and> al8 z \<and> a \<noteq> 0 \<and>
     free_ok (Suc (block_end (a, z))) hi bs"

lemma free_ok_mono: "free_ok lo hi bs \<Longrightarrow> lo' \<le> lo \<Longrightarrow> free_ok lo' hi bs"
  by (cases bs) auto

lemma free_ok_mem:
  "free_ok lo hi bs \<Longrightarrow> (a, z) \<in> set bs \<Longrightarrow> lo \<le> unat a \<and> block_end (a, z) \<le> hi \<and> al8 a \<and> al8 z \<and> a \<noteq> 0"
  by (induction bs arbitrary: lo) (fastforce dest: free_ok_mono)+

definition extent :: "block list \<Rightarrow> u32 set" where
  "extent bs = {x. \<exists>(b, w) \<in> set bs. unat b \<le> unat x \<and> unat x < block_end (b, w)}"

lemma extent_simps [simp]:
  "x \<in> extent [] \<longleftrightarrow> False"
  "x \<in> extent ((b, w) # bs) \<longleftrightarrow> (unat b \<le> unat x \<and> unat x < block_end (b, w)) \<or> x \<in> extent bs"
  by (auto simp: extent_def)

lemma extent_bounds: "free_ok lo hi bs \<Longrightarrow> x \<in> extent bs \<Longrightarrow> lo \<le> unat x \<and> unat x < hi"
  by (auto simp: extent_def dest!: free_ok_mem)

lemma chain_cong:
  assumes "\<And>x. x \<in> extent bs \<Longrightarrow> m' x = m x" "get_next m' p' = get_next m p" "free_ok lo hi bs" "hi < 2 ^ 32"
  shows "chain m' p' bs = chain m p bs"
  using assms(1-3)
proof (induction bs arbitrary: p p' lo)
  case Nil then show ?case by simp
next
  case (Cons b bs)
  obtain a z where b: "b = (a, z)" by fastforce
  have "m' x = m x" if "in_range x a 8" for x
    using that Cons.prems(1,3) assms(4) by (simp add: b in_range_unat)
  then have "get_next m' a = get_next m a" "get_size m' a = get_size m a" using get_cong [of a m' m] by blast+
  moreover have "chain m' a bs = chain m a bs"
    by (rule Cons.IH) (use Cons.prems b calculation in auto)
  ultimately show ?case using Cons.prems(2) by (simp add: b)
qed

section \<open>Allocation refines first fit on the list\<close>

fun alloc_spec :: "u32 \<Rightarrow> block list \<Rightarrow> (block \<times> block list) option" where
  "alloc_spec req [] = None"
| "alloc_spec req ((a, z) # bs) =
     (if req \<le> z then
        Some (if z < req + 8 then ((a, z), bs) else ((a, req), (a + 8 + req, z - 8 - req) # bs))
      else map_option (\<lambda>(b, bs'). (b, (a, z) # bs')) (alloc_spec req bs))"

lemma alloc_spec_head:
  assumes "alloc_spec req bs = Some ((a, z), bs')" "free_ok lo hi bs" "hi < 2 ^ 32" "al8 req"
  shows "\<exists>w. (a, w) \<in> set bs \<and> req \<le> z \<and> z \<le> w \<and> al8 a \<and> al8 z \<and> a \<noteq> 0"
  using assms(1,2)
proof (induction bs arbitrary: bs' lo)
  case (Cons b bs)
  obtain b1 w where b: "b = (b1, w)" by fastforce
  show ?case
  proof (cases "req \<le> w")
    case True
    then show ?thesis using Cons.prems assms(4) by (auto simp: b split: if_splits)
  next
    case False
    then show ?thesis using Cons by (fastforce simp: b)
  qed
qed simp

text \<open>Word arithmetic inside a block.\<close>

lemma split_arith:
  assumes "req \<le> z" "\<not> z < req + 8" "unat a + 8 + unat z < 2 ^ 32" "al8 req" "al8 z"
  shows "unat (a + 8 + req) = unat a + 8 + unat req" "unat (z - 8 - req) = unat z - 8 - unat req"
    "unat req + 8 \<le> unat z"
proof -
  have "unat (req + 8) = unat req + 8"
  proof (rule ccontr)
    assume n: "unat (req + 8) \<noteq> unat req + 8"
    then have "2 ^ 32 \<le> unat req + 8" using unat_offset [of req 8] by fastforce
    then show False using assms(1,3) by (simp add: word_le_nat_alt)
  qed
  then show le: "unat req + 8 \<le> unat z" using assms(2) by (simp add: word_less_nat_alt)
  have "unat (a + 8 + req) = unat (a + of_nat (8 + unat req))" by (simp add: add.assoc)
  then show "unat (a + 8 + req) = unat a + 8 + unat req"
    using unat_offset [of a "8 + unat req"] le assms(3) by simp
  have e: "8 \<le> z" "unat (z - 8) = unat z - 8" using le by (simp_all add: word_le_nat_alt unat_sub)
  then have "req \<le> z - 8" using le by (simp add: word_le_nat_alt)
  then show "unat (z - 8 - req) = unat z - 8 - unat req" using e by (simp add: unat_sub)
qed

lemma free_ok_next: "free_ok lo hi ((a, z) # bs) \<Longrightarrow> x \<in> extent bs \<Longrightarrow> block_end (a, z) < unat x"
  by (auto dest: extent_bounds)

definition frame :: "u32 set \<Rightarrow> mem \<Rightarrow> mem \<Rightarrow> bool" where
  "frame S m m' \<longleftrightarrow> (\<forall>x. x \<notin> S \<longrightarrow> m' x = m x)"

definition header_of :: "u32 \<Rightarrow> u32 set" where
  "header_of p = {x. unat p \<le> unat x \<and> unat x < unat p + 8}"

lemma in_header: "al8 p \<Longrightarrow> in_range x p 8 \<longleftrightarrow> x \<in> header_of p"
  using in_range_unat [OF al8_bound, of p x] by (simp add: header_of_def)

lemma frame_refl: "frame S m m"
  by (simp add: frame_def)

lemma frame_set:
  assumes "frame S m m'" "al8 p" "header_of p \<subseteq> S"
  shows "frame S m (set_next p v m')" "frame S m (set_size p v m')"
proof -
  have "\<not> in_range x p 8" if "x \<notin> S" for x
    using assms(2,3) that in_header by auto
  then show "frame S m (set_next p v m')" "frame S m (set_size p v m')"
    using assms(1,2) by (simp_all add: frame_def set_outside)
qed

lemma frame_mono: "frame S m m' \<Longrightarrow> S \<subseteq> T \<Longrightarrow> frame T m m'"
  by (auto simp: frame_def)

lemma frame_get:
  assumes "frame S m m'" "al8 p" "header_of p \<inter> S = {}"
  shows "get_next m' p = get_next m p" "get_size m' p = get_size m p"
proof -
  have "m' x = m x" if "in_range x p 8" for x
    using assms that by (auto simp: frame_def in_header)
  then show "get_next m' p = get_next m p" "get_size m' p = get_size m p"
    using get_cong [of p m' m] by blast+
qed

lemma frame_chain:
  assumes "frame S m m'" "extent bs \<inter> S = {}" "get_next m' p' = get_next m p" "free_ok lo hi bs" "hi < 2 ^ 32"
  shows "chain m' p' bs = chain m p bs"
  by (rule chain_cong [OF _ assms(3-5)]) (use assms(1,2) in \<open>auto simp: frame_def\<close>)

text \<open>The block at the head of the list is taken.\<close>

lemma take_block_head:
  assumes ch: "chain m q ((a, z) # bs)" and ok: "free_ok lo hi ((a, z) # bs)" and hi: "hi < 2 ^ 32"
    and q: "al8 q" "header_of q \<inter> extent ((a, z) # bs) = {}" and req: "al8 req" "req \<le> z"
    and sp: "alloc_spec req ((a, z) # bs) = Some ((a', z'), bs')"
  shows "let m' = take_block h q a req m in
    chain m' q bs' \<and> get_size m' a = z' \<and> get_next m' a = heap_id h \<and> get_size m' q = get_size m q \<and>
    frame (header_of q \<union> extent ((a, z) # bs)) m m'"
proof -
  have a: "al8 a" "al8 z" "a \<noteq> 0" "unat a + 8 + unat z \<le> hi" "free_ok (Suc (block_end (a, z))) hi bs"
    using ok by simp_all
  have nx: "chain m a bs" and sz: "get_size m a = z" using ch by simp_all
  have qa: "q \<noteq> a"
    using q(2) by (auto simp: header_of_def)
  have hq: "x \<notin> header_of q" "x \<notin> extent [(a, z)]" if "x \<in> extent bs" for x
    using q(2) that free_ok_next [OF ok that] by auto
  have ha: "header_of a \<subseteq> extent [(a, z)]" by (auto simp: header_of_def)
  show ?thesis
  proof (cases "z < req + 8")
    case True
    let ?m = "set_next a (heap_id h) (set_next q (get_next m a) m)"
    have tb: "take_block h q a req m = ?m" using True sz by (simp add: take_block_def)
    have S: "frame (header_of q \<union> extent [(a, z)]) m ?m" by (intro frame_set frame_refl) (use a(1) q(1) ha in auto)
    have fr: "frame (header_of q \<union> extent ((a, z) # bs)) m ?m" using S by (auto simp: frame_def)
    have "chain ?m q bs = chain m a bs"
      by (rule frame_chain [OF S _ _ a(5) hi]) (use hq qa a(1) q(1) in \<open>auto simp: header_get_set\<close>)
    then have "chain ?m q bs" using nx by simp
    moreover have "get_size ?m a = z" "get_next ?m a = heap_id h" "get_size ?m q = get_size m q"
      using qa a(1) q(1) sz by (simp_all add: header_get_set)
    ultimately show ?thesis
      using sp True req(2) fr unfolding tb by (simp add: Let_def)
  next
    case False
    let ?f = "a + 8 + req" and ?w = "z - 8 - req"
    note ar = split_arith [OF req(2) False _ req(1) a(2), of a]
    have u: "unat a + 8 + unat z < 2 ^ 32" using a(4) hi by simp
    note ar = ar [OF u]
    have f: "al8 ?f" "?f \<noteq> a" "?f \<noteq> q" "?f \<noteq> 0"
      using a(1) req(1) ar q(2) by (auto simp: al8_add header_of_def word_unat_eq_iff)
    have hf: "header_of ?f \<subseteq> extent [(a, z)]" using ar by (auto simp: header_of_def)
    let ?m = "set_next a (heap_id h) (set_size a req (set_next q ?f (set_size ?f ?w (set_next ?f (get_next m a) m))))"
    have tb: "take_block h q a req m = ?m"
      using False sz f a(1) by (simp add: take_block_def Let_def header_get_set)
    have S: "frame (header_of q \<union> extent [(a, z)]) m ?m"
      by (intro frame_set frame_refl) (use a(1) q(1) ha hf f(1) in auto)
    have "chain ?m ?f bs = chain m a bs"
      by (rule frame_chain [OF S _ _ a(5) hi]) (use hq qa a(1) q(1) f in \<open>auto simp: header_get_set\<close>)
    then have "chain ?m q ((?f, ?w) # bs)"
      using nx qa a(1) q(1) f by (simp add: header_get_set)
    moreover have "get_size ?m a = req" "get_next ?m a = heap_id h" "get_size ?m q = get_size m q"
      using qa a(1) q(1) f by (simp_all add: header_get_set)
    moreover have "frame (header_of q \<union> extent ((a, z) # bs)) m ?m" using S by (auto simp: frame_def)
    moreover have "a' = a" "z' = req" "bs' = (?f, ?w) # bs" using sp False req(2) by auto
    ultimately show ?thesis unfolding tb Let_def by blast
  qed
qed


lemma alloc_loop_refines:
  assumes "chain m q bs" "free_ok lo hi bs" "hi < 2 ^ 32" "al8 q" "header_of q \<inter> extent bs = {}" "al8 req"
  shows "case alloc_spec req bs of
      None \<Rightarrow> alloc_loop h req q m = Some (0, m)
    | Some ((a, z), bs') \<Rightarrow> \<exists>m'. alloc_loop h req q m = Some (a + 8, m') \<and> chain m' q bs' \<and>
        get_size m' a = z \<and> get_next m' a = heap_id h \<and> get_size m' q = get_size m q \<and>
        frame (header_of q \<union> extent bs) m m'"
  using assms(1,2,4,5)
proof (induction bs arbitrary: q lo)
  case Nil
  then show ?case by (subst alloc_loop.simps) simp
next
  case (Cons b bs)
  obtain a z where b: "b = (a, z)" by fastforce
  have n: "get_next m q = a" "a \<noteq> 0" "get_size m a = z" "chain m a bs" using Cons.prems(1) by (simp_all add: b)
  have a: "al8 a" "free_ok (Suc (block_end (a, z))) hi bs" using Cons.prems(2) by (simp_all add: b)
  show ?case
  proof (cases "req \<le> z")
    case True
    obtain a' z' bs' where sp: "alloc_spec req ((a, z) # bs) = Some ((a', z'), bs')"
      using True by (cases "z < req + 8") auto
    have aa: "a' = a" using sp True by (auto split: if_splits)
    have "alloc_loop h req q m = Some (a + 8, take_block h q a req m)"
      using n True by (subst alloc_loop.simps) (simp add: Let_def)
    with take_block_head [OF _ _ assms(3) Cons.prems(3) _ assms(6) True sp, of m lo h] Cons.prems
    show ?thesis by (simp add: b sp aa Let_def del: alloc_spec.simps)
  next
    case False
    have step: "alloc_loop h req q m = alloc_loop h req a m"
      using n False by (subst alloc_loop.simps) (simp add: Let_def)
    have disj: "header_of a \<inter> extent bs = {}"
    proof -
      have "unat x < unat a + 8 \<Longrightarrow> x \<notin> extent bs" for x
        using free_ok_next [of lo hi a z bs x] Cons.prems(2) by (auto simp: b)
      then show ?thesis by (auto simp: header_of_def)
    qed
    have qa: "header_of q \<inter> (header_of a \<union> extent bs) = {}"
      using Cons.prems(4) by (auto simp: b header_of_def)
    note IH = Cons.IH [OF n(4) a(2,1) disj]
    have sub: "header_of a \<union> extent bs \<subseteq> header_of q \<union> extent (b # bs)" by (auto simp: b header_of_def)
    show ?thesis
    proof (cases "alloc_spec req bs")
      case None
      then show ?thesis using IH step False by (simp add: b)
    next
      case (Some r)
      obtain a' z' bs' where r: "r = ((a', z'), bs')" by (metis prod.exhaust)
      obtain m' where m': "alloc_loop h req a m = Some (a' + 8, m')" "chain m' a bs'" "get_size m' a' = z'"
        "get_next m' a' = heap_id h" "get_size m' a = get_size m a" "frame (header_of a \<union> extent bs) m m'"
        using IH by (auto simp: Some r)
      have "get_next m' q = a" "get_size m' q = get_size m q"
        using frame_get [OF m'(6) Cons.prems(3) qa] n(1) by simp_all
      then show ?thesis
        using m' step False n frame_mono [OF m'(6) sub] by (simp add: b Some r)
    qed
  qed
qed

section \<open>Freeing refines insertion with coalescing\<close>

fun join :: "block \<Rightarrow> block list \<Rightarrow> block list" where
  "join (a, z) [] = [(a, z)]"
| "join (a, z) ((b, w) # bs) = (if a + 8 + z = b then (a, z + (w + 8)) # bs else (a, z) # (b, w) # bs)"

fun free_spec :: "block \<Rightarrow> block list \<Rightarrow> block list" where
  "free_spec (a, z) [] = [(a, z)]"
| "free_spec (a, z) ((b, w) # bs) =
     (if a < b then join (a, z) ((b, w) # bs) else join (b, w) (free_spec (a, z) bs))"

lemma extent_Nil [simp]: "extent [] = {}"
  by (auto simp: extent_def)

lemma join_Cons: "\<exists>w' rest. join (q, w) L = (q, w') # rest"
  by (cases "((q, w), L)" rule: join.cases) auto

definition apart_blocks :: "block \<Rightarrow> block list \<Rightarrow> bool" where
  "apart_blocks b bs \<longleftrightarrow> (\<forall>c \<in> set bs. block_end b \<le> unat (fst c) \<or> block_end c \<le> unat (fst b))"

lemma join_next:
  assumes "chain m a bs" "get_size m a = z" "al8 a" "free_ok lo hi bs" "hi < 2 ^ 32" "a + 8 + z \<noteq> 0"
    "header_of a \<inter> extent bs = {}"
    "m' = (if LIMIT m a = get_next m a then
             set_next a (get_next m (get_next m a)) (set_size a (get_size m a + (get_size m (get_next m a) + 8)) m)
           else m)"
  shows "\<exists>z' rest. join (a, z) bs = (a, z') # rest \<and> get_size m' a = z' \<and> chain m' a rest \<and>
    frame (header_of a) m m'"
proof (cases bs)
  case Nil
  then show ?thesis using assms by (simp add: LIMIT_def frame_refl)
next
  case (Cons b bs2)
  obtain b1 w where b: "b = (b1, w)" by fastforce
  have n: "get_next m a = b1" "get_size m b1 = w" "chain m b1 bs2" using assms(1) by (simp_all add: Cons b)
  show ?thesis
  proof (cases "a + 8 + z = b1")
    case False
    then show ?thesis using assms n by (auto simp: LIMIT_def Cons b frame_refl)
  next
    case True
    let ?m = "set_next a (get_next m b1) (set_size a (z + (w + 8)) m)"
    have m': "m' = ?m" using assms(2,8) n True by (simp add: LIMIT_def)
    have fr: "frame (header_of a) m ?m" by (intro frame_set frame_refl) (use assms(3) in auto)
    have ok2: "free_ok (Suc (block_end (b1, w))) hi bs2" using assms(4) by (simp add: Cons b)
    have "chain ?m a bs2 = chain m b1 bs2"
    proof (rule frame_chain [OF fr _ _ ok2 assms(5)])
      show "extent bs2 \<inter> header_of a = {}" using assms(7) by (auto simp: Cons b)
    qed (use assms(3) in \<open>simp add: header_get_set\<close>)
    then show ?thesis
      using n True fr assms(3) by (simp add: Cons b m' header_get_set)
  qed
qed

text \<open>Both merges of \<open>insert_block\<close>.\<close>

lemma insert_block_refines:
  assumes ch: "chain m q bs" "get_size m q = w" "get_size m a = z" and al: "al8 q" "al8 a" "q \<noteq> a" "a \<noteq> 0"
    and ok: "free_ok lo hi bs" "hi < 2 ^ 32" and nz: "a + 8 + z \<noteq> 0"
    and disj: "header_of a \<inter> extent bs = {}" "header_of q \<inter> extent bs = {}"
  shows "\<exists>w' rest. join (q, w) (join (a, z) bs) = (q, w') # rest \<and> get_size (insert_block q a m) q = w' \<and>
    chain (insert_block q a m) q rest \<and> frame (header_of q \<union> header_of a) m (insert_block q a m)"
proof -
  define m2 where "m2 = set_next q a (set_next a (get_next m q) m)"
  have g2: "get_next m2 a = get_next m q" "get_next m2 q = a" "get_size m2 a = z" "get_size m2 q = w"
    using al ch by (simp_all add: m2_def header_get_set)
  have f2: "frame (header_of q \<union> header_of a) m m2"
    unfolding m2_def by (intro frame_set frame_refl) (use al in auto)
  have c2: "chain m2 a bs"
    using frame_chain [OF f2 _ _ ok, of a q] g2(1) ch(1) disj by auto
  define m3 where "m3 = (if LIMIT m2 a = get_next m2 a then
      set_next a (get_next m2 (get_next m2 a)) (set_size a (get_size m2 a + (get_size m2 (get_next m2 a) + 8)) m2)
    else m2)"
  obtain z' rest where j: "join (a, z) bs = (a, z') # rest" "get_size m3 a = z'" "chain m3 a rest" "frame (header_of a) m2 m3"
    using join_next [OF c2 g2(3) al(2) ok nz disj(1) m3_def] by blast
  have qa: "header_of q \<inter> header_of a = {}"
    using al8_apart [OF al(1-3)] by (auto simp: header_of_def apart_def)
  have g3: "get_next m3 q = a" "get_size m3 q = w"
    using frame_get [OF j(4) al(1) qa] g2 by simp_all
  have f3: "frame (header_of q \<union> header_of a) m m3" using f2 j(4) by (auto simp: frame_def)
  have sz_nx: "get_size (set_size a v m2) (get_next m2 a) = get_size m2 (get_next m2 a)" if "get_next m2 a \<noteq> a" "al8 (get_next m2 a)" for v
    using that al by (simp add: header_get_set)
  have ib: "insert_block q a m = (if LIMIT m3 q = a then
      set_next q (get_next m3 a) (set_size q (get_size m3 q + (get_size m3 a + 8)) m3) else m3)"
  proof -
    have "get_next (set_size a v m2) (get_next m2 a) = get_next m2 (get_next m2 a)" if "LIMIT m2 a = get_next m2 a" for v
    proof -
      have "get_next m2 a \<noteq> 0" using that nz g2(3) by (auto simp: LIMIT_def)
      then have "al8 (get_next m2 a)" using ok(1) c2 by (cases bs) auto
      then show ?thesis using al by (simp add: header_get_set)
    qed
    then show ?thesis
      using al unfolding insert_block_def Let_def m2_def [symmetric] by (auto simp: m3_def header_get_set)
  qed
  show ?thesis
  proof (cases "q + 8 + w = a")
    case False
    then show ?thesis using ib j g3 f3 al(4) by (simp add: LIMIT_def)
  next
    case True
    let ?m = "set_next q (get_next m3 a) (set_size q (w + (z' + 8)) m3)"
    have m: "insert_block q a m = ?m" using ib True g3 j(2) by (simp add: LIMIT_def)
    have fr: "frame (header_of q) m3 ?m" by (intro frame_set frame_refl) (use al in auto)
    have "(\<exists>lo'. free_ok lo' hi rest) \<and> extent rest \<subseteq> extent bs"
    proof (cases bs)
      case (Cons b bs2)
      then show ?thesis using ok(1) j(1) by (cases b) (auto split: if_splits)
    qed (use j(1) in auto)
    then obtain lo' where r: "free_ok lo' hi rest" "extent rest \<inter> header_of q = {}" using disj(2) by auto
    have "chain ?m q rest = chain m3 a rest"
      by (rule frame_chain [OF fr r(2) _ r(1) ok(2)]) (use al in \<open>simp add: header_get_set\<close>)
    moreover have "frame (header_of q \<union> header_of a) m ?m"
      by (intro frame_set f3) (use al in auto)
    ultimately show ?thesis using True j al by (simp add: m header_get_set)
  qed
qed

lemma free_loop_refines:
  assumes "chain m q bs" "get_size m q = w" "get_size m a = z" "free_ok lo hi bs" "hi < 2 ^ 32"
    "al8 q" "al8 a" "a \<noteq> 0" "q = hf \<or> q < a" "q \<noteq> a" "unat a + 8 + unat z < 2 ^ 32"
    "header_of q \<inter> extent bs = {}" "apart_blocks (a, z) bs"
    "\<forall>b \<in> set bs. fst b \<noteq> hf" "bs \<noteq> [] \<longrightarrow> q + 8 + w \<noteq> fst (hd bs)"
  shows "\<exists>m' w' rest. free_loop hf a q m = Some m' \<and> join (q, w) (free_spec (a, z) bs) = (q, w') # rest \<and>
    get_size m' q = w' \<and> chain m' q rest \<and> frame (header_of q \<union> header_of a \<union> extent bs) m m'"
  using assms(1,2,4,6,9,10,12-15) assms(3)
proof (induction bs arbitrary: q w lo)
  case Nil
  have nz: "a + 8 + z \<noteq> 0" using assms(8,11) unat_offset [of a "8 + unat z"] by (auto simp: word_unat_eq_iff add.assoc)
  have l: "free_loop hf a q m = Some (insert_block q a m)"
    using Nil.prems by (subst free_loop.simps) auto
  from insert_block_refines [OF Nil.prems(1,2,11,4) assms(7) Nil.prems(6) assms(8) Nil.prems(3) assms(5) nz] l
  show ?case by simp
next
  case (Cons b bs)
  obtain b1 w1 where b: "b = (b1, w1)" by fastforce
  have nz: "a + 8 + z \<noteq> 0" using assms(8,11) unat_offset [of a "8 + unat z"] by (auto simp: word_unat_eq_iff add.assoc)
  have n: "get_next m q = b1" "b1 \<noteq> 0" "get_size m b1 = w1" "chain m b1 bs" using Cons.prems(1) by (simp_all add: b)
  have ok: "al8 b1" "free_ok (Suc (block_end (b1, w1))) hi bs" "unat b1 + 8 + unat w1 < 2 ^ 32"
    using Cons.prems(3) assms(5) by (simp_all add: b)
  have hd: "header_of a \<inter> extent (b # bs) = {}"
  proof -
    have "\<not> (unat c \<le> unat x \<and> unat x < block_end (c, v))" if "(c, v) \<in> set (b # bs)" "x \<in> header_of a" for c v x
      using Cons.prems(8) that by (fastforce simp: apart_blocks_def header_of_def)
    then show ?thesis unfolding extent_def by blast
  qed
  show ?case
  proof (cases "a < b1")
    case True
    have l: "free_loop hf a q m = Some (insert_block q a m)"
      using Cons.prems(5) True n(1) by (subst free_loop.simps) auto
    have sub: "frame (header_of q \<union> header_of a) m m' \<Longrightarrow> frame (header_of q \<union> header_of a \<union> extent (b # bs)) m m'" for m'
      by (rule frame_mono) auto
    from insert_block_refines [OF Cons.prems(1,2,11,4) assms(7) Cons.prems(6) assms(8) Cons.prems(3) assms(5) nz hd Cons.prems(7)] l
    show ?thesis using True sub by (fastforce simp: b)
  next
    case False
    have ne: "b1 \<noteq> a" using hd by (auto simp: b header_of_def)
    then have lt: "b1 < a" using False by simp
    have l: "free_loop hf a q m = free_loop hf a b1 m"
      using n False lt by (subst free_loop.simps) auto
    have d1: "header_of b1 \<inter> extent bs = {}"
    proof -
      have "unat x < unat b1 + 8 \<Longrightarrow> x \<notin> extent bs" for x
        using free_ok_next [of lo hi b1 w1 bs x] Cons.prems(3) by (auto simp: b)
      then show ?thesis by (auto simp: header_of_def)
    qed
    have gap: "bs \<noteq> [] \<longrightarrow> b1 + 8 + w1 \<noteq> fst (hd bs)"
    proof
      assume "bs \<noteq> []"
      then obtain c v bs2 where c: "bs = (c, v) # bs2" by (metis neq_Nil_conv prod.exhaust)
      have "unat (b1 + 8 + w1) = unat b1 + 8 + unat w1"
        using unat_offset [of b1 "8 + unat w1"] ok(3) by (simp add: add.assoc)
      then show "b1 + 8 + w1 \<noteq> fst (hd bs)" using ok(2) by (auto simp: c)
    qed
    have "apart_blocks (a, z) bs" "\<forall>b \<in> set bs. fst b \<noteq> hf" "b1 = hf \<or> b1 < a"
      using Cons.prems(8,9) lt by (simp_all add: apart_blocks_def)
    note IH = Cons.IH [OF n(4,3) ok(2,1) this(3) ne d1 this(1,2) gap Cons.prems(11)]
    obtain m' w' rest where m': "free_loop hf a b1 m = Some m'" "join (b1, w1) (free_spec (a, z) bs) = (b1, w') # rest"
      "get_size m' b1 = w'" "chain m' b1 rest" "frame (header_of b1 \<union> header_of a \<union> extent bs) m m'"
      using IH by blast
    have qd: "header_of q \<inter> (header_of b1 \<union> header_of a \<union> extent bs) = {}"
      using Cons.prems(7) al8_apart [OF Cons.prems(4) assms(7) Cons.prems(6)]
      by (auto simp: b header_of_def apart_def)
    have gq: "get_next m' q = b1" "get_size m' q = w"
      using frame_get [OF m'(5) Cons.prems(4) qd] n(1) Cons.prems(2) by simp_all
    have j: "join (q, w) ((b1, w') # rest) = (q, w) # (b1, w') # rest"
      using Cons.prems(10) by (simp add: b)
    have "frame (header_of q \<union> header_of a \<union> extent (b # bs)) m m'"
      by (rule frame_mono [OF m'(5)]) (auto simp: b header_of_def)
    then show ?thesis
      using l m' gq j n(2) False by (simp add: b)
  qed
qed

section \<open>The list operations keep memory accounted for\<close>

definition total :: "block list \<Rightarrow> nat" where
  "total bs = sum_list (map (\<lambda>(a, z). unat z + 8) bs)"

lemma total_simps [simp]: "total [] = 0" "total ((a, z) # bs) = unat z + 8 + total bs"
  by (simp_all add: total_def)

definition placed :: "nat \<Rightarrow> nat \<Rightarrow> block \<Rightarrow> bool" where
  "placed lo hi b \<longleftrightarrow> lo \<le> unat (fst b) \<and> block_end b \<le> hi \<and> al8 (fst b) \<and> al8 (snd b) \<and> fst b \<noteq> 0"

lemma free_ok_Cons: "free_ok lo hi (b # bs) \<longleftrightarrow> placed lo hi b \<and> free_ok (Suc (block_end b)) hi bs"
  by (cases b) (auto simp: placed_def)

lemma end_unat: "unat (a :: u32) + 8 + unat z < 2 ^ 32 \<Longrightarrow> unat (a + 8 + z) = unat a + 8 + unat z"
  using unat_offset [of a "8 + unat z"] by (simp add: add.assoc)

lemma join_ok:
  assumes "placed lo hi (a, z)" "free_ok (block_end (a, z)) hi bs" "hi < 2 ^ 32"
  shows "free_ok lo hi (join (a, z) bs) \<and> total (join (a, z) bs) = unat z + 8 + total bs \<and>
    extent (join (a, z) bs) = extent [(a, z)] \<union> extent bs"
proof (cases bs)
  case Nil
  then show ?thesis using assms by (auto simp: placed_def)
next
  case (Cons b bs2)
  obtain b1 w where b: "b = (b1, w)" by fastforce
  have e: "unat (a + 8 + z) = unat a + 8 + unat z"
    by (rule end_unat) (use assms(1,3) in \<open>simp add: placed_def\<close>)
  show ?thesis
  proof (cases "a + 8 + z = b1")
    case True
    have b1: "unat b1 = unat a + 8 + unat z" using e True by simp
    have bh: "unat b1 + 8 + unat w \<le> hi" "al8 w" using assms(2) by (simp_all add: Cons b)
    have s: "unat (z + (w + 8)) = unat z + (unat w + 8)"
      using unat_offset [of z "unat w + 8"] b1 bh assms(3) by (simp add: add.assoc)
    have al: "al8 (z + (w + 8))" using assms(1) bh(2) by (simp add: al8_add placed_def)
    have "join (a, z) bs = (a, z + (w + 8)) # bs2" using True by (simp add: Cons b)
    then show ?thesis
      using assms(1,2) s b1 bh al by (auto simp: Cons b placed_def free_ok_Cons)
  next
    case False
    have "unat b1 \<noteq> block_end (a, z)" using False e by (auto simp: word_unat_eq_iff)
    then show ?thesis using False assms by (auto simp: Cons b placed_def free_ok_Cons)
  qed
qed

lemma alloc_spec_ok:
  assumes "alloc_spec req bs = Some (b, bs')" "free_ok lo hi bs" "hi < 2 ^ 32" "al8 req"
  shows "free_ok lo hi bs' \<and> total bs = unat (snd b) + 8 + total bs' \<and> extent bs = extent [b] \<union> extent bs' \<and>
    placed lo hi b \<and> apart_blocks b bs' \<and> req \<le> snd b \<and> free_spec b bs' = bs"
  using assms(1,2)
proof (induction bs arbitrary: bs' lo)
  case Nil then show ?case by simp
next
  case (Cons c bs)
  obtain a z where c: "c = (a, z)" by fastforce
  have pl: "placed lo hi (a, z)" and ok: "free_ok (Suc (block_end (a, z))) hi bs"
    using Cons.prems(2) by (simp_all add: c free_ok_Cons)
  have az: "unat a + 8 + unat z < 2 ^ 32" using pl assms(3) by (simp add: placed_def)
  have beyond: "block_end (a, z) < unat (fst d)" if "d \<in> set bs" for d
    using free_ok_mem [OF ok, of "fst d" "snd d"] that by simp
  have far: "apart_blocks (a, y) bs" if "y \<le> z" for y
    using beyond that by (fastforce simp: apart_blocks_def word_le_nat_alt)
  show ?case
  proof (cases "req \<le> z")
    case fits: True
    show ?thesis
    proof (cases "z < req + 8")
      case True
      then have "b = (a, z)" "bs' = bs" using Cons.prems(1) fits by (auto simp: c)
      moreover have "free_spec (a, z) bs = (a, z) # bs"
      proof (cases bs)
        case (Cons d ds)
        then show ?thesis using ok end_unat [OF az] by (cases d) (auto simp: word_less_nat_alt)
      qed simp
      ultimately show ?thesis
        using pl ok far [of z] fits free_ok_mono [OF ok, of lo] by (auto simp: c placed_def)
    next
      case False
      let ?f = "a + 8 + req" and ?w = "z - 8 - req"
      have ar: "unat ?f = unat a + 8 + unat req" "unat ?w = unat z - 8 - unat req" "unat req + 8 \<le> unat z"
        using split_arith [OF fits False az assms(4)] pl by (simp_all add: placed_def)
      have b: "b = (a, req)" "bs' = (?f, ?w) # bs" using Cons.prems(1) fits False by (auto simp: c)
      have al: "al8 ?f" "al8 ?w"
        using pl assms(4) ar fits by (auto simp: placed_def al8_add al8_diff word_le_nat_alt unat_sub intro!: al8_diff)
      have join: "free_spec (a, req) ((?f, ?w) # bs) = (a, z) # bs"
      proof -
        have "a < ?f" using ar by (simp add: word_less_nat_alt)
        moreover have "req + (?w + 8) = z" by simp
        ultimately show ?thesis by simp
      qed
      have "extent ((a, z) # bs) = extent [(a, req)] \<union> extent ((?f, ?w) # bs)"
        using ar by auto
      moreover have "free_ok lo hi ((?f, ?w) # bs)"
        using pl ok ar al by (auto simp: placed_def word_unat_eq_iff)
      moreover have "apart_blocks (a, req) ((?f, ?w) # bs)"
        using far [of req] fits ar by (auto simp: apart_blocks_def)
      ultimately show ?thesis
        using pl ar join assms(4) unfolding b c by (simp add: placed_def del: free_spec.simps)
    qed
  next
    case False
    then obtain ds where ds: "alloc_spec req bs = Some (b, ds)" "bs' = (a, z) # ds"
      using Cons.prems(1) by (auto simp: c)
    note IH = Cons.IH [OF ds(1) ok]
    obtain b1 w where b: "b = (b1, w)" by fastforce
    have lt: "unat a + 8 + unat z < unat b1" "\<not> b1 < a" "b1 \<noteq> a" using IH by (auto simp: b placed_def word_less_nat_alt)
    have "free_spec b bs' = join (a, z) bs" using IH lt by (simp add: b ds(2))
    moreover have "join (a, z) bs = (a, z) # bs"
    proof (cases bs)
      case (Cons d es)
      then show ?thesis using ok end_unat [OF az] by (cases d) auto
    qed simp
    moreover have "apart_blocks b ((a, z) # ds)" using IH lt by (simp add: b apart_blocks_def)
    moreover have "free_ok lo hi ((a, z) # ds)" using IH pl by (simp add: free_ok_Cons)
    moreover have "placed lo hi b" using IH pl by (auto simp: placed_def)
    ultimately show ?thesis using IH by (auto simp: c ds(2))
  qed
qed

lemma free_spec_ok:
  assumes "free_ok lo hi bs" "placed lo hi (a, z)" "apart_blocks (a, z) bs" "hi < 2 ^ 32"
  shows "free_ok lo hi (free_spec (a, z) bs) \<and> total (free_spec (a, z) bs) = unat z + 8 + total bs \<and>
    extent (free_spec (a, z) bs) = extent [(a, z)] \<union> extent bs"
  using assms(1-3)
proof (induction bs arbitrary: lo)
  case Nil then show ?case by (auto simp: placed_def)
next
  case (Cons c bs)
  obtain b w where c: "c = (b, w)" by fastforce
  have pb: "placed lo hi (b, w)" and ok: "free_ok (Suc (block_end (b, w))) hi bs"
    using Cons.prems(1) by (simp_all add: c free_ok_Cons)
  show ?case
  proof (cases "a < b")
    case True
    have "block_end (a, z) \<le> unat b" using Cons.prems(3) True by (auto simp: c apart_blocks_def word_less_nat_alt)
    then have "free_ok (block_end (a, z)) hi (c # bs)" using pb ok by (auto simp: c free_ok_Cons placed_def)
    from join_ok [OF Cons.prems(2) this assms(4)] True show ?thesis by (simp add: c)
  next
    case False
    have e: "block_end (b, w) \<le> unat a" using Cons.prems(2,3) False by (auto simp: c apart_blocks_def word_less_nat_alt placed_def)
    have "placed (block_end (b, w)) hi (a, z)" using Cons.prems(2) e by (simp add: placed_def)
    moreover have "free_ok (block_end (b, w)) hi bs" using ok by (rule free_ok_mono) simp
    moreover have "apart_blocks (a, z) bs" using Cons.prems(3) by (simp add: apart_blocks_def)
    ultimately have IH: "free_ok (block_end (b, w)) hi (free_spec (a, z) bs)"
      "total (free_spec (a, z) bs) = unat z + 8 + total bs" "extent (free_spec (a, z) bs) = extent [(a, z)] \<union> extent bs"
      using Cons.IH by blast+
    from join_ok [OF pb IH(1) assms(4)] IH(2,3) False show ?thesis by (auto simp: c)
  qed
qed

text \<open>Nothing is lost: a coalesced list that accounts for the whole area is a single block.\<close>

lemma free_ok_total: "free_ok lo hi bs \<Longrightarrow> bs \<noteq> [] \<Longrightarrow> lo + total bs + (length bs - 1) \<le> hi"
proof (induction bs arbitrary: lo)
  case (Cons c bs)
  obtain b w where c: "c = (b, w)" by fastforce
  show ?case
  proof (cases "bs = []")
    case True then show ?thesis using Cons.prems by (simp add: c)
  next
    case False
    then show ?thesis using Cons.IH [of "Suc (block_end (b, w))"] Cons.prems by (cases bs) (auto simp: c)
  qed
qed simp

lemma single_block:
  assumes "free_ok lo hi bs" "total bs = hi - lo" "lo < hi"
  shows "\<exists>a z. bs = [(a, z)] \<and> unat a = lo \<and> unat z + 8 = hi - lo"
proof (cases bs)
  case Nil then show ?thesis using assms by simp
next
  case (Cons c cs)
  then have "length bs \<le> 1" using free_ok_total [OF assms(1)] assms(2,3) by simp
  then show ?thesis using assms Cons by (cases c; cases cs) auto
qed

section \<open>The heap and its allocated blocks\<close>

fun apart_list :: "block list \<Rightarrow> bool" where
  "apart_list [] \<longleftrightarrow> True"
| "apart_list (b # us) \<longleftrightarrow> apart_blocks b us \<and> apart_list us"

definition allocated :: "memory_heap_t \<Rightarrow> mem \<Rightarrow> block \<Rightarrow> bool" where
  "allocated h m b \<longleftrightarrow> get_size m (fst b) = snd b \<and> get_next m (fst b) = heap_id h"

text \<open>The descriptor's own header lies outside the managed area and does not touch its start.\<close>

definition descriptor_ok :: "memory_heap_t \<Rightarrow> nat \<Rightarrow> nat \<Rightarrow> bool" where
  "descriptor_ok h lo hi \<longleftrightarrow> al8 (h_free h) \<and> (unat (h_free h) + 8 < lo \<or> hi \<le> unat (h_free h)) \<and>
     hi < 2 ^ 32 \<and> \<not> h_provider h"

definition heap_ok :: "memory_heap_t \<Rightarrow> nat \<Rightarrow> nat \<Rightarrow> heap_st \<Rightarrow> block list \<Rightarrow> bool" where
  "heap_ok h lo hi s us \<longleftrightarrow> descriptor_ok h lo hi \<and> (\<exists>bs. chain (hmem s) (h_free h) bs \<and> get_size (hmem s) (h_free h) = 0 \<and>
     free_ok lo hi bs \<and> (\<forall>u \<in> set us. allocated h (hmem s) u \<and> placed lo hi u \<and> apart_blocks u bs) \<and>
     apart_list us \<and> total bs + total us = hi - lo)"

text \<open>The bytes a client may use of its blocks.\<close>

definition payload :: "block list \<Rightarrow> u32 set" where
  "payload us = {x. \<exists>(b, w) \<in> set us. unat b + 8 \<le> unat x \<and> unat x < block_end (b, w)}"

definition same_payload :: "block list \<Rightarrow> heap_st \<Rightarrow> heap_st \<Rightarrow> bool" where
  "same_payload us s s' \<longleftrightarrow> (\<forall>x \<in> payload us. hmem s' x = hmem s x)"

lemma MEM_ALIGN_PREV_unat: "unat (MEM_ALIGN_PREV p) = unat p div 8 * 8"
proof -
  have m: "(7 :: u32) = mask 3" by (simp add: mask_eq_exp_minus_1)
  have "p AND NOT 7 = drop_bit 3 p * 8"
    unfolding m by (rule bit_word_eqI) (auto simp: bit_simps simp flip: push_bit_eq_mult [of 3, simplified])
  moreover have "unat (drop_bit 3 p) = unat p div 8"
    by (simp add: drop_bit_eq_div unat_div)
  moreover have "unat p div 8 * 8 < 2 ^ 32" using unat_u32_lt [of p] by linarith
  ultimately show ?thesis by (simp add: MEM_ALIGN_PREV_def unat_word_ariths)
qed

lemma MEM_ALIGN_NEXT_unat: "unat p + 7 < 2 ^ 32 \<Longrightarrow> unat (MEM_ALIGN_NEXT p) = (unat p + 7) div 8 * 8"
  using unat_offset [of p 7] by (simp add: MEM_ALIGN_NEXT_def MEM_ALIGN_PREV_unat)

lemma al8_align: "al8 (MEM_ALIGN_NEXT p)"
  by (simp add: al8_def MEM_ALIGN_NEXT_def MEM_ALIGN_PREV_unat)

lemma align_ge:
  assumes "unat p + 7 < 2 ^ 32"
  shows "unat p \<le> unat (MEM_ALIGN_NEXT p)"
  unfolding MEM_ALIGN_NEXT_unat [OF assms] by presburger

lemma extent_block: "extent [(b, w)] = {x. unat b \<le> unat x \<and> unat x < block_end (b, w)}"
  by auto

lemma apart_extent:
  "apart_blocks (b, w) bs \<Longrightarrow> extent [(b, w)] \<inter> extent bs = {}"
  by (fastforce simp: apart_blocks_def extent_def)

lemma header_in_extent: "header_of b \<subseteq> extent [(b, w)]"
  by (auto simp: header_of_def)

lemma payload_in: "x \<in> payload us \<Longrightarrow> \<exists>u \<in> set us. x \<in> extent [u] \<and> x \<notin> header_of (fst u)"
proof -
  assume "x \<in> payload us"
  then obtain b w where "(b, w) \<in> set us" "unat b + 8 \<le> unat x" "unat x < block_end (b, w)"
    by (auto simp: payload_def)
  then show ?thesis by (intro bexI [of _ "(b, w)"]) (auto simp: header_of_def)
qed

lemma hf_outside:
  assumes "descriptor_ok h lo hi" "lo \<le> unat x" "unat x < hi"
  shows "x \<notin> header_of (h_free h)"
  using assms by (auto simp: descriptor_ok_def header_of_def)

lemma hf_disjoint: "descriptor_ok h lo hi \<Longrightarrow> free_ok lo hi bs \<Longrightarrow> header_of (h_free h) \<inter> extent bs = {}"
  using hf_outside extent_bounds by blast

lemma placed_extent: "placed lo hi u \<Longrightarrow> x \<in> extent [u] \<Longrightarrow> lo \<le> unat x \<and> unat x < hi"
  by (cases u) (auto simp: placed_def)

text \<open>What a change confined to free memory and the descriptor leaves alone.\<close>

lemma untouched:
  assumes "frame (header_of (h_free h) \<union> extent bs) m m'" "descriptor_ok h lo hi" "placed lo hi u" "apart_blocks u bs"
  shows "allocated h m u \<Longrightarrow> allocated h m' u" "x \<in> extent [u] \<Longrightarrow> m' x = m x"
proof -
  obtain b w where u: "u = (b, w)" by fastforce
  have d: "extent [u] \<inter> (header_of (h_free h) \<union> extent bs) = {}"
    using apart_extent [of b w bs] assms(4) hf_outside [OF assms(2)] placed_extent [OF assms(3)] u by blast
  have "header_of b \<inter> (header_of (h_free h) \<union> extent bs) = {}"
    using d header_in_extent [of b w] u by blast
  moreover have "al8 b" using assms(3) by (simp add: u placed_def)
  ultimately show "allocated h m u \<Longrightarrow> allocated h m' u"
    using frame_get [OF assms(1)] by (simp add: allocated_def u)
  show "x \<in> extent [u] \<Longrightarrow> m' x = m x" using assms(1) d by (auto simp: frame_def)
qed

lemma chHeapAlloc_ok:
  assumes ok: "heap_ok h lo hi s us" and req: "unat req + 7 < 2 ^ 32"
  shows "\<exists>p s'. chHeapAlloc h req s = Some (p, s') \<and> (p = 0 \<and> s' = s \<or>
    p \<noteq> 0 \<and> unat req \<le> unat (get_size (hmem s') (p - 8)) \<and>
    heap_ok h lo hi s' ((p - 8, get_size (hmem s') (p - 8)) # us) \<and> same_payload us s s')"
proof -
  obtain bs where bs: "chain (hmem s) (h_free h) bs" "get_size (hmem s) (h_free h) = 0" "free_ok lo hi bs"
    "\<forall>u \<in> set us. allocated h (hmem s) u \<and> placed lo hi u \<and> apart_blocks u bs" "apart_list us"
    "total bs + total us = hi - lo" and d: "descriptor_ok h lo hi"
    using ok by (auto simp: heap_ok_def)
  have hi: "hi < 2 ^ 32" and np: "\<not> h_provider h" and hf: "al8 (h_free h)" using d by (simp_all add: descriptor_ok_def)
  let ?r = "MEM_ALIGN_NEXT req"
  note ref = alloc_loop_refines [OF bs(1,3) hi hf hf_disjoint [OF d bs(3)] al8_align, of h req]
  show ?thesis
  proof (cases "alloc_spec ?r bs")
    case None
    then show ?thesis using ref np by (simp add: chHeapAlloc_def Let_def)
  next
    case (Some r)
    obtain a z bs' where r: "r = ((a, z), bs')" by (metis prod.exhaust)
    obtain m' where m': "alloc_loop h ?r (h_free h) (hmem s) = Some (a + 8, m')" "chain m' (h_free h) bs'"
      "get_size m' a = z" "get_next m' a = heap_id h" "get_size m' (h_free h) = get_size (hmem s) (h_free h)"
      "frame (header_of (h_free h) \<union> extent bs) (hmem s) m'"
      using ref by (auto simp: Some r)
    have sp: "free_ok lo hi bs'" "total bs = unat z + 8 + total bs'" "extent bs = extent [(a, z)] \<union> extent bs'"
      "placed lo hi (a, z)" "apart_blocks (a, z) bs'" "?r \<le> z"
      using alloc_spec_ok [OF Some [unfolded r] bs(3) hi al8_align] by simp_all
    have p: "a + 8 \<noteq> 0"
      using end_unat [of a 0] sp(4) hi by (auto simp: placed_def word_unat_eq_iff)
    let ?s = "s\<lparr>hmem := m'\<rparr>"
    have run: "chHeapAlloc h req s = Some (a + 8, ?s)" using m'(1) p by (simp add: chHeapAlloc_def Let_def)
    have keep: "allocated h m' u \<and> placed lo hi u \<and> apart_blocks u bs' \<and> apart_blocks (a, z) [u] \<and>
        (\<forall>x \<in> extent [u]. m' x = hmem s x)" if "u \<in> set us" for u
    proof -
      obtain b w where u: "u = (b, w)" by fastforce
      have o: "allocated h (hmem s) u" "placed lo hi u" "apart_blocks u bs" using bs(4) that by auto
      note un = untouched [OF m'(6) d o(2,3)]
      have ne: "extent [u] \<inter> extent bs = {}" using apart_extent o(3) by (simp add: u)
      have bu: "b \<in> extent [u]" "unat b + 8 + unat w < 2 ^ 32" using o(2) hi by (auto simp: u placed_def)
      have aa: "a \<in> extent [(a, z)]" by simp
      have 1: "apart_blocks (a, z) [u]"
      proof (rule ccontr)
        assume "\<not> apart_blocks (a, z) [u]"
        then have "b \<in> extent [(a, z)] \<or> a \<in> extent [u]" by (auto simp: apart_blocks_def u)
        then show False using ne sp(3) bu aa by blast
      qed
      have 2: "apart_blocks u bs'"
      proof -
        have "block_end u \<le> unat c \<or> block_end (c, v) \<le> unat b" if "(c, v) \<in> set bs'" for c v
        proof (rule ccontr)
          assume n: "\<not> ?thesis"
          then have "b \<in> extent [(c, v)] \<or> c \<in> extent [u]" by (auto simp: u)
          moreover have "extent [(c, v)] \<subseteq> extent bs'" "c \<in> extent [(c, v)]" using that by (auto simp: extent_def)
          ultimately show False using ne sp(3) bu(1) by blast
        qed
        then show ?thesis unfolding apart_blocks_def u by fastforce
      qed
      show ?thesis using un o 1 2 by auto
    qed
    have "heap_ok h lo hi ?s ((a, z) # us)"
      unfolding heap_ok_def
    proof (intro conjI exI [of _ bs'])
      show "\<forall>u \<in> set ((a, z) # us). allocated h (hmem ?s) u \<and> placed lo hi u \<and> apart_blocks u bs'"
        using keep m'(3,4) sp(4,5) by (auto simp: allocated_def)
      show "apart_list ((a, z) # us)" using keep bs(5) by (auto simp: apart_blocks_def)
    qed (use d m' bs sp in auto)
    moreover have "same_payload us s ?s"
      using keep payload_in by (fastforce simp: same_payload_def)
    moreover have "unat req \<le> unat z" using align_ge [OF req] sp(6) by (simp add: word_le_nat_alt)
    ultimately show ?thesis using run p m'(3) by auto
  qed
qed

lemma apart_list_mem:
  "apart_list us \<Longrightarrow> u \<in> set us \<Longrightarrow> v \<in> set us \<Longrightarrow> u \<noteq> v \<Longrightarrow>
   block_end u \<le> unat (fst v) \<or> block_end v \<le> unat (fst u)"
  by (induction us) (auto simp: apart_blocks_def)

lemma apart_list_remove: "apart_list us \<Longrightarrow> apart_list (remove1 u us)"
  by (induction us) (auto simp: apart_blocks_def dest: notin_set_remove1)

lemma apart_list_distinct: "apart_list us \<Longrightarrow> distinct us"
  by (induction us) (auto simp: apart_blocks_def block_end_def)

lemma total_remove1: "u \<in> set us \<Longrightarrow> total us = unat (snd u) + 8 + total (remove1 u us)"
  by (induction us) (auto simp: total_def split: prod.splits)

lemma after_header: "al8 p \<Longrightarrow> unat (p + 8) = unat p + 8 \<or> p + 8 = 0"
  using end_unat [of p 0] al8_bound [of p]
  by (cases "unat p + 8 < 2 ^ 32") (simp_all add: word_unat_eq_iff unat_word_ariths)

lemma chHeapFree_ok:
  assumes ok: "heap_ok h lo hi s us" and u: "(a, z) \<in> set us" and hf_of: "hf_of (heap_id h) = h_free h"
  shows "\<exists>s'. chHeapFree hf_of (a + 8) s = Some s' \<and> heap_ok h lo hi s' (remove1 (a, z) us) \<and>
    same_payload (remove1 (a, z) us) s s'"
proof -
  obtain bs where bs: "chain (hmem s) (h_free h) bs" "get_size (hmem s) (h_free h) = 0" "free_ok lo hi bs"
    "\<forall>u \<in> set us. allocated h (hmem s) u \<and> placed lo hi u \<and> apart_blocks u bs" "apart_list us"
    "total bs + total us = hi - lo" and d: "descriptor_ok h lo hi"
    using ok by (auto simp: heap_ok_def)
  let ?hf = "h_free h" and ?m = "hmem s"
  have az: "get_size ?m a = z" "get_next ?m a = heap_id h" "placed lo hi (a, z)" "apart_blocks (a, z) bs"
    using bs(4) u by (fastforce simp: allocated_def)+
  have hi: "hi < 2 ^ 32" and hf: "al8 ?hf" using d by (simp_all add: descriptor_ok_def)
  have e: "unat a + 8 + unat z < 2 ^ 32" "al8 a" "a \<noteq> 0" using az(3) hi by (simp_all add: placed_def)
  have hfa: "?hf \<noteq> a" "?hf + 8 \<noteq> a"
  proof -
    have "lo \<le> unat a" "unat a < hi" using az(3) by (simp_all add: placed_def)
    then show "?hf \<noteq> a" "?hf + 8 \<noteq> a"
      using after_header [OF hf] d e(3) by (auto simp: descriptor_ok_def)
  qed
  have nohf: "\<forall>b \<in> set bs. fst b \<noteq> ?hf" and gap: "bs \<noteq> [] \<longrightarrow> ?hf + 8 + 0 \<noteq> fst (hd bs)"
  proof -
    have in_area: "lo \<le> unat (fst b) \<and> unat (fst b) < hi \<and> fst b \<noteq> 0" if "b \<in> set bs" for b
      using free_ok_mem [OF bs(3), of "fst b" "snd b"] that by (simp add: block_end_def)
    then show "\<forall>b \<in> set bs. fst b \<noteq> ?hf" using d by (fastforce simp: descriptor_ok_def)
    show "bs \<noteq> [] \<longrightarrow> ?hf + 8 + 0 \<noteq> fst (hd bs)"
      using in_area [of "hd bs"] d after_header [OF hf] by (auto simp: descriptor_ok_def)
  qed
  obtain m' w' rest where m': "free_loop ?hf a ?hf ?m = Some m'" "join (?hf, 0) (free_spec (a, z) bs) = (?hf, w') # rest"
    "get_size m' ?hf = w'" "chain m' ?hf rest" "frame (header_of ?hf \<union> header_of a \<union> extent bs) ?m m'"
    using free_loop_refines [OF bs(1,2) az(1) bs(3) hi hf e(2,3) _ hfa(1) e(1) hf_disjoint [OF d bs(3)] az(4) nohf gap] by auto
  note sp = free_spec_ok [OF bs(3) az(3,4) hi]
  have nj: "w' = 0" "rest = free_spec (a, z) bs"
  proof -
    have "?hf + 8 + 0 \<noteq> fst (hd (free_spec (a, z) bs))" if "free_spec (a, z) bs \<noteq> []"
    proof (cases bs)
      case Nil then show ?thesis using hfa(2) by simp
    next
      case (Cons c cs)
      then show ?thesis
        using gap hfa(2) join_Cons [of a z "c # cs"] join_Cons [of "fst c" "snd c" "free_spec (a, z) cs"]
        by (cases c) (auto split: if_splits)
    qed
    then have "join (?hf, 0) (free_spec (a, z) bs) = (?hf, 0) # free_spec (a, z) bs"
      by (cases "free_spec (a, z) bs") auto
    then show "w' = 0" "rest = free_spec (a, z) bs" using m'(2) by simp_all
  qed
  let ?s = "s\<lparr>hmem := m'\<rparr>" and ?us = "remove1 (a, z) us"
  have run: "chHeapFree hf_of (a + 8) s = Some ?s"
    using m'(1) az(2) hf_of by (simp add: chHeapFree_def Let_def)
  have fr: "frame (header_of ?hf \<union> extent (free_spec (a, z) bs)) ?m m'"
    by (rule frame_mono [OF m'(5)]) (use sp header_in_extent [of a z] in auto)
  have keep: "allocated h m' v \<and> placed lo hi v \<and> apart_blocks v (free_spec (a, z) bs) \<and> (\<forall>x \<in> extent [v]. m' x = ?m x)"
    if "v \<in> set ?us" for v
  proof -
    obtain b w where v: "v = (b, w)" by fastforce
    have vu: "v \<in> set us" "v \<noteq> (a, z)"
      using that apart_list_distinct [OF bs(5)] by (auto dest: notin_set_remove1)
    have o: "allocated h ?m v" "placed lo hi v" "apart_blocks v bs" using bs(4) vu by auto
    have "extent [v] \<inter> extent (free_spec (a, z) bs) = {}"
      using sp apart_extent [of b w bs] o(3) apart_list_mem [OF bs(5) u vu(1)] vu(2) by (auto simp: v)
    then have ap: "apart_blocks v (free_spec (a, z) bs)"
    proof -
      assume ne: "extent [v] \<inter> extent (free_spec (a, z) bs) = {}"
      have "block_end v \<le> unat (fst c) \<or> block_end c \<le> unat b" if "c \<in> set (free_spec (a, z) bs)" for c
      proof (rule ccontr)
        assume "\<not> ?thesis"
        then have "b \<in> extent [c] \<or> fst c \<in> extent [v]" by (cases c) (auto simp: v)
        moreover have "extent [c] \<subseteq> extent (free_spec (a, z) bs)" "fst c \<in> extent [c]" "b \<in> extent [v]"
          using that by (cases c; auto simp: extent_def v)+
        ultimately show False using ne by blast
      qed
      then show ?thesis by (simp add: apart_blocks_def v)
    qed
    from untouched [OF fr d o(2) ap] o ap show ?thesis by auto
  qed
  have "heap_ok h lo hi ?s ?us"
    unfolding heap_ok_def
  proof (intro conjI exI [of _ "free_spec (a, z) bs"])
    show "\<forall>v \<in> set ?us. allocated h (hmem ?s) v \<and> placed lo hi v \<and> apart_blocks v (free_spec (a, z) bs)"
      using keep by auto
    show "total (free_spec (a, z) bs) + total ?us = hi - lo" using sp bs(6) total_remove1 [OF u] by simp
  qed (use d m' nj sp apart_list_remove [OF bs(5)] in auto)
  moreover have "same_payload ?us s ?s"
    using keep payload_in by (fastforce simp: same_payload_def)
  ultimately show ?thesis using run by blast
qed

lemma heap_ok_payload_write:
  assumes ok: "heap_ok h lo hi s us" and u: "u \<in> set us" and fr: "frame (payload [u]) (hmem s) m'"
  shows "heap_ok h lo hi (s\<lparr>hmem := m'\<rparr>) us"
proof -
  obtain bs where bs: "chain (hmem s) (h_free h) bs" "get_size (hmem s) (h_free h) = 0" "free_ok lo hi bs"
    "\<forall>u \<in> set us. allocated h (hmem s) u \<and> placed lo hi u \<and> apart_blocks u bs" "apart_list us"
    "total bs + total us = hi - lo" and d: "descriptor_ok h lo hi"
    using ok by (auto simp: heap_ok_def)
  obtain b w where ub: "u = (b, w)" by fastforce
  have pu: "placed lo hi (b, w)" "apart_blocks (b, w) bs" using bs(4) u ub by auto
  have pay: "payload [u] \<subseteq> extent [(b, w)]" "header_of b \<inter> payload [u] = {}"
    by (auto simp: payload_def header_of_def ub)
  have hi: "hi < 2 ^ 32" and hf: "al8 (h_free h)" using d by (simp_all add: descriptor_ok_def)
  have "header_of (h_free h) \<inter> payload [u] = {}"
    using pay hf_outside [OF d] placed_extent [OF pu(1)] by blast
  note g = frame_get [OF fr hf this]
  have "extent bs \<inter> payload [u] = {}" using apart_extent [OF pu(2)] pay by blast
  then have ch: "chain m' (h_free h) bs" using frame_chain [OF fr _ g(1) bs(3) hi] bs(1) by blast
  have "allocated h m' v" if v: "v \<in> set us" for v
  proof (cases "v = u")
    case True
    have "al8 b" "allocated h (hmem s) u" using pu(1) bs(4) u by (auto simp: placed_def)
    then show ?thesis using frame_get [OF fr _ pay(2)] by (simp add: True allocated_def ub)
  next
    case False
    obtain c y where c: "v = (c, y)" by fastforce
    have "extent [v] \<inter> extent [u] = {}"
      using apart_list_mem [OF bs(5) u v] False by (auto simp: c ub)
    then have "header_of c \<inter> payload [u] = {}" using header_in_extent [of c y] pay(1) ub c by blast
    moreover have "al8 c" using bs(4) v c by (auto simp: placed_def)
    ultimately show ?thesis using frame_get [OF fr] bs(4) v by (auto simp: allocated_def c)
  qed
  then show ?thesis
    using bs ch g d unfolding heap_ok_def by (intro conjI exI [of _ bs]) auto
qed

lemma payload_range:
  assumes "unat b + 8 + unat w < 2 ^ 32"
  shows "in_range x (b + 8) n \<and> n \<le> unat w \<longrightarrow> x \<in> payload [(b, w)]"
proof -
  have "unat (b + 8) = unat b + 8" using end_unat [of b 0] assms by simp
  then show ?thesis using assms by (auto simp: payload_def in_range_unat)
qed

section \<open>The contract of an allocator\<close>

datatype request = Alloc u32 | Release nat | Write nat nat "u8 list"

text \<open>A client that allocates, releases the block at a position of the list of its live blocks, and writes bytes at an offset of such a block.  The last two
  components are the live blocks and what the client has written to them: the value of each byte it expects to find there.\<close>

fun serve :: "(u32 \<Rightarrow> 's \<Rightarrow> (u32 \<times> 's) option) \<Rightarrow> (u32 \<Rightarrow> 's \<Rightarrow> 's option) \<Rightarrow> (u32 \<Rightarrow> u8 list \<Rightarrow> 's \<Rightarrow> 's) \<Rightarrow> ('s \<Rightarrow> u32 \<Rightarrow> u32) \<Rightarrow>
    request list \<Rightarrow> 's \<Rightarrow> block list \<Rightarrow> (u32 \<rightharpoonup> u8) \<Rightarrow> ('s \<times> block list \<times> (u32 \<rightharpoonup> u8)) option" where
  "serve alloc release put block_size [] s us wr = Some (s, us, wr)"
| "serve alloc release put block_size (Alloc n # rs) s us wr =
     (case alloc n s of None \<Rightarrow> None
      | Some (p, s') \<Rightarrow> if p = 0 then serve alloc release put block_size rs s' us wr
          else serve alloc release put block_size rs s' ((p - 8, block_size s' (p - 8)) # us) wr)"
| "serve alloc release put block_size (Release i # rs) s us wr =
     (if i < length us
      then (case release (fst (us ! i) + 8) s of None \<Rightarrow> None
            | Some s' \<Rightarrow> serve alloc release put block_size rs s' (remove1 (us ! i) us) (wr |` (- payload [us ! i])))
      else serve alloc release put block_size rs s us wr)"
| "serve alloc release put block_size (Write i off bs # rs) s us wr =
     (if i < length us \<and> off + length bs \<le> unat (snd (us ! i))
      then (let p = fst (us ! i) + 8 + of_nat off
            in serve alloc release put block_size rs (put p bs s) us (\<lambda>x. if in_range x p (length bs) then Some (bs ! unat (x - p)) else wr x))
      else serve alloc release put block_size rs s us wr)"

text \<open>The laws: blocks are handed out and taken back while the bytes of the others stay as they are, and the client may write to its blocks.\<close>

locale allocator =
  fixes alloc :: "u32 \<Rightarrow> 's \<Rightarrow> (u32 \<times> 's) option"
    and release :: "u32 \<Rightarrow> 's \<Rightarrow> 's option"
    and put :: "u32 \<Rightarrow> u8 list \<Rightarrow> 's \<Rightarrow> 's"
    and block_size :: "'s \<Rightarrow> u32 \<Rightarrow> u32"
    and bytes :: "'s \<Rightarrow> mem"
    and ok :: "'s \<Rightarrow> block list \<Rightarrow> bool"
  assumes alloc_ok: "ok s us \<Longrightarrow> unat req + 7 < 2 ^ 32 \<Longrightarrow> \<exists>p s'. alloc req s = Some (p, s') \<and>
      (p = 0 \<and> s' = s \<or> p \<noteq> 0 \<and> unat req \<le> unat (block_size s' (p - 8)) \<and> ok s' ((p - 8, block_size s' (p - 8)) # us) \<and>
       (\<forall>x \<in> payload us. bytes s' x = bytes s x))"
    and release_ok: "ok s us \<Longrightarrow> (a, z) \<in> set us \<Longrightarrow> \<exists>s'. release (a + 8) s = Some s' \<and> ok s' (remove1 (a, z) us) \<and>
      (\<forall>x \<in> payload (remove1 (a, z) us). bytes s' x = bytes s x)"
    and put_ok: "ok s us \<Longrightarrow> (a, z) \<in> set us \<Longrightarrow> off + length bs \<le> unat z \<Longrightarrow>
      ok (put (a + 8 + of_nat off) bs s) us \<and> bytes (put (a + 8 + of_nat off) bs s) = put_bytes (a + 8 + of_nat off) bs (bytes s) \<and>
      (\<forall>x. in_range x (a + 8 + of_nat off) (length bs) \<longrightarrow> x \<in> payload us)"
begin

lemma payload_remove: "payload us - payload [u] \<subseteq> payload (remove1 u us)"
proof
  fix x assume "x \<in> payload us - payload [u]"
  then obtain b w where v: "(b, w) \<in> set us" "unat b + 8 \<le> unat x" "unat x < block_end (b, w)" and n: "x \<notin> payload [u]"
    by (auto simp: payload_def)
  have "(b, w) \<noteq> u" using n v(2,3) by (auto simp: payload_def)
  then have "(b, w) \<in> set (remove1 u us)" using v(1) by simp
  then show "x \<in> payload (remove1 u us)" using v(2,3) unfolding payload_def by blast
qed

lemma serve_ok:
  assumes "ok s us" "\<forall>n. Alloc n \<in> set rs \<longrightarrow> unat n + 7 < 2 ^ 32" "dom wr \<subseteq> payload us" "\<forall>x b. wr x = Some b \<longrightarrow> bytes s x = b"
  shows "\<exists>s' us' wr'. serve alloc release put block_size rs s us wr = Some (s', us', wr') \<and> ok s' us' \<and>
    dom wr' \<subseteq> payload us' \<and> (\<forall>x b. wr' x = Some b \<longrightarrow> bytes s' x = b)"
  using assms
proof (induction rs arbitrary: s us wr)
  case Nil then show ?case by simp
next
  case (Cons r rs)
  note D = Cons.prems(3,4)
  have small: "\<forall>n. Alloc n \<in> set rs \<longrightarrow> unat n + 7 < 2 ^ 32" using Cons.prems(2) by simp
  note IH = Cons.IH [OF _ small]
  show ?case
  proof (cases r)
    case (Alloc n)
    then have n: "unat n + 7 < 2 ^ 32" using Cons.prems(2) by simp
    obtain p s' where p: "alloc n s = Some (p, s')" "p = 0 \<and> s' = s \<or> p \<noteq> 0 \<and> ok s' ((p - 8, block_size s' (p - 8)) # us) \<and>
        (\<forall>x \<in> payload us. bytes s' x = bytes s x)"
      using alloc_ok [OF Cons.prems(1) n] by blast
    show ?thesis
    proof (cases "p = 0")
      case True
      then show ?thesis using p IH [OF Cons.prems(1) D] by (simp add: Alloc)
    next
      case False
      let ?us = "(p - 8, block_size s' (p - 8)) # us"
      have "dom wr \<subseteq> payload ?us" using D(1) by (auto simp: payload_def)
      moreover have "\<forall>x b. wr x = Some b \<longrightarrow> bytes s' x = b"
      proof (intro allI impI)
        fix x b assume x: "wr x = Some b"
        then have "x \<in> payload us" using D(1) by (auto simp: dom_def)
        then show "bytes s' x = b" using p(2) False D(2) x by simp
      qed
      ultimately show ?thesis using p False IH [of s' ?us wr] by (simp add: Alloc)
    qed
  next
    case (Release i)
    show ?thesis
    proof (cases "i < length us")
      case True
      then have "(fst (us ! i), snd (us ! i)) \<in> set us" by simp
      from release_ok [OF Cons.prems(1) this] obtain s' where s': "release (fst (us ! i) + 8) s = Some s'" "ok s' (remove1 (us ! i) us)"
        "\<forall>x \<in> payload (remove1 (us ! i) us). bytes s' x = bytes s x" by auto
      let ?wr = "wr |` (- payload [us ! i])"
      have d: "dom ?wr \<subseteq> payload (remove1 (us ! i) us)" using D(1) payload_remove [of us "us ! i"] by auto
      have "bytes s' x = b" if "?wr x = Some b" for x b
      proof -
        have "x \<in> dom ?wr" "wr x = Some b" using that by (auto simp: restrict_map_def split: if_splits)
        then have "x \<in> payload (remove1 (us ! i) us)" "bytes s x = b" using d D(2) by blast+
        then show ?thesis using s'(3) by simp
      qed
      then have "\<exists>s'' us' wr'. serve alloc release put block_size rs s' (remove1 (us ! i) us) ?wr = Some (s'', us', wr') \<and> ok s'' us' \<and>
          dom wr' \<subseteq> payload us' \<and> (\<forall>x b. wr' x = Some b \<longrightarrow> bytes s'' x = b)"
        using IH [OF s'(2) d] by blast
      then show ?thesis using s'(1) True unfolding Release serve.simps by simp
    next
      case False
      then show ?thesis using IH [OF Cons.prems(1) D] by (simp add: Release)
    qed
  next
    case (Write i off bs)
    show ?thesis
    proof (cases "i < length us \<and> off + length bs \<le> unat (snd (us ! i))")
      case True
      let ?p = "fst (us ! i) + 8 + of_nat off"
      let ?wr = "\<lambda>x. if in_range x ?p (length bs) then Some (bs ! unat (x - ?p)) else wr x"
      have "(fst (us ! i), snd (us ! i)) \<in> set us" using True by simp
      note P = put_ok [OF Cons.prems(1) this, of off bs]
      have o: "ok (put ?p bs s) us" "bytes (put ?p bs s) = put_bytes ?p bs (bytes s)" "\<forall>x. in_range x ?p (length bs) \<longrightarrow> x \<in> payload us"
        using P True by simp_all
      have "length bs \<le> 2 ^ 32" using True unat_u32_lt [of "snd (us ! i)"] by simp
      then have "\<forall>x b. ?wr x = Some b \<longrightarrow> bytes (put ?p bs s) x = b"
        using D(2) unfolding o(2) by (simp add: put_bytes_apply in_range_def)
      moreover have "dom ?wr \<subseteq> payload us" using D(1) o(3) by (auto simp: dom_def)
      ultimately have "\<exists>s'' us' wr'. serve alloc release put block_size rs (put ?p bs s) us ?wr = Some (s'', us', wr') \<and> ok s'' us' \<and>
          dom wr' \<subseteq> payload us' \<and> (\<forall>x b. wr' x = Some b \<longrightarrow> bytes s'' x = b)"
        using IH [OF o(1)] by blast
      then show ?thesis using True unfolding Write serve.simps Let_def by simp
    next
      case False
      show ?thesis using IH [OF Cons.prems(1) D] unfolding Write serve.simps if_not_P [OF False] .
    qed
  qed
qed

end

definition heap_put :: "u32 \<Rightarrow> u8 list \<Rightarrow> heap_st \<Rightarrow> heap_st" where
  "heap_put p bs s = s\<lparr>hmem := put_bytes p bs (hmem s)\<rparr>"

lemma heap_put_ok:
  assumes ok: "heap_ok h lo hi s us" and u: "(a, z) \<in> set us" and fits: "off + length bs \<le> unat z"
  shows "heap_ok h lo hi (heap_put (a + 8 + of_nat off) bs s) us \<and>
    (\<forall>x. in_range x (a + 8 + of_nat off) (length bs) \<longrightarrow> x \<in> payload us)"
proof -
  have "placed lo hi (a, z)" "hi < 2 ^ 32" using ok u by (fastforce simp: heap_ok_def descriptor_ok_def)+
  then have e: "unat a + 8 + unat z < 2 ^ 32" by (simp add: placed_def)
  have "unat (a + 8 + of_nat off) = unat a + 8 + off"
    using e fits unat_offset [of a "8 + off"] by (simp add: add.assoc)
  then have r: "in_range x (a + 8 + of_nat off) (length bs) \<longleftrightarrow> unat a + 8 + off \<le> unat x \<and> unat x < unat a + 8 + off + length bs" for x
    using e fits by (subst in_range_unat) simp_all
  then have p: "x \<in> payload [(a, z)]" if "in_range x (a + 8 + of_nat off) (length bs)" for x
    using that fits by (auto simp: payload_def)
  then have "frame (payload [(a, z)]) (hmem s) (put_bytes (a + 8 + of_nat off) bs (hmem s))"
    unfolding frame_def
  proof (intro allI impI)
    fix x assume "x \<notin> payload [(a, z)]"
    then have "\<not> in_range x (a + 8 + of_nat off) (length bs)" using p by blast
    moreover have "length bs \<le> 2 ^ 32" using e fits by simp
    ultimately show "put_bytes (a + 8 + of_nat off) bs (hmem s) x = hmem s x" by (intro put_bytes_outside)
  qed
  from heap_ok_payload_write [OF ok u this] show ?thesis
    using p u unfolding heap_put_def payload_def by fastforce
qed

interpretation ch_heap: allocator "chHeapAlloc h" "chHeapFree (\<lambda>_. h_free h)" heap_put "\<lambda>s. get_size (hmem s)" hmem "heap_ok h lo hi"
  for h lo hi
proof unfold_locales
  show "\<exists>p s'. chHeapAlloc h req s = Some (p, s') \<and> (p = 0 \<and> s' = s \<or> p \<noteq> 0 \<and>
      unat req \<le> unat (get_size (hmem s') (p - 8)) \<and> heap_ok h lo hi s' ((p - 8, get_size (hmem s') (p - 8)) # us) \<and>
      (\<forall>x \<in> payload us. hmem s' x = hmem s x))"
    if "heap_ok h lo hi s us" "unat req + 7 < 2 ^ 32" for s us req
    using chHeapAlloc_ok [OF that] unfolding same_payload_def by blast
  show "\<exists>s'. chHeapFree (\<lambda>_. h_free h) (a + 8) s = Some s' \<and> heap_ok h lo hi s' (remove1 (a, z) us) \<and>
      (\<forall>x \<in> payload (remove1 (a, z) us). hmem s' x = hmem s x)"
    if "heap_ok h lo hi s us" "(a, z) \<in> set us" for s us a z
    using chHeapFree_ok [OF that, of "\<lambda>_. h_free h"] unfolding same_payload_def by blast
  show "heap_ok h lo hi (heap_put (a + 8 + of_nat off) bs s) us \<and>
      hmem (heap_put (a + 8 + of_nat off) bs s) = put_bytes (a + 8 + of_nat off) bs (hmem s) \<and>
      (\<forall>x. in_range x (a + 8 + of_nat off) (length bs) \<longrightarrow> x \<in> payload us)"
    if "heap_ok h lo hi s us" "(a, z) \<in> set us" "off + length bs \<le> unat z" for s us a z off bs
    using heap_put_ok [OF that] by (simp add: heap_put_def)
qed

text \<open>A buffer fit to become a heap: aligned, holding at least a header, away from the descriptor.\<close>

definition heap_area :: "u32 \<Rightarrow> u32 \<Rightarrow> u32 \<Rightarrow> bool" where
  "heap_area hf buf len \<longleftrightarrow> al8 hf \<and> al8 buf \<and> al8 len \<and> 8 \<le> unat len \<and> buf \<noteq> 0 \<and> unat buf + unat len < 2 ^ 32 \<and>
     (unat hf + 8 < unat buf \<or> unat buf + unat len \<le> unat hf)"

lemma heap_init_ok:
  assumes "heap_area hf buf len" "chHeapObjectInit hp hf buf len m0 = (h, m)"
  shows "heap_ok h (unat buf) (unat buf + unat len) \<lparr>hmem = m, hcore = c\<rparr> []" "h_free h = hf"
proof -
  have a: "al8 hf" "al8 buf" "hf \<noteq> buf" "8 \<le> unat len" "buf \<noteq> 0" "al8 len"
    using assms(1) by (auto simp: heap_area_def)
  have h: "h = \<lparr>heap_id = hp, h_free = hf, h_provider = False\<rparr>"
    "m = set_size buf (len - 8) (set_next buf 0 (set_size hf 0 (set_next hf buf m0)))"
    using assms(2) by (simp_all add: chHeapObjectInit_def)
  have l: "unat (len - 8) = unat len - 8" "al8 (len - 8)"
    using a by (simp_all add: unat_sub word_le_nat_alt al8_diff)
  have "chain m hf [(buf, len - 8)]" "get_size m hf = 0"
    using a by (auto simp: h header_get_set)
  then show "heap_ok h (unat buf) (unat buf + unat len) \<lparr>hmem = m, hcore = c\<rparr> []"
    using assms(1) a l by (auto simp: heap_ok_def h(1) descriptor_ok_def heap_area_def intro!: exI [of _ "[(buf, len - 8)]"])
qed (use assms(2) in \<open>auto simp: chHeapObjectInit_def\<close>)

lemma apart_list_pairwise:
  "apart_list us \<Longrightarrow> i < j \<Longrightarrow> j < length us \<Longrightarrow> block_end (us ! i) \<le> unat (fst (us ! j)) \<or> block_end (us ! j) \<le> unat (fst (us ! i))"
proof (induction us arbitrary: i j)
  case (Cons u us)
  then show ?case by (cases i; cases j) (auto simp: apart_blocks_def)
qed simp

lemma chain_unique: "chain m p bs \<Longrightarrow> chain m p cs \<Longrightarrow> bs = cs"
proof (induction bs arbitrary: p cs)
  case Nil then show ?case by (cases cs) auto
next
  case (Cons b bs)
  then show ?case by (cases b; cases cs) auto
qed

lemma alloc_spec_None: "alloc_spec req bs = None \<longleftrightarrow> (\<forall>b \<in> set bs. snd b < req)"
  by (induction bs) (auto simp: not_le split: if_splits)

lemma chHeapAlloc_null:
  assumes "heap_ok h lo hi s us" "chain (hmem s) (h_free h) bs"
  shows "(\<exists>s'. chHeapAlloc h req s = Some (0, s')) \<longleftrightarrow> alloc_spec (MEM_ALIGN_NEXT req) bs = None"
proof -
  obtain cs where cs: "chain (hmem s) (h_free h) cs" "free_ok lo hi cs" and d: "descriptor_ok h lo hi"
    using assms(1) by (auto simp: heap_ok_def)
  then have eq: "cs = bs" using chain_unique assms(2) by blast
  have hi: "hi < 2 ^ 32" and np: "\<not> h_provider h" and hf: "al8 (h_free h)" using d by (simp_all add: descriptor_ok_def)
  note ref = alloc_loop_refines [OF cs hi hf hf_disjoint [OF d cs(2)] al8_align, of h req]
  show ?thesis
  proof (cases "alloc_spec (MEM_ALIGN_NEXT req) bs")
    case None
    then show ?thesis using ref np by (simp add: eq chHeapAlloc_def Let_def)
  next
    case (Some r)
    obtain a z bs' where r: "r = ((a, z), bs')" by (metis prod.exhaust)
    have "placed lo hi (a, z)" using alloc_spec_ok [OF Some [unfolded r] _ hi al8_align] cs(2) eq by simp
    then have p: "a + 8 \<noteq> 0" using end_unat [of a 0] hi by (auto simp: placed_def word_unat_eq_iff)
    from ref Some r p show ?thesis by (auto simp: eq chHeapAlloc_def Let_def)
  qed
qed

section \<open>Properties of the heap\<close>

text \<open>C11: The heap never hands out overlapping memory, keeps what is in it and never loses any.  From a freshly initialised heap,
  every sequence of allocations (of any sizes that can be rounded up to a multiple of eight),
  releases, and writes of the client into its live blocks is served to the end; at any time the live blocks lie inside the heap area, are aligned
  and pairwise disjoint, headers included; every byte the client has written to a block that is still live is there; the blocks of the free list and the live blocks, headers
  included, add up to the whole area; and once all blocks have been released the free list is again the
  one block that spans the area: freeing coalesces completely.\<close>

theorem heap_serves_requests:
  assumes "heap_area hf buf len" "chHeapObjectInit hp hf buf len m0 = (h, m)"
    "\<forall>n. Alloc n \<in> set rs \<longrightarrow> unat n + 7 < 2 ^ 32"
  shows "\<exists>s' us wr bs. serve (chHeapAlloc h) (chHeapFree (\<lambda>_. h_free h)) heap_put (\<lambda>s. get_size (hmem s)) rs \<lparr>hmem = m, hcore = c\<rparr> [] Map.empty
      = Some (s', us, wr) \<and>
    (\<forall>(a, z) \<in> set us. unat buf \<le> unat a \<and> unat a + 8 + unat z \<le> unat buf + unat len \<and> unat a mod 8 = 0) \<and>
    (\<forall>i j. i < j \<and> j < length us \<longrightarrow>
       block_end (us ! i) \<le> unat (fst (us ! j)) \<or> block_end (us ! j) \<le> unat (fst (us ! i))) \<and>
    (\<forall>x b. wr x = Some b \<longrightarrow> hmem s' x = b) \<and>
    chain (hmem s') hf bs \<and> sum_list (map (\<lambda>(a, z). unat z + 8) bs) + sum_list (map (\<lambda>(a, z). unat z + 8) us) = unat len \<and>
    (us = [] \<longrightarrow> bs = [(buf, len - 8)])"
proof -
  have ok: "heap_ok h (unat buf) (unat buf + unat len) \<lparr>hmem = m, hcore = c\<rparr> []" and hf: "h_free h = hf"
    using heap_init_ok [OF assms(1,2)] by simp_all
  obtain s' us wr where r: "serve (chHeapAlloc h) (chHeapFree (\<lambda>_. h_free h)) heap_put (\<lambda>s. get_size (hmem s)) rs \<lparr>hmem = m, hcore = c\<rparr> [] Map.empty
      = Some (s', us, wr)" "heap_ok h (unat buf) (unat buf + unat len) s' us" "\<forall>x b. wr x = Some b \<longrightarrow> hmem s' x = b"
    using ch_heap.serve_ok [OF ok assms(3), of Map.empty] by auto
  obtain bs where bs: "chain (hmem s') hf bs" "free_ok (unat buf) (unat buf + unat len) bs" "apart_list us"
    "\<forall>u \<in> set us. placed (unat buf) (unat buf + unat len) u" "total bs + total us = unat len"
    using r(2) hf by (auto simp: heap_ok_def)
  have one: "bs = [(buf, len - 8)]" if none: "us = []"
  proof -
    have len: "8 \<le> unat len" using assms(1) by (simp add: heap_area_def)
    obtain a z where az: "bs = [(a, z)]" "unat a = unat buf" "unat z + 8 = unat len"
      using single_block [OF bs(2)] bs(5) none len by auto
    have "a = buf" "z = len - 8"
      using az len by (simp_all add: word_unat_eq_iff unat_sub word_le_nat_alt)
    then show ?thesis using az(1) by simp
  qed
  have live: "\<forall>(a, z) \<in> set us. unat buf \<le> unat a \<and> unat a + 8 + unat z \<le> unat buf + unat len \<and> unat a mod 8 = 0"
    using bs(4) by (auto simp: placed_def al8_def)
  have pairs: "\<forall>i j. i < j \<and> j < length us \<longrightarrow> block_end (us ! i) \<le> unat (fst (us ! j)) \<or> block_end (us ! j) \<le> unat (fst (us ! i))"
    using apart_list_pairwise [OF bs(3)] by blast
  show ?thesis
    by (intro exI conjI; (rule r(1) live pairs r(3) bs(1) bs(5) [unfolded total_def] | rule impI, rule one, assumption))
qed

theorem heap_serves_requests_witness:
  "\<exists>s' us wr. serve (chHeapAlloc (fst (chHeapObjectInit 0x100 0x108 0x200 0x80 (\<lambda>_. 0))))
      (chHeapFree (\<lambda>_. h_free (fst (chHeapObjectInit 0x100 0x108 0x200 0x80 (\<lambda>_. 0))))) heap_put (\<lambda>s. get_size (hmem s))
      [Alloc 10, Write 0 2 [7, 8], Alloc 20, Release 0, Alloc 3]
      \<lparr>hmem = snd (chHeapObjectInit 0x100 0x108 0x200 0x80 (\<lambda>_. 0)), hcore = core_init 0 0\<rparr> [] Map.empty = Some (s', us, wr) \<and>
    (\<forall>x b. wr x = Some b \<longrightarrow> hmem s' x = b)"
proof -
  have a: "heap_area 0x108 0x200 0x80" by (simp add: heap_area_def al8_def)
  have rs: "\<forall>n. Alloc n \<in> set [Alloc 10, Write 0 2 [7, 8], Alloc 20, Release 0, Alloc 3] \<longrightarrow> unat n + 7 < 2 ^ 32" by auto
  have i: "chHeapObjectInit 0x100 0x108 0x200 0x80 (\<lambda>_. 0) =
      (fst (chHeapObjectInit 0x100 0x108 0x200 0x80 (\<lambda>_. 0)), snd (chHeapObjectInit 0x100 0x108 0x200 0x80 (\<lambda>_. 0)))" by simp
  from heap_serves_requests [OF a i rs, where c = "core_init 0 0"] show ?thesis
    by (elim exE conjE) (intro exI conjI; assumption)
qed

text \<open>\<^verbatim>\<open>malloc\<close> fails only when no free block is large enough, changes nothing then, and otherwise
  returns a block of at least the requested size, disjoint from all live ones, without touching
  the contents of any live block.\<close>

theorem malloc_correct:
  assumes "heap_ok h lo hi s us" "unat req + 7 < 2 ^ 32" "chain (hmem s) (h_free h) bs"
  shows "\<exists>p s'. malloc h req s = Some (p, s') \<and>
    (if \<forall>b \<in> set bs. unat (snd b) < (unat req + 7) div 8 * 8 then p = 0 \<and> s' = s
     else p \<noteq> 0 \<and> unat req \<le> unat (get_size (hmem s') (p - 8)) \<and> same_payload us s s' \<and>
       heap_ok h lo hi s' ((p - 8, get_size (hmem s') (p - 8)) # us))"
proof -
  have "(\<forall>b \<in> set bs. unat (snd b) < (unat req + 7) div 8 * 8) \<longleftrightarrow> alloc_spec (MEM_ALIGN_NEXT req) bs = None"
    by (simp add: alloc_spec_None word_less_nat_alt MEM_ALIGN_NEXT_unat [OF assms(2)])
  then show ?thesis
    using chHeapAlloc_ok [OF assms(1,2)] chHeapAlloc_null [OF assms(1,3), of req] unfolding malloc_def by fastforce
qed

lemma demo_heap: "heap_ok (fst (chHeapObjectInit 0x100 0x108 0x200 0x80 (\<lambda>_. 0))) 0x200 0x280
   \<lparr>hmem = snd (chHeapObjectInit 0x100 0x108 0x200 0x80 (\<lambda>_. 0)), hcore = core_init 0 0\<rparr> []"
proof -
  have a: "heap_area 0x108 0x200 0x80" by (simp add: heap_area_def al8_def)
  from heap_init_ok(1) [OF a prod.collapse [symmetric]] show ?thesis by simp
qed

theorem malloc_correct_witness:
  "\<exists>p s'. malloc (fst (chHeapObjectInit 0x100 0x108 0x200 0x80 (\<lambda>_. 0))) 10
     \<lparr>hmem = snd (chHeapObjectInit 0x100 0x108 0x200 0x80 (\<lambda>_. 0)), hcore = core_init 0 0\<rparr> = Some (p, s')"
proof -
  let ?h = "chHeapObjectInit 0x100 0x108 0x200 0x80 (\<lambda>_. 0)"
  have "chain (snd ?h) (h_free (fst ?h)) [(0x200, 0x78)]"
    by (simp add: chHeapObjectInit_def header_get_set al8_def)
  with malloc_correct [OF demo_heap, of 10 "[(0x200, 0x78)]"] show ?thesis by auto
qed

text \<open>Sizes close to \<open>2 ^ 32\<close> wrap in \<^verbatim>\<open>MEM_ALIGN_NEXT\<close>: a request for \<open>0xFFFFFFFF\<close> bytes is rounded to
  zero, and \<^verbatim>\<open>malloc\<close> returns a pointer to an empty block instead of \<^verbatim>\<open>NULL\<close> whenever anything is free.\<close>

theorem malloc_huge_request_succeeds:
  assumes "heap_ok h lo hi s us" "get_next (hmem s) (h_free h) \<noteq> 0"
  shows "\<exists>p s'. malloc h 0xFFFFFFFF s = Some (p, s') \<and> p \<noteq> 0"
proof -
  obtain bs where bs: "chain (hmem s) (h_free h) bs" "free_ok lo hi bs" and d: "descriptor_ok h lo hi"
    using assms(1) by (auto simp: heap_ok_def)
  obtain a z cs where c: "bs = (a, z) # cs" using bs(1) assms(2) by (cases bs) auto
  have z: "MEM_ALIGN_NEXT 0xFFFFFFFF = 0" by (simp add: MEM_ALIGN_NEXT_def MEM_ALIGN_PREV_def)
  have n: "get_next (hmem s) (h_free h) = a" "a \<noteq> 0" using bs(1) by (simp_all add: c)
  have "a + 8 \<noteq> 0"
    using end_unat [of a 0] bs(2) d by (auto simp: c descriptor_ok_def word_unat_eq_iff)
  then show ?thesis
    using n by (auto simp: malloc_def chHeapAlloc_def z alloc_loop.simps [of h 0 "h_free h"] Let_def)
qed

theorem malloc_huge_request_succeeds_witness:
  "\<exists>p s'. malloc (fst (chHeapObjectInit 0x100 0x108 0x200 0x80 (\<lambda>_. 0))) 0xFFFFFFFF
     \<lparr>hmem = snd (chHeapObjectInit 0x100 0x108 0x200 0x80 (\<lambda>_. 0)), hcore = core_init 0 0\<rparr> = Some (p, s') \<and> p \<noteq> 0"
  by (rule malloc_huge_request_succeeds [OF demo_heap])
     (simp add: chHeapObjectInit_def header_get_set al8_def)

lemma payload_bytes:
  assumes "same_payload us s s'" "(b, w) \<in> set us" "unat b + 8 + unat w < 2 ^ 32" "n \<le> unat w"
  shows "mem_bytes (hmem s') (b + 8) n = mem_bytes (hmem s) (b + 8) n"
proof (rule mem_bytes_cong)
  fix i assume "i < n"
  then have "in_range (b + 8 + of_nat i) (b + 8) n" using assms(3,4) by (intro in_range_offset) simp_all
  then have "b + 8 + of_nat i \<in> payload [(b, w)]" using payload_range [OF assms(3)] assms(4) by blast
  then show "hmem s' (b + 8 + of_nat i) = hmem s (b + 8 + of_nat i)"
    using assms(1,2) by (auto simp: same_payload_def payload_def)
qed

lemma no_clobber_apart:
  assumes "apart d (unat n) s (unat n)"
  shows "no_clobber d s n"
proof -
  have "unat (d - s) = (if unat s \<le> unat d then unat d - unat s else unat d + 2 ^ 32 - unat s)"
    unfolding unat_sub_if' by (simp add: word_size)
  then show ?thesis using assms unat_u32_lt [of s] by (auto simp: no_clobber_def apart_def word_le_nat_alt split: if_splits)
qed

text \<open>The size \<^verbatim>\<open>realloc\<close> compares with that of the block.\<close>

lemma realloc_size_unat:
  fixes req :: u32
  assumes req: "unat req + 7 < 2 ^ 32"
  shows "unat (if req mod 8 = 0 then req else req div 8 * 8 + 8) = (unat req + 7) div 8 * 8"
proof -
  have m: "unat (req mod 8) = unat req mod 8" by (simp add: unat_mod)
  have "unat (req div 8 * 8 + 8) = unat req div 8 * 8 + 8" if "req mod 8 \<noteq> 0"
  proof -
    have "unat req mod 8 \<noteq> 0" using that m by (auto simp: word_unat_eq_iff)
    then have "unat req div 8 * 8 + 8 < 2 ^ 32" using req div_mult_mod_eq [of "unat req" 8] by linarith
    then show ?thesis by (simp add: unat_word_ariths unat_div)
  qed
  with m show ?thesis by (auto simp: word_unat_eq_iff) presburger+
qed

lemma copy_payload_frame:
  assumes "unat q + 8 + unat y < 2 ^ 32" "unat z \<le> unat y"
  shows "frame (payload [(q, y)]) m (memcpy (q + 8) src z m)"
  unfolding frame_def
proof (intro allI impI)
  fix x assume "x \<notin> payload [(q, y)]"
  then have "\<not> in_range x (q + 8) (unat z)" using payload_range [OF assms(1), of x "unat z"] assms(2) by auto
  then show "memcpy (q + 8) src z m x = m x" by (rule memcpy.copy_outside)
qed

lemma payload_apart:
  assumes "x \<in> payload us" "apart_blocks (q, y) us"
  shows "x \<notin> payload [(q, y)]"
proof -
  obtain v where v: "v \<in> set us" "x \<in> extent [v]" using payload_in [OF assms(1)] by blast
  show ?thesis using assms(2) v by (cases v) (fastforce simp: apart_blocks_def payload_def)
qed

text \<open>The move: the contents of the block at \<open>a\<close> are copied to the one at \<open>q\<close>, and \<open>a\<close> is released.\<close>

lemma realloc_move:
  assumes ok: "heap_ok h lo hi s ((q, y) # us)" and u: "(a, z) \<in> set us" and zy: "unat z \<le> unat y"
  defines "s2 \<equiv> s\<lparr>hmem := memcpy (q + 8) (a + 8) z (hmem s)\<rparr>"
  obtains s3 where "chHeapFree (\<lambda>_. h_free h) (a + 8) s2 = Some s3" "heap_ok h lo hi s3 ((q, y) # remove1 (a, z) us)"
    "mem_bytes (hmem s3) (q + 8) (unat z) = mem_bytes (hmem s) (a + 8) (unat z)" "same_payload (remove1 (a, z) us) s s3"
proof -
  have hi: "hi < 2 ^ 32" and pl: "placed lo hi (q, y)" "placed lo hi (a, z)" "apart_blocks (q, y) us"
    using ok u by (fastforce simp: heap_ok_def descriptor_ok_def)+
  have a: "unat a + 8 + unat z < 2 ^ 32" "unat (a + 8) = unat a + 8" and q: "unat q + 8 + unat y < 2 ^ 32" "unat (q + 8) = unat q + 8"
    using pl hi end_unat [of a 0] end_unat [of q 0] by (simp_all add: placed_def)
  have ap: "unat q + 8 + unat y \<le> unat a \<or> unat a + 8 + unat z \<le> unat q" using pl(3) u by (auto simp: apart_blocks_def)
  have fr: "frame (payload [(q, y)]) (hmem s) (hmem s2)" using copy_payload_frame [OF q(1) zy] by (simp add: s2_def)
  have ok2: "heap_ok h lo hi s2 ((q, y) # us)" unfolding s2_def
    by (rule heap_ok_payload_write [OF ok _ fr [unfolded s2_def, simplified]]) simp
  have "(a, z) \<in> set ((q, y) # us)" using u by simp
  from chHeapFree_ok [OF ok2 this, of "\<lambda>_. h_free h"] obtain s3 where
    s3: "chHeapFree (\<lambda>_. h_free h) (a + 8) s2 = Some s3" "heap_ok h lo hi s3 (remove1 (a, z) ((q, y) # us))"
      "same_payload (remove1 (a, z) ((q, y) # us)) s2 s3" by auto
  have rm: "remove1 (a, z) ((q, y) # us) = (q, y) # remove1 (a, z) us" using ap by auto
  have "no_clobber (q + 8) (a + 8) z" by (rule no_clobber_apart) (use ap a q zy in \<open>auto simp: apart_def\<close>)
  then have "mem_bytes (hmem s2) (q + 8) (unat z) = mem_bytes (hmem s) (a + 8) (unat z)" using memcpy.copy_bytes by (simp add: s2_def)
  moreover have "mem_bytes (hmem s3) (q + 8) (unat z) = mem_bytes (hmem s2) (q + 8) (unat z)"
    by (rule payload_bytes [OF s3(3) [unfolded rm] _ q(1) zy]) simp
  moreover have "hmem s3 x = hmem s x" if x: "x \<in> payload (remove1 (a, z) us)" for x
  proof -
    have xu: "x \<in> payload us" "x \<in> payload ((q, y) # remove1 (a, z) us)"
      using x set_remove1_subset [of "(a, z)" us] unfolding payload_def by (blast, simp)
    then have "hmem s3 x = hmem s2 x" using s3(3) rm by (auto simp: same_payload_def)
    then show ?thesis using payload_apart [OF xu(1) pl(3)] fr by (simp add: frame_def)
  qed
  ultimately show ?thesis using that s3(1,2) rm by (simp add: same_payload_def)
qed

lemma same_payload_remove:
  assumes "same_payload us s s1" "same_payload (remove1 u us) s1 s3"
  shows "same_payload (remove1 u us) s s3"
proof -
  have "payload (remove1 u us) \<subseteq> payload us" using set_remove1_subset [of u us] unfolding payload_def by blast
  then show ?thesis using assms unfolding same_payload_def by (metis subsetD)
qed

text \<open>C27: \<^verbatim>\<open>realloc\<close> keeps the data.  On a live block it either returns the same pointer because the block
  is already large enough, or fails and changes nothing, or moves the block: the new block starts with
  all bytes of the old one, the old one is released, and no other live block changes.\<close>

theorem realloc_keeps_data:
  assumes ok: "heap_ok h lo hi s us" and u: "(a, z) \<in> set us" and req: "unat req + 7 < 2 ^ 32"
  shows "\<exists>p s'. realloc h (\<lambda>_. h_free h) (a + 8) req s = Some (p, s') \<and>
    (p = a + 8 \<and> s' = s \<and> unat req \<le> unat z \<or> p = 0 \<and> s' = s \<or>
     p \<noteq> 0 \<and> mem_bytes (hmem s') p (unat z) = mem_bytes (hmem s) (a + 8) (unat z) \<and>
     unat req \<le> unat (get_size (hmem s') (p - 8)) \<and>
     heap_ok h lo hi s' ((p - 8, get_size (hmem s') (p - 8)) # remove1 (a, z) us) \<and>
     same_payload (remove1 (a, z) us) s s')"
proof -
  have az: "get_size (hmem s) a = z" "placed lo hi (a, z)" and hi: "hi < 2 ^ 32"
    using ok u by (fastforce simp: heap_ok_def allocated_def descriptor_ok_def)+
  have a: "unat a + 8 + unat z < 2 ^ 32" "a + 8 \<noteq> 0" "unat z mod 8 = 0"
    using az(2) hi end_unat [of a 0] by (auto simp: placed_def word_unat_eq_iff al8_def)
  let ?new = "if req mod 8 = 0 then req else req div 8 * 8 + 8"
  note new = realloc_size_unat [OF req]
  show ?thesis
  proof (cases "?new \<le> z")
    case True
    have "unat req \<le> unat z" using True new align_ge [OF req] by (simp add: word_le_nat_alt MEM_ALIGN_NEXT_unat [OF req])
    moreover have "realloc h (\<lambda>_. h_free h) (a + 8) req s = Some (a + 8, s)"
      using True az(1) a(2) by (simp add: realloc_def Let_def)
    ultimately show ?thesis by blast
  next
    case False
    have "\<not> (unat req + 7) div 8 * 8 \<le> unat z" using False new by (simp add: word_le_nat_alt)
    with a(3) have zr: "unat z \<le> unat req" by presburger
    obtain p s1 where p: "chHeapAlloc h req s = Some (p, s1)" "p = 0 \<and> s1 = s \<or> p \<noteq> 0 \<and>
        unat req \<le> unat (get_size (hmem s1) (p - 8)) \<and>
        heap_ok h lo hi s1 ((p - 8, get_size (hmem s1) (p - 8)) # us) \<and> same_payload us s s1"
      using chHeapAlloc_ok [OF ok req] by blast
    have re: "realloc h (\<lambda>_. h_free h) (a + 8) req s = (if p = 0 then Some (0, s1)
        else map_option (\<lambda>t. (p, t)) (chHeapFree (\<lambda>_. h_free h) (a + 8) (s1\<lparr>hmem := memcpy p (a + 8) z (hmem s1)\<rparr>)))"
      using False az(1) a(2) p(1) by (simp add: realloc_def Let_def)
    show ?thesis
    proof (cases "p = 0")
      case True
      then show ?thesis using re p(2) by auto
    next
      case np: False
      define q y where "q = p - 8" and "y = get_size (hmem s1) (p - 8)"
      have pq: "p = q + 8" by (simp add: q_def)
      have o: "unat req \<le> unat y" "heap_ok h lo hi s1 ((q, y) # us)" "same_payload us s s1"
        using p(2) np by (simp_all add: q_def y_def)
      obtain s3 where s3: "chHeapFree (\<lambda>_. h_free h) (a + 8) (s1\<lparr>hmem := memcpy (q + 8) (a + 8) z (hmem s1)\<rparr>) = Some s3"
        "heap_ok h lo hi s3 ((q, y) # remove1 (a, z) us)"
        "mem_bytes (hmem s3) (q + 8) (unat z) = mem_bytes (hmem s1) (a + 8) (unat z)" "same_payload (remove1 (a, z) us) s1 s3"
        using realloc_move [OF o(2) u order_trans [OF zr o(1)]] by blast
      have "mem_bytes (hmem s1) (a + 8) (unat z) = mem_bytes (hmem s) (a + 8) (unat z)"
        by (rule payload_bytes [OF o(3) u a(1) order_refl])
      moreover have "get_size (hmem s3) q = y" using s3(2) by (auto simp: heap_ok_def allocated_def)
      moreover have "same_payload (remove1 (a, z) us) s s3" by (rule same_payload_remove [OF o(3) s3(4)])
      ultimately show ?thesis using re np s3 o(1) by (auto simp: pq)
    qed
  qed
qed

theorem realloc_keeps_data_witness:
  "\<exists>a s p s'. malloc (fst (chHeapObjectInit 0x100 0x108 0x200 0x80 (\<lambda>_. 0))) 10
     \<lparr>hmem = snd (chHeapObjectInit 0x100 0x108 0x200 0x80 (\<lambda>_. 0)), hcore = core_init 0 0\<rparr> = Some (a + 8, s) \<and>
     realloc (fst (chHeapObjectInit 0x100 0x108 0x200 0x80 (\<lambda>_. 0)))
       (\<lambda>_. h_free (fst (chHeapObjectInit 0x100 0x108 0x200 0x80 (\<lambda>_. 0)))) (a + 8) 40 s = Some (p, s') \<and>
     (p = a + 8 \<or> p = 0 \<or> mem_bytes (hmem s') p (unat (get_size (hmem s) a)) = mem_bytes (hmem s) (a + 8) (unat (get_size (hmem s) a)))"
proof -
  let ?h = "fst (chHeapObjectInit 0x100 0x108 0x200 0x80 (\<lambda>_. 0))"
  let ?s = "\<lparr>hmem = snd (chHeapObjectInit 0x100 0x108 0x200 0x80 (\<lambda>_. 0)), hcore = core_init 0 0\<rparr>"
  have c: "chain (hmem ?s) (h_free ?h) [(0x200, 0x78)]"
    by (simp add: chHeapObjectInit_def header_get_set al8_def)
  have "unat (10 :: u32) + 7 < 2 ^ 32" by simp
  from chHeapAlloc_ok [OF demo_heap this] chHeapAlloc_null [OF demo_heap c, of 10]
  obtain p s where p: "malloc ?h 10 ?s = Some (p, s)" "heap_ok ?h 0x200 0x280 s [(p - 8, get_size (hmem s) (p - 8))]"
    by (auto simp: alloc_spec_None MEM_ALIGN_NEXT_def MEM_ALIGN_PREV_def malloc_def)
  have m: "malloc ?h 10 ?s = Some ((p - 8) + 8, s)" using p(1) by simp
  have "unat (40 :: u32) + 7 < 2 ^ 32" by simp
  from realloc_keeps_data [OF p(2) list.set_intros(1) this] obtain q t where
    "realloc ?h (\<lambda>_. h_free ?h) ((p - 8) + 8) 40 s = Some (q, t)"
    "q = (p - 8) + 8 \<or> q = 0 \<or> mem_bytes (hmem t) q (unat (get_size (hmem s) (p - 8))) =
       mem_bytes (hmem s) ((p - 8) + 8) (unat (get_size (hmem s) (p - 8)))" by blast
  with m show ?thesis
    by (intro exI [of _ "p - 8"] exI [of _ s] exI [of _ q] exI [of _ t]) simp
qed

end
