(* ===== verification/Arduino_Math.thy ===== *)
theory Arduino_Math
  imports Murmur3
begin

text \<open>
  The random number generator of the Arduino interface, \<^verbatim>\<open>arduino-math.c\<close>: a 64-bit state hashed with Murmur3,
  rejection sampling into bins with a bounded number of tries.  \<open>None\<close> is a division by zero.
  The lemmas show that accepted draws are spread evenly over the requested range, and for which ranges the
  code divides by zero.
\<close>

unbundle bit_operations_syntax

section \<open>Definitions\<close>

abbreviation (input) MAX_TRIES :: nat where "MAX_TRIES \<equiv> 100"
abbreviation (input) RAND_MAX :: u32 where "RAND_MAX \<equiv> 2147483647"

definition add_entropy :: "u32 \<Rightarrow> u64 \<Rightarrow> u64" where
  "add_entropy val rand_val = rand_val + ucast val"

text \<open>The eight bytes of \<^verbatim>\<open>rand_val\<close> in memory order.\<close>

definition bytes64 :: "u64 \<Rightarrow> u8 list" where
  "bytes64 w = map (\<lambda>i. ucast (drop_bit (8 * i) w)) [0..<8]"

definition real_rand :: "u64 \<Rightarrow> u32 \<times> u64" where
  "real_rand rand_val =
     (let val = MurmurHash3_x86_32 (bytes64 rand_val) 0 in (val, add_entropy val rand_val))"

text \<open>The \<^verbatim>\<open>do ... while\<close> loop: \<open>limit\<close> is \<^verbatim>\<open>num_rand - defect\<close>.\<close>

function rand_loop :: "u32 \<Rightarrow> nat \<Rightarrow> u64 \<Rightarrow> u32 \<times> u64" where
  "rand_loop limit tries rv =
     (let (x, rv) = real_rand rv
      in if limit \<le> x \<and> tries < MAX_TRIES then rand_loop limit (tries + 1) rv else (x, rv))"
  by pat_completeness auto
termination
  by (relation "measure (\<lambda>(limit, tries, rv). MAX_TRIES - tries)") auto

declare rand_loop.simps [simp del]

definition random_at_most :: "u32 \<Rightarrow> u64 \<Rightarrow> (u32 \<times> u64) option" where
  "random_at_most mx rv =
     (let num_bins = mx + 1; num_rand = RAND_MAX + 1
      in if num_bins = 0 then None
         else
           let bin_size = num_rand div num_bins;
               defect = num_rand mod num_bins;
               (x, rv) = rand_loop (num_rand - defect) 0 rv
           in if bin_size = 0 then None else Some (x div bin_size, rv))"

text \<open>Bounds are C's \<^verbatim>\<open>long\<close>, as 32-bit words compared as signed.\<close>

definition random :: "u32 \<Rightarrow> u32 \<Rightarrow> u64 \<Rightarrow> (u32 \<times> u64) option" where
  "random mn0 mx0 rv =
     (let (mn, mx) = (if sint mx0 < sint mn0 then (mx0, mn0) else (mn0, mx0))
      in case random_at_most (mx - mn) rv of
           None \<Rightarrow> None
         | Some (r, rv) \<Rightarrow> Some (r + mn, add_entropy mx (add_entropy mn rv)))"

definition randomSeed :: "u32 \<Rightarrow> u64 \<Rightarrow> int \<times> u64" where
  "randomSeed seed rv = (0, ucast seed)"

section \<open>Rejection sampling\<close>

text \<open>The draws the loop looks at.\<close>

fun draws :: "nat \<Rightarrow> u64 \<Rightarrow> u32 list" where
  "draws 0 rv = []"
| "draws (Suc n) rv = (let (x, rv) = real_rand rv in x # draws n rv)"

lemma rand_loop_accepts:
  "tries \<le> MAX_TRIES \<Longrightarrow> fst (rand_loop limit tries rv) < limit \<or>
     (\<forall>x \<in> set (draws (MAX_TRIES + 1 - tries) rv). limit \<le> x)"
proof (induction limit tries rv rule: rand_loop.induct)
  case (1 limit tries rv)
  obtain x rv' where r: "real_rand rv = (x, rv')" by (cases "real_rand rv")
  show ?case
  proof (cases "limit \<le> x \<and> tries < MAX_TRIES")
    case True
    then have "101 - tries = Suc (101 - Suc tries)" by linarith
    then show ?thesis
      using True "1.IH" [OF r [symmetric] refl True] r
      by (simp add: rand_loop.simps [of limit tries])
  next
    case False
    then have "x < limit \<or> tries = 100" using "1.prems" by auto
    then show ?thesis using r False by (auto simp: rand_loop.simps [of limit tries] not_less)
  qed
qed


lemma unat_diff_signed:
  fixes mn mx :: u32
  assumes "sint mn \<le> sint mx"
  shows "int (unat (mx - mn)) = sint mx - sint mn"
proof -
  have "sint mx < 2 ^ 31" "- (2 ^ 31) \<le> sint mn" using sint_less [of mx] sint_ge [of mn] by simp_all
  then have "sint mx - sint mn < 2 ^ 32" by simp
  then have "uint (word_of_int (sint mx - sint mn) :: u32) = sint mx - sint mn"
    unfolding uint_word_of_int_eq using assms by (intro take_bit_int_eq_self) simp_all
  moreover have "mx - mn = word_of_int (sint mx - sint mn)" by simp
  ultimately show ?thesis by (metis uint_nat)
qed

lemma sint_plus_offset:
  fixes r mn :: u32
  assumes "sint mn + int (unat r) < 2 ^ 31"
  shows "sint (r + mn) = sint mn + int (unat r)"
proof -
  have "r + mn = word_of_int (sint mn + int (unat r))"
    by (simp add: add.commute flip: uint_nat)
  then have "sint (r + mn) = signed_take_bit 31 (sint mn + int (unat r))"
    by (simp only: signed_of_int) simp
  also have "\<dots> = sint mn + int (unat r)"
  proof (rule signed_take_bit_int_eq_self)
    have "- (2 ^ 31) \<le> sint mn" using sint_ge [of mn] by simp
    then show "- (2 ^ 31) \<le> sint mn + int (unat r)" by (rule add_increasing2 [rotated]) simp
  qed (use assms in simp)
  finally show ?thesis .
qed

text \<open>The bins: for \<open>n + 1\<close> bins every accepted draw falls into one of them, and each gets the same number of draws.\<close>

lemma bins_even:
  fixes n r :: nat
  assumes "n < 2 ^ 31" "r \<le> n"
  shows "card {x. x < 2 ^ 31 - 2 ^ 31 mod (n + 1) \<and> x div (2 ^ 31 div (n + 1)) = r} = 2 ^ 31 div (n + 1)"
proof -
  define b where "b = (2 :: nat) ^ 31 div (n + 1)"
  have b: "0 < b" using assms(1) by (simp add: b_def div_greater_zero_iff)
  have lim: "(2 :: nat) ^ 31 - 2 ^ 31 mod (n + 1) = (n + 1) * b" unfolding b_def by (metis minus_mod_eq_mult_div)
  have "{x. x < (n + 1) * b \<and> x div b = r} = {r * b..<(r + 1) * b}"
  proof (intro set_eqI iffI)
    fix x assume "x \<in> {r * b..<(r + 1) * b}"
    then have x: "r * b \<le> x" "x < (r + 1) * b" by simp_all
    moreover have "(r + 1) * b \<le> (n + 1) * b" using assms(2) by (intro mult_right_mono) simp_all
    moreover have "x div b = r" using x b by (intro div_nat_eqI) (simp_all add: mult.commute)
    ultimately show "x \<in> {x. x < (n + 1) * b \<and> x div b = r}" by (auto intro: less_le_trans)
  next
    fix x assume x: "x \<in> {x. x < (n + 1) * b \<and> x div b = r}"
    have "r * b \<le> x" using x times_div_less_eq_dividend [of b x] by (simp add: mult.commute)
    moreover have "x < (r + 1) * b" using x b dividend_less_div_times [of b x] by simp
    ultimately show "x \<in> {r * b..<(r + 1) * b}" by simp
  qed
  then show ?thesis unfolding lim by (simp add: b_def)
qed

lemma accepted_bin:
  fixes n x :: nat
  assumes "n < 2 ^ 31" "x < 2 ^ 31 - 2 ^ 31 mod (n + 1)"
  shows "x div (2 ^ 31 div (n + 1)) \<le> n"
proof -
  have "0 < (2 :: nat) ^ 31 div (n + 1)" using assms(1) by (simp add: div_greater_zero_iff)
  moreover have "(2 :: nat) ^ 31 - 2 ^ 31 mod (n + 1) = (n + 1) * (2 ^ 31 div (n + 1))" by (metis minus_mod_eq_mult_div)
  ultimately have "x div (2 ^ 31 div (n + 1)) < n + 1" using assms(2) by (simp add: less_mult_imp_div_less del: mult_Suc)
  then show ?thesis by simp
qed

lemma random_at_most_eq:
  fixes d :: u32
  shows "random_at_most d rv =
     (if unat d < 2 ^ 31 then
        let (x, rv) = rand_loop (of_nat (2 ^ 31 - 2 ^ 31 mod (unat d + 1))) 0 rv
        in Some (x div of_nat (2 ^ 31 div (unat d + 1)), rv)
      else None)"
proof (cases "unat d < 2 ^ 31")
  case True
  then have u: "unat (d + 1) = unat d + 1" by (simp add: unat_word_ariths)
  have nz: "d + 1 \<noteq> 0" using u by (metis Suc_eq_plus1 nat.distinct(1) unat_0)
  have m: "0x80000000 - 0x80000000 mod (d + 1) = of_nat (2 ^ 31 - 2 ^ 31 mod (unat d + 1))"
  proof -
    have "2147483648 mod Suc (unat d) \<le> 2147483648" by (rule mod_less_eq_dividend)
    moreover from this have "2147483648 mod Suc (unat d) mod 4294967296 = 2147483648 mod Suc (unat d)"
      by (intro mod_less) linarith
    ultimately show ?thesis
      by (simp add: word_unat_eq_iff unat_sub_if_size unat_mod u unat_of_nat word_size take_bit_nat_def)
  qed
  have b: "0x80000000 div (d + 1) = of_nat (2 ^ 31 div (unat d + 1))"
  proof -
    have "2147483648 div Suc (unat d) mod 4294967296 = 2147483648 div Suc (unat d)"
      by (rule mod_less) (rule le_less_trans [OF div_le_dividend], simp)
    then show ?thesis by (simp add: word_unat_eq_iff unat_div u unat_of_nat take_bit_nat_def)
  qed
  have "0x80000000 div (d + 1) \<noteq> 0" using True
    by (simp add: word_unat_eq_iff unat_div u div_eq_0_iff)
  then show ?thesis
    using True nz unfolding random_at_most_def Let_def by (simp add: m b split: prod.split)
next
  case False
  have "0x80000000 div (d + 1) = 0 \<or> d + 1 = 0"
  proof (cases "d + 1 = 0")
    case nz: False
    then have "unat (d + 1) = unat d + 1"
      using unatSuc [of d] by (simp add: add.commute)
    then show ?thesis using False by (simp add: word_unat_eq_iff unat_div div_eq_0_iff)
  qed simp
  then show ?thesis using False unfolding random_at_most_def Let_def by (auto split: prod.split)
qed


text \<open>A range of up to \<open>2 ^ 31\<close> values.\<close>

lemma random_small_range:
  assumes le: "sint mn \<le> sint mx" and n: "n = unat (mx - mn)" "int n = sint mx - sint mn" "n < 2 ^ 31"
  shows "\<exists>r rv'. random mn mx rv = Some (r, rv') \<and>
    (sint mn \<le> sint r \<and> sint r \<le> sint mx \<or> (\<forall>x \<in> set (draws 101 rv). 2 ^ 31 - 2 ^ 31 mod (sint mx - sint mn + 1) \<le> uint x))"
proof -
  define L where "L = (2 :: nat) ^ 31 - 2 ^ 31 mod (n + 1)"
  obtain x rv1 where x: "rand_loop (of_nat L) 0 rv = (x, rv1)" by (cases "rand_loop (of_nat L) 0 rv")
  let ?r = "x div of_nat (2 ^ 31 div (n + 1))"
  have some: "random mn mx rv = Some (?r + mn, add_entropy mx (add_entropy mn rv1))"
    using le n(3) x by (simp add: random_def random_at_most_eq L_def flip: n(1))
  have "L < 2 ^ 32" unfolding L_def by (rule le_less_trans [OF diff_le_self]) simp
  then have uL: "unat (of_nat L :: u32) = L" by (simp add: unat_of_nat take_bit_nat_def)
  have "(2 :: nat) ^ 31 div (n + 1) < 2 ^ 32" by (rule le_less_trans [OF div_le_dividend]) simp
  then have ub: "unat (of_nat (2 ^ 31 div (n + 1)) :: u32) = 2 ^ 31 div (n + 1)" by (simp add: unat_of_nat take_bit_nat_def)
  have intL: "int L = 2 ^ 31 - 2 ^ 31 mod (sint mx - sint mn + 1)"
    unfolding L_def n(2) [symmetric] by (simp add: of_nat_diff zmod_int mod_less_eq_dividend add.commute)
  have "x < of_nat L \<or> (\<forall>x \<in> set (draws 101 rv). of_nat L \<le> x)" using rand_loop_accepts [of 0 "of_nat L" rv] x by simp
  then show ?thesis
  proof
    assume "x < of_nat L"
    then have "unat x < L" using uL by (simp add: word_less_nat_alt)
    then have "unat ?r \<le> n" using accepted_bin [OF n(3), of "unat x"] unfolding unat_div ub L_def by simp
    then have "sint mn + int (unat ?r) \<le> sint mx" using n(2) by linarith
    moreover have "sint mx < 2 ^ 31" using sint_less [of mx] by simp
    ultimately have "sint (?r + mn) = sint mn + int (unat ?r)" "sint mn + int (unat ?r) \<le> sint mx"
      using sint_plus_offset [of mn ?r] by simp_all
    then show ?thesis using some by auto
  next
    assume "\<forall>x \<in> set (draws 101 rv). of_nat L \<le> x"
    then have "\<forall>x \<in> set (draws 101 rv). int L \<le> uint x" using uL by (metis of_nat_mono uint_nat word_le_nat_alt)
    then show ?thesis using some intL by auto
  qed
qed

text \<open>Random numbers.  For bounds in order, \<open>random\<close> divides by zero exactly when the range is larger than \<open>2 ^ 31\<close> values;
  otherwise it returns, and unless each of the 101 draws of its loop fell into the rejected tail, the result
  lies between the bounds, both included.\<close>

theorem random_in_range:
  assumes "sint mn \<le> sint mx"
  shows "if 2 ^ 31 \<le> sint mx - sint mn then random mn mx rv = None
     else \<exists>r rv'. random mn mx rv = Some (r, rv') \<and>
       (sint mn \<le> sint r \<and> sint r \<le> sint mx \<or>
        (\<forall>x \<in> set (draws 101 rv). 2 ^ 31 - 2 ^ 31 mod (sint mx - sint mn + 1) \<le> uint x))"
proof -
  define n where "n = unat (mx - mn)"
  have n: "int n = sint mx - sint mn" unfolding n_def by (rule unat_diff_signed [OF assms])
  show ?thesis
  proof (cases "n < 2 ^ 31")
    case False
    then have "2 ^ 31 \<le> sint mx - sint mn" unfolding n [symmetric] by simp
    then show ?thesis
      using False assms by (simp add: random_def random_at_most_eq n_def)
  next
    case True
    then have lt: "sint mx - sint mn < 2 ^ 31" unfolding n [symmetric] by simp
    then show ?thesis using random_small_range [OF assms n_def n True] by simp
  qed
qed

theorem random_in_range_witness:
  "random 0x80000000 0x7FFFFFFF 1 = None" 
  using random_in_range [of "0x80000000" "0x7FFFFFFF" 1] by simp

end
