(* ===== verification/Formatted_Output.thy ===== *)
theory Formatted_Output
  imports C_Library "HOL-Library.Monad_Syntax"
begin

text \<open>
  Formatted output: \<^verbatim>\<open>os/hal/lib/streams/chprintf.c\<close>, the streams \<^verbatim>\<open>memstreams.c\<close> and \<^verbatim>\<open>nullstreams.c\<close> it writes to, and the
  conversions of \<^verbatim>\<open>__aeabi.c\<close> and the functions of \<^verbatim>\<open>printf.c\<close> that call it.  Format, arguments, strings and buffers are in
  the byte-addressed memory; \<^verbatim>\<open>int\<close>, \<^verbatim>\<open>long\<close> and pointers are 32 bits and \<^verbatim>\<open>char\<close> is unsigned, as on the processor.
\<close>

section \<open>Numbers to strings\<close>

definition MAX_FILLER :: u32 where "MAX_FILLER = 11"

text \<open>The first loop: digits from the last one on, down from the end of the buffer.  \<^verbatim>\<open>l\<close> and \<^verbatim>\<open>ll\<close> are divided as unsigned
  numbers because \<^verbatim>\<open>radix\<close> is.  \<open>None\<close> is a division by zero, or a loop that does not end.\<close>

partial_function (option) ltoa_digits :: "u32 \<Rightarrow> u32 \<Rightarrow> u32 \<Rightarrow> u32 \<Rightarrow> mem \<Rightarrow> (u32 \<times> mem) option" where
  "ltoa_digits radix l ll q m =
     (if radix = 0 then None
      else
        let i = l mod radix + 0x30;
            i = (if sint i > 0x39 then i + (0x41 - 0x30 - 10) else i);
            q = q - 1;
            m = m(q := ucast i);
            l = l div radix;
            ll = ll div radix
        in if ll \<noteq> 0 then ltoa_digits radix l ll q m else Some (q, m))"

text \<open>The second loop moves them to the start.\<close>

fun move_digits :: "nat \<Rightarrow> u32 \<Rightarrow> u32 \<Rightarrow> mem \<Rightarrow> u32 \<times> mem" where
  "move_digits 0 p q m = (p, m)"
| "move_digits (Suc i) p q m = move_digits i (p + 1) (q + 1) (m(p := m q))"

definition long_to_string_with_divisor :: "u32 \<Rightarrow> u32 \<Rightarrow> u32 \<Rightarrow> u32 \<Rightarrow> mem \<Rightarrow> (u32 \<times> mem) option" where
  "long_to_string_with_divisor p num radix divisor m =
     (let l = num;
          ll = (if divisor = 0 then num else divisor)
      in do {
        (q, m) \<leftarrow> ltoa_digits radix l ll (p + MAX_FILLER) m;
        Some (move_digits (unat (p + MAX_FILLER - q)) p q m)
      })"

definition ch_ltoa :: "u32 \<Rightarrow> u32 \<Rightarrow> u32 \<Rightarrow> mem \<Rightarrow> (u32 \<times> mem) option" where
  "ch_ltoa p num radix m = long_to_string_with_divisor p num radix 0 m"

definition itoa :: "u32 \<Rightarrow> u32 \<Rightarrow> u32 \<Rightarrow> mem \<Rightarrow> (u32 \<times> mem) option" where
  "itoa val s radix m = ch_ltoa s val radix m"

definition ltoa :: "u32 \<Rightarrow> u32 \<Rightarrow> u32 \<Rightarrow> mem \<Rightarrow> (u32 \<times> mem) option" where
  "ltoa val s radix m = ch_ltoa s val radix m"

definition ultoa :: "u32 \<Rightarrow> u32 \<Rightarrow> u32 \<Rightarrow> mem \<Rightarrow> (u32 \<times> mem) option" where
  "ultoa val s radix m = ch_ltoa s val radix m"

definition utoa :: "u32 \<Rightarrow> u32 \<Rightarrow> u32 \<Rightarrow> mem \<Rightarrow> (u32 \<times> mem) option" where
  "utoa val s radix m = ch_ltoa s val radix m"

section \<open>Streams\<close>

text \<open>A memory stream; the data is in the memory.\<close>

record memory_stream =
  ms_buffer :: u32
  ms_size :: u32
  ms_eos :: u32
  ms_offset :: u32

definition msObjectInit :: "u32 \<Rightarrow> u32 \<Rightarrow> u32 \<Rightarrow> memory_stream" where
  "msObjectInit buffer sz eos = \<lparr>ms_buffer = buffer, ms_size = sz, ms_eos = eos, ms_offset = 0\<rparr>"

text \<open>\<^verbatim>\<open>put\<close> returns a message, which the callers here ignore, \<^verbatim>\<open>get\<close> a byte or a message.\<close>

definition ms_put :: "u8 \<Rightarrow> mem \<times> memory_stream \<Rightarrow> mem \<times> memory_stream" where
  "ms_put b st =
     (let (m, msp) = st
      in if ms_size msp - ms_eos msp = 0 then (m, msp)
         else (m(ms_buffer msp + ms_eos msp := b), msp\<lparr>ms_eos := ms_eos msp + 1\<rparr>))"

definition ms_get :: "mem \<times> memory_stream \<Rightarrow> u8 option \<times> memory_stream" where
  "ms_get st =
     (let (m, msp) = st
      in if ms_eos msp - ms_offset msp = 0 then (None, msp)
         else (Some (m (ms_buffer msp + ms_offset msp)), msp\<lparr>ms_offset := ms_offset msp + 1\<rparr>))"

definition ms_writes :: "u32 \<Rightarrow> u32 \<Rightarrow> mem \<times> memory_stream \<Rightarrow> u32 \<times> mem \<times> memory_stream" where
  "ms_writes bp n st =
     (let (m, msp) = st;
          n = (if ms_size msp - ms_eos msp < n then ms_size msp - ms_eos msp else n)
      in (n, memcpy (ms_buffer msp + ms_eos msp) bp n m, msp\<lparr>ms_eos := ms_eos msp + n\<rparr>))"

definition ms_reads :: "u32 \<Rightarrow> u32 \<Rightarrow> mem \<times> memory_stream \<Rightarrow> u32 \<times> mem \<times> memory_stream" where
  "ms_reads bp n st =
     (let (m, msp) = st;
          n = (if ms_eos msp - ms_offset msp < n then ms_eos msp - ms_offset msp else n)
      in (n, memcpy bp (ms_buffer msp + ms_offset msp) n m, msp\<lparr>ms_offset := ms_offset msp + n\<rparr>))"

text \<open>The null stream has no state.\<close>

definition null_put :: "u8 \<Rightarrow> mem \<times> unit \<Rightarrow> mem \<times> unit" where
  "null_put b st = st"

section \<open>The formatter\<close>

text \<open>The floating point routines are assembly of a library: the comparison with 0, the change of sign and \<^verbatim>\<open>qfp_float2str\<close>,
  which writes to memory and returns the end.\<close>

record float_lib =
  f_negative :: "u32 \<Rightarrow> bool"
  f_negate :: "u32 \<Rightarrow> u32"
  qfp_float2str :: "u32 \<Rightarrow> u32 \<Rightarrow> u32 \<Rightarrow> mem \<Rightarrow> u32 \<times> mem"

definition ftoa :: "float_lib \<Rightarrow> u32 \<Rightarrow> u32 \<Rightarrow> u32 \<Rightarrow> mem \<Rightarrow> u32 \<times> mem" where
  "ftoa fl p f precision m =
     (let fmt = push_bit 8 (4 AND 0xFF) OR push_bit 16 (6 AND 0xFF) OR push_bit 29 1 OR (precision AND 0xFF)
      in qfp_float2str fl f p fmt m)"

text \<open>\<^verbatim>\<open>va_arg_align_if_necessary\<close>: doubles are 8-byte aligned.\<close>

definition va_align :: "u32 \<Rightarrow> u32" where
  "va_align ap = (if ap AND 7 = 4 then ap else ap + 4)"

text \<open>The digits and stars of a width or a precision: the character behind them, the pointers to the format and to the
  arguments, and the number, an \<^verbatim>\<open>int\<close>.  The argument of a star is stored into a \<^verbatim>\<open>char\<close>.\<close>

partial_function (option) scan_number :: "mem \<Rightarrow> u32 \<Rightarrow> u32 \<Rightarrow> u32 \<Rightarrow> (u8 \<times> u32 \<times> u32 \<times> u32) option" where
  "scan_number m fmt ap acc =
     (let c = m fmt;
          fmt = fmt + 1
      in if 0x30 \<le> c \<and> c \<le> 0x39 then scan_number m fmt ap (acc * 10 + ucast (c - 0x30))
         else if c = 0x2A then scan_number m fmt (ap + 4) (acc * 10 + ucast (ucast (load32 m ap) :: u8))
         else Some (c, fmt, ap, acc))"

record directive =
  d_left :: bool
  d_filler :: u8
  d_width :: u32
  d_precision :: u32
  d_char :: u8

definition parse_directive :: "mem \<Rightarrow> u32 \<Rightarrow> u32 \<Rightarrow> (directive \<times> u32 \<times> u32) option" where
  "parse_directive m fmt ap =
     (let left_align = (m fmt = 0x2D);
          fmt = (if left_align then fmt + 1 else fmt);
          zero = (m fmt = 0x30);
          fmt = (if zero then fmt + 1 else fmt)
      in do {
        (c, fmt, ap, width) \<leftarrow> scan_number m fmt ap 0;
        (c, fmt, ap, precision) \<leftarrow> (if c = 0x2E then scan_number m fmt ap 0 else Some (c, fmt, ap, 0));
        let (c, fmt) = (if (c = 0x6C \<or> c = 0x4C) \<and> m fmt \<noteq> 0 then (m fmt, fmt + 1) else (c, fmt));
        Some (\<lparr>d_left = left_align, d_filler = (if zero then 0x30 else 0x20), d_width = width, d_precision = precision, d_char = c\<rparr>,
              fmt, ap)
      })"

text \<open>The number of rounds of \<^verbatim>\<open>while (--i >= 0)\<close>.\<close>

definition loop_count :: "u32 \<Rightarrow> nat" where
  "loop_count i = (if 0 \<le> sint (i - 1) then unat i else 0)"

text \<open>\<^verbatim>\<open>for (p = s; *p && (--precision >= 0); p++)\<close>\<close>

fun string_end :: "mem \<Rightarrow> nat \<Rightarrow> u32 \<Rightarrow> u32" where
  "string_end m 0 p = p"
| "string_end m (Suc precision) p = (if m p = 0 then p else string_end m precision (p + 1))"

text \<open>The \<^verbatim>\<open>switch\<close>: the start and the end of the text, the filler, the arguments left and the memory.  \<open>tmpbuf\<close> is the address of the
  buffer, \<open>null_str\<close> that of the text for a null pointer.  \<^verbatim>\<open>int\<close> and \<^verbatim>\<open>long\<close> are read in the same way.\<close>

definition convert ::
  "float_lib \<Rightarrow> u32 \<Rightarrow> u32 \<Rightarrow> directive \<Rightarrow> u32 \<Rightarrow> mem \<Rightarrow> (u32 \<times> u32 \<times> u8 \<times> u32 \<times> mem) option" where
  "convert fl null_str tmpbuf d ap m =
     (let c = d_char d; filler = d_filler d; p = tmpbuf; s = tmpbuf
      in if c = 0x63 then Some (s, p + 1, 0x20, ap + 4, m(p := ucast (load32 m ap)))
         else if c = 0x73 then
           (let s = (if load32 m ap = 0 then null_str else load32 m ap);
                precision = (if d_precision d = 0 then 32767 else d_precision d)
            in Some (s, string_end m (loop_count precision) s, 0x20, ap + 4, m))
         else if c \<in> {0x44, 0x64, 0x49, 0x69} then
           (let l = load32 m ap;
                (p, l, m) = (if sint l < 0 then (p + 1, - l, m(p := 0x2D)) else (p, l, m))
            in do { (p, m) \<leftarrow> ch_ltoa p l 10 m; Some (s, p, filler, ap + 4, m) })
         else if c = 0x66 then
           (let ap = va_align ap;
                f = load32 m ap;
                (p, f, m) = (if f_negative fl f then (p + 1, f_negate fl f, m(p := 0x2D)) else (p, f, m));
                (p, m) = ftoa fl p f (d_precision d) m
            in Some (s, p, filler, ap + 8, m))
         else if c \<in> {0x58, 0x78, 0x55, 0x75, 0x4F, 0x6F} then
           (let radix = (if c \<in> {0x58, 0x78} then 16 else if c \<in> {0x55, 0x75} then 10 else 8)
            in do { (p, m) \<leftarrow> ch_ltoa p (load32 m ap) radix m; Some (s, p, filler, ap + 4, m) })
         else Some (s, p + 1, filler, ap, m(p := c)))"

text \<open>The output of a field: \<open>put\<close> is \<^verbatim>\<open>streamPut\<close> on memory and the stream, \<open>n\<close> counts the bytes.  \<^verbatim>\<open>n\<close>, \<^verbatim>\<open>i\<close> and \<^verbatim>\<open>width\<close> are
  \<^verbatim>\<open>int\<close>s of 32 bits that wrap around.\<close>

fun put_filler :: "(u8 \<Rightarrow> 'z \<Rightarrow> 'z) \<Rightarrow> u8 \<Rightarrow> nat \<Rightarrow> 'z \<Rightarrow> 'z" where
  "put_filler put filler 0 st = st"
| "put_filler put filler (Suc k) st = put_filler put filler k (put filler st)"

fun put_text :: "(u8 \<Rightarrow> mem \<times> 's \<Rightarrow> mem \<times> 's) \<Rightarrow> nat \<Rightarrow> u32 \<Rightarrow> mem \<times> 's \<Rightarrow> mem \<times> 's" where
  "put_text put 0 s st = st"
| "put_text put (Suc i) s st = put_text put i (s + 1) (put (fst st s) st)"

definition put_field ::
  "(u8 \<Rightarrow> mem \<times> 's \<Rightarrow> mem \<times> 's) \<Rightarrow> bool \<Rightarrow> u8 \<Rightarrow> u32 \<Rightarrow> u32 \<Rightarrow> u32 \<Rightarrow> u32 \<times> mem \<times> 's \<Rightarrow> u32 \<times> mem \<times> 's" where
  "put_field put left_align filler width s p nst =
     (let (n, st) = nst;
          i = p - s;
          width = (if sint (width - i) < 0 then 0 else width - i);
          width = (if left_align then width else - width);
          (n, st, s, i, width) =
            (if sint width < 0 then
               let (n, st, s, i) =
                 (if fst st s = 0x2D \<and> filler = 0x30 then (n + 1, put (fst st s) st, s + 1, i - 1) else (n, st, s, i))
               in (n - width, put_filler put filler (unat (- width)) st, s, i, 0)
             else (n, st, s, i, width));
          (n, st) = (n + of_nat (loop_count i), put_text put (loop_count i) s st)
      in (n + width, put_filler put filler (unat width) st))"

partial_function (option) chvprintf ::
  "(u8 \<Rightarrow> mem \<times> 's \<Rightarrow> mem \<times> 's) \<Rightarrow> float_lib \<Rightarrow> u32 \<Rightarrow> u32 \<Rightarrow> u32 \<Rightarrow> u32 \<Rightarrow> u32 \<times> mem \<times> 's \<Rightarrow> (u32 \<times> mem \<times> 's) option" where
  "chvprintf put fl null_str tmpbuf fmt ap nst =
     (let c = fst (snd nst) fmt;
          fmt = fmt + 1
      in if c = 0 then Some nst
         else if c \<noteq> 0x25 then chvprintf put fl null_str tmpbuf fmt ap (fst nst + 1, put c (snd nst))
         else do {
           (d, fmt, ap) \<leftarrow> parse_directive (fst (snd nst)) fmt ap;
           (s, p, filler, ap, m) \<leftarrow> convert fl null_str tmpbuf d ap (fst (snd nst));
           chvprintf put fl null_str tmpbuf fmt ap (put_field put (d_left d) filler (d_width d) s p (fst nst, m, snd (snd nst)))
         })"

text \<open>The callers return the count as an \<^verbatim>\<open>int\<close>.\<close>

definition chprintf ::
  "(u8 \<Rightarrow> mem \<times> 's \<Rightarrow> mem \<times> 's) \<Rightarrow> float_lib \<Rightarrow> u32 \<Rightarrow> u32 \<Rightarrow> u32 \<Rightarrow> u32 \<Rightarrow> mem \<times> 's \<Rightarrow> (int \<times> mem \<times> 's) option" where
  "chprintf put fl null_str tmpbuf fmt ap st = do {
     (n, st) \<leftarrow> chvprintf put fl null_str tmpbuf fmt ap (0, st);
     Some (sint n, st)
   }"

definition chsnprintf :: "float_lib \<Rightarrow> u32 \<Rightarrow> u32 \<Rightarrow> u32 \<Rightarrow> u32 \<Rightarrow> u32 \<Rightarrow> u32 \<Rightarrow> mem \<Rightarrow> (int \<times> mem) option" where
  "chsnprintf fl null_str tmpbuf str sz fmt ap m =
     (let size_wo_nul = (if sz > 0 then sz - 1 else 0);
          ms = msObjectInit str size_wo_nul 0
      in do {
        (retval, m, ms) \<leftarrow> chvprintf ms_put fl null_str tmpbuf fmt ap (0, m, ms);
        Some (sint retval, if ms_eos ms < sz then m(str + ms_eos ms := 0) else m)
      })"

text \<open>\<^verbatim>\<open>orchard/printf.c\<close>; \<open>percent_s\<close> is the address of the constant format of \<^verbatim>\<open>puts\<close>, whose argument is stored at \<open>ap\<close>.\<close>

definition printf ::
  "(u8 \<Rightarrow> mem \<times> 's \<Rightarrow> mem \<times> 's) \<Rightarrow> float_lib \<Rightarrow> u32 \<Rightarrow> u32 \<Rightarrow> u32 \<Rightarrow> u32 \<Rightarrow> mem \<times> 's \<Rightarrow> (int \<times> mem \<times> 's) option" where
  "printf put fl null_str tmpbuf fmt ap st = do {
     (n, st) \<leftarrow> chvprintf put fl null_str tmpbuf fmt ap (0, st);
     Some (sint n, st)
   }"

definition tfp_printf ::
  "(u8 \<Rightarrow> mem \<times> 's \<Rightarrow> mem \<times> 's) \<Rightarrow> float_lib \<Rightarrow> u32 \<Rightarrow> u32 \<Rightarrow> u32 \<Rightarrow> u32 \<Rightarrow> mem \<times> 's \<Rightarrow> (mem \<times> 's) option" where
  "tfp_printf put fl null_str tmpbuf fmt ap st = map_option snd (chvprintf put fl null_str tmpbuf fmt ap (0, st))"

definition putchar :: "(u8 \<Rightarrow> mem \<times> 's \<Rightarrow> mem \<times> 's) \<Rightarrow> u32 \<Rightarrow> mem \<times> 's \<Rightarrow> u32 \<times> mem \<times> 's" where
  "putchar put c st = (c, put (ucast c) st)"

definition puts ::
  "(u8 \<Rightarrow> mem \<times> 's \<Rightarrow> mem \<times> 's) \<Rightarrow> float_lib \<Rightarrow> u32 \<Rightarrow> u32 \<Rightarrow> u32 \<Rightarrow> u32 \<Rightarrow> u32 \<Rightarrow> mem \<times> 's \<Rightarrow> (int \<times> mem \<times> 's) option" where
  "puts put fl null_str tmpbuf percent_s ap s st = chprintf put fl null_str tmpbuf percent_s ap (store32 ap s (fst st), snd st)"

section \<open>Digits\<close>

definition digit_char :: "nat \<Rightarrow> u8" where
  "digit_char d = (if d < 10 then 0x30 + of_nat d else 0x41 + of_nat (d - 10))"

text \<open>The digits of a number, most significant first.\<close>

function digits_of :: "nat \<Rightarrow> nat \<Rightarrow> u8 list" where
  "digits_of r n = (if n < r \<or> r < 2 then [digit_char n] else digits_of r (n div r) @ [digit_char (n mod r)])"
  by pat_completeness auto
termination by (relation "measure snd") auto

declare digits_of.simps [simp del]

lemma digits_of_less: "n < r \<Longrightarrow> digits_of r n = [digit_char n]"
  by (simp add: digits_of.simps)

lemma digits_of_step: "2 \<le> r \<Longrightarrow> r \<le> n \<Longrightarrow> digits_of r n = digits_of r (n div r) @ [digit_char (n mod r)]"
  by (subst digits_of.simps) simp

lemma digits_of_not_Nil [simp]: "digits_of r n \<noteq> []"
  by (simp add: digits_of.simps)

lemma length_digits_le:
  assumes "2 \<le> r" "0 < k" "n < r ^ k"
  shows "length (digits_of r n) \<le> k"
  using assms
proof (induction r n arbitrary: k rule: digits_of.induct)
  case (1 r n)
  show ?case
  proof (cases "n < r")
    case True then show ?thesis using 1 by (simp add: digits_of_less)
  next
    case False
    then have k: "k \<noteq> 1" using "1.prems" by auto
    then have "n div r < r ^ (k - 1)"
      using "1.prems" less_mult_imp_div_less [of n "r ^ (k - 1)" r] by (simp add: power_eq_if mult.commute split: if_splits)
    then have "length (digits_of r (n div r)) \<le> k - 1" using 1 False k by simp
    then show ?thesis using False "1.prems" k by (simp add: digits_of_step)
  qed
qed

lemma length_digits_ge:
  assumes "2 \<le> r" "r ^ k \<le> n"
  shows "k < length (digits_of r n)"
  using assms
proof (induction r n arbitrary: k rule: digits_of.induct)
  case (1 r n)
  show ?case
  proof (cases k)
    case (Suc j)
    have "r * 1 \<le> r * r ^ j" using "1.prems" by (intro mult_le_mono2) simp
    moreover have "r * r ^ j \<le> n" using "1.prems" Suc by simp
    ultimately have "r \<le> n" by linarith
    moreover have "r ^ j \<le> n div r" using "1.prems" Suc div_le_mono [of "r ^ k" n r] by simp
    ultimately show ?thesis using 1 Suc by (simp add: digits_of_step)
  qed simp
qed

lemma digits_of_chars: "2 \<le> r \<Longrightarrow> c \<in> set (digits_of r n) \<Longrightarrow> \<exists>d < r. c = digit_char d"
proof (induction r n rule: digits_of.induct)
  case (1 r n)
  have "\<exists>d < r. digit_char (n mod r) = digit_char d" using "1.prems" by (intro exI [of _ "n mod r"]) simp
  then show ?case using 1 by (cases "n < r") (auto simp: digits_of_less digits_of_step)
qed

lemma hd_digits_of: "2 \<le> r \<Longrightarrow> 0 < n \<Longrightarrow> \<exists>d. 0 < d \<and> d < r \<and> hd (digits_of r n) = digit_char d"
proof (induction r n rule: digits_of.induct)
  case (1 r n)
  then show ?case by (cases "n < r") (auto simp: digits_of_less digits_of_step div_greater_zero_iff)
qed

text \<open>The word the first loop stores.\<close>

lemma digit_word:
  assumes "d < 36"
  shows "(let i = of_nat d + 0x30 :: u32; i = (if sint i > 0x39 then i + (0x41 - 0x30 - 10) else i) in ucast i) = digit_char d"
proof -
  have "d \<in> set [0..<36]" using assms by simp
  then show ?thesis unfolding digit_char_def Let_def by (simp add: upt_rec del: set_upt) (elim disjE; simp)
qed


section \<open>Conversion\<close>

lemma put_bytes_snoc:
  assumes "length bs < 2 ^ 32"
  shows "put_bytes (q - of_nat (Suc (length bs))) bs (m(q - 1 := c)) = put_bytes (q - of_nat (Suc (length bs))) (bs @ [c]) m"
proof
  fix x
  let ?a = "q - of_nat (Suc (length bs)) :: u32"
  have e: "x - ?a = x - (q - 1) + of_nat (length bs)" by simp
  have u: "unat (x - ?a) = length bs \<longleftrightarrow> x = q - 1"
  proof
    assume "unat (x - ?a) = length bs"
    then have "x - ?a = of_nat (length bs)" using assms by (metis unat_of_nat_small word_unat_eq_iff)
    then have "x = of_nat (length bs) + ?a" by (metis diff_add_cancel)
    then show "x = q - 1" by simp
  qed (use assms in simp)
  show "put_bytes ?a bs (m(q - 1 := c)) x = put_bytes ?a (bs @ [c]) m x"
    using assms u by (auto simp: put_bytes_apply nth_append less_Suc_eq)
qed

lemma ltoa_digits_eq:
  assumes r: "2 \<le> unat radix" "unat radix \<le> 36"
  shows "ltoa_digits radix l l q m =
    (let ds = digits_of (unat radix) (unat l) in Some (q - of_nat (length ds), put_bytes (q - of_nat (length ds)) ds m))"
proof (induction "unat l" arbitrary: l q m rule: less_induct)
  case less
  let ?r = "unat radix" and ?n = "unat l"
  have r0: "radix \<noteq> 0" using r by auto
  have d: "l mod radix = of_nat (?n mod ?r)" "unat (l div radix) = ?n div ?r" by (rule word_arith_nat_mod, simp add: unat_div)
  define c where "c = digit_char (?n mod ?r)"
  have "?n mod ?r < 36" using r mod_less_divisor [of ?r ?n] by linarith
  from digit_word [OF this] have e: "ltoa_digits radix l l q m =
      (if l div radix \<noteq> 0 then ltoa_digits radix (l div radix) (l div radix) (q - 1) (m(q - 1 := c)) else Some (q - 1, m(q - 1 := c)))"
    unfolding c_def by (subst ltoa_digits.simps) (simp add: r0 d(1) Let_def)
  show ?case
  proof (cases "?n < ?r")
    case True
    then have "l div radix = 0" using d(2) by (simp add: unat_eq_zero)
    then show ?thesis using True unfolding e by (simp add: digits_of_less c_def)
  next
    case False
    then have g: "0 < ?n div ?r" "?n div ?r < ?n" using r by (auto simp: div_greater_zero_iff intro: div_less_dividend)
    then have nz: "l div radix \<noteq> 0" using d(2) by auto
    let ?ds = "digits_of ?r (?n div ?r)"
    have len: "length ?ds < 2 ^ 32"
    proof -
      have "length ?ds \<le> 32" by (rule length_digits_le [OF r(1)])
         (use unat_u32_lt [of "l div radix"] power_mono [of 2 ?r 32] r d(2) in linarith)+
      then show ?thesis by simp
    qed
    have "ltoa_digits radix l l q m = Some (q - 1 - of_nat (length ?ds), put_bytes (q - 1 - of_nat (length ?ds)) ?ds (m(q - 1 := c)))"
      using less [of "l div radix" "q - 1" "m(q - 1 := c)"] g(2) nz unfolding e by (simp add: d(2) Let_def)
    also have "q - 1 - of_nat (length ?ds) = q - of_nat (Suc (length ?ds))" by simp
    finally show ?thesis using False r by (simp add: put_bytes_snoc [OF len] digits_of_step c_def Let_def del: of_nat_Suc fun_upd_apply)
  qed
qed


text \<open>The second loop is a copy upwards.\<close>

lemma move_digits_Suc:
  "move_digits (Suc i) p q m = (let (p', m') = move_digits i p q m in (p' + 1, m'(p' := m' (q + of_nat i))))"
proof (induction i arbitrary: p q m)
  case (Suc i)
  have "move_digits (Suc (Suc i)) p q m = move_digits (Suc i) (p + 1) (q + 1) (m(p := m q))" by simp
  also have "\<dots> = (let (p', m') = move_digits i (p + 1) (q + 1) (m(p := m q)) in (p' + 1, m'(p' := m' (q + of_nat (Suc i)))))"
    unfolding Suc by (simp add: add.assoc del: fun_upd_apply)
  finally show ?case by (simp del: fun_upd_apply)
qed simp

lemma move_digits_eq: "move_digits i p q m = (p + of_nat i, fold (copy_byte p q) [0..<i] m)"
proof (induction i)
  case (Suc i)
  show ?case unfolding move_digits_Suc Suc by (simp add: copy_byte_def [of p q i] add.assoc del: fun_upd_apply)
qed simp

lemma move_digits_memcpy: "i < 2 ^ 32 \<Longrightarrow> move_digits i p q m = (p + of_nat i, memcpy p q (of_nat i) m)"
  by (simp add: move_digits_eq memcpy_def)

text \<open>What the conversion leaves: the digits at the start, the ten other bytes of the buffer changed, nothing else.\<close>

lemma ch_ltoa_correct:
  assumes r: "2 \<le> unat radix" "unat radix \<le> 36" and len: "length (digits_of (unat radix) (unat num)) \<le> 11"
  defines "ds \<equiv> digits_of (unat radix) (unat num)"
  shows "\<exists>m'. ch_ltoa p num radix m = Some (p + of_nat (length ds), m') \<and> mem_bytes m' p (length ds) = ds
    \<and> (\<forall>x. \<not> in_range x p 11 \<longrightarrow> m' x = m x)"
proof -
  let ?k = "length ds"
  define q where "q = p + 11 - of_nat ?k"
  define m1 where "m1 = put_bytes q ds m"
  have k: "?k \<le> 11" "0 < ?k" using len by (auto simp: ds_def)
  have q: "q = p + of_nat (11 - ?k)" using k by (simp add: q_def of_nat_diff)
  have uq: "unat (p + 11 - q) = ?k" using k by (simp add: q_def)
  have "ch_ltoa p num radix m = Some (move_digits ?k p q m1)"
    unfolding ch_ltoa_def long_to_string_with_divisor_def using ltoa_digits_eq [OF r, of num "p + 11" m] uq
    by (simp add: Let_def MAX_FILLER_def m1_def q_def ds_def)
  then have e: "ch_ltoa p num radix m = Some (p + of_nat ?k, memcpy p q (of_nat ?k) m1)" using k by (simp add: move_digits_memcpy)
  have nc: "no_clobber p q (of_nat ?k)"
  proof (cases "?k = 11")
    case False
    have "p - q = - of_nat (11 - ?k)" by (simp add: q)
    moreover have "?k \<in> set [1..<11]" using False k by (simp add: Suc_le_eq)
    then have "of_nat ?k \<le> (- of_nat (11 - ?k) :: u32)"
      by (simp add: upt_rec del: set_upt) (elim disjE; simp add: word_le_nat_alt unsigned_minus_1_eq_mask mask_eq_exp_minus_1)
    ultimately show ?thesis by (simp add: no_clobber_def)
  qed (simp add: no_clobber_def q)
  have "memcpy p q (of_nat ?k) m1 (p + of_nat i) = ds ! i" if "i < ?k" for i
  proof -
    have "memcpy p q (of_nat ?k) m1 (p + of_nat i) = m1 (q + of_nat i)"
      using memcpy.copy_inside [OF nc, of "p + of_nat i" m1] that k by (simp add: in_range_offset)
    then show ?thesis using that k by (simp add: m1_def put_bytes_apply)
  qed
  then have "mem_bytes (memcpy p q (of_nat ?k) m1) p ?k = ds" by (intro nth_equalityI) simp_all
  moreover have "memcpy p q (of_nat ?k) m1 x = m x" if x: "\<not> in_range x p 11" for x
  proof -
    have "\<not> in_range x p ?k" using x k by (auto simp: in_range_def)
    then have "memcpy p q (of_nat ?k) m1 x = m1 x" using k by (intro memcpy.copy_outside) simp
    moreover have "\<not> in_range x q ?k"
    proof
      assume "in_range x q ?k"
      then obtain i where "i < ?k" "x = q + of_nat i" using k by (auto simp: in_range_iff)
      then have "x = p + of_nat (11 - ?k + i)" "11 - ?k + i < 11" using k by (simp_all add: q)
      then show False using x in_range_offset [of "11 - ?k + i" 11 p] by simp
    qed
    ultimately show ?thesis using k by (simp add: m1_def put_bytes_outside)
  qed
  ultimately show ?thesis using e by blast
qed

lemma itoa_before_buffer:
  assumes r: "2 \<le> unat radix" "unat radix \<le> 36" and big: "unat radix ^ 11 \<le> unat val"
  defines "ds \<equiv> digits_of (unat radix) (unat val)"
  shows "\<exists>e m'. itoa val s radix m = Some (e, m') \<and> m' (s - 1) = ds ! (length ds - 12)"
proof -
  let ?k = "length ds"
  have k: "11 < ?k" unfolding ds_def by (rule length_digits_ge [OF r(1) big])
  have "?k \<le> 32" unfolding ds_def
    by (rule length_digits_le [OF r(1)]) (use unat_u32_lt [of val] power_mono [of 2 "unat radix" 32] r in linarith)+
  then have k32: "?k < 2 ^ 32" by simp
  let ?q = "s + 11 - of_nat ?k" and ?m = "put_bytes (s + 11 - of_nat ?k) ds m"
  have uq: "unat (s + 11 - ?q) = ?k" using k32 by simp
  have "itoa val s radix m = Some (move_digits ?k s ?q ?m)"
    unfolding itoa_def ch_ltoa_def long_to_string_with_divisor_def using ltoa_digits_eq [OF r, of val "s + 11" m] uq
    by (simp add: Let_def MAX_FILLER_def ds_def)
  then have e: "itoa val s radix m = Some (s + of_nat ?k, memcpy s ?q (of_nat ?k) ?m)" using k32 by (simp add: move_digits_memcpy)
  have "s - 1 - ?q = of_nat (?k - 12)" using k by (simp add: of_nat_diff)
  then have "unat (s - 1 - ?q) = ?k - 12" using k32 by (simp only: unat_of_nat_small)
  moreover have "?k - 12 < ?k" using k by linarith
  ultimately have "?m (s - 1) = ds ! (?k - 12)" using k32 by (simp add: put_bytes_apply)
  moreover have "\<not> in_range (s - 1) s (unat (of_nat ?k :: u32))"
    using \<open>?k \<le> 32\<close> by (simp add: in_range_def unsigned_minus_1_eq_mask mask_eq_exp_minus_1)
  then have "memcpy s ?q (of_nat ?k) ?m (s - 1) = ?m (s - 1)" by (rule memcpy.copy_outside)
  ultimately show ?thesis using e by simp
qed

end
