(* ===== verification/Printf_Spec.thy ===== *)
theory Printf_Spec
  imports Formatted_Output
begin

text \<open>
  What the formatter prints: a format as a list of literal characters and fields, the text each stands for, and that \<open>chvprintf\<close>
  sends exactly that text to any stream that meets the contract \<open>sequential_stream\<close>, which the memory stream and the null
  stream do.
\<close>

section \<open>Well-formed formats\<close>

text \<open>A format is a list of characters and fields, each of the documented form
  \<^verbatim>\<open>%[-][0][width|*][.precision|*][l|L]p\<close>.  A width or a precision is a sequence of digits and stars, a star with its
  argument; a conversion comes with its character and argument, and that of a string is an address, with the string there.\<close>

datatype npart = Digit u8 | Star u32

datatype conv = Dec u8 u32 | Uns u8 u32 | Chr u32 | Str u32 "u8 list"

datatype item = Lit u8 | Field bool bool "npart list" "npart list option" "u8 option" conv

fun npart_char :: "npart \<Rightarrow> u8" where
  "npart_char (Digit c) = c"
| "npart_char (Star w) = 0x2A"

fun npart_args :: "npart \<Rightarrow> u32 list" where
  "npart_args (Digit c) = []"
| "npart_args (Star w) = [w]"

fun npart_value :: "npart \<Rightarrow> nat" where
  "npart_value (Digit c) = unat c - 48"
| "npart_value (Star w) = unat w mod 256"

fun npart_ok :: "npart \<Rightarrow> bool" where
  "npart_ok (Digit c) \<longleftrightarrow> isdigit c"
| "npart_ok (Star w) \<longleftrightarrow> True"

definition num_value :: "npart list \<Rightarrow> nat" where
  "num_value ps = foldl (\<lambda>r p. r * 10 + npart_value p) 0 ps"

abbreviation num_args :: "npart list \<Rightarrow> u32 list" where
  "num_args ps \<equiv> concat (map npart_args ps)"

abbreviation opt_parts :: "npart list option \<Rightarrow> npart list" where
  "opt_parts pd \<equiv> (case pd of None \<Rightarrow> [] | Some ps \<Rightarrow> ps)"

fun conv_char :: "conv \<Rightarrow> u8" where
  "conv_char (Dec c w) = c"
| "conv_char (Uns c w) = c"
| "conv_char (Chr w) = 0x63"
| "conv_char (Str a bs) = 0x73"

fun conv_arg :: "conv \<Rightarrow> u32" where
  "conv_arg (Dec c w) = w"
| "conv_arg (Uns c w) = w"
| "conv_arg (Chr w) = w"
| "conv_arg (Str a bs) = a"

definition uns_radix :: "u8 \<Rightarrow> nat" where
  "uns_radix c = (if c \<in> {0x58, 0x78} then 16 else if c \<in> {0x55, 0x75} then 10 else 8)"

definition dec_text :: "u32 \<Rightarrow> u8 list" where
  "dec_text w = (if sint w < 0 then 0x2D # digits_of 10 (unat (- w)) else digits_of 10 (unat w))"

fun conv_text :: "nat \<Rightarrow> conv \<Rightarrow> u8 list" where
  "conv_text precision (Dec c w) = dec_text w"
| "conv_text precision (Uns c w) = digits_of (uns_radix c) (unat w)"
| "conv_text precision (Chr w) = [ucast w]"
| "conv_text precision (Str a bs) = take (if precision = 0 then 32767 else precision) bs"

fun conv_filler :: "bool \<Rightarrow> conv \<Rightarrow> u8" where
  "conv_filler zero (Chr w) = 0x20"
| "conv_filler zero (Str a bs) = 0x20"
| "conv_filler zero cv = (if zero then 0x30 else 0x20)"

text \<open>Filling a text up to a width; zeros go behind a minus sign.\<close>

definition pad :: "bool \<Rightarrow> u8 \<Rightarrow> nat \<Rightarrow> u8 list \<Rightarrow> u8 list" where
  "pad left filler width txt =
     (let k = width - length txt
      in if left then txt @ replicate k filler
         else if 0 < k \<and> filler = 0x30 \<and> txt \<noteq> [] \<and> hd txt = 0x2D then 0x2D # replicate k filler @ tl txt
         else replicate k filler @ txt)"

fun show_item :: "item \<Rightarrow> u8 list" where
  "show_item (Lit c) = [c]"
| "show_item (Field left zero wd pd long cv) =
     0x25 # (if left then [0x2D] else []) @ (if zero then [0x30] else []) @ map npart_char wd
       @ (case pd of None \<Rightarrow> [] | Some ds \<Rightarrow> 0x2E # map npart_char ds) @ (case long of None \<Rightarrow> [] | Some c \<Rightarrow> [c]) @ [conv_char cv]"

fun item_args :: "item \<Rightarrow> u32 list" where
  "item_args (Lit c) = []"
| "item_args (Field left zero wd pd long cv) = num_args wd @ num_args (opt_parts pd) @ [conv_arg cv]"

fun item_out :: "item \<Rightarrow> u8 list" where
  "item_out (Lit c) = [c]"
| "item_out (Field left zero wd pd long cv) =
     pad left (conv_filler zero cv) (num_value wd) (conv_text (num_value (opt_parts pd)) cv)"

text \<open>Widths and precisions are below $2^{31}$, as an \<^verbatim>\<open>int\<close> is.\<close>

definition num_ok :: "npart list \<Rightarrow> bool" where
  "num_ok ps \<longleftrightarrow> list_all npart_ok ps \<and> num_value ps < 2 ^ 31"

fun conv_ok :: "conv \<Rightarrow> bool" where
  "conv_ok (Dec c w) \<longleftrightarrow> c \<in> {0x44, 0x64, 0x49, 0x69}"
| "conv_ok (Uns c w) \<longleftrightarrow> c \<in> {0x58, 0x78, 0x55, 0x75, 0x4F, 0x6F}"
| "conv_ok (Str a bs) \<longleftrightarrow> a \<noteq> 0 \<and> 0 \<notin> set bs \<and> length bs < 2 ^ 31"
| "conv_ok (Chr w) \<longleftrightarrow> True"

fun item_ok :: "item \<Rightarrow> bool" where
  "item_ok (Lit c) \<longleftrightarrow> c \<noteq> 0 \<and> c \<noteq> 0x25"
| "item_ok (Field left zero wd pd long cv) \<longleftrightarrow> num_ok wd \<and> (zero \<or> wd = [] \<or> hd wd \<noteq> Digit 0x30)
     \<and> num_ok (opt_parts pd) \<and> (case long of None \<Rightarrow> True | Some c \<Rightarrow> c = 0x6C \<or> c = 0x4C) \<and> conv_ok cv"

text \<open>The bytes of memory from an address on.\<close>

definition holds :: "mem \<Rightarrow> u32 \<Rightarrow> u8 list \<Rightarrow> bool" where
  "holds m a bs \<longleftrightarrow> mem_bytes m a (length bs) = bs"

lemma holds_simps [simp]:
  "holds m a []" "holds m a (b # bs) \<longleftrightarrow> m a = b \<and> holds m (a + 1) bs"
  by (simp_all add: holds_def mem_bytes_Suc)

lemma holds_append [simp]: "holds m a (xs @ ys) \<longleftrightarrow> holds m a xs \<and> holds m (a + of_nat (length xs)) ys"
  by (induction xs arbitrary: a) (auto simp: add.assoc)

lemma holds_nth: "holds m a bs \<Longrightarrow> i < length bs \<Longrightarrow> m (a + of_nat i) = bs ! i"
  by (metis holds_def nth_mem_bytes)

text \<open>The number scanner.\<close>

lemma scan_number_end:
  "\<not> isdigit (m fmt) \<Longrightarrow> m fmt \<noteq> 0x2A \<Longrightarrow> scan_number m fmt ap acc = Some (m fmt, fmt + 1, ap, acc)"
  by (subst scan_number.simps) (auto simp: isdigit_def Let_def)

lemma num_value_Nil [simp]: "num_value [] = 0"
  by (simp add: num_value_def)

definition arg_bytes :: "u32 \<Rightarrow> u8 list" where
  "arg_bytes w = [byte_of w 0, byte_of w 1, byte_of w 2, byte_of w 3]"

lemma load32_arg_bytes: "holds m a (arg_bytes w) \<Longrightarrow> load32 m a = w"
  by (simp add: arg_bytes_def load32_def add.assoc)

lemma length_arg_bytes [simp]: "length (concat (map arg_bytes ws)) = 4 * length ws"
  by (induction ws) (simp_all add: arg_bytes_def)

lemma npart_value_word:
  "isdigit c \<Longrightarrow> (ucast (c - 0x30) :: u32) = of_nat (npart_value (Digit c))"
  "(ucast (ucast w :: u8) :: u32) = of_nat (npart_value (Star w))"
proof -
  assume "isdigit c"
  then have "unat (c - 0x30) = unat c - 48" by (simp add: isdigit_def unat_sub word_le_nat_alt)
  then show "(ucast (c - 0x30) :: u32) = of_nat (npart_value (Digit c))" by (metis npart_value.simps(1) of_nat_unat)
next
  have "unat (ucast w :: u8) = unat w mod 256" by (simp add: unsigned_ucast_eq take_bit_eq_mod)
  then show "(ucast (ucast w :: u8) :: u32) = of_nat (npart_value (Star w))" by (metis npart_value.simps(2) of_nat_unat)
qed

lemma scan_number_step:
  assumes "npart_ok p" "m fmt = npart_char p" "holds m ap (concat (map arg_bytes (npart_args p)))"
  shows "scan_number m fmt ap (of_nat k) =
    scan_number m (fmt + 1) (ap + of_nat (4 * length (npart_args p))) (of_nat (k * 10 + npart_value p))"
proof (cases p)
  case (Digit c)
  then show ?thesis using assms npart_value_word(1) [of c]
    by (subst scan_number.simps) (simp add: isdigit_def Let_def)
next
  case (Star w)
  then have "load32 m ap = w" using assms(3) by (intro load32_arg_bytes) simp
  then show ?thesis using Star assms(2) npart_value_word(2) [of w]
    by (subst scan_number.simps) (simp add: Let_def)
qed

lemma scan_number_eq:
  assumes "list_all npart_ok ps" "holds m fmt (map npart_char ps @ [c])" "\<not> isdigit c" "c \<noteq> 0x2A"
    "holds m ap (concat (map arg_bytes (num_args ps)))"
  shows "scan_number m fmt ap (of_nat k) =
    Some (c, fmt + of_nat (length ps) + 1, ap + of_nat (4 * length (num_args ps)), of_nat (foldl (\<lambda>r p. r * 10 + npart_value p) k ps))"
  using assms
proof (induction ps arbitrary: fmt ap k)
  case Nil
  then show ?case using scan_number_end [of m fmt] by simp
next
  case (Cons p ps)
  let ?ap = "ap + of_nat (4 * length (npart_args p))"
  have a: "holds m ap (concat (map arg_bytes (npart_args p)))" "holds m ?ap (concat (map arg_bytes (num_args ps)))"
    using Cons.prems(5) by simp_all
  have "scan_number m fmt ap (of_nat k) = scan_number m (fmt + 1) ?ap (of_nat (k * 10 + npart_value p))"
    using Cons.prems(1,2) a(1) by (intro scan_number_step) simp_all
  also have "\<dots> = Some (c, fmt + 1 + of_nat (length ps) + 1, ?ap + of_nat (4 * length (num_args ps)),
      of_nat (foldl (\<lambda>r p. r * 10 + npart_value p) (k * 10 + npart_value p) ps))"
    using Cons.prems a(2) by (intro Cons.IH) simp_all
  finally show ?case by (simp add: algebra_simps)
qed

lemma scan_number_value:
  assumes "num_ok ps" "holds m fmt (map npart_char ps @ [c])" "\<not> isdigit c" "c \<noteq> 0x2A"
    "holds m ap (concat (map arg_bytes (num_args ps)))"
  shows "scan_number m fmt ap 0 = Some (c, fmt + of_nat (length ps) + 1, ap + of_nat (4 * length (num_args ps)), of_nat (num_value ps))"
  using scan_number_eq [of ps m fmt c ap 0] assms by (simp add: num_value_def num_ok_def)

lemma conv_char_cases:
  assumes "conv_ok cv"
  shows "\<not> isdigit (conv_char cv)" "conv_char cv \<noteq> 0x2A" "conv_char cv \<noteq> 0x2E" "conv_char cv \<noteq> 0x6C" "conv_char cv \<noteq> 0x4C" "conv_char cv \<noteq> 0"
    "conv_char cv \<noteq> 0x2D" "conv_char cv \<noteq> 0x30"
  using assms by (cases cv; auto simp: isdigit_def)+

lemma npart_char_first: "npart_ok p \<Longrightarrow> npart_char p \<noteq> 0x2D" "p \<noteq> Digit 0x30 \<Longrightarrow> npart_char p \<noteq> 0x30"
  by (cases p; auto simp: isdigit_def)+

text \<open>What follows a number: the long modifier and the conversion.\<close>

lemma parse_tail:
  assumes "conv_ok cv" "case long of None \<Rightarrow> True | Some c \<Rightarrow> c = 0x6C \<or> c = 0x4C"
    "holds m fmt ((case long of None \<Rightarrow> [] | Some c \<Rightarrow> [c]) @ [conv_char cv])"
  shows "(let c = m fmt in if (c = 0x6C \<or> c = 0x4C) \<and> m (fmt + 1) \<noteq> 0 then (m (fmt + 1), fmt + 1 + 1) else (c, fmt + 1)) =
    (conv_char cv, fmt + of_nat (length ((case long of None \<Rightarrow> [] | Some c \<Rightarrow> [c]) @ [conv_char cv])))"
  using assms conv_char_cases [OF assms(1)] by (cases long) auto

lemma isdigit_eval [simp]: "isdigit 0x30" "\<not> isdigit 0x2E" "\<not> isdigit 0x6C" "\<not> isdigit 0x4C" "\<not> isdigit 0x2D"
  by (simp_all add: isdigit_def)

lemma parse_directive_eq:
  assumes ok: "item_ok (Field left zero wd pd long cv)"
    and h: "holds m fmt (tl (show_item (Field left zero wd pd long cv)))"
    and ap: "holds m ap (concat (map arg_bytes (num_args wd @ num_args (opt_parts pd))))"
  shows "parse_directive m fmt ap =
    Some (\<lparr>d_left = left, d_filler = (if zero then 0x30 else 0x20), d_width = of_nat (num_value wd),
            d_precision = of_nat (num_value (opt_parts pd)), d_char = conv_char cv\<rparr>,
          fmt + of_nat (length (tl (show_item (Field left zero wd pd long cv)))),
          ap + of_nat (4 * length (num_args wd @ num_args (opt_parts pd))))"
proof -
  let ?wd = "map npart_char wd"
  let ?tail = "(case long of None \<Rightarrow> [] | Some c \<Rightarrow> [c]) @ [conv_char cv]"
  let ?prec = "(case pd of None \<Rightarrow> [] | Some ds \<Rightarrow> 0x2E # map npart_char ds) @ ?tail"
  define f1 where "f1 = (if left then fmt + 1 else fmt)"
  define f2 where "f2 = (if zero then f1 + 1 else f1)"
  have wd: "num_ok wd" and z: "zero \<or> wd = [] \<or> hd wd \<noteq> Digit 0x30" and cv: "conv_ok cv"
    and lg: "case long of None \<Rightarrow> True | Some c \<Rightarrow> c = 0x6C \<or> c = 0x4C" using ok by auto
  note C = conv_char_cases [OF cv]
  have h1: "holds m f1 ((if zero then [0x30] else []) @ ?wd @ ?prec)" using h by (auto simp: f1_def)
  have h2: "holds m f2 (?wd @ ?prec)" using h1 by (auto simp: f2_def)
  have first: "hd ?prec \<notin> {0x30, 0x2D, 0x2A}" "\<not> isdigit (hd ?prec)" "?prec \<noteq> []"
    using C lg by (cases pd; cases long; auto)+
  have l: "m fmt = 0x2D \<longleftrightarrow> left"
  proof (cases left)
    case False
    then have "holds m fmt ((if zero then [0x30] else []) @ ?wd @ ?prec)" using h1 by (simp add: f1_def)
    moreover have "0x2D \<noteq> hd ((if zero then [0x30] else []) @ ?wd @ ?prec)"
      using first wd npart_char_first(1) by (cases zero; cases wd) (auto simp: num_ok_def)
    ultimately show ?thesis using False by (cases "(if zero then [0x30] else []) @ ?wd @ ?prec") auto
  qed (use h in simp)
  have zr: "m f1 = 0x30 \<longleftrightarrow> zero"
  proof (cases zero)
    case False
    then have "holds m f1 (?wd @ ?prec)" using h1 by simp
    moreover have "0x30 \<noteq> hd (?wd @ ?prec)" using first z False npart_char_first(2) by (cases wd) auto
    ultimately show ?thesis using False by (cases "?wd @ ?prec") auto
  qed (use h1 in simp)
  obtain c rest where p: "?prec = c # rest" using first(3) by (cases ?prec) auto
  let ?ap = "ap + of_nat (4 * length (num_args wd))"
  have a: "holds m ap (concat (map arg_bytes (num_args wd)))" "holds m ?ap (concat (map arg_bytes (num_args (opt_parts pd))))"
    using ap by simp_all
  have s1: "scan_number m f2 ap 0 = Some (c, f2 + of_nat (length wd) + 1, ?ap, of_nat (num_value wd))"
    by (rule scan_number_value [OF wd _ _ _ a(1)]) (use h2 first p in auto)
  let ?f3 = "f2 + of_nat (length wd)"
  have h3: "holds m ?f3 ?prec" using h2 by simp
  have d: "parse_directive m fmt ap = do {
      (c, fmt, ap, precision) \<leftarrow> (if c = 0x2E then scan_number m (?f3 + 1) ?ap 0 else Some (c, ?f3 + 1, ?ap, 0));
      let (c, fmt) = (if (c = 0x6C \<or> c = 0x4C) \<and> m fmt \<noteq> 0 then (m fmt, fmt + 1) else (c, fmt));
      Some (\<lparr>d_left = left, d_filler = (if zero then 0x30 else 0x20), d_width = of_nat (num_value wd), d_precision = precision, d_char = c\<rparr>,
            fmt, ap) }"
    unfolding parse_directive_def Let_def l f1_def [symmetric] zr f2_def [symmetric] s1 by simp
  have e: "fmt + of_nat (length (tl (show_item (Field left zero wd pd long cv)))) = ?f3 + of_nat (length ?prec)"
    by (simp add: f1_def f2_def)
  show ?thesis
  proof (cases pd)
    case None
    then have "m ?f3 = c" "c \<noteq> 0x2E" using h3 p C lg by (auto split: option.splits)
    then show ?thesis using parse_tail [OF cv lg, of m ?f3] h3 None unfolding d e
      by (auto simp: Let_def split: if_splits prod.splits)
  next
    case (Some ds)
    obtain c2 r2 where t2: "?tail = c2 # r2" by (cases ?tail) auto
    let ?f4 = "?f3 + 1 + of_nat (length ds)"
    have c: "c = 0x2E" "rest = map npart_char ds @ ?tail" using p Some by auto
    have h4: "holds m ?f4 ?tail" "holds m (?f3 + 1) (map npart_char ds @ ?tail)" using h3 Some by (simp_all add: add.assoc)
    have "scan_number m (?f3 + 1) ?ap 0 = Some (c2, ?f4 + 1, ?ap + of_nat (4 * length (num_args ds)), of_nat (num_value ds))"
      by (rule scan_number_value) (use ok Some h4 t2 C lg a(2) in \<open>auto split: option.splits\<close>)
    moreover have "m ?f4 = c2" using h4 t2 by simp
    ultimately show ?thesis using parse_tail [OF cv lg h4(1)] Some unfolding d e c
      by (auto simp: Let_def algebra_simps split: if_splits prod.splits)
  qed
qed

lemma string_end_eq:
  assumes "holds m a (bs @ [0])" "0 \<notin> set bs"
  shows "string_end m n a = a + of_nat (length (take n bs))"
  using assms
proof (induction bs arbitrary: n a)
  case Nil
  then show ?case by (cases n) simp_all
next
  case (Cons b bs)
  show ?case
  proof (cases n)
    case (Suc k)
    have "string_end m k (a + 1) = a + 1 + of_nat (length (take k bs))" using Cons.prems by (intro Cons.IH) simp_all
    then show ?thesis using Cons.prems Suc by auto
  qed simp
qed

lemma length_digits_u32: "8 \<le> r \<Longrightarrow> length (digits_of r (unat (w :: u32))) \<le> 11"
proof (rule length_digits_le)
  assume "8 \<le> r"
  then have "(2 :: nat) ^ 32 \<le> r ^ 11" using power_mono [of 8 r 11] by simp
  then show "unat w < r ^ 11" using unat_u32_lt [of w] by linarith
qed auto

lemma holds_mem_bytes: "mem_bytes m a (length bs) = bs \<Longrightarrow> holds m a bs"
  by (simp add: holds_def)

lemma ch_ltoa_u32:
  fixes w :: u32
  assumes "8 \<le> unat radix" "unat radix \<le> 36"
  defines "ds \<equiv> digits_of (unat radix) (unat w)"
  obtains m' where "ch_ltoa p w radix m = Some (p + of_nat (length ds), m')" "holds m' p ds" "\<And>x. \<not> in_range x p 11 \<Longrightarrow> m' x = m x"
    "length ds \<le> 11"
proof -
  have l: "length ds \<le> 11" unfolding ds_def by (rule length_digits_u32 [OF assms(1)])
  obtain m' where "ch_ltoa p w radix m = Some (p + of_nat (length ds), m')" "mem_bytes m' p (length ds) = ds"
    "\<And>x. \<not> in_range x p 11 \<Longrightarrow> m' x = m x"
    using ch_ltoa_correct [of radix w p m] assms l by auto
  then show ?thesis by (intro that [of m']) (simp_all add: l holds_mem_bytes)
qed

text \<open>The conversion of a number with a minus sign in front of it.\<close>

lemma in_range_Suc: "\<not> in_range x a (Suc n) \<Longrightarrow> n < 2 ^ 32 \<Longrightarrow> \<not> in_range x (a + 1) n \<and> x \<noteq> a"
proof -
  assume n: "\<not> in_range x a (Suc n)" "n < 2 ^ 32"
  then have "x \<noteq> a" by (auto simp: in_range_def)
  then show ?thesis using n unat_minus_1 [of x a] by (simp add: in_range_def)
qed

lemma ch_ltoa_negative:
  obtains m' where "ch_ltoa (p + 1) w 10 (m(p := 0x2D)) = Some (p + 1 + of_nat (length (digits_of 10 (unat w))), m')"
    "holds m' p (0x2D # digits_of 10 (unat w))" "\<And>x. \<not> in_range x p 12 \<Longrightarrow> m' x = m x"
    "length (digits_of 10 (unat w)) \<le> 11"
proof -
  obtain m' where m': "ch_ltoa (p + 1) w 10 (m(p := 0x2D)) = Some (p + 1 + of_nat (length (digits_of 10 (unat w))), m')"
    "holds m' (p + 1) (digits_of 10 (unat w))" "\<And>x. \<not> in_range x (p + 1) 11 \<Longrightarrow> m' x = (m(p := 0x2D)) x"
    "length (digits_of 10 (unat w)) \<le> 11"
    using ch_ltoa_u32 [of 10 "p + 1" w "m(p := 0x2D)"] by auto
  have "\<not> in_range p (p + 1) 11"
    by (simp add: in_range_def unsigned_minus_1_eq_mask mask_eq_exp_minus_1)
  then have "m' p = 0x2D" using m'(3) by simp
  moreover have "m' x = m x" if "\<not> in_range x p 12" for x
    using m'(3) [of x] in_range_Suc [of x p 11] that by simp
  ultimately show ?thesis using m' by (intro that [of m']) simp_all
qed

definition text_source :: "u32 \<Rightarrow> conv \<Rightarrow> u32 \<Rightarrow> nat \<Rightarrow> bool" where
  "text_source tmpbuf cv s k \<longleftrightarrow> s = tmpbuf \<and> k \<le> 12 \<or> (\<exists>bs. cv = Str s bs \<and> k \<le> length bs)"

text \<open>Arithmetic of \<^verbatim>\<open>int\<close> on numbers below $2^{31}$.\<close>

lemma sint_diff_u32:
  assumes "a < 2 ^ 31" "b < 2 ^ 31"
  shows "sint (of_nat a - of_nat b :: u32) = int a - int b"
proof -
  have "(of_nat a - of_nat b :: u32) = word_of_int (int a - int b)" by simp
  then have "sint (of_nat a - of_nat b :: u32) = signed_take_bit 31 (int a - int b)" by (simp only: signed_of_int) simp
  then show ?thesis using assms by (simp add: signed_take_bit_int_eq_self)
qed

lemma loop_count_of_nat: "k < 2 ^ 31 \<Longrightarrow> loop_count (of_nat k) = k"
  using sint_diff_u32 [of k 1] by (auto simp: loop_count_def)

lemma of_nat_0_iff_u32: "k < 2 ^ 31 \<Longrightarrow> (of_nat k :: u32) = 0 \<longleftrightarrow> k = 0"
  using unat_of_nat_small [of k] unat_0 by (cases "k = 0") fastforce+

lemma convert_eq:
  assumes ok: "conv_ok cv" and arg: "load32 m ap = conv_arg cv"
    and str: "\<And>a bs. cv = Str a bs \<Longrightarrow> holds m a (bs @ [0])"
    and d: "d_char d = conv_char cv" "d_filler d = (if zero then 0x30 else 0x20)" "d_precision d = of_nat precision"
    and pr: "precision < 2 ^ 31"
  defines "txt \<equiv> conv_text precision cv"
  obtains s m' where "convert fl null_str tmpbuf d ap m = Some (s, s + of_nat (length txt), conv_filler zero cv, ap + 4, m')"
    "holds m' s txt" "\<And>x. \<not> in_range x tmpbuf 12 \<Longrightarrow> m' x = m x" "length txt < 2 ^ 31" "text_source tmpbuf cv s (length txt)"
proof (cases cv)
  case (Chr w)
  show ?thesis
  proof (rule that [of tmpbuf "m(tmpbuf := ucast w)"])
    show "(m(tmpbuf := ucast w)) x = m x" if "\<not> in_range x tmpbuf 12" for x using that by (auto simp: in_range_def)
  qed (use Chr arg d in \<open>simp_all add: convert_def txt_def text_source_def\<close>)
next
  case (Str a bs)
  let ?n = "if precision = 0 then 32767 else precision"
  have h: "holds m a (bs @ [0])" and b: "a \<noteq> 0" "0 \<notin> set bs" "length bs < 2 ^ 31" using str [OF Str] ok Str by auto
  have t: "txt = take ?n bs" by (simp add: txt_def Str)
  have "holds m a bs" using h by simp
  then have "holds m a (take ?n bs @ drop ?n bs)" by (simp only: append_take_drop_id)
  then have ht: "holds m a txt" unfolding t holds_append by blast
  have "loop_count (if d_precision d = 0 then 32767 else d_precision d) = ?n"
    using d(3) pr loop_count_of_nat [of ?n] of_nat_0_iff_u32 [of precision] by auto
  then have c: "convert fl null_str tmpbuf d ap m = Some (a, a + of_nat (length txt), 0x20, ap + 4, m)"
    using d(1,2) arg b Str string_end_eq [OF h b(2), of ?n] by (simp add: convert_def t Let_def)
  show ?thesis using b Str by (intro that [of a m, OF _ ht]) (simp_all add: c t text_source_def min_def)
next
  case (Uns c w)
  define rx where "rx = ((if c \<in> {0x58, 0x78} then 16 else if c \<in> {0x55, 0x75} then 10 else 8) :: u32)"
  have r: "8 \<le> unat rx" "unat rx \<le> 36" and t: "txt = digits_of (unat rx) (unat w)"
    by (simp_all add: uns_radix_def rx_def txt_def Uns)
  obtain m' where m': "ch_ltoa tmpbuf w rx m = Some (tmpbuf + of_nat (length txt), m')" "holds m' tmpbuf txt"
    "\<And>x. \<not> in_range x tmpbuf 11 \<Longrightarrow> m' x = m x" "length txt \<le> 11"
    unfolding t by (rule ch_ltoa_u32 [OF r, of tmpbuf w m]) blast
  have c: "convert fl null_str tmpbuf d ap m = Some (tmpbuf, tmpbuf + of_nat (length txt), if zero then 0x30 else 0x20, ap + 4, m')"
  proof -
    have "c = 0x58 \<or> c = 0x78 \<or> c = 0x55 \<or> c = 0x75 \<or> c = 0x4F \<or> c = 0x6F" using ok Uns by simp
    then show ?thesis using d arg Uns m'(1) unfolding rx_def by (elim disjE) (simp_all add: convert_def Let_def)
  qed
  show ?thesis using m' by (intro that [of tmpbuf m']) (auto simp: c Uns text_source_def in_range_def)
next
  case (Dec ch w)
  have ch: "ch = 0x44 \<or> ch = 0x64 \<or> ch = 0x49 \<or> ch = 0x69" using ok Dec by simp
  show ?thesis
  proof (cases "sint w < 0")
    case True
    obtain m' where m': "ch_ltoa (tmpbuf + 1) (- w) 10 (m(tmpbuf := 0x2D)) = Some (tmpbuf + 1 + of_nat (length (digits_of 10 (unat (- w)))), m')"
      "holds m' tmpbuf (0x2D # digits_of 10 (unat (- w)))" "\<And>x. \<not> in_range x tmpbuf 12 \<Longrightarrow> m' x = m x"
      "length (digits_of 10 (unat (- w))) \<le> 11" by (rule ch_ltoa_negative [of tmpbuf "- w" m]) blast
    have t: "txt = 0x2D # digits_of 10 (unat (- w))" using True by (simp add: txt_def Dec dec_text_def)
    have c: "convert fl null_str tmpbuf d ap m = Some (tmpbuf, tmpbuf + of_nat (length txt), if zero then 0x30 else 0x20, ap + 4, m')"
      using d arg Dec m'(1) True ch by (elim disjE) (simp_all add: convert_def Let_def t add.assoc)
    show ?thesis using m' by (intro that [of tmpbuf m']) (auto simp: c Dec t text_source_def)
  next
    case False
    obtain m' where m': "ch_ltoa tmpbuf w 10 m = Some (tmpbuf + of_nat (length txt), m')" "holds m' tmpbuf txt"
      "\<And>x. \<not> in_range x tmpbuf 11 \<Longrightarrow> m' x = m x" "length txt \<le> 11"
      using ch_ltoa_u32 [of 10 tmpbuf w m] False unfolding txt_def Dec conv_text.simps dec_text_def by auto
    have c: "convert fl null_str tmpbuf d ap m = Some (tmpbuf, tmpbuf + of_nat (length txt), if zero then 0x30 else 0x20, ap + 4, m')"
      using d arg Dec m'(1) False ch by (elim disjE) (simp_all add: convert_def Let_def)
    show ?thesis using m' by (intro that [of tmpbuf m']) (auto simp: c Dec text_source_def in_range_def)
  qed
qed

section \<open>Output to a stream\<close>

text \<open>\<open>W\<close> tells the addresses that are written to; \<open>safe W m a bs\<close> says that the bytes \<open>bs\<close> are at the address \<open>a\<close> and stay there.\<close>

definition safe :: "(u32 \<Rightarrow> bool) \<Rightarrow> mem \<Rightarrow> u32 \<Rightarrow> u8 list \<Rightarrow> bool" where
  "safe W m a bs \<longleftrightarrow> holds m a bs \<and> (\<forall>i < length bs. \<not> W (a + of_nat i))"

definition off :: "(u32 \<Rightarrow> bool) \<Rightarrow> mem \<Rightarrow> mem \<Rightarrow> bool" where
  "off W m m' \<longleftrightarrow> (\<forall>x. \<not> W x \<longrightarrow> m' x = m x)"

lemma off_trans: "off W m m1 \<Longrightarrow> off W m1 m2 \<Longrightarrow> off W m m2"
  by (simp add: off_def)

lemma safe_off: "safe W m a bs \<Longrightarrow> off W m m' \<Longrightarrow> safe W m' a bs"
  unfolding safe_def off_def holds_def by (metis (no_types, lifting) mem_bytes_cong)

lemma safe_simps [simp]:
  "safe W m a []" "safe W m a (b # bs) \<longleftrightarrow> m a = b \<and> \<not> W a \<and> safe W m (a + 1) bs"
  by (auto simp: safe_def All_less_Suc2 add.assoc)

lemma safe_append [simp]: "safe W m a (xs @ ys) \<longleftrightarrow> safe W m a xs \<and> safe W m (a + of_nat (length xs)) ys"
  by (induction xs arbitrary: a) (auto simp: add.assoc)

lemma safe_holds: "safe W m a bs \<Longrightarrow> holds m a bs"
  by (simp add: safe_def)

fun item_strings :: "item \<Rightarrow> (u32 \<times> u8 list) list" where
  "item_strings (Field left zero wd pd long (Str a bs)) = [(a, bs @ [0])]"
| "item_strings _ = []"

text \<open>A format, its arguments and its strings are in memory.\<close>

definition printable :: "(u32 \<Rightarrow> bool) \<Rightarrow> mem \<Rightarrow> u32 \<Rightarrow> u32 \<Rightarrow> item list \<Rightarrow> bool" where
  "printable W m fmt ap items \<longleftrightarrow> list_all item_ok items \<and> safe W m fmt (concat (map show_item items) @ [0])
     \<and> safe W m ap (concat (map arg_bytes (concat (map item_args items))))
     \<and> (\<forall>(a, bs) \<in> set (concat (map item_strings items)). safe W m a bs)"

lemma printable_off: "printable W m fmt ap items \<Longrightarrow> off W m m' \<Longrightarrow> printable W m' fmt ap items"
  unfolding printable_def using safe_off by blast

lemma printable_Cons:
  "printable W m fmt ap (it # items) \<longleftrightarrow> item_ok it \<and> safe W m fmt (show_item it)
     \<and> safe W m ap (concat (map arg_bytes (item_args it))) \<and> (\<forall>(a, bs) \<in> set (item_strings it). safe W m a bs)
     \<and> printable W m (fmt + of_nat (length (show_item it))) (ap + of_nat (4 * length (item_args it))) items"
proof -
  have "length (concat (map arg_bytes ws)) = 4 * length ws" for ws by (induction ws) (simp_all add: arg_bytes_def)
  then show ?thesis unfolding printable_def by (auto simp del: of_nat_mult)
qed

text \<open>The contract of a stream: \<open>contents\<close> are the bytes it has accepted, of which \<open>accept\<close> may drop some when it is full, and
  it writes only to the memory it owns.\<close>

locale sequential_stream =
  fixes put :: "u8 \<Rightarrow> mem \<times> 's \<Rightarrow> mem \<times> 's"
    and valid :: "mem \<times> 's \<Rightarrow> bool"
    and own :: "u32 \<Rightarrow> bool"
    and contents :: "mem \<times> 's \<Rightarrow> u8 list"
    and accept :: "u8 list \<Rightarrow> u8 list"
  assumes put_valid: "valid st \<Longrightarrow> valid (put b st)"
    and put_contents: "valid st \<Longrightarrow> contents (put b st) = accept (contents st @ [b])"
    and put_frame: "valid st \<Longrightarrow> \<not> own x \<Longrightarrow> fst (put b st) x = fst st x"
    and memory_frame: "valid (m, s) \<Longrightarrow> (\<And>x. own x \<Longrightarrow> m' x = m x) \<Longrightarrow> valid (m', s) \<and> contents (m', s) = contents (m, s)"
    and accept_contents: "valid st \<Longrightarrow> accept (contents st) = contents st"
    and accept_append: "accept (accept xs @ ys) = accept (xs @ ys)"
begin

text \<open>\<open>emits bs st st'\<close>: from \<open>st\<close> to \<open>st'\<close> the stream got the bytes \<open>bs\<close>.\<close>

definition emits :: "u8 list \<Rightarrow> mem \<times> 's \<Rightarrow> mem \<times> 's \<Rightarrow> bool" where
  "emits bs st st' \<longleftrightarrow> valid st' \<and> contents st' = accept (contents st @ bs) \<and> (\<forall>x. \<not> own x \<longrightarrow> fst st' x = fst st x)"

lemma emits_Nil: "valid st \<Longrightarrow> emits [] st st"
  by (simp add: emits_def accept_contents)

lemma emits_put: "valid st \<Longrightarrow> emits [b] st (put b st)"
  by (simp add: emits_def put_valid put_contents put_frame)

lemma emits_trans: "emits xs st st1 \<Longrightarrow> emits ys st1 st2 \<Longrightarrow> emits (xs @ ys) st st2"
  by (simp add: emits_def accept_append flip: append_assoc)

lemma emits_valid: "emits bs st st' \<Longrightarrow> valid st'"
  by (simp add: emits_def)

lemma emits_frame: "emits bs st st' \<Longrightarrow> \<not> own x \<Longrightarrow> fst st' x = fst st x"
  by (simp add: emits_def)

lemma put_filler_emits: "valid st \<Longrightarrow> emits (replicate k filler) st (put_filler put filler k st)"
proof (induction k arbitrary: st)
  case (Suc k)
  have "emits ([filler] @ replicate k filler) st (put_filler put filler k (put filler st))"
    by (rule emits_trans [OF emits_put [OF Suc.prems] Suc.IH [OF put_valid [OF Suc.prems]]])
  then show ?case by simp
qed (simp add: emits_Nil)

lemma put_text_emits:
  assumes "valid st" "holds (fst st) s bs" "\<And>i. i < length bs \<Longrightarrow> \<not> own (s + of_nat i)"
  shows "emits bs st (put_text put (length bs) s st)"
  using assms
proof (induction bs arbitrary: s st)
  case (Cons b bs)
  have fr: "fst (put b st) x = fst st x" if "\<not> own x" for x using put_frame [OF Cons.prems(1) that] .
  have o: "\<not> own (s + 1 + of_nat i)" if "i < length bs" for i using Cons.prems(3) [of "Suc i"] that by (simp add: add.assoc)
  have "mem_bytes (fst (put b st)) (s + 1) (length bs) = mem_bytes (fst st) (s + 1) (length bs)"
    by (rule mem_bytes_cong) (simp add: fr o)
  then have "holds (fst (put b st)) (s + 1) bs" using Cons.prems(2) by (simp add: holds_def mem_bytes_Suc)
  then have "emits ([b] @ bs) st (put_text put (length bs) (s + 1) (put b st))"
    by (intro emits_trans [OF emits_put [OF Cons.prems(1)]] Cons.IH put_valid [OF Cons.prems(1)] o)
  then show ?case using Cons.prems(2) by simp
qed (simp add: emits_Nil)

lemma put_field_emits:
  assumes v: "valid st" and h: "holds (fst st) s txt" and o: "\<And>i. i < length txt \<Longrightarrow> \<not> own (s + of_nat i)"
    and len: "length txt < 2 ^ 31" "width < 2 ^ 31" and nz: "txt = [] \<Longrightarrow> filler = 0x20"
  shows "\<exists>st'. put_field put left filler (of_nat width) s (s + of_nat (length txt)) (n, st) = (n + of_nat (length (pad left filler width txt)), st')
    \<and> emits (pad left filler width txt) st st'"
proof -
  define k where "k = width - length txt"
  have pad: "pad left filler width txt = (if left then txt @ replicate k filler
      else if 0 < k \<and> filler = 0x30 \<and> txt \<noteq> [] \<and> hd txt = 0x2D then 0x2D # replicate k filler @ tl txt else replicate k filler @ txt)"
    unfolding pad_def k_def Let_def by (rule refl)
  have k: "k < 2 ^ 31" using len by (simp add: k_def)
  have i: "s + of_nat (length txt) - s = of_nat (length txt)" by simp
  have w: "(if sint (of_nat width - of_nat (length txt) :: u32) < 0 then 0 else of_nat width - of_nat (length txt) :: u32) = of_nat k"
    unfolding sint_diff_u32 [OF len(2,1)] by (simp add: of_nat_diff k_def)
  have sk: "\<not> sint (of_nat k :: u32) < 0" "sint (- of_nat k :: u32) < 0 \<longleftrightarrow> 0 < k"
    using sint_diff_u32 [OF k, of 0] sint_diff_u32 [of 0, OF _ k] by simp_all
  have uk: "unat (of_nat k :: u32) = k" using k by simp
  note lc = loop_count_of_nat [OF len(1)]
  note pf = put_field_def [of put left filler "of_nat width" s "s + of_nat (length txt)" "(n, st)", unfolded Let_def prod.case i w]
  have tx: "emits (ys @ bs) st (put_text put (length bs) a st1)"
    if "emits ys st st1" "txt = xs @ bs" "a = s + of_nat (length xs)" for ys xs bs a st1
  proof (rule emits_trans [OF that(1) put_text_emits [OF emits_valid [OF that(1)]]])
    have o': "\<not> own (a + of_nat i)" if "i < length bs" for i
      using o [of "length xs + i"] that \<open>txt = xs @ bs\<close> \<open>a = s + of_nat (length xs)\<close> by (simp add: add.assoc)
    then show "\<not> own (a + of_nat i)" if "i < length bs" for i using that .
    have "mem_bytes (fst st1) a (length bs) = mem_bytes (fst st) a (length bs)"
      by (rule mem_bytes_cong) (simp add: emits_frame [OF that(1)] o')
    then show "holds (fst st1) a bs" using h that(2,3) by (simp add: holds_def mem_bytes_append)
  qed
  have fi: "emits (bs @ replicate j filler) st (put_filler put filler j st1)" if "emits bs st st1" for bs j st1
    by (rule emits_trans [OF that put_filler_emits [OF emits_valid [OF that]]])
  consider "left" | "\<not> left" "k = 0" | "\<not> left" "0 < k" "filler = 0x30" "txt \<noteq> []" "hd txt = 0x2D"
    | "\<not> left" "0 < k" "\<not> (filler = 0x30 \<and> txt \<noteq> [] \<and> hd txt = 0x2D)" by (cases "k = 0") blast+
  then show ?thesis
  proof cases
    case 1
    have "emits (txt @ replicate k filler) st (put_filler put filler k (put_text put (length txt) s st))"
      using fi [OF tx [of "[]" st "[]" "txt" s, OF emits_Nil [OF v]]] by simp
    then show ?thesis using 1 unfolding pf pad by (auto simp: Let_def sk lc uk simp del: split_paired_Ex)
  next
    case 2
    have "emits txt st (put_text put (length txt) s st)" using tx [of "[]" st "[]" "txt" s, OF emits_Nil [OF v]] by simp
    then show ?thesis using 2 sk unfolding pf pad by (auto simp: Let_def lc simp del: split_paired_Ex)
  next
    case 3
    then obtain xs where t: "txt = 0x2D # xs" by (cases "txt") auto
    let ?st = "put_filler put filler k (put 0x2D st)"
    have "emits (([0x2D] @ replicate k filler) @ xs) st (put_text put (length xs) (s + 1) ?st)"
      by (rule tx [OF fi [OF emits_put [OF v]], of "[0x2D]"]) (simp_all add: t)
    moreover have "loop_count (of_nat (length txt) - 1) = length xs" using loop_count_of_nat [of "length xs"] len(1) t by simp
    moreover have "sint (- of_nat k :: u32) < 0" "fst st s = 0x2D" "filler = 0x30" using sk(2) 3 h t by simp_all
    ultimately show ?thesis using 3(1,2) unfolding pf pad by (auto simp: Let_def uk t simp del: split_paired_Ex)
  next
    case 4
    let ?st = "put_filler put filler k st"
    have "\<not> (fst st s = 0x2D \<and> filler = 0x30)" using 4 h nz by (cases "txt") auto
    moreover have "emits (replicate k filler @ txt) st (put_text put (length txt) s ?st)"
      by (rule tx [of _ _ "[]", OF fi [OF emits_Nil [OF v], simplified]]) simp_all
    moreover have "sint (- of_nat k :: u32) < 0" using sk(2) 4 by simp
    ultimately show ?thesis using 4 unfolding pf pad by (auto simp: Let_def uk lc simp del: split_paired_Ex)
  qed
qed

lemma chvprintf_emits:
  assumes v: "valid st" and tmp: "\<And>x. in_range x tmpbuf 12 \<Longrightarrow> \<not> own x"
  defines "W \<equiv> \<lambda>x. own x \<or> in_range x tmpbuf 12"
  assumes p: "printable W (fst st) fmt ap items"
  shows "\<exists>st'. chvprintf put fl null_str tmpbuf fmt ap (n, st) = Some (n + of_nat (length (concat (map item_out items))), st')
    \<and> valid st' \<and> contents st' = accept (contents st @ concat (map item_out items)) \<and> off W (fst st) (fst st')"
  using v p
proof (induction items arbitrary: fmt ap n st)
  case Nil
  then have "fst st fmt = 0" by (simp add: printable_def)
  then show ?case using Nil accept_contents by (subst chvprintf.simps) (simp add: off_def)
next
  case (Cons it items)
  note P = Cons.prems(2) [unfolded printable_Cons]
  have next_item: "\<exists>st'. chvprintf put fl null_str tmpbuf fmt ap (n, st) = Some (n + of_nat (length (concat (map item_out (it # items)))), st')
      \<and> valid st' \<and> contents st' = accept (contents st @ concat (map item_out (it # items))) \<and> off W (fst st) (fst st')"
    if step: "chvprintf put fl null_str tmpbuf fmt ap (n, st) =
        chvprintf put fl null_str tmpbuf (fmt + of_nat (length (show_item it))) (ap + of_nat (4 * length (item_args it)))
          (n + of_nat (length (item_out it)), st1)"
      and st1: "valid st1" "contents st1 = accept (contents st @ item_out it)" "off W (fst st) (fst st1)" for st1
  proof -
    have "printable W (fst st1) (fmt + of_nat (length (show_item it))) (ap + of_nat (4 * length (item_args it))) items"
      using P printable_off [OF _ st1(3)] by blast
    from Cons.IH [OF st1(1) this, of "n + of_nat (length (item_out it))"] show ?thesis unfolding step
      using st1 off_trans [OF st1(3)] by (auto simp: accept_append add.assoc simp del: split_paired_Ex simp flip: append_assoc)
  qed
  show ?case
  proof (cases it)
    case (Lit c)
    then have c: "fst st fmt = c" "c \<noteq> 0" "c \<noteq> 0x25" using P by auto
    show ?thesis
    proof (rule next_item)
      show "chvprintf put fl null_str tmpbuf fmt ap (n, st) =
          chvprintf put fl null_str tmpbuf (fmt + of_nat (length (show_item it))) (ap + of_nat (4 * length (item_args it)))
            (n + of_nat (length (item_out it)), put c st)"
        using c Lit by (subst chvprintf.simps) (simp add: Let_def)
      show "off W (fst st) (fst (put c st))" using put_frame [OF Cons.prems(1)] by (simp add: off_def W_def)
    qed (use Cons.prems(1) Lit in \<open>simp_all add: put_valid put_contents\<close>)
  next
    case (Field left zero wd pd long cv)
    let ?m = "fst st" and ?prec = "num_value (opt_parts pd)"
    let ?txt = "conv_text ?prec cv"
    define ap1 where "ap1 = ap + of_nat (4 * length (num_args wd @ num_args (opt_parts pd)))"
    have ok: "item_ok it" and cv: "conv_ok cv" and nw: "num_value wd < 2 ^ 31" "?prec < 2 ^ 31" using P Field by (auto simp: num_ok_def)
    have args: "holds ?m ap (concat (map arg_bytes (num_args wd @ num_args (opt_parts pd))))" "holds ?m ap1 (arg_bytes (conv_arg cv))"
      using P Field by (auto dest: safe_holds simp: algebra_simps ap1_def)
    have arg: "load32 ?m ap1 = conv_arg cv" by (rule load32_arg_bytes [OF args(2)])
    have str: "safe W ?m a (bs @ [0])" if "cv = Str a bs" for a bs using P Field that by simp
    have h: "holds ?m fmt (show_item it)" using P safe_holds by blast
    have h0: "?m fmt = 0x25" using h Field by simp
    have ap2: "ap1 + 4 = ap + of_nat (4 * length (item_args it))" by (simp add: ap1_def Field algebra_simps)
    let ?d = "\<lparr>d_left = left, d_filler = if zero then 0x30 else 0x20, d_width = of_nat (num_value wd), d_precision = of_nat ?prec, d_char = conv_char cv\<rparr>"
    have pd: "parse_directive ?m (fmt + 1) ap = Some (?d, fmt + of_nat (length (show_item it)), ap1)"
      using parse_directive_eq [OF ok [unfolded Field], of ?m "fmt + 1" ap] h args(1) by (simp add: Field add.assoc ap1_def)
    obtain s m' where c: "convert fl null_str tmpbuf ?d ap1 ?m = Some (s, s + of_nat (length ?txt), conv_filler zero cv, ap1 + 4, m')"
      and m': "holds m' s ?txt" "\<And>x. \<not> in_range x tmpbuf 12 \<Longrightarrow> m' x = ?m x" "length ?txt < 2 ^ 31" "text_source tmpbuf cv s (length ?txt)"
      by (rule convert_eq [OF cv arg safe_holds [OF str] _ _ _ nw(2), of ?d zero fl null_str tmpbuf]) auto
    have v0: "valid (m', snd st)" "contents (m', snd st) = contents st"
      using memory_frame [of ?m "snd st" m'] Cons.prems(1) m'(2) tmp by auto
    have o: "\<not> own (s + of_nat i)" if i: "i < length ?txt" for i
    proof (cases "s = tmpbuf \<and> length ?txt \<le> 12")
      case True then show ?thesis using in_range_offset [of i 12 tmpbuf] tmp i by simp
    next
      case False
      then obtain bs where b: "cv = Str s bs" "length ?txt \<le> length bs" using m'(4) by (auto simp: text_source_def)
      then show ?thesis using str [OF b(1)] i by (simp add: safe_def W_def)
    qed
    have "?txt = [] \<Longrightarrow> conv_filler zero cv = 0x20" by (cases cv) (auto simp: dec_text_def split: if_splits)
    then obtain st1 where f: "put_field put left (conv_filler zero cv) (of_nat (num_value wd)) s (s + of_nat (length ?txt)) (n, m', snd st) =
        (n + of_nat (length (item_out it)), st1)" and e: "emits (item_out it) (m', snd st) st1"
      using put_field_emits [of "(m', snd st)" s ?txt "num_value wd" "conv_filler zero cv" left n] v0(1) m'(1,3) o nw(1) by (auto simp: Field)
    show ?thesis
    proof (rule next_item)
      show "chvprintf put fl null_str tmpbuf fmt ap (n, st) =
          chvprintf put fl null_str tmpbuf (fmt + of_nat (length (show_item it))) (ap + of_nat (4 * length (item_args it)))
            (n + of_nat (length (item_out it)), st1)"
        unfolding ap2 [symmetric] using h0 by (subst chvprintf.simps) (simp add: Let_def pd c f)
      show "off W ?m (fst st1)" using emits_frame [OF e] m'(2) by (simp add: off_def W_def)
    qed (use e v0 in \<open>simp_all add: emits_def\<close>)
  qed
qed

text \<open>A percent sign before the terminator: the terminator is printed and the scan goes on behind it.\<close>

lemma percent_step:
  assumes "fst st fmt = 0x25" "fst st (fmt + 1) = 0" "\<not> in_range (fmt + 1) tmpbuf 12"
  shows "chvprintf put fl null_str tmpbuf fmt ap (n, st) =
    chvprintf put fl null_str tmpbuf (fmt + 2) ap (put_field put False 0x20 0 tmpbuf (tmpbuf + 1) (n, (fst st)(tmpbuf := 0), snd st))"
proof -
  have "scan_number (fst st) (fmt + 1) ap 0 = Some (0, fmt + 2, ap, 0)"
    using scan_number_end [of "fst st" "fmt + 1" ap 0] assms by (simp add: isdigit_def add.assoc)
  then have "parse_directive (fst st) (fmt + 1) ap =
      Some (\<lparr>d_left = False, d_filler = 0x20, d_width = 0, d_precision = 0, d_char = 0\<rparr>, fmt + 2, ap)"
    using assms by (simp add: parse_directive_def Let_def)
  then show ?thesis using assms by (subst chvprintf.simps) (simp add: Let_def convert_def)
qed

lemma percent_emits:
  assumes v: "valid st" and tmp: "\<And>x. in_range x tmpbuf 12 \<Longrightarrow> \<not> own x"
  defines "W \<equiv> \<lambda>x. own x \<or> in_range x tmpbuf 12"
  assumes f: "safe W (fst st) fmt [0x25, 0]" and p: "printable W (fst st) (fmt + 2) ap items"
  shows "\<exists>st'. chvprintf put fl null_str tmpbuf fmt ap (n, st) = Some (n + of_nat (length (0 # concat (map item_out items))), st')
    \<and> valid st' \<and> contents st' = accept (contents st @ 0 # concat (map item_out items)) \<and> off W (fst st) (fst st')"
proof -
  let ?st = "((fst st)(tmpbuf := 0), snd st)"
  have r: "in_range tmpbuf tmpbuf 12" by (simp add: in_range_def)
  have v0: "valid ?st" "contents ?st = contents st" 
  proof -
    have "((fst st)(tmpbuf := 0)) x = fst st x" if "own x" for x using that tmp [OF r] by (cases "x = tmpbuf") auto
    then show "valid ?st" "contents ?st = contents st" using memory_frame [of "fst st" "snd st" "(fst st)(tmpbuf := 0)"] v by auto
  qed
  obtain st1 where st1: "put_field put False 0x20 0 tmpbuf (tmpbuf + 1) (n, ?st) = (n + 1, st1)" "emits [0] ?st st1"
    using put_field_emits [of ?st tmpbuf "[0]" 0 "0x20" False n] v0(1) tmp [OF r] by (auto simp: pad_def)
  have e: "chvprintf put fl null_str tmpbuf fmt ap (n, st) = chvprintf put fl null_str tmpbuf (fmt + 2) ap (n + 1, st1)"
    using percent_step [of st fmt tmpbuf fl null_str ap n] f st1(1) by (simp add: W_def)
  have o: "off W (fst st) (fst st1)" using emits_frame [OF st1(2)] r by (auto simp: off_def W_def)
  have "printable W (fst st1) (fmt + 2) ap items" using p o by (rule printable_off)
  then obtain st' where "chvprintf put fl null_str tmpbuf (fmt + 2) ap (n + 1, st1) = Some (n + 1 + of_nat (length (concat (map item_out items))), st')"
    "valid st'" "contents st' = accept (contents st1 @ concat (map item_out items))" "off W (fst st1) (fst st')"
    using chvprintf_emits [of st1 tmpbuf "fmt + 2" ap items fl null_str "n + 1"] emits_valid [OF st1(2)] tmp unfolding W_def by blast
  moreover have "contents st1 = accept (contents st @ [0])" using st1(2) v0(2) by (simp add: emits_def)
  ultimately show ?thesis unfolding e using off_trans [OF o] by (auto simp: accept_append simp del: split_paired_Ex)
qed

end

text \<open>The memory stream on a buffer and the null stream meet the contract.\<close>

definition ms_valid :: "u32 \<Rightarrow> u32 \<Rightarrow> mem \<times> memory_stream \<Rightarrow> bool" where
  "ms_valid buffer sz st \<longleftrightarrow> ms_buffer (snd st) = buffer \<and> ms_size (snd st) = sz \<and> ms_eos (snd st) \<le> sz"

definition ms_contents :: "u32 \<Rightarrow> mem \<times> memory_stream \<Rightarrow> u8 list" where
  "ms_contents buffer st = mem_bytes (fst st) buffer (unat (ms_eos (snd st)))"

lemma mem_bytes_snoc: "mem_bytes m a (Suc n) = mem_bytes m a n @ [m (a + of_nat n)]"
  using mem_bytes_append [of m a n 1] by (simp add: mem_bytes_Suc)

lemma mem_bytes_same: "(\<And>i. i < n \<Longrightarrow> m' (a + of_nat i) = m (a + of_nat i)) \<Longrightarrow> mem_bytes m' a n = mem_bytes m a n"
  by (rule mem_bytes_cong) simp

lemma of_nat_neq: "i < unat (e :: u32) \<Longrightarrow> of_nat i \<noteq> e"
  using unat_u32_lt [of e] unat_of_nat_small [of i] by (metis less_irrefl_nat less_trans)

interpretation ms: sequential_stream ms_put "ms_valid buffer sz" "\<lambda>x. in_range x buffer (unat sz)" "ms_contents buffer" "take (unat sz)"
  for buffer sz
proof
  fix st :: "mem \<times> memory_stream" and b x
  assume v: "ms_valid buffer sz st"
  let ?e = "ms_eos (snd st)"
  have e: "unat ?e \<le> unat sz" using v by (simp add: ms_valid_def word_le_nat_alt)
  have full: "ms_size (snd st) - ?e = 0 \<longleftrightarrow> ?e = sz" using v by (auto simp: ms_valid_def)
  have inc: "unat (?e + 1) = Suc (unat ?e)" if "?e \<noteq> sz"
    using unat_inc [of ?e sz] v that by (simp add: ms_valid_def order.not_eq_order_implies_strict)
  show "ms_valid buffer sz (ms_put b st)"
    using v e inc full by (cases st) (auto simp: ms_valid_def ms_put_def word_le_nat_alt le_eq_less_or_eq dest: word_unat_eq_iff [THEN iffD2])
  show "ms_contents buffer (ms_put b st) = take (unat sz) (ms_contents buffer st @ [b])"
  proof (cases "?e = sz")
    case True
    then show ?thesis using full by (cases st) (simp add: ms_put_def ms_contents_def)
  next
    case False
    let ?m = "(fst st)(buffer + ?e := b)"
    have "mem_bytes ?m buffer (unat ?e) = mem_bytes (fst st) buffer (unat ?e)"
      by (rule mem_bytes_same) (use of_nat_neq in auto)
    moreover have "unat ?e < unat sz" using False e by (metis le_neq_implies_less word_unat_eq_iff)
    ultimately show ?thesis using False full inc v
      by (cases st) (simp add: ms_put_def ms_contents_def mem_bytes_snoc ms_valid_def)
  qed
  show "fst (ms_put b st) x = fst st x" if "\<not> in_range x buffer (unat sz)"
  proof (cases "?e = sz")
    case False
    then have "unat ?e < unat sz" using e by (metis le_neq_implies_less word_unat_eq_iff)
    then have "x \<noteq> buffer + ?e" using that by (auto simp: in_range_def)
    then show ?thesis using v by (cases st) (simp add: ms_put_def ms_valid_def)
  qed (use full in \<open>cases st, simp add: ms_put_def\<close>)
  show "take (unat sz) (ms_contents buffer st) = ms_contents buffer st" using e by (simp add: ms_contents_def)
next
  fix m m' :: mem and s :: memory_stream
  assume v: "ms_valid buffer sz (m, s)" and a: "\<And>x. in_range x buffer (unat sz) \<Longrightarrow> m' x = m x"
  have "mem_bytes m' buffer (unat (ms_eos s)) = mem_bytes m buffer (unat (ms_eos s))"
    using v unat_u32_lt [of sz] by (intro mem_bytes_same a in_range_offset) (auto simp: ms_valid_def word_le_nat_alt)
  then show "ms_valid buffer sz (m', s) \<and> ms_contents buffer (m', s) = ms_contents buffer (m, s)"
    using v by (simp add: ms_valid_def ms_contents_def)
qed (simp add: min_def)

interpretation null_stream: sequential_stream null_put "\<lambda>_. True" "\<lambda>_. False" "\<lambda>_. []" "\<lambda>_. []"
  by standard (simp_all add: null_put_def)

text \<open>Whatever is formatted, the null stream takes it and only the buffer of the formatter is written to.\<close>

lemma chprintf_null_stream:
  assumes "printable (\<lambda>x. in_range x tmpbuf 12) m fmt ap items" "length (concat (map item_out items)) < 2 ^ 31"
  shows "\<exists>m'. chprintf null_put fl null_str tmpbuf fmt ap (m, ()) = Some (int (length (concat (map item_out items))), m', ())
    \<and> off (\<lambda>x. in_range x tmpbuf 12) m m'"
  using null_stream.chvprintf_emits [of tmpbuf "(m, ())" fmt ap items fl null_str 0] assms sint_diff_u32 [OF assms(2), of 0]
  by (auto simp: chprintf_def)

section \<open>Formatting into a buffer\<close>

definition snprintf_writes :: "u32 \<Rightarrow> u32 \<Rightarrow> u32 \<Rightarrow> u32 \<Rightarrow> bool" where
  "snprintf_writes tmpbuf str sz x \<longleftrightarrow> in_range x str (unat sz) \<or> in_range x tmpbuf 12"

lemma printable_mono: "printable W m fmt ap items \<Longrightarrow> (\<And>x. W' x \<Longrightarrow> W x) \<Longrightarrow> printable W' m fmt ap items"
  unfolding printable_def safe_def by blast

lemma in_range_mono: "in_range x a k \<Longrightarrow> k \<le> n \<Longrightarrow> in_range x a n"
  by (simp add: in_range_def)

text \<open>What is behind the call of the formatter: the terminator.\<close>

lemma snprintf_terminates:
  assumes v: "ms_valid str (if sz > 0 then sz - 1 else 0) st"
    and c: "ms_contents str st = take (unat (if sz > 0 then sz - 1 else 0 :: u32)) out"
  defines "m' \<equiv> (if ms_eos (snd st) < sz then (fst st)(str + ms_eos (snd st) := 0) else fst st)"
  shows "(0 < sz \<longrightarrow> holds m' str (take (unat sz - 1) out @ [0])) \<and> (\<forall>x. \<not> in_range x str (unat sz) \<longrightarrow> m' x = fst st x)"
proof (cases "sz = 0")
  case True
  then show ?thesis by (simp add: m'_def)
next
  case False
  let ?e = "ms_eos (snd st)"
  have p: "0 < sz" using False by (simp add: word_gt_0)
  then have u: "unat (sz - 1) = unat sz - 1" "0 < unat sz" by (simp_all add: unat_minus_one unat_gt_0 False)
  then have "unat ?e \<le> unat sz - 1" using v p by (simp add: ms_valid_def word_le_nat_alt)
  then have ul: "unat ?e < unat sz" using u by linarith
  then have e: "?e < sz" by (simp add: word_less_nat_alt)
  have ct: "mem_bytes (fst st) str (unat ?e) = take (unat sz - 1) out" using c p u by (simp add: ms_contents_def)
  then have l: "length (take (unat sz - 1) out) = unat ?e" by (metis length_mem_bytes)
  have "mem_bytes ((fst st)(str + ?e := 0)) str (unat ?e) = mem_bytes (fst st) str (unat ?e)"
    by (rule mem_bytes_same) (use of_nat_neq in auto)
  then have "holds ((fst st)(str + ?e := 0)) str (take (unat sz - 1) out)"
    using ct unfolding holds_def l by simp
  then show ?thesis using e l ul by (auto simp: m'_def in_range_def simp del: length_take)
qed

lemma snprintf_from_stream:
  fixes W :: "u32 \<Rightarrow> bool" and sz tmpbuf str fmt ap null_str :: u32
  defines "z \<equiv> if sz > 0 then sz - 1 else 0"
  defines "W \<equiv> \<lambda>x. in_range x str (unat z) \<or> in_range x tmpbuf 12"
  assumes st: "\<exists>st. chvprintf ms_put fl null_str tmpbuf fmt ap (0, m, msObjectInit str z 0) = Some (of_nat (length out), st) \<and> ms_valid str z st
      \<and> ms_contents str st = take (unat z) out \<and> off W m (fst st)" and len: "length out < 2 ^ 31"
  shows "\<exists>m'. chsnprintf fl null_str tmpbuf str sz fmt ap m = Some (int (length out), m')
    \<and> (0 < sz \<longrightarrow> holds m' str (take (unat sz - 1) out @ [0]))
    \<and> (\<forall>x. \<not> snprintf_writes tmpbuf str sz x \<longrightarrow> m' x = m x)"
proof -
  have z: "unat z \<le> unat sz" by (simp add: z_def unat_minus_one word_gt_0 unat_gt_0)
  obtain st where st: "chvprintf ms_put fl null_str tmpbuf fmt ap (0, m, msObjectInit str z 0) = Some (of_nat (length out), st)"
    "ms_valid str z st" "ms_contents str st = take (unat z) out" "off W m (fst st)" using st by blast
  note T = snprintf_terminates [OF st(2,3) [unfolded z_def]]
  have e: "chsnprintf fl null_str tmpbuf str sz fmt ap m =
      Some (int (length out), if ms_eos (snd st) < sz then (fst st)(str + ms_eos (snd st) := 0) else fst st)"
    using st(1) sint_diff_u32 [of "length out" 0] len by (cases st) (simp add: chsnprintf_def Let_def z_def)
  show ?thesis unfolding e using T st(4) in_range_mono [OF _ z] by (auto simp: off_def snprintf_writes_def W_def)
qed

text \<open>The premises of the stream lemmas for the stream of \<open>chsnprintf\<close>.\<close>

lemma snprintf_start:
  fixes sz tmpbuf str :: u32
  defines "z \<equiv> if sz > 0 then sz - 1 else 0"
  assumes tmp: "\<And>x. in_range x tmpbuf 12 \<Longrightarrow> \<not> in_range x str (unat sz)"
  shows "ms_valid str z (m, msObjectInit str z 0)" "ms_contents str (m, msObjectInit str z 0) = []"
    "in_range x tmpbuf 12 \<Longrightarrow> \<not> in_range x str (unat z)"
    "in_range x str (unat z) \<or> in_range x tmpbuf 12 \<Longrightarrow> snprintf_writes tmpbuf str sz x"
proof -
  have z: "unat z \<le> unat sz" by (simp add: z_def unat_minus_one word_gt_0 unat_gt_0)
  show "ms_valid str z (m, msObjectInit str z 0)" "ms_contents str (m, msObjectInit str z 0) = []"
    by (simp_all add: ms_valid_def ms_contents_def msObjectInit_def)
  show "in_range x tmpbuf 12 \<Longrightarrow> \<not> in_range x str (unat z)" using tmp [of x] in_range_mono [OF _ z] by blast
  show "in_range x str (unat z) \<or> in_range x tmpbuf 12 \<Longrightarrow> snprintf_writes tmpbuf str sz x"
    using in_range_mono [OF _ z] by (auto simp: snprintf_writes_def)
qed

lemma safe_mono: "safe W m a bs \<Longrightarrow> (\<And>x. W' x \<Longrightarrow> W x) \<Longrightarrow> safe W' m a bs"
  unfolding safe_def by blast

lemma snprintf_eq:
  assumes p: "printable (snprintf_writes tmpbuf str sz) m fmt ap items"
    and tmp: "\<And>x. in_range x tmpbuf 12 \<Longrightarrow> \<not> in_range x str (unat sz)"
  defines "out \<equiv> concat (map item_out items)"
  assumes len: "length out < 2 ^ 31"
  shows "\<exists>m'. chsnprintf fl null_str tmpbuf str sz fmt ap m = Some (int (length out), m')
    \<and> (0 < sz \<longrightarrow> holds m' str (take (unat sz - 1) out @ [0]))
    \<and> (\<forall>x. \<not> snprintf_writes tmpbuf str sz x \<longrightarrow> m' x = m x)"
proof (rule snprintf_from_stream [OF _ len])
  let ?z = "if sz > 0 then sz - 1 else 0 :: u32"
  note S = snprintf_start [where sz = sz and tmpbuf = tmpbuf and str = str, OF tmp]
  have "printable (\<lambda>x. in_range x str (unat ?z) \<or> in_range x tmpbuf 12) m fmt ap items" by (rule printable_mono [OF p S(4)])
  then show "\<exists>st. chvprintf ms_put fl null_str tmpbuf fmt ap (0, m, msObjectInit str ?z 0) = Some (of_nat (length out), st) \<and> ms_valid str ?z st
      \<and> ms_contents str st = take (unat ?z) out \<and> off (\<lambda>x. in_range x str (unat ?z) \<or> in_range x tmpbuf 12) m (fst st)"
    using ms.chvprintf_emits [of str ?z "(m, msObjectInit str ?z 0)" tmpbuf fmt ap items fl null_str 0] S(1-3) by (simp add: out_def)
qed

lemma snprintf_percent:
  assumes f: "safe (snprintf_writes tmpbuf str sz) m fmt [0x25, 0]" and p: "printable (snprintf_writes tmpbuf str sz) m (fmt + 2) ap items"
    and tmp: "\<And>x. in_range x tmpbuf 12 \<Longrightarrow> \<not> in_range x str (unat sz)"
  defines "out \<equiv> 0 # concat (map item_out items)"
  assumes len: "length out < 2 ^ 31"
  shows "\<exists>m'. chsnprintf fl null_str tmpbuf str sz fmt ap m = Some (int (length out), m')
    \<and> (0 < sz \<longrightarrow> holds m' str (take (unat sz - 1) out @ [0]))
    \<and> (\<forall>x. \<not> snprintf_writes tmpbuf str sz x \<longrightarrow> m' x = m x)"
proof (rule snprintf_from_stream [OF _ len])
  let ?z = "if sz > 0 then sz - 1 else 0 :: u32"
  note S = snprintf_start [where sz = sz and tmpbuf = tmpbuf and str = str, OF tmp]
  have "printable (\<lambda>x. in_range x str (unat ?z) \<or> in_range x tmpbuf 12) m (fmt + 2) ap items" by (rule printable_mono [OF p S(4)])
  moreover have "safe (\<lambda>x. in_range x str (unat ?z) \<or> in_range x tmpbuf 12) m fmt [0x25, 0]" by (rule safe_mono [OF f S(4)])
  ultimately show "\<exists>st. chvprintf ms_put fl null_str tmpbuf fmt ap (0, m, msObjectInit str ?z 0) = Some (of_nat (length out), st) \<and> ms_valid str ?z st
      \<and> ms_contents str st = take (unat ?z) out \<and> off (\<lambda>x. in_range x str (unat ?z) \<or> in_range x tmpbuf 12) m (fst st)"
    using ms.percent_emits [of str ?z "(m, msObjectInit str ?z 0)" tmpbuf fmt ap items fl null_str 0] S(1-3) by (simp add: out_def)
qed

section \<open>Reading back\<close>

lemma digit_char_value:
  assumes "d < 16"
  shows "isxdigit (digit_char d)" "digit_value (digit_char d) = of_nat d" "digit_char d = 0x30 \<longleftrightarrow> d = 0" "digit_char d \<noteq> 0x2D"
proof -
  have d: "d \<in> set [0..<16]" using assms by simp
  show "isxdigit (digit_char d)" using d by (simp add: upt_rec del: set_upt) (elim disjE; simp add: digit_char_def isxdigit_def)
  show "digit_value (digit_char d) = of_nat d"
    using d by (simp add: upt_rec del: set_upt) (elim disjE; simp add: digit_char_def digit_value_def isdigit_def islower_def toupper_def)
  show "digit_char d = 0x30 \<longleftrightarrow> d = 0" using d by (simp add: upt_rec del: set_upt) (elim disjE; simp add: digit_char_def)
  show "digit_char d \<noteq> 0x2D" using d by (simp add: upt_rec del: set_upt) (elim disjE; simp add: digit_char_def)
qed

lemma digits_of_value:
  assumes "2 \<le> r" "r \<le> 16"
  shows "foldl (\<lambda>a c. a * of_nat r + digit_value c) 0 (digits_of r n) = (of_nat n :: u32)"
  using assms
proof (induction r n rule: digits_of.induct)
  case (1 r n)
  show ?case
  proof (cases "n < r")
    case True
    then show ?thesis using 1 by (simp add: digits_of_less digit_char_value)
  next
    case False
    have m: "n mod r < 16" using "1.prems" mod_less_divisor [of r n] by linarith
    have "of_nat (n div r) * of_nat r + of_nat (n mod r) = (of_nat n :: u32)" by (simp flip: of_nat_mult of_nat_add)
    then show ?thesis using 1 False m by (simp add: digits_of_step digit_char_value)
  qed
qed

lemma strtoul_digits:
  assumes r: "2 \<le> r" "r \<le> 16"
  shows "simple_strtoul (Some (digits_of r (unat w) @ [0])) (of_nat r) = (w, Some [0])"
proof -
  have rw: "unat (of_nat r :: u32) = r" "(of_nat r :: u32) \<noteq> 0" using r by (simp_all add: word_unat_eq_iff)
  have dg: "\<exists>d. d < r \<and> c = digit_char d" if "c \<in> set (digits_of r (unat w))" for c using digits_of_chars [OF r(1) that] by blast
  have x: "\<forall>c \<in> set (digits_of r (unat w)). isxdigit c \<and> digit_value c < of_nat r"
    using dg r digit_char_value by (fastforce simp: word_less_nat_alt)
  have n: "ends_number (of_nat r) [0]" by (simp add: ends_number_def isxdigit_def)
  have l: "strtoul_loop (of_nat r) 0 (digits_of r (unat w) @ [0]) = (w, [0])"
    using strtoul_loop_append [OF x n, of 0] digits_of_value [OF r, of "unat w"] by simp
  show ?thesis
  proof (cases "w = 0")
    case True
    then have "digits_of r (unat w) = [0x30]" using r by (simp add: digits_of_less digit_char_def)
    then show ?thesis using rw True by (simp add: simple_strtoul_def chr0_def isxdigit_def)
  next
    case False
    then obtain d where "0 < d" "d < r" "hd (digits_of r (unat w)) = digit_char d" using hd_digits_of [OF r(1), of "unat w"] by (auto simp: unat_gt_0)
    then have "chr0 (digits_of r (unat w) @ [0]) \<noteq> 0x30"
      using r digit_char_value(3) [of d] by (cases "digits_of r (unat w)") (auto simp: chr0_def)
    then show ?thesis using l rw by (simp add: simple_strtoul_def)
  qed
qed

lemma strtol_dec_text: "simple_strtol (dec_text w @ [0]) 10 = (w, Some [0])"
proof (cases "sint w < 0")
  case True
  then show ?thesis using strtoul_digits [of 10 "- w"] by (simp add: simple_strtol_def dec_text_def chr0_def)
next
  case False
  obtain d ds where d: "digits_of 10 (unat w) = d # ds" by (cases "digits_of 10 (unat w)") auto
  then obtain k where "k < 10" "d = digit_char k" using digits_of_chars [of 10 d "unat w"] by auto
  then have "d \<noteq> 0x2D" using digit_char_value(4) [of k] by simp
  then show ?thesis using False strtoul_digits [of 10 w] d by (simp add: simple_strtol_def dec_text_def chr0_def)
qed

lemma length_dec_text: "length (dec_text w) \<le> 12"
  using length_digits_u32 [of 10 w] length_digits_u32 [of 10 "- w"] by (simp add: dec_text_def)

section \<open>Properties\<close>

text \<open>
  C14: \<open>chsnprintf\<close> prints as specified every format built from characters and fields of the documented form
  \<^verbatim>\<open>%[-][0][width|*][.precision|*][l|L]p\<close> with \<^verbatim>\<open>p\<close> one of \<^verbatim>\<open>d D i I u U x X o O c s\<close> and non-null strings, with widths, precisions
  and the whole output below $2^{31}$: it returns the number of bytes of the whole output, the buffer gets as much of it as
  fits before a terminating zero, and no memory is written to but the buffer and twelve bytes of the stack.  Zeros are filled in
  behind a minus sign, and the argument of a star counts modulo 256.
\<close>

theorem chsnprintf_correct:
  assumes "printable (snprintf_writes tmpbuf str sz) m fmt ap items"
    and "\<And>x. in_range x tmpbuf 12 \<Longrightarrow> \<not> in_range x str (unat sz)"
  defines "out \<equiv> concat (map item_out items)"
  assumes "length out < 2 ^ 31"
  shows "\<exists>m'. chsnprintf fl null_str tmpbuf str sz fmt ap m = Some (int (length out), m')
    \<and> (0 < sz \<longrightarrow> holds m' str (take (unat sz - 1) out @ [0]))
    \<and> (\<forall>x. \<not> snprintf_writes tmpbuf str sz x \<longrightarrow> m' x = m x)"
  using snprintf_eq [OF assms(1,2), folded out_def, OF _ assms(4)] by blast

text \<open>A memory with the format \<^verbatim>\<open>=%0*ld\<close> and the arguments 5 and -42.\<close>

definition demo_format :: mem where
  "demo_format = put_bytes 0x1000 [0x3D, 0x25, 0x30, 0x2A, 0x6C, 0x64, 0] (put_bytes 0x2000 (arg_bytes 5 @ arg_bytes (- 42)) (\<lambda>_. 1))"

definition demo_items :: "item list" where
  "demo_items = [Lit 0x3D, Field False True [Star 5] None (Some 0x6C) (Dec 0x64 (- 42))]"

definition demo_float :: float_lib where
  "demo_float = \<lparr>f_negative = (\<lambda>f. bit f 31), f_negate = (\<lambda>f. f XOR 0x80000000), qfp_float2str = (\<lambda>f p fmt m. (p, m))\<rparr>"

lemma demo_apart: "in_range x 0x3000 12 \<Longrightarrow> \<not> in_range x (0x4000 :: u32) (unat (16 :: u32))"
  by (simp add: in_range_unat)

lemma demo_printable: "printable (snprintf_writes 0x3000 0x4000 16) demo_format 0x1000 0x2000 demo_items"
  by (simp add: printable_def demo_items_def demo_format_def arg_bytes_def num_ok_def num_value_def snprintf_writes_def in_range_def)

lemma demo_out: "concat (map item_out demo_items) = [0x3D, 0x2D, 0x30, 0x30, 0x34, 0x32]"
  by (simp add: demo_items_def dec_text_def digits_of_less digits_of_step digit_char_def pad_def num_value_def)
    (simp add: numeral_2_eq_2)

theorem chsnprintf_correct_witness:
  "\<exists>m'. chsnprintf demo_float 0 0x3000 0x4000 16 0x1000 0x2000 demo_format = Some (6, m')
    \<and> holds m' 0x4000 [0x3D, 0x2D, 0x30, 0x30, 0x34, 0x32, 0]"
proof -
  have "length (concat (map item_out demo_items)) < 2 ^ 31" unfolding demo_out by simp
  from chsnprintf_correct [OF demo_printable demo_apart this, of demo_float 0] show ?thesis unfolding demo_out by auto
qed

text \<open>
  C34: printing with \<^verbatim>\<open>%d\<close> and reading back are inverse: for every 32-bit value, a buffer of 13 bytes gets a terminated string from which
  \<open>simple_strtol\<close> in base 10 recovers the value, negative ones included, and stops at the terminator.
\<close>

theorem printf_strtol_roundtrip:
  assumes p: "printable (snprintf_writes tmpbuf str sz) m fmt ap [Field False False [] None None (Dec 0x64 w)]"
    and tmp: "\<And>x. in_range x tmpbuf 12 \<Longrightarrow> \<not> in_range x str (unat sz)" and sz: "13 \<le> sz"
  shows "\<exists>k m'. chsnprintf fl null_str tmpbuf str sz fmt ap m = Some (int k, m')
    \<and> simple_strtol (mem_bytes m' str (k + 1)) 10 = (w, Some [0])"
proof -
  have z: "0 < sz" "13 \<le> unat sz" using sz by (auto simp: word_le_nat_alt word_gt_0)
  have o: "concat (map item_out [Field False False [] None None (Dec 0x64 w)]) = dec_text w"
    by (simp add: pad_def)
  obtain m' where m': "chsnprintf fl null_str tmpbuf str sz fmt ap m = Some (int (length (dec_text w)), m')"
    "holds m' str (take (unat sz - 1) (dec_text w) @ [0])"
    using snprintf_eq [OF p tmp, of fl null_str, unfolded o] z length_dec_text [of w] by auto
  moreover have "take (unat sz - 1) (dec_text w) = dec_text w" using length_dec_text [of w] z by simp
  ultimately have "mem_bytes m' str (length (dec_text w) + 1) = dec_text w @ [0]" by (simp add: holds_def)
  then show ?thesis using m'(1) strtol_dec_text [of w] by metis
qed

definition demo_decimal :: mem where
  "demo_decimal = put_bytes 0x1001 [0x25, 0x64, 0] (put_bytes 0x2000 (arg_bytes 0x80000000) (\<lambda>_. 1))"

lemma demo_decimal_printable:
  "printable (snprintf_writes 0x3000 0x4000 16) demo_decimal 0x1001 0x2000 [Field False False [] None None (Dec 0x64 0x80000000)]"
  by (simp add: printable_def demo_decimal_def arg_bytes_def num_ok_def snprintf_writes_def in_range_def)

theorem printf_strtol_roundtrip_witness:
  "\<exists>k m'. chsnprintf demo_float 0 0x3000 0x4000 16 0x1001 0x2000 demo_decimal = Some (int k, m')
    \<and> simple_strtol (mem_bytes m' 0x4000 (k + 1)) 10 = (0x80000000, Some [0])"
proof -
  have "(13 :: u32) \<le> 16" by simp
  from printf_strtol_roundtrip [OF demo_decimal_printable demo_apart this, of demo_float 0] show ?thesis .
qed

text \<open>
  a format that ends in a percent sign is read beyond its terminator: the terminator is printed as a character and the bytes that follow
  the string in memory are taken as a format, up to the next zero.
\<close>

theorem percent_at_end_reads_on:
  assumes "safe (snprintf_writes tmpbuf str sz) m fmt [0x25, 0]" and "printable (snprintf_writes tmpbuf str sz) m (fmt + 2) ap items"
    and "\<And>x. in_range x tmpbuf 12 \<Longrightarrow> \<not> in_range x str (unat sz)"
  defines "out \<equiv> 0 # concat (map item_out items)"
  assumes "length out < 2 ^ 31"
  shows "\<exists>m'. chsnprintf fl null_str tmpbuf str sz fmt ap m = Some (int (length out), m')
    \<and> (0 < sz \<longrightarrow> holds m' str (take (unat sz - 1) out @ [0]))
    \<and> (\<forall>x. \<not> snprintf_writes tmpbuf str sz x \<longrightarrow> m' x = m x)"
  using snprintf_percent [OF assms(1-3), folded out_def, OF _ assms(5)] by blast

text \<open>The string \<^verbatim>\<open>%\<close> with the text \<^verbatim>\<open>key\<close> behind it.\<close>

definition demo_percent :: mem where
  "demo_percent = put_bytes 0x1000 [0x25, 0, 0x6B, 0x65, 0x79, 0] (\<lambda>_. 1)"

lemma demo_percent_printable:
  "safe (snprintf_writes 0x3000 0x4000 16) demo_percent 0x1000 [0x25, 0]"
  "printable (snprintf_writes 0x3000 0x4000 16) demo_percent (0x1000 + 2) 0x2000 [Lit 0x6B, Lit 0x65, Lit 0x79]"
  by (simp_all add: printable_def demo_percent_def snprintf_writes_def in_range_def)

theorem percent_at_end_reads_on_witness:
  "\<exists>m'. chsnprintf demo_float 0 0x3000 0x4000 16 0x1000 0x2000 demo_percent = Some (4, m') \<and> holds m' 0x4000 [0, 0x6B, 0x65, 0x79, 0]"
  using percent_at_end_reads_on [OF demo_percent_printable demo_apart, of demo_float 0] by auto

text \<open>
  The conversions that programs call directly check neither sign nor length: the value is printed as an unsigned number, and if it has twelve
  digits or more, as in base 2 from 2048 on, bytes before the buffer are overwritten with digits.
\<close>

theorem itoa_writes_before_buffer:
  assumes "2 \<le> unat radix" "unat radix \<le> 36" "unat radix ^ 11 \<le> unat val"
  defines "ds \<equiv> digits_of (unat radix) (unat val)"
  shows "\<exists>e m'. itoa val s radix m = Some (e, m') \<and> m' (s - 1) = ds ! (length ds - 12)"
  unfolding ds_def by (rule itoa_before_buffer [OF assms(1-3)])

theorem itoa_writes_before_buffer_witness:
  "\<exists>e m'. itoa 2048 0x1000 2 (\<lambda>_. 0) = Some (e, m') \<and> m' 0xFFF = 0x31"
proof -
  have "digits_of 2 2048 = [0x31, 0x30, 0x30, 0x30, 0x30, 0x30, 0x30, 0x30, 0x30, 0x30, 0x30, 0x30]"
    by (simp add: digits_of_less digits_of_step digit_char_def)
  then show ?thesis using itoa_writes_before_buffer [of 2 2048 "0x1000" "\<lambda>_. 0"] by simp
qed

end
