(* ===== verification/Thread_Queues.thy ===== *)
theory Thread_Queues
  imports LTC_Prelude
begin

text \<open>
  The intrusive lists of the kernel, \<^verbatim>\<open>os/rt/include/chschd.h\<close> and the insertion loops of \<^verbatim>\<open>chschd.c\<close>: threads
  are linked through their \<^verbatim>\<open>p_next\<close> and \<^verbatim>\<open>p_prev\<close> fields into circular lists whose header is laid out like
  a thread.  The operations are modelled on the links, for any record that has them (the virtual timers are
  linked the same way); \<open>queue_rep\<close> relates a header to the list of its
  threads, and each operation is shown to implement an operation on lists.  The kernel model uses the
  list operations.
\<close>

section \<open>Operations on links\<close>

type_synonym tid = u32

record links =
  p_next :: "tid \<Rightarrow> tid"
  p_prev :: "tid \<Rightarrow> tid"

record prio_links = links +
  p_prio :: "tid \<Rightarrow> u32"

definition set_p_next :: "tid \<Rightarrow> tid \<Rightarrow> 'z links_scheme \<Rightarrow> 'z links_scheme" where
  "set_p_next a v l = l\<lparr>p_next := (p_next l)(a := v)\<rparr>"

definition set_p_prev :: "tid \<Rightarrow> tid \<Rightarrow> 'z links_scheme \<Rightarrow> 'z links_scheme" where
  "set_p_prev a v l = l\<lparr>p_prev := (p_prev l)(a := v)\<rparr>"

definition queue_init :: "tid \<Rightarrow> 'z links_scheme \<Rightarrow> 'z links_scheme" where
  "queue_init tqp l = set_p_prev tqp tqp (set_p_next tqp tqp l)"

definition queue_isempty :: "tid \<Rightarrow> 'z links_scheme \<Rightarrow> bool" where
  "queue_isempty tqp l \<longleftrightarrow> p_next l tqp = tqp"

definition queue_notempty :: "tid \<Rightarrow> 'z links_scheme \<Rightarrow> bool" where
  "queue_notempty tqp l \<longleftrightarrow> p_next l tqp \<noteq> tqp"

text \<open>The four assignments that put \<open>tp\<close> before \<open>cp\<close>.\<close>

definition link_before :: "tid \<Rightarrow> tid \<Rightarrow> 'z links_scheme \<Rightarrow> 'z links_scheme" where
  "link_before tp cp l =
     (let l = set_p_next tp cp l;
          l = set_p_prev tp (p_prev l cp) l;
          l = set_p_next (p_prev l tp) tp l
      in set_p_prev cp tp l)"

text \<open>\<^verbatim>\<open>do cp = cp->p_next; while ((cp != tqp) && (cp->p_prio >= prio))\<close>\<close>

partial_function (option) prio_scan :: "'z prio_links_scheme \<Rightarrow> tid \<Rightarrow> u32 \<Rightarrow> tid \<Rightarrow> tid option" where
  "prio_scan l tqp prio cp =
     (let cp = p_next l cp
      in if cp \<noteq> tqp \<and> p_prio l cp \<ge> prio then prio_scan l tqp prio cp else Some cp)"

definition queue_prio_insert :: "tid \<Rightarrow> tid \<Rightarrow> 'z prio_links_scheme \<Rightarrow> 'z prio_links_scheme option" where
  "queue_prio_insert tp tqp l =
     map_option (\<lambda>cp. link_before tp cp l) (prio_scan l tqp (p_prio l tp) tqp)"

definition queue_insert :: "tid \<Rightarrow> tid \<Rightarrow> 'z links_scheme \<Rightarrow> 'z links_scheme" where
  "queue_insert tp tqp l = link_before tp tqp l"

definition queue_fifo_remove :: "tid \<Rightarrow> 'z links_scheme \<Rightarrow> tid \<times> 'z links_scheme" where
  "queue_fifo_remove tqp l =
     (let tp = p_next l tqp;
          l = set_p_next tqp (p_next l tp) l
      in (tp, set_p_prev (p_next l tqp) tqp l))"

definition queue_lifo_remove :: "tid \<Rightarrow> 'z links_scheme \<Rightarrow> tid \<times> 'z links_scheme" where
  "queue_lifo_remove tqp l =
     (let tp = p_prev l tqp;
          l = set_p_prev tqp (p_prev l tp) l
      in (tp, set_p_next (p_prev l tqp) tqp l))"

definition queue_dequeue :: "tid \<Rightarrow> 'z links_scheme \<Rightarrow> 'z links_scheme" where
  "queue_dequeue tp l =
     (let l = set_p_next (p_prev l tp) (p_next l tp) l
      in set_p_prev (p_next l tp) (p_prev l tp) l)"

text \<open>Singly linked lists share the \<^verbatim>\<open>p_next\<close> field.\<close>

definition list_init :: "tid \<Rightarrow> 'z links_scheme \<Rightarrow> 'z links_scheme" where
  "list_init tlp l = set_p_next tlp tlp l"

definition list_isempty :: "tid \<Rightarrow> 'z links_scheme \<Rightarrow> bool" where
  "list_isempty tlp l \<longleftrightarrow> p_next l tlp = tlp"

definition list_notempty :: "tid \<Rightarrow> 'z links_scheme \<Rightarrow> bool" where
  "list_notempty tlp l \<longleftrightarrow> p_next l tlp \<noteq> tlp"

definition list_insert :: "tid \<Rightarrow> tid \<Rightarrow> 'z links_scheme \<Rightarrow> 'z links_scheme" where
  "list_insert tp tlp l = set_p_next tlp tp (set_p_next tp (p_next l tlp) l)"

definition list_remove :: "tid \<Rightarrow> 'z links_scheme \<Rightarrow> tid \<times> 'z links_scheme" where
  "list_remove tlp l = (let tp = p_next l tlp in (tp, set_p_next tlp (p_next l tp) l))"

text \<open>The loops over the ready list stop only at a smaller priority; its header has priority 0.
  \<open>ge\<close> distinguishes \<^verbatim>\<open>cp->p_prio >= tp->p_prio\<close> of \<open>chSchReadyI\<close> from \<^verbatim>\<open>cp->p_prio > otp->p_prio\<close> of
  \<open>chSchDoRescheduleAhead\<close>.\<close>

partial_function (option) ready_scan :: "'z prio_links_scheme \<Rightarrow> bool \<Rightarrow> u32 \<Rightarrow> tid \<Rightarrow> tid option" where
  "ready_scan l ge prio cp =
     (let cp = p_next l cp
      in if (if ge then p_prio l cp \<ge> prio else p_prio l cp > prio) then ready_scan l ge prio cp else Some cp)"

definition ready_insert :: "bool \<Rightarrow> tid \<Rightarrow> tid \<Rightarrow> 'z prio_links_scheme \<Rightarrow> 'z prio_links_scheme option" where
  "ready_insert ge tp tqp l =
     map_option (\<lambda>cp. link_before tp cp l) (ready_scan l ge (p_prio l tp) tqp)"

section \<open>Lists of threads\<close>

fun linked :: "'z links_scheme \<Rightarrow> tid list \<Rightarrow> bool" where
  "linked l (a # b # xs) \<longleftrightarrow> p_next l a = b \<and> p_prev l b = a \<and> linked l (b # xs)"
| "linked l _ \<longleftrightarrow> True"

definition queue_rep :: "'z links_scheme \<Rightarrow> tid \<Rightarrow> tid list \<Rightarrow> bool" where
  "queue_rep l tqp ts \<longleftrightarrow> distinct (tqp # ts) \<and> linked l (tqp # ts @ [tqp])"

text \<open>The list operations the links implement.\<close>

fun insert_prio :: "(tid \<Rightarrow> u32) \<Rightarrow> bool \<Rightarrow> tid \<Rightarrow> tid list \<Rightarrow> tid list" where
  "insert_prio pr ge t [] = [t]"
| "insert_prio pr ge t (x # xs) =
     (if (if ge then pr x \<ge> pr t else pr x > pr t) then x # insert_prio pr ge t xs else t # x # xs)"

lemma set_p_simps [simp]:
  "p_next (set_p_next a v l) = (p_next l)(a := v)" "p_prev (set_p_next a v l) = p_prev l"
  "p_prev (set_p_prev a v l) = (p_prev l)(a := v)" "p_next (set_p_prev a v l) = p_next l"
  by (simp_all add: set_p_next_def set_p_prev_def)

lemma set_p_prio [simp]:
  "p_prio (set_p_next a v l) = p_prio l" "p_prio (set_p_prev a v l) = p_prio l"
  by (simp_all add: set_p_next_def set_p_prev_def)

lemma linked_append: "linked l (xs @ y # ys) \<longleftrightarrow> linked l (xs @ [y]) \<and> linked l (y # ys)"
  by (induction l xs rule: linked.induct) simp_all

lemma linked_at:
  "linked l (xs @ a # b # ys) \<longleftrightarrow> linked l (xs @ [a]) \<and> p_next l a = b \<and> p_prev l b = a \<and> linked l (b # ys)"
  by (subst linked_append) simp

lemma linked_cong:
  "linked l xs \<Longrightarrow> (\<And>x. x \<in> set (butlast xs) \<Longrightarrow> p_next l' x = p_next l x) \<Longrightarrow>
   (\<And>x. x \<in> set (tl xs) \<Longrightarrow> p_prev l' x = p_prev l x) \<Longrightarrow> linked l' xs"
proof (induction l xs rule: linked.induct)
  case (1 l a b xs)
  then have "linked l' (b # xs)" by (intro "1.IH") (auto split: if_splits)
  with 1 show ?case by auto
qed simp_all

lemma link_before_simps:
  assumes "tp \<noteq> cp"
  shows "p_next (link_before tp cp l) = (p_next l)(tp := cp, p_prev l cp := tp)"
    and "p_prev (link_before tp cp l) = (p_prev l)(tp := p_prev l cp, cp := tp)"
  using assms by (simp_all add: link_before_def Let_def)

lemma p_prio_link_before [simp]: "p_prio (link_before tp cp l) = p_prio l"
  by (simp add: link_before_def Let_def)


text \<open>A sequence of insertions and removals in any order, on the links and on lists; what is taken out is collected.  On
  lists, \<open>None\<close> is a removal from an empty queue or the insertion of a thread that is in it already.\<close>

datatype 'a qop = Enqueue 'a | Dequeue

fun run_queue :: "('a \<Rightarrow> 's \<Rightarrow> 's) \<Rightarrow> ('s \<Rightarrow> 'a \<times> 's) \<Rightarrow> 'a qop list \<Rightarrow> 's \<Rightarrow> 'a list \<times> 's" where
  "run_queue ins rem [] s = ([], s)"
| "run_queue ins rem (Enqueue t # ops) s = run_queue ins rem ops (ins t s)"
| "run_queue ins rem (Dequeue # ops) s = (let (t, s) = rem s; (ts, s) = run_queue ins rem ops s in (t # ts, s))"

fun run_list :: "('a \<Rightarrow> 'a list \<Rightarrow> bool) \<Rightarrow> 'a qop list \<Rightarrow> 'a list \<Rightarrow> ('a list \<times> 'a list) option" where
  "run_list fresh [] ts = Some ([], ts)"
| "run_list fresh (Enqueue t # ops) ts = (if fresh t ts then run_list fresh ops (ts @ [t]) else None)"
| "run_list fresh (Dequeue # ops) [] = None"
| "run_list fresh (Dequeue # ops) (t # ts) = map_option (\<lambda>(out, rest). (t # out, rest)) (run_list fresh ops ts)"

definition enqueued :: "'a qop list \<Rightarrow> 'a list" where
  "enqueued ops = concat (map (\<lambda>c. case c of Enqueue t \<Rightarrow> [t] | Dequeue \<Rightarrow> []) ops)"

lemma run_list_fifo: "run_list fresh ops ts = Some (out, rest) \<Longrightarrow> out @ rest = ts @ enqueued ops"
  by (induction fresh ops ts arbitrary: out rest rule: run_list.induct) (auto simp: enqueued_def split: if_splits)

section \<open>The operations implement list operations\<close>

text \<open>A position in a queue: the thread or header before it and the one at it.\<close>

lemma queue_rep_at:
  assumes "queue_rep l q (us @ vs)"
  obtains xs a cp ys where "q # us = xs @ [a]" "vs @ [q] = cp # ys" "p_next l a = cp" "p_prev l cp = a"
    "linked l (xs @ [a])" "linked l (cp # ys)" "distinct (xs @ [a])" "distinct (cp # ys)"
    "set (xs @ [a]) = insert q (set us)" "set (cp # ys) = insert q (set vs)" "set (tl (xs @ [a])) = set us"
    "set (butlast (cp # ys)) = set vs"
proof -
  obtain xs a where xs: "q # us = xs @ [a]" by (cases "q # us" rule: rev_cases) simp_all
  obtain cp ys where ys: "vs @ [q] = cp # ys" by (cases "vs @ [q]") simp_all
  have d: "distinct (q # us @ vs)" and l: "linked l ((q # us) @ vs @ [q])"
    using assms by (simp_all add: queue_rep_def)
  have "linked l (xs @ a # cp # ys)" using l unfolding xs ys by simp
  then have 1: "linked l (xs @ [a])" and 2: "p_next l a = cp" "p_prev l cp = a" "linked l (cp # ys)"
    by (simp_all add: linked_at)
  have 3: "distinct (xs @ [a])" "distinct (cp # ys)" unfolding xs [symmetric] ys [symmetric] using d by simp_all
  have 4: "set (xs @ [a]) = insert q (set us)" "set (cp # ys) = insert q (set vs)"
    "set (tl (xs @ [a])) = set us" "set (butlast (cp # ys)) = set vs"
    unfolding xs [symmetric] ys [symmetric] by simp_all
  show ?thesis by (rule that [OF xs ys 2(1,2) 1 2(3) 3 4])
qed

lemma link_before_refines:
  assumes rep: "queue_rep l q (us @ vs)" and new: "tp \<notin> set (q # us @ vs)"
  shows "queue_rep (link_before tp (hd (vs @ [q])) l) q (us @ tp # vs)"
proof -
  obtain xs a cp ys where at: "q # us = xs @ [a]" "vs @ [q] = cp # ys" "p_next l a = cp" "p_prev l cp = a"
    "linked l (xs @ [a])" "linked l (cp # ys)" "distinct (xs @ [a])" "distinct (cp # ys)"
    "set (xs @ [a]) = insert q (set us)" "set (cp # ys) = insert q (set vs)" "set (tl (xs @ [a])) = set us"
    "set (butlast (cp # ys)) = set vs"
    by (rule queue_rep_at [OF rep])
  let ?l = "link_before tp cp l"
  have d: "distinct (q # us @ vs)" using rep by (simp add: queue_rep_def)
  have A: "a \<in> insert q (set us)" "a \<notin> set xs" "set xs \<subseteq> insert q (set us)" "cp \<in> insert q (set vs)"
    "set ys \<subseteq> insert q (set vs)" "cp \<notin> set ys"
    using at(7-10) by auto
  have ne: "tp \<noteq> cp" "tp \<noteq> a" "tp \<notin> set xs" "tp \<notin> set ys" "cp \<notin> set us" "a \<notin> set vs" "tp \<notin> set us" "tp \<notin> set vs"
    using A new d by auto
  have n: "p_next ?l = (p_next l)(tp := cp, a := tp)" and p: "p_prev ?l = (p_prev l)(tp := a, cp := tp)"
    using link_before_simps [OF ne(1), of l] at(4) by simp_all
  have "linked ?l (xs @ [a])"
  proof (rule linked_cong [OF at(5)])
    fix x assume "x \<in> set (butlast (xs @ [a]))"
    then have "x \<noteq> a" "x \<noteq> tp" using A ne by auto
    then show "p_next ?l x = p_next l x" by (simp add: n)
  next
    fix x assume "x \<in> set (tl (xs @ [a]))"
    then have "x \<noteq> cp" "x \<noteq> tp" unfolding at(11) using ne by auto
    then show "p_prev ?l x = p_prev l x" by (simp add: p)
  qed
  moreover have "linked ?l (cp # ys)"
  proof (rule linked_cong [OF at(6)])
    fix x assume "x \<in> set (butlast (cp # ys))"
    then have "x \<noteq> a" "x \<noteq> tp" unfolding at(12) using ne by auto
    then show "p_next ?l x = p_next l x" by (simp add: n)
  next
    fix x assume "x \<in> set (tl (cp # ys))"
    then have "x \<noteq> cp" "x \<noteq> tp" using ne A by auto
    then show "p_prev ?l x = p_prev l x" by (simp add: p)
  qed
  ultimately have "linked ?l (xs @ a # tp # cp # ys)"
    using n p ne by (simp add: linked_at)
  moreover have "q # (us @ tp # vs) @ [q] = xs @ a # tp # cp # ys" using at(1,2) by simp
  moreover have "hd (vs @ [q]) = cp" using at(2) by simp
  ultimately show ?thesis using d new by (auto simp: queue_rep_def)
qed

lemma queue_dequeue_refines:
  assumes rep: "queue_rep l q (us @ tp # vs)"
  shows "queue_rep (queue_dequeue tp l) q (us @ vs)"
proof -
  have rep': "queue_rep l q ((us @ [tp]) @ vs)" using rep by simp
  obtain xs a cp ys where at: "q # us = xs @ [a]" "(tp # vs) @ [q] = cp # ys" "p_next l a = cp" "p_prev l cp = a"
    "linked l (xs @ [a])" "linked l (cp # ys)" "distinct (xs @ [a])" "distinct (cp # ys)"
    "set (xs @ [a]) = insert q (set us)" "set (cp # ys) = insert q (set (tp # vs))" "set (tl (xs @ [a])) = set us"
    "set (butlast (cp # ys)) = set (tp # vs)"
    by (rule queue_rep_at [OF rep])
  obtain cp' ys' where ys: "vs @ [q] = cp' # ys'" by (cases "vs @ [q]") simp_all
  have e: "cp = tp" "ys = cp' # ys'" using at(2) ys by simp_all
  have d: "distinct (q # us @ tp # vs)" using rep by (simp add: queue_rep_def)
  have L: "p_next l tp = cp'" "p_prev l cp' = tp" "linked l (cp' # ys')" using at(6) unfolding e by simp_all
  have A: "a \<in> insert q (set us)" "a \<notin> set xs" "cp' \<in> insert q (set vs)" "cp' \<notin> set ys'"
    using at(7-10) ys by (auto simp: e)
  have B: "tp \<noteq> a" "tp \<noteq> cp'" "cp' \<notin> set us" "a \<notin> set vs" "set (butlast (cp' # ys')) = set vs" "tp \<notin> set vs"
    using A d by (auto simp flip: ys)
  let ?l = "queue_dequeue tp l"
  have n: "p_next ?l = (p_next l)(a := cp')" and p: "p_prev ?l = (p_prev l)(cp' := a)"
    using L at(4) B unfolding e by (auto simp: queue_dequeue_def Let_def)
  have "linked ?l (xs @ [a])"
  proof (rule linked_cong [OF at(5)])
    fix x assume "x \<in> set (butlast (xs @ [a]))"
    then show "p_next ?l x = p_next l x" using A by (auto simp: n)
  next
    fix x assume "x \<in> set (tl (xs @ [a]))"
    then show "p_prev ?l x = p_prev l x" unfolding at(11) using B by (auto simp: p)
  qed
  moreover have "linked ?l (cp' # ys')"
  proof (rule linked_cong [OF L(3)])
    fix x assume "x \<in> set (butlast (cp' # ys'))"
    then show "p_next ?l x = p_next l x" unfolding B using B by (auto simp: n)
  next
    fix x assume "x \<in> set (tl (cp' # ys'))"
    then show "p_prev ?l x = p_prev l x" using A by (auto simp: p)
  qed
  ultimately have "linked ?l (xs @ a # cp' # ys')" using n p by (simp add: linked_at)
  moreover have "q # (us @ vs) @ [q] = xs @ a # cp' # ys'" using at(1) ys by simp
  ultimately show ?thesis using d by (simp add: queue_rep_def)
qed


lemma queue_init_refines: "queue_rep (queue_init q l) q []"
  by (simp add: queue_rep_def queue_init_def)

lemma queue_isempty_refines: "queue_rep l q ts \<Longrightarrow> queue_isempty q l \<longleftrightarrow> ts = []"
  by (cases ts) (auto simp: queue_rep_def queue_isempty_def)

lemma queue_insert_refines:
  "queue_rep l q ts \<Longrightarrow> tp \<notin> set (q # ts) \<Longrightarrow> queue_rep (queue_insert tp q l) q (ts @ [tp])"
  using link_before_refines [of l q ts "[]" tp] by (simp add: queue_insert_def)

lemma queue_fifo_remove_eq:
  assumes "queue_rep l q (t # ts)"
  shows "queue_fifo_remove q l = (t, queue_dequeue t l)"
proof -
  have "p_next l q = t" "p_prev l t = q" "q \<noteq> t" using assms by (auto simp: queue_rep_def)
  then show ?thesis by (simp add: queue_fifo_remove_def queue_dequeue_def Let_def)
qed

lemma queue_lifo_remove_eq:
  assumes "queue_rep l q (ts @ [t])"
  shows "queue_lifo_remove q l = (t, queue_dequeue t l)"
proof -
  have L: "linked l ((q # ts) @ t # q # [])" and d: "distinct (q # ts @ [t])"
    using assms by (simp_all add: queue_rep_def)
  obtain xs a where xs: "q # ts = xs @ [a]" by (cases "q # ts" rule: rev_cases) simp_all
  have "set (q # ts) = insert a (set xs)" unfolding xs by simp
  then have "a \<noteq> t" using d by auto
  moreover have "linked l (xs @ a # t # q # [])" using L unfolding xs by simp
  then have "p_prev l t = a" "p_next l t = q" "p_prev l q = t" by (simp_all add: linked_at)
  ultimately show ?thesis using d
    by (auto simp: queue_lifo_remove_def queue_dequeue_def Let_def set_p_next_def set_p_prev_def fun_eq_iff)
qed

lemma queue_fifo_remove_refines:
  "queue_rep l q (t # ts) \<Longrightarrow> fst (queue_fifo_remove q l) = t \<and> queue_rep (snd (queue_fifo_remove q l)) q ts"
  using queue_dequeue_refines [of l q "[]" t ts] by (simp add: queue_fifo_remove_eq)

lemma queue_lifo_remove_refines:
  "queue_rep l q (ts @ [t]) \<Longrightarrow> fst (queue_lifo_remove q l) = t \<and> queue_rep (snd (queue_lifo_remove q l)) q ts"
  using queue_dequeue_refines [of l q ts t "[]"] by (simp add: queue_lifo_remove_eq)

text \<open>The scanning loops return, at the first thread the new one goes before.\<close>

definition goes_behind :: "bool \<Rightarrow> u32 \<Rightarrow> u32 \<Rightarrow> bool" where
  "goes_behind ge pr other \<longleftrightarrow> (if ge then other \<ge> pr else other > pr)"

lemma insert_prio_eq:
  "insert_prio pr ge t xs =
     takeWhile (\<lambda>x. goes_behind ge (pr t) (pr x)) xs @ t # dropWhile (\<lambda>x. goes_behind ge (pr t) (pr x)) xs"
  by (induction xs) (simp_all add: goes_behind_def)

lemma goes_behind_mono: "\<not> goes_behind ge p a \<Longrightarrow> b \<le> a \<Longrightarrow> \<not> goes_behind ge p b"
  unfolding goes_behind_def by (cases ge) (simp_all add: not_le not_less)

lemma dropWhile_sorted:
  "sorted_wrt (\<lambda>a b. pr a \<ge> pr b) ts \<Longrightarrow>
   v \<in> set (dropWhile (\<lambda>x. goes_behind ge p (pr x)) ts) \<Longrightarrow> \<not> goes_behind ge p (pr v)"
proof (induction ts)
  case (Cons t ts)
  show ?case
  proof (cases "goes_behind ge p (pr t)")
    case True
    then show ?thesis using Cons by simp
  next
    case False
    then have "v = t \<or> pr v \<le> pr t" using Cons.prems by auto
    then show ?thesis using False goes_behind_mono [OF False] by blast
  qed
qed simp

lemma queue_rep_next:
  assumes "queue_rep l q (us @ vs)"
  shows "p_next l (last (q # us)) = hd (vs @ [q])"
proof -
  obtain xs a cp ys where at: "q # us = xs @ [a]" "vs @ [q] = cp # ys" "p_next l a = cp" "p_prev l cp = a"
    "linked l (xs @ [a])" "linked l (cp # ys)" "distinct (xs @ [a])" "distinct (cp # ys)"
    "set (xs @ [a]) = insert q (set us)" "set (cp # ys) = insert q (set vs)" "set (tl (xs @ [a])) = set us"
    "set (butlast (cp # ys)) = set vs"
    by (rule queue_rep_at [OF assms])
  show ?thesis unfolding at(1,2) using at(3) by simp
qed

lemma prio_scan_eq:
  assumes "queue_rep l q (us @ vs)"
  shows "prio_scan l q pr (last (q # us)) =
    Some (hd (dropWhile (\<lambda>x. goes_behind True pr (p_prio l x)) vs @ [q]))"
  using assms
proof (induction vs arbitrary: us)
  case Nil
  then show ?case using queue_rep_next [OF Nil] by (subst prio_scan.simps) simp
next
  case (Cons v vs)
  have "v \<noteq> q" using Cons.prems by (auto simp: queue_rep_def)
  moreover have "last (q # us @ [v]) = v" by simp
  ultimately show ?case
    using Cons.IH [of "us @ [v]"] Cons.prems queue_rep_next [OF Cons.prems]
    by (subst prio_scan.simps) (simp add: goes_behind_def Let_def)
qed

lemma ready_scan_eq:
  assumes "queue_rep l q (us @ vs)" "\<not> goes_behind ge pr (p_prio l q)"
  shows "ready_scan l ge pr (last (q # us)) =
    Some (hd (dropWhile (\<lambda>x. goes_behind ge pr (p_prio l x)) vs @ [q]))"
  using assms
proof (induction vs arbitrary: us)
  case Nil
  then show ?case using queue_rep_next [OF Nil(1)]
    by (subst ready_scan.simps) (simp add: goes_behind_def)
next
  case (Cons v vs)
  have "last (q # us @ [v]) = v" by simp
  then show ?case
    using Cons.IH [of "us @ [v]"] Cons.prems queue_rep_next [OF Cons.prems(1)]
    by (subst ready_scan.simps) (auto simp: goes_behind_def Let_def)
qed

lemma queue_prio_insert_refines:
  assumes "queue_rep l q ts" "tp \<notin> set (q # ts)"
  shows "\<exists>l'. queue_prio_insert tp q l = Some l' \<and> queue_rep l' q (insert_prio (p_prio l) True tp ts)"
proof -
  let ?P = "\<lambda>x. goes_behind True (p_prio l tp) (p_prio l x)"
  have "queue_rep l q (takeWhile ?P ts @ dropWhile ?P ts)" using assms by simp
  from link_before_refines [OF this] show ?thesis
    using assms prio_scan_eq [of l q "[]" ts "p_prio l tp"]
    by (simp add: queue_prio_insert_def insert_prio_eq)
qed

lemma ready_insert_refines:
  assumes "queue_rep l q ts" "tp \<notin> set (q # ts)" "p_prio l q = 0" "p_prio l tp \<noteq> 0"
  shows "\<exists>l'. ready_insert ge tp q l = Some l' \<and> queue_rep l' q (insert_prio (p_prio l) ge tp ts)"
proof -
  let ?P = "\<lambda>x. goes_behind ge (p_prio l tp) (p_prio l x)"
  have "\<not> ?P q" using assms(3,4) by (auto simp: goes_behind_def)
  moreover have "queue_rep l q (takeWhile ?P ts @ dropWhile ?P ts)" using assms by simp
  ultimately show ?thesis
    using assms ready_scan_eq [of l q "[]" ts ge "p_prio l tp"] link_before_refines [of l q "takeWhile ?P ts" "dropWhile ?P ts" tp]
    by (simp add: ready_insert_def insert_prio_eq)
qed

text \<open>A thread of priority 0 is never inserted: the loop goes round the ready list for ever.\<close>

lemma ready_scan_prio_0: "ready_scan l True 0 cp = None"
proof -
  have "\<not> (ge \<and> pr = 0)" if "ready_scan l ge pr cp = Some y" for l ge pr cp y
    by (rule ready_scan.raw_induct [OF _ that, of "\<lambda>l ge pr cp y. \<not> (ge \<and> pr = 0)"])
      (auto simp: Let_def split: if_splits)
  from this [of l True 0 cp] show ?thesis by (cases "ready_scan l True 0 cp") simp_all
qed


section \<open>Queues as an interface\<close>

text \<open>What the clients of a queue rely on: a new thread goes to the end, the first one is taken out.\<close>

locale fifo_queue =
  fixes rep :: "'s \<Rightarrow> 'a list \<Rightarrow> bool"
    and fresh :: "'a \<Rightarrow> 'a list \<Rightarrow> bool"
    and ins :: "'a \<Rightarrow> 's \<Rightarrow> 's"
    and rem :: "'s \<Rightarrow> 'a \<times> 's"
  assumes ins_rep: "rep s ts \<Longrightarrow> fresh t ts \<Longrightarrow> rep (ins t s) (ts @ [t])"
    and rem_rep: "rep s (t # ts) \<Longrightarrow> fst (rem s) = t \<and> rep (snd (rem s)) ts"
begin

lemma run_refines:
  "run_list fresh ops ts = Some (out, rest) \<Longrightarrow> rep s ts \<Longrightarrow>
   fst (run_queue ins rem ops s) = out \<and> rep (snd (run_queue ins rem ops s)) rest"
proof (induction ops arbitrary: ts out s)
  case (Cons c ops)
  show ?case
  proof (cases c)
    case (Enqueue t)
    then have "run_list fresh ops (ts @ [t]) = Some (out, rest)" "fresh t ts" using Cons.prems(1) by (simp_all split: if_splits)
    then show ?thesis using Cons.IH ins_rep [OF Cons.prems(2)] Enqueue by simp
  next
    case Dequeue
    then obtain t ts' out' where ts: "ts = t # ts'" "run_list fresh ops ts' = Some (out', rest)" "out = t # out'"
      using Cons.prems(1) by (cases ts) auto
    then show ?thesis using Cons.IH rem_rep [of s t ts'] Cons.prems(2) Dequeue by (simp add: split_beta)
  qed
qed simp

end

interpretation thread_queue: fifo_queue
  "\<lambda>l. queue_rep l q" "\<lambda>t ts. t \<notin> set (q # ts)" "\<lambda>t. queue_insert t q" "queue_fifo_remove q"
  by unfold_locales (rule queue_insert_refines queue_fifo_remove_refines, assumption+)+

text \<open>
  C33: a queue of threads is first-in first-out under any interleaving of \<open>queue_insert\<close> and \<open>queue_fifo_remove\<close> on an
  initialised header, whatever the links held before, in which a thread is not queued twice at a time and nothing is taken from an empty queue: the
  threads come out in the order they were put in, and those still in the queue at the end are linked in both directions in that order.
\<close>

theorem queue_fifo_order:
  assumes "run_list (\<lambda>t ts. t \<notin> set (q # ts)) ops [] = Some (out, rest)"
  shows "fst (run_queue (\<lambda>t. queue_insert t q) (queue_fifo_remove q) ops (queue_init q l)) = out
    \<and> queue_rep (snd (run_queue (\<lambda>t. queue_insert t q) (queue_fifo_remove q) ops (queue_init q l))) q rest
    \<and> out @ rest = enqueued ops"
  using thread_queue.run_refines [OF assms queue_init_refines] run_list_fifo [OF assms] by simp

theorem queue_fifo_order_witness:
  "fst (run_queue (\<lambda>t. queue_insert t 0x100) (queue_fifo_remove 0x100)
      [Enqueue 0x200, Enqueue 0x340, Dequeue, Dequeue, Enqueue 0x180, Enqueue 0x200, Dequeue]
      (queue_init 0x100 \<lparr>p_next = (\<lambda>_. 7), p_prev = (\<lambda>_. 9), p_prio = (\<lambda>_. 0)\<rparr>)) = [0x200, 0x340, 0x180]"
  by (rule conjunct1 [OF queue_fifo_order]) simp

text \<open>
  C20: the insertion loop of the ready list ends for every thread of a priority other than \<^verbatim>\<open>NOPRIO\<close> and
  puts it behind all threads of the same or a higher priority (\<open>chSchReadyI\<close>), or ahead of those of the
  same priority (\<open>chSchDoRescheduleAhead\<close>), so that a list that is sorted stays sorted; the loop never ends for
  a thread of priority 0.
\<close>

theorem ready_insert_terminates_sorted:
  assumes "queue_rep l q ts" "tp \<notin> set (q # ts)" "p_prio l q = 0"
    and "sorted_wrt (\<lambda>a b. p_prio l a \<ge> p_prio l b) ts"
  shows "if p_prio l tp = 0 then ready_insert True tp q l = None
    else \<exists>l' us vs. ready_insert ge tp q l = Some l' \<and> queue_rep l' q (us @ tp # vs) \<and> ts = us @ vs
      \<and> sorted_wrt (\<lambda>a b. p_prio l a \<ge> p_prio l b) (us @ tp # vs)
      \<and> (\<forall>u \<in> set us. if ge then p_prio l tp \<le> p_prio l u else p_prio l tp < p_prio l u)
      \<and> (\<forall>v \<in> set vs. if ge then p_prio l v < p_prio l tp else p_prio l v \<le> p_prio l tp)"
proof (cases "p_prio l tp = 0")
  case True
  then show ?thesis by (simp add: ready_insert_def ready_scan_prio_0)
next
  case False
  let ?P = "\<lambda>x. goes_behind ge (p_prio l tp) (p_prio l x)"
  from ready_insert_refines [OF assms(1-3) False]
  obtain l' where l': "ready_insert ge tp q l = Some l'" "queue_rep l' q (takeWhile ?P ts @ tp # dropWhile ?P ts)"
    by (auto simp: insert_prio_eq)
  have A: "\<forall>u \<in> set (takeWhile ?P ts). ?P u" by (auto dest: set_takeWhileD)
  have B: "\<forall>v \<in> set (dropWhile ?P ts). \<not> ?P v" using dropWhile_sorted [OF assms(4)] by blast
  have P_le: "p_prio l tp \<le> p_prio l u" if "u \<in> set (takeWhile ?P ts)" for u
    using A that unfolding goes_behind_def by (cases ge) auto
  have N_le: "p_prio l v \<le> p_prio l tp" if "v \<in> set (dropWhile ?P ts)" for v
    using B that unfolding goes_behind_def by (cases ge) (auto simp: not_le not_less)
  have "sorted_wrt (\<lambda>a b. p_prio l a \<ge> p_prio l b) (takeWhile ?P ts @ dropWhile ?P ts)" using assms(4) by simp
  then have "sorted_wrt (\<lambda>a b. p_prio l a \<ge> p_prio l b) (takeWhile ?P ts @ tp # dropWhile ?P ts)"
    unfolding sorted_wrt_append using P_le N_le by simp
  moreover have "\<forall>u \<in> set (takeWhile ?P ts). if ge then p_prio l tp \<le> p_prio l u else p_prio l tp < p_prio l u"
    using A unfolding goes_behind_def .
  moreover have "\<forall>v \<in> set (dropWhile ?P ts). if ge then p_prio l v < p_prio l tp else p_prio l v \<le> p_prio l tp"
    using B unfolding goes_behind_def by (cases ge) (simp_all add: not_le not_less)
  moreover have "ts = takeWhile ?P ts @ dropWhile ?P ts" by simp
  ultimately show ?thesis using l' False by metis
qed

theorem ready_insert_terminates_sorted_witness:
  "\<exists>l'. ready_insert True 0x30 0x10 (link_before 0x20 0x10 (queue_init 0x10
      \<lparr>p_next = id, p_prev = id, p_prio = (\<lambda>x. if x = 0x10 then 0 else 64)\<rparr>)) = Some l'
    \<and> queue_rep l' 0x10 [0x20, 0x30]"
proof -
  let ?l0 = "queue_init 0x10 \<lparr>p_next = id, p_prev = id, p_prio = (\<lambda>x. if x = 0x10 then 0 else 64)\<rparr>"
  let ?l = "link_before 0x20 0x10 ?l0"
  have "queue_rep ?l 0x10 ([] @ 0x20 # [])" by (simp add: queue_rep_def link_before_def queue_init_def Let_def)
  moreover have pr: "p_prio ?l = (\<lambda>x. if x = 0x10 then 0 else 64)" by (simp add: queue_init_def)
  ultimately obtain l' us vs where w: "ready_insert True 0x30 0x10 ?l = Some l'" "queue_rep l' 0x10 (us @ 0x30 # vs)"
    "[0x20] = us @ vs" "\<forall>v \<in> set vs. p_prio ?l v < p_prio ?l 0x30"
    using ready_insert_terminates_sorted [of ?l "0x10" "[0x20]" "0x30" True] by auto
  have "vs = []" using w(3,4) by (cases us) (auto simp: queue_init_def)
  with w show ?thesis by auto
qed

end
