(* ===== verification/Virtual_Timers.thy ===== *)
theory Virtual_Timers
  imports Thread_Queues
begin

text \<open>
  The virtual timers of the kernel, \<^verbatim>\<open>os/rt/src/chvt.c\<close> and \<^verbatim>\<open>os/rt/include/chvt.h\<close> with
  \<^verbatim>\<open>CH_CFG_ST_TIMEDELTA == 0\<close>: a delta list, each timer linked through \<^verbatim>\<open>vt_next\<close> and \<^verbatim>\<open>vt_prev\<close> (the same links
  as those of the thread queues) and holding the ticks after the timer before it.  \<open>vt_rep\<close> relates the list
  to a sequence of timers and deltas, \<open>remaining\<close> to the ticks each timer still has.
\<close>

section \<open>Timers in memory\<close>

text \<open>\<open>vtlist\<close> is the address of the list header \<^verbatim>\<open>ch.vtlist\<close>, which is laid out like a timer;
  \<^verbatim>\<open>vt_func\<close> is \<open>None\<close> for \<^verbatim>\<open>NULL\<close>.\<close>

record 'f vtimers = links +
  vtlist :: tid
  vt_delta :: "tid \<Rightarrow> u32"
  vt_func :: "tid \<Rightarrow> 'f option"
  vt_par :: "tid \<Rightarrow> u32"
  vt_systime :: u32

definition set_vt_delta :: "tid \<Rightarrow> u32 \<Rightarrow> ('f, 'z) vtimers_scheme \<Rightarrow> ('f, 'z) vtimers_scheme" where
  "set_vt_delta a d s = s\<lparr>vt_delta := (vt_delta s)(a := d)\<rparr>"

definition set_vt_func :: "tid \<Rightarrow> 'f option \<Rightarrow> ('f, 'z) vtimers_scheme \<Rightarrow> ('f, 'z) vtimers_scheme" where
  "set_vt_func a f s = s\<lparr>vt_func := (vt_func s)(a := f)\<rparr>"

definition vt_init :: "('f, 'z) vtimers_scheme \<Rightarrow> ('f, 'z) vtimers_scheme" where
  "vt_init s = (set_vt_delta (vtlist s) (-1) (set_p_prev (vtlist s) (vtlist s) (set_p_next (vtlist s) (vtlist s) s)))
     \<lparr>vt_systime := 0\<rparr>"

definition chVTObjectInit :: "tid \<Rightarrow> ('f, 'z) vtimers_scheme \<Rightarrow> ('f, 'z) vtimers_scheme" where
  "chVTObjectInit vtp s = set_vt_func vtp None s"

definition chVTGetSystemTimeX :: "('f, 'z) vtimers_scheme \<Rightarrow> u32" where
  "chVTGetSystemTimeX s = vt_systime s"

definition chVTTimeElapsedSinceX :: "u32 \<Rightarrow> ('f, 'z) vtimers_scheme \<Rightarrow> u32" where
  "chVTTimeElapsedSinceX start s = chVTGetSystemTimeX s - start"

definition chVTIsTimeWithinX :: "u32 \<Rightarrow> u32 \<Rightarrow> u32 \<Rightarrow> bool" where
  "chVTIsTimeWithinX time start endt \<longleftrightarrow> time - start < endt - start"

definition chVTIsSystemTimeWithinX :: "u32 \<Rightarrow> u32 \<Rightarrow> ('f, 'z) vtimers_scheme \<Rightarrow> bool" where
  "chVTIsSystemTimeWithinX start endt s \<longleftrightarrow> chVTIsTimeWithinX (chVTGetSystemTimeX s) start endt"

text \<open>The result and what is stored through \<^verbatim>\<open>timep\<close>, if it is not \<^verbatim>\<open>NULL\<close>.\<close>

definition chVTGetTimersStateI :: "bool \<Rightarrow> ('f, 'z) vtimers_scheme \<Rightarrow> bool \<times> u32 option" where
  "chVTGetTimersStateI timep s =
     (if p_next s (vtlist s) = vtlist s then (False, None)
      else (True, if timep then Some (vt_delta s (p_next s (vtlist s))) else None))"

definition chVTIsArmedI :: "tid \<Rightarrow> ('f, 'z) vtimers_scheme \<Rightarrow> bool" where
  "chVTIsArmedI vtp s \<longleftrightarrow> vt_func s vtp \<noteq> None"

text \<open>\<^verbatim>\<open>while (p->vt_delta < delta) { delta -= p->vt_delta; p = p->vt_next; }\<close>\<close>

partial_function (option) vt_scan :: "('f, 'z) vtimers_scheme \<Rightarrow> tid \<Rightarrow> u32 \<Rightarrow> (tid \<times> u32) option" where
  "vt_scan s p delta =
     (if vt_delta s p < delta then vt_scan s (p_next s p) (delta - vt_delta s p) else Some (p, delta))"

definition chVTDoSetI ::
  "tid \<Rightarrow> u32 \<Rightarrow> 'f \<Rightarrow> u32 \<Rightarrow> ('f, 'z) vtimers_scheme \<Rightarrow> ('f, 'z) vtimers_scheme option" where
  "chVTDoSetI vtp delay vtfunc par s =
     (let s = s\<lparr>vt_par := (vt_par s)(vtp := par)\<rparr>;
          s = set_vt_func vtp (Some vtfunc) s
      in case vt_scan s (p_next s (vtlist s)) delay of
           None \<Rightarrow> None
         | Some (p, delta) \<Rightarrow>
             (let s = link_before vtp p s;
                  s = set_vt_delta vtp delta s;
                  s = set_vt_delta p (vt_delta s p - delta) s
              in Some (set_vt_delta (vtlist s) (-1) s)))"

definition chVTDoResetI :: "tid \<Rightarrow> ('f, 'z) vtimers_scheme \<Rightarrow> ('f, 'z) vtimers_scheme" where
  "chVTDoResetI vtp s =
     (let s = set_vt_delta (p_next s vtp) (vt_delta s (p_next s vtp) + vt_delta s vtp) s;
          s = set_p_next (p_prev s vtp) (p_next s vtp) s;
          s = set_p_prev (p_next s vtp) (p_prev s vtp) s;
          s = set_vt_func vtp None s
      in set_vt_delta (vtlist s) (-1) s)"

definition chVTResetI :: "tid \<Rightarrow> ('f, 'z) vtimers_scheme \<Rightarrow> ('f, 'z) vtimers_scheme" where
  "chVTResetI vtp s = (if chVTIsArmedI vtp s then chVTDoResetI vtp s else s)"

definition chVTSetI ::
  "tid \<Rightarrow> u32 \<Rightarrow> 'f \<Rightarrow> u32 \<Rightarrow> ('f, 'z) vtimers_scheme \<Rightarrow> ('f, 'z) vtimers_scheme option" where
  "chVTSetI vtp delay vtfunc par s = chVTDoSetI vtp delay vtfunc par (chVTResetI vtp s)"

text \<open>The tick interrupt.  \<open>call\<close> is the call of a timer function, which runs outside the critical zone and may
  change the state; calling \<^verbatim>\<open>NULL\<close> is a fault.\<close>

partial_function (option) vt_expire ::
  "('f \<Rightarrow> u32 \<Rightarrow> ('f, 'z) vtimers_scheme \<Rightarrow> ('f, 'z) vtimers_scheme option) \<Rightarrow>
   ('f, 'z) vtimers_scheme \<Rightarrow> ('f, 'z) vtimers_scheme option" where
  "vt_expire call s =
     (let vtp = p_next s (vtlist s)
      in if vt_delta s vtp = 0 then
           (let fn = vt_func s vtp;
                s = set_vt_func vtp None s;
                s = set_p_prev (p_next s vtp) (vtlist s) s;
                s = set_p_next (vtlist s) (p_next s vtp) s
            in case fn of
                 None \<Rightarrow> None
               | Some f \<Rightarrow> Option.bind (call f (vt_par s vtp) s) (vt_expire call))
         else Some s)"

definition chVTDoTickI ::
  "('f \<Rightarrow> u32 \<Rightarrow> ('f, 'z) vtimers_scheme \<Rightarrow> ('f, 'z) vtimers_scheme option) \<Rightarrow>
   ('f, 'z) vtimers_scheme \<Rightarrow> ('f, 'z) vtimers_scheme option" where
  "chVTDoTickI call s =
     (let s = s\<lparr>vt_systime := vt_systime s + 1\<rparr>
      in if vtlist s \<noteq> p_next s (vtlist s) then
           vt_expire call (set_vt_delta (p_next s (vtlist s)) (vt_delta s (p_next s (vtlist s)) - 1) s)
         else Some s)"

section \<open>The delta list\<close>

definition vt_rep :: "('f, 'z) vtimers_scheme \<Rightarrow> (tid \<times> u32) list \<Rightarrow> bool" where
  "vt_rep s ds \<longleftrightarrow> queue_rep s (vtlist s) (map fst ds) \<and> map snd ds = map (vt_delta s) (map fst ds)
     \<and> vt_delta s (vtlist s) = -1 \<and> (\<forall>t. vt_func s t \<noteq> None \<longleftrightarrow> t \<in> fst ` set ds)"

fun vt_split :: "u32 \<Rightarrow> (tid \<times> u32) list \<Rightarrow> (tid \<times> u32) list \<times> u32 \<times> (tid \<times> u32) list" where
  "vt_split d [] = ([], d, [])"
| "vt_split d ((u, e) # ds) =
     (if e < d then let (us, d', vs) = vt_split (d - e) ds in ((u, e) # us, d', vs) else ([], d, (u, e) # ds))"

fun hd_delta :: "(u32 \<Rightarrow> u32) \<Rightarrow> (tid \<times> u32) list \<Rightarrow> (tid \<times> u32) list" where
  "hd_delta f [] = []"
| "hd_delta f ((u, e) # ds) = (u, f e) # ds"

definition vt_insert :: "tid \<Rightarrow> u32 \<Rightarrow> (tid \<times> u32) list \<Rightarrow> (tid \<times> u32) list" where
  "vt_insert t d ds = (let (us, d', vs) = vt_split d ds in us @ (t, d') # hd_delta (\<lambda>e. e - d') vs)"

fun vt_delete :: "tid \<Rightarrow> (tid \<times> u32) list \<Rightarrow> (tid \<times> u32) list" where
  "vt_delete t [] = []"
| "vt_delete t ((u, e) # ds) = (if u = t then hd_delta (\<lambda>e'. e' + e) ds else (u, e) # vt_delete t ds)"

text \<open>The ticks each timer still has.\<close>

fun remaining :: "nat \<Rightarrow> (tid \<times> u32) list \<Rightarrow> (tid \<times> nat) list" where
  "remaining a [] = []"
| "remaining a ((t, d) # ds) = (t, a + unat d) # remaining (a + unat d) ds"

text \<open>The ticks of all timers are positive and fit a counter.\<close>

definition vt_live :: "(tid \<times> u32) list \<Rightarrow> bool" where
  "vt_live ds \<longleftrightarrow> (\<forall>(t, r) \<in> set (remaining 0 ds). 0 < r \<and> r < 2 ^ 32)"

lemma set_vt_simps [simp]:
  "vt_delta (set_vt_delta a d s) = (vt_delta s)(a := d)" "vt_func (set_vt_delta a d s) = vt_func s"
  "vt_par (set_vt_delta a d s) = vt_par s" "vtlist (set_vt_delta a d s) = vtlist s"
  "vt_systime (set_vt_delta a d s) = vt_systime s" "vtimers.more (set_vt_delta a d s) = vtimers.more s"
  "vt_delta (set_vt_func a f s) = vt_delta s" "vt_func (set_vt_func a f s) = (vt_func s)(a := f)"
  "vt_par (set_vt_func a f s) = vt_par s" "vtlist (set_vt_func a f s) = vtlist s"
  "vt_systime (set_vt_func a f s) = vt_systime s" "vtimers.more (set_vt_func a f s) = vtimers.more s"
  "p_next (set_vt_delta a d s) = p_next s" "p_prev (set_vt_delta a d s) = p_prev s"
  "p_next (set_vt_func a f s) = p_next s" "p_prev (set_vt_func a f s) = p_prev s"
  by (simp_all add: set_vt_delta_def set_vt_func_def)

lemma set_links_vt_simps [simp]:
  "vt_delta (set_p_next a b s) = vt_delta s" "vt_func (set_p_next a b s) = vt_func s"
  "vt_par (set_p_next a b s) = vt_par s" "vtlist (set_p_next a b s) = vtlist s"
  "vt_systime (set_p_next a b s) = vt_systime s" "vtimers.more (set_p_next a b s) = vtimers.more s"
  "vt_delta (set_p_prev a b s) = vt_delta s" "vt_func (set_p_prev a b s) = vt_func s"
  "vt_par (set_p_prev a b s) = vt_par s" "vtlist (set_p_prev a b s) = vtlist s"
  "vt_systime (set_p_prev a b s) = vt_systime s" "vtimers.more (set_p_prev a b s) = vtimers.more s"
  by (simp_all add: set_p_next_def set_p_prev_def)

lemma link_before_vt_simps [simp]:
  "vt_delta (link_before a b s) = vt_delta s" "vt_func (link_before a b s) = vt_func s"
  "vt_par (link_before a b s) = vt_par s" "vtlist (link_before a b s) = vtlist s"
  "vt_systime (link_before a b s) = vt_systime s" "vtimers.more (link_before a b s) = vtimers.more s"
  by (simp_all add: link_before_def Let_def)


section \<open>The operations on the delta list\<close>

lemma linked_eq:
  assumes "p_next l' = p_next l" "p_prev l' = p_prev l"
  shows "linked l' xs \<longleftrightarrow> linked l xs"
  by (induction xs rule: induct_list012) (simp_all add: assms)

lemma queue_rep_eq:
  assumes "p_next l' = p_next l" "p_prev l' = p_prev l"
  shows "queue_rep l' q ts \<longleftrightarrow> queue_rep l q ts"
  unfolding queue_rep_def linked_eq [OF assms] ..

lemma vt_split_append: "vt_split d ds = (us, d', vs) \<Longrightarrow> ds = us @ vs"
  by (induction d ds arbitrary: us rule: vt_split.induct) (auto split: if_splits prod.splits)

lemma vt_scan_eq:
  assumes "queue_rep s (vtlist s) (us @ map fst ds)" "map snd ds = map (vt_delta s) (map fst ds)"
    "vt_delta s (vtlist s) = -1"
  shows "vt_scan s (hd (map fst ds @ [vtlist s])) d =
    Some (hd (map fst (snd (snd (vt_split d ds))) @ [vtlist s]), fst (snd (vt_split d ds)))"
  using assms
proof (induction d ds arbitrary: us rule: vt_split.induct)
  case (1 d)
  then show ?case by (subst vt_scan.simps) simp
next
  case (2 d u e ds)
  have "p_next s u = hd (map fst ds @ [vtlist s])"
    using queue_rep_next [of s "vtlist s" "us @ [u]" "map fst ds"] "2.prems" by simp
  moreover have "vt_scan s (hd (map fst ds @ [vtlist s])) (d - e) =
    Some (hd (map fst (snd (snd (vt_split (d - e) ds))) @ [vtlist s]), fst (snd (vt_split (d - e) ds)))" if "e < d"
    using "2.IH" [OF that, of "us @ [u]"] "2.prems" by simp
  moreover have "vt_delta s u = e" using "2.prems" by simp
  ultimately show ?case by (subst vt_scan.simps) (simp add: split_beta Let_def)
qed

lemma hd_delta_fst [simp]: "map fst (hd_delta f ds) = map fst ds"
  by (cases ds) auto

lemma chVTDoSetI_refines:
  assumes rep: "vt_rep s ds" and new: "vtp \<noteq> vtlist s" "vtp \<notin> fst ` set ds"
  obtains s' where "chVTDoSetI vtp delay f par s = Some s'" "vt_rep s' (vt_insert vtp delay ds)"
    "vt_func s' = (vt_func s)(vtp := Some f)" "vt_par s' = (vt_par s)(vtp := par)" "vtlist s' = vtlist s"
    "vt_systime s' = vt_systime s" "vtimers.more s' = vtimers.more s"
proof -
  obtain us d' vs where sp: "vt_split delay ds = (us, d', vs)" by (metis prod_cases3)
  have ds: "ds = us @ vs" by (rule vt_split_append [OF sp])
  have ins: "vt_insert vtp delay ds = us @ (vtp, d') # hd_delta (\<lambda>e. e - d') vs" by (simp add: vt_insert_def sp)
  let ?h = "vtlist s" and ?p = "hd (map fst vs @ [vtlist s])"
  let ?s0 = "set_vt_func vtp (Some f) (s\<lparr>vt_par := (vt_par s)(vtp := par)\<rparr>)"
  have q: "queue_rep s ?h (map fst us @ map fst vs)" and dl: "map snd ds = map (vt_delta s) (map fst ds)"
    and h: "vt_delta s ?h = -1" and ar: "\<forall>t. vt_func s t \<noteq> None \<longleftrightarrow> t \<in> fst ` set ds"
    using rep by (simp_all add: vt_rep_def ds)
  have q0: "queue_rep ?s0 ?h (map fst us @ map fst vs)" using q by (subst queue_rep_eq [of _ s]) simp_all
  have d: "distinct (?h # map fst us @ map fst vs)" using q by (simp add: queue_rep_def)
  have "p_next ?s0 ?h = hd (map fst ds @ [?h])"
    using queue_rep_next [of ?s0 ?h "[]" "map fst ds"] q0 by (simp add: ds)
  then have sc: "vt_scan ?s0 (p_next ?s0 ?h) delay = Some (?p, d')"
    using vt_scan_eq [of ?s0 "[]" ds delay] q0 dl h sp by (simp add: ds)
  let ?s1 = "set_vt_delta vtp d' (link_before vtp ?p ?s0)"
  let ?s2 = "set_vt_delta ?h (-1) (set_vt_delta ?p (vt_delta ?s1 ?p - d') ?s1)"
  have r: "chVTDoSetI vtp delay f par s = Some ?s2"
    using sc by (simp add: chVTDoSetI_def Let_def)
  have p: "?p = ?h \<and> vs = [] \<or> (\<exists>e vs'. vs = (?p, e) # vs')" by (cases vs) auto
  have "queue_rep (link_before vtp ?p ?s0) ?h (map fst us @ vtp # map fst vs)"
    using link_before_refines [OF q0, of vtp] new by (auto simp: ds)
  then have "queue_rep ?s2 ?h (map fst (vt_insert vtp delay ds))"
    by (subst queue_rep_eq [of _ "link_before vtp ?p ?s0"]) (simp_all add: ins)
  moreover have "map snd (vt_insert vtp delay ds) = map (vt_delta ?s2) (map fst (vt_insert vtp delay ds))"
    using p
  proof
    assume "?p = ?h \<and> vs = []"
    then show ?thesis unfolding ins using dl d new by (auto simp: ds rev_image_eqI)
  next
    assume "\<exists>e vs'. vs = (?p, e) # vs'"
    then obtain u e vs' where vs: "vs = (u, e) # vs'" by blast
    show ?thesis unfolding ins using dl d new by (auto simp: ds vs rev_image_eqI)
  qed
  moreover have "vt_func ?s2 t \<noteq> None \<longleftrightarrow> t \<in> fst ` set (vt_insert vtp delay ds)" for t
  proof -
    have "fst ` set (vt_insert vtp delay ds) = set (map fst us @ vtp # map fst vs)"
      unfolding set_map [symmetric] ins by simp
    then show ?thesis using ar by (auto simp: ds)
  qed
  ultimately have "vt_rep ?s2 (vt_insert vtp delay ds)" by (simp add: vt_rep_def)
  with r show ?thesis by (rule that) simp_all
qed

lemma vt_delete_append:
  "t \<notin> fst ` set us \<Longrightarrow> vt_delete t (us @ (t, e) # vs) = us @ hd_delta (\<lambda>e'. e' + e) vs"
  by (induction us) auto

lemma vt_delete_notin: "t \<notin> fst ` set ds \<Longrightarrow> vt_delete t ds = ds"
  by (induction t ds rule: vt_delete.induct) auto

lemma chVTDoResetI_refines:
  assumes rep: "vt_rep s ds" and mem: "vtp \<in> fst ` set ds"
  shows "vt_rep (chVTDoResetI vtp s) (vt_delete vtp ds)"
proof -
  obtain us e vs where ds: "ds = us @ (vtp, e) # vs" using mem by (auto simp: in_set_conv_decomp)
  let ?h = "vtlist s" and ?n = "p_next s vtp"
  have q: "queue_rep s ?h (map fst us @ vtp # map fst vs)" and dl: "map snd ds = map (vt_delta s) (map fst ds)"
    and h: "vt_delta s ?h = -1" and ar: "\<forall>t. vt_func s t \<noteq> None \<longleftrightarrow> t \<in> fst ` set ds"
    using rep by (simp_all add: vt_rep_def ds)
  have d: "distinct (?h # map fst us @ vtp # map fst vs)" using q by (simp add: queue_rep_def)
  then have del: "vt_delete vtp ds = us @ hd_delta (\<lambda>e'. e' + e) vs"
    unfolding ds by (intro vt_delete_append) auto
  have n: "?n = hd (map fst vs @ [?h])"
    using queue_rep_next [of s ?h "map fst us @ [vtp]" "map fst vs"] q by simp
  let ?s = "chVTDoResetI vtp s"
  have df: "vt_delta ?s = (vt_delta s)(?n := vt_delta s ?n + vt_delta s vtp, ?h := -1)"
    "vt_func ?s = (vt_func s)(vtp := None)" "vtlist ?s = ?h"
    and ln: "p_next ?s = p_next (queue_dequeue vtp s)" "p_prev ?s = p_prev (queue_dequeue vtp s)"
    by (simp_all add: chVTDoResetI_def queue_dequeue_def Let_def)
  have "queue_rep ?s ?h (map fst (vt_delete vtp ds))"
    unfolding queue_rep_eq [OF ln] del using queue_dequeue_refines [OF q] by simp
  moreover have "map snd (vt_delete vtp ds) = map (vt_delta ?s) (map fst (vt_delete vtp ds))"
  proof (cases vs)
    case Nil
    then show ?thesis unfolding del using dl d n by (auto simp: df ds rev_image_eqI)
  next
    case (Cons v vs')
    obtain u e' where v: "v = (u, e')" by (cases v)
    show ?thesis unfolding del using dl d n by (auto simp: df ds Cons v rev_image_eqI)
  qed
  moreover have "vt_func ?s t \<noteq> None \<longleftrightarrow> t \<in> fst ` set (vt_delete vtp ds)" for t
  proof -
    have "fst ` set (vt_delete vtp ds) = set (map fst us @ map fst vs)"
      unfolding set_map [symmetric] del by simp
    then show ?thesis using ar d by (auto simp: ds df)
  qed
  ultimately show ?thesis by (simp add: vt_rep_def df)
qed

lemma chVTDoResetI_frame [simp]:
  "vtlist (chVTDoResetI vtp s) = vtlist s" "vt_par (chVTDoResetI vtp s) = vt_par s"
  "vt_func (chVTDoResetI vtp s) = (vt_func s)(vtp := None)"
  "vt_systime (chVTDoResetI vtp s) = vt_systime s" "vtimers.more (chVTDoResetI vtp s) = vtimers.more s"
  by (simp_all add: chVTDoResetI_def Let_def)

lemma chVTResetI_refines:
  assumes "vt_rep s ds"
  shows "vt_rep (chVTResetI vtp s) (vt_delete vtp ds)"
    and "vtlist (chVTResetI vtp s) = vtlist s" "vt_par (chVTResetI vtp s) = vt_par s"
    "vt_func (chVTResetI vtp s) = (vt_func s)(vtp := None)"
    "vt_systime (chVTResetI vtp s) = vt_systime s" "vtimers.more (chVTResetI vtp s) = vtimers.more s"
  using assms chVTDoResetI_refines [OF assms, of vtp] vt_delete_notin [of vtp ds]
  by (auto simp: chVTResetI_def chVTIsArmedI_def vt_rep_def fun_eq_iff)

subsection \<open>Remaining ticks\<close>

lemma remaining_ge: "(t, r) \<in> set (remaining a ds) \<Longrightarrow> a \<le> r"
  by (induction a ds rule: remaining.induct) auto

lemma remaining_fst [simp]: "map fst (remaining a ds) = map fst ds"
  by (induction a ds rule: remaining.induct) auto

lemma remaining_sorted: "sorted (map snd (remaining a ds))"
  by (induction a ds rule: remaining.induct) (auto dest: remaining_ge)

lemma remaining_insert:
  "remaining a (vt_insert t d ds) =
     takeWhile (\<lambda>(_, r). r < a + unat d) (remaining a ds) @ (t, a + unat d) #
     dropWhile (\<lambda>(_, r). r < a + unat d) (remaining a ds)"
proof (induction d ds arbitrary: a rule: vt_split.induct)
  case (1 d)
  then show ?case by (simp add: vt_insert_def)
next
  case (2 d u e ds)
  show ?case
  proof (cases "e < d")
    case True
    then have "unat (d - e) = unat d - unat e" "unat e < unat d"
      using unat_sub [OF less_imp_le, of e d] by (auto simp: word_less_nat_alt)
    then show ?thesis using 2 [OF True, of "a + unat e"] True
      by (simp add: vt_insert_def split_beta Let_def)
  next
    case False
    then have "unat (e - d) = unat e - unat d" "unat d \<le> unat e"
      by (auto simp: unat_sub word_le_nat_alt not_less)
    then show ?thesis using False by (simp add: vt_insert_def)
  qed
qed

lemma remaining_delete:
  assumes "distinct (map fst ds)" "\<And>u r. (u, r) \<in> set (remaining a ds) \<Longrightarrow> r < 2 ^ 32"
  shows "remaining a (vt_delete t ds) = filter (\<lambda>(u, _). u \<noteq> t) (remaining a ds)"
  using assms
proof (induction t ds arbitrary: a rule: vt_delete.induct)
  case (2 t u e ds)
  show ?case
  proof (cases "u = t")
    case True
    have nt: "t \<notin> fst ` set (remaining b ds)" for b
      using 2 True unfolding set_map [symmetric] remaining_fst by simp
    have f: "filter (\<lambda>(u, _). u \<noteq> t) (remaining b ds) = remaining b ds" for b
      using nt [of b] by (auto simp: filter_id_conv image_iff)
    show ?thesis
    proof (cases ds)
      case (Cons v ds')
      obtain w e' where v: "v = (w, e')" by (cases v)
      have "a + unat e + unat e' < 2 ^ 32" using "2.prems"(2) [of w] by (simp add: Cons v)
      then have "unat (e' + e) = unat e' + unat e" by (subst unat_add_lem [symmetric]) simp
      then show ?thesis using True f [of "a + unat e"] by (simp add: Cons v add.commute add.left_commute)
    qed (use True in simp)
  next
    case False
    then show ?thesis using "2.IH" [OF False, of "a + unat e"] "2.prems" by auto
  qed
qed simp


section \<open>The tick\<close>

text \<open>Timer functions that leave the timers alone, as those the kernel itself installs do: they change the rest of the
  state by \<open>act\<close>, which may fail.\<close>

definition quiet ::
  "('f \<times> u32 \<Rightarrow> 'z \<Rightarrow> 'z option) \<Rightarrow> 'f \<Rightarrow> u32 \<Rightarrow> ('f, 'z) vtimers_scheme \<Rightarrow> ('f, 'z) vtimers_scheme option" where
  "quiet act f p s = map_option (\<lambda>m. vtimers.more_update (\<lambda>_. m) s) (act (f, p) (vtimers.more s))"

fun call_all :: "('c \<Rightarrow> 'z \<Rightarrow> 'z option) \<Rightarrow> 'c list \<Rightarrow> 'z \<Rightarrow> 'z option" where
  "call_all act [] m = Some m"
| "call_all act (c # cs) m = Option.bind (act c m) (call_all act cs)"

definition due :: "(tid \<times> u32) list \<Rightarrow> tid list" where
  "due ds = map fst (takeWhile (\<lambda>(_, d). d = 0) ds)"

definition calls :: "('f, 'z) vtimers_scheme \<Rightarrow> tid list \<Rightarrow> ('f \<times> u32) list" where
  "calls s ts = map (\<lambda>t. (the (vt_func s t), vt_par s t)) ts"

text \<open>What the expiry of the timers \<open>ts\<close> leaves: the rest of the delta list, the functions of \<open>ts\<close> cleared.\<close>

definition expired :: "('f, 'z) vtimers_scheme \<Rightarrow> tid list \<Rightarrow> (tid \<times> u32) list \<Rightarrow> 'z \<Rightarrow> ('f, 'z) vtimers_scheme \<Rightarrow> bool" where
  "expired s ts ds m s' \<longleftrightarrow> vt_rep s' ds \<and> vtimers.more s' = m \<and> vtlist s' = vtlist s
     \<and> vt_func s' = (\<lambda>t. if t \<in> set ts then None else vt_func s t) \<and> vt_par s' = vt_par s
     \<and> vt_systime s' = vt_systime s"

lemma vt_rep_first:
  assumes "vt_rep s ((t, d) # ds)"
  shows "p_next s (vtlist s) = t" "p_prev s t = vtlist s" "vt_delta s t = d" "vt_func s t \<noteq> None" "t \<noteq> vtlist s"
  using assms by (auto simp: vt_rep_def queue_rep_def)

lemma vt_expire_step:
  assumes "vt_rep s ((t, d) # ds)"
  shows "vt_rep (set_p_next (vtlist s) (p_next s t) (set_p_prev (p_next s t) (vtlist s) (set_vt_func t None s))) ds"
    (is "vt_rep ?s ds")
proof -
  note f = vt_rep_first [OF assms]
  have q: "queue_rep s (vtlist s) ([] @ t # map fst ds)" using assms by (simp add: vt_rep_def)
  have "p_next ?s = p_next (queue_dequeue t s)" "p_prev ?s = p_prev (queue_dequeue t s)"
    using f by (auto simp: queue_dequeue_def Let_def)
  then have "queue_rep ?s (vtlist s) (map fst ds)" using queue_dequeue_refines [OF q] queue_rep_eq by fastforce
  moreover have "t \<notin> fst ` set ds" using q by (simp add: queue_rep_def)
  ultimately show ?thesis using assms by (auto simp: vt_rep_def)
qed

lemma vt_rep_more [simp]: "vt_rep (vtimers.more_update f s) ds \<longleftrightarrow> vt_rep s ds"
  unfolding vt_rep_def by (subst queue_rep_eq [of _ s]) simp_all

lemma vt_expire_eq:
  assumes "vt_rep s ds"
  shows "case call_all act (calls s (due ds)) (vtimers.more s) of
      None \<Rightarrow> vt_expire (quiet act) s = None
    | Some m \<Rightarrow> \<exists>s'. vt_expire (quiet act) s = Some s' \<and> expired s (due ds) (dropWhile (\<lambda>(_, d). d = 0) ds) m s'"
  using assms
proof (induction ds arbitrary: s)
  case Nil
  then have "p_next s (vtlist s) = vtlist s" "vt_delta s (vtlist s) = -1" by (auto simp: vt_rep_def queue_rep_def)
  then have "vt_expire (quiet act) s = Some s" by (subst vt_expire.simps) (simp add: Let_def)
  then show ?case using Nil by (simp add: due_def calls_def expired_def)
next
  case (Cons x ds)
  obtain t d where x: "x = (t, d)" by (cases x)
  note f = vt_rep_first [OF Cons.prems [unfolded x]]
  show ?case
  proof (cases "d = 0")
    case False
    then have "vt_expire (quiet act) s = Some s" using f by (subst vt_expire.simps) (simp add: Let_def)
    then show ?thesis using False Cons.prems by (simp add: x due_def calls_def expired_def)
  next
    case True
    let ?s = "set_p_next (vtlist s) (p_next s t) (set_p_prev (p_next s t) (vtlist s) (set_vt_func t None s))"
    obtain g where g: "vt_func s t = Some g" using f by auto
    have e: "vt_expire (quiet act) s = Option.bind (quiet act g (vt_par s t) ?s) (vt_expire (quiet act))"
      using f g True by (subst vt_expire.simps) (simp add: Let_def)
    have du: "due (x # ds) = t # due ds" using True by (simp add: due_def x)
    have nt: "t \<notin> set (due ds)" using Cons.prems by (auto simp: x vt_rep_def queue_rep_def due_def dest: set_takeWhileD)
    show ?thesis
    proof (cases "act (g, vt_par s t) (vtimers.more s)")
      case None
      then show ?thesis using e g by (simp add: du calls_def quiet_def)
    next
      case (Some m)
      let ?s1 = "vtimers.more_update (\<lambda>_. m) ?s"
      have "vt_rep ?s1 ds" using vt_expire_step [OF Cons.prems [unfolded x]] by simp
      moreover have "calls ?s1 (due ds) = calls s (due ds)" using nt by (auto simp: calls_def)
      ultimately
      have IH: "case call_all act (calls s (due ds)) m of
          None \<Rightarrow> vt_expire (quiet act) ?s1 = None
        | Some m' \<Rightarrow> \<exists>s'. vt_expire (quiet act) ?s1 = Some s' \<and> expired ?s1 (due ds) (dropWhile (\<lambda>(_, d). d = 0) ds) m' s'"
        using Cons.IH [of ?s1] by simp
      have e': "vt_expire (quiet act) s = vt_expire (quiet act) ?s1" using e Some by (simp add: quiet_def)
      have c: "call_all act (calls s (due (x # ds))) (vtimers.more s) = call_all act (calls s (due ds)) m"
        using Some g by (simp add: du calls_def)
      have "vt_func ?s1 = (vt_func s)(t := None)" "vtlist ?s1 = vtlist s" "vt_par ?s1 = vt_par s"
        "vt_systime ?s1 = vt_systime s" by simp_all
      then have "expired ?s1 (due ds) es m' s' \<longleftrightarrow> expired s (due (x # ds)) es m' s'" for es m' s'
        unfolding expired_def du by (auto simp: fun_eq_iff)
      moreover have "dropWhile (\<lambda>(_, d). d = 0) (x # ds) = dropWhile (\<lambda>(_, d). d = 0) ds" using True by (simp add: x)
      ultimately show ?thesis unfolding c e' using IH by (simp split: option.splits)
    qed
  qed
qed


lemma remaining_due: "due ds = map fst (filter (\<lambda>(_, r). r = 0) (remaining 0 ds))"
  and remaining_not_due: "remaining 0 (dropWhile (\<lambda>(_, d). d = 0) ds) = filter (\<lambda>(_, r). 0 < r) (remaining 0 ds)"
proof -
  have pos: "filter (\<lambda>(_, r). r = 0) (remaining a ds) = []" "filter (\<lambda>(_, r). 0 < r) (remaining a ds) = remaining a ds"
    if "0 < a" for a and ds :: "(tid \<times> u32) list"
    using that remaining_ge [of _ _ a ds] by (fastforce simp: filter_empty_conv filter_id_conv)+
  have "due ds = map fst (filter (\<lambda>(_, r). r = 0) (remaining 0 ds))
    \<and> remaining 0 (dropWhile (\<lambda>(_, d). d = 0) ds) = filter (\<lambda>(_, r). 0 < r) (remaining 0 ds)"
  proof (induction ds)
    case (Cons x ds)
    obtain t d where x: "x = (t, d)" by (cases x)
    show ?case
    proof (cases "d = 0")
      case False
      then have "0 < unat d" by (simp add: unat_gt_0)
      then show ?thesis using False by (simp add: x due_def pos)
    qed (use Cons in \<open>simp add: x due_def\<close>)
  qed (simp add: due_def)
  then show "due ds = map fst (filter (\<lambda>(_, r). r = 0) (remaining 0 ds))"
    and "remaining 0 (dropWhile (\<lambda>(_, d). d = 0) ds) = filter (\<lambda>(_, r). 0 < r) (remaining 0 ds)" by simp_all
qed

lemma remaining_dec:
  assumes "ds = [] \<or> snd (hd ds) \<noteq> 0"
  shows "remaining 0 (hd_delta (\<lambda>e. e - 1) ds) = map (\<lambda>(t, r). (t, r - 1)) (remaining 0 ds)"
proof (cases ds)
  case (Cons x ds')
  obtain t d where x: "x = (t, d)" by (cases x)
  have shift: "remaining a es = map (\<lambda>(t, r). (t, r - 1)) (remaining (Suc a) es)" for a and es :: "(tid \<times> u32) list"
    by (induction a es rule: remaining.induct) simp_all
  have "unat d = Suc (unat (d - 1))" using assms by (simp add: Cons x unat_minus_one unat_gt_0)
  then show ?thesis using shift [of "unat (d - 1)" ds'] by (simp add: Cons x)
qed simp

lemma vt_rep_dec:
  assumes "vt_rep s ((t, d) # ds)"
  shows "vt_rep (set_vt_delta t d' s) ((t, d') # ds)"
  using assms unfolding vt_rep_def by (subst queue_rep_eq [of _ s]) (auto simp: queue_rep_def rev_image_eqI)

lemma vt_rep_systime [simp]: "vt_rep (s\<lparr>vt_systime := x\<rparr>) ds \<longleftrightarrow> vt_rep s ds"
  unfolding vt_rep_def by (subst queue_rep_eq [of _ s]) simp_all

definition fired :: "nat \<Rightarrow> (tid \<times> u32) list \<Rightarrow> tid list" where
  "fired k ds = map fst (filter (\<lambda>(_, r). r \<le> k) (remaining 0 ds))"

lemma chVTDoTickI_eq:
  assumes rep: "vt_rep s ds" and live: "vt_live ds"
  shows "case call_all act (calls s (fired 1 ds)) (vtimers.more s) of
      None \<Rightarrow> chVTDoTickI (quiet act) s = None
    | Some m \<Rightarrow> \<exists>s' ds'. chVTDoTickI (quiet act) s = Some s' \<and> expired (s\<lparr>vt_systime := vt_systime s + 1\<rparr>) (fired 1 ds) ds' m s'
        \<and> remaining 0 ds' = map (\<lambda>(t, r). (t, r - 1)) (filter (\<lambda>(_, r). 1 < r) (remaining 0 ds))"
proof -
  have pos: "0 < r" if "(t, r) \<in> set (remaining 0 ds)" for t r using live that by (auto simp: vt_live_def)
  show ?thesis
proof (cases ds)
  case Nil
  then have "p_next s (vtlist s) = vtlist s" using rep by (auto simp: vt_rep_def queue_rep_def)
  then show ?thesis using rep
    by (auto simp: Nil chVTDoTickI_def calls_def expired_def fired_def Let_def intro!: exI [of _ "[]"])
next
  case (Cons x ds1)
  obtain t d where x: "x = (t, d)" by (cases x)
  note f = vt_rep_first [OF rep [unfolded Cons x]]
  let ?s = "s\<lparr>vt_systime := vt_systime s + 1\<rparr>"
  let ?s1 = "set_vt_delta t (d - 1) ?s" and ?ds = "hd_delta (\<lambda>e. e - 1) ds"
  have d0: "ds = [] \<or> snd (hd ds) \<noteq> 0" using pos [of t "unat d"] by (simp add: Cons x unat_gt_0)
  have e: "chVTDoTickI (quiet act) s = vt_expire (quiet act) ?s1"
    using f by (simp add: chVTDoTickI_def Let_def)
  have "vt_rep ?s1 ?ds" using vt_rep_dec [of ?s t d ds1 "d - 1"] rep by (simp add: Cons x)
  note ex = vt_expire_eq [OF this, of act, folded e]
  have du: "due ?ds = fired 1 ds"
    unfolding remaining_due remaining_dec [OF d0] fired_def
    using pos by (auto simp: filter_map o_def split_beta intro!: filter_cong arg_cong [of _ _ "map fst"])
  have re: "remaining 0 (dropWhile (\<lambda>(_, d). d = 0) ?ds) = map (\<lambda>(t, r). (t, r - 1)) (filter (\<lambda>(_, r). 1 < r) (remaining 0 ds))"
    unfolding remaining_not_due remaining_dec [OF d0]
    by (auto simp: filter_map o_def split_beta intro!: arg_cong [of _ _ "map _"] filter_cong)
  have ca: "calls ?s1 (fired 1 ds) = calls s (fired 1 ds)" by (simp add: calls_def)
  have xp: "expired ?s1 ts es m s' = expired ?s ts es m s'" for ts es m s'
    by (simp add: expired_def cong: if_cong)
  show ?thesis using ex re unfolding du ca xp by (fastforce split: option.splits)
qed
qed


lemma filter_sorted_split:
  assumes "sorted (map snd R)" "a \<le> b"
  shows "filter (\<lambda>(_, r). r \<le> b) R = filter (\<lambda>(_, r). r \<le> a) R @ filter (\<lambda>(_, r). a < r \<and> r \<le> b) R"
  using assms
proof (induction R)
  case (Cons x R)
  show ?case
  proof (cases "snd x \<le> a")
    case True
    then show ?thesis using Cons by (auto simp: split_beta)
  next
    case False
    then have "\<forall>y \<in> set R. a < snd y" using Cons.prems by auto
    then have "filter (\<lambda>(_, r). r \<le> a) R = []" "filter (\<lambda>(_, r). r \<le> b) R = filter (\<lambda>(_, r). a < r \<and> r \<le> b) R"
      by (auto simp: filter_empty_conv split_beta intro!: filter_cong)
    then show ?thesis using False by (cases x) auto
  qed
qed simp

lemma map_sub_filter:
  "map (\<lambda>(t, r). (t, r - k)) (filter (\<lambda>(_, r). k < r) (map (\<lambda>(t, r). (t, r - 1)) (filter (\<lambda>(_, r). 1 < r) R))) =
   map (\<lambda>(t, r). (t, r - Suc k)) (filter (\<lambda>(_, r). Suc k < r) R)"
  by (induction R) auto

lemma call_all_append: "call_all act (xs @ ys) m = Option.bind (call_all act xs m) (call_all act ys)"
  by (induction act xs m rule: call_all.induct) (auto split: Option.bind_splits)

primrec ticks ::
  "('f \<Rightarrow> u32 \<Rightarrow> ('f, 'z) vtimers_scheme \<Rightarrow> ('f, 'z) vtimers_scheme option) \<Rightarrow> nat \<Rightarrow>
   ('f, 'z) vtimers_scheme \<Rightarrow> ('f, 'z) vtimers_scheme option" where
  "ticks call 0 s = Some s"
| "ticks call (Suc k) s = Option.bind (chVTDoTickI call s) (ticks call k)"

text \<open>\<open>k\<close> ticks later.\<close>

definition after_ticks :: "nat \<Rightarrow> ('f, 'z) vtimers_scheme \<Rightarrow> (tid \<times> u32) list \<Rightarrow> 'z \<Rightarrow> ('f, 'z) vtimers_scheme \<Rightarrow> bool" where
  "after_ticks k s ds m s' \<longleftrightarrow> vtimers.more s' = m \<and> vt_systime s' = vt_systime s + of_nat k \<and> vtlist s' = vtlist s
     \<and> (\<exists>ds'. vt_rep s' ds' \<and> remaining 0 ds' = map (\<lambda>(t, r). (t, r - k)) (filter (\<lambda>(_, r). k < r) (remaining 0 ds)))"

lemma ticks_eq:
  assumes "vt_rep s ds" "vt_live ds"
  shows "case call_all act (calls s (fired k ds)) (vtimers.more s) of
      None \<Rightarrow> ticks (quiet act) k s = None
    | Some m \<Rightarrow> \<exists>s'. ticks (quiet act) k s = Some s' \<and> after_ticks k s ds m s'"
  using assms
proof (induction k arbitrary: s ds)
  case 0
  have "filter (\<lambda>(_, r). r \<le> (0::nat)) (remaining 0 ds) = []" "filter (\<lambda>(_, r). (0::nat) < r) (remaining 0 ds) = remaining 0 ds"
    using "0.prems"(2) by (fastforce simp: vt_live_def filter_empty_conv filter_id_conv)+
  then show ?case using "0.prems"(1) by (auto simp: fired_def calls_def after_ticks_def)
next
  case (Suc k)
  let ?R = "remaining 0 ds"
  note sp = filter_sorted_split [OF remaining_sorted [of 0 ds], of 1 "Suc k"]
  show ?case
  proof (cases "call_all act (calls s (fired 1 ds)) (vtimers.more s)")
    case None
    then have "chVTDoTickI (quiet act) s = None" using chVTDoTickI_eq [OF Suc.prems, where act = act] by simp
    moreover have "call_all act (calls s (fired (Suc k) ds)) (vtimers.more s) = None"
      using None sp by (simp add: fired_def calls_def call_all_append)
    ultimately show ?thesis by simp
  next
    case (Some m)
    then obtain s1 ds1 where t: "chVTDoTickI (quiet act) s = Some s1"
      and x: "expired (s\<lparr>vt_systime := vt_systime s + 1\<rparr>) (fired 1 ds) ds1 m s1"
      and r: "remaining 0 ds1 = map (\<lambda>(t, r). (t, r - 1)) (filter (\<lambda>(_, r). 1 < r) ?R)"
      using chVTDoTickI_eq [OF Suc.prems, where act = act] by auto
    have rep1: "vt_rep s1 ds1" using x by (simp add: expired_def)
    have f: "fired (Suc k) ds = fired 1 ds @ fired k ds1"
      using sp unfolding fired_def r
      by (auto simp: filter_map o_def split_beta conj_commute intro!: arg_cong [of _ _ "map fst"] filter_cong)
    have "vt_func s1 t = vt_func s t" if "t \<in> set (fired k ds1)" for t
    proof -
      have "t \<in> fst ` set (remaining 0 ds1)" using that by (auto simp: fired_def)
      then have "t \<in> set (map fst ds1)" unfolding set_map [symmetric] remaining_fst .
      then have "vt_func s1 t \<noteq> None" using rep1 by (simp add: vt_rep_def)
      then show ?thesis using x by (auto simp: expired_def split: if_splits)
    qed
    then have c: "calls s1 (fired k ds1) = calls s (fired k ds1)" using x by (auto simp: calls_def expired_def)
    have m: "vtimers.more s1 = m" using x by (simp add: expired_def)
    have a: "after_ticks k s1 ds1 m' s' \<Longrightarrow> after_ticks (Suc k) s ds m' s'" for m' s'
      using x unfolding after_ticks_def r expired_def map_sub_filter [of k] by (auto simp: algebra_simps)
    have "vt_live ds1" using Suc.prems(2) unfolding vt_live_def r by auto
    then show ?thesis using Suc.IH [OF rep1] a Some t
      unfolding f by (fastforce simp: calls_def call_all_append c [unfolded calls_def] m split: option.splits)
  qed
qed


section \<open>Arming a timer and waiting\<close>

definition insert_deadline :: "tid \<Rightarrow> nat \<Rightarrow> (tid \<times> nat) list \<Rightarrow> (tid \<times> nat) list" where
  "insert_deadline t r R = takeWhile (\<lambda>(_, r'). r' < r) R @ (t, r) # dropWhile (\<lambda>(_, r'). r' < r) R"

lemma set_insert_deadline: "set (insert_deadline t r R) = insert (t, r) (set R)"
proof -
  have "set (insert_deadline t r R) = insert (t, r) (set (takeWhile (\<lambda>(_, r'). r' < r) R @ dropWhile (\<lambda>(_, r'). r' < r) R))"
    unfolding insert_deadline_def set_append list.set by blast
  then show ?thesis by (simp only: takeWhile_dropWhile_id)
qed

lemma chVTSetI_refines:
  assumes rep: "vt_rep s ds" and live: "vt_live ds" and new: "vtp \<noteq> vtlist s"
  obtains s1 ds1 where "chVTSetI vtp delay f par s = Some s1" "vt_rep s1 ds1"
    "remaining 0 ds1 = insert_deadline vtp (unat delay) (filter (\<lambda>(u, _). u \<noteq> vtp) (remaining 0 ds))"
    "vt_func s1 = (vt_func s)(vtp := Some f)" "vt_par s1 = (vt_par s)(vtp := par)" "vtlist s1 = vtlist s"
    "vt_systime s1 = vt_systime s" "vtimers.more s1 = vtimers.more s"
proof -
  note r = chVTResetI_refines [OF rep, of vtp]
  have d: "distinct (map fst ds)" using rep by (simp add: vt_rep_def queue_rep_def)
  have "vt_rep (chVTResetI vtp s) (vt_delete vtp ds)" by (rule r)
  moreover have "vtp \<notin> fst ` set (vt_delete vtp ds)"
    using r(1) unfolding vt_rep_def r(4) by (metis fun_upd_same)
  ultimately obtain s1 where s1: "chVTDoSetI vtp delay f par (chVTResetI vtp s) = Some s1"
    "vt_rep s1 (vt_insert vtp delay (vt_delete vtp ds))" "vt_func s1 = (vt_func (chVTResetI vtp s))(vtp := Some f)"
    "vt_par s1 = (vt_par (chVTResetI vtp s))(vtp := par)" "vtlist s1 = vtlist (chVTResetI vtp s)"
    "vt_systime s1 = vt_systime (chVTResetI vtp s)" "vtimers.more s1 = vtimers.more (chVTResetI vtp s)"
    using chVTDoSetI_refines [of "chVTResetI vtp s" "vt_delete vtp ds" vtp delay f par] new r(2) by metis
  have "remaining 0 (vt_delete vtp ds) = filter (\<lambda>(u, _). u \<noteq> vtp) (remaining 0 ds)"
    using remaining_delete [OF d, of 0 vtp] live by (auto simp: vt_live_def)
  then have "remaining 0 (vt_insert vtp delay (vt_delete vtp ds)) =
      insert_deadline vtp (unat delay) (filter (\<lambda>(u, _). u \<noteq> vtp) (remaining 0 ds))"
    using remaining_insert [of 0 vtp delay "vt_delete vtp ds"] by (simp add: insert_deadline_def)
  from s1(1) [folded chVTSetI_def] s1(2) this show ?thesis by (rule that) (simp_all add: s1 r)
qed

text \<open>The calls made, in order.\<close>

definition trace :: "'f \<times> u32 \<Rightarrow> ('f \<times> u32) list \<Rightarrow> ('f \<times> u32) list option" where
  "trace c m = Some (m @ [c])"

lemma call_all_trace: "call_all trace cs m = Some (m @ cs)"
  by (induction cs arbitrary: m) (simp_all add: trace_def)

text \<open>
  C16: a timer armed with a delay other than 0 fires at exactly that many ticks: whatever timers are running,
  after \<open>k\<close> ticks the functions called are those of the timers whose ticks were at most \<open>k\<close>, each once, with its
  parameter and in the order of their deadlines, the timer itself is armed until its delay is over, and the
  deadlines of the other timers are not changed by it.
\<close>

theorem timer_fires_after_its_delay:
  assumes rep: "vt_rep s ds" and live: "vt_live ds" and new: "vtp \<noteq> vtlist s" and d0: "delay \<noteq> 0" and m0: "vtimers.more s = []"
  shows "\<exists>s1 s'. chVTSetI vtp delay f par s = Some s1 \<and> ticks (quiet trace) k s1 = Some s'
    \<and> vtimers.more s' = map (\<lambda>(t, _). if t = vtp then (f, par) else (the (vt_func s t), vt_par s t))
        (filter (\<lambda>(_, r). r \<le> k) (insert_deadline vtp (unat delay) (filter (\<lambda>(u, _). u \<noteq> vtp) (remaining 0 ds))))
    \<and> (chVTIsArmedI vtp s' \<longleftrightarrow> k < unat delay) \<and> chVTGetSystemTimeX s' = chVTGetSystemTimeX s + of_nat k"
proof -
  obtain s1 ds1 where s1: "chVTSetI vtp delay f par s = Some s1" "vt_rep s1 ds1"
    "remaining 0 ds1 = insert_deadline vtp (unat delay) (filter (\<lambda>(u, _). u \<noteq> vtp) (remaining 0 ds))"
    "vt_func s1 = (vt_func s)(vtp := Some f)" "vt_par s1 = (vt_par s)(vtp := par)" "vtlist s1 = vtlist s"
    "vt_systime s1 = vt_systime s" "vtimers.more s1 = vtimers.more s"
    by (rule chVTSetI_refines [OF rep live new])
  have R: "set (remaining 0 ds1) = insert (vtp, unat delay) {(u, r) \<in> set (remaining 0 ds). u \<noteq> vtp}"
    unfolding s1(3) set_insert_deadline by auto
  then have "vt_live ds1" using live d0 unsigned_less [of delay, where 'a = nat] by (auto simp: vt_live_def unat_gt_0)
  then obtain s' where s': "ticks (quiet trace) k s1 = Some s'" "after_ticks k s1 ds1 (calls s1 (fired k ds1)) s'"
    using ticks_eq [OF s1(2), of trace k] s1(8) m0 by (auto simp: call_all_trace)
  then obtain ds' where ds': "vt_rep s' ds'" "vt_systime s' = vt_systime s1 + of_nat k"
    "remaining 0 ds' = map (\<lambda>(t, r). (t, r - k)) (filter (\<lambda>(_, r). k < r) (remaining 0 ds1))"
    "vtimers.more s' = calls s1 (fired k ds1)" by (auto simp: after_ticks_def)
  have "chVTIsArmedI vtp s' \<longleftrightarrow> vtp \<in> set (map fst (remaining 0 ds'))"
    using ds'(1) by (simp only: remaining_fst) (simp add: vt_rep_def chVTIsArmedI_def)
  also have "\<dots> \<longleftrightarrow> k < unat delay" unfolding ds'(3) using R by force
  finally have armed: "chVTIsArmedI vtp s' \<longleftrightarrow> k < unat delay" .
  have "vtimers.more s' = map (\<lambda>(t, _). if t = vtp then (f, par) else (the (vt_func s t), vt_par s t))
      (filter (\<lambda>(_, r). r \<le> k) (remaining 0 ds1))"
    by (auto simp: ds'(4) calls_def fired_def s1)
  with armed ds' s' s1 show ?thesis by (auto simp: chVTGetSystemTimeX_def)
qed


lemma vt_init_rep: "(\<And>t. vt_func s t = None) \<Longrightarrow> vt_rep (vt_init s) []"
  by (simp add: vt_rep_def vt_init_def queue_rep_def)

text \<open>An initialised list of timers at address 256.\<close>

definition no_timers :: "'z \<Rightarrow> ('f, 'z) vtimers_scheme" where
  "no_timers m = vt_init \<lparr>p_next = id, p_prev = id, vtlist = 0x100, vt_delta = (\<lambda>_. 0), vt_func = (\<lambda>_. None),
     vt_par = (\<lambda>_. 0), vt_systime = 7, \<dots> = m\<rparr>"

lemma no_timers_rep: "vt_rep (no_timers m) []" "vtlist (no_timers m) = 0x100" "vtimers.more (no_timers m) = m"
  "vt_live []"
  unfolding no_timers_def by (rule vt_init_rep) (simp_all add: vt_init_def vt_live_def)

theorem timer_fires_after_its_delay_witness:
  "\<exists>s1 s'. chVTSetI 0x200 5 CHR ''w'' 42 (no_timers []) = Some s1 \<and> ticks (quiet trace) 5 s1 = Some s'
    \<and> vtimers.more s' = [(CHR ''w'', 42)] \<and> \<not> chVTIsArmedI 0x200 s'"
  using timer_fires_after_its_delay [OF no_timers_rep(1) no_timers_rep(4), of "0x200" "[]" 5 "CHR ''w''" 42 5]
  by (auto simp: no_timers_rep insert_deadline_def)

text \<open>
  A timer armed with the delay 0, which \<open>chVTDoSetI\<close> only checks in debug builds, becomes the first of the
  delta list and its delta wraps around at the next tick: no function is called by that tick, the timer will fire
  only 4294967295 ticks later, and every other running timer is put off by as many ticks.
\<close>

theorem timer_of_delay_0_stalls_timers:
  assumes rep: "vt_rep s ds" and live: "vt_live ds" and new: "vtp \<noteq> vtlist s"
  shows "\<exists>s1 s' ds'. chVTSetI vtp 0 f par s = Some s1 \<and> chVTDoTickI call s1 = Some s' \<and> vtimers.more s' = vtimers.more s
    \<and> vt_rep s' ds' \<and> remaining 0 ds' =
        (vtp, 4294967295) # map (\<lambda>(u, r). (u, r + 4294967295)) (filter (\<lambda>(u, _). u \<noteq> vtp) (remaining 0 ds))"
proof -
  obtain s1 ds1 where s1: "chVTSetI vtp 0 f par s = Some s1" "vt_rep s1 ds1"
    "remaining 0 ds1 = insert_deadline vtp (unat (0 :: u32)) (filter (\<lambda>(u, _). u \<noteq> vtp) (remaining 0 ds))"
    "vt_func s1 = (vt_func s)(vtp := Some f)" "vt_par s1 = (vt_par s)(vtp := par)" "vtlist s1 = vtlist s"
    "vt_systime s1 = vt_systime s" "vtimers.more s1 = vtimers.more s"
    by (rule chVTSetI_refines [OF rep live new])
  have R: "remaining 0 ds1 = (vtp, 0) # filter (\<lambda>(u, _). u \<noteq> vtp) (remaining 0 ds)"
    using s1(3) by (simp add: insert_deadline_def takeWhile_eq_Nil_iff split_beta)
  then obtain ds2 where ds1: "ds1 = (vtp, 0) # ds2" and R2: "remaining 0 ds2 = filter (\<lambda>(u, _). u \<noteq> vtp) (remaining 0 ds)"
    by (cases ds1) (auto simp: unat_eq_0)
  note f = vt_rep_first [OF s1(2) [unfolded ds1]]
  let ?s' = "set_vt_delta vtp (-1) (s1\<lparr>vt_systime := vt_systime s1 + 1\<rparr>)"
  have t: "chVTDoTickI call s1 = Some ?s'"
    using f by (simp add: chVTDoTickI_def Let_def) (subst vt_expire.simps, simp add: Let_def)
  have r: "vt_rep ?s' ((vtp, -1) # ds2)"
    using vt_rep_dec [of "s1\<lparr>vt_systime := vt_systime s1 + 1\<rparr>" vtp 0 ds2 "-1"] s1(2) by (simp add: ds1)
  have "remaining (a + b) es = map (\<lambda>(u, r). (u, r + a)) (remaining b es)" for a b and es :: "(tid \<times> u32) list"
    by (induction b es rule: remaining.induct) (simp_all add: ac_simps)
  from this [of 4294967295 0 ds2] have rm: "remaining 0 ((vtp, -1) # ds2) =
      (vtp, 4294967295) # map (\<lambda>(u, r). (u, r + 4294967295)) (filter (\<lambda>(u, _). u \<noteq> vtp) (remaining 0 ds))"
    by (simp add: R2 unsigned_minus_1_eq_mask mask_eq_exp_minus_1)
  have "vtimers.more ?s' = vtimers.more s" using s1(8) by simp
  then show ?thesis using s1(1) t r rm by blast
qed

theorem timer_of_delay_0_stalls_timers_witness:
  "\<exists>s0 s1 s' ds'. chVTSetI 0x300 20 CHR ''a'' 1 (no_timers []) = Some s0 \<and> chVTSetI 0x200 0 CHR ''w'' 42 s0 = Some s1
    \<and> chVTDoTickI (quiet trace) s1 = Some s' \<and> vtimers.more s' = [] \<and> vt_rep s' ds'
    \<and> remaining 0 ds' = [(0x200, 4294967295), (0x300, 4294967315)]"
proof -
  obtain s0 ds0 where s0: "chVTSetI 0x300 20 CHR ''a'' 1 (no_timers []) = Some s0" "vt_rep s0 ds0"
    "remaining 0 ds0 = insert_deadline 0x300 (unat (20 :: u32)) (filter (\<lambda>(u, _). u \<noteq> 0x300) (remaining 0 []))"
    "vtlist s0 = 0x100" "vtimers.more s0 = ([] :: (char \<times> u32) list)"
    by (rule chVTSetI_refines [OF no_timers_rep(1,4), of "0x300" "[] :: (char \<times> u32) list" 20 "CHR ''a''" 1])
      (auto simp: no_timers_rep)
  have "remaining 0 ds0 = [(0x300, 20)]" using s0(3) by (simp add: insert_deadline_def)
  moreover from this have "vt_live ds0" by (simp add: vt_live_def)
  ultimately show ?thesis
    using timer_of_delay_0_stalls_timers [OF s0(2), of "0x200" "CHR ''w''" 42 "quiet trace"] s0
    by (auto simp: no_timers_rep)
qed

end
