(* ===== verification/Arduino_IO.thy ===== *)
theory Arduino_IO
  imports LTC_Prelude
begin

text \<open>
  The pins of the Arduino interface: \<^verbatim>\<open>arduino-io.c\<close>, \<^verbatim>\<open>arduino-pwm.c\<close>, \<^verbatim>\<open>arduino-irqs.c\<close>, \<^verbatim>\<open>arduino-tone.c\<close>,
  \<^verbatim>\<open>lptmr.c\<close>, the pad driver \<^verbatim>\<open>KL02x/pal_lld.c\<close> and the pad table of the board.  The configuration
  registers of the ports are part of the state; writes to the set, clear and toggle registers and calls
  of other drivers are logged in order.  The lemmas show which pads a user program can reach, what the
  software PWM puts out, and what a mode that was set reads back as.
\<close>

unbundle bit_operations_syntax

section \<open>Ports and pad modes (pal_lld.c)\<close>

datatype ioport = IOPORT1 | IOPORT2 | IOPORT3 | IOPORT4 | IOPORT5

datatype hw_version = PVT1C | PVT1E

type_synonym iomode_t = u32

abbreviation (input) PAL_MODE_RESET :: iomode_t where "PAL_MODE_RESET \<equiv> 0"
abbreviation (input) PAL_MODE_UNCONNECTED :: iomode_t where "PAL_MODE_UNCONNECTED \<equiv> 1"
abbreviation (input) PAL_MODE_INPUT :: iomode_t where "PAL_MODE_INPUT \<equiv> 2"
abbreviation (input) PAL_MODE_INPUT_PULLUP :: iomode_t where "PAL_MODE_INPUT_PULLUP \<equiv> 3"
abbreviation (input) PAL_MODE_INPUT_PULLDOWN :: iomode_t where "PAL_MODE_INPUT_PULLDOWN \<equiv> 4"
abbreviation (input) PAL_MODE_INPUT_ANALOG :: iomode_t where "PAL_MODE_INPUT_ANALOG \<equiv> 5"
abbreviation (input) PAL_MODE_OUTPUT_PUSHPULL :: iomode_t where "PAL_MODE_OUTPUT_PUSHPULL \<equiv> 6"
abbreviation (input) PAL_MODE_ALTERNATIVE_1 :: iomode_t where "PAL_MODE_ALTERNATIVE_1 \<equiv> 0x10"
abbreviation (input) PAL_MODE_ALTERNATIVE_2 :: iomode_t where "PAL_MODE_ALTERNATIVE_2 \<equiv> 0x11"
abbreviation (input) PAL_MODE_ALTERNATIVE_3 :: iomode_t where "PAL_MODE_ALTERNATIVE_3 \<equiv> 0x12"
abbreviation (input) PAL_MODE_ALTERNATIVE_4 :: iomode_t where "PAL_MODE_ALTERNATIVE_4 \<equiv> 0x13"
abbreviation (input) PAL_MODE_ALTERNATIVE_5 :: iomode_t where "PAL_MODE_ALTERNATIVE_5 \<equiv> 0x14"
abbreviation (input) PAL_MODE_ALTERNATIVE_6 :: iomode_t where "PAL_MODE_ALTERNATIVE_6 \<equiv> 0x15"
abbreviation (input) PAL_MODE_ALTERNATIVE_7 :: iomode_t where "PAL_MODE_ALTERNATIVE_7 \<equiv> 0x16"

abbreviation (input) PCR_PE :: u32 where "PCR_PE \<equiv> 0x2"
abbreviation (input) PCR_PS :: u32 where "PCR_PS \<equiv> 0x1"
abbreviation (input) PCR_MUX_MASK :: u32 where "PCR_MUX_MASK \<equiv> 0x700"

definition PCR_MUX :: "u32 \<Rightarrow> u32" where
  "PCR_MUX x = push_bit 8 x AND PCR_MUX_MASK"

text \<open>Handlers of interrupts: the software PWM's own, or one of the user program.\<close>

datatype handler = SoftPwmTick | UserHandler u32

datatype io_reg =
    SPI0_C1 | SPI0_BR | SPI0_S | SPI0_D | SIM_SCGC4 | SIM_SCGC5
  | LPTMR0_CSR | LPTMR0_PSR | LPTMR0_CMR
  | MCG_C1 | MCG_C2 | MCG_SC | MCG_ATCVH | MCG_ATCVL

text \<open>\<open>OrReg\<close> is a read-modify-write that sets bits, \<open>WaitClear\<close> a loop until bits read as zero.\<close>

datatype io_event =
    PSOR ioport u32 | PCOR ioport u32 | PTOR ioport u32
  | Writeb u8 io_reg | Writel u32 io_reg | Readb io_reg | OrReg u32 io_reg | WaitClear u8 io_reg
  | PwmStart nat | PwmEnableChannel nat nat u32
  | SdStop | SdStart u32 | NvicEnable int | NvicDisable int
  | VTSetStopTone u32 int | CallHook

record io =
  PDDR :: "ioport \<Rightarrow> u32"
  PDIR :: "ioport \<Rightarrow> u32"
  PCR :: "ioport \<Rightarrow> nat \<Rightarrow> u32"
  sudo_mode :: bool
  analog_read_resolution :: u8
  soft_pwm0 :: int
  soft_pwm1 :: int
  soft_pwm_counter :: u16
  soft_pwm_running :: bool
  soft_pwm_hook :: bool
  pwm_ready :: "nat \<Rightarrow> bool"
  isr :: "int \<Rightarrow> handler option"
  fast_isr :: "int \<Rightarrow> handler option"
  lptmr_enabled :: bool
  lptmr_running :: bool
  lptmr_port :: ioport
  lptmr_pad :: nat
  lptmr_rate :: u32
  io_log :: "io_event list"

definition emit :: "io_event list \<Rightarrow> io \<Rightarrow> io" where
  "emit es s = s\<lparr>io_log := io_log s @ es\<rparr>"

text \<open>The value of the control register a mode stands for; \<open>None\<close> where the switch has no case.\<close>

definition pcr_of_mode :: "iomode_t \<Rightarrow> u32 option" where
  "pcr_of_mode mode =
     (if mode = PAL_MODE_RESET \<or> mode = PAL_MODE_INPUT \<or> mode = PAL_MODE_OUTPUT_PUSHPULL
      then Some (PCR_MUX 1)
      else if mode = PAL_MODE_INPUT_PULLUP then Some (PCR_MUX 1 OR PCR_PE OR PCR_PS)
      else if mode = PAL_MODE_INPUT_PULLDOWN then Some (PCR_MUX 1 OR PCR_PE)
      else if mode = PAL_MODE_UNCONNECTED \<or> mode = PAL_MODE_INPUT_ANALOG then Some (PCR_MUX 0)
      else if mode = PAL_MODE_ALTERNATIVE_1 then Some (PCR_MUX 1)
      else if mode = PAL_MODE_ALTERNATIVE_2 then Some (PCR_MUX 2)
      else if mode = PAL_MODE_ALTERNATIVE_3 then Some (PCR_MUX 3)
      else if mode = PAL_MODE_ALTERNATIVE_4 then Some (PCR_MUX 4)
      else if mode = PAL_MODE_ALTERNATIVE_5 then Some (PCR_MUX 5)
      else if mode = PAL_MODE_ALTERNATIVE_6 then Some (PCR_MUX 6)
      else if mode = PAL_MODE_ALTERNATIVE_7 then Some (PCR_MUX 7)
      else None)"

definition palSetPadMode :: "ioport \<Rightarrow> nat \<Rightarrow> iomode_t \<Rightarrow> io \<Rightarrow> io" where
  "palSetPadMode port pad mode s =
     (let ddr = (if mode = PAL_MODE_OUTPUT_PUSHPULL
                 then PDDR s port OR push_bit pad 1
                 else PDDR s port AND NOT (push_bit pad 1));
          s = s\<lparr>PDDR := (PDDR s)(port := ddr)\<rparr>
      in case pcr_of_mode mode of
           None \<Rightarrow> s
         | Some v \<Rightarrow> s\<lparr>PCR := (PCR s)(port := (PCR s port)(pad := v))\<rparr>)"

definition palWritePad :: "ioport \<Rightarrow> nat \<Rightarrow> bool \<Rightarrow> io \<Rightarrow> io" where
  "palWritePad port pad high s =
     emit [if high then PSOR port (push_bit pad 1) else PCOR port (push_bit pad 1)] s"

definition palReadPad :: "ioport \<Rightarrow> nat \<Rightarrow> io \<Rightarrow> bool" where
  "palReadPad port pad s \<longleftrightarrow> PDIR s port AND push_bit pad 1 \<noteq> 0"

definition palTogglePad :: "ioport \<Rightarrow> nat \<Rightarrow> io \<Rightarrow> io" where
  "palTogglePad port pad s = emit [PTOR port (push_bit pad 1)] s"

text \<open>The pad table of the board and its installation at start-up.\<close>

definition pal_default_config :: "hw_version \<Rightarrow> ioport \<Rightarrow> nat \<Rightarrow> iomode_t" where
  "pal_default_config hw port pad =
     (case port of
        IOPORT1 \<Rightarrow>
          if pad \<in> {0, 1, 2} then PAL_MODE_ALTERNATIVE_3
          else if pad \<in> {5, 6} then PAL_MODE_OUTPUT_PUSHPULL
          else if pad = 7 then PAL_MODE_INPUT
          else if pad \<in> {8, 9, 12} then PAL_MODE_INPUT_ANALOG
          else PAL_MODE_UNCONNECTED
      | IOPORT2 \<Rightarrow>
          if pad \<in> {0, 7} then PAL_MODE_INPUT
          else if pad \<in> {1, 2, 6} then PAL_MODE_OUTPUT_PUSHPULL
          else if pad = 3 then (case hw of PVT1C \<Rightarrow> PAL_MODE_UNCONNECTED | PVT1E \<Rightarrow> PAL_MODE_INPUT)
          else if pad = 4 then (case hw of PVT1C \<Rightarrow> PAL_MODE_INPUT_ANALOG | PVT1E \<Rightarrow> PAL_MODE_UNCONNECTED)
          else if pad \<in> {5, 10, 11, 13} then PAL_MODE_INPUT_ANALOG
          else PAL_MODE_UNCONNECTED
      | _ \<Rightarrow> PAL_MODE_UNCONNECTED)"

definition pal_lld_init :: "(ioport \<Rightarrow> nat \<Rightarrow> iomode_t) \<Rightarrow> io \<Rightarrow> io" where
  "pal_lld_init config s =
     fold (\<lambda>port s. fold (\<lambda>j s. palSetPadMode port j (config port j) s) [0..<32] s) [IOPORT1, IOPORT2] s"

section \<open>Pins (arduino-io.c)\<close>

definition palGetPadMode :: "ioport \<Rightarrow> nat \<Rightarrow> io \<Rightarrow> u32" where
  "palGetPadMode port pad s =
     (if port \<noteq> IOPORT1 \<and> port \<noteq> IOPORT2 then -1
      else
        let mux = PCR s port pad AND PCR_MUX_MASK
        in if mux = PCR_MUX 0 then PAL_MODE_INPUT_ANALOG
           else if mux = PCR_MUX 2 then PAL_MODE_ALTERNATIVE_2
           else if mux = PCR_MUX 3 then PAL_MODE_ALTERNATIVE_3
           else if mux = PCR_MUX 4 then PAL_MODE_ALTERNATIVE_4
           else if mux = PCR_MUX 5 then PAL_MODE_ALTERNATIVE_5
           else if mux = PCR_MUX 6 then PAL_MODE_ALTERNATIVE_6
           else if mux = PCR_MUX 7 then PAL_MODE_ALTERNATIVE_7
           else if mux = PCR_MUX 1 then
             if PDDR s port AND push_bit pad 1 \<noteq> 0 then PAL_MODE_OUTPUT_PUSHPULL
             else if PCR s port pad AND (PCR_PE OR PCR_PS) = PCR_PE OR PCR_PS
             then PAL_MODE_INPUT_PULLUP
             else PAL_MODE_INPUT
           else PAL_MODE_UNCONNECTED)"

definition PTA :: "int \<Rightarrow> int" where "PTA x = 0x40 OR x"
definition PTB :: "int \<Rightarrow> int" where "PTB x = 0x40 OR (32 + x)"

abbreviation (input) A4 :: int where "A4 \<equiv> 0x84"
abbreviation (input) A5 :: int where "A5 \<equiv> 0x85"
abbreviation (input) D4 :: int where "D4 \<equiv> 0xa4"
abbreviation (input) D5 :: int where "D5 \<equiv> 0xa5"
abbreviation (input) LED_BUILTIN :: int where "LED_BUILTIN \<equiv> 32"
abbreviation (input) LED_BUILTIN_RGB :: int where "LED_BUILTIN_RGB \<equiv> 33"
abbreviation (input) LED_BUILTIN_RED :: int where "LED_BUILTIN_RED \<equiv> 34"
abbreviation (input) LED_BUILTIN_GREEN :: int where "LED_BUILTIN_GREEN \<equiv> 35"
abbreviation (input) AUDIO_IN :: int where "AUDIO_IN \<equiv> 36"
abbreviation (input) UART_TX :: int where "UART_TX \<equiv> 37"
abbreviation (input) UART_RX :: int where "UART_RX \<equiv> 38"
abbreviation (input) SWD_CLK :: int where "SWD_CLK \<equiv> 39"
abbreviation (input) SWD_DIO :: int where "SWD_DIO \<equiv> 40"
abbreviation (input) RST_LEVEL :: int where "RST_LEVEL \<equiv> 41"

definition canonicalizePin :: "hw_version \<Rightarrow> int \<Rightarrow> int" where
  "canonicalizePin hw pin =
     (let masked_pin = (if pin AND 0xf0 = 0xa0 then pin AND NOT 0xf0 else pin);
          masked_pin = (if masked_pin AND 0xf0 = 0x80 then masked_pin AND NOT 0xf0 else masked_pin)
      in if masked_pin \<in> {PTB 10, PTA 8, LED_BUILTIN, 0} then 0
         else if masked_pin \<in> {PTB 11, PTA 9, 1} then 1
         else if masked_pin \<in> {PTA 12, 2} then 2
         else if masked_pin \<in> {PTB 13, (case hw of PVT1C \<Rightarrow> PTB 4 | PVT1E \<Rightarrow> PTB 3), 3} then 3
         else if masked_pin \<in> {PTB 0, 4} then 4
         else if masked_pin \<in> {PTA 7, 5} then 5
         else if masked_pin = PTA 5 then LED_BUILTIN_RED
         else if masked_pin = PTA 6 then LED_BUILTIN_RGB
         else if masked_pin = PTB 6 then LED_BUILTIN_GREEN
         else if masked_pin = PTB 5 then AUDIO_IN
         else if masked_pin = PTB 2 then UART_TX
         else if masked_pin = PTB 1 then UART_RX
         else if masked_pin = PTA 0 then SWD_CLK
         else if masked_pin = PTA 2 then SWD_DIO
         else if masked_pin = PTB 7 then RST_LEVEL
         else pin)"

text \<open>\<open>None\<close> is the return value -1.\<close>

definition pinToPort :: "hw_version \<Rightarrow> int \<Rightarrow> (ioport \<times> nat) option" where
  "pinToPort hw pin =
     (let c = canonicalizePin hw pin
      in if c = 0 then Some (IOPORT2, 10)
         else if c = 1 then Some (IOPORT2, 11)
         else if c = 2 then Some (IOPORT1, 12)
         else if c = 3 then Some (IOPORT2, 13)
         else if c = 4 then Some (IOPORT2, 0)
         else if c = 5 then Some (IOPORT1, 7)
         else if c = LED_BUILTIN_RGB then Some (IOPORT1, 6)
         else if c = UART_TX then Some (IOPORT2, 2)
         else if c = UART_RX then Some (IOPORT2, 1)
         else if c = SWD_CLK then Some (IOPORT1, 0)
         else if c = SWD_DIO then Some (IOPORT1, 2)
         else if c = LED_BUILTIN_RED then Some (IOPORT1, 5)
         else if c = LED_BUILTIN_GREEN then Some (IOPORT2, 6)
         else if c = AUDIO_IN then Some (IOPORT2, 5)
         else if c = RST_LEVEL then Some (IOPORT2, 7)
         else if pin AND 0xf0 = 0x40 then Some (IOPORT1, nat (pin AND 0x1f))
         else if pin AND 0xf0 = 0x60 then Some (IOPORT2, nat (pin AND 0x1f))
         else None)"

definition normal_mode_pins :: "int list" where
  "normal_mode_pins = [0, 1, 2, 3, 4, 5]"

definition canUsePin :: "hw_version \<Rightarrow> int \<Rightarrow> io \<Rightarrow> bool" where
  "canUsePin hw pin s \<longleftrightarrow> sudo_mode s \<or> canonicalizePin hw pin \<in> set normal_mode_pins"

datatype pin_mode = INPUT | OUTPUT | INPUT_PULLUP | INPUT_PULLDOWN

definition disconnect_alternate :: "hw_version \<Rightarrow> int \<Rightarrow> io \<Rightarrow> io" where
  "disconnect_alternate hw pin s =
     (if pin = 0 then palSetPadMode IOPORT1 8 PAL_MODE_UNCONNECTED s
      else if pin = 1 then palSetPadMode IOPORT1 9 PAL_MODE_UNCONNECTED s
      else if pin = 3 then
        palSetPadMode IOPORT2 (case hw of PVT1C \<Rightarrow> 4 | PVT1E \<Rightarrow> 3) PAL_MODE_UNCONNECTED s
      else s)"

fun pal_mode_of :: "pin_mode \<Rightarrow> iomode_t" where
  "pal_mode_of INPUT_PULLUP = PAL_MODE_INPUT_PULLUP"
| "pal_mode_of INPUT_PULLDOWN = PAL_MODE_INPUT_PULLDOWN"
| "pal_mode_of INPUT = PAL_MODE_INPUT"
| "pal_mode_of OUTPUT = PAL_MODE_OUTPUT_PUSHPULL"

definition pinMode :: "hw_version \<Rightarrow> int \<Rightarrow> pin_mode \<Rightarrow> io \<Rightarrow> io" where
  "pinMode hw pin0 arduino_mode s =
     (let pin = canonicalizePin hw pin0
      in case pinToPort hw pin of
           None \<Rightarrow> s
         | Some (port, pad) \<Rightarrow>
           if \<not> canUsePin hw pin s then s
           else palSetPadMode port pad (pal_mode_of arduino_mode) (disconnect_alternate hw pin s))"

definition digitalWrite :: "hw_version \<Rightarrow> int \<Rightarrow> int \<Rightarrow> io \<Rightarrow> io" where
  "digitalWrite hw pin v s =
     (case pinToPort hw pin of
        None \<Rightarrow> s
      | Some (port, pad) \<Rightarrow>
        if \<not> canUsePin hw pin s then s
        else
          let mode = palGetPadMode port pad s
          in if mode = PAL_MODE_INPUT_PULLDOWN \<or> mode = PAL_MODE_INPUT \<or> mode = PAL_MODE_INPUT_PULLUP
             then palSetPadMode port pad (if v \<noteq> 0 then PAL_MODE_INPUT_PULLUP else PAL_MODE_INPUT) s
             else
               let s = (if mode = PAL_MODE_ALTERNATIVE_2
                        then palSetPadMode port pad PAL_MODE_OUTPUT_PUSHPULL s else s);
                   s = (if pin = D4 \<or> pin = A4 \<or> pin = 4 then s\<lparr>soft_pwm0 := -1\<rparr> else s);
                   s = (if pin = D5 \<or> pin = A5 \<or> pin = 5 then s\<lparr>soft_pwm1 := -1\<rparr> else s)
               in palWritePad port pad (v \<noteq> 0) s)"

text \<open>\<^verbatim>\<open>HIGH\<close> and \<^verbatim>\<open>LOW\<close> are enumerators of \<^verbatim>\<open>irq_mode\<close>: 4 and 0.\<close>

definition digitalRead :: "hw_version \<Rightarrow> int \<Rightarrow> io \<Rightarrow> int \<times> io" where
  "digitalRead hw pin s =
     (case pinToPort hw pin of
        None \<Rightarrow> (0, s)
      | Some (port, pad) \<Rightarrow>
        let mode = palGetPadMode port pad s
        in if mode = PAL_MODE_INPUT_ANALOG \<or> mode = PAL_MODE_INPUT \<or> mode = PAL_MODE_INPUT_PULLUP \<or>
              mode = PAL_MODE_INPUT_PULLDOWN
           then
             let s = (if mode = PAL_MODE_INPUT_ANALOG then palSetPadMode port pad PAL_MODE_INPUT s else s)
             in if \<not> canUsePin hw pin s then (0, s)
                else (if palReadPad port pad s then 4 else 0, s)
           else (0, s))"

datatype adc_chan =
    ADC_AD6 | ADC_AD7 | ADC_AD8 | ADC_AD9 | ADC_AD13 | ADC_DAD0 | ADC_DAD1
  | ADC_TEMP_SENSOR | ADC_BANDGAP | ADC_VREFSH | ADC_VREFSL

definition pin_to_adc :: "hw_version \<Rightarrow> int \<Rightarrow> adc_chan option" where
  "pin_to_adc hw pin =
     (let c = canonicalizePin hw pin
      in if c = 0 then Some ADC_AD9
         else if c = 1 then Some ADC_AD8
         else if c = 2 then Some ADC_DAD0
         else if c = 3 then Some ADC_AD13
         else if c = 4 then Some ADC_AD6
         else if c = 5 then Some ADC_AD7
         else if c = 0x86 then Some ADC_TEMP_SENSOR
         else if c = 0x87 then Some ADC_BANDGAP
         else if c = 0x88 then Some ADC_VREFSH
         else if c = 0x89 then Some ADC_VREFSL
         else if c = 0x8a then Some ADC_DAD1
         else None)"

definition analogReadResolution :: "int \<Rightarrow> io \<Rightarrow> io" where
  "analogReadResolution bits s =
     (if bits < 0 \<or> bits > 31 then s else s\<lparr>analog_read_resolution := word_of_int bits\<rparr>)"

text \<open>Scaling a 12-bit conversion to the requested resolution, in 16 bits.\<close>

definition scale_sample :: "u8 \<Rightarrow> u16 \<Rightarrow> u16" where
  "scale_sample res smp =
     (if res > 12 then push_bit (unat res - 12) smp
      else if res < 12 then drop_bit (12 - unat res) smp
      else smp)"

text \<open>\<open>adcConvert\<close>, the converter driver, is an argument: its result code and sample.\<close>

definition analogRead :: "hw_version \<Rightarrow> (adc_chan \<Rightarrow> u32 \<times> u16) \<Rightarrow> int \<Rightarrow> io \<Rightarrow> int \<times> io" where
  "analogRead hw adcConvert pin s =
     (let convert = (\<lambda>s. case pin_to_adc hw pin of
                None \<Rightarrow> (0, s)
              | Some adc_num \<Rightarrow>
                let (result, smp) = adcConvert adc_num;
                    smp = (if result \<noteq> 0 then 0 else smp)
                in (uint (scale_sample (analog_read_resolution s) smp), s))
      in case pinToPort hw pin of
           None \<Rightarrow> convert s
         | Some (port, pad) \<Rightarrow>
           let mode = palGetPadMode port pad s
           in if mode = PAL_MODE_INPUT \<or> mode = PAL_MODE_INPUT_PULLUP \<or> mode = PAL_MODE_INPUT_PULLDOWN
              then convert (palSetPadMode port pad PAL_MODE_INPUT_ANALOG s)
              else if mode = PAL_MODE_INPUT_ANALOG then convert s
              else (0, s))"

definition doSudo :: "io \<Rightarrow> io" where
  "doSudo s = s\<lparr>sudo_mode := True\<rparr>"

text \<open>\<^verbatim>\<open>pinToPort\<close> cannot fail for the two serial pins.\<close>

definition set_uart_pad :: "hw_version \<Rightarrow> int \<Rightarrow> io \<Rightarrow> io" where
  "set_uart_pad hw pin s =
     (case pinToPort hw pin of
        None \<Rightarrow> s
      | Some (port, pad) \<Rightarrow> palSetPadMode port pad PAL_MODE_ALTERNATIVE_3 s)"

definition setSerialSpeed :: "hw_version \<Rightarrow> u32 \<Rightarrow> io \<Rightarrow> io" where
  "setSerialSpeed hw speed s =
     emit [SdStart speed] (set_uart_pad hw UART_RX (set_uart_pad hw UART_TX (emit [SdStop] s)))"

section \<open>Interrupts (arduino-irqs.c)\<close>

abbreviation (input) SPI_IRQ :: int where "SPI_IRQ \<equiv> 10"
abbreviation (input) SERIAL_IRQ :: int where "SERIAL_IRQ \<equiv> 12"

text \<open>\<^verbatim>\<open>PMC\<close>, \<^verbatim>\<open>I2C0\<close>, \<^verbatim>\<open>I2C\<close>, \<^verbatim>\<open>SPI\<close>, \<^verbatim>\<open>SERIAL\<close>, \<^verbatim>\<open>ADC\<close>, \<^verbatim>\<open>PWM0\<close>, \<^verbatim>\<open>PWM1\<close>, \<^verbatim>\<open>LPTMR\<close>, \<^verbatim>\<open>PORTA\<close>, \<^verbatim>\<open>PORTB\<close>; the fast handlers
  have no case for the serial port.\<close>

definition irq_numbers :: "int list" where
  "irq_numbers = [6, 8, 9, SPI_IRQ, SERIAL_IRQ, 15, 17, 18, 28, 30, 31]"

definition attachInterrupt :: "int \<Rightarrow> handler option \<Rightarrow> io \<Rightarrow> io" where
  "attachInterrupt irq func s =
     (if irq \<in> set irq_numbers then s\<lparr>isr := (isr s)(irq := func)\<rparr> else s)"

definition detachInterrupt :: "int \<Rightarrow> io \<Rightarrow> io" where
  "detachInterrupt irq s = attachInterrupt irq None s"

definition attachFastInterrupt :: "int \<Rightarrow> handler option \<Rightarrow> io \<Rightarrow> io" where
  "attachFastInterrupt irq func s =
     (if irq \<in> set irq_numbers \<and> irq \<noteq> SERIAL_IRQ then s\<lparr>fast_isr := (fast_isr s)(irq := func)\<rparr> else s)"

definition detachFastInterrupt :: "int \<Rightarrow> io \<Rightarrow> io" where
  "detachFastInterrupt irq s = attachFastInterrupt irq None s"

text \<open>For an invalid pin \<^verbatim>\<open>port\<close> is left uninitialised: \<open>garbage\<close> is its value.\<close>

definition digitalPinToInterrupt :: "hw_version \<Rightarrow> ioport \<Rightarrow> int \<Rightarrow> int" where
  "digitalPinToInterrupt hw garbage pin =
     (let port = (case pinToPort hw pin of None \<Rightarrow> garbage | Some (port, pad) \<Rightarrow> port)
      in if port = IOPORT1 then 30 else if port = IOPORT2 then 31 else -1)"

text \<open>The vectors for SPI, I2C and PMC: the handlers called, in order, when fast handlers return \<open>ret\<close>.\<close>

definition irq_vector :: "(handler \<Rightarrow> int) \<Rightarrow> int \<Rightarrow> io \<Rightarrow> handler list" where
  "irq_vector ret irq s =
     (let slow = (case isr s irq of None \<Rightarrow> [] | Some h \<Rightarrow> [h])
      in case fast_isr s irq of
           None \<Rightarrow> slow
         | Some f \<Rightarrow> if ret f = 0 then [f] else f # slow)"

record nvic =
  SHP :: "nat \<Rightarrow> u32"
  IP :: "nat \<Rightarrow> u32"

definition prio_shift :: "int \<Rightarrow> nat" where
  "prio_shift irqn = unat ((word_of_int irqn :: u32) AND 3) * 8"

definition set_prio_byte :: "int \<Rightarrow> u32 \<Rightarrow> u32 \<Rightarrow> u32" where
  "set_prio_byte irqn priority w =
     (w AND NOT (push_bit (prio_shift irqn) 0xFF)) OR
     push_bit (prio_shift irqn) (push_bit 6 priority AND 0xFF)"

definition NVIC_SetPriority :: "int \<Rightarrow> u32 \<Rightarrow> nvic \<Rightarrow> nvic" where
  "NVIC_SetPriority irqn priority n =
     (if irqn < 0 then
        let i = unat (drop_bit 2 (((word_of_int irqn :: u32) AND 0xF) - 8))
        in n\<lparr>SHP := (SHP n)(i := set_prio_byte irqn priority (SHP n i))\<rparr>
      else
        let i = unat (drop_bit 2 (word_of_int irqn :: u32))
        in n\<lparr>IP := (IP n)(i := set_prio_byte irqn priority (IP n i))\<rparr>)"

section \<open>Pulse width modulation (arduino-pwm.c)\<close>

abbreviation (input) SOFT_PWM_CYCLE :: nat where "SOFT_PWM_CYCLE \<equiv> 64"
abbreviation (input) ARDUINO_MAX :: int where "ARDUINO_MAX \<equiv> 255"

text \<open>\<^verbatim>\<open>KINETIS_SYSCLK_FREQUENCY / 16 / (2 * ARDUINO_MAX)\<close>\<close>

definition PWM_PERIOD :: int where
  "PWM_PERIOD = 47972352 div 16 div (2 * 255)"

text \<open>One tick: the set and clear writes go to the fast aliases of the two ports.\<close>

definition softPwmTick :: "io \<Rightarrow> io" where
  "softPwmTick s =
     (if soft_pwm0 s = -1 \<and> soft_pwm1 s = -1 \<and> \<not> soft_pwm_hook s then
        (detachFastInterrupt SPI_IRQ (emit [Writeb 0 SPI0_C1, NvicDisable 10] s))\<lparr>soft_pwm_running := False\<rparr>
      else
        let s = (if uint (soft_pwm_counter s) = soft_pwm0 s then emit [PSOR IOPORT2 (push_bit 0 1)] s else s);
            s = (if uint (soft_pwm_counter s) = soft_pwm1 s then emit [PSOR IOPORT1 (push_bit 7 1)] s else s);
            s = s\<lparr>soft_pwm_counter := soft_pwm_counter s - 1\<rparr>;
            s = (if soft_pwm_counter s = 0
                 then emit [PCOR IOPORT1 (push_bit 7 1), PCOR IOPORT2 (push_bit 0 1)]
                        (s\<lparr>soft_pwm_counter := 64\<rparr>)
                 else s);
            s = (if soft_pwm_hook s then emit [CallHook] s else s)
        in emit [Readb SPI0_S, Writeb 0xff SPI0_D] s)"

definition soft_pwm_start :: "io \<Rightarrow> io" where
  "soft_pwm_start s =
     (if \<not> soft_pwm_running s then
        emit [OrReg 0x00400000 SIM_SCGC4, Writeb (0x40 OR 0x10 OR 0x20) SPI0_C1, Writeb 6 SPI0_BR, NvicEnable 10]
          (attachFastInterrupt SPI_IRQ (Some SoftPwmTick) (s\<lparr>soft_pwm_running := True\<rparr>))
      else s)"

definition clamp255 :: "int \<Rightarrow> int" where
  "clamp255 v = (let v = (if v > ARDUINO_MAX then ARDUINO_MAX else v) in if v < 0 then 0 else v)"

definition soft_pwm_value :: "int \<Rightarrow> int" where
  "soft_pwm_value v = (let p = c_div (v * 64) 256 in if v \<noteq> 0 \<and> p = 0 then 1 else p)"

definition hard_pwm :: "ioport \<Rightarrow> nat \<Rightarrow> nat \<Rightarrow> nat \<Rightarrow> int \<Rightarrow> io \<Rightarrow> io" where
  "hard_pwm port pad driver channel v s =
     (let s = palSetPadMode port pad PAL_MODE_ALTERNATIVE_2 s;
          s = (if \<not> pwm_ready s driver
               then emit [PwmStart driver] (s\<lparr>pwm_ready := (pwm_ready s)(driver := True)\<rparr>) else s)
      in emit [PwmEnableChannel driver channel (word_of_int (v * PWM_PERIOD div ARDUINO_MAX))] s)"

definition analogWrite :: "hw_version \<Rightarrow> int \<Rightarrow> int \<Rightarrow> io \<Rightarrow> io" where
  "analogWrite hw pin v s =
     (case pinToPort hw pin of
        None \<Rightarrow> s
      | Some (port, pad) \<Rightarrow>
        let mode = palGetPadMode port pad s; c = canonicalizePin hw pin; v = clamp255 v
        in if mode = PAL_MODE_INPUT \<or> mode = PAL_MODE_INPUT_PULLUP \<or>
              mode = PAL_MODE_INPUT_PULLDOWN \<or> mode = PAL_MODE_INPUT_ANALOG then s
           else if c = 0 then hard_pwm port pad 1 1 v (palSetPadMode IOPORT1 8 PAL_MODE_UNCONNECTED s)
           else if c = 1 then hard_pwm port pad 1 0 v (palSetPadMode IOPORT1 9 PAL_MODE_UNCONNECTED s)
           else if c = 2 then hard_pwm port pad 2 0 v s
           else if c = 3 then
             hard_pwm port pad 2 1 v
               (palSetPadMode IOPORT2 (case hw of PVT1C \<Rightarrow> 4 | PVT1E \<Rightarrow> 3) PAL_MODE_UNCONNECTED s)
           else if c = 4 then
             soft_pwm_start (palSetPadMode port pad PAL_MODE_OUTPUT_PUSHPULL (s\<lparr>soft_pwm0 := soft_pwm_value v\<rparr>))
           else if c = 5 then
             soft_pwm_start (palSetPadMode port pad PAL_MODE_OUTPUT_PUSHPULL (s\<lparr>soft_pwm1 := soft_pwm_value v\<rparr>))
           else s)"

definition hookSoftPwm :: "bool \<Rightarrow> io \<Rightarrow> io" where
  "hookSoftPwm hook s =
     (let s = s\<lparr>soft_pwm_hook := hook\<rparr> in if soft_pwm_hook s then soft_pwm_start s else s)"

section \<open>The low-power timer and tones (lptmr.c, arduino-tone.c)\<close>

abbreviation (input) CSR_TCF :: u32 where "CSR_TCF \<equiv> 0x80"
abbreviation (input) CSR_TIE :: u32 where "CSR_TIE \<equiv> 0x40"
abbreviation (input) CSR_TEN :: u32 where "CSR_TEN \<equiv> 0x01"

definition calibrate_irc :: "io \<Rightarrow> io" where
  "calibrate_irc s =
     (let expected_count = 21 * ((48000000 div 4) div 4000000) * 256 :: u32
      in emit [Writeb (ucast (drop_bit 8 expected_count AND 0xff)) MCG_ATCVH,
               Writeb (ucast (expected_count AND 0xff)) MCG_ATCVL,
               Writeb 0x40 MCG_SC, Writeb (0x40 OR 0x80) MCG_SC, WaitClear 0x80 MCG_SC] s)"

definition enableLptmr :: "io \<Rightarrow> io" where
  "enableLptmr s =
     (if lptmr_enabled s then s
      else
        let s = emit [OrReg 1 SIM_SCGC5, Writel 0 LPTMR0_CSR] s;
            s = calibrate_irc s
        in (emit [OrReg 1 MCG_C2, OrReg 2 MCG_C1, Writel (4 OR 0) LPTMR0_PSR, NvicEnable 28,
                  Writel CSR_TIE LPTMR0_CSR] s)\<lparr>lptmr_enabled := True\<rparr>)"

definition enableTimer :: "int \<Rightarrow> io \<Rightarrow> io" where
  "enableTimer timer_number s = (if timer_number = 1 then enableLptmr s else s)"

definition startLptmr :: "ioport \<Rightarrow> nat \<Rightarrow> u32 \<Rightarrow> io \<Rightarrow> io" where
  "startLptmr port pad rate_hz s =
     (if rate_hz = 0 then s
      else
        let s = enableLptmr (s\<lparr>lptmr_rate := 2000000 div rate_hz\<rparr>)
        in if \<not> lptmr_running s then
             emit [Writel (lptmr_rate s) LPTMR0_CMR, Writel (CSR_TIE OR CSR_TEN) LPTMR0_CSR]
               (s\<lparr>lptmr_running := True, lptmr_port := port, lptmr_pad := pad\<rparr>)
           else s)"

definition stopLptmr :: "io \<Rightarrow> io" where
  "stopLptmr s =
     (if \<not> lptmr_running s then s else emit [Writel 0 LPTMR0_CSR] (s\<lparr>lptmr_running := False\<rparr>))"

text \<open>The timer interrupt when neither user handler is installed.\<close>

definition lptmr_handler :: "io \<Rightarrow> io" where
  "lptmr_handler s =
     (if \<not> lptmr_running s then s
      else
        let s = palTogglePad (lptmr_port s) (lptmr_pad s) s
        in emit [Writel (lptmr_rate s) LPTMR0_CMR, Writel (CSR_TCF OR CSR_TIE OR CSR_TEN) LPTMR0_CSR] s)"

text \<open>\<^verbatim>\<open>MS2ST\<close> at 1000 ticks per second, in 32 bits.\<close>

definition MS2ST :: "u32 \<Rightarrow> u32" where
  "MS2ST msec = (msec * 1000 + 999) div 1000"

definition tone :: "hw_version \<Rightarrow> int \<Rightarrow> u32 \<Rightarrow> u32 \<Rightarrow> io \<Rightarrow> io" where
  "tone hw pin frequency duration s =
     (case pinToPort hw pin of
        None \<Rightarrow> s
      | Some (port, pad) \<Rightarrow>
        if frequency > 65536 then s
        else if \<not> canUsePin hw pin s then s
        else
          let s = palSetPadMode port pad PAL_MODE_OUTPUT_PUSHPULL s;
              s = startLptmr port pad frequency s
          in if duration \<noteq> 0 then emit [VTSetStopTone (MS2ST duration) pin] s else s)"

definition noTone :: "hw_version \<Rightarrow> int \<Rightarrow> io \<Rightarrow> io" where
  "noTone hw pin s = digitalWrite hw pin 0 (stopLptmr s)"

unbundle bit_operations_syntax

section \<open>Setting a mode and reading it back\<close>

lemma mask_pad_iff: "(w :: u32) AND push_bit n 1 \<noteq> 0 \<longleftrightarrow> bit w n"
  by (simp add: push_bit_of_1 and_exp_eq_0_iff_not_bit)

lemma bit_push_1: "bit (push_bit n 1 :: u32) k \<longleftrightarrow> k = n \<and> n < 32"
  by (auto simp: bit_simps)

text \<open>What \<open>palGetPadMode\<close> reports after a mode was set.\<close>

definition read_back :: "iomode_t \<Rightarrow> u32" where
  "read_back mode =
     (if mode = PAL_MODE_RESET \<or> mode = PAL_MODE_INPUT_PULLDOWN \<or> mode = PAL_MODE_ALTERNATIVE_1
      then PAL_MODE_INPUT
      else if mode = PAL_MODE_UNCONNECTED then PAL_MODE_INPUT_ANALOG
      else mode)"

definition known_modes :: "iomode_t list" where
  "known_modes = [0, 1, 2, 3, 4, 5, 6, 0x10, 0x11, 0x12, 0x13, 0x14, 0x15, 0x16]"

lemma PCR_MUX_values:
  "PCR_MUX 0 = 0" "PCR_MUX 1 = 0x100" "PCR_MUX 2 = 0x200" "PCR_MUX 3 = 0x300" "PCR_MUX 4 = 0x400"
  "PCR_MUX 5 = 0x500" "PCR_MUX 6 = 0x600" "PCR_MUX 7 = 0x700"
  by (simp_all add: PCR_MUX_def)

lemma palSetPadMode_simps:
  "PDDR (palSetPadMode port pad mode s) =
     (PDDR s)(port := if mode = PAL_MODE_OUTPUT_PUSHPULL then PDDR s port OR push_bit pad 1
                      else PDDR s port AND NOT (push_bit pad 1))"
  "PCR (palSetPadMode port pad mode s) =
     (case pcr_of_mode mode of None \<Rightarrow> PCR s | Some v \<Rightarrow> (PCR s)(port := (PCR s port)(pad := v)))"
  by (cases "pcr_of_mode mode"; simp add: palSetPadMode_def Let_def split del: if_split)+

lemma palGetPadMode_cong:
  assumes "PCR s port pad = PCR t port pad" "bit (PDDR s port) pad = bit (PDDR t port) pad"
  shows "palGetPadMode port pad s = palGetPadMode port pad t"
  unfolding palGetPadMode_def Let_def mask_pad_iff assms ..

lemma getmode_setmode:
  assumes "port = IOPORT1 \<or> port = IOPORT2" "pad < 32" "mode \<in> set known_modes"
  shows "palGetPadMode port pad (palSetPadMode port pad mode s) = read_back mode"
proof -
  have d: "bit (PDDR (palSetPadMode port pad mode s) port) pad \<longleftrightarrow> mode = PAL_MODE_OUTPUT_PUSHPULL"
    using assms(2) by (simp add: palSetPadMode_simps bit_simps)
  show ?thesis
    using assms(1,3) unfolding palGetPadMode_def Let_def mask_pad_iff d
    by (auto simp: known_modes_def palSetPadMode_simps pcr_of_mode_def PCR_MUX_values read_back_def)
qed

section \<open>What a user program can reach\<close>

text \<open>The pads of the six user pins and of the alternates that are tied to them.\<close>

definition user_pads :: "hw_version \<Rightarrow> (ioport \<times> nat) set" where
  "user_pads hw =
     {(IOPORT2, 10), (IOPORT2, 11), (IOPORT1, 12), (IOPORT2, 13), (IOPORT2, 0), (IOPORT1, 7),
      (IOPORT1, 8), (IOPORT1, 9), (IOPORT2, case hw of PVT1C \<Rightarrow> 4 | PVT1E \<Rightarrow> 3)}"

fun touches :: "ioport \<Rightarrow> nat \<Rightarrow> io_event \<Rightarrow> bool" where
  "touches port pad (PSOR p w) \<longleftrightarrow> p = port \<and> bit w pad"
| "touches port pad (PCOR p w) \<longleftrightarrow> p = port \<and> bit w pad"
| "touches port pad (PTOR p w) \<longleftrightarrow> p = port \<and> bit w pad"
| "touches _ _ _ \<longleftrightarrow> False"

definition pad_config :: "io \<Rightarrow> ioport \<Rightarrow> nat \<Rightarrow> u32 \<times> bool" where
  "pad_config s port pad = (PCR s port pad, bit (PDDR s port) pad)"

text \<open>Only the given pads were reconfigured or driven between two states.\<close>

definition confined :: "(ioport \<times> nat) set \<Rightarrow> io \<Rightarrow> io \<Rightarrow> bool" where
  "confined A s s' \<longleftrightarrow>
     (\<forall>port pad. (port, pad) \<notin> A \<longrightarrow> pad_config s' port pad = pad_config s port pad) \<and>
     (\<exists>es. io_log s' = io_log s @ es \<and>
       (\<forall>e port pad. e \<in> set es \<longrightarrow> touches port pad e \<longrightarrow> (port, pad) \<in> A))"

lemma confined_refl: "confined A s s"
  by (simp add: confined_def)

lemma confined_trans: "confined A s t \<Longrightarrow> confined A t u \<Longrightarrow> confined A s u"
  unfolding confined_def
proof (elim conjE exE, intro conjI)
  fix es fs
  assume "io_log t = io_log s @ es" "io_log u = io_log t @ fs"
    "\<forall>e port pad. e \<in> set es \<longrightarrow> touches port pad e \<longrightarrow> (port, pad) \<in> A"
    "\<forall>e port pad. e \<in> set fs \<longrightarrow> touches port pad e \<longrightarrow> (port, pad) \<in> A"
  then show "\<exists>es. io_log u = io_log s @ es \<and>
      (\<forall>e port pad. e \<in> set es \<longrightarrow> touches port pad e \<longrightarrow> (port, pad) \<in> A)"
    by (intro exI [of _ "es @ fs"]) auto
qed simp

lemma confined_same:
  "PCR s' = PCR s \<Longrightarrow> PDDR s' = PDDR s \<Longrightarrow> io_log s' = io_log s \<Longrightarrow> confined A s s'"
  by (simp add: confined_def pad_config_def)

lemma confined_emit:
  "(\<And>e port pad. e \<in> set es \<Longrightarrow> touches port pad e \<Longrightarrow> (port, pad) \<in> A) \<Longrightarrow> confined A s (emit es s)"
  by (auto simp: confined_def pad_config_def emit_def)

lemma confined_setmode:
  assumes "(port, pad) \<in> A"
  shows "confined A s (palSetPadMode port pad mode s)"
proof -
  have "pad_config (palSetPadMode port pad mode s) p q = pad_config s p q" if "(p, q) \<noteq> (port, pad)" for p q
    using that by (cases "p = port"; cases "pcr_of_mode mode")
      (auto simp: pad_config_def palSetPadMode_simps bit_simps dest: bit_imp_le_length)
  moreover have "io_log (palSetPadMode port pad mode s) = io_log s"
    by (cases "pcr_of_mode mode") (simp_all add: palSetPadMode_def Let_def)
  ultimately show ?thesis using assms unfolding confined_def by force
qed

text \<open>The invariant of a device in normal mode: a running tone drives a user pad.\<close>

definition io_inv :: "hw_version \<Rightarrow> io \<Rightarrow> bool" where
  "io_inv hw s \<longleftrightarrow> \<not> sudo_mode s \<and> (lptmr_running s \<longrightarrow> (lptmr_port s, lptmr_pad s) \<in> user_pads hw)"

definition keeps :: "hw_version \<Rightarrow> io \<Rightarrow> io \<Rightarrow> bool" where
  "keeps hw s t \<longleftrightarrow> confined (user_pads hw) s t \<and> io_inv hw t"

named_theorems keeps_intros

lemma keeps_refl [keeps_intros]: "io_inv hw s \<Longrightarrow> keeps hw s s"
  by (simp add: keeps_def confined_refl)

lemma keeps_trans: "keeps hw s t \<Longrightarrow> keeps hw t u \<Longrightarrow> keeps hw s u"
  unfolding keeps_def using confined_trans by blast

lemma palSetPadMode_io_inv [simp]: "io_inv hw (palSetPadMode port pad mode s) = io_inv hw s"
  by (cases "pcr_of_mode mode") (simp_all add: palSetPadMode_def Let_def io_inv_def)

lemma emit_io_inv [simp]: "io_inv hw (emit es s) = io_inv hw s"
  by (simp add: emit_def io_inv_def)

lemma keeps_setmode [keeps_intros]:
  "keeps hw s t \<Longrightarrow> (port, pad) \<in> user_pads hw \<Longrightarrow> keeps hw s (palSetPadMode port pad mode t)"
  unfolding keeps_def using confined_setmode confined_trans by (simp, blast)

definition user_event :: "hw_version \<Rightarrow> io_event \<Rightarrow> bool" where
  "user_event hw e \<longleftrightarrow> (\<forall>port pad. touches port pad e \<longrightarrow> (port, pad) \<in> user_pads hw)"

lemma user_event_simps [simp]:
  "user_event hw (Writeb a r)" "user_event hw (Writel b r)" "user_event hw (Readb r)" "user_event hw (OrReg b r)"
  "user_event hw (WaitClear a r)" "user_event hw (PwmStart n)" "user_event hw (PwmEnableChannel n c w)"
  "user_event hw (NvicEnable i)" "user_event hw (NvicDisable i)" "user_event hw (VTSetStopTone w i)" "user_event hw CallHook"
  by (simp_all add: user_event_def)

lemma user_event_pad:
  assumes "(port, pad) \<in> user_pads hw"
  shows "user_event hw (PSOR port (2 ^ pad))" "user_event hw (PCOR port (2 ^ pad))" "user_event hw (PTOR port (2 ^ pad))"
  using assms unfolding user_event_def touches.simps by (auto simp: bit_simps)

lemma keeps_emit [keeps_intros]: "keeps hw s t \<Longrightarrow> \<forall>e \<in> set es. user_event hw e \<Longrightarrow> keeps hw s (emit es t)"
  unfolding keeps_def user_event_def using confined_emit [of es "user_pads hw" t] confined_trans by (simp, blast)

lemma keeps_same:
  "keeps hw s t \<Longrightarrow> PCR u = PCR t \<Longrightarrow> PDDR u = PDDR t \<Longrightarrow> io_log u = io_log t \<Longrightarrow> io_inv hw u \<Longrightarrow> keeps hw s u"
  unfolding keeps_def using confined_same confined_trans by blast

lemma keeps_inv: "keeps hw s t \<Longrightarrow> io_inv hw t"
  by (simp add: keeps_def)

lemma keeps_fields [keeps_intros]:
  assumes "keeps hw s t"
  shows "keeps hw s (t\<lparr>soft_pwm0 := v\<rparr>)" "keeps hw s (t\<lparr>soft_pwm1 := v\<rparr>)" "keeps hw s (t\<lparr>soft_pwm_counter := c\<rparr>)"
    "keeps hw s (t\<lparr>soft_pwm_running := b\<rparr>)" "keeps hw s (t\<lparr>soft_pwm_hook := b\<rparr>)" "keeps hw s (t\<lparr>pwm_ready := f\<rparr>)"
    "keeps hw s (t\<lparr>isr := g\<rparr>)" "keeps hw s (t\<lparr>fast_isr := g\<rparr>)" "keeps hw s (t\<lparr>lptmr_rate := r\<rparr>)"
    "keeps hw s (t\<lparr>lptmr_enabled := b\<rparr>)" "keeps hw s (t\<lparr>lptmr_running := False\<rparr>)"
    "keeps hw s (t\<lparr>analog_read_resolution := a\<rparr>)"
    "(port, pad) \<in> user_pads hw \<Longrightarrow> keeps hw s (t\<lparr>lptmr_running := True, lptmr_port := port, lptmr_pad := pad\<rparr>)"
  using keeps_inv [OF assms] by - (rule keeps_same [OF assms]; simp add: io_inv_def)+

lemma keeps_if [keeps_intros]: "(b \<Longrightarrow> keeps hw s t) \<Longrightarrow> (\<not> b \<Longrightarrow> keeps hw s u) \<Longrightarrow> keeps hw s (if b then t else u)"
  by simp

lemma user_pads_of_pin:
  assumes "canonicalizePin hw pin \<in> set normal_mode_pins" "pinToPort hw pin = Some (port, pad)"
  shows "(port, pad) \<in> user_pads hw"
  using assms unfolding pinToPort_def Let_def normal_mode_pins_def user_pads_def by (auto split: if_splits)

lemma canUsePin_pad:
  "io_inv hw s \<Longrightarrow> canUsePin hw pin s \<Longrightarrow> pinToPort hw pin = Some (port, pad) \<Longrightarrow> (port, pad) \<in> user_pads hw"
  by (auto simp: canUsePin_def io_inv_def intro: user_pads_of_pin)


lemma own_pads [simp]:
  "(IOPORT1, 7) \<in> user_pads hw" "(IOPORT1, 8) \<in> user_pads hw" "(IOPORT1, 9) \<in> user_pads hw"
  "(IOPORT2, 0) \<in> user_pads hw" "(IOPORT2, case hw of PVT1C \<Rightarrow> 4 | PVT1E \<Rightarrow> 3) \<in> user_pads hw"
  by (simp_all add: user_pads_def)

lemma keeps_pads [keeps_intros]:
  assumes "keeps hw s t" "(port, pad) \<in> user_pads hw"
  shows "keeps hw s (palWritePad port pad high t)" "keeps hw s (palTogglePad port pad t)"
  using assms by (auto simp: palWritePad_def palTogglePad_def intro!: keeps_intros user_event_pad)

lemma keeps_attach [keeps_intros]:
  "keeps hw s t \<Longrightarrow> keeps hw s (attachFastInterrupt irq func t)"
  by (auto simp: attachFastInterrupt_def intro: keeps_intros)

lemma keeps_soft_pwm_start [keeps_intros]: "keeps hw s t \<Longrightarrow> keeps hw s (soft_pwm_start t)"
  by (auto simp: soft_pwm_start_def intro!: keeps_intros)

lemma user_event_soft [simp]:
  "user_event hw (PSOR IOPORT2 1)" "user_event hw (PCOR IOPORT2 1)"
  "user_event hw (PSOR IOPORT1 128)" "user_event hw (PCOR IOPORT1 128)"
  using user_event_pad [of IOPORT2 0 hw] user_event_pad [of IOPORT1 7 hw] by simp_all

lemma keeps_softPwmTick [keeps_intros]: "keeps hw s t \<Longrightarrow> keeps hw s (softPwmTick t)"
  unfolding softPwmTick_def Let_def detachFastInterrupt_def
  by (intro keeps_intros) (simp_all add: push_bit_eq_mult)

lemma keeps_disconnect [keeps_intros]: "keeps hw s t \<Longrightarrow> keeps hw s (disconnect_alternate hw pin t)"
  by (auto simp: disconnect_alternate_def intro!: keeps_intros)

lemma keeps_pinMode: "io_inv hw s \<Longrightarrow> keeps hw s (pinMode hw pin m s)"
  unfolding pinMode_def Let_def
  by (auto split: option.split intro!: keeps_intros dest: canUsePin_pad)

lemma keeps_digitalWrite [keeps_intros]:
  assumes "keeps hw s t"
  shows "keeps hw s (digitalWrite hw pin v t)"
proof (cases "pinToPort hw pin")
  case None
  then show ?thesis using assms by (simp add: digitalWrite_def)
next
  case (Some pp)
  obtain port pad where pp: "pp = (port, pad)" by (cases pp)
  show ?thesis
  proof (cases "canUsePin hw pin t")
    case True
    then have "(port, pad) \<in> user_pads hw" using canUsePin_pad keeps_inv [OF assms] Some pp by blast
    then show ?thesis
      using assms Some pp unfolding digitalWrite_def Let_def by (auto intro!: keeps_intros)
  next
    case False
    then show ?thesis using assms Some pp by (simp add: digitalWrite_def)
  qed
qed

lemma keeps_hard_pwm [keeps_intros]:
  "keeps hw s t \<Longrightarrow> (port, pad) \<in> user_pads hw \<Longrightarrow> keeps hw s (hard_pwm port pad driver channel v t)"
  unfolding hard_pwm_def Let_def by (intro keeps_intros) simp_all

lemma keeps_analogWrite [keeps_intros]:
  assumes "keeps hw s t"
  shows "keeps hw s (analogWrite hw pin v t)"
proof (cases "pinToPort hw pin")
  case None
  then show ?thesis using assms by (simp add: analogWrite_def)
next
  case (Some pp)
  obtain port pad where pp: "pp = (port, pad)" by (cases pp)
  have "(port, pad) \<in> user_pads hw" if "canonicalizePin hw pin \<in> {0, 1, 2, 3, 4, 5}"
    using user_pads_of_pin [of hw pin port pad] that Some pp by (simp add: normal_mode_pins_def)
  then show ?thesis
    using assms Some pp unfolding analogWrite_def Let_def
    by (simp split del: if_split) (intro keeps_intros; simp)
qed

lemma keeps_enableLptmr [keeps_intros]: "keeps hw s t \<Longrightarrow> keeps hw s (enableLptmr t)"
  unfolding enableLptmr_def Let_def calibrate_irc_def by (intro keeps_intros) simp_all

lemma keeps_startLptmr [keeps_intros]:
  "keeps hw s t \<Longrightarrow> (port, pad) \<in> user_pads hw \<Longrightarrow> keeps hw s (startLptmr port pad rate t)"
  unfolding startLptmr_def Let_def by (intro keeps_intros) simp_all

lemma keeps_stopLptmr [keeps_intros]: "keeps hw s t \<Longrightarrow> keeps hw s (stopLptmr t)"
  unfolding stopLptmr_def by (intro keeps_intros) simp_all

lemma keeps_noTone [keeps_intros]: "keeps hw s t \<Longrightarrow> keeps hw s (noTone hw pin t)"
  unfolding noTone_def by (intro keeps_intros)

lemma keeps_lptmr_handler [keeps_intros]: "keeps hw s t \<Longrightarrow> keeps hw s (lptmr_handler t)"
  unfolding lptmr_handler_def Let_def
  by (intro keeps_intros) (auto dest: keeps_inv simp: io_inv_def)

lemma keeps_tone [keeps_intros]:
  assumes "keeps hw s t"
  shows "keeps hw s (tone hw pin frequency duration t)"
proof (cases "pinToPort hw pin")
  case None
  then show ?thesis using assms by (simp add: tone_def)
next
  case (Some pp)
  obtain port pad where pp: "pp = (port, pad)" by (cases pp)
  have "canUsePin hw pin t \<Longrightarrow> (port, pad) \<in> user_pads hw"
    using canUsePin_pad keeps_inv [OF assms] Some pp by blast
  then show ?thesis
    using assms Some pp unfolding tone_def Let_def
    by (simp split del: if_split) (intro keeps_intros; simp)
qed

lemma keeps_hookSoftPwm [keeps_intros]: "keeps hw s t \<Longrightarrow> keeps hw s (hookSoftPwm b t)"
  unfolding hookSoftPwm_def Let_def by (intro keeps_intros)

text \<open>The pin, PWM and tone calls of a user program, and the two interrupts that act for it; the converter driver
  \<open>adcConvert\<close> is an argument.  \<open>setSerialSpeed\<close>, which claims the two pads of the serial port, is not among them.\<close>

datatype user_op =
    PinMode int pin_mode | DigitalWrite int int | DigitalRead int | AnalogWrite int int | AnalogRead int
  | AnalogReadResolution int | Tone int u32 u32 | NoTone int | HookSoftPwm bool | EnableTimer int | PwmTick | LptmrTick

fun user_call :: "hw_version \<Rightarrow> (adc_chan \<Rightarrow> u32 \<times> u16) \<Rightarrow> user_op \<Rightarrow> io \<Rightarrow> io" where
  "user_call hw adc (PinMode pin m) s = pinMode hw pin m s"
| "user_call hw adc (DigitalWrite pin v) s = digitalWrite hw pin v s"
| "user_call hw adc (DigitalRead pin) s = snd (digitalRead hw pin s)"
| "user_call hw adc (AnalogWrite pin v) s = analogWrite hw pin v s"
| "user_call hw adc (AnalogRead pin) s = snd (analogRead hw adc pin s)"
| "user_call hw adc (AnalogReadResolution bits) s = analogReadResolution bits s"
| "user_call hw adc (Tone pin f d) s = tone hw pin f d s"
| "user_call hw adc (NoTone pin) s = noTone hw pin s"
| "user_call hw adc (HookSoftPwm b) s = hookSoftPwm b s"
| "user_call hw adc (EnableTimer n) s = enableTimer n s"
| "user_call hw adc PwmTick s = softPwmTick s"
| "user_call hw adc LptmrTick s = lptmr_handler s"

fun is_read :: "user_op \<Rightarrow> bool" where
  "is_read (DigitalRead _) \<longleftrightarrow> True"
| "is_read (AnalogRead _) \<longleftrightarrow> True"
| "is_read _ \<longleftrightarrow> False"

lemma keeps_user_call:
  assumes "keeps hw s t" "\<not> is_read c"
  shows "keeps hw s (user_call hw adc c t)"
proof (cases c)
  case (PinMode pin m)
  then show ?thesis using keeps_trans [OF assms(1) keeps_pinMode [OF keeps_inv [OF assms(1)]]] by simp
qed (use assms in \<open>auto simp: enableTimer_def analogReadResolution_def intro!: keeps_intros\<close>)

text \<open>A pad that is an input, digital or analog, and a pad that a read has left as one.\<close>

definition input_pad :: "io \<Rightarrow> ioport \<Rightarrow> nat \<Rightarrow> bool" where
  "input_pad s port pad \<longleftrightarrow>
     palGetPadMode port pad s \<in> {PAL_MODE_INPUT, PAL_MODE_INPUT_PULLUP, PAL_MODE_INPUT_PULLDOWN, PAL_MODE_INPUT_ANALOG}"

text \<open>Outside the given pads nothing was driven, and a pad was left as it was or is an input that stayed an input.\<close>

definition only_read :: "(ioport \<times> nat) set \<Rightarrow> io \<Rightarrow> io \<Rightarrow> bool" where
  "only_read A s s' \<longleftrightarrow>
     (\<forall>port pad. (port, pad) \<notin> A \<longrightarrow>
        pad_config s' port pad = pad_config s port pad \<or>
        input_pad s port pad \<and> input_pad s' port pad \<and> \<not> bit (PDDR s' port) pad) \<and>
     (\<exists>es. io_log s' = io_log s @ es \<and>
       (\<forall>e port pad. e \<in> set es \<longrightarrow> touches port pad e \<longrightarrow> (port, pad) \<in> A))"

lemma confined_only_read: "confined A s t \<Longrightarrow> only_read A s t"
  unfolding confined_def only_read_def by blast

lemma input_pad_cong: "pad_config t port pad = pad_config s port pad \<Longrightarrow> input_pad t port pad = input_pad s port pad"
  unfolding input_pad_def pad_config_def using palGetPadMode_cong [of t port pad s] by simp

lemma only_read_trans:
  assumes "only_read A s t" "only_read A t u"
  shows "only_read A s u"
  unfolding only_read_def
proof (intro conjI allI impI)
  fix port pad
  assume "(port, pad) \<notin> A"
  then show "pad_config u port pad = pad_config s port pad \<or>
      input_pad s port pad \<and> input_pad u port pad \<and> \<not> bit (PDDR u port) pad"
    using assms input_pad_cong [of u port pad t] input_pad_cong [of t port pad s]
    unfolding only_read_def pad_config_def prod.inject by metis
next
  obtain es fs where "io_log t = io_log s @ es" "io_log u = io_log t @ fs"
    "\<forall>e port pad. e \<in> set es \<longrightarrow> touches port pad e \<longrightarrow> (port, pad) \<in> A"
    "\<forall>e port pad. e \<in> set fs \<longrightarrow> touches port pad e \<longrightarrow> (port, pad) \<in> A"
    using assms unfolding only_read_def by blast
  then show "\<exists>es. io_log u = io_log s @ es \<and>
      (\<forall>e port pad. e \<in> set es \<longrightarrow> touches port pad e \<longrightarrow> (port, pad) \<in> A)"
    by (intro exI [of _ "es @ fs"]) auto
qed

lemma only_read_setmode:
  assumes "input_pad s port pad" "mode = PAL_MODE_INPUT \<or> mode = PAL_MODE_INPUT_ANALOG"
  shows "only_read A s (palSetPadMode port pad mode s)"
proof -
  let ?t = "palSetPadMode port pad mode s"
  have port: "port = IOPORT1 \<or> port = IOPORT2"
    using assms(1) by (cases "port = IOPORT1 \<or> port = IOPORT2") (simp_all add: input_pad_def palGetPadMode_def)
  have d: "\<not> bit (PDDR ?t port) pad" using assms(2) by (elim disjE) (simp_all add: palSetPadMode_simps bit_simps)
  have "PCR ?t port pad = (if mode = PAL_MODE_INPUT then 0x100 else 0)"
    using assms(2) by (elim disjE) (simp_all add: palSetPadMode_simps pcr_of_mode_def PCR_MUX_values)
  then have "palGetPadMode port pad ?t = mode"
    using assms(2) port d unfolding palGetPadMode_def Let_def mask_pad_iff by (elim disjE) (simp_all add: PCR_MUX_values)
  then have "input_pad ?t port pad" using assms(2) by (auto simp: input_pad_def)
  moreover have "confined {(port, pad)} s ?t" by (rule confined_setmode) simp
  moreover have "io_log ?t = io_log s"
    by (cases "pcr_of_mode mode") (simp_all add: palSetPadMode_def Let_def)
  ultimately show ?thesis using assms(1) d unfolding only_read_def confined_def by auto
qed

lemma only_read_refl: "only_read A s s"
  by (rule confined_only_read [OF confined_refl])

lemma only_read_digitalRead: "only_read A s (snd (digitalRead hw pin s))"
  by (auto simp: digitalRead_def Let_def input_pad_def only_read_refl split: option.split
      intro!: only_read_setmode)

lemma only_read_analogRead: "only_read A s (snd (analogRead hw adc pin s))"
  by (auto simp: analogRead_def Let_def input_pad_def only_read_refl split: option.split prod.split
      intro!: only_read_setmode)

lemma reads_io_inv:
  "io_inv hw (snd (digitalRead hw pin s)) = io_inv hw s" "io_inv hw (snd (analogRead hw adc pin s)) = io_inv hw s"
  by (auto simp: digitalRead_def analogRead_def Let_def split: option.split prod.split)

lemma only_read_user_call:
  assumes "io_inv hw s"
  shows "only_read (user_pads hw) s (user_call hw adc c s) \<and> io_inv hw (user_call hw adc c s)"
proof (cases "is_read c")
  case True
  then show ?thesis
    using assms by (cases c) (simp_all add: only_read_digitalRead only_read_analogRead reads_io_inv)
next
  case False
  then show ?thesis
    using keeps_user_call [OF keeps_refl [OF assms] False] confined_only_read by (auto simp: keeps_def)
qed

text \<open>C10: A user program cannot take over a reserved pin.  In normal mode, whatever sequence of pin, PWM and tone calls it
  makes, reads included, and however the PWM and timer interrupts run in between, only the pads of the six user
  pins and their tied alternates are ever driven.  Every other pad, those of the debug port, the serial port, the
  status LEDs, the microphone and the reset line, keeps its configuration, with one exception: \<open>digitalRead\<close> and
  \<open>analogRead\<close> may switch a pad that is an input between digital and analog input, and it stays an input.  Without
  reads there is no exception.\<close>

theorem user_calls_confined:
  assumes "\<not> sudo_mode s" "\<not> lptmr_running s"
  shows "only_read (user_pads hw) s (fold (user_call hw adc) cs s) \<and>
     ((\<forall>c \<in> set cs. \<not> is_read c) \<longrightarrow> confined (user_pads hw) s (fold (user_call hw adc) cs s))"
proof (intro conjI impI)
  have inv: "io_inv hw s" using assms by (simp add: io_inv_def)
  have "only_read (user_pads hw) t (fold (user_call hw adc) cs t)" if "io_inv hw t" for t
    using that
  proof (induction cs arbitrary: t)
    case (Cons c cs)
    then show ?case using only_read_user_call [OF Cons.prems, of adc c] only_read_trans by auto
  qed (simp add: only_read_refl)
  then show "only_read (user_pads hw) s (fold (user_call hw adc) cs s)" using inv .
  assume "\<forall>c \<in> set cs. \<not> is_read c"
  then have "keeps hw s (fold (user_call hw adc) cs t)" if "keeps hw s t" for t
    using that by (induction cs arbitrary: t) (auto intro: keeps_user_call)
  then show "confined (user_pads hw) s (fold (user_call hw adc) cs s)"
    using keeps_refl [OF inv] by (simp add: keeps_def)
qed

unbundle bit_operations_syntax

definition io_reset :: io where
  "io_reset =
     \<lparr>PDDR = \<lambda>_. 0, PDIR = \<lambda>_. 0, PCR = \<lambda>_ _. 0, sudo_mode = False, analog_read_resolution = 10,
      soft_pwm0 = -1, soft_pwm1 = -1, soft_pwm_counter = 64, soft_pwm_running = False, soft_pwm_hook = False,
      pwm_ready = \<lambda>_. False, isr = \<lambda>_. None, fast_isr = \<lambda>_. None, lptmr_enabled = False,
      lptmr_running = False, lptmr_port = IOPORT1, lptmr_pad = 0, lptmr_rate = 0, io_log = []\<rparr>"

theorem user_calls_confined_witness:
  "only_read (user_pads PVT1E) io_reset
     (fold (user_call PVT1E (\<lambda>_. (0, 5)))
        [PinMode 2 OUTPUT, DigitalWrite 2 1, DigitalRead AUDIO_IN, AnalogRead RST_LEVEL, LptmrTick, NoTone 2] io_reset) \<and>
   confined (user_pads PVT1E) io_reset
     (fold (user_call PVT1E (\<lambda>_. (0, 5)))
        [PinMode 2 OUTPUT, DigitalWrite 2 1, Tone 2 440 100, LptmrTick, NoTone 2] io_reset)"
  using user_calls_confined [of io_reset PVT1E "\<lambda>_. (0, 5)"
      "[PinMode 2 OUTPUT, DigitalWrite 2 1, DigitalRead AUDIO_IN, AnalogRead RST_LEVEL, LptmrTick, NoTone 2]"]
    user_calls_confined [of io_reset PVT1E "\<lambda>_. (0, 5)"
      "[PinMode 2 OUTPUT, DigitalWrite 2 1, Tone 2 440 100, LptmrTick, NoTone 2]"]
  by (simp add: io_reset_def del: fold_simps)

section \<open>The board's pads at start-up\<close>

lemma palGetPadMode_confined:
  "confined A s t \<Longrightarrow> (port, pad) \<notin> A \<Longrightarrow> palGetPadMode port pad t = palGetPadMode port pad s"
  unfolding confined_def pad_config_def by (rule palGetPadMode_cong) simp_all

lemma confined_mono: "confined A s t \<Longrightarrow> A \<subseteq> B \<Longrightarrow> confined B s t"
  unfolding confined_def by (meson subset_iff)

lemma setmode_fold_confined:
  "confined ({port} \<times> {..<n}) s (fold (\<lambda>j s. palSetPadMode port j (f j) s) [0..<n] s)"
proof (induction n)
  case (Suc n)
  have "confined ({port} \<times> {..<Suc n}) s (fold (\<lambda>j s. palSetPadMode port j (f j) s) [0..<n] s)"
    by (rule confined_mono [OF Suc]) auto
  then show ?case by (auto intro: confined_trans confined_setmode)
qed (simp add: confined_refl)

lemma setmode_fold:
  assumes "port = IOPORT1 \<or> port = IOPORT2" "n \<le> 32" "\<And>j. f j \<in> set known_modes" "pad < n"
  shows "palGetPadMode port pad (fold (\<lambda>j s. palSetPadMode port j (f j) s) [0..<n] s) = read_back (f pad)"
  using assms(2,4)
proof (induction n)
  case (Suc n)
  show ?case
  proof (cases "pad = n")
    case True
    then show ?thesis using Suc.prems getmode_setmode [OF assms(1) _ assms(3)] by simp
  next
    case False
    then show ?thesis
      using Suc palGetPadMode_confined [OF confined_setmode [of port n "{(port, n)}"]] by simp
  qed
qed simp

lemma config_known: "pal_default_config hw port pad \<in> set known_modes"
  by (simp add: pal_default_config_def known_modes_def split: ioport.split hw_version.split)

lemma pal_lld_init_mode:
  assumes "port = IOPORT1 \<or> port = IOPORT2" "pad < 32"
  shows "palGetPadMode port pad (pal_lld_init (pal_default_config hw) s) = read_back (pal_default_config hw port pad)"
proof -
  let ?f = "\<lambda>port s. fold (\<lambda>j s. palSetPadMode port j (pal_default_config hw port j) s) [0..<32] s"
  have eq: "pal_lld_init (pal_default_config hw) s = ?f IOPORT2 (?f IOPORT1 s)" by (simp add: pal_lld_init_def)
  note setmode_fold [where f = "pal_default_config hw port" and n = 32 for port, OF _ order_refl config_known assms(2)]
  moreover have "palGetPadMode IOPORT1 pad (?f IOPORT2 t) = palGetPadMode IOPORT1 pad t" for t
    by (rule palGetPadMode_confined [OF setmode_fold_confined]) simp
  ultimately show ?thesis using assms(1) eq by auto
qed

text \<open>Reading is not covered by the check.  On a freshly configured board in normal mode, \<open>digitalRead\<close> of the microphone
  pin returns 0 as for any reserved pin, but has by then switched the pad from analog to digital input; and
  \<open>analogRead\<close> of the reset line, which checks nothing, switches that pad to analog.\<close>

theorem reads_remux_reserved_pads:
  assumes "\<not> sudo_mode s" "s0 = pal_lld_init (pal_default_config hw) s"
  shows "palGetPadMode IOPORT2 5 s0 = PAL_MODE_INPUT_ANALOG \<and>
     fst (digitalRead hw AUDIO_IN s0) = 0 \<and>
     palGetPadMode IOPORT2 5 (snd (digitalRead hw AUDIO_IN s0)) = PAL_MODE_INPUT \<and>
     palGetPadMode IOPORT2 7 s0 = PAL_MODE_INPUT \<and>
     palGetPadMode IOPORT2 7 (snd (analogRead hw adc RST_LEVEL s0)) = PAL_MODE_INPUT_ANALOG"
proof -
  have io: "\<not> sudo_mode s0"
  proof -
    have "sudo_mode (fold (\<lambda>j s. palSetPadMode port j (f j) s) ns t) = sudo_mode t" for port f ns t
      by (induction ns arbitrary: t) (simp_all add: palSetPadMode_def Let_def split: option.split)
    then show ?thesis using assms by (simp add: pal_lld_init_def del: upt_rec_numeral)
  qed
  have pins: "pinToPort hw AUDIO_IN = Some (IOPORT2, 5)" "pinToPort hw RST_LEVEL = Some (IOPORT2, 7)"
    "\<not> canUsePin hw AUDIO_IN t" if "\<not> sudo_mode t" for t
    using that by (cases hw; simp add: pinToPort_def canonicalizePin_def PTA_def PTB_def canUsePin_def normal_mode_pins_def)+
  have m: "palGetPadMode IOPORT2 5 s0 = 5" "palGetPadMode IOPORT2 7 s0 = 2"
    using pal_lld_init_mode [of IOPORT2 5 hw s] pal_lld_init_mode [of IOPORT2 7 hw s] assms(2)
    by (simp_all add: read_back_def pal_default_config_def)
  have "palGetPadMode IOPORT2 5 (palSetPadMode IOPORT2 5 2 s0) = 2" "palGetPadMode IOPORT2 7 (palSetPadMode IOPORT2 7 5 s0) = 5"
    by (simp_all add: getmode_setmode known_modes_def read_back_def)
  moreover have "\<not> sudo_mode (palSetPadMode IOPORT2 5 2 s0)"
    using io by (simp add: palSetPadMode_def Let_def split: option.split)
  ultimately show ?thesis
    using m pins io by (simp add: digitalRead_def analogRead_def Let_def split: option.split prod.split)
qed

theorem reads_remux_reserved_pads_witness:
  "palGetPadMode IOPORT2 5 (snd (digitalRead PVT1E AUDIO_IN (pal_lld_init (pal_default_config PVT1E) io_reset))) = PAL_MODE_INPUT"
  using reads_remux_reserved_pads [of io_reset _ PVT1E, OF _ refl] by (simp add: io_reset_def)

section \<open>Modes read back\<close>

lemma pinMode_eq:
  "pinToPort hw (canonicalizePin hw pin) = Some (port, pad) \<Longrightarrow> canUsePin hw (canonicalizePin hw pin) s \<Longrightarrow>
   pinMode hw pin m s = palSetPadMode port pad (pal_mode_of m) (disconnect_alternate hw (canonicalizePin hw pin) s)"
  by (simp add: pinMode_def)

text \<open>A mode that was set reads back, except the pull-down mode: for every pin a program may use \<open>palGetPadMode\<close> reports
  the mode last set by \<open>pinMode\<close>, but a pin with a pull-down is reported as a plain input.\<close>

theorem pinMode_reads_back:
  assumes "pinToPort hw (canonicalizePin hw pin) = Some (port, pad)"
    and "canUsePin hw (canonicalizePin hw pin) s"
  shows "palGetPadMode port pad (pinMode hw pin m s) =
     (case m of INPUT \<Rightarrow> PAL_MODE_INPUT | OUTPUT \<Rightarrow> PAL_MODE_OUTPUT_PUSHPULL
      | INPUT_PULLUP \<Rightarrow> PAL_MODE_INPUT_PULLUP | INPUT_PULLDOWN \<Rightarrow> PAL_MODE_INPUT)"
proof -
  have "nat (x AND 31) < 32" for x :: int
    using AND_upper2 [of 31 x] by (simp add: nat_less_iff del: mask_eq_decr_exp)
  then have "(port = IOPORT1 \<or> port = IOPORT2) \<and> pad < 32"
    using assms(1) unfolding pinToPort_def Let_def
    by (auto split: if_splits)
  moreover have "pal_mode_of m \<in> set known_modes" by (cases m) (simp_all add: known_modes_def)
  ultimately show ?thesis
    using assms by (cases m) (simp_all add: pinMode_eq getmode_setmode read_back_def)
qed

theorem pinMode_reads_back_witness:
  "palGetPadMode IOPORT1 12 (pinMode PVT1E 0xa2 INPUT_PULLDOWN io_reset) = PAL_MODE_INPUT"
proof -
  have "canonicalizePin PVT1E 0xa2 = 2" "canonicalizePin PVT1E 2 = 2"
    by (simp_all add: canonicalizePin_def PTA_def PTB_def)
  then show ?thesis
    using pinMode_reads_back [of PVT1E "0xa2" IOPORT1 12 io_reset INPUT_PULLDOWN]
    by (simp add: pinToPort_def canUsePin_def normal_mode_pins_def)
qed

unbundle bit_operations_syntax

section \<open>The software PWM\<close>

text \<open>The level of an output pad after the logged writes, by the function of the set, clear and toggle registers.\<close>

fun drive :: "ioport \<Rightarrow> nat \<Rightarrow> io_event \<Rightarrow> bool \<Rightarrow> bool" where
  "drive port pad (PSOR p w) l = (l \<or> (p = port \<and> bit w pad))"
| "drive port pad (PCOR p w) l = (l \<and> \<not> (p = port \<and> bit w pad))"
| "drive port pad (PTOR p w) l = (l \<noteq> (p = port \<and> bit w pad))"
| "drive _ _ _ l = l"

definition pad_level :: "ioport \<Rightarrow> nat \<Rightarrow> io \<Rightarrow> bool" where
  "pad_level port pad s = fold (drive port pad) (io_log s) False"

lemma pad_level_emit: "pad_level port pad (emit es s) = fold (drive port pad) es (pad_level port pad s)"
  by (simp add: pad_level_def emit_def)

lemma emit_simps [simp]:
  "soft_pwm_counter (emit es s) = soft_pwm_counter s" "soft_pwm0 (emit es s) = soft_pwm0 s"
  "soft_pwm1 (emit es s) = soft_pwm1 s" "soft_pwm_hook (emit es s) = soft_pwm_hook s"
  by (simp_all add: emit_def)

lemma pad_level_counter [simp]: "pad_level port pad (s\<lparr>soft_pwm_counter := c\<rparr>) = pad_level port pad s"
  by (simp add: pad_level_def)

lemma softPwmTick_effect:
  assumes "soft_pwm0 s \<noteq> -1" "soft_pwm_counter s \<noteq> 0"
  shows "soft_pwm0 (softPwmTick s) = soft_pwm0 s"
    and "soft_pwm_counter (softPwmTick s) = (if soft_pwm_counter s = 1 then 64 else soft_pwm_counter s - 1)"
    and "pad_level IOPORT2 0 (softPwmTick s) =
      (soft_pwm_counter s \<noteq> 1 \<and> (pad_level IOPORT2 0 s \<or> uint (soft_pwm_counter s) = soft_pwm0 s))"
  using assms by (auto simp: softPwmTick_def Let_def pad_level_emit)

lemma soft_pwm_run:
  assumes "soft_pwm0 s = int k" "k \<le> 64" "soft_pwm_counter s = 64" "\<not> pad_level IOPORT2 0 s" "j < 64"
  shows "soft_pwm0 ((softPwmTick ^^ j) s) = int k \<and> unat (soft_pwm_counter ((softPwmTick ^^ j) s)) = 64 - j \<and>
    (pad_level IOPORT2 0 ((softPwmTick ^^ j) s) \<longleftrightarrow> 64 - j < k)"
  using assms(5)
proof (induction j)
  case 0
  then show ?case using assms by simp
next
  case (Suc j)
  let ?t = "(softPwmTick ^^ j) s"
  have IH: "soft_pwm0 ?t = int k" "unat (soft_pwm_counter ?t) = 64 - j" "pad_level IOPORT2 0 ?t \<longleftrightarrow> 64 - j < k"
    using Suc by simp_all
  have c: "soft_pwm_counter ?t \<noteq> 0" "soft_pwm_counter ?t \<noteq> 1"
    using IH(2) Suc.prems by auto
  then have "unat (soft_pwm_counter ?t - 1) = 64 - Suc j"
    using IH(2) by (simp add: unat_minus_one)
  moreover have "uint (soft_pwm_counter ?t) = int k \<longleftrightarrow> 64 - j = k"
    using IH(2) by (metis of_nat_eq_iff uint_nat)
  ultimately show ?case
    using softPwmTick_effect [of ?t] IH c Suc.prems by auto
qed

text \<open>The software PWM is one tick short.  With the value of \<open>analogWrite\<close> for pin 4 in place, a cycle of 64 ticks ends
  with the counter and the pin as it began and leaves the pin high after exactly \<open>v div 4 - 1\<close> of the ticks
  (0 for \<open>v < 8\<close>): values that were rounded up to keep the pin from staying dark give no full tick.\<close>

theorem soft_pwm_duty:
  assumes "v \<le> 255" "soft_pwm0 s = soft_pwm_value (int v)" "soft_pwm_counter s = 64" "\<not> pad_level IOPORT2 0 s"
  shows "card {j \<in> {1..64}. pad_level IOPORT2 0 ((softPwmTick ^^ j) s)} = v div 4 - 1 \<and>
    soft_pwm_counter ((softPwmTick ^^ 64) s) = 64 \<and> \<not> pad_level IOPORT2 0 ((softPwmTick ^^ 64) s)"
proof -
  define k where "k = (if v \<noteq> 0 \<and> v div 4 = 0 then 1 else v div 4)"
  have k: "soft_pwm0 s = int k" "k \<le> 63"
    using assms(1,2) by (auto simp: k_def soft_pwm_value_def c_div_def Let_def sgn_if abs_mult zdiv_int)
  note run = soft_pwm_run [of s k, OF k(1) _ assms(3,4)]
  have 63: "unat (soft_pwm_counter ((softPwmTick ^^ 63) s)) = 1" "soft_pwm0 ((softPwmTick ^^ 63) s) = int k"
    using run [of 63] k by simp_all
  then have last: "soft_pwm_counter ((softPwmTick ^^ 64) s) = 64" "\<not> pad_level IOPORT2 0 ((softPwmTick ^^ 64) s)"
    using softPwmTick_effect [of "(softPwmTick ^^ 63) s"] funpow.simps(2) [of 63 softPwmTick]
    by (auto simp: word_unat_eq_iff)
  have "pad_level IOPORT2 0 ((softPwmTick ^^ j) s) \<longleftrightarrow> j < 64 \<and> 64 - j < k" if "j \<le> 64" for j
    using that run [of j] last(2) k(2) by (cases "j = 64") simp_all
  then have "{j \<in> {1..64}. pad_level IOPORT2 0 ((softPwmTick ^^ j) s)} = {65 - k..<64}"
    using k(2) by auto
  then show ?thesis using last k(2) by (simp add: k_def)
qed

theorem soft_pwm_duty_witness:
  "card {j \<in> {1..64}. pad_level IOPORT2 0 ((softPwmTick ^^ j) (io_reset\<lparr>soft_pwm0 := soft_pwm_value 100\<rparr>))} = 24"
  using soft_pwm_duty [of 100 "io_reset\<lparr>soft_pwm0 := soft_pwm_value 100\<rparr>"] by (simp add: io_reset_def pad_level_def)

unbundle bit_operations_syntax

section \<open>Interrupt priorities and analog scaling\<close>

lemma set_prio_byte_bit:
  assumes "k < 32" "prio_shift irqn \<le> 24"
  shows "bit (set_prio_byte irqn priority w) k \<longleftrightarrow>
     (if prio_shift irqn \<le> k \<and> k < prio_shift irqn + 8
      then prio_shift irqn + 6 \<le> k \<and> bit priority (k - prio_shift irqn - 6) else bit w k)"
proof -
  have m: "0xFF = (mask 8 :: u32)" by (simp add: mask_eq_exp_minus_1)
  show ?thesis
    using assms unfolding set_prio_byte_def m by (auto simp: bit_simps)
qed

text \<open>A conversion is scaled to the requested resolution, modulo \<open>2 ^ 16\<close>: resolutions above 16 lose high bits.\<close>

lemma scale_sample_eq:
  assumes "smp < 4096" "res \<le> 31"
  shows "unat (scale_sample res smp) = unat smp * 2 ^ unat res div 2 ^ 12 mod 2 ^ 16"
proof (cases "res > 12")
  case True
  then have r: "12 < unat res" by (simp add: word_less_nat_alt)
  have "unat (push_bit (unat res - 12) smp) = unat smp * 2 ^ (unat res - 12) mod 2 ^ 16"
    by (simp only: unsigned_push_bit_eq) (simp add: push_bit_eq_mult take_bit_eq_mod)
  also have "unat smp * 2 ^ (unat res - 12) = unat smp * 2 ^ unat res div 2 ^ 12"
  proof -
    have "(2 :: nat) ^ unat res = 2 ^ (unat res - 12) * 2 ^ 12"
      using r power_add [of "2 :: nat" "unat res - 12" 12] by simp
    then show ?thesis by simp
  qed
  finally show ?thesis using True by (simp add: scale_sample_def)
next
  case False
  then have r: "unat res \<le> 12" by (simp add: word_le_nat_alt not_less)
  have s: "unat smp < 2 ^ 12" using assms(1) by (simp add: word_less_nat_alt)
  have "scale_sample res smp = drop_bit (12 - unat res) smp"
    using False by (auto simp: scale_sample_def not_less dest: order_antisym)
  then have "unat (scale_sample res smp) = unat smp div 2 ^ (12 - unat res)"
    by (simp only: unat_drop_bit_eq) (simp add: drop_bit_eq_div)
  also have "\<dots> = unat smp * 2 ^ unat res div 2 ^ 12"
  proof -
    have "(2 :: nat) ^ 12 = 2 ^ (12 - unat res) * 2 ^ unat res" using r by (simp flip: power_add)
    then show ?thesis by (metis div_mult_mult2 power_not_zero zero_neq_numeral)
  qed
  also have "\<dots> = unat smp * 2 ^ unat res div 2 ^ 12 mod 2 ^ 16"
  proof -
    have "unat smp * 2 ^ unat res \<le> 2 ^ 12 * 2 ^ 12"
      using s power_increasing [OF r, of "2 :: nat"] by (intro mult_le_mono) simp_all
    then have "unat smp * 2 ^ unat res div 2 ^ 12 < 2 ^ 16" by simp
    then show ?thesis by simp
  qed
  finally show ?thesis .
qed

end
