(* ===== verification/Arduino_Timers.thy ===== *)
theory Arduino_Timers
  imports Virtual_Timers Arduino_IO
begin

text \<open>
  Timers and time of the application interface: the timer slots of \<^verbatim>\<open>orchard/arduino-chibios.c\<close>, which let a virtual
  timer run an application function later on the application's own thread, \<^verbatim>\<open>orchard/arduino-time.c\<close> and the
  conversions between time and ticks of \<^verbatim>\<open>os/rt/include/chvt.h\<close>.
\<close>

section \<open>Timer slots\<close>

text \<open>The functions the firmware installs in virtual timers: \<^verbatim>\<open>wakeup\<close> of the scheduler and
  \<^verbatim>\<open>post_timer_callback_to_arduino_thread\<close>.  Functions of the application are their addresses, 0 for \<^verbatim>\<open>NULL\<close>; a
  pointer \<^verbatim>\<open>&vtcallbacks[i]\<close> is the index \<open>i\<close>.\<close>

datatype vtfunc = VT_wakeup | VT_post

record vt_callback =
  cb_func :: u32
  cb_param :: u32

record callbacks =
  vtcallbacks :: "vt_callback list"
  scheduled_callbacks :: "vt_callback list"
  num_scheduled_callbacks :: u8

type_synonym atimers = "(vtfunc, callbacks) vtimers_scheme"

definition callbacks_reset :: callbacks where
  "callbacks_reset = \<lparr>vtcallbacks = replicate 2 \<lparr>cb_func = 0, cb_param = 0\<rparr>,
     scheduled_callbacks = replicate 2 \<lparr>cb_func = 0, cb_param = 0\<rparr>, num_scheduled_callbacks = 0\<rparr>"

text \<open>The search \<^verbatim>\<open>for (i = 0; i < ARRAY_SIZE(a); i++) if (!a[i].func)\<close>.\<close>

fun free_slot :: "nat \<Rightarrow> vt_callback list \<Rightarrow> nat option" where
  "free_slot i [] = None"
| "free_slot i (c # cs) = (if cb_func c = 0 then Some i else free_slot (Suc i) cs)"

definition post_timer_callback_to_arduino_thread :: "u32 \<Rightarrow> callbacks \<Rightarrow> callbacks" where
  "post_timer_callback_to_arduino_thread par c =
     (let vtcallback = vtcallbacks c ! unat par;
          c = c\<lparr>vtcallbacks := (vtcallbacks c)[unat par := \<lparr>cb_func = 0, cb_param = 0\<rparr>]\<rparr>
      in case free_slot 0 (scheduled_callbacks c) of
           None \<Rightarrow> c
         | Some i \<Rightarrow> c\<lparr>scheduled_callbacks := (scheduled_callbacks c)
               [i := \<lparr>cb_func = cb_func vtcallback, cb_param = cb_param vtcallback\<rparr>],
             num_scheduled_callbacks := num_scheduled_callbacks c + 1\<rparr>)"

text \<open>\<open>app\<close> is the call of an application function, which may itself set timers, and during which ticks may
  come.\<close>

definition runCallback :: "(u32 \<Rightarrow> u32 \<Rightarrow> atimers \<Rightarrow> atimers) \<Rightarrow> nat \<Rightarrow> atimers \<Rightarrow> atimers" where
  "runCallback app i s =
     (let cb = scheduled_callbacks (vtimers.more s) ! i
      in if cb_func cb \<noteq> 0 then
           (let s = app (cb_func cb) (cb_param cb) s
            in vtimers.more_update (\<lambda>c. c\<lparr>scheduled_callbacks :=
                   (scheduled_callbacks c)[i := (scheduled_callbacks c ! i)\<lparr>cb_func := 0\<rparr>],
                 num_scheduled_callbacks := num_scheduled_callbacks c - 1\<rparr>) s)
         else s)"

definition runCallbacks :: "(u32 \<Rightarrow> u32 \<Rightarrow> atimers \<Rightarrow> atimers) \<Rightarrow> atimers \<Rightarrow> atimers" where
  "runCallbacks app s =
     (if num_scheduled_callbacks (vtimers.more s) = 0 then s else fold (runCallback app) [0, 1] s)"

text \<open>The result (0 or -1) and the state; \<open>None\<close> if \<open>chVTSet\<close> does not return.\<close>

definition setTimer :: "tid \<Rightarrow> u32 \<Rightarrow> u32 \<Rightarrow> u32 \<Rightarrow> atimers \<Rightarrow> (int \<times> atimers) option" where
  "setTimer vtp delay func par s =
     (case free_slot 0 (vtcallbacks (vtimers.more s)) of
        None \<Rightarrow> Some (-1, s)
      | Some i \<Rightarrow>
          (let s = vtimers.more_update (\<lambda>c. c\<lparr>vtcallbacks := (vtcallbacks c)[i := \<lparr>cb_func = func, cb_param = par\<rparr>]\<rparr>) s
           in map_option (\<lambda>s. (0, s)) (chVTSetI vtp delay VT_post (of_nat i) s)))"

definition resetTimer :: "tid \<Rightarrow> atimers \<Rightarrow> atimers" where
  "resetTimer vtp s = chVTResetI vtp s"

text \<open>The timer functions on the callback arrays; \<^verbatim>\<open>wakeup\<close> does not use them.\<close>

fun timer_call :: "vtfunc \<times> u32 \<Rightarrow> callbacks \<Rightarrow> callbacks option" where
  "timer_call (VT_wakeup, p) c = Some c"
| "timer_call (VT_post, p) c = Some (post_timer_callback_to_arduino_thread p c)"

section \<open>Time\<close>

text \<open>The macros of \<^verbatim>\<open>chvt.h\<close> with \<^verbatim>\<open>CH_CFG_ST_FREQUENCY\<close> 1000; those to ticks compute in 32 bits, those from
  ticks in 64, but for the sum of \<open>ST2S\<close>.
  \<open>MS2ST\<close> is with the tones, which use it.\<close>

definition CH_CFG_ST_FREQUENCY :: "'a::len word" where
  "CH_CFG_ST_FREQUENCY = 1000"

definition S2ST :: "u32 \<Rightarrow> u32" where
  "S2ST sec = sec * CH_CFG_ST_FREQUENCY"

definition US2ST :: "u32 \<Rightarrow> u32" where
  "US2ST usec = (usec * CH_CFG_ST_FREQUENCY + 999999) div 1000000"

definition ST2S :: "u32 \<Rightarrow> u64" where
  "ST2S n = (ucast (n + CH_CFG_ST_FREQUENCY) - 1) div CH_CFG_ST_FREQUENCY"

definition ST2MS :: "u32 \<Rightarrow> u64" where
  "ST2MS n = (ucast n * 1000 + CH_CFG_ST_FREQUENCY - 1) div CH_CFG_ST_FREQUENCY"

definition ST2US :: "u32 \<Rightarrow> u64" where
  "ST2US n = (ucast n * 1000000 + CH_CFG_ST_FREQUENCY - 1) div CH_CFG_ST_FREQUENCY"

definition millis :: "u32 \<Rightarrow> ('f, 'z) vtimers_scheme \<Rightarrow> u32" where
  "millis app_start_time s = ucast (ST2MS (chVTTimeElapsedSinceX app_start_time s))"

definition micros :: "u32 \<Rightarrow> ('f, 'z) vtimers_scheme \<Rightarrow> u32" where
  "micros app_start_time s = ucast (ST2US (chVTTimeElapsedSinceX app_start_time s))"


lemma mult_1000_exact:
  assumes "unat x * 1000 < 2 ^ 32"
  shows "unat (x * 1000 :: u32) = unat x * 1000"
  using assms by (subst unat_mult_lem [THEN iffD1]) simp_all

lemma MS2ST_exact:
  assumes "msec \<le> 4294966"
  shows "MS2ST msec = msec"
proof -
  have le: "unat msec \<le> 4294966" using assms by (simp add: word_le_nat_alt)
  have m: "unat (msec * 1000) = unat msec * 1000" by (rule mult_1000_exact) (use le in simp)
  have "unat (msec * 1000 + 999) = unat msec * 1000 + 999"
    unfolding m [symmetric] by (subst unat_add_lem [THEN iffD1]) (use le m in simp_all)
  then have "unat (MS2ST msec) = unat msec" by (simp add: MS2ST_def unat_div)
  then show ?thesis by (simp add: word_unat_eq_iff)
qed

lemma US2ST_exact:
  assumes "usec \<le> 4293967"
  shows "unat (US2ST usec) = (unat usec + 999) div 1000"
proof -
  have le: "unat usec \<le> 4293967" using assms by (simp add: word_le_nat_alt)
  have m: "unat (usec * 1000) = unat usec * 1000" by (rule mult_1000_exact) (use le in simp)
  have "unat (usec * 1000 + 999999) = unat usec * 1000 + 999999"
    unfolding m [symmetric] by (subst unat_add_lem [THEN iffD1]) (use le m in simp_all)
  then have "unat (US2ST usec) = (unat usec * 1000 + 999999) div 1000000"
    by (simp add: US2ST_def CH_CFG_ST_FREQUENCY_def unat_div)
  also have "\<dots> = (unat usec * 1000 + 999999) div 1000 div 1000" by (simp flip: div_mult2_eq)
  also have "(unat usec * 1000 + 999999) div 1000 = unat usec + 999" by simp
  finally show ?thesis .
qed

lemma ST2MS_eq: "ST2MS n = ucast n"
proof -
  have b: "unat n < 4294967296" using unsigned_less [of n, where 'a = nat] by simp
  have n: "unat (ucast n :: u64) = unat n" using b by (simp add: unsigned_ucast_eq take_bit_nat_eq_self)
  have m: "unat (ucast n * 1000 :: u64) = unat n * 1000"
    using b by (subst unat_mult_lem [THEN iffD1]) (simp_all add: n)
  have "unat (999 + ucast n * 1000 :: u64) = 999 + unat n * 1000"
    unfolding m [symmetric] by (subst unat_add_lem [THEN iffD1]) (use b m in simp_all)
  then have "unat (ST2MS n) = unat n" by (simp add: ST2MS_def CH_CFG_ST_FREQUENCY_def unat_div)
  then show ?thesis by (metis n word_unat_eq_iff)
qed

lemma ST2US_eq: "ST2US n = ucast n * 1000"
proof -
  have b: "unat n < 4294967296" using unsigned_less [of n, where 'a = nat] by simp
  have n: "unat (ucast n :: u64) = unat n" using b by (simp add: unsigned_ucast_eq take_bit_nat_eq_self)
  have m: "unat (ucast n * 1000000 :: u64) = unat n * 1000000"
    using b by (subst unat_mult_lem [THEN iffD1]) (simp_all add: n)
  have m': "unat (ucast n * 1000 :: u64) = unat n * 1000"
    using b by (subst unat_mult_lem [THEN iffD1]) (simp_all add: n)
  have "unat (999 + ucast n * 1000000 :: u64) = 999 + unat n * 1000000"
    unfolding m [symmetric] by (subst unat_add_lem [THEN iffD1]) (use b m in simp_all)
  then have "unat (ST2US n) = unat n * 1000" by (simp add: ST2US_def CH_CFG_ST_FREQUENCY_def unat_div)
  then show ?thesis by (metis m' word_unat_eq_iff)
qed


text \<open>
  \<open>millis\<close> is the number of milliseconds since the application started and \<open>micros\<close> 1000 times as many, both
  modulo 4294967296 and unaffected by the system time wrapping around in between; \<open>MS2ST\<close> is the identity up to 4294966
  milliseconds and \<open>US2ST\<close> rounds up to whole ticks up to 4293967 microseconds.
\<close>

theorem time_conversions_exact:
  "millis t0 s = chVTGetSystemTimeX s - t0 \<and> micros t0 s = (chVTGetSystemTimeX s - t0) * 1000
   \<and> (ms \<le> 4294966 \<longrightarrow> MS2ST ms = ms) \<and> (us \<le> 4293967 \<longrightarrow> unat (US2ST us) = (unat us + 999) div 1000)"
proof (intro conjI impI MS2ST_exact US2ST_exact)
  have "ucast (ucast (n :: u32) :: u64) = n" for n by (rule bit_word_eqI) (simp add: bit_simps)
  then show "millis t0 s = chVTGetSystemTimeX s - t0"
    by (simp add: millis_def ST2MS_eq chVTTimeElapsedSinceX_def)
  have "ucast (ucast (n :: u32) * 1000 :: u64) = n * 1000" for n
    by (simp add: word_uint_eq_iff uint_word_arith_bintrs unsigned_ucast_eq take_bit_eq_mod mod_mult_left_eq mod_mod_cancel)
  then show "micros t0 s = (chVTGetSystemTimeX s - t0) * 1000"
    by (simp add: micros_def ST2US_eq chVTTimeElapsedSinceX_def)
qed assumption+

theorem time_conversions_exact_witness:
  "MS2ST 250 = 250 \<and> unat (US2ST 1500) = 2 \<and> MS2ST 4294968 = 1 \<and> MS2ST 0 = 0"
  using time_conversions_exact [of 0 "no_timers ()" 250 1500]
  by (auto simp: MS2ST_def)

section \<open>Timers of the application\<close>

lemma more_update_frame [simp]:
  "vtlist (vtimers.more_update g s) = vtlist s" "vt_func (vtimers.more_update g s) = vt_func s"
  by simp_all

text \<open>\<open>setTimer\<close> on a state with a free slot is \<open>chVTSet\<close> with the slot filled.\<close>

lemma setTimer_free:
  assumes rep: "vt_rep s ds" and live: "vt_live ds" and new: "vtp \<noteq> vtlist s"
    and slot: "free_slot 0 (vtcallbacks (vtimers.more s)) = Some i"
  obtains s1 ds1 where "setTimer vtp delay func par s = Some (0, s1)" "vt_rep s1 ds1"
    "remaining 0 ds1 = insert_deadline vtp (unat delay) (filter (\<lambda>(u, _). u \<noteq> vtp) (remaining 0 ds))"
    "vt_func s1 = (vt_func s)(vtp := Some VT_post)" "vt_par s1 = (vt_par s)(vtp := of_nat i)" "vtlist s1 = vtlist s"
    "vtimers.more s1 = (vtimers.more s)\<lparr>vtcallbacks :=
       (vtcallbacks (vtimers.more s))[i := \<lparr>cb_func = func, cb_param = par\<rparr>]\<rparr>"
proof -
  let ?s = "vtimers.more_update (\<lambda>c. c\<lparr>vtcallbacks := (vtcallbacks c)[i := \<lparr>cb_func = func, cb_param = par\<rparr>]\<rparr>) s"
  have "vt_rep ?s ds" "vtp \<noteq> vtlist ?s" using rep new by simp_all
  then obtain s1 ds1 where s1: "chVTSetI vtp delay VT_post (of_nat i) ?s = Some s1" "vt_rep s1 ds1"
    "remaining 0 ds1 = insert_deadline vtp (unat delay) (filter (\<lambda>(u, _). u \<noteq> vtp) (remaining 0 ds))"
    "vt_func s1 = (vt_func ?s)(vtp := Some VT_post)" "vt_par s1 = (vt_par ?s)(vtp := of_nat i)" "vtlist s1 = vtlist ?s"
    "vt_systime s1 = vt_systime ?s" "vtimers.more s1 = vtimers.more ?s"
    by (rule chVTSetI_refines [OF _ live])
  have "setTimer vtp delay func par s = Some (0, s1)" using slot s1(1) by (simp add: setTimer_def)
  then show ?thesis by (rule that) (use s1 in simp_all)
qed

lemma vt_live_set:
  assumes "vt_live ds" "delay \<noteq> 0"
    "remaining 0 ds1 = insert_deadline vtp (unat (delay :: u32)) (filter P (remaining 0 ds))"
  shows "vt_live ds1"
proof -
  have "set (remaining 0 ds1) \<subseteq> insert (vtp, unat delay) (set (remaining 0 ds))"
    unfolding assms(3) set_insert_deadline by auto
  then show ?thesis using assms(1,2) unsigned_less [of delay, where 'a = nat] by (fastforce simp: vt_live_def unat_gt_0)
qed

lemma vt_live_reset:
  assumes "vt_rep s ds" "vt_live ds"
  shows "vt_live (vt_delete vtp ds)"
proof -
  have "remaining 0 (vt_delete vtp ds) = filter (\<lambda>(u, _). u \<noteq> vtp) (remaining 0 ds)"
    by (rule remaining_delete) (use assms in \<open>auto simp: vt_live_def vt_rep_def queue_rep_def\<close>)
  then show ?thesis using assms(2) by (auto simp: vt_live_def)
qed

text \<open>
  a timer that is reset before it fires does not give its slot back: after two timers have been set and reset, no
  timer of the application is armed, and yet \<open>setTimer\<close> returns -1 for every timer, without arming it, for ever.
\<close>

theorem resetTimer_leaks_slot:
  assumes rep: "vt_rep s ds" and live: "vt_live ds" and new: "v1 \<noteq> vtlist s" "v2 \<noteq> vtlist s"
    and d: "d1 \<noteq> 0" "d2 \<noteq> 0" and f: "f1 \<noteq> 0" "f2 \<noteq> 0" and c: "vtimers.more s = callbacks_reset"
  shows "\<exists>s1 s2. setTimer v1 d1 f1 p1 s = Some (0, s1) \<and> setTimer v2 d2 f2 p2 (resetTimer v1 s1) = Some (0, s2)
    \<and> (\<forall>u. chVTIsArmedI u (resetTimer v2 s2) \<longleftrightarrow> u \<noteq> v1 \<and> u \<noteq> v2 \<and> chVTIsArmedI u s)
    \<and> (\<forall>v d f p. setTimer v d f p (resetTimer v2 s2) = Some (-1, resetTimer v2 s2))"
proof -
  obtain s1 ds1 where s1: "setTimer v1 d1 f1 p1 s = Some (0, s1)" "vt_rep s1 ds1"
    "remaining 0 ds1 = insert_deadline v1 (unat d1) (filter (\<lambda>(u, _). u \<noteq> v1) (remaining 0 ds))"
    "vt_func s1 = (vt_func s)(v1 := Some VT_post)" "vt_par s1 = (vt_par s)(v1 := of_nat 0)" "vtlist s1 = vtlist s"
    "vtimers.more s1 = (vtimers.more s)\<lparr>vtcallbacks := (vtcallbacks (vtimers.more s))[0 := \<lparr>cb_func = f1, cb_param = p1\<rparr>]\<rparr>"
    by (rule setTimer_free [OF rep live new(1)]) (simp add: c callbacks_reset_def numeral_2_eq_2)
  note r1 = chVTResetI_refines [OF s1(2), of v1, folded resetTimer_def]
  have "vt_live (vt_delete v1 ds1)" by (rule vt_live_reset [OF s1(2) vt_live_set [OF live d(1) s1(3)]])
  moreover have "v2 \<noteq> vtlist (resetTimer v1 s1)" using new s1 r1 by simp
  moreover have "free_slot 0 (vtcallbacks (vtimers.more (resetTimer v1 s1))) = Some 1"
    using f by (simp add: r1 s1 c callbacks_reset_def numeral_2_eq_2)
  ultimately obtain s2 ds2 where s2: "setTimer v2 d2 f2 p2 (resetTimer v1 s1) = Some (0, s2)" "vt_rep s2 ds2"
    "remaining 0 ds2 = insert_deadline v2 (unat d2) (filter (\<lambda>(u, _). u \<noteq> v2) (remaining 0 (vt_delete v1 ds1)))"
    "vt_func s2 = (vt_func (resetTimer v1 s1))(v2 := Some VT_post)" "vt_par s2 = (vt_par (resetTimer v1 s1))(v2 := of_nat 1)"
    "vtlist s2 = vtlist (resetTimer v1 s1)"
    "vtimers.more s2 = (vtimers.more (resetTimer v1 s1))\<lparr>vtcallbacks :=
       (vtcallbacks (vtimers.more (resetTimer v1 s1)))[1 := \<lparr>cb_func = f2, cb_param = p2\<rparr>]\<rparr>"
    by (rule setTimer_free [OF r1(1)])
  note r2 = chVTResetI_refines [OF s2(2), of v2, folded resetTimer_def]
  have "free_slot 0 (vtcallbacks (vtimers.more (resetTimer v2 s2))) = None"
    using f by (simp add: r2 s2 r1 s1 c callbacks_reset_def numeral_2_eq_2)
  then have "setTimer v d f p (resetTimer v2 s2) = Some (-1, resetTimer v2 s2)" for v d f p by (simp add: setTimer_def)
  moreover have "chVTIsArmedI u (resetTimer v2 s2) \<longleftrightarrow> u \<noteq> v1 \<and> u \<noteq> v2 \<and> chVTIsArmedI u s" for u
    using s1(4) s2(4) r1(4) r2(4) by (simp add: chVTIsArmedI_def)
  ultimately show ?thesis using s1(1) s2(1) by blast
qed

theorem resetTimer_leaks_slot_witness:
  "\<exists>s1 s2. setTimer 0x200 10 0x5001 1 (no_timers callbacks_reset) = Some (0, s1)
    \<and> setTimer 0x300 20 0x5101 2 (resetTimer 0x200 s1) = Some (0, s2)
    \<and> setTimer 0x200 5 0x5001 3 (resetTimer 0x300 s2) = Some (-1, resetTimer 0x300 s2)"
  using resetTimer_leaks_slot [OF no_timers_rep(1,4), of "0x200" callbacks_reset "0x300" 10 20 "0x5001" "0x5101" 1 2]
  by (auto simp: no_timers_rep)


lemma call_all_post:
  assumes "distinct ts" "\<And>t. t \<in> set ts \<Longrightarrow> t \<noteq> vtp \<Longrightarrow> fst (g t) = VT_wakeup" "g vtp = (VT_post, p)"
  shows "call_all timer_call (map g ts) c = Some (if vtp \<in> set ts then post_timer_callback_to_arduino_thread p c else c)"
  using assms(1,2)
proof (induction ts arbitrary: c)
  case (Cons t ts)
  show ?case
  proof (cases "t = vtp")
    case True
    then show ?thesis using Cons assms(3) by simp
  next
    case False
    then have "fst (g t) = VT_wakeup" using Cons.prems(2) [of t] by simp
    then obtain q where "g t = (VT_wakeup, q)" by (cases "g t") simp
    then show ?thesis using Cons False by simp
  qed
qed simp

lemma post_first_slot:
  assumes "c = callbacks_reset\<lparr>vtcallbacks := [\<lparr>cb_func = func, cb_param = par\<rparr>, \<lparr>cb_func = 0, cb_param = 0\<rparr>]\<rparr>"
  shows "post_timer_callback_to_arduino_thread 0 c = callbacks_reset\<lparr>scheduled_callbacks :=
    [\<lparr>cb_func = func, cb_param = par\<rparr>, \<lparr>cb_func = 0, cb_param = 0\<rparr>], num_scheduled_callbacks := 1\<rparr>"
  by (simp add: assms post_timer_callback_to_arduino_thread_def callbacks_reset_def numeral_2_eq_2)

lemma runCallbacks_one:
  assumes c: "vtimers.more s = callbacks_reset\<lparr>scheduled_callbacks :=
      [\<lparr>cb_func = func, cb_param = par\<rparr>, \<lparr>cb_func = 0, cb_param = 0\<rparr>], num_scheduled_callbacks := 1\<rparr>"
    and func: "func \<noteq> 0" and app: "vtimers.more (app func par s) = vtimers.more s"
  shows "runCallbacks app s = vtimers.more_update (\<lambda>_. callbacks_reset\<lparr>scheduled_callbacks :=
      [\<lparr>cb_func = 0, cb_param = par\<rparr>, \<lparr>cb_func = 0, cb_param = 0\<rparr>]\<rparr>) (app func par s)"
proof -
  let ?s = "app func par s"
  have u: "vtimers.more_update h ?s = vtimers.more_update (\<lambda>_. h (vtimers.more s)) ?s" for h
    unfolding app [symmetric] by (cases ?s) simp
  have "runCallback app 0 s = vtimers.more_update (\<lambda>_. callbacks_reset\<lparr>scheduled_callbacks :=
      [\<lparr>cb_func = 0, cb_param = par\<rparr>, \<lparr>cb_func = 0, cb_param = 0\<rparr>]\<rparr>) ?s" (is "_ = ?s0")
    using func by (simp add: runCallback_def c Let_def) (subst u, simp add: c callbacks_reset_def)
  moreover have "runCallback app 1 ?s0 = ?s0" by (simp add: runCallback_def Let_def)
  ultimately show ?thesis by (simp add: runCallbacks_def c)
qed

text \<open>The ticks post the function of a timer set with a delay once that is over.\<close>

lemma set_timer_ticks:
  assumes rep: "vt_rep s1 ds1" and live: "vt_live ds1" and d: "remaining 0 ds1 = insert_deadline vtp (unat delay) rs" "\<And>r. (vtp, r) \<notin> set rs"
    and p: "vt_func s1 vtp = Some VT_post" "vt_par s1 vtp = 0" and others: "\<And>t. t \<noteq> vtp \<Longrightarrow> vt_func s1 t \<noteq> Some VT_post"
  obtains s2 where "ticks (quiet timer_call) k s1 = Some s2"
    "vtimers.more s2 = (if unat delay \<le> k then post_timer_callback_to_arduino_thread 0 (vtimers.more s1) else vtimers.more s1)"
proof -
  let ?g = "\<lambda>t. (the (vt_func s1 t), vt_par s1 t)"
  have dist: "distinct (map fst (remaining 0 ds1))" using rep by (simp add: vt_rep_def queue_rep_def)
  have "distinct (fired k ds1)" unfolding fired_def using dist by (rule distinct_map_filter)
  moreover have "fst (?g t) = VT_wakeup" if "t \<in> set (fired k ds1)" "t \<noteq> vtp" for t
  proof -
    have "t \<in> set (map fst (remaining 0 ds1))" using that(1) by (force simp: fired_def simp del: remaining_fst)
    then have "vt_func s1 t \<noteq> None" using rep unfolding remaining_fst by (simp add: vt_rep_def)
    then show ?thesis using others [OF that(2)] by (cases "the (vt_func s1 t)") auto
  qed
  moreover have "vtp \<in> set (fired k ds1) \<longleftrightarrow> unat delay \<le> k"
    using d(2) unfolding fired_def d(1) by (force simp: set_insert_deadline)
  ultimately have "call_all timer_call (calls s1 (fired k ds1)) (vtimers.more s1) =
      Some (if unat delay \<le> k then post_timer_callback_to_arduino_thread 0 (vtimers.more s1) else vtimers.more s1)"
    unfolding calls_def by (subst call_all_post [where vtp = vtp and p = 0]) (simp_all add: p)
  then show ?thesis using ticks_eq [OF rep live, of timer_call k] that by (auto simp: after_ticks_def)
qed

text \<open>
  An application timer runs its function once, after its delay: from a state in which all slots are free and the other
  running timers only wake threads, \<open>setTimer\<close> succeeds; until the delay is over \<open>runCallbacks\<close> runs nothing, and from then
  on it calls the function with its parameter, once, and the slots are free again.
\<close>

theorem setTimer_runs_callback_once:
  assumes rep: "vt_rep s ds" and live: "vt_live ds" and new: "vtp \<noteq> vtlist s" and d0: "delay \<noteq> 0" and func: "func \<noteq> 0"
    and c: "vtimers.more s = callbacks_reset" and others: "\<And>t. t \<noteq> vtp \<Longrightarrow> vt_func s t \<noteq> Some VT_post"
    and app: "\<And>s. vtimers.more (app func par s) = vtimers.more s"
  shows "\<exists>s1 s2. setTimer vtp delay func par s = Some (0, s1) \<and> ticks (quiet timer_call) k s1 = Some s2
    \<and> (if k < unat delay then runCallbacks app s2 = s2
       else \<exists>c. runCallbacks app s2 = vtimers.more_update (\<lambda>_. c) (app func par s2)
         \<and> runCallbacks app (runCallbacks app s2) = runCallbacks app s2
         \<and> vtcallbacks c = vtcallbacks callbacks_reset \<and> free_slot 0 (scheduled_callbacks c) = Some 0)"
proof -
  let ?e = "\<lparr>cb_func = 0, cb_param = 0\<rparr> :: vt_callback" and ?f = "\<lparr>cb_func = func, cb_param = par\<rparr> :: vt_callback"
  obtain s1 ds1 where s1: "setTimer vtp delay func par s = Some (0, s1)" "vt_rep s1 ds1"
    "remaining 0 ds1 = insert_deadline vtp (unat delay) (filter (\<lambda>(u, _). u \<noteq> vtp) (remaining 0 ds))"
    "vt_func s1 = (vt_func s)(vtp := Some VT_post)" "vt_par s1 = (vt_par s)(vtp := of_nat 0)" "vtlist s1 = vtlist s"
    "vtimers.more s1 = (vtimers.more s)\<lparr>vtcallbacks := (vtcallbacks (vtimers.more s))[0 := ?f]\<rparr>"
    by (rule setTimer_free [OF rep live new]) (simp add: c callbacks_reset_def numeral_2_eq_2)
  have m1: "vtimers.more s1 = callbacks_reset\<lparr>vtcallbacks := [?f, ?e]\<rparr>"
    using s1(7) by (simp add: c callbacks_reset_def numeral_2_eq_2)
  have rs: "(vtp, r) \<notin> set (filter (\<lambda>(u, _). u \<noteq> vtp) (remaining 0 ds))" for r by simp
  have nf: "vt_func s1 t \<noteq> Some VT_post" if "t \<noteq> vtp" for t using others [OF that] that s1(4) by simp
  obtain s2 where s2: "ticks (quiet timer_call) k s1 = Some s2"
    "vtimers.more s2 = (if unat delay \<le> k then post_timer_callback_to_arduino_thread 0 (vtimers.more s1) else vtimers.more s1)"
    by (rule set_timer_ticks [OF s1(2) vt_live_set [OF live d0 s1(3)] s1(3) rs _ _ nf]) (simp_all add: s1)
  show ?thesis
  proof (cases "unat delay \<le> k")
    case False
    then have "runCallbacks app s2 = s2" using s2(2) m1 by (simp add: runCallbacks_def callbacks_reset_def)
    then show ?thesis using s1(1) s2(1) False by auto
  next
    case True
    then have "vtimers.more s2 = callbacks_reset\<lparr>scheduled_callbacks := [?f, ?e], num_scheduled_callbacks := 1\<rparr>"
      using s2(2) post_first_slot [OF m1] by simp
    note r = runCallbacks_one [of s2 func par app, OF this func app]
    let ?c = "callbacks_reset\<lparr>scheduled_callbacks := [\<lparr>cb_func = 0, cb_param = par\<rparr>, ?e]\<rparr>"
    have "num_scheduled_callbacks (vtimers.more (runCallbacks app s2)) = 0" by (simp add: r callbacks_reset_def)
    then have "runCallbacks app (runCallbacks app s2) = runCallbacks app s2"
      by (subst runCallbacks_def) simp
    moreover have "vtcallbacks ?c = vtcallbacks callbacks_reset" "free_slot 0 (scheduled_callbacks ?c) = Some 0" by simp_all
    ultimately show ?thesis using s1(1) s2(1) True r by (metis not_le)
  qed
qed

theorem setTimer_runs_callback_once_witness:
  "\<exists>s1 s2. setTimer 0x200 3 0x5001 9 (no_timers callbacks_reset) = Some (0, s1) \<and> ticks (quiet timer_call) 3 s1 = Some s2
    \<and> (\<exists>c. runCallbacks (\<lambda>f p s. s\<lparr>vt_systime := p\<rparr>) s2 = vtimers.more_update (\<lambda>_. c) (s2\<lparr>vt_systime := 9\<rparr>))"
proof -
  have "vt_func (no_timers callbacks_reset :: atimers) t \<noteq> Some VT_post" for t
    by (simp add: no_timers_def vt_init_def)
  then show ?thesis
    using setTimer_runs_callback_once [OF no_timers_rep(1,4), of "0x200" callbacks_reset 3 "0x5001" "\<lambda>f p s. s\<lparr>vt_systime := p\<rparr>" 9 3]
    by (auto simp: no_timers_rep)
qed

end
