(* ===== verification/Kernel.thy ===== *)
theory Kernel
  imports Arduino_Timers "HOL-Library.Monad_Syntax"
begin

text \<open>
  The scheduler and the threads of the kernel: \<^verbatim>\<open>os/rt/src/chschd.c\<close>, \<^verbatim>\<open>chthreads.c\<close>, \<^verbatim>\<open>chsem.c\<close>, the reference counts of
  \<^verbatim>\<open>chdynamic.c\<close>, the registry, and the tick handler of \<^verbatim>\<open>chsys.c\<close>, in the configuration of \<^verbatim>\<open>orchard/chconf.h\<close>.

  Queues are the lists of threads that \<open>Thread_Queues\<close> shows the links to implement.  A call that gives up the
  processor ends at the context switch; what is left of it to do is kept in \<open>pend\<close> and run by \<open>resume\<close> when the
  thread becomes the running one again, as on the processor, where it continues behind \<^verbatim>\<open>chSysSwitch\<close>.  Debug checks
  are disabled in this configuration.  \<open>None\<close> is a call that does not come back: the loop of \<open>chSchReadyI\<close> for a
  thread of priority 0, or a switch with no thread ready.
\<close>

section \<open>State\<close>

datatype tstate =
    CH_STATE_READY | CH_STATE_CURRENT | CH_STATE_WTSTART | CH_STATE_SUSPENDED | CH_STATE_QUEUED | CH_STATE_WTSEM
  | CH_STATE_WTMTX | CH_STATE_WTCOND | CH_STATE_SLEEPING | CH_STATE_WTEXIT | CH_STATE_WTOREVT | CH_STATE_WTANDEVT
  | CH_STATE_SNDMSGQ | CH_STATE_SNDMSG | CH_STATE_WTMSG | CH_STATE_FINAL

text \<open>The union \<^verbatim>\<open>p_u\<close> is one word, read as a message, an exit code, a pointer or an event mask.\<close>

record thread =
  p_prio :: u32
  p_name :: u32
  p_state :: tstate
  p_flags :: u8
  p_refs :: u8
  p_preempt :: u8
  p_u :: u32
  p_waiting :: "tid list"
  p_epending :: u32
  p_mtxlist :: u32
  p_realprio :: u32

text \<open>Headers of queues: the ready list, a semaphore, a \<^verbatim>\<open>threads_queue_t\<close>, a mutex, a condition variable.\<close>

datatype qid = RList | Sem u32 | TQueue u32 | Mtx u32 | Cond u32

text \<open>The ways to wait for events: \<^verbatim>\<open>chEvtWaitOne\<close>, \<^verbatim>\<open>chEvtWaitAny\<close>, \<^verbatim>\<open>chEvtWaitAll\<close>.\<close>

datatype evt_mode = Evt_one | Evt_any | Evt_all

text \<open>What remains of a call behind the context switch: to return \<^verbatim>\<open>p_u.rdymsg\<close>, or a given value; to disarm the timer of
  \<open>chSchGoSleepTimeoutS\<close> and return \<^verbatim>\<open>p_u.rdymsg\<close>, or a given value; to return the exit code of a thread and release it; to take
  the events that were waited for, after a look at the message in the calls with a time-out.\<close>

datatype frame =
    F_rdymsg | F_timeout tid | F_value u32 | F_timeout_value tid u32 | F_exitcode tid
  | F_evt evt_mode u32 | F_evt_msg evt_mode u32 | F_evt_timeout tid evt_mode u32

fun timer_of :: "frame \<Rightarrow> tid option" where
  "timer_of (F_timeout vt) = Some vt"
| "timer_of (F_timeout_value vt v) = Some vt"
| "timer_of (F_evt_timeout vt md events) = Some vt"
| "timer_of _ = None"

text \<open>\<open>s_cnt\<close> are the counters of the semaphores, \<open>m_owner\<close> and \<open>m_next\<close> the fields of the mutexes (0 for \<^verbatim>\<open>NULL\<close>), \<open>tref\<close> the variables of type \<^verbatim>\<open>thread_reference_t\<close> (0 for \<^verbatim>\<open>NULL\<close>),
  \<open>el\<close> the event listeners, where a source of events is the listener of which only \<^verbatim>\<open>el_next\<close> is used,
  \<open>ret\<close> the value the last call of a thread returned, \<open>heap_freed\<close> the blocks given back to the heap.\<close>

record listener =
  el_next :: u32
  el_listener :: tid
  el_events :: u32
  el_flags :: u32
  el_wflags :: u32

record kernel =
  thr :: "tid \<Rightarrow> thread"
  queues :: "qid \<Rightarrow> tid list"
  currp :: tid
  registry :: "tid list"
  s_cnt :: "u32 \<Rightarrow> int"
  m_owner :: "u32 \<Rightarrow> tid"
  m_next :: "u32 \<Rightarrow> u32"
  tref :: "u32 \<Rightarrow> tid"
  el :: "u32 \<Rightarrow> listener"
  pend :: "tid \<Rightarrow> frame option"
  ret :: "tid \<Rightarrow> u32"
  heap_freed :: "tid list"

type_synonym sys = "(vtfunc, kernel) vtimers_scheme"

definition CH_CFG_TIME_QUANTUM :: u8 where "CH_CFG_TIME_QUANTUM = 20"
definition MSG_OK :: u32 where "MSG_OK = 0"
definition MSG_TIMEOUT :: u32 where "MSG_TIMEOUT = -1"
definition MSG_RESET :: u32 where "MSG_RESET = -2"
definition TIME_IMMEDIATE :: u32 where "TIME_IMMEDIATE = 0"
definition TIME_INFINITE :: u32 where "TIME_INFINITE = -1"
definition IDLEPRIO :: u32 where "IDLEPRIO = 1"
definition CH_FLAG_MODE_MASK :: u8 where "CH_FLAG_MODE_MASK = 3"
definition CH_FLAG_MODE_STATIC :: u8 where "CH_FLAG_MODE_STATIC = 0"
definition CH_FLAG_MODE_HEAP :: u8 where "CH_FLAG_MODE_HEAP = 1"
definition CH_FLAG_TERMINATE :: u8 where "CH_FLAG_TERMINATE = 4"

definition set_thr :: "tid \<Rightarrow> (thread \<Rightarrow> thread) \<Rightarrow> kernel \<Rightarrow> kernel" where
  "set_thr tp f k = k\<lparr>thr := (thr k)(tp := f (thr k tp))\<rparr>"

definition set_queue :: "qid \<Rightarrow> tid list \<Rightarrow> kernel \<Rightarrow> kernel" where
  "set_queue q ts k = k\<lparr>queues := (queues k)(q := ts)\<rparr>"

abbreviation set_p_state :: "tid \<Rightarrow> tstate \<Rightarrow> kernel \<Rightarrow> kernel" where
  "set_p_state tp st \<equiv> set_thr tp (\<lambda>t. t\<lparr>p_state := st\<rparr>)"

abbreviation set_p_u :: "tid \<Rightarrow> u32 \<Rightarrow> kernel \<Rightarrow> kernel" where
  "set_p_u tp v \<equiv> set_thr tp (\<lambda>t. t\<lparr>p_u := v\<rparr>)"

abbreviation prio :: "kernel \<Rightarrow> tid \<Rightarrow> u32" where
  "prio k t \<equiv> p_prio (thr k t)"

definition return :: "u32 \<Rightarrow> kernel \<Rightarrow> kernel" where
  "return v k = k\<lparr>ret := (ret k)(currp k := v)\<rparr>"

text \<open>\<^verbatim>\<open>queue_dequeue\<close> unlinks a thread from the queue it is in.\<close>

definition dequeue :: "tid \<Rightarrow> kernel \<Rightarrow> kernel" where
  "dequeue tp k = k\<lparr>queues := (\<lambda>q. remove1 tp (queues k q))\<rparr>"

section \<open>Scheduler\<close>

definition firstprio :: "kernel \<Rightarrow> u32" where
  "firstprio k = (case queues k RList of [] \<Rightarrow> 0 | t # ts \<Rightarrow> prio k t)"

definition chSchReadyI :: "tid \<Rightarrow> kernel \<Rightarrow> kernel option" where
  "chSchReadyI tp k =
     (let k = set_p_state tp CH_STATE_READY k
      in if prio k tp = 0 then None
         else Some (set_queue RList (insert_prio (prio k) True tp (queues k RList)) k))"

text \<open>\<^verbatim>\<open>setcurrp(queue_fifo_remove(&ch.rlist.r_queue)); currp->p_state = CH_STATE_CURRENT\<close>\<close>

definition pick_first :: "kernel \<Rightarrow> kernel option" where
  "pick_first k =
     (case queues k RList of
        [] \<Rightarrow> None
      | t # ts \<Rightarrow> Some (set_p_state t CH_STATE_CURRENT ((set_queue RList ts k)\<lparr>currp := t\<rparr>)))"

definition chSchGoSleepS :: "tstate \<Rightarrow> kernel \<Rightarrow> kernel option" where
  "chSchGoSleepS newstate k =
     (let otp = currp k;
          k = set_p_state otp newstate k;
          k = set_thr otp (\<lambda>t. t\<lparr>p_preempt := CH_CFG_TIME_QUANTUM\<rparr>) k
      in pick_first k)"

definition chSchWakeupS :: "tid \<Rightarrow> u32 \<Rightarrow> kernel \<Rightarrow> kernel option" where
  "chSchWakeupS ntp msg k =
     (let k = set_p_u ntp msg k
      in if prio k ntp \<le> prio k (currp k) then chSchReadyI ntp k
         else do {
           k \<leftarrow> chSchReadyI (currp k) k;
           Some (set_p_state ntp CH_STATE_CURRENT (k\<lparr>currp := ntp\<rparr>))
         })"

definition chSchIsRescRequiredI :: "kernel \<Rightarrow> bool" where
  "chSchIsRescRequiredI k \<longleftrightarrow> firstprio k > prio k (currp k)"

definition chSchCanYieldS :: "kernel \<Rightarrow> bool" where
  "chSchCanYieldS k \<longleftrightarrow> firstprio k \<ge> prio k (currp k)"

definition chSchDoRescheduleBehind :: "kernel \<Rightarrow> kernel option" where
  "chSchDoRescheduleBehind k =
     (let otp = currp k
      in do {
        k \<leftarrow> pick_first k;
        let k = set_thr otp (\<lambda>t. t\<lparr>p_preempt := CH_CFG_TIME_QUANTUM\<rparr>) k;
        chSchReadyI otp k
      })"

definition chSchDoRescheduleAhead :: "kernel \<Rightarrow> kernel option" where
  "chSchDoRescheduleAhead k =
     (let otp = currp k
      in do {
        k \<leftarrow> pick_first k;
        let k = set_p_state otp CH_STATE_READY k;
        Some (set_queue RList (insert_prio (prio k) False otp (queues k RList)) k)
      })"

definition chSchRescheduleS :: "kernel \<Rightarrow> kernel option" where
  "chSchRescheduleS k = (if chSchIsRescRequiredI k then chSchDoRescheduleAhead k else Some k)"

definition chSchDoYieldS :: "kernel \<Rightarrow> kernel option" where
  "chSchDoYieldS k = (if chSchCanYieldS k then chSchDoRescheduleBehind k else Some k)"

definition chSchIsPreemptionRequired :: "kernel \<Rightarrow> bool" where
  "chSchIsPreemptionRequired k =
     (let p1 = firstprio k; p2 = prio k (currp k)
      in if p_preempt (thr k (currp k)) > 0 then p1 > p2 else p1 \<ge> p2)"

definition chSchDoReschedule :: "kernel \<Rightarrow> kernel option" where
  "chSchDoReschedule k =
     (if p_preempt (thr k (currp k)) = 0 then chSchDoRescheduleBehind k else chSchDoRescheduleAhead k)"

definition set_s_cnt :: "u32 \<Rightarrow> int \<Rightarrow> kernel \<Rightarrow> kernel" where
  "set_s_cnt sp n k = k\<lparr>s_cnt := (s_cnt k)(sp := n)\<rparr>"

definition set_tref :: "u32 \<Rightarrow> tid \<Rightarrow> kernel \<Rightarrow> kernel" where
  "set_tref trp tp k = k\<lparr>tref := (tref k)(trp := tp)\<rparr>"

definition chSemFastWaitI :: "u32 \<Rightarrow> kernel \<Rightarrow> kernel" where
  "chSemFastWaitI sp k = set_s_cnt sp (s_cnt k sp - 1) k"

definition chSemFastSignalI :: "u32 \<Rightarrow> kernel \<Rightarrow> kernel" where
  "chSemFastSignalI sp k = set_s_cnt sp (s_cnt k sp + 1) k"

text \<open>The function of the timers \<open>chSchGoSleepTimeoutS\<close> sets.\<close>

definition wakeup :: "tid \<Rightarrow> kernel \<Rightarrow> kernel option" where
  "wakeup tp k =
     (let finish = (\<lambda>k. chSchReadyI tp (set_p_u tp MSG_TIMEOUT k))
      in case p_state (thr k tp) of
           CH_STATE_READY \<Rightarrow> Some k
         | CH_STATE_SUSPENDED \<Rightarrow> finish (set_tref (p_u (thr k tp)) 0 k)
         | CH_STATE_WTSEM \<Rightarrow>
             finish (dequeue tp (chSemFastSignalI (p_u (thr k tp)) k))
         | CH_STATE_WTCOND \<Rightarrow> finish (dequeue tp k)
         | CH_STATE_QUEUED \<Rightarrow> finish (dequeue tp k)
         | _ \<Rightarrow> finish k)"

text \<open>What \<open>resume\<close> runs.  A thread whose last reference is released and that has ended is given back to the heap,
  if it came from there.\<close>

definition chThdRelease :: "tid \<Rightarrow> kernel \<Rightarrow> kernel" where
  "chThdRelease tp k =
     (let k = set_thr tp (\<lambda>t. t\<lparr>p_refs := p_refs t - 1\<rparr>) k
      in if p_refs (thr k tp) = 0 \<and> p_state (thr k tp) = CH_STATE_FINAL
           \<and> and (p_flags (thr k tp)) CH_FLAG_MODE_MASK = CH_FLAG_MODE_HEAP
         then k\<lparr>registry := remove1 tp (registry k), heap_freed := tp # heap_freed k\<rparr>
         else k)"

definition chThdAddRef :: "tid \<Rightarrow> kernel \<Rightarrow> kernel" where
  "chThdAddRef tp k = return tp (set_thr tp (\<lambda>t. t\<lparr>p_refs := p_refs t + 1\<rparr>) k)"

text \<open>The events of the running thread that a wait takes: \<^verbatim>\<open>m = ctp->p_epending & events; m ^= m & (m - 1)\<close>, or all of \<^verbatim>\<open>m\<close>, or all of
  \<^verbatim>\<open>events\<close>; then \<^verbatim>\<open>ctp->p_epending &= ~m\<close>.\<close>

definition evt_taken :: "evt_mode \<Rightarrow> u32 \<Rightarrow> u32 \<Rightarrow> u32" where
  "evt_taken md events pending =
     (let m = and pending events
      in case md of Evt_one \<Rightarrow> xor m (and m (m - 1)) | Evt_any \<Rightarrow> m | Evt_all \<Rightarrow> events)"

definition evt_take :: "evt_mode \<Rightarrow> u32 \<Rightarrow> kernel \<Rightarrow> kernel" where
  "evt_take md events k =
     (let c = currp k; m = evt_taken md events (p_epending (thr k c))
      in return m (set_thr c (\<lambda>t. t\<lparr>p_epending := and (p_epending t) (not m)\<rparr>) k))"

text \<open>The test of \<^verbatim>\<open>chEvtSignalI\<close> on the AND/OR conditions of the wait states.\<close>

definition evt_awaited :: "thread \<Rightarrow> bool" where
  "evt_awaited t \<longleftrightarrow>
     p_state t = CH_STATE_WTOREVT \<and> and (p_epending t) (p_u t) \<noteq> 0
     \<or> p_state t = CH_STATE_WTANDEVT \<and> and (p_epending t) (p_u t) = p_u t"

text \<open>\<^verbatim>\<open>if (chSchGoSleepTimeoutS(...) < MSG_OK) return 0;\<close>\<close>

definition evt_woken :: "evt_mode \<Rightarrow> u32 \<Rightarrow> kernel \<Rightarrow> kernel" where
  "evt_woken md events k = (if sint (p_u (thr k (currp k))) < 0 then return 0 k else evt_take md events k)"

fun run_frame :: "frame \<Rightarrow> sys \<Rightarrow> sys" where
  "run_frame F_rdymsg s = vtimers.more_update (\<lambda>k. return (p_u (thr k (currp k))) k) s"
| "run_frame (F_timeout vt) s =
     vtimers.more_update (\<lambda>k. return (p_u (thr k (currp k))) k) (if chVTIsArmedI vt s then chVTDoResetI vt s else s)"
| "run_frame (F_value v) s = vtimers.more_update (return v) s"
| "run_frame (F_timeout_value vt v) s =
     vtimers.more_update (return v) (if chVTIsArmedI vt s then chVTDoResetI vt s else s)"
| "run_frame (F_evt md events) s = vtimers.more_update (evt_take md events) s"
| "run_frame (F_evt_msg md events) s = vtimers.more_update (evt_woken md events) s"
| "run_frame (F_evt_timeout vt md events) s =
     vtimers.more_update (evt_woken md events) (if chVTIsArmedI vt s then chVTDoResetI vt s else s)"
| "run_frame (F_exitcode tp) s = vtimers.more_update (\<lambda>k. chThdRelease tp (return (p_u (thr k tp)) k)) s"

definition resume :: "sys \<Rightarrow> sys" where
  "resume s =
     (let k = vtimers.more s
      in case pend k (currp k) of
           None \<Rightarrow> s
         | Some f \<Rightarrow> run_frame f (vtimers.more_update (\<lambda>k. k\<lparr>pend := (pend k)(currp k := None)\<rparr>) s))"

text \<open>Operations on the kernel state as operations of the whole system.\<close>

definition lift :: "(kernel \<Rightarrow> kernel option) \<Rightarrow> sys \<Rightarrow> sys option" where
  "lift f s = map_option (\<lambda>k. vtimers.more_update (\<lambda>_. k) s) (f (vtimers.more s))"

definition set_pend :: "frame \<Rightarrow> kernel \<Rightarrow> kernel" where
  "set_pend f k = k\<lparr>pend := (pend k)(currp k := Some f)\<rparr>"

text \<open>The timer of \<open>chSchGoSleepTimeoutS\<close> is on the stack of the caller, at \<open>vt\<close>; \<open>fr\<close> and \<open>fi\<close> are what is left to do behind
  the switch with and without the timer.\<close>

definition go_sleep_timeout :: "frame \<Rightarrow> frame \<Rightarrow> tid \<Rightarrow> tstate \<Rightarrow> u32 \<Rightarrow> sys \<Rightarrow> sys option" where
  "go_sleep_timeout fr fi vt newstate time s =
     (if time \<noteq> TIME_INFINITE then do {
        s \<leftarrow> chVTDoSetI vt time VT_wakeup (currp (vtimers.more s)) s;
        lift (\<lambda>k. chSchGoSleepS newstate (set_pend fr k)) s
      }
      else lift (\<lambda>k. chSchGoSleepS newstate (set_pend fi k)) s)"

definition chSchGoSleepTimeoutS :: "tid \<Rightarrow> tstate \<Rightarrow> u32 \<Rightarrow> sys \<Rightarrow> sys option" where
  "chSchGoSleepTimeoutS vt newstate time s = go_sleep_timeout (F_timeout vt) F_rdymsg vt newstate time s"

section \<open>Ticks and preemption\<close>

text \<open>The functions of the timers; that of an application timer changes only the slots of \<open>Arduino_Timers\<close>.\<close>

fun kernel_call :: "vtfunc \<times> u32 \<Rightarrow> kernel \<Rightarrow> kernel option" where
  "kernel_call (VT_wakeup, p) k = wakeup p k"
| "kernel_call (VT_post, p) k = Some k"

definition use_quantum :: "kernel \<Rightarrow> kernel" where
  "use_quantum k =
     (if p_preempt (thr k (currp k)) > 0 then set_thr (currp k) (\<lambda>t. t\<lparr>p_preempt := p_preempt t - 1\<rparr>) k else k)"

text \<open>The hook of the tick is a function of the application, if it sets one; it is taken not to change the kernel.\<close>

definition chSysTimerHandlerI :: "sys \<Rightarrow> sys option" where
  "chSysTimerHandlerI s = chVTDoTickI (quiet kernel_call) (vtimers.more_update use_quantum s)"

text \<open>The end of an interrupt that was not nested.\<close>

definition port_irq_epilogue :: "kernel \<Rightarrow> kernel option" where
  "port_irq_epilogue k = (if chSchIsPreemptionRequired k then chSchDoReschedule k else Some k)"

definition systick :: "sys \<Rightarrow> sys option" where
  "systick s = do { s \<leftarrow> chSysTimerHandlerI s; s \<leftarrow> lift port_irq_epilogue s; Some (resume s) }"


section \<open>Threads\<close>

definition thread_init :: "tid \<Rightarrow> u32 \<Rightarrow> kernel \<Rightarrow> kernel" where
  "thread_init tp pr k =
     (let k = set_thr tp (\<lambda>t. t\<lparr>p_prio := pr, p_state := CH_STATE_WTSTART, p_flags := CH_FLAG_MODE_STATIC,
                p_preempt := CH_CFG_TIME_QUANTUM, p_realprio := pr, p_mtxlist := 0, p_epending := 0, p_refs := 1,
                p_name := 0, p_waiting := []\<rparr>) k
      in k\<lparr>registry := registry k @ [tp], pend := (pend k)(tp := None)\<rparr>)"

text \<open>The parts of the calls between \<^verbatim>\<open>chSysLock\<close> and \<^verbatim>\<open>chSysUnlock\<close> have names of their own.\<close>

definition create_static :: "tid \<Rightarrow> u32 \<Rightarrow> kernel \<Rightarrow> kernel option" where
  "create_static wsp pr k = chSchWakeupS wsp MSG_OK (thread_init wsp pr (return wsp k))"

definition chThdCreateStatic :: "tid \<Rightarrow> u32 \<Rightarrow> sys \<Rightarrow> sys option" where
  "chThdCreateStatic wsp pr s = map_option resume (lift (create_static wsp pr) s)"

definition chThdStart :: "tid \<Rightarrow> sys \<Rightarrow> sys option" where
  "chThdStart tp s = lift (\<lambda>k. chSchReadyI tp (return tp k)) s"

definition set_priority :: "u32 \<Rightarrow> kernel \<Rightarrow> kernel option" where
  "set_priority newprio k =
     (let c = currp k;
          oldprio = p_realprio (thr k c);
          k = (if prio k c = p_realprio (thr k c) \<or> newprio > prio k c then set_thr c (\<lambda>t. t\<lparr>p_prio := newprio\<rparr>) k else k);
          k = set_thr c (\<lambda>t. t\<lparr>p_realprio := newprio\<rparr>) k
      in chSchRescheduleS (return oldprio k))"

definition chThdSetPriority :: "u32 \<Rightarrow> sys \<Rightarrow> sys option" where
  "chThdSetPriority newprio s = map_option resume (lift (set_priority newprio) s)"

definition chThdTerminate :: "tid \<Rightarrow> kernel \<Rightarrow> kernel" where
  "chThdTerminate tp k = set_thr tp (\<lambda>t. t\<lparr>p_flags := or (p_flags t) CH_FLAG_TERMINATE\<rparr>) k"

definition chThdSleep :: "tid \<Rightarrow> u32 \<Rightarrow> sys \<Rightarrow> sys option" where
  "chThdSleep vt time s = map_option resume (chSchGoSleepTimeoutS vt CH_STATE_SLEEPING time s)"

definition chThdSleepUntil :: "tid \<Rightarrow> u32 \<Rightarrow> sys \<Rightarrow> sys option" where
  "chThdSleepUntil vt time s =
     (let time = time - chVTGetSystemTimeX s in if time > 0 then chThdSleep vt time s else Some s)"

definition chThdSleepUntilWindowed :: "tid \<Rightarrow> u32 \<Rightarrow> u32 \<Rightarrow> sys \<Rightarrow> sys option" where
  "chThdSleepUntilWindowed vt prev next s =
     (let time = chVTGetSystemTimeX s
      in if chVTIsTimeWithinX time prev next then
           map_option resume (go_sleep_timeout (F_timeout_value vt next) (F_value next) vt CH_STATE_SLEEPING (next - time) s)
         else Some (vtimers.more_update (return next) s))"

definition chThdYield :: "sys \<Rightarrow> sys option" where
  "chThdYield s = map_option resume (lift chSchDoYieldS s)"

text \<open>\<^verbatim>\<open>while (list_notempty(&tp->p_waiting)) chSchReadyI(list_remove(&tp->p_waiting))\<close>\<close>

fun ready_waiting :: "tid list \<Rightarrow> kernel \<Rightarrow> kernel option" where
  "ready_waiting [] k = Some k"
| "ready_waiting (t # ts) k = do { k \<leftarrow> chSchReadyI t k; ready_waiting ts k }"

definition chThdExitS :: "u32 \<Rightarrow> kernel \<Rightarrow> kernel option" where
  "chThdExitS msg k =
     (let tp = currp k;
          k = set_p_u tp msg k;
          ws = p_waiting (thr k tp);
          k = set_thr tp (\<lambda>t. t\<lparr>p_waiting := []\<rparr>) k
      in do {
        k \<leftarrow> ready_waiting ws k;
        let k = (if and (p_flags (thr k tp)) CH_FLAG_MODE_MASK = CH_FLAG_MODE_STATIC
                 then k\<lparr>registry := remove1 tp (registry k)\<rparr> else k);
        chSchGoSleepS CH_STATE_FINAL k
      })"

definition chThdExit :: "u32 \<Rightarrow> sys \<Rightarrow> sys option" where
  "chThdExit msg s = map_option resume (lift (chThdExitS msg) s)"

definition chThdWait :: "tid \<Rightarrow> sys \<Rightarrow> sys option" where
  "chThdWait tp s =
     (let k = vtimers.more s
      in if p_state (thr k tp) \<noteq> CH_STATE_FINAL then
           map_option resume (lift (\<lambda>k. chSchGoSleepS CH_STATE_WTEXIT (set_pend (F_exitcode tp)
             (set_thr tp (\<lambda>t. t\<lparr>p_waiting := currp k # p_waiting t\<rparr>) k))) s)
         else Some (vtimers.more_update (\<lambda>k. chThdRelease tp (return (p_u (thr k tp)) k)) s))"

definition chThdSuspendS :: "u32 \<Rightarrow> kernel \<Rightarrow> kernel option" where
  "chThdSuspendS trp k =
     (let tp = currp k
      in chSchGoSleepS CH_STATE_SUSPENDED (set_pend F_rdymsg (set_p_u tp trp (set_tref trp tp k))))"

definition chThdSuspendTimeoutS :: "tid \<Rightarrow> u32 \<Rightarrow> u32 \<Rightarrow> sys \<Rightarrow> sys option" where
  "chThdSuspendTimeoutS vt trp timeout s =
     (if timeout = TIME_IMMEDIATE then Some (vtimers.more_update (return MSG_TIMEOUT) s)
      else chSchGoSleepTimeoutS vt CH_STATE_SUSPENDED timeout
        (vtimers.more_update (\<lambda>k. set_p_u (currp k) trp (set_tref trp (currp k) k)) s))"

definition suspendThread :: "u32 \<Rightarrow> sys \<Rightarrow> sys option" where
  "suspendThread trp s = map_option resume (lift (chThdSuspendS trp) s)"

definition suspendThreadTimeout :: "tid \<Rightarrow> u32 \<Rightarrow> u32 \<Rightarrow> sys \<Rightarrow> sys option" where
  "suspendThreadTimeout vt trp timeout s = map_option resume (chThdSuspendTimeoutS vt trp timeout s)"

definition chThdResumeI :: "u32 \<Rightarrow> u32 \<Rightarrow> kernel \<Rightarrow> kernel option" where
  "chThdResumeI trp msg k =
     (if tref k trp \<noteq> 0 then
        (let tp = tref k trp in chSchReadyI tp (set_p_u tp msg (set_tref trp 0 k)))
      else Some k)"

definition chThdResumeS :: "u32 \<Rightarrow> u32 \<Rightarrow> kernel \<Rightarrow> kernel option" where
  "chThdResumeS trp msg k =
     (if tref k trp \<noteq> 0 then (let tp = tref k trp in chSchWakeupS tp msg (set_tref trp 0 k)) else Some k)"

definition chThdResume :: "u32 \<Rightarrow> u32 \<Rightarrow> sys \<Rightarrow> sys option" where
  "chThdResume trp msg s = map_option resume (lift (chThdResumeS trp msg) s)"

definition chThdEnqueueTimeoutS :: "tid \<Rightarrow> u32 \<Rightarrow> u32 \<Rightarrow> sys \<Rightarrow> sys option" where
  "chThdEnqueueTimeoutS vt tqp timeout s =
     (if timeout = TIME_IMMEDIATE then Some (vtimers.more_update (return MSG_TIMEOUT) s)
      else chSchGoSleepTimeoutS vt CH_STATE_QUEUED timeout
        (vtimers.more_update (\<lambda>k. set_queue (TQueue tqp) (queues k (TQueue tqp) @ [currp k]) k) s))"

definition chThdDoDequeueNextI :: "u32 \<Rightarrow> u32 \<Rightarrow> kernel \<Rightarrow> kernel option" where
  "chThdDoDequeueNextI tqp msg k =
     (case queues k (TQueue tqp) of
        [] \<Rightarrow> None
      | tp # ts \<Rightarrow> chSchReadyI tp (set_p_u tp msg (set_queue (TQueue tqp) ts k)))"

definition chThdDequeueNextI :: "u32 \<Rightarrow> u32 \<Rightarrow> kernel \<Rightarrow> kernel option" where
  "chThdDequeueNextI tqp msg k =
     (if queues k (TQueue tqp) \<noteq> [] then chThdDoDequeueNextI tqp msg k else Some k)"

partial_function (option) chThdDequeueAllI :: "u32 \<Rightarrow> u32 \<Rightarrow> kernel \<Rightarrow> kernel option" where
  "chThdDequeueAllI tqp msg k =
     (if queues k (TQueue tqp) \<noteq> [] then Option.bind (chThdDoDequeueNextI tqp msg k) (chThdDequeueAllI tqp msg)
      else Some k)"

section \<open>Semaphores\<close>

definition chSemObjectInit :: "u32 \<Rightarrow> int \<Rightarrow> kernel \<Rightarrow> kernel" where
  "chSemObjectInit sp n k = set_s_cnt sp n (set_queue (Sem sp) [] k)"

text \<open>\<^verbatim>\<open>queue_fifo_remove\<close> and \<^verbatim>\<open>queue_lifo_remove\<close> of a semaphore's queue.\<close>

definition sem_fifo_remove :: "u32 \<Rightarrow> kernel \<Rightarrow> (tid \<times> kernel) option" where
  "sem_fifo_remove sp k =
     (case queues k (Sem sp) of [] \<Rightarrow> None | t # ts \<Rightarrow> Some (t, set_queue (Sem sp) ts k))"

definition sem_lifo_remove :: "u32 \<Rightarrow> kernel \<Rightarrow> (tid \<times> kernel) option" where
  "sem_lifo_remove sp k =
     (if queues k (Sem sp) = [] then None
      else Some (last (queues k (Sem sp)), set_queue (Sem sp) (butlast (queues k (Sem sp))) k))"

text \<open>\<^verbatim>\<open>while (++cnt <= 0) chSchReadyI(queue_lifo_remove(...))->p_u.rdymsg = MSG_RESET\<close>\<close>

function sem_reset_loop :: "int \<Rightarrow> u32 \<Rightarrow> kernel \<Rightarrow> kernel option" where
  "sem_reset_loop cnt sp k =
     (if cnt + 1 \<le> 0 then do {
        (tp, k) \<leftarrow> sem_lifo_remove sp k;
        k \<leftarrow> chSchReadyI tp k;
        sem_reset_loop (cnt + 1) sp (set_p_u tp MSG_RESET k)
      } else Some k)"
  by pat_completeness auto
termination by (relation "measure (\<lambda>(cnt, _, _). nat (- cnt))") auto

definition chSemResetI :: "u32 \<Rightarrow> int \<Rightarrow> kernel \<Rightarrow> kernel option" where
  "chSemResetI sp n k = sem_reset_loop (s_cnt k sp) sp (set_s_cnt sp n k)"

definition chSemReset :: "u32 \<Rightarrow> int \<Rightarrow> sys \<Rightarrow> sys option" where
  "chSemReset sp n s = map_option resume (lift (\<lambda>k. do { k \<leftarrow> chSemResetI sp n k; chSchRescheduleS k }) s)"

text \<open>\<^verbatim>\<open>currp->p_u.wtsemp = sp; sem_insert(currp, &sp->s_queue)\<close>\<close>

definition sem_enqueue :: "u32 \<Rightarrow> kernel \<Rightarrow> kernel" where
  "sem_enqueue sp k = set_queue (Sem sp) (queues k (Sem sp) @ [currp k]) (set_p_u (currp k) sp k)"

definition chSemWaitS :: "u32 \<Rightarrow> kernel \<Rightarrow> kernel option" where
  "chSemWaitS sp k =
     (let k = set_s_cnt sp (s_cnt k sp - 1) k
      in if s_cnt k sp < 0 then chSchGoSleepS CH_STATE_WTSEM (set_pend F_rdymsg (sem_enqueue sp k))
         else Some (return MSG_OK k))"

definition chSemWait :: "u32 \<Rightarrow> sys \<Rightarrow> sys option" where
  "chSemWait sp s = map_option resume (lift (chSemWaitS sp) s)"

definition chSemWaitTimeoutS :: "tid \<Rightarrow> u32 \<Rightarrow> u32 \<Rightarrow> sys \<Rightarrow> sys option" where
  "chSemWaitTimeoutS vt sp time s =
     (let s = vtimers.more_update (\<lambda>k. set_s_cnt sp (s_cnt k sp - 1) k) s
      in if s_cnt (vtimers.more s) sp < 0 then
           if time = TIME_IMMEDIATE then
             Some (vtimers.more_update (\<lambda>k. return MSG_TIMEOUT (set_s_cnt sp (s_cnt k sp + 1) k)) s)
           else chSchGoSleepTimeoutS vt CH_STATE_WTSEM time (vtimers.more_update (sem_enqueue sp) s)
         else Some (vtimers.more_update (return MSG_OK) s))"

definition chSemWaitTimeout :: "tid \<Rightarrow> u32 \<Rightarrow> u32 \<Rightarrow> sys \<Rightarrow> sys option" where
  "chSemWaitTimeout vt sp time s = map_option resume (chSemWaitTimeoutS vt sp time s)"

definition sem_signal :: "u32 \<Rightarrow> kernel \<Rightarrow> kernel option" where
  "sem_signal sp k =
     (let k = set_s_cnt sp (s_cnt k sp + 1) k
      in if s_cnt k sp \<le> 0 then do { (tp, k) \<leftarrow> sem_fifo_remove sp k; chSchWakeupS tp MSG_OK k } else Some k)"

definition chSemSignal :: "u32 \<Rightarrow> sys \<Rightarrow> sys option" where
  "chSemSignal sp s = map_option resume (lift (sem_signal sp) s)"

definition chSemSignalI :: "u32 \<Rightarrow> kernel \<Rightarrow> kernel option" where
  "chSemSignalI sp k =
     (let k = set_s_cnt sp (s_cnt k sp + 1) k
      in if s_cnt k sp \<le> 0 then do {
           (tp, k) \<leftarrow> sem_fifo_remove sp k;
           chSchReadyI tp (set_p_u tp MSG_OK k)
         } else Some k)"

text \<open>\<^verbatim>\<open>if (++sp->s_cnt <= 0) chSchReadyI(queue_fifo_remove(&sp->s_queue))->p_u.rdymsg = MSG_OK\<close>\<close>

definition sem_add_one :: "u32 \<Rightarrow> kernel \<Rightarrow> kernel option" where
  "sem_add_one sp k =
     (let k = set_s_cnt sp (s_cnt k sp + 1) k
      in if s_cnt k sp \<le> 0 then do {
           (tp, k) \<leftarrow> sem_fifo_remove sp k;
           k \<leftarrow> chSchReadyI tp k;
           Some (set_p_u tp MSG_OK k)
         } else Some k)"

function chSemAddCounterI :: "u32 \<Rightarrow> int \<Rightarrow> kernel \<Rightarrow> kernel option" where
  "chSemAddCounterI sp n k =
     (if n > 0 then do { k \<leftarrow> sem_add_one sp k; chSemAddCounterI sp (n - 1) k } else Some k)"
  by pat_completeness auto
termination by (relation "measure (\<lambda>(_, n, _). nat n)") auto

definition sem_signal_wait :: "u32 \<Rightarrow> u32 \<Rightarrow> kernel \<Rightarrow> kernel option" where
  "sem_signal_wait sps spw k =
     do {
       k \<leftarrow> sem_add_one sps k;
       let k = set_s_cnt spw (s_cnt k spw - 1) k;
       if s_cnt k spw < 0 then
         chSchGoSleepS CH_STATE_WTSEM (set_pend F_rdymsg (sem_enqueue spw k))
       else chSchRescheduleS (return MSG_OK k)
     }"

definition chSemSignalWait :: "u32 \<Rightarrow> u32 \<Rightarrow> sys \<Rightarrow> sys option" where
  "chSemSignalWait sps spw s = map_option resume (lift (sem_signal_wait sps spw) s)"

section \<open>Calls of the application\<close>

text \<open>\<^verbatim>\<open>orchard/arduino-chibios.c\<close>; the priority comes as an \<^verbatim>\<open>int\<close>.  The stack, the function and its argument set up the
  processor context of the new thread only.\<close>

definition createThread :: "tid \<Rightarrow> int \<Rightarrow> sys \<Rightarrow> sys option" where
  "createThread stack pr s = chThdCreateStatic stack (word_of_int pr) s"

definition suspendThreadS :: "u32 \<Rightarrow> kernel \<Rightarrow> kernel option" where
  "suspendThreadS trp k = chThdSuspendS trp k"

definition suspendThreadTimeoutS :: "tid \<Rightarrow> u32 \<Rightarrow> u32 \<Rightarrow> sys \<Rightarrow> sys option" where
  "suspendThreadTimeoutS vt trp timeout s = chThdSuspendTimeoutS vt trp timeout s"

definition resumeThread :: "u32 \<Rightarrow> u32 \<Rightarrow> sys \<Rightarrow> sys option" where
  "resumeThread trp msg s = chThdResume trp msg s"

definition resumeThreadI :: "u32 \<Rightarrow> u32 \<Rightarrow> kernel \<Rightarrow> kernel option" where
  "resumeThreadI trp msg k = chThdResumeI trp msg k"

definition yieldThread :: "sys \<Rightarrow> sys option" where
  "yieldThread s = chThdYield s"

definition threadSleep :: "tid \<Rightarrow> u32 \<Rightarrow> sys \<Rightarrow> sys option" where
  "threadSleep vt time s = chThdSleep vt time s"

definition threadSleepUntil :: "tid \<Rightarrow> u32 \<Rightarrow> sys \<Rightarrow> sys option" where
  "threadSleepUntil vt time s = chThdSleepUntil vt time s"

definition waitThread :: "tid \<Rightarrow> sys \<Rightarrow> sys option" where
  "waitThread tp s = chThdWait tp s"

definition exitThread :: "u32 \<Rightarrow> sys \<Rightarrow> sys option" where
  "exitThread msg s = chThdExit msg s"

end
