(* ===== verification/Kernel_Invariant.thy ===== *)
theory Kernel_Invariant
  imports Kernel
begin

text \<open>
  The invariant of the kernel and the lemmas its operations share: which queue a thread is in follows from its state, the
  ready list is sorted, counters of semaphores agree with their queues, and every armed wake-up timer belongs to a thread
  that will disarm it.  An operation takes threads in hand (out of their queues), changes them and gives them away; the
  lemmas on \<open>kcore\<close> follow these moves.
\<close>

section \<open>Invariant\<close>

text \<open>The queue a thread is in agrees with its state.\<close>

fun ok_queue :: "thread \<Rightarrow> qid \<Rightarrow> bool" where
  "ok_queue t RList \<longleftrightarrow> p_state t = CH_STATE_READY"
| "ok_queue t (Sem sp) \<longleftrightarrow> p_state t = CH_STATE_WTSEM \<and> p_u t = sp"
| "ok_queue t (TQueue a) \<longleftrightarrow> p_state t = CH_STATE_QUEUED"
| "ok_queue t (Mtx mp) \<longleftrightarrow> p_state t = CH_STATE_WTMTX \<and> p_u t = mp"
| "ok_queue t (Cond cp) \<longleftrightarrow> p_state t = CH_STATE_WTCOND \<and> p_u t = cp"

definition in_queue_state :: "tstate \<Rightarrow> bool" where
  "in_queue_state st \<longleftrightarrow>
     st \<in> {CH_STATE_READY, CH_STATE_WTSEM, CH_STATE_QUEUED, CH_STATE_WTMTX, CH_STATE_WTCOND}"

text \<open>\<open>X\<close> are the threads a running operation has in hand: they are in no queue, and nothing is required of
  their state.\<close>

definition queues_ok :: "tid set \<Rightarrow> kernel \<Rightarrow> bool" where
  "queues_ok X k \<longleftrightarrow> (\<forall>q. distinct (queues k q))
     \<and> (\<forall>q q' t. t \<in> set (queues k q) \<longrightarrow> t \<in> set (queues k q') \<longrightarrow> q = q')
     \<and> (\<forall>q t. t \<in> set (queues k q) \<longrightarrow> t \<notin> X \<and> t \<in> set (registry k) \<and> ok_queue (thr k t) q)
     \<and> (\<forall>t \<in> set (registry k) - X. in_queue_state (p_state (thr k t)) \<longrightarrow> (\<exists>q. t \<in> set (queues k q)))"

definition ready_sorted :: "kernel \<Rightarrow> bool" where
  "ready_sorted k \<longleftrightarrow> sorted_wrt (\<lambda>a b. prio k b \<le> prio k a) (queues k RList)"

definition sems_ok :: "kernel \<Rightarrow> bool" where
  "sems_ok k \<longleftrightarrow> (\<forall>sp. if queues k (Sem sp) = [] then 0 \<le> s_cnt k sp
     else s_cnt k sp = - int (length (queues k (Sem sp))))"

text \<open>Threads waiting for the end of another one are in its list, suspended ones in a reference.\<close>

definition waiting_ok :: "tid set \<Rightarrow> kernel \<Rightarrow> bool" where
  "waiting_ok X k \<longleftrightarrow> (\<forall>t. distinct (p_waiting (thr k t)))
     \<and> (\<forall>t t' w. w \<in> set (p_waiting (thr k t)) \<longrightarrow> w \<in> set (p_waiting (thr k t')) \<longrightarrow> t = t')
     \<and> (\<forall>t w. w \<in> set (p_waiting (thr k t)) \<longrightarrow> w \<notin> X \<and> w \<in> set (registry k) \<and> p_state (thr k w) = CH_STATE_WTEXIT)
     \<and> (\<forall>a. tref k a \<noteq> 0 \<longrightarrow> tref k a \<notin> X \<and> tref k a \<in> set (registry k)
          \<and> p_state (thr k (tref k a)) = CH_STATE_SUSPENDED \<and> p_u (thr k (tref k a)) = a)
     \<and> (\<forall>t \<in> set (registry k) - X. p_state (thr k t) = CH_STATE_SUSPENDED \<longrightarrow> tref k (p_u (thr k t)) = t)"

definition registry_ok :: "tid set \<Rightarrow> kernel \<Rightarrow> bool" where
  "registry_ok X k \<longleftrightarrow> distinct (registry k) \<and> 0 \<notin> set (registry k) \<and> (\<forall>t \<in> set (registry k). prio k t \<noteq> 0)
     \<and> (\<forall>t \<in> set (registry k) - X. p_state (thr k t) \<noteq> CH_STATE_CURRENT)"

text \<open>A thread that waits for events is known to the kernel, and it does not have what it waits for.\<close>

definition evt_state :: "tstate \<Rightarrow> bool" where
  "evt_state st \<longleftrightarrow> st = CH_STATE_WTOREVT \<or> st = CH_STATE_WTANDEVT"

definition events_ok :: "tid set \<Rightarrow> kernel \<Rightarrow> bool" where
  "events_ok X k \<longleftrightarrow> (\<forall>t. t \<notin> X \<longrightarrow> evt_state (p_state (thr k t)) \<longrightarrow> t \<in> set (registry k) \<and> \<not> evt_awaited (thr k t))"

definition kcore :: "tid set \<Rightarrow> kernel \<Rightarrow> bool" where
  "kcore X k \<longleftrightarrow> queues_ok X k \<and> ready_sorted k \<and> sems_ok k \<and> waiting_ok X k \<and> registry_ok X k \<and> events_ok X k"

lemma evt_state_simps [simp]:
  "evt_state CH_STATE_WTOREVT" "evt_state CH_STATE_WTANDEVT" "\<not> evt_state CH_STATE_READY" "\<not> evt_state CH_STATE_CURRENT"
  "\<not> evt_state CH_STATE_SUSPENDED" "\<not> evt_state CH_STATE_WTSEM" "\<not> evt_state CH_STATE_QUEUED" "\<not> evt_state CH_STATE_WTMTX"
  "\<not> evt_state CH_STATE_WTCOND" "\<not> evt_state CH_STATE_FINAL" "\<not> evt_state CH_STATE_WTEXIT" "\<not> evt_state CH_STATE_SLEEPING"
  "\<not> evt_state CH_STATE_WTSTART"
  by (simp_all add: evt_state_def)

lemma evt_awaited_cong:
  "p_state t' = p_state t \<Longrightarrow> p_u t' = p_u t \<Longrightarrow> p_epending t' = p_epending t \<Longrightarrow> evt_awaited t' \<longleftrightarrow> evt_awaited t"
  by (simp add: evt_awaited_def)

lemma kernel_set_simps [simp]:
  "thr (set_thr t f k) = (thr k)(t := f (thr k t))" "queues (set_thr t f k) = queues k" "currp (set_thr t f k) = currp k"
  "registry (set_thr t f k) = registry k"
  "m_owner (set_thr t f k) = m_owner k" "m_next (set_thr t f k) = m_next k" "el (set_thr t f k) = el k" "s_cnt (set_thr t f k) = s_cnt k" "tref (set_thr t f k) = tref k"
  "pend (set_thr t f k) = pend k" "ret (set_thr t f k) = ret k"
  "thr (set_queue q ts k) = thr k" "queues (set_queue q ts k) = (queues k)(q := ts)" "currp (set_queue q ts k) = currp k"
  "registry (set_queue q ts k) = registry k"
  "m_owner (set_queue q ts k) = m_owner k" "m_next (set_queue q ts k) = m_next k" "el (set_queue q ts k) = el k" "s_cnt (set_queue q ts k) = s_cnt k" "tref (set_queue q ts k) = tref k"
  "pend (set_queue q ts k) = pend k" "ret (set_queue q ts k) = ret k"
  "thr (set_s_cnt sp n k) = thr k" "queues (set_s_cnt sp n k) = queues k" "currp (set_s_cnt sp n k) = currp k"
  "registry (set_s_cnt sp n k) = registry k"
  "m_owner (set_s_cnt sp n k) = m_owner k" "m_next (set_s_cnt sp n k) = m_next k" "el (set_s_cnt sp n k) = el k" "s_cnt (set_s_cnt sp n k) = (s_cnt k)(sp := n)" "tref (set_s_cnt sp n k) = tref k"
  "pend (set_s_cnt sp n k) = pend k" "ret (set_s_cnt sp n k) = ret k"
  "thr (set_tref a t k) = thr k" "queues (set_tref a t k) = queues k" "currp (set_tref a t k) = currp k"
  "registry (set_tref a t k) = registry k"
  "m_owner (set_tref a t k) = m_owner k" "m_next (set_tref a t k) = m_next k" "el (set_tref a t k) = el k" "s_cnt (set_tref a t k) = s_cnt k" "tref (set_tref a t k) = (tref k)(a := t)"
  "pend (set_tref a t k) = pend k" "ret (set_tref a t k) = ret k"
  by (simp_all add: set_thr_def set_queue_def set_s_cnt_def set_tref_def)

lemma kernel_more_simps [simp]:
  "thr (return v k) = thr k" "queues (return v k) = queues k" "currp (return v k) = currp k"
  "registry (return v k) = registry k"
  "m_owner (return v k) = m_owner k" "m_next (return v k) = m_next k" "el (return v k) = el k" "s_cnt (return v k) = s_cnt k" "tref (return v k) = tref k"
  "pend (return v k) = pend k" "ret (return v k) = (ret k)(currp k := v)"
  "thr (set_pend f k) = thr k" "queues (set_pend f k) = queues k" "currp (set_pend f k) = currp k"
  "registry (set_pend f k) = registry k"
  "m_owner (set_pend f k) = m_owner k" "m_next (set_pend f k) = m_next k" "el (set_pend f k) = el k" "s_cnt (set_pend f k) = s_cnt k" "tref (set_pend f k) = tref k"
  "pend (set_pend f k) = (pend k)(currp k := Some f)" "ret (set_pend f k) = ret k"
  by (simp_all add: return_def set_pend_def)

text \<open>Fields the core does not look at.\<close>

lemma kcore_cong:
  assumes "thr k' = thr k" "queues k' = queues k" "registry k' = registry k" "s_cnt k' = s_cnt k" "tref k' = tref k"
  shows "kcore X k' \<longleftrightarrow> kcore X k"
  unfolding kcore_def queues_ok_def ready_sorted_def sems_ok_def waiting_ok_def registry_ok_def events_ok_def assms ..

lemma set_insert_prio [simp]: "set (insert_prio pr ge t xs) = insert t (set xs)"
  by (induction xs) auto

lemma distinct_insert_prio [simp]: "distinct (insert_prio pr ge t xs) \<longleftrightarrow> t \<notin> set xs \<and> distinct xs"
  by (induction xs) auto

lemma sorted_insert_prio:
  "sorted_wrt (\<lambda>a b. pr b \<le> pr a) xs \<Longrightarrow> sorted_wrt (\<lambda>a b. pr b \<le> pr a) (insert_prio pr ge t xs)"
proof (induction xs)
  case (Cons x xs)
  show ?case
  proof (cases "if ge then pr x \<ge> pr t else pr x > pr t")
    case True
    then have "pr t \<le> pr x" by (auto split: if_splits)
    then show ?thesis using Cons True by auto
  next
    case False
    then have "pr x \<le> pr t" by (auto split: if_splits)
    then show ?thesis using Cons.prems False by (auto intro: order_trans)
  qed
qed simp

text \<open>The clauses one by one.\<close>

lemma kcoreI:
  assumes "\<And>q. distinct (queues k q)"
    and "\<And>q q' t. t \<in> set (queues k q) \<Longrightarrow> t \<in> set (queues k q') \<Longrightarrow> q = q'"
    and "\<And>q t. t \<in> set (queues k q) \<Longrightarrow> t \<notin> X \<and> t \<in> set (registry k) \<and> ok_queue (thr k t) q"
    and "\<And>t. t \<in> set (registry k) \<Longrightarrow> t \<notin> X \<Longrightarrow> in_queue_state (p_state (thr k t)) \<Longrightarrow> \<exists>q. t \<in> set (queues k q)"
    and "ready_sorted k" and "sems_ok k"
    and "\<And>t. distinct (p_waiting (thr k t))"
    and "\<And>t t' w. w \<in> set (p_waiting (thr k t)) \<Longrightarrow> w \<in> set (p_waiting (thr k t')) \<Longrightarrow> t = t'"
    and "\<And>t w. w \<in> set (p_waiting (thr k t)) \<Longrightarrow> w \<notin> X \<and> w \<in> set (registry k) \<and> p_state (thr k w) = CH_STATE_WTEXIT"
    and "\<And>a. tref k a \<noteq> 0 \<Longrightarrow> tref k a \<notin> X \<and> tref k a \<in> set (registry k)
          \<and> p_state (thr k (tref k a)) = CH_STATE_SUSPENDED \<and> p_u (thr k (tref k a)) = a"
    and "\<And>t. t \<in> set (registry k) \<Longrightarrow> t \<notin> X \<Longrightarrow> p_state (thr k t) = CH_STATE_SUSPENDED \<Longrightarrow> tref k (p_u (thr k t)) = t"
    and "distinct (registry k)" and "0 \<notin> set (registry k)" and "\<And>t. t \<in> set (registry k) \<Longrightarrow> prio k t \<noteq> 0"
    and "\<And>t. t \<in> set (registry k) \<Longrightarrow> t \<notin> X \<Longrightarrow> p_state (thr k t) \<noteq> CH_STATE_CURRENT"
    and "\<And>t. t \<notin> X \<Longrightarrow> evt_state (p_state (thr k t)) \<Longrightarrow> t \<in> set (registry k) \<and> \<not> evt_awaited (thr k t)"
  shows "kcore X k"
proof -
  have "queues_ok X k" "waiting_ok X k" "registry_ok X k"
    unfolding queues_ok_def waiting_ok_def registry_ok_def using assms(1-4,7-15) by (intro conjI allI ballI impI; blast)+
  moreover have "events_ok X k" unfolding events_ok_def using assms(16) by blast
  ultimately show ?thesis using assms(5,6) by (simp add: kcore_def)
qed

lemma kcoreD:
  assumes "kcore X k"
  shows "distinct (queues k q)"
    and "t \<in> set (queues k q) \<Longrightarrow> t \<in> set (queues k q') \<Longrightarrow> q = q'"
    and "t \<in> set (queues k q) \<Longrightarrow> t \<notin> X" and "t \<in> set (queues k q) \<Longrightarrow> t \<in> set (registry k)"
    and "t \<in> set (queues k q) \<Longrightarrow> ok_queue (thr k t) q"
    and "t \<in> set (registry k) \<Longrightarrow> t \<notin> X \<Longrightarrow> in_queue_state (p_state (thr k t)) \<Longrightarrow> \<exists>q. t \<in> set (queues k q)"
    and "ready_sorted k" and "sems_ok k"
    and "distinct (p_waiting (thr k t))"
    and "w \<in> set (p_waiting (thr k t)) \<Longrightarrow> w \<in> set (p_waiting (thr k t')) \<Longrightarrow> t = t'"
    and "w \<in> set (p_waiting (thr k t)) \<Longrightarrow> w \<notin> X" and "w \<in> set (p_waiting (thr k t)) \<Longrightarrow> w \<in> set (registry k)"
    and "w \<in> set (p_waiting (thr k t)) \<Longrightarrow> p_state (thr k w) = CH_STATE_WTEXIT"
    and "tref k a \<noteq> 0 \<Longrightarrow> tref k a \<notin> X" and "tref k a \<noteq> 0 \<Longrightarrow> tref k a \<in> set (registry k)"
    and "tref k a \<noteq> 0 \<Longrightarrow> p_state (thr k (tref k a)) = CH_STATE_SUSPENDED"
    and "tref k a \<noteq> 0 \<Longrightarrow> p_u (thr k (tref k a)) = a"
    and "t \<in> set (registry k) \<Longrightarrow> t \<notin> X \<Longrightarrow> p_state (thr k t) = CH_STATE_SUSPENDED \<Longrightarrow> tref k (p_u (thr k t)) = t"
    and "distinct (registry k)" and "0 \<notin> set (registry k)" and "t \<in> set (registry k) \<Longrightarrow> prio k t \<noteq> 0"
    and "t \<in> set (registry k) \<Longrightarrow> t \<notin> X \<Longrightarrow> p_state (thr k t) \<noteq> CH_STATE_CURRENT"
    and "t \<notin> X \<Longrightarrow> evt_state (p_state (thr k t)) \<Longrightarrow> t \<in> set (registry k)"
    and "t \<notin> X \<Longrightarrow> evt_state (p_state (thr k t)) \<Longrightarrow> \<not> evt_awaited (thr k t)"
  using assms unfolding kcore_def queues_ok_def waiting_ok_def registry_ok_def events_ok_def by blast+

lemma sorted_wrt_remove1: "sorted_wrt P xs \<Longrightarrow> sorted_wrt P (remove1 x xs)"
proof (induction xs)
  case (Cons y xs)
  have "set (remove1 x xs) \<subseteq> set xs" by (rule set_remove1_subset)
  then show ?case using Cons by auto
qed simp

lemma sems_ok_cong: "queues k' = queues k \<Longrightarrow> s_cnt k' = s_cnt k \<Longrightarrow> sems_ok k' \<longleftrightarrow> sems_ok k"
  by (simp add: sems_ok_def)

text \<open>A thread in hand is made ready, in front of or behind threads of its priority.\<close>

definition make_ready :: "bool \<Rightarrow> tid \<Rightarrow> kernel \<Rightarrow> kernel" where
  "make_ready ge tp k = set_queue RList (insert_prio (prio k) ge tp (queues k RList)) (set_p_state tp CH_STATE_READY k)"

lemma make_ready_core:
  assumes core: "kcore X k" and tp: "tp \<in> X" "tp \<in> set (registry k)"
  shows "kcore (X - {tp}) (make_ready ge tp k)"
proof -
  note D = kcoreD [OF core]
  let ?k = "make_ready ge tp k"
  have np: "tp \<notin> set (queues k q)" for q using D(3) tp by blast
  have nw: "tp \<notin> set (p_waiting (thr k t))" for t using D(11) tp by blast
  have nt: "tref k a \<noteq> tp" for a using D(14) D(20) tp by metis
  have t: "thr ?k = (thr k)(tp := (thr k tp)\<lparr>p_state := CH_STATE_READY\<rparr>)" "registry ?k = registry k" "tref ?k = tref k"
    "s_cnt ?k = s_cnt k" and q: "queues ?k = (queues k)(RList := insert_prio (prio k) ge tp (queues k RList))"
    by (simp_all add: make_ready_def)
  have qs: "set (queues ?k q) = (if q = RList then insert tp (set (queues k RList)) else set (queues k q))" for q
    by (simp add: q)
  have mono: "t \<in> set (queues k q) \<Longrightarrow> t \<in> set (queues ?k q)" for t q by (auto simp: qs)
  show ?thesis
  proof (rule kcoreI)
    show "distinct (queues ?k q)" for q using D(1) np by (simp add: q)
    show "q = q'" if "t \<in> set (queues ?k q)" "t \<in> set (queues ?k q')" for q q' t
      using that D(2) np unfolding qs by (metis insert_iff)
    show "t \<notin> X - {tp} \<and> t \<in> set (registry ?k) \<and> ok_queue (thr ?k t) q" if "t \<in> set (queues ?k q)" for q t
      using that D(3,4) D(5) [of t q] np tp unfolding qs t by (auto split: if_splits)
    show "\<exists>q. t \<in> set (queues ?k q)" if a: "t \<in> set (registry ?k)" "t \<notin> X - {tp}" "in_queue_state (p_state (thr ?k t))" for t
    proof (cases "t = tp")
      case True
      then show ?thesis by (intro exI [of _ RList]) (simp add: q)
    next
      case False
      then obtain q0 where "t \<in> set (queues k q0)" using a D(6) [of t] by (auto simp: t)
      then show ?thesis using mono by blast
    qed
    have p: "prio ?k b = prio k b" for b by (auto simp: t)
    show "ready_sorted ?k"
      using D(7) sorted_insert_prio [of "prio k" "queues k RList" ge tp] unfolding ready_sorted_def q p by simp
    show "sems_ok ?k" using D(8) by (simp add: sems_ok_def q t)
    have w: "p_waiting (thr ?k t) = p_waiting (thr k t)" for t by (simp add: t)
    show "t1 = t2" if "w \<in> set (p_waiting (thr ?k t1))" "w \<in> set (p_waiting (thr ?k t2))" for t1 t2 w
      using that unfolding w by (rule D(10))
    show "distinct (p_waiting (thr ?k t))" for t unfolding w by (rule D(9))
    show "u \<notin> X - {tp} \<and> u \<in> set (registry ?k) \<and> p_state (thr ?k u) = CH_STATE_WTEXIT"
      if "u \<in> set (p_waiting (thr ?k t1))" for t1 u
      using D(11-13) [of u t1] nw [of t1] that unfolding w by (auto simp: t)
    show "tref ?k a \<notin> X - {tp} \<and> tref ?k a \<in> set (registry ?k)
      \<and> p_state (thr ?k (tref ?k a)) = CH_STATE_SUSPENDED \<and> p_u (thr ?k (tref ?k a)) = a" if "tref ?k a \<noteq> 0" for a
      using D(14-17) [of a] nt [of a] that by (auto simp: t)
    show "tref ?k (p_u (thr ?k u)) = u" if "u \<in> set (registry ?k)" "u \<notin> X - {tp}" "p_state (thr ?k u) = CH_STATE_SUSPENDED" for u
      using that D(18) [of u] by (auto simp: t split: if_splits)
    show "p_state (thr ?k u) \<noteq> CH_STATE_CURRENT" if "u \<in> set (registry ?k)" "u \<notin> X - {tp}" for u
      using that D(22) [of u] by (auto simp: t)
    show "prio ?k u \<noteq> 0" if "u \<in> set (registry ?k)" for u using that D(21) [of u] by (auto simp: t)
    show "u \<in> set (registry ?k) \<and> \<not> evt_awaited (thr ?k u)" if "u \<notin> X - {tp}" "evt_state (p_state (thr ?k u))" for u
      using that D(23,24) [of u] by (cases "u = tp") (auto simp: t)
  qed (use D(19,20) in \<open>auto simp: t\<close>)
qed


text \<open>Taking a thread in hand: it leaves the queue, or the reference, it is in.\<close>

lemma grab_core:
  assumes core: "kcore X k" and q: "queues k' = (\<lambda>q. remove1 tp (queues k q))"
    and r: "tref k' = (\<lambda>a. if tref k a = tp then 0 else tref k a)"
    and t: "thr k' = thr k" "registry k' = registry k"
    and w: "\<And>t. tp \<notin> set (p_waiting (thr k t))" and sem: "sems_ok k'"
  shows "kcore (insert tp X) k'"
proof -
  note D = kcoreD [OF core]
  have qs: "set (queues k' q) = set (queues k q) - {tp}" for q using D(1) [of q] by (simp add: q)
  show ?thesis
  proof (rule kcoreI)
    show "distinct (queues k' q)" for q using D(1) by (simp add: q)
    show "q = q'" if "t \<in> set (queues k' q)" "t \<in> set (queues k' q')" for q q' t
      using that D(2) unfolding qs by blast
    show "t \<notin> insert tp X \<and> t \<in> set (registry k') \<and> ok_queue (thr k' t) q" if "t \<in> set (queues k' q)" for q t
      using that D(3,4,5) unfolding qs t by blast
    show "\<exists>q. t \<in> set (queues k' q)" if "t \<in> set (registry k')" "t \<notin> insert tp X" "in_queue_state (p_state (thr k' t))" for t
      using that D(6) [of t] unfolding qs t by auto
    show "ready_sorted k'"
      using D(7) unfolding ready_sorted_def q t by (rule sorted_wrt_remove1)
  qed (use D(9-24) sem w in \<open>auto simp: t r\<close>)
qed

text \<open>Changing a thread in hand, or a field that does not matter.\<close>

lemma set_thr_core:
  assumes core: "kcore X k" and tp: "tp \<in> X" and f: "p_waiting (f (thr k tp)) = p_waiting (thr k tp)"
    and pr: "p_prio (f (thr k tp)) \<noteq> 0 \<or> tp \<notin> set (registry k)"
  shows "kcore X (set_thr tp f k)"
proof -
  note D = kcoreD [OF core]
  have np: "tp \<notin> set (queues k q)" for q using D(3) tp by blast
  have nw: "tp \<notin> set (p_waiting (thr k t))" for t using D(11) tp by blast
  have nt: "tref k a \<noteq> 0 \<Longrightarrow> tref k a \<noteq> tp" for a using D(14) tp by metis
  have w: "p_waiting (thr (set_thr tp f k) t) = p_waiting (thr k t)" for t using f by simp
  show ?thesis
  proof (rule kcoreI, unfold w)
    show "t \<notin> X \<and> t \<in> set (registry (set_thr tp f k)) \<and> ok_queue (thr (set_thr tp f k) t) q"
      if "t \<in> set (queues (set_thr tp f k) q)" for q t
      using that D(3,4,5) np by (metis fun_upd_other kernel_set_simps(1,2,4))
    show "ready_sorted (set_thr tp f k)"
      using D(7) np [of RList] unfolding ready_sorted_def by (auto intro: sorted_wrt_mono_rel [rotated])
    show "sems_ok (set_thr tp f k)" using D(8) by (subst sems_ok_cong [of _ k]) simp_all
    show "\<exists>q. t \<in> set (queues (set_thr tp f k) q)"
      if "t \<in> set (registry (set_thr tp f k))" "t \<notin> X" "in_queue_state (p_state (thr (set_thr tp f k) t))" for t
      using that D(6) [of t] tp by (auto split: if_splits)
    show "q = q'" if "t \<in> set (queues (set_thr tp f k) q)" "t \<in> set (queues (set_thr tp f k) q')" for q q' t
      using that D(2) by auto
    show "t = t'" if "w \<in> set (p_waiting (thr k t))" "w \<in> set (p_waiting (thr k t'))" for t t' w by (rule D(10) [OF that])
  qed (use D(1) D(9) D(11-24) nw nt tp pr in \<open>auto split: if_splits\<close>)
qed

text \<open>Giving a thread away: to a state without a queue, to a reference, to the queue of a semaphore or of threads.\<close>

lemma release_state_core:
  assumes core: "kcore X k" and st: "\<not> in_queue_state (p_state (thr k tp))" "p_state (thr k tp) \<noteq> CH_STATE_CURRENT"
    "p_state (thr k tp) \<noteq> CH_STATE_SUSPENDED"
    and ev: "evt_state (p_state (thr k tp)) \<Longrightarrow> tp \<in> set (registry k) \<and> \<not> evt_awaited (thr k tp)"
  shows "kcore (X - {tp}) k"
proof -
  note D = kcoreD [OF core]
  show ?thesis by (rule kcoreI) (use D st ev in auto)
qed

lemma release_tref_core:
  assumes core: "kcore X k" and tp: "tp \<in> X" "tp \<in> set (registry k)" and free: "tref k a = 0"
    and st: "p_state (thr k tp) = CH_STATE_SUSPENDED" "p_u (thr k tp) = a"
  shows "kcore (X - {tp}) (set_tref a tp k)"
proof -
  note D = kcoreD [OF core]
  let ?k = "set_tref a tp k"
  show ?thesis
  proof (rule kcoreI)
    show "ready_sorted ?k" using D(7) by (simp add: ready_sorted_def)
    show "sems_ok ?k" using D(8) by (subst sems_ok_cong [of _ k]) simp_all
    show "tref ?k b \<notin> X - {tp} \<and> tref ?k b \<in> set (registry ?k)
      \<and> p_state (thr ?k (tref ?k b)) = CH_STATE_SUSPENDED \<and> p_u (thr ?k (tref ?k b)) = b" if "tref ?k b \<noteq> 0" for b
      using that D(14-17) [of b] tp st by (auto split: if_splits)
    show "tref ?k (p_u (thr ?k t)) = t"
      if "t \<in> set (registry ?k)" "t \<notin> X - {tp}" "p_state (thr ?k t) = CH_STATE_SUSPENDED" for t
      using that D(18) [of t] D(20) free st by (cases "t = tp") auto
    show "t = t'" if "w \<in> set (p_waiting (thr ?k t))" "w \<in> set (p_waiting (thr ?k t'))" for t t' w
      by (rule D(10)) (use that in simp_all)
    show "q = q'" if "t \<in> set (queues ?k q)" "t \<in> set (queues ?k q')" for q q' t
      by (rule D(2)) (use that in simp_all)
    show "\<exists>q. t \<in> set (queues ?k q)" if "t \<in> set (registry ?k)" "t \<notin> X - {tp}" "in_queue_state (p_state (thr ?k t))" for t
      using that D(6) [of t] st by (cases "t = tp") (auto simp: in_queue_state_def)
    show "p_state (thr ?k t) \<noteq> CH_STATE_CURRENT" if "t \<in> set (registry ?k)" "t \<notin> X - {tp}" for t
      using that D(22) [of t] st by (cases "t = tp") auto
    show "t \<in> set (registry ?k) \<and> \<not> evt_awaited (thr ?k t)" if "t \<notin> X - {tp}" "evt_state (p_state (thr ?k t))" for t
      using that D(23,24) [of t] st by (cases "t = tp") auto
  qed (use D(1) D(3-5) D(9) D(11-13) D(19-21) in auto)
qed

lemma release_queue_at_core:
  assumes core: "kcore X k" and tp: "tp \<in> X" "tp \<in> set (registry k)"
    and ok: "ok_queue (thr k tp) q" "q \<noteq> RList"
    and k': "queues k' = (queues k)(q := xs)" "thr k' = thr k" "registry k' = registry k" "tref k' = tref k"
    and xs: "set xs = insert tp (set (queues k q))" "distinct xs" and sem: "sems_ok k'"
  shows "kcore (X - {tp}) k'"
proof -
  note D = kcoreD [OF core]
  have np: "tp \<notin> set (queues k q)" for q using D(3) tp by blast
  have qs: "set (queues k' q') = (if q' = q then insert tp (set (queues k q)) else set (queues k q'))" for q'
    by (simp add: k' xs)
  have mono: "t \<in> set (queues k q') \<Longrightarrow> t \<in> set (queues k' q')" for t q' by (auto simp: k' xs)
  have st: "p_state (thr k tp) \<noteq> CH_STATE_SUSPENDED" "p_state (thr k tp) \<noteq> CH_STATE_CURRENT" "\<not> evt_state (p_state (thr k tp))"
    using ok by (cases q; simp)+
  show ?thesis
  proof (rule kcoreI)
    show "distinct (queues k' q')" for q' using D(1) xs by (simp add: k')
    show "q1 = q2" if "t \<in> set (queues k' q1)" "t \<in> set (queues k' q2)" for q1 q2 t
      using that D(2) np unfolding qs by (metis insert_iff)
    show "t \<notin> X - {tp} \<and> t \<in> set (registry k') \<and> ok_queue (thr k' t) q'" if "t \<in> set (queues k' q')" for q' t
      using that D(3,4) D(5) [of t q'] tp ok unfolding qs k' by (auto simp: xs split: if_splits)
    show "\<exists>q. t \<in> set (queues k' q)" if a: "t \<in> set (registry k')" "t \<notin> X - {tp}" "in_queue_state (p_state (thr k' t))" for t
    proof (cases "t = tp")
      case True
      then show ?thesis by (intro exI [of _ q]) (simp add: k' xs)
    next
      case False
      then obtain q0 where "t \<in> set (queues k q0)" using a D(6) [of t] by (auto simp: k')
      then show ?thesis using mono by blast
    qed
    show "ready_sorted k'" using D(7) ok(2) by (simp add: ready_sorted_def k')
    show "sems_ok k'" by (rule sem)
    show "t \<in> set (registry k') \<and> \<not> evt_awaited (thr k' t)" if "t \<notin> X - {tp}" "evt_state (p_state (thr k' t))" for t
      using that D(23,24) [of t] st by (cases "t = tp") (auto simp: k')
  qed (use D(9-22) st in \<open>auto simp: k'\<close>)
qed

lemma release_queue_core:
  assumes core: "kcore X k" and tp: "tp \<in> X" "tp \<in> set (registry k)" and ok: "ok_queue (thr k tp) q" "q \<noteq> RList"
    and k': "queues k' = (queues k)(q := queues k q @ [tp])" "thr k' = thr k" "registry k' = registry k" "tref k' = tref k"
    and sem: "sems_ok k'"
  shows "kcore (X - {tp}) k'"
  using kcoreD(1) [OF core, of q] kcoreD(3) [OF core, of tp q] tp(1)
  by (intro release_queue_at_core [OF core tp ok k' _ _ sem]) auto

text \<open>The priority of a thread that is not in the ready list.\<close>

lemma set_prio_core:
  assumes core: "kcore X k" and tp: "tp \<notin> set (queues k RList)" and pr: "pr \<noteq> 0"
  shows "kcore X (set_thr tp (\<lambda>t. t\<lparr>p_prio := pr\<rparr>) k)" (is "kcore X ?k")
proof -
  have e: "p_state (thr ?k t) = p_state (thr k t)" "p_u (thr ?k t) = p_u (thr k t)" "p_waiting (thr ?k t) = p_waiting (thr k t)" for t
    by simp_all
  have o: "ok_queue (thr ?k t) q = ok_queue (thr k t) q" for t q by (cases q) (simp_all only: ok_queue.simps e)
  have "ready_sorted ?k"
    using kcoreD(7) [OF core] tp unfolding ready_sorted_def by (auto intro: sorted_wrt_mono_rel [rotated])
  moreover have "registry_ok X ?k" using core pr unfolding kcore_def registry_ok_def by simp
  moreover have "evt_awaited (thr ?k t) = evt_awaited (thr k t)" for t by (rule evt_awaited_cong) simp_all
  ultimately show ?thesis using core o unfolding kcore_def queues_ok_def waiting_ok_def sems_ok_def events_ok_def e by simp
qed

section \<open>Switching threads\<close>

text \<open>The state between calls: the running thread is in hand, and no ready thread has a higher priority.\<close>

definition run_ok :: "kernel \<Rightarrow> bool" where
  "run_ok k \<longleftrightarrow> kcore {currp k} k \<and> currp k \<in> set (registry k) \<and> p_state (thr k (currp k)) = CH_STATE_CURRENT"

definition sched_ok :: "kernel \<Rightarrow> bool" where
  "sched_ok k \<longleftrightarrow> run_ok k \<and> (\<forall>t \<in> set (queues k RList). prio k t \<le> prio k (currp k))"

text \<open>A thread \<open>t\<close> sleeps, or slept, on the timer \<open>vt\<close>.\<close>

definition timed_state :: "tstate \<Rightarrow> bool" where
  "timed_state st \<longleftrightarrow> st \<in> {CH_STATE_READY, CH_STATE_CURRENT, CH_STATE_SUSPENDED, CH_STATE_QUEUED, CH_STATE_WTSEM, CH_STATE_SLEEPING,
     CH_STATE_WTOREVT, CH_STATE_WTANDEVT}"

definition waits_on :: "kernel \<Rightarrow> tid \<Rightarrow> tid \<Rightarrow> bool" where
  "waits_on k vt t \<longleftrightarrow> t \<in> set (registry k) \<and> (\<exists>f. pend k t = Some f \<and> timer_of f = Some vt)
     \<and> timed_state (p_state (thr k t))"

definition keeps_timed :: "kernel \<Rightarrow> kernel \<Rightarrow> bool" where
  "keeps_timed k k' \<longleftrightarrow> (\<forall>vt t. waits_on k vt t \<longrightarrow> waits_on k' vt t)"

lemma keeps_timed_trans: "keeps_timed k k1 \<Longrightarrow> keeps_timed k1 k2 \<Longrightarrow> keeps_timed k k2"
  by (simp add: keeps_timed_def)

lemma keeps_timed_make_ready: "keeps_timed k (make_ready ge tp k)"
  by (auto simp: keeps_timed_def waits_on_def make_ready_def timed_state_def)

lemma run_ok_ready: "chSchReadyI tp k = (if prio k tp = 0 then None else Some (make_ready True tp k))"
proof -
  have "prio (set_p_state tp CH_STATE_READY k) = prio k" by (auto simp: fun_eq_iff)
  then show ?thesis by (simp add: chSchReadyI_def make_ready_def Let_def)
qed

lemma make_ready_simps [simp]:
  "currp (make_ready ge tp k) = currp k" "registry (make_ready ge tp k) = registry k"
  "m_owner (make_ready ge tp k) = m_owner k" "m_next (make_ready ge tp k) = m_next k" "el (make_ready ge tp k) = el k" "pend (make_ready ge tp k) = pend k"
  "tref (make_ready ge tp k) = tref k" "s_cnt (make_ready ge tp k) = s_cnt k" "ret (make_ready ge tp k) = ret k"
  "p_prio (thr (make_ready ge tp k) t) = p_prio (thr k t)"
  "p_state (thr (make_ready ge tp k) t) = (if t = tp then CH_STATE_READY else p_state (thr k t))"
  "p_u (thr (make_ready ge tp k) t) = p_u (thr k t)"
  "p_waiting (thr (make_ready ge tp k) t) = p_waiting (thr k t)"
  "p_flags (thr (make_ready ge tp k) t) = p_flags (thr k t)"
  "p_realprio (thr (make_ready ge tp k) t) = p_realprio (thr k t)" "p_mtxlist (thr (make_ready ge tp k) t) = p_mtxlist (thr k t)"
  "queues (make_ready ge tp k) q = (if q = RList then insert_prio (prio k) ge tp (queues k RList) else queues k q)"
  by (simp_all add: make_ready_def)

lemma pick_first_core:
  assumes core: "kcore X k" and ne: "queues k RList = t # ts"
  obtains k' where "pick_first k = Some k'" "kcore (insert t X) k'" "currp k' = t" "p_state (thr k' t) = CH_STATE_CURRENT"
    "queues k' RList = ts" "keeps_timed k k'" "registry k' = registry k" "pend k' = pend k"
    "\<And>u. p_prio (thr k' u) = p_prio (thr k u)" "\<And>u. u \<noteq> t \<Longrightarrow> thr k' u = thr k u" "\<And>q. q \<noteq> RList \<Longrightarrow> queues k' q = queues k q"
    "t \<in> set (registry k)" "t \<notin> X" "t \<notin> set ts" "s_cnt k' = s_cnt k" "tref k' = tref k" "ret k' = ret k"
    "p_u (thr k' t) = p_u (thr k t)" "p_preempt (thr k' t) = p_preempt (thr k t)"
proof -
  note D = kcoreD [OF core]
  let ?k = "(set_queue RList ts k)\<lparr>currp := t\<rparr>"
  have t: "t \<in> set (queues k RList)" "t \<notin> set ts" using D(1) [of RList] ne by auto
  have nq: "t \<notin> set (queues k q)" if "q \<noteq> RList" for q using D(2) [OF t(1)] that by blast
  have st: "p_state (thr k t) = CH_STATE_READY" using D(5) [OF t(1)] by simp
  have tr: "t \<in> set (registry k)" "t \<notin> X" using D(3,4) [OF t(1)] by auto
  have "kcore (insert t X) ?k"
  proof (rule grab_core [OF core])
    show "queues ?k = (\<lambda>q. remove1 t (queues k q))"
      using nq ne by (auto simp: fun_eq_iff remove1_idem)
    show "tref ?k = (\<lambda>a. if tref k a = t then 0 else tref k a)"
    proof (rule ext)
      fix a show "tref ?k a = (if tref k a = t then 0 else tref k a)"
        using D(16) [of a] st by (cases "tref k a = 0") auto
    qed
    show "t \<notin> set (p_waiting (thr k u))" for u using D(13) [of t u] st by auto
    show "sems_ok ?k" using D(8) by (simp add: sems_ok_def)
  qed simp_all
  then have "kcore (insert t X) (set_p_state t CH_STATE_CURRENT ?k)"
    by (rule set_thr_core) (use D(21) [OF tr(1)] in auto)
  moreover have "keeps_timed k (set_p_state t CH_STATE_CURRENT ?k)"
    by (auto simp: keeps_timed_def waits_on_def timed_state_def)
  ultimately show ?thesis
    by (intro that [of "set_p_state t CH_STATE_CURRENT ?k"]) (auto simp: pick_first_def ne tr t)
qed


lemma sorted_head:
  assumes "kcore X k" "queues k RList = t # ts" "u \<in> set ts"
  shows "prio k u \<le> prio k t"
  using kcoreD(7) [OF assms(1)] assms(2,3) by (simp add: ready_sorted_def)

text \<open>Putting the running thread to sleep, when it has already been put where it waits.\<close>

lemma go_sleep_ok:
  assumes core: "kcore {} (set_thr (currp k) (\<lambda>t. t\<lparr>p_preempt := CH_CFG_TIME_QUANTUM\<rparr>) (set_p_state (currp k) st k))" (is "kcore {} ?k")
    and ne: "queues k RList \<noteq> []"
  obtains k' where "chSchGoSleepS st k = Some k'" "sched_ok k'" "keeps_timed ?k k'" "registry k' = registry k" "pend k' = pend k"
proof -
  obtain t ts where q: "queues ?k RList = t # ts" using ne by (cases "queues k RList") auto
  obtain k' where k': "pick_first ?k = Some k'" "kcore (insert t {}) k'" "currp k' = t" "p_state (thr k' t) = CH_STATE_CURRENT"
    "queues k' RList = ts" "keeps_timed ?k k'" "registry k' = registry ?k" "pend k' = pend ?k"
    "\<And>u. p_prio (thr k' u) = p_prio (thr ?k u)" "t \<in> set (registry ?k)"
    by (rule pick_first_core [OF core q]) blast
  have "sched_ok k'" unfolding sched_ok_def run_ok_def k'(3,5,7,9) using k' sorted_head [OF core q] by simp
  then show ?thesis using k' by (intro that [of k']) (simp_all add: chSchGoSleepS_def Let_def)
qed

lemma keeps_timed_cong:
  assumes "registry k' = registry k" "pend k' = pend k" "\<And>t. p_state (thr k' t) = p_state (thr k t)"
  shows "keeps_timed k k'"
  using assms by (simp add: keeps_timed_def waits_on_def)

text \<open>The running thread goes back to the ready list, for the first ready one.\<close>

lemma reschedule_ok:
  assumes run: "run_ok k" and q: "queues k RList = t # ts" and le: "prio k (currp k) \<le> prio k t"
    and f: "\<And>x. p_state (f x) = p_state x \<and> p_prio (f x) = p_prio x \<and> p_waiting (f x) = p_waiting x"
  obtains k1 where "pick_first k = Some k1" "currp k1 = t"
    "sched_ok (make_ready ge (currp k) (set_thr (currp k) f k1))"
    "keeps_timed k (make_ready ge (currp k) (set_thr (currp k) f k1))"
    "registry k1 = registry k" "pend k1 = pend k" "prio k1 (currp k) = prio k (currp k)"
    "p_preempt (thr k1 t) = p_preempt (thr k t)" "queues k1 RList = ts" "\<And>u. p_prio (thr k1 u) = p_prio (thr k u)" "t \<noteq> currp k"
proof -
  let ?c = "currp k"
  have core: "kcore {?c} k" and reg: "?c \<in> set (registry k)" using run by (auto simp: run_ok_def)
  obtain k1 where k1: "pick_first k = Some k1" "kcore (insert t {?c}) k1" "currp k1 = t" "p_state (thr k1 t) = CH_STATE_CURRENT"
    "queues k1 RList = ts" "keeps_timed k k1" "registry k1 = registry k" "pend k1 = pend k"
    "\<And>u. p_prio (thr k1 u) = p_prio (thr k u)" "t \<in> set (registry k)" "t \<notin> {?c}" "p_preempt (thr k1 t) = p_preempt (thr k t)"
    by (rule pick_first_core [OF core q]) blast
  let ?k2 = "set_thr ?c f k1" and ?k3 = "make_ready ge ?c (set_thr ?c f k1)"
  have "kcore {t, ?c} ?k2"
    by (rule set_thr_core [OF k1(2)]) (use f k1(9) kcoreD(21) [OF core reg] in auto)
  then have "kcore ({t, ?c} - {?c}) ?k3" by (rule make_ready_core) (use reg k1 in auto)
  moreover have "{t, ?c} - {?c} = {t}" using k1(11) by auto
  moreover have "p_state (thr ?k3 t) = CH_STATE_CURRENT" using k1(4,11) by simp
  moreover have "prio ?k3 u \<le> prio ?k3 t" if "u \<in> set (queues ?k3 RList)" for u
  proof -
    have "u = ?c \<or> u \<in> set ts" using that k1(5) by simp
    then show ?thesis using le sorted_head [OF core q] k1(9) f by auto
  qed
  ultimately have "sched_ok ?k3" using k1 by (simp add: sched_ok_def run_ok_def)
  moreover have "keeps_timed k1 ?k3"
    by (rule keeps_timed_trans [OF keeps_timed_cong keeps_timed_make_ready]) (use f in auto)
  ultimately show ?thesis using k1 by (intro that [of k1]) (auto intro: keeps_timed_trans)
qed

lemma run_ok_prio: "run_ok k \<Longrightarrow> prio k (currp k) \<noteq> 0"
  unfolding run_ok_def by (metis kcoreD(21))

lemma firstprio_le: "kcore X k \<Longrightarrow> u \<in> set (queues k RList) \<Longrightarrow> prio k u \<le> firstprio k"
  by (cases "queues k RList") (auto simp: firstprio_def sorted_head)

definition switched :: "kernel \<Rightarrow> kernel \<Rightarrow> bool" where
  "switched k k' \<longleftrightarrow> sched_ok k' \<and> keeps_timed k k' \<and> registry k' = registry k \<and> pend k' = pend k"

lemma DoRescheduleAhead_ok:
  assumes run: "run_ok k" and gt: "firstprio k > prio k (currp k)"
  shows "\<exists>k'. chSchDoRescheduleAhead k = Some k' \<and> switched k k'"
proof -
  obtain t ts where q: "queues k RList = t # ts" using gt by (cases "queues k RList") (auto simp: firstprio_def)
  then have le: "prio k (currp k) \<le> prio k t" using gt by (simp add: firstprio_def)
  obtain k1 where k1: "pick_first k = Some k1" "sched_ok (make_ready False (currp k) (set_thr (currp k) id k1))"
    "keeps_timed k (make_ready False (currp k) (set_thr (currp k) id k1))" "registry k1 = registry k" "pend k1 = pend k"
    by (rule reschedule_ok [OF run q le, of id False]) auto
  have "set_thr (currp k) id k1 = k1" by (simp add: set_thr_def)
  moreover have "chSchDoRescheduleAhead k = Some (make_ready False (currp k) k1)"
  proof -
    have "prio (set_p_state c CH_STATE_READY k1) = prio k1" for c by (auto simp: fun_eq_iff)
    then show ?thesis using k1(1) by (simp add: chSchDoRescheduleAhead_def make_ready_def Let_def)
  qed
  ultimately show ?thesis using k1 by (simp add: switched_def)
qed

lemma DoRescheduleBehind_ok:
  assumes run: "run_ok k" and ge: "firstprio k \<ge> prio k (currp k)"
  shows "\<exists>k'. chSchDoRescheduleBehind k = Some k' \<and> switched k k'"
proof -
  obtain t ts where q: "queues k RList = t # ts"
    using ge run_ok_prio [OF run] by (cases "queues k RList") (auto simp: firstprio_def)
  then have le: "prio k (currp k) \<le> prio k t" using ge by (simp add: firstprio_def)
  let ?f = "\<lambda>t. t\<lparr>p_preempt := CH_CFG_TIME_QUANTUM\<rparr>"
  obtain k1 where k1: "pick_first k = Some k1" "sched_ok (make_ready True (currp k) (set_thr (currp k) ?f k1))"
    "keeps_timed k (make_ready True (currp k) (set_thr (currp k) ?f k1))" "registry k1 = registry k" "pend k1 = pend k"
    "prio k1 (currp k) = prio k (currp k)"
    by (rule reschedule_ok [OF run q le, of ?f True]) auto
  then have "chSchDoRescheduleBehind k = Some (make_ready True (currp k) (set_thr (currp k) ?f k1))"
    using run_ok_prio [OF run] by (simp add: chSchDoRescheduleBehind_def run_ok_ready Let_def)
  then show ?thesis using k1 by (simp add: switched_def)
qed

lemma switched_refl: "run_ok k \<Longrightarrow> firstprio k \<le> prio k (currp k) \<Longrightarrow> switched k k"
  unfolding switched_def sched_ok_def keeps_timed_def run_ok_def by (auto intro: order_trans firstprio_le)

lemma RescheduleS_ok: "run_ok k \<Longrightarrow> \<exists>k'. chSchRescheduleS k = Some k' \<and> switched k k'"
  using DoRescheduleAhead_ok switched_refl unfolding chSchRescheduleS_def chSchIsRescRequiredI_def by (auto simp: not_less)

lemma DoYieldS_ok: "run_ok k \<Longrightarrow> \<exists>k'. chSchDoYieldS k = Some k' \<and> switched k k'"
  using DoRescheduleBehind_ok switched_refl unfolding chSchDoYieldS_def chSchCanYieldS_def by (auto simp: not_le)

lemma port_irq_epilogue_ok: "run_ok k \<Longrightarrow> \<exists>k'. port_irq_epilogue k = Some k' \<and> switched k k'"
  using DoRescheduleBehind_ok DoRescheduleAhead_ok switched_refl
  unfolding port_irq_epilogue_def chSchIsPreemptionRequired_def chSchDoReschedule_def
  by (auto simp: Let_def not_le not_less)

section \<open>Waking threads\<close>

lemma WakeupS_ok:
  assumes core: "kcore {currp k, ntp} k" and c: "currp k \<in> set (registry k)" "p_state (thr k (currp k)) = CH_STATE_CURRENT"
    and n: "ntp \<in> set (registry k)" "ntp \<noteq> currp k"
    and top: "\<forall>t \<in> set (queues k RList). prio k t \<le> prio k (currp k)"
  shows "\<exists>k'. chSchWakeupS ntp msg k = Some k' \<and> sched_ok k' \<and> keeps_timed k k'
    \<and> registry k' = registry k \<and> pend k' = pend k"
proof -
  let ?c = "currp k" and ?k = "set_p_u ntp msg k"
  have core1: "kcore {?c, ntp} ?k" by (rule set_thr_core [OF core]) (use kcoreD(21) [OF core n(1)] in auto)
  have pc: "prio k ?c \<noteq> 0" "prio k ntp \<noteq> 0" using kcoreD(21) [OF core] c n by auto
  have kt: "keeps_timed k ?k" by (rule keeps_timed_cong) auto
  show ?thesis
  proof (cases "prio k ntp \<le> prio k ?c")
    case True
    let ?k' = "make_ready True ntp ?k"
    have "kcore ({?c, ntp} - {ntp}) ?k'" by (rule make_ready_core [OF core1]) (use n in auto)
    moreover have "{?c, ntp} - {ntp} = {?c}" using n by auto
    ultimately have "sched_ok ?k'" using c n True top by (auto simp: sched_ok_def run_ok_def)
    moreover have "chSchWakeupS ntp msg k = Some ?k'" using True n(2) pc by (simp add: chSchWakeupS_def run_ok_ready)
    ultimately show ?thesis using keeps_timed_trans [OF kt keeps_timed_make_ready] by simp
  next
    case False
    let ?k1 = "make_ready True ?c ?k"
    let ?k' = "set_p_state ntp CH_STATE_CURRENT (?k1\<lparr>currp := ntp\<rparr>)"
    have "kcore ({?c, ntp} - {?c}) ?k1" by (rule make_ready_core [OF core1]) (use c in auto)
    moreover have "{?c, ntp} - {?c} = {ntp}" using n by auto
    ultimately have "kcore {ntp} (?k1\<lparr>currp := ntp\<rparr>)" by (subst kcore_cong [of _ ?k1]) simp_all
    then have "kcore {ntp} ?k'" by (rule set_thr_core) (use pc in auto)
    moreover have "prio ?k' t \<le> prio ?k' ntp" if "t \<in> set (queues ?k' RList)" for t
    proof -
      have "t = ?c \<or> t \<in> set (queues k RList)" using that by simp
      then have "prio k t \<le> prio k ?c" using top by auto
      then have "prio k t \<le> prio k ntp" using False by (meson le_less_trans less_imp_le not_le)
      then show ?thesis by auto
    qed
    ultimately have "sched_ok ?k'" using n by (auto simp: sched_ok_def run_ok_def)
    moreover have "chSchWakeupS ntp msg k = Some ?k'" using False n(2) pc by (simp add: chSchWakeupS_def run_ok_ready)
    moreover have "keeps_timed ?k1 ?k'"
      by (auto simp: keeps_timed_def waits_on_def timed_state_def)
    then have "keeps_timed k ?k'" using kt keeps_timed_make_ready keeps_timed_trans by blast
    ultimately show ?thesis by simp
  qed
qed

text \<open>A thread is taken out of what its state says it waits for.\<close>

lemma grab_by_state:
  assumes core: "kcore X k" and t: "tp \<in> set (registry k)" "tp \<notin> X" and st: "p_state (thr k tp) \<noteq> CH_STATE_WTEXIT"
    and q: "queues k' = (\<lambda>q. remove1 tp (queues k q))"
    and r: "tref k' = (if p_state (thr k tp) = CH_STATE_SUSPENDED then (tref k)(p_u (thr k tp) := 0) else tref k)"
    and f: "thr k' = thr k" "registry k' = registry k"
    and n: "s_cnt k' = (if p_state (thr k tp) = CH_STATE_WTSEM then (s_cnt k)(p_u (thr k tp) := s_cnt k (p_u (thr k tp)) + 1) else s_cnt k)"
  shows "kcore (insert tp X) k'"
proof (rule grab_core [OF core q _ f])
  note D = kcoreD [OF core]
  show "tref k' = (\<lambda>a. if tref k a = tp then 0 else tref k a)"
  proof (rule ext)
    fix a
    have "tp \<noteq> 0" using D(20) t by auto
    then have "p_state (thr k tp) = CH_STATE_SUSPENDED \<and> p_u (thr k tp) = a" if "tref k a = tp"
      using D(16,17) [of a] that by auto
    then have 1: "tref k a = tp \<longleftrightarrow> p_state (thr k tp) = CH_STATE_SUSPENDED \<and> p_u (thr k tp) = a"
      using D(18) [OF t] by auto
    show "tref k' a = (if tref k a = tp then 0 else tref k a)" unfolding r 1 by simp
  qed
  show "tp \<notin> set (p_waiting (thr k u))" for u using D(13) st by blast
  show "sems_ok k'"
    unfolding sems_ok_def
  proof
    fix sp
    have old: "if queues k (Sem sp) = [] then 0 \<le> s_cnt k sp else s_cnt k sp = - int (length (queues k (Sem sp)))"
      using D(8) by (simp add: sems_ok_def)
    show "if queues k' (Sem sp) = [] then 0 \<le> s_cnt k' sp else s_cnt k' sp = - int (length (queues k' (Sem sp)))"
    proof (cases "tp \<in> set (queues k (Sem sp))")
      case True
      then have w: "p_state (thr k tp) = CH_STATE_WTSEM" "p_u (thr k tp) = sp" using D(5) by fastforce+
      let ?q = "queues k (Sem sp)"
      have l: "length (remove1 tp ?q) = length ?q - 1" "0 < length ?q" using True by (auto simp: length_remove1)
      have i: "int (length ?q - Suc 0) = int (length ?q) - 1" using l(2) by linarith
      have "s_cnt k sp = - int (length ?q)" using old l(2) by auto
      then have "s_cnt k' sp = - int (length (queues k' (Sem sp)))" using w l(1) i unfolding n q by simp
      then show ?thesis by simp
    next
      case False
      moreover have "p_u (thr k tp) \<noteq> sp" if w: "p_state (thr k tp) = CH_STATE_WTSEM"
      proof -
        obtain q0 where q0: "tp \<in> set (queues k q0)" using D(6) [OF t] w by (auto simp: in_queue_state_def)
        then have "ok_queue (thr k tp) q0" by (rule D(5))
        then have "q0 = Sem (p_u (thr k tp))" using w by (cases q0) auto
        then show ?thesis using q0 False by auto
      qed
      ultimately have "s_cnt k' sp = s_cnt k sp" "queues k' (Sem sp) = queues k (Sem sp)"
        unfolding q n by (auto simp: remove1_idem)
      then show ?thesis using old by simp
    qed
  qed
qed

lemma dequeue_simps [simp]:
  "thr (dequeue tp k) = thr k" "queues (dequeue tp k) = (\<lambda>q. remove1 tp (queues k q))" "currp (dequeue tp k) = currp k"
  "registry (dequeue tp k) = registry k"
  "m_owner (dequeue tp k) = m_owner k" "m_next (dequeue tp k) = m_next k" "el (dequeue tp k) = el k" "s_cnt (dequeue tp k) = s_cnt k" "tref (dequeue tp k) = tref k"
  "pend (dequeue tp k) = pend k" "ret (dequeue tp k) = ret k"
  by (simp_all add: dequeue_def)

lemma remove1_not_queued:
  assumes core: "kcore X k" and st: "\<not> in_queue_state (p_state (thr k tp))"
  shows "queues k = (\<lambda>q. remove1 tp (queues k q))"
proof
  fix q
  have "tp \<notin> set (queues k q)"
    using kcoreD(5) [OF core, of tp q] st by (cases q) (auto simp: in_queue_state_def)
  then show "queues k q = remove1 tp (queues k q)" by (simp add: remove1_idem)
qed

text \<open>What \<open>wakeup\<close> does to a thread that is not ready.\<close>

definition unlinked :: "tid \<Rightarrow> kernel \<Rightarrow> kernel" where
  "unlinked tp k =
     (case p_state (thr k tp) of
        CH_STATE_SUSPENDED \<Rightarrow> set_tref (p_u (thr k tp)) 0 k
      | CH_STATE_WTSEM \<Rightarrow> dequeue tp (chSemFastSignalI (p_u (thr k tp)) k)
      | CH_STATE_WTCOND \<Rightarrow> dequeue tp k
      | CH_STATE_QUEUED \<Rightarrow> dequeue tp k
      | _ \<Rightarrow> k)"

lemma wakeup_eq:
  "wakeup tp k = (if p_state (thr k tp) = CH_STATE_READY then Some k else chSchReadyI tp (set_p_u tp MSG_TIMEOUT (unlinked tp k)))"
  by (simp add: wakeup_def unlinked_def Let_def split: tstate.split)

lemma unlinked_simps [simp]:
  "thr (unlinked tp k) = thr k" "currp (unlinked tp k) = currp k" "registry (unlinked tp k) = registry k"
  "m_owner (unlinked tp k) = m_owner k" "m_next (unlinked tp k) = m_next k" "el (unlinked tp k) = el k"
  "pend (unlinked tp k) = pend k" "ret (unlinked tp k) = ret k"
  by (simp_all add: unlinked_def chSemFastSignalI_def split: tstate.split)

lemma unlinked_core:
  assumes core: "kcore X k" and t: "tp \<in> set (registry k)" "tp \<notin> X" and st: "timed_state (p_state (thr k tp))"
    "p_state (thr k tp) \<noteq> CH_STATE_READY"
  shows "kcore (insert tp X) (unlinked tp k)"
proof (rule grab_by_state [OF core t])
  show "p_state (thr k tp) \<noteq> CH_STATE_WTEXIT" using st by (auto simp: timed_state_def)
  have c: "p_state (thr k tp) \<noteq> CH_STATE_CURRENT" using kcoreD(22) [OF core] t by auto
  show "queues (unlinked tp k) = (\<lambda>q. remove1 tp (queues k q))"
    using st c remove1_not_queued [OF core, of tp]
    by (auto simp: unlinked_def chSemFastSignalI_def timed_state_def in_queue_state_def)
qed (use st in \<open>auto simp: unlinked_def chSemFastSignalI_def timed_state_def split: tstate.split\<close>)

lemma wakeup_ok:
  assumes run: "run_ok k" and w: "waits_on k vt tp" "tp \<noteq> currp k"
  obtains k' where "wakeup tp k = Some k'" "run_ok k'" "keeps_timed k k'" "currp k' = currp k" "registry k' = registry k"
    "pend k' = pend k" "p_state (thr k' tp) = CH_STATE_READY" "\<And>t. t \<noteq> tp \<Longrightarrow> thr k' t = thr k t"
proof (cases "p_state (thr k tp) = CH_STATE_READY")
  case True
  then show ?thesis using run by (intro that [of k]) (auto simp: wakeup_eq keeps_timed_def)
next
  case False
  let ?c = "currp k" and ?k1 = "set_p_u tp MSG_TIMEOUT (unlinked tp k)"
  have core: "kcore {?c} k" and c: "?c \<in> set (registry k)" "p_state (thr k ?c) = CH_STATE_CURRENT"
    using run by (auto simp: run_ok_def)
  have t: "tp \<in> set (registry k)" "timed_state (p_state (thr k tp))" using w by (auto simp: waits_on_def)
  have p: "prio k tp \<noteq> 0" using kcoreD(21) [OF core t(1)] .
  have "kcore {tp, ?c} (unlinked tp k)" by (rule unlinked_core [OF core]) (use t w False in auto)
  then have "kcore {tp, ?c} ?k1" by (rule set_thr_core) (use p in auto)
  then have "kcore ({tp, ?c} - {tp}) (make_ready True tp ?k1)" by (rule make_ready_core) (use t in auto)
  moreover have "{tp, ?c} - {tp} = {?c}" using w by auto
  ultimately have "run_ok (make_ready True tp ?k1)" using c w by (auto simp: run_ok_def)
  moreover have "keeps_timed k (make_ready True tp ?k1)"
    by (rule keeps_timed_trans [OF keeps_timed_cong keeps_timed_make_ready]) auto
  moreover have "thr (make_ready True tp ?k1) u = thr k u" if "u \<noteq> tp" for u using that by (simp add: make_ready_def)
  ultimately show ?thesis using p False
    by (intro that [of "make_ready True tp ?k1"]) (simp_all add: wakeup_eq run_ok_ready)
qed


section \<open>The whole system\<close>

definition timers_ok :: "sys \<Rightarrow> bool" where
  "timers_ok s \<longleftrightarrow> (\<exists>ds. vt_rep s ds \<and> vt_live ds)
     \<and> (\<forall>vt. vt_func s vt = Some VT_wakeup \<longrightarrow> waits_on (vtimers.more s) vt (vt_par s vt))"

definition kinv :: "sys \<Rightarrow> bool" where
  "kinv s \<longleftrightarrow> sched_ok (vtimers.more s) \<and> pend (vtimers.more s) (currp (vtimers.more s)) = None \<and> timers_ok s"

lemma timers_ok_update:
  assumes "timers_ok s" "keeps_timed (vtimers.more s) (f (vtimers.more s))"
  shows "timers_ok (vtimers.more_update f s)"
  using assms by (simp add: timers_ok_def keeps_timed_def)

text \<open>Changes to a thread that the invariant does not look at.\<close>

lemma set_thr_irrelevant_core:
  assumes core: "kcore X k" and f: "\<And>t. p_state (f t) = p_state t" "\<And>t. p_u (f t) = p_u t" "\<And>t. p_prio (f t) = p_prio t"
    "\<And>t. p_waiting (f t) = p_waiting t" "tp \<in> X \<or> (\<forall>t. p_epending (f t) = p_epending t)"
  shows "kcore X (set_thr tp f k)"
proof -
  note D = kcoreD [OF core]
  let ?k = "set_thr tp f k"
  have e: "p_state (thr ?k t) = p_state (thr k t)" "p_u (thr ?k t) = p_u (thr k t)" "p_prio (thr ?k t) = p_prio (thr k t)"
    "p_waiting (thr ?k t) = p_waiting (thr k t)" for t using f by simp_all
  have "ok_queue (thr ?k t) q = ok_queue (thr k t) q" for t q by (cases q) (simp_all only: ok_queue.simps e)
  moreover have "t \<notin> X \<Longrightarrow> evt_awaited (thr ?k t) = evt_awaited (thr k t)" for t using f(5) by (intro evt_awaited_cong e) auto
  then have "events_ok X ?k" using D(23,24) unfolding events_ok_def e by simp
  ultimately show ?thesis using core
    unfolding kcore_def queues_ok_def waiting_ok_def registry_ok_def ready_sorted_def sems_ok_def e by simp
qed

lemma remove_final_core:
  assumes core: "kcore X k" and st: "p_state (thr k tp) = CH_STATE_FINAL"
  shows "kcore X (k\<lparr>registry := remove1 tp (registry k), heap_freed := h\<rparr>)" (is "kcore X ?k")
proof -
  note D = kcoreD [OF core]
  have r: "set (registry ?k) = set (registry k) - {tp}" using D(19) by simp
  have nq: "tp \<notin> set (queues k q)" for q using D(5) [of tp q] st by (cases q) auto
  have nw: "tp \<notin> set (p_waiting (thr k t))" for t using D(13) [of tp t] st by auto
  have nt: "tref k a \<noteq> 0 \<Longrightarrow> tref k a \<noteq> tp" for a using D(16) [of a] st by auto
  show ?thesis
  proof (rule kcoreI, unfold r)
    show "ready_sorted ?k" using D(7) by (simp add: ready_sorted_def)
    show "sems_ok ?k" using D(8) by (simp add: sems_ok_def)
    show "t = t'" if "w \<in> set (p_waiting (thr ?k t))" "w \<in> set (p_waiting (thr ?k t'))" for t t' w
      by (rule D(10)) (use that in simp_all)
    show "q = q'" if "t \<in> set (queues ?k q)" "t \<in> set (queues ?k q')" for q q' t by (rule D(2)) (use that in simp_all)
    show "\<exists>q. t \<in> set (queues ?k q)" if "t \<in> set (registry k) - {tp}" "t \<notin> X" "in_queue_state (p_state (thr ?k t))" for t
      using that D(6) [of t] by auto
    show "t \<notin> X \<and> t \<in> set (registry k) - {tp} \<and> ok_queue (thr ?k t) q" if "t \<in> set (queues ?k q)" for q t
      using that D(3-5) [of t q] nq [of q] by auto
    show "w \<notin> X \<and> w \<in> set (registry k) - {tp} \<and> p_state (thr ?k w) = CH_STATE_WTEXIT" if "w \<in> set (p_waiting (thr ?k t))" for t w
      using that D(11-13) [of w t] nw [of t] by auto
    show "tref ?k a \<notin> X \<and> tref ?k a \<in> set (registry k) - {tp} \<and> p_state (thr ?k (tref ?k a)) = CH_STATE_SUSPENDED
      \<and> p_u (thr ?k (tref ?k a)) = a" if "tref ?k a \<noteq> 0" for a
      using that D(14-17) [of a] nt [of a] by auto
    show "t \<in> set (registry k) - {tp} \<and> \<not> evt_awaited (thr ?k t)" if "t \<notin> X" "evt_state (p_state (thr ?k t))" for t
      using that D(23,24) [of t] st by auto
  qed (use D(1) D(9) D(18-22) in auto)
qed

lemma chThdRelease_ok:
  assumes "sched_ok k"
  shows "sched_ok (chThdRelease tp k)" "keeps_timed k (chThdRelease tp k)" "currp (chThdRelease tp k) = currp k"
    "pend (chThdRelease tp k) = pend k"
proof -
  let ?f = "\<lambda>t. t\<lparr>p_refs := p_refs t - 1\<rparr>" and ?c = "currp k"
  let ?k = "set_thr tp ?f k"
  have "kcore {?c} k" using assms by (simp add: sched_ok_def run_ok_def)
  then have core: "kcore {?c} ?k" by (rule set_thr_irrelevant_core) simp_all
  have s: "sched_ok ?k" using assms core by (auto simp: sched_ok_def run_ok_def)
  have t: "keeps_timed k ?k" by (rule keeps_timed_cong) auto
  let ?k' = "?k\<lparr>registry := remove1 tp (registry ?k), heap_freed := tp # heap_freed ?k\<rparr>"
  have s': "sched_ok ?k'" if f: "p_state (thr ?k tp) = CH_STATE_FINAL"
  proof -
    have "kcore {?c} ?k'" by (rule remove_final_core [OF core f])
    moreover have "?c \<noteq> tp" using s f by (auto simp: sched_ok_def run_ok_def)
    ultimately show ?thesis using s kcoreD(19) [OF core] by (auto simp: sched_ok_def run_ok_def)
  qed
  have t': "keeps_timed ?k ?k'" if "p_state (thr ?k tp) = CH_STATE_FINAL"
    using that kcoreD(19) [OF core] by (auto simp: keeps_timed_def waits_on_def timed_state_def)
  show "sched_ok (chThdRelease tp k)" using s s' by (auto simp: chThdRelease_def Let_def)
  show "keeps_timed k (chThdRelease tp k)" using t keeps_timed_trans [OF t t'] by (auto simp: chThdRelease_def Let_def)
  show "currp (chThdRelease tp k) = currp k" "pend (chThdRelease tp k) = pend k" by (simp_all add: chThdRelease_def Let_def)
qed

lemma sched_ok_cong:
  assumes "thr k' = thr k" "queues k' = queues k" "registry k' = registry k" "s_cnt k' = s_cnt k" "tref k' = tref k" "currp k' = currp k"
  shows "sched_ok k' \<longleftrightarrow> sched_ok k"
  unfolding sched_ok_def run_ok_def kcore_cong [OF assms(1-5)] using assms by simp


lemma keeps_timed_return [simp]: "keeps_timed k (return v k)"
  by (rule keeps_timed_cong) simp_all

lemma sched_ok_return [simp]: "sched_ok (return v k) \<longleftrightarrow> sched_ok k"
  by (rule sched_ok_cong) simp_all

text \<open>Clearing what is left to do for the running thread, once its timer, if any, is off.\<close>

lemma timers_ok_clear:
  assumes ok: "timers_ok s" and s1: "s1 = vtimers.more_update (\<lambda>k. k\<lparr>pend := (pend k)(currp k := None)\<rparr>) s"
    and f: "pend (vtimers.more s) (currp (vtimers.more s)) = Some f"
    and s2: "s2 = (case timer_of f of None \<Rightarrow> s1 | Some vt \<Rightarrow> chVTResetI vt s1)"
  shows "timers_ok s2 \<and> vtimers.more s2 = vtimers.more s1"
proof -
  let ?k = "vtimers.more s" and ?c = "currp (vtimers.more s)"
  obtain ds where rep: "vt_rep s ds" "vt_live ds" using ok by (auto simp: timers_ok_def)
  have rep1: "vt_rep s1 ds" by (simp add: s1 rep)
  have w: "waits_on (vtimers.more s1) vt (vt_par s1 vt)" if "vt_func s1 vt = Some VT_wakeup" "vt_par s vt \<noteq> ?c" for vt
    using ok that by (simp add: timers_ok_def s1 waits_on_def)
  have c: "timer_of f = Some vt" if "vt_func s1 vt = Some VT_wakeup" "vt_par s vt = ?c" for vt
    using ok that f by (auto simp: timers_ok_def s1 waits_on_def)
  show ?thesis
  proof (cases "timer_of f")
    case (Some vt)
    note r = chVTResetI_refines [OF rep1, of vt]
    have e: "s2 = chVTResetI vt s1" using s2 Some by simp
    have "waits_on (vtimers.more s2) u (vt_par s2 u)" if "vt_func s2 u = Some VT_wakeup" for u
    proof -
      have u: "u \<noteq> vt" "vt_func s1 u = Some VT_wakeup" using that unfolding e r by (auto split: if_splits)
      then have "vt_par s u \<noteq> ?c" using c [OF u(2)] Some by auto
      then show ?thesis using w [OF u(2)] unfolding e r by simp
    qed
    then show ?thesis using r vt_live_reset [OF rep1 rep(2), of vt] unfolding timers_ok_def e by auto
  next
    case None
    then show ?thesis using w c rep1 rep(2) s2 by (auto simp: timers_ok_def)
  qed
qed

lemma set_thr_irrelevant_sched:
  assumes ok: "sched_ok k" and f: "\<And>t. p_state (f t) = p_state t" "\<And>t. p_u (f t) = p_u t" "\<And>t. p_prio (f t) = p_prio t"
    "\<And>t. p_waiting (f t) = p_waiting t" "tp = currp k \<or> (\<forall>t. p_epending (f t) = p_epending t)"
  shows "sched_ok (set_thr tp f k)" "keeps_timed k (set_thr tp f k)"
proof -
  have "kcore {currp k} (set_thr tp f k)"
    using ok f by (intro set_thr_irrelevant_core) (auto simp: sched_ok_def run_ok_def)
  then show "sched_ok (set_thr tp f k)" using ok f by (auto simp: sched_ok_def run_ok_def)
  show "keeps_timed k (set_thr tp f k)" by (rule keeps_timed_cong) (use f in auto)
qed

lemma evt_take_ok:
  assumes "sched_ok k"
  shows "sched_ok (evt_take md events k)" "keeps_timed k (evt_take md events k)" "currp (evt_take md events k) = currp k"
    "pend (evt_take md events k) = pend k"
proof -
  note I = set_thr_irrelevant_sched [OF assms, of "\<lambda>t. t\<lparr>p_epending := and (p_epending t) (not m)\<rparr>" "currp k" for m]
  show "sched_ok (evt_take md events k)" using I(1) by (simp add: evt_take_def Let_def)
  show "keeps_timed k (evt_take md events k)" using keeps_timed_trans [OF I(2) keeps_timed_return] by (simp add: evt_take_def Let_def)
qed (simp_all add: evt_take_def Let_def)

lemma evt_woken_ok:
  assumes "sched_ok k"
  shows "sched_ok (evt_woken md events k)" "keeps_timed k (evt_woken md events k)" "currp (evt_woken md events k) = currp k"
    "pend (evt_woken md events k) = pend k"
  using evt_take_ok [OF assms] assms by (simp_all add: evt_woken_def)

lemma resume_ok:
  assumes s: "sched_ok (vtimers.more s)" and t: "timers_ok s"
  shows "kinv (resume s)"
proof (cases "pend (vtimers.more s) (currp (vtimers.more s))")
  case None
  then show ?thesis using s t by (simp add: resume_def kinv_def)
next
  case (Some f)
  define s1 where "s1 = vtimers.more_update (\<lambda>k. k\<lparr>pend := (pend k)(currp k := None)\<rparr>) s"
  define s2 where "s2 = (case timer_of f of None \<Rightarrow> s1 | Some vt \<Rightarrow> chVTResetI vt s1)"
  have m2: "timers_ok s2 \<and> vtimers.more s2 = vtimers.more s1"
    by (rule timers_ok_clear [OF t s1_def Some s2_def])
  have sc: "sched_ok (vtimers.more s2)" "currp (vtimers.more s2) = currp (vtimers.more s)"
    "pend (vtimers.more s2) (currp (vtimers.more s)) = None"
    using m2 s by (auto simp: s1_def intro: sched_ok_cong [THEN iffD2])
  obtain g where g: "resume s = vtimers.more_update g s2" "sched_ok (g (vtimers.more s2))"
    "keeps_timed (vtimers.more s2) (g (vtimers.more s2))" "currp (g (vtimers.more s2)) = currp (vtimers.more s)"
    "pend (g (vtimers.more s2)) = pend (vtimers.more s2)"
  proof (cases f)
    case F_rdymsg
    then show ?thesis using sc m2
      by (intro that [of "\<lambda>k. return (p_u (thr k (currp k))) k"]) (simp_all add: resume_def Some s2_def s1_def)
  next
    case (F_timeout vt)
    then show ?thesis using sc m2
      by (intro that [of "\<lambda>k. return (p_u (thr k (currp k))) k"]) (simp_all add: resume_def Some s2_def s1_def chVTResetI_def)
  next
    case (F_value v)
    then show ?thesis using sc m2 by (intro that [of "return v"]) (simp_all add: resume_def Some s2_def s1_def)
  next
    case (F_timeout_value vt v)
    then show ?thesis using sc m2
      by (intro that [of "return v"]) (simp_all add: resume_def Some s2_def s1_def chVTResetI_def)
  next
    case (F_evt md events)
    then show ?thesis using sc m2 evt_take_ok [OF sc(1)]
      by (intro that [of "evt_take md events"]) (simp_all add: resume_def Some s2_def s1_def)
  next
    case (F_evt_msg md events)
    then show ?thesis using sc m2 evt_woken_ok [OF sc(1)]
      by (intro that [of "evt_woken md events"]) (simp_all add: resume_def Some s2_def s1_def)
  next
    case (F_evt_timeout vt md events)
    then show ?thesis using sc m2 evt_woken_ok [OF sc(1)]
      by (intro that [of "evt_woken md events"]) (simp_all add: resume_def Some s2_def s1_def chVTResetI_def)
  next
    case (F_exitcode tp)
    let ?k = "return (p_u (thr (vtimers.more s2) tp)) (vtimers.more s2)"
    have "sched_ok ?k" using sc by simp
    note r = chThdRelease_ok [OF this, of tp]
    show ?thesis using sc r F_exitcode keeps_timed_trans [OF keeps_timed_return r(2)]
      by (intro that [of "\<lambda>k. chThdRelease tp (return (p_u (thr k tp)) k)"]) (simp_all add: resume_def Some s2_def s1_def)
  qed
  show ?thesis unfolding kinv_def g(1) using g(2-5) sc m2 timers_ok_update [of s2 g] by simp
qed

lemma lift_resume_ok:
  assumes f: "f (vtimers.more s) = Some k'" and k': "sched_ok k'" "keeps_timed (vtimers.more s) k'" and t: "timers_ok s"
  shows "\<exists>s'. map_option resume (lift f s) = Some s' \<and> kinv s'"
  using resume_ok [of "vtimers.more_update (\<lambda>_. k') s"] timers_ok_update [OF t, of "\<lambda>_. k'"] f k' by (simp add: lift_def)


section \<open>Ticks\<close>

lemma call_all_kernel:
  assumes "run_ok k" "pend k (currp k) = None"
    "\<And>p. (VT_wakeup, p) \<in> set cs \<Longrightarrow> \<exists>vt. waits_on k vt p"
  obtains k' where "call_all kernel_call cs k = Some k'" "run_ok k'" "keeps_timed k k'" "currp k' = currp k"
    "pend k' = pend k" "registry k' = registry k"
  using assms
proof (induction cs arbitrary: k thesis)
  case Nil
  then show ?case by (auto simp: keeps_timed_def)
next
  case (Cons c cs)
  obtain f p where c: "c = (f, p)" by (cases c)
  show ?case
  proof (cases f)
    case VT_wakeup
    then obtain vt where w: "waits_on k vt p" using Cons.prems(4) [of p] c by auto
    then have "p \<noteq> currp k" using Cons.prems(3) by (auto simp: waits_on_def)
    with w obtain k1 where k1: "wakeup p k = Some k1" "run_ok k1" "keeps_timed k k1" "currp k1 = currp k" "registry k1 = registry k"
      "pend k1 = pend k"
      by (rule wakeup_ok [OF Cons.prems(2)]) blast
    obtain k' where "call_all kernel_call cs k1 = Some k'" "run_ok k'" "keeps_timed k1 k'" "currp k' = currp k1" "pend k' = pend k1"
      "registry k' = registry k1"
    proof (rule Cons.IH [OF _ k1(2)])
      show "pend k1 (currp k1) = None" using Cons.prems(3) k1 by simp
      show "\<exists>vt. waits_on k1 vt q" if "(VT_wakeup, q) \<in> set cs" for q
        using Cons.prems(4) [of q] that k1(3) by (auto simp: keeps_timed_def)
    qed
    then show ?thesis using Cons.prems(1) [of k'] k1 keeps_timed_trans [OF k1(3)] by (simp add: c VT_wakeup)
  next
    case VT_post
    then show ?thesis using Cons.IH [OF Cons.prems(1-3)] Cons.prems(4) by (auto simp: c)
  qed
qed

lemma use_quantum_simps [simp]:
  "currp (use_quantum k) = currp k" "queues (use_quantum k) = queues k" "registry (use_quantum k) = registry k"
  "pend (use_quantum k) = pend k" "p_state (thr (use_quantum k) t) = p_state (thr k t)"
  "p_prio (thr (use_quantum k) t) = p_prio (thr k t)" "p_u (thr (use_quantum k) t) = p_u (thr k t)"
  by (simp_all add: use_quantum_def)

lemma use_quantum_ok: "run_ok k \<Longrightarrow> run_ok (use_quantum k)" "keeps_timed k (use_quantum k)"
  unfolding run_ok_def
  by (auto simp: use_quantum_def intro!: set_thr_irrelevant_core keeps_timed_cong)

lemma fired_calls_wait:
  assumes t: "timers_ok s" and rep: "vt_rep s ds" and c: "(VT_wakeup, p) \<in> set (calls s (fired 1 ds))"
  shows "\<exists>vt. waits_on (vtimers.more s) vt p"
proof -
  have "vt_func s v \<noteq> None" if "v \<in> set (fired 1 ds)" for v
  proof -
    have "v \<in> set (map fst (remaining 0 ds))" using that by (force simp: fired_def simp del: remaining_fst)
    then show ?thesis using rep unfolding remaining_fst by (simp add: vt_rep_def)
  qed
  then show ?thesis using c t by (fastforce simp: calls_def timers_ok_def)
qed

lemma chSysTimerHandlerI_ok:
  assumes k: "run_ok (vtimers.more s)" "pend (vtimers.more s) (currp (vtimers.more s)) = None" and t: "timers_ok s"
  obtains s' where "chSysTimerHandlerI s = Some s'" "run_ok (vtimers.more s')" "timers_ok s'"
    "currp (vtimers.more s') = currp (vtimers.more s)" "pend (vtimers.more s') = pend (vtimers.more s)"
    "vt_systime s' = vt_systime s + 1"
proof -
  define s0 where "s0 = vtimers.more_update use_quantum s"
  have k0: "run_ok (vtimers.more s0)" "pend (vtimers.more s0) (currp (vtimers.more s0)) = None"
    using k use_quantum_ok by (auto simp: s0_def)
  have t0: "timers_ok s0" unfolding s0_def by (intro timers_ok_update t use_quantum_ok)
  then obtain ds where rep: "vt_rep s0 ds" "vt_live ds" by (auto simp: timers_ok_def)
  let ?F = "fired 1 ds"
  have "\<exists>vt. waits_on (vtimers.more s0) vt p" if "(VT_wakeup, p) \<in> set (calls s0 ?F)" for p
    by (rule fired_calls_wait [OF t0 rep(1) that])
  then obtain k' where k': "call_all kernel_call (calls s0 ?F) (vtimers.more s0) = Some k'" "run_ok k'"
    "keeps_timed (vtimers.more s0) k'" "currp k' = currp (vtimers.more s0)" "pend k' = pend (vtimers.more s0)"
    using call_all_kernel [OF k0] by metis
  obtain s' ds' where s': "chVTDoTickI (quiet kernel_call) s0 = Some s'"
    and x: "expired (s0\<lparr>vt_systime := vt_systime s0 + 1\<rparr>) ?F ds' k' s'"
    and r: "remaining 0 ds' = map (\<lambda>(t, r). (t, r - 1)) (filter (\<lambda>(_, r). 1 < r) (remaining 0 ds))"
    using chVTDoTickI_eq [OF rep, of kernel_call] k'(1) by auto
  have m: "vtimers.more s' = k'" "vt_par s' = vt_par s0" "vt_systime s' = vt_systime s0 + 1" "vt_rep s' ds'"
    using x by (auto simp: expired_def)
  have "vt_func s0 v = Some VT_wakeup" if "vt_func s' v = Some VT_wakeup" for v
    using x that by (auto simp: expired_def split: if_splits)
  then have "waits_on k' v (vt_par s' v)" if "vt_func s' v = Some VT_wakeup" for v
    using t0 k'(3) that by (auto simp: timers_ok_def keeps_timed_def m)
  moreover have "vt_live ds'" using rep(2) unfolding vt_live_def r by auto
  ultimately have "timers_ok s'" using m by (auto simp: timers_ok_def)
  then show ?thesis using s' k' m by (intro that [of s']) (simp_all add: chSysTimerHandlerI_def s0_def)
qed

lemma systick_ok:
  assumes "kinv s"
  shows "\<exists>s'. systick s = Some s' \<and> kinv s'"
proof -
  obtain s1 where s1: "chSysTimerHandlerI s = Some s1" "run_ok (vtimers.more s1)" "timers_ok s1"
    by (rule chSysTimerHandlerI_ok [of s]) (use assms in \<open>auto simp: kinv_def sched_ok_def\<close>)
  obtain k' where k': "port_irq_epilogue (vtimers.more s1) = Some k'" "switched (vtimers.more s1) k'"
    using port_irq_epilogue_ok [OF s1(2)] by blast
  have "kinv (resume (vtimers.more_update (\<lambda>_. k') s1))"
    by (rule resume_ok) (use k' timers_ok_update [OF s1(3), of "\<lambda>_. k'"] in \<open>simp_all add: switched_def\<close>)
  then show ?thesis using s1(1) k'(1) by (simp add: systick_def lift_def)
qed

end
