(* ===== verification/Kernel_Calls.thy ===== *)
theory Kernel_Calls
  imports Kernel_Invariant
begin

text \<open>
  The calls of the threads: every call of \<^verbatim>\<open>chthreads.c\<close> and \<^verbatim>\<open>chsem.c\<close> by the running thread, the tick, and the calls from
  interrupts keep the invariant of the kernel, and return whenever another thread is ready.
\<close>

section \<open>Blocking\<close>

text \<open>\<open>k\<close> is the kernel with the running thread already put where it waits.\<close>

definition blocked :: "tstate \<Rightarrow> kernel \<Rightarrow> bool" where
  "blocked st k \<longleftrightarrow> kcore {} (set_p_state (currp k) st k)"

lemma go_sleep_blocked:
  assumes b: "blocked st k" and ne: "queues k RList \<noteq> []" and t: "keeps_timed k0 (set_p_state (currp k) st k)"
  shows "\<exists>k'. chSchGoSleepS st k = Some k' \<and> sched_ok k' \<and> keeps_timed k0 k' \<and> keeps_timed (set_p_state (currp k) st k) k'"
proof -
  let ?k = "set_p_state (currp k) st k"
  let ?k' = "set_thr (currp k) (\<lambda>t. t\<lparr>p_preempt := CH_CFG_TIME_QUANTUM\<rparr>) ?k"
  have "kcore {} ?k'" using b unfolding blocked_def by (rule set_thr_irrelevant_core) simp_all
  then obtain k' where k': "chSchGoSleepS st k = Some k'" "sched_ok k'" "keeps_timed ?k' k'"
    by (rule go_sleep_ok [OF _ ne]) blast
  have "keeps_timed ?k ?k'" by (rule keeps_timed_cong) auto
  then show ?thesis using k' t keeps_timed_trans by blast
qed

lemma go_sleep_empty: "queues k RList = [] \<Longrightarrow> chSchGoSleepS st k = None"
  by (simp add: chSchGoSleepS_def pick_first_def Let_def)

text \<open>A call that sleeps without a timer.\<close>

lemma sleep_ok:
  assumes inv: "kinv s" and ne: "queues (vtimers.more s) RList \<noteq> []"
    and g: "\<And>k. currp (g k) = currp k" "\<And>k. pend (g k) = pend k" "\<And>k. registry (g k) = registry k"
      "\<And>k. queues (g k) RList = queues k RList" "\<And>k t. t \<noteq> currp k \<Longrightarrow> p_state (thr (g k) t) = p_state (thr k t)"
    and b: "blocked st (g (vtimers.more s))"
  shows "\<exists>s'. map_option resume (lift (\<lambda>k. chSchGoSleepS st (set_pend f (g k))) s) = Some s' \<and> kinv s'"
proof -
  let ?k = "vtimers.more s"
  let ?k1 = "set_pend f (g ?k)"
  have "blocked st ?k1" using b unfolding blocked_def by (subst kcore_cong [of _ "set_p_state (currp (g ?k)) st (g ?k)"]) simp_all
  moreover have "queues ?k1 RList \<noteq> []" using ne g(4) by simp
  moreover have "keeps_timed ?k (set_p_state (currp ?k1) st ?k1)"
    using inv g by (auto simp: keeps_timed_def waits_on_def kinv_def)
  ultimately obtain k' where "chSchGoSleepS st ?k1 = Some k'" "sched_ok k'" "keeps_timed ?k k'"
    using go_sleep_blocked by blast
  then show ?thesis using inv by (intro lift_resume_ok [of _ s k']) (simp_all add: kinv_def)
qed

text \<open>A call that sleeps with the timer \<open>vt\<close>.\<close>

lemma sleep_timeout_ok:
  assumes inv: "kinv s" and ne: "queues (vtimers.more s) RList \<noteq> []"
    and g: "\<And>k. currp (g k) = currp k" "\<And>k. pend (g k) = pend k" "\<And>k. registry (g k) = registry k"
      "\<And>k. queues (g k) RList = queues k RList" "\<And>k t. t \<noteq> currp k \<Longrightarrow> p_state (thr (g k) t) = p_state (thr k t)"
    and b: "blocked st (g (vtimers.more s))" and st: "timed_state st"
    and vt: "vt \<noteq> vtlist s" "\<not> chVTIsArmedI vt s" and time: "time \<noteq> 0"
    and fr: "timer_of fr = Some vt"
  obtains s1 where "go_sleep_timeout fr fi vt st time (vtimers.more_update g s) = Some s1" "sched_ok (vtimers.more s1)" "timers_ok s1"
    "time \<noteq> TIME_INFINITE \<Longrightarrow> vt_func s1 vt = Some VT_wakeup \<and> vt_par s1 vt = currp (vtimers.more s)"
    "\<And>u. u \<noteq> vt \<Longrightarrow> vt_func s1 u = vt_func s u \<and> vt_par s1 u = vt_par s u"
proof (cases "time = TIME_INFINITE")
  case True
  let ?k = "vtimers.more s"
  let ?k1 = "set_pend fi (g ?k)"
  have "blocked st ?k1" using b unfolding blocked_def by (subst kcore_cong [of _ "set_p_state (currp (g ?k)) st (g ?k)"]) simp_all
  moreover have "queues ?k1 RList \<noteq> []" using ne g(4) by simp
  moreover have "keeps_timed ?k (set_p_state (currp ?k1) st ?k1)"
    using inv g by (auto simp: keeps_timed_def waits_on_def kinv_def)
  ultimately obtain k' where k': "chSchGoSleepS st ?k1 = Some k'" "sched_ok k'" "keeps_timed ?k k'"
    using go_sleep_blocked by blast
  have "timers_ok (vtimers.more_update (\<lambda>_. k') s)" using inv k'(3) by (intro timers_ok_update) (auto simp: kinv_def)
  moreover have "vtimers.more_update (\<lambda>_. k') (vtimers.more_update g s) = vtimers.more_update (\<lambda>_. k') s" by simp
  ultimately show ?thesis using k' True
    by (intro that [of "vtimers.more_update (\<lambda>_. k') s"]) (auto simp: go_sleep_timeout_def lift_def)
next
  case False
  let ?k = "vtimers.more s" and ?s = "vtimers.more_update g s"
  let ?c = "currp ?k"
  obtain ds where rep: "vt_rep s ds" "vt_live ds" using inv by (auto simp: kinv_def timers_ok_def)
  have "vt_rep ?s ds" "vt \<noteq> vtlist ?s" using rep vt by simp_all
  moreover have "vt \<notin> fst ` set ds" using rep(1) vt(2) by (auto simp: vt_rep_def chVTIsArmedI_def)
  ultimately obtain s1 where s1: "chVTDoSetI vt time VT_wakeup ?c ?s = Some s1" "vt_rep s1 (vt_insert vt time ds)"
    "vt_func s1 = (vt_func ?s)(vt := Some VT_wakeup)" "vt_par s1 = (vt_par ?s)(vt := ?c)" "vtlist s1 = vtlist ?s"
    "vt_systime s1 = vt_systime ?s" "vtimers.more s1 = vtimers.more ?s"
    by (rule chVTDoSetI_refines)
  have live: "vt_live (vt_insert vt time ds)"
    using rep(2) time by (rule vt_live_set [of ds time _ vt "\<lambda>_. True"]) (simp add: remaining_insert insert_deadline_def)
  let ?k1 = "set_pend fr (g ?k)"
  have "blocked st ?k1" using b unfolding blocked_def by (subst kcore_cong [of _ "set_p_state (currp (g ?k)) st (g ?k)"]) simp_all
  moreover have "queues ?k1 RList \<noteq> []" using ne g(4) by simp
  moreover have "keeps_timed ?k (set_p_state (currp ?k1) st ?k1)"
    using inv g by (auto simp: keeps_timed_def waits_on_def kinv_def)
  ultimately obtain k' where k': "chSchGoSleepS st ?k1 = Some k'" "sched_ok k'" "keeps_timed ?k k'"
    "keeps_timed (set_p_state (currp ?k1) st ?k1) k'"
    using go_sleep_blocked by blast
  have c: "?c \<in> set (registry ?k)" using inv by (simp add: kinv_def sched_ok_def run_ok_def)
  have "waits_on (set_p_state (currp ?k1) st ?k1) vt ?c" using c st g fr by (auto simp: waits_on_def)
  then have "waits_on k' vt ?c" using k'(4) by (simp add: keeps_timed_def)
  moreover have "waits_on k' u (vt_par s u)" if "vt_func s u = Some VT_wakeup" for u
    using inv k'(3) that by (auto simp: kinv_def timers_ok_def keeps_timed_def)
  ultimately have "timers_ok (vtimers.more_update (\<lambda>_. k') s1)"
    using s1 live by (auto simp: timers_ok_def)
  then show ?thesis using k' s1 False g(1)
    by (intro that [of "vtimers.more_update (\<lambda>_. k') s1"]) (auto simp: go_sleep_timeout_def lift_def)
qed


section \<open>Where a thread waits\<close>

lemma set_thr_twice [simp]: "set_thr t f (set_thr t g k) = set_thr t (\<lambda>x. f (g x)) k"
  by (simp add: set_thr_def)

lemma run_okD:
  assumes "run_ok k"
  shows "kcore {currp k} k" "currp k \<in> set (registry k)" "p_state (thr k (currp k)) = CH_STATE_CURRENT" "prio k (currp k) \<noteq> 0"
  using assms run_ok_prio by (auto simp: run_ok_def)

lemma kinvD:
  assumes "kinv s"
  shows "run_ok (vtimers.more s)" "sched_ok (vtimers.more s)" "timers_ok s" "pend (vtimers.more s) (currp (vtimers.more s)) = None"
  using assms by (auto simp: kinv_def sched_ok_def)

lemma blocked_state:
  assumes run: "run_ok k" and st: "\<not> in_queue_state st" "st \<noteq> CH_STATE_CURRENT" "st \<noteq> CH_STATE_SUSPENDED"
    and ev: "evt_state st \<Longrightarrow> \<not> evt_awaited ((thr k (currp k))\<lparr>p_state := st\<rparr>)"
  shows "blocked st k"
proof -
  note R = run_okD [OF run]
  have "kcore {currp k} (set_p_state (currp k) st k)" by (rule set_thr_core [OF R(1)]) (use R in auto)
  then have "kcore ({currp k} - {currp k}) (set_p_state (currp k) st k)" by (rule release_state_core) (use st ev R in auto)
  then show ?thesis by (simp add: blocked_def)
qed

lemma blocked_suspended:
  assumes run: "run_ok k" and free: "tref k trp = 0"
  shows "blocked CH_STATE_SUSPENDED (set_p_u (currp k) trp (set_tref trp (currp k) k))"
proof -
  note R = run_okD [OF run]
  let ?c = "currp k"
  let ?k = "set_thr ?c (\<lambda>t. t\<lparr>p_u := trp, p_state := CH_STATE_SUSPENDED\<rparr>) k"
  have "kcore {?c} ?k" by (rule set_thr_core [OF R(1)]) (use R in auto)
  then have "kcore ({?c} - {?c}) (set_tref trp ?c ?k)" by (rule release_tref_core) (use R free in auto)
  moreover have "set_p_state ?c CH_STATE_SUSPENDED (set_p_u ?c trp (set_tref trp ?c k)) = set_tref trp ?c ?k"
    by (simp add: set_thr_def set_tref_def)
  ultimately show ?thesis by (simp add: blocked_def)
qed

lemma blocked_queue:
  assumes run: "run_ok k"
  shows "blocked CH_STATE_QUEUED (set_queue (TQueue a) (queues k (TQueue a) @ [currp k]) k)"
proof -
  note R = run_okD [OF run]
  let ?c = "currp k"
  let ?k = "set_p_state ?c CH_STATE_QUEUED k"
  let ?k' = "set_p_state ?c CH_STATE_QUEUED (set_queue (TQueue a) (queues k (TQueue a) @ [?c]) k)"
  have "kcore {?c} ?k" by (rule set_thr_core [OF R(1)]) (use R in auto)
  then have "kcore ({?c} - {?c}) ?k'"
    by (rule release_queue_core [where q = "TQueue a"]) (use R kcoreD(8) [OF R(1)] in \<open>auto simp: sems_ok_def\<close>)
  then show ?thesis by (simp add: blocked_def)
qed

lemma blocked_sem:
  assumes run: "run_ok k" and n: "s_cnt k sp - 1 < 0"
  shows "blocked CH_STATE_WTSEM (sem_enqueue sp (set_s_cnt sp (s_cnt k sp - 1) k))"
proof -
  note R = run_okD [OF run]
  let ?c = "currp k"
  let ?k = "set_thr ?c (\<lambda>t. t\<lparr>p_u := sp, p_state := CH_STATE_WTSEM\<rparr>) k"
  let ?k' = "set_p_state ?c CH_STATE_WTSEM (sem_enqueue sp (set_s_cnt sp (s_cnt k sp - 1) k))"
  have "kcore {?c} ?k" by (rule set_thr_core [OF R(1)]) (use R in auto)
  moreover have "sems_ok ?k'"
    unfolding sems_ok_def
  proof
    fix sp'
    have "if queues k (Sem sp') = [] then 0 \<le> s_cnt k sp' else s_cnt k sp' = - int (length (queues k (Sem sp')))"
      using kcoreD(8) [OF R(1)] by (simp add: sems_ok_def)
    then show "if queues ?k' (Sem sp') = [] then 0 \<le> s_cnt ?k' sp' else s_cnt ?k' sp' = - int (length (queues ?k' (Sem sp')))"
      using n by (cases "sp' = sp") (auto simp: sem_enqueue_def split: if_splits)
  qed
  ultimately have "kcore ({?c} - {?c}) ?k'"
    by - (rule release_queue_core [where q = "Sem sp" and k = ?k], use R in \<open>simp_all add: sem_enqueue_def\<close>)
  then show ?thesis by (simp add: blocked_def sem_enqueue_def)
qed

lemma blocked_wait:
  assumes run: "run_ok k" and tp: "tp \<noteq> currp k"
  shows "blocked CH_STATE_WTEXIT (set_thr tp (\<lambda>t. t\<lparr>p_waiting := currp k # p_waiting t\<rparr>) k)"
proof -
  note R = run_okD [OF run]
  let ?c = "currp k"
  let ?kw = "set_p_state ?c CH_STATE_WTEXIT k"
  let ?k = "set_p_state ?c CH_STATE_WTEXIT (set_thr tp (\<lambda>t. t\<lparr>p_waiting := ?c # p_waiting t\<rparr>) k)"
  have "kcore {?c} ?kw" by (rule set_thr_core [OF R(1)]) (use R in auto)
  note D = kcoreD [OF this]
  have nw: "?c \<notin> set (p_waiting (thr k t))" for t using kcoreD(11) [OF R(1)] by blast
  have e: "p_state (thr ?k t) = p_state (thr ?kw t)" "p_u (thr ?k t) = p_u (thr ?kw t)" "prio ?k t = prio ?kw t" for t
    using tp by simp_all
  have w: "p_waiting (thr ?k t) = (if t = tp then ?c # p_waiting (thr ?kw t) else p_waiting (thr ?kw t))" for t using tp by simp
  have o: "ok_queue (thr ?k t) q = ok_queue (thr ?kw t) q" for t q by (cases q) (simp_all only: ok_queue.simps e)
  have f: "queues ?k = queues ?kw" "registry ?k = registry ?kw" "tref ?k = tref ?kw" "s_cnt ?k = s_cnt ?kw" by simp_all
  have "kcore {} ?k"
  proof (rule kcoreI, unfold e o f)
    show "t1 = t2" if "u \<in> set (p_waiting (thr ?k t1))" "u \<in> set (p_waiting (thr ?k t2))" for t1 t2 u
      using that D(10) [of u t1 t2] nw unfolding w by (auto split: if_splits)
    show "distinct (p_waiting (thr ?k t))" for t using D(9) [of t] nw unfolding w by auto
    show "u \<notin> {} \<and> u \<in> set (registry ?kw) \<and> p_state (thr ?kw u) = CH_STATE_WTEXIT" if "u \<in> set (p_waiting (thr ?k t))" for t u
      using that D(12,13) [of u t] R unfolding w by (auto split: if_splits)
    show "ready_sorted ?k" using D(7) unfolding ready_sorted_def e f .
    show "sems_ok ?k" using D(8) by (subst sems_ok_cong [of _ ?kw]) simp_all
    show "q = q'" if "t \<in> set (queues ?kw q)" "t \<in> set (queues ?kw q')" for q q' t by (rule D(2) [OF that])
    show "\<exists>q. t \<in> set (queues ?kw q)" if "t \<in> set (registry ?kw)" "t \<notin> {}" "in_queue_state (p_state (thr ?kw t))" for t
      using that D(6) [of t] by (cases "t = ?c") (auto simp: in_queue_state_def)
    show "tref ?kw (p_u (thr ?kw t)) = t" if "t \<in> set (registry ?kw)" "t \<notin> {}" "p_state (thr ?kw t) = CH_STATE_SUSPENDED" for t
      using that D(18) [of t] by (cases "t = ?c") auto
    show "p_state (thr ?kw t) \<noteq> CH_STATE_CURRENT" if "t \<in> set (registry ?kw)" "t \<notin> {}" for t
      using that D(22) [of t] by (cases "t = ?c") auto
    have a: "evt_awaited (thr ?k t) = evt_awaited (thr ?kw t)" for t by (rule evt_awaited_cong) (simp_all add: e)
    show "t \<in> set (registry ?kw) \<and> \<not> evt_awaited (thr ?k t)" if "t \<notin> {}" "evt_state (p_state (thr ?kw t))" for t
      using that D(23,24) [of t] unfolding a by (cases "t = ?c") auto
  qed (use D(1) D(4,5) D(15-17) D(19-21) in auto)
  then show ?thesis by (simp add: blocked_def)
qed


section \<open>Waking waiting threads\<close>

text \<open>An operation by the running thread or an interrupt that leaves the running thread running.\<close>

definition stays :: "kernel \<Rightarrow> kernel \<Rightarrow> bool" where
  "stays k k' \<longleftrightarrow> run_ok k' \<and> keeps_timed k k' \<and> currp k' = currp k \<and> pend k' = pend k \<and> registry k' = registry k"

lemma stays_refl: "run_ok k \<Longrightarrow> stays k k"
  by (simp add: stays_def keeps_timed_def)

lemma stays_trans: "stays k k1 \<Longrightarrow> stays k1 k2 \<Longrightarrow> stays k k2"
  by (auto simp: stays_def intro: keeps_timed_trans)

lemma set_p_u_make_ready: "set_p_u tp v (make_ready ge tp k) = make_ready ge tp (set_p_u tp v k)"
proof (rule kernel.equality)
  have "prio (set_p_u tp v k) = prio k" by (auto simp: fun_eq_iff)
  then show "queues (set_p_u tp v (make_ready ge tp k)) = queues (make_ready ge tp (set_p_u tp v k))"
    by (simp add: fun_eq_iff)
  show "thr (set_p_u tp v (make_ready ge tp k)) = thr (make_ready ge tp (set_p_u tp v k))"
    by (auto simp: fun_eq_iff make_ready_def intro: thread.equality)
qed (simp_all add: make_ready_def set_thr_def set_queue_def)

text \<open>A thread that has been taken in hand, with its new message, is made ready.\<close>

lemma ready_in_hand:
  assumes run: "run_ok k" and core: "kcore {tp, currp k} k1" and t: "tp \<in> set (registry k)" "tp \<noteq> currp k"
    and f: "thr k1 = thr k" "registry k1 = registry k" "currp k1 = currp k" "pend k1 = pend k"
  shows "chSchReadyI tp (set_p_u tp msg k1) = Some (make_ready True tp (set_p_u tp msg k1))"
    and "stays k (make_ready True tp (set_p_u tp msg k1))"
proof -
  note R = run_okD [OF run]
  have p: "prio k tp \<noteq> 0" using kcoreD(21) [OF R(1) t(1)] .
  then show "chSchReadyI tp (set_p_u tp msg k1) = Some (make_ready True tp (set_p_u tp msg k1))"
    by (simp add: run_ok_ready f)
  have "kcore {tp, currp k} (set_p_u tp msg k1)" by (rule set_thr_core [OF core]) (use p f in auto)
  then have "kcore ({tp, currp k} - {tp}) (make_ready True tp (set_p_u tp msg k1))" by (rule make_ready_core) (use t f in auto)
  moreover have "{tp, currp k} - {tp} = {currp k}" using t by auto
  ultimately have "run_ok (make_ready True tp (set_p_u tp msg k1))" using R t by (simp add: run_ok_def f)
  moreover have "keeps_timed k (make_ready True tp (set_p_u tp msg k1))"
    by (rule keeps_timed_trans [OF keeps_timed_cong keeps_timed_make_ready]) (auto simp: f)
  ultimately show "stays k (make_ready True tp (set_p_u tp msg k1))" by (simp add: stays_def f)
qed

lemma queue_take:
  assumes core: "kcore X k" and q: "queues k q = us @ t # vs"
  shows "(queues k)(q := us @ vs) = (\<lambda>q. remove1 t (queues k q))"
proof
  fix q'
  have d: "distinct (us @ t # vs)" using kcoreD(1) [OF core, of q] q by simp
  show "((queues k)(q := us @ vs)) q' = remove1 t (queues k q')"
  proof (cases "q' = q")
    case True
    then show ?thesis using q d by (simp add: remove1_append)
  next
    case False
    then have "t \<notin> set (queues k q')" using kcoreD(2) [OF core, of t q q'] q by auto
    then show ?thesis using False by (simp add: remove1_idem)
  qed
qed

text \<open>A thread taken out of the queue of a semaphore, with the counter going up.\<close>

lemma sem_take:
  assumes run: "run_ok k" and q: "queues k (Sem sp) = us @ t # vs"
  shows "kcore {t, currp k} (set_queue (Sem sp) (us @ vs) (set_s_cnt sp (s_cnt k sp + 1) k))"
    and "t \<in> set (registry k)" "t \<noteq> currp k" "p_state (thr k t) = CH_STATE_WTSEM"
proof -
  note R = run_okD [OF run]
  have t: "t \<in> set (queues k (Sem sp))" using q by simp
  show reg: "t \<in> set (registry k)" and c: "t \<noteq> currp k" using kcoreD(3,4) [OF R(1) t] by auto
  have o: "p_state (thr k t) = CH_STATE_WTSEM" "p_u (thr k t) = sp" using kcoreD(5) [OF R(1) t] by auto
  then show "p_state (thr k t) = CH_STATE_WTSEM" by simp
  show "kcore {t, currp k} (set_queue (Sem sp) (us @ vs) (set_s_cnt sp (s_cnt k sp + 1) k))"
    by (rule grab_by_state [OF R(1) reg]) (use c o queue_take [OF R(1) q] in auto)
qed

lemma sem_nonempty: "kcore X k \<Longrightarrow> s_cnt k sp < 0 \<Longrightarrow> queues k (Sem sp) \<noteq> []"
  using kcoreD(8) unfolding sems_ok_def by (metis not_le)

lemma sem_count_up:
  assumes run: "run_ok k" and n: "s_cnt k sp \<ge> 0" "0 \<le> m"
  shows "stays k (set_s_cnt sp m k)"
proof -
  note R = run_okD [OF run]
  have e: "queues k (Sem sp) = []"
  proof (rule ccontr)
    assume ne: "queues k (Sem sp) \<noteq> []"
    have "if queues k (Sem sp) = [] then 0 \<le> s_cnt k sp else s_cnt k sp = - int (length (queues k (Sem sp)))"
      using kcoreD(8) [OF R(1)] by (simp add: sems_ok_def)
    then show False using n ne by simp
  qed
  have "sems_ok (set_s_cnt sp m k)" using kcoreD(8) [OF R(1)] e n by (auto simp: sems_ok_def)
  then have "kcore {currp k} (set_s_cnt sp m k)" using R(1) e n
    unfolding kcore_def queues_ok_def waiting_ok_def registry_ok_def events_ok_def ready_sorted_def by simp
  then show ?thesis using R by (auto simp: stays_def run_ok_def intro: keeps_timed_cong)
qed

lemma SemSignalI_ok:
  assumes run: "run_ok k"
  obtains k' where "chSemSignalI sp k = Some k'" "stays k k'"
proof (cases "s_cnt k sp < 0")
  case True
  then obtain t vs where q: "queues k (Sem sp) = t # vs"
    using sem_nonempty [OF run_okD(1) [OF run]] by (cases "queues k (Sem sp)") auto
  note T = sem_take [OF run, of sp "[]" t vs, simplified, OF q]
  let ?k1 = "set_queue (Sem sp) vs (set_s_cnt sp (s_cnt k sp + 1) k)"
  note W = ready_in_hand [OF run T(1-3), of MSG_OK]
  have "chSchReadyI t (set_p_u t MSG_OK ?k1) = Some (make_ready True t (set_p_u t MSG_OK ?k1))"
    by (rule W) (simp_all add: T timed_state_def)
  moreover have "stays k (make_ready True t (set_p_u t MSG_OK ?k1))" by (rule W) (simp_all add: T timed_state_def)
  ultimately show ?thesis using True q by (intro that) (simp_all add: chSemSignalI_def sem_fifo_remove_def Let_def)
next
  case False
  then show ?thesis using sem_count_up [OF run, of sp "s_cnt k sp + 1"]
    by (intro that [of "set_s_cnt sp (s_cnt k sp + 1) k"]) (simp_all add: chSemSignalI_def Let_def)
qed


lemma tref_take:
  assumes run: "run_ok k" and t: "tref k trp \<noteq> 0"
  shows "kcore {tref k trp, currp k} (set_tref trp 0 k)"
    and "tref k trp \<in> set (registry k)" "tref k trp \<noteq> currp k" "p_state (thr k (tref k trp)) = CH_STATE_SUSPENDED"
proof -
  note R = run_okD [OF run]
  note D = kcoreD(14-17) [OF R(1) t]
  show reg: "tref k trp \<in> set (registry k)" "tref k trp \<noteq> currp k" "p_state (thr k (tref k trp)) = CH_STATE_SUSPENDED"
    using D by auto
  have "queues k = (\<lambda>q. remove1 (tref k trp) (queues k q))"
    by (rule remove1_not_queued [OF R(1)]) (use D in \<open>simp add: in_queue_state_def\<close>)
  then show "kcore {tref k trp, currp k} (set_tref trp 0 k)"
    by (intro grab_by_state [OF R(1) reg(1)]) (use D in auto)
qed

lemma ResumeI_ok:
  assumes run: "run_ok k"
  obtains k' where "chThdResumeI trp msg k = Some k'" "stays k k'"
proof (cases "tref k trp = 0")
  case True
  then show ?thesis using stays_refl [OF run] by (intro that [of k]) (simp_all add: chThdResumeI_def)
next
  case False
  note T = tref_take [OF run False]
  note W = ready_in_hand [OF run T(1-3), of msg]
  show ?thesis
    by (rule that [of "make_ready True (tref k trp) (set_p_u (tref k trp) msg (set_tref trp 0 k))"])
      (use W T False in \<open>simp_all add: chThdResumeI_def timed_state_def Let_def\<close>)
qed

lemma DoDequeueNextI_ok:
  assumes run: "run_ok k" and q: "queues k (TQueue a) = t # vs"
  obtains k' where "chThdDoDequeueNextI a msg k = Some k'" "stays k k'" "queues k' (TQueue a) = vs"
proof -
  note R = run_okD [OF run]
  have t: "t \<in> set (queues k (TQueue a))" using q by simp
  have reg: "t \<in> set (registry k)" and c: "t \<noteq> currp k" using kcoreD(3,4) [OF R(1) t] by auto
  have o: "p_state (thr k t) = CH_STATE_QUEUED" using kcoreD(5) [OF R(1) t] by auto
  let ?k1 = "set_queue (TQueue a) vs k"
  have "kcore {t, currp k} ?k1"
    by (rule grab_by_state [OF R(1) reg]) (use c o queue_take [OF R(1), of "TQueue a" "[]" t vs] q in auto)
  note W = ready_in_hand [OF run this reg c, of msg]
  show ?thesis
    by (rule that [of "make_ready True t (set_p_u t msg ?k1)"])
      (use W o q in \<open>simp_all add: chThdDoDequeueNextI_def timed_state_def\<close>)
qed

lemma DequeueNextI_ok:
  assumes run: "run_ok k"
  obtains k' where "chThdDequeueNextI a msg k = Some k'" "stays k k'"
proof (cases "queues k (TQueue a)")
  case Nil
  then show ?thesis using stays_refl [OF run] by (intro that [of k]) (simp_all add: chThdDequeueNextI_def)
next
  case (Cons t vs)
  then obtain k' where "chThdDoDequeueNextI a msg k = Some k'" "stays k k'" by (rule DoDequeueNextI_ok [OF run]) blast
  then show ?thesis using Cons by (intro that [of k']) (simp_all add: chThdDequeueNextI_def)
qed

lemma DequeueAllI_ok:
  assumes "run_ok k"
  shows "\<exists>k'. chThdDequeueAllI a msg k = Some k' \<and> stays k k' \<and> queues k' (TQueue a) = []"
  using assms
proof (induction "queues k (TQueue a)" arbitrary: k)
  case Nil
  then show ?case using stays_refl [OF Nil(2)] by (subst chThdDequeueAllI.simps) simp
next
  case (Cons t vs)
  obtain k1 where k1: "chThdDoDequeueNextI a msg k = Some k1" "stays k k1" "queues k1 (TQueue a) = vs"
    using DoDequeueNextI_ok [OF Cons.prems Cons.hyps(2) [symmetric]] by blast
  then have "run_ok k1" by (simp add: stays_def)
  with Cons.hyps(1) [OF k1(3) [symmetric]] obtain k' where "chThdDequeueAllI a msg k1 = Some k'" "stays k1 k'" "queues k' (TQueue a) = []"
    by blast
  then show ?case using k1 Cons.hyps(2) by (subst chThdDequeueAllI.simps) (auto intro: stays_trans)
qed

text \<open>One unit added to a semaphore: the first waiting thread, if any, is made ready before its message is set.\<close>

lemma sem_add_one_ok:
  assumes run: "run_ok k"
  obtains k' where "sem_add_one sp k = Some k'" "stays k k'"
proof -
  obtain k' where k': "chSemSignalI sp k = Some k'" "stays k k'" using SemSignalI_ok [OF run] .
  have "do { k \<leftarrow> chSchReadyI t k; Some (set_p_u t MSG_OK k) } = chSchReadyI t (set_p_u t MSG_OK k)" for t k
    by (simp add: run_ok_ready set_p_u_make_ready)
  then have "sem_add_one sp k = chSemSignalI sp k" unfolding sem_add_one_def chSemSignalI_def by presburger
  then show ?thesis using k' that by simp
qed

lemma SemAddCounterI_ok:
  assumes "run_ok k"
  shows "\<exists>k'. chSemAddCounterI sp n k = Some k' \<and> stays k k'"
  using assms
proof (induction sp n k rule: chSemAddCounterI.induct)
  case (1 sp n k)
  show ?case
  proof (cases "n > 0")
    case True
    obtain k1 where k1: "sem_add_one sp k = Some k1" "stays k k1" using sem_add_one_ok [OF "1.prems"] .
    then have "chSemAddCounterI sp n k = chSemAddCounterI sp (n - 1) k1"
      using True by (subst chSemAddCounterI.simps) simp
    moreover have "\<exists>k'. chSemAddCounterI sp (n - 1) k1 = Some k' \<and> stays k1 k'"
      using "1.IH" [OF True] k1 by (simp add: stays_def)
    ultimately show ?thesis using k1(2) stays_trans by auto
  next
    case False
    then show ?thesis using "1.prems" by (subst chSemAddCounterI.simps) (auto intro: stays_refl)
  qed
qed

text \<open>The loop of \<open>chSemResetI\<close>, which counts up a copy of the counter.\<close>

lemma sem_reset_loop_ok:
  assumes "run_ok (set_s_cnt sp cnt k)" "0 \<le> n" "s_cnt k sp = n"
  shows "\<exists>k'. sem_reset_loop cnt sp k = Some k' \<and> stays k k' \<and> s_cnt k' sp = n \<and> queues k' (Sem sp) = []"
  using assms
proof (induction cnt sp k rule: sem_reset_loop.induct)
  case (1 cnt sp k)
  let ?k = "set_s_cnt sp cnt k"
  note R = run_okD [OF "1.prems"(1)]
  show ?case
  proof (cases "cnt + 1 \<le> 0")
    case False
    have "if queues ?k (Sem sp) = [] then 0 \<le> s_cnt ?k sp else s_cnt ?k sp = - int (length (queues ?k (Sem sp)))"
      using kcoreD(8) [OF R(1)] unfolding sems_ok_def by blast
    then have e: "queues k (Sem sp) = []" using False by (cases "queues k (Sem sp)") auto
    have "stays ?k (set_s_cnt sp n ?k)" by (rule sem_count_up) (use "1.prems" False in simp_all)
    moreover have "set_s_cnt sp n ?k = k" using "1.prems"(3) by (auto intro: kernel.equality simp: set_s_cnt_def)
    ultimately have "run_ok k" by (simp add: stays_def)
    then show ?thesis using False e "1.prems"(3) by (subst sem_reset_loop.simps) (simp add: stays_refl)
  next
    case True
    then have "queues ?k (Sem sp) \<noteq> []" by (intro sem_nonempty [OF R(1)]) simp
    then obtain us t where q: "queues k (Sem sp) = us @ [t]" by (cases "queues k (Sem sp)" rule: rev_cases) auto
    have q': "queues ?k (Sem sp) = us @ t # []" using q by simp
    let ?k1 = "set_queue (Sem sp) us (set_s_cnt sp (cnt + 1) k)"
    have T: "kcore {t, currp ?k} ?k1" "t \<in> set (registry ?k)" "t \<noteq> currp ?k" "p_state (thr ?k t) = CH_STATE_WTSEM"
      using sem_take [OF "1.prems"(1) q'] by (simp_all add: set_s_cnt_def)
    note W = ready_in_hand [OF "1.prems"(1) T(1-3), of MSG_RESET]
    let ?k2 = "make_ready True t (set_p_u t MSG_RESET ?k1)"
    have w: "chSchReadyI t (set_p_u t MSG_RESET ?k1) = Some ?k2" "stays ?k ?k2"
      by (rule W, simp_all add: T [simplified] timed_state_def)+
    let ?k3 = "set_p_u t MSG_RESET (make_ready True t (set_queue (Sem sp) us k))"
    have e: "set_s_cnt sp (cnt + 1) ?k3 = ?k2"
      unfolding set_p_u_make_ready by (simp add: make_ready_def set_s_cnt_def set_queue_def set_thr_def)
    have p: "prio k t \<noteq> 0" using kcoreD(21) [OF R(1) T(2)] by simp
    have s: "sem_reset_loop cnt sp k = sem_reset_loop (cnt + 1) sp ?k3"
      using True q p by (subst sem_reset_loop.simps) (simp add: sem_lifo_remove_def run_ok_ready)
    have "\<exists>k'. sem_reset_loop (cnt + 1) sp ?k3 = Some k' \<and> stays ?k3 k' \<and> s_cnt k' sp = n \<and> queues k' (Sem sp) = []"
    proof (rule "1.IH" [OF True, of "(t, set_queue (Sem sp) us k)" t "set_queue (Sem sp) us k" "make_ready True t (set_queue (Sem sp) us k)"])
      show "run_ok (set_s_cnt sp (cnt + 1) ?k3)" unfolding e using w(2) by (simp add: stays_def)
    qed (use q p "1.prems" in \<open>simp_all add: sem_lifo_remove_def run_ok_ready\<close>)
    moreover have "keeps_timed k ?k3"
      unfolding set_p_u_make_ready by (rule keeps_timed_trans [OF keeps_timed_cong keeps_timed_make_ready]) auto
    ultimately show ?thesis unfolding s by (auto simp: stays_def intro: keeps_timed_trans)
  qed
qed

lemma SemResetI_ok:
  assumes run: "run_ok k" and n: "0 \<le> n"
  obtains k' where "chSemResetI sp n k = Some k'" "stays k k'"
proof -
  have "set_s_cnt sp (s_cnt k sp) (set_s_cnt sp n k) = k" by (auto intro: kernel.equality simp: set_s_cnt_def)
  then have "run_ok (set_s_cnt sp (s_cnt k sp) (set_s_cnt sp n k))" using run by simp
  from sem_reset_loop_ok [OF this n]
  obtain k' where k': "chSemResetI sp n k = Some k'" "stays (set_s_cnt sp n k) k'" by (auto simp: chSemResetI_def)
  moreover have "keeps_timed k (set_s_cnt sp n k)" by (rule keeps_timed_cong) auto
  ultimately show ?thesis by (intro that [of k']) (auto simp: stays_def intro: keeps_timed_trans)
qed

section \<open>Calls that do not block\<close>

lemma switched_resume:
  assumes inv: "timers_ok s" and f: "f (vtimers.more s) = Some k1" and k1: "run_ok k1" "keeps_timed (vtimers.more s) k1"
    and g: "\<And>k. run_ok k \<Longrightarrow> \<exists>k'. g k = Some k' \<and> switched k k'"
  shows "\<exists>s'. map_option resume (lift (\<lambda>k. Option.bind (f k) g) s) = Some s' \<and> kinv s'"
proof -
  obtain k' where k': "g k1 = Some k'" "switched k1 k'" using g k1(1) by blast
  then show ?thesis using inv f k1
    by (intro lift_resume_ok [of _ s k']) (auto simp: switched_def intro: keeps_timed_trans)
qed

text \<open>Calls from an interrupt handler, and the end of the interrupt.\<close>

inductive irq_call :: "(kernel \<Rightarrow> kernel option) \<Rightarrow> bool" where
  "irq_call (chThdResumeI trp msg)"
| "irq_call (chThdDequeueNextI tqp msg)"
| "irq_call (chThdDequeueAllI tqp msg)"
| "irq_call (chSemSignalI sp)"
| "irq_call (chSemAddCounterI sp n)"
| "0 \<le> n \<Longrightarrow> irq_call (chSemResetI sp n)"

definition irq :: "(kernel \<Rightarrow> kernel option) \<Rightarrow> sys \<Rightarrow> sys option" where
  "irq f s = map_option resume (lift (\<lambda>k. Option.bind (f k) port_irq_epilogue) s)"

lemma irq_call_stays:
  assumes "irq_call f" "run_ok k"
  shows "\<exists>k'. f k = Some k' \<and> stays k k'"
  using assms
proof (induction rule: irq_call.induct)
  case (1 trp msg) then show ?case using ResumeI_ok by blast
next
  case (2 tqp msg) then show ?case using DequeueNextI_ok by blast
next
  case (3 tqp msg) then show ?case using DequeueAllI_ok by blast
next
  case (4 sp) then show ?case using SemSignalI_ok by blast
next
  case (5 sp n) then show ?case using SemAddCounterI_ok by blast
next
  case (6 n sp) then show ?case using SemResetI_ok by blast
qed

lemma irq_ok:
  assumes inv: "kinv s" and f: "irq_call f"
  shows "\<exists>s'. irq f s = Some s' \<and> kinv s'"
proof -
  obtain k1 where k1: "f (vtimers.more s) = Some k1" "stays (vtimers.more s) k1"
    using irq_call_stays [OF f kinvD(1) [OF inv]] by blast
  then have "run_ok k1" "keeps_timed (vtimers.more s) k1" by (auto simp: stays_def)
  from switched_resume [where f = f, OF kinvD(3) [OF inv] k1(1) this, of port_irq_epilogue] port_irq_epilogue_ok show ?thesis by (simp add: irq_def)
qed

lemma yield_ok: "kinv s \<Longrightarrow> \<exists>s'. chThdYield s = Some s' \<and> kinv s'"
  using lift_resume_ok DoYieldS_ok kinvD unfolding chThdYield_def switched_def by metis

lemma sem_reset_ok:
  assumes inv: "kinv s" and n: "0 \<le> n"
  shows "\<exists>s'. chSemReset sp n s = Some s' \<and> kinv s'"
proof -
  obtain k1 where k1: "chSemResetI sp n (vtimers.more s) = Some k1" "stays (vtimers.more s) k1"
    using SemResetI_ok [OF kinvD(1) [OF inv] n] .
  then have "run_ok k1" "keeps_timed (vtimers.more s) k1" by (auto simp: stays_def)
  from switched_resume [where f = "chSemResetI sp n", OF kinvD(3) [OF inv] k1(1) this, of chSchRescheduleS] RescheduleS_ok show ?thesis by (simp add: chSemReset_def)
qed

lemma set_priority_ok:
  assumes inv: "kinv s" and p: "newprio \<noteq> 0"
  shows "\<exists>s'. chThdSetPriority newprio s = Some s' \<and> kinv s'"
proof -
  let ?k = "vtimers.more s"
  let ?c = "currp ?k"
  note R = run_okD [OF kinvD(1) [OF inv]]
  let ?f = "\<lambda>t. (if prio ?k ?c = p_realprio (thr ?k ?c) \<or> newprio > prio ?k ?c then t\<lparr>p_prio := newprio\<rparr> else t)\<lparr>p_realprio := newprio\<rparr>"
  let ?k1 = "return (p_realprio (thr ?k ?c)) (set_thr ?c ?f ?k)"
  have "kcore {?c} (set_thr ?c ?f ?k)" by (rule set_thr_core [OF R(1)]) (use p R in auto)
  then have "run_ok ?k1" using R by (subst run_ok_def, subst kcore_cong [of _ "set_thr ?c ?f ?k"]) auto
  moreover have "keeps_timed ?k ?k1" by (rule keeps_timed_cong) auto
  moreover obtain k' where k': "chSchRescheduleS ?k1 = Some k'" "switched ?k1 k'"
    using RescheduleS_ok [OF \<open>run_ok ?k1\<close>] by blast
  ultimately have kt: "sched_ok k'" "keeps_timed ?k k'" by (auto simp: switched_def intro: keeps_timed_trans)
  have "set_priority newprio ?k = Some k'"
    unfolding set_priority_def using k'(1)
    by (cases "prio ?k ?c = p_realprio (thr ?k ?c) \<or> newprio > prio ?k ?c") (simp_all only: Let_def if_True if_False set_thr_twice)
  then show ?thesis unfolding chThdSetPriority_def by (rule lift_resume_ok) (use kt kinvD(3) [OF inv] in auto)
qed

text \<open>Waking a thread that was taken in hand.\<close>

lemma wakeup_in_hand:
  assumes inv: "kinv s" and f: "f (vtimers.more s) = chSchWakeupS t msg kh"
    and core: "kcore {t, currp (vtimers.more s)} kh"
    and t: "t \<in> set (registry kh)" "t \<noteq> currp (vtimers.more s)"
    and kh: "currp kh = currp (vtimers.more s)" "queues kh RList = queues (vtimers.more s) RList"
      "\<And>u. u \<noteq> t \<Longrightarrow> thr kh u = thr (vtimers.more s) u" "set (registry (vtimers.more s)) \<subseteq> set (registry kh)"
      "keeps_timed (vtimers.more s) kh"
  shows "\<exists>s'. map_option resume (lift f s) = Some s' \<and> kinv s'"
proof -
  let ?k = "vtimers.more s"
  note R = run_okD [OF kinvD(1) [OF inv]]
  have "t \<notin> set (queues kh q)" for q using kcoreD(3) [OF core, of t q] by auto
  then have top: "\<forall>u \<in> set (queues kh RList). prio kh u \<le> prio kh (currp kh)"
    using kinvD(2) [OF inv] kh t(2) unfolding sched_ok_def by (metis (no_types, lifting))
  obtain k' where "chSchWakeupS t msg kh = Some k'" "sched_ok k'" "keeps_timed kh k'"
    using WakeupS_ok [of kh t msg] core t kh R top by (auto simp: insert_commute)
  then show ?thesis using f kh(5) kinvD(3) [OF inv] by (intro lift_resume_ok [of f s k']) (auto intro: keeps_timed_trans)
qed

lemma sem_signal_ok:
  assumes inv: "kinv s"
  shows "\<exists>s'. chSemSignal sp s = Some s' \<and> kinv s'"
proof (cases "s_cnt (vtimers.more s) sp < 0")
  case True
  let ?k = "vtimers.more s"
  note run = kinvD(1) [OF inv]
  obtain t vs where q: "queues ?k (Sem sp) = t # vs"
    using sem_nonempty [OF run_okD(1) [OF run] True] by (cases "queues ?k (Sem sp)") auto
  note T = sem_take [OF run, of sp "[]" t vs, simplified, OF q]
  let ?k1 = "set_queue (Sem sp) vs (set_s_cnt sp (s_cnt ?k sp + 1) ?k)"
  show ?thesis unfolding chSemSignal_def
  proof (rule wakeup_in_hand [OF inv, where kh = ?k1 and t = t])
    show "sem_signal sp ?k = chSchWakeupS t MSG_OK ?k1" using True q by (simp add: sem_signal_def sem_fifo_remove_def Let_def)
    show "keeps_timed ?k ?k1" by (rule keeps_timed_cong) auto
  qed (use T in auto)
next
  case False
  let ?k = "vtimers.more s"
  let ?k1 = "set_s_cnt sp (s_cnt ?k sp + 1) ?k"
  have "stays ?k ?k1" using sem_count_up [OF kinvD(1) [OF inv]] False by simp
  moreover have "sem_signal sp ?k = Some ?k1" using False by (simp add: sem_signal_def Let_def)
  ultimately show ?thesis unfolding chSemSignal_def using kinvD [OF inv]
    by (intro lift_resume_ok [of _ _ ?k1]) (auto simp: stays_def sched_ok_def)
qed

lemma thd_resume_ok:
  assumes inv: "kinv s"
  shows "\<exists>s'. chThdResume trp msg s = Some s' \<and> kinv s'"
proof (cases "tref (vtimers.more s) trp = 0")
  case True
  then show ?thesis unfolding chThdResume_def using kinvD [OF inv]
    by (intro lift_resume_ok [of _ _ "vtimers.more s"]) (auto simp: chThdResumeS_def keeps_timed_def)
next
  case False
  let ?k = "vtimers.more s"
  note T = tref_take [OF kinvD(1) [OF inv] False]
  show ?thesis unfolding chThdResume_def
  proof (rule wakeup_in_hand [OF inv, where kh = "set_tref trp 0 ?k" and t = "tref ?k trp"])
    show "chThdResumeS trp msg ?k = chSchWakeupS (tref ?k trp) msg (set_tref trp 0 ?k)"
      using False by (simp add: chThdResumeS_def Let_def)
    show "keeps_timed ?k (set_tref trp 0 ?k)" by (rule keeps_timed_cong) auto
  qed (use T in auto)
qed

text \<open>A new thread.\<close>

lemma thread_init_simps [simp]:
  "queues (thread_init t pr k) = queues k" "currp (thread_init t pr k) = currp k" "registry (thread_init t pr k) = registry k @ [t]"
  "s_cnt (thread_init t pr k) = s_cnt k" "tref (thread_init t pr k) = tref k" "pend (thread_init t pr k) = (pend k)(t := None)"
  "u \<noteq> t \<Longrightarrow> thr (thread_init t pr k) u = thr k u" "p_prio (thr (thread_init t pr k) t) = pr"
  "p_waiting (thr (thread_init t pr k) t) = []"
  by (simp_all add: thread_init_def Let_def)

lemma thread_init_core:
  assumes core: "kcore X k" and new: "t \<notin> set (registry k)" "t \<noteq> 0" "pr \<noteq> 0"
  shows "kcore (insert t X) (thread_init t pr k)" (is "kcore _ ?k")
proof -
  note D = kcoreD [OF core]
  have nq: "t \<notin> set (queues k q)" for q using D(4) new by blast
  have nw: "t \<notin> set (p_waiting (thr k u))" for u using D(12) new by blast
  have nt: "tref k a \<noteq> 0 \<Longrightarrow> tref k a \<noteq> t" for a using D(15) new by metis
  have w: "set (p_waiting (thr ?k u)) = (if u = t then {} else set (p_waiting (thr k u)))" for u by simp
  show ?thesis
  proof (rule kcoreI)
    show "q = q'" if "u \<in> set (queues ?k q)" "u \<in> set (queues ?k q')" for q q' u by (rule D(2)) (use that in simp_all)
    show "u \<notin> insert t X \<and> u \<in> set (registry ?k) \<and> ok_queue (thr ?k u) q" if "u \<in> set (queues ?k q)" for q u
    proof -
      have "u \<in> set (queues k q)" "u \<noteq> t" using that nq [of q] by auto
      then show ?thesis using D(3-5) [of u q] by simp
    qed
    show "\<exists>q. u \<in> set (queues ?k q)" if "u \<in> set (registry ?k)" "u \<notin> insert t X" "in_queue_state (p_state (thr ?k u))" for u
      using that D(6) [of u] by auto
    show "ready_sorted ?k"
    proof -
      have "prio ?k u = prio k u" if "u \<in> set (queues k RList)" for u using that nq [of RList] by (cases "u = t") auto
      then show ?thesis using D(7) unfolding ready_sorted_def thread_init_simps by (auto intro: sorted_wrt_mono_rel [rotated])
    qed
    show "sems_ok ?k" using D(8) by (simp add: sems_ok_def)
    show "distinct (p_waiting (thr ?k u))" for u using D(9) by (cases "u = t") auto
    show "t1 = t2" if "u \<in> set (p_waiting (thr ?k t1))" "u \<in> set (p_waiting (thr ?k t2))" for t1 t2 u
      using that D(10) [of u t1 t2] unfolding w by (auto split: if_splits)
    show "u \<notin> insert t X \<and> u \<in> set (registry ?k) \<and> p_state (thr ?k u) = CH_STATE_WTEXIT" if "u \<in> set (p_waiting (thr ?k t1))" for t1 u
      using that D(11-13) [of u t1] nw [of t1] unfolding w by (cases "u = t") (auto split: if_splits)
    show "tref ?k a \<notin> insert t X \<and> tref ?k a \<in> set (registry ?k) \<and> p_state (thr ?k (tref ?k a)) = CH_STATE_SUSPENDED
      \<and> p_u (thr ?k (tref ?k a)) = a" if "tref ?k a \<noteq> 0" for a
      using that D(14-17) [of a] nt [of a] by auto
    show "tref ?k (p_u (thr ?k u)) = u" if "u \<in> set (registry ?k)" "u \<notin> insert t X" "p_state (thr ?k u) = CH_STATE_SUSPENDED" for u
      using that D(18) [of u] by auto
    show "prio ?k u \<noteq> 0" if "u \<in> set (registry ?k)" for u using that D(21) [of u] new(3) by (cases "u = t") auto
    show "p_state (thr ?k u) \<noteq> CH_STATE_CURRENT" if "u \<in> set (registry ?k)" "u \<notin> insert t X" for u
      using that D(22) [of u] by auto
    show "u \<in> set (registry ?k) \<and> \<not> evt_awaited (thr ?k u)" if "u \<notin> insert t X" "evt_state (p_state (thr ?k u))" for u
      using that D(23,24) [of u] by auto
  qed (use D(1) D(19,20) new in auto)
qed

lemma create_ok:
  assumes inv: "kinv s" and new: "wsp \<notin> set (registry (vtimers.more s))" "wsp \<noteq> 0" "pr \<noteq> 0"
  shows "\<exists>s'. chThdCreateStatic wsp pr s = Some s' \<and> kinv s'"
proof -
  let ?k = "vtimers.more s"
  let ?kr = "return wsp ?k"
  let ?k1 = "thread_init wsp pr ?kr"
  note R = run_okD [OF kinvD(1) [OF inv]]
  have "kcore {currp ?k} ?kr" using R(1) by (subst kcore_cong [of _ ?k]) simp_all
  then have core: "kcore {wsp, currp ?k} ?k1" by (rule thread_init_core) (use new in simp_all)
  show ?thesis unfolding chThdCreateStatic_def
  proof (rule wakeup_in_hand [OF inv _ core])
    show "create_static wsp pr ?k = chSchWakeupS wsp MSG_OK ?k1" by (simp add: create_static_def)
    show "keeps_timed ?k ?k1" using new(1) by (auto simp: keeps_timed_def waits_on_def)
    show "wsp \<noteq> currp ?k" using new(1) R(2) by auto
  qed auto
qed


lemma more_update_id [simp]: "vtimers.more_update (\<lambda>k. k) s = s"
  by (cases s) simp

lemma lift_eq: "f (vtimers.more s) = g (vtimers.more s) \<Longrightarrow> lift f s = lift g s"
  by (simp add: lift_def)

lemma count_down_ok:
  assumes inv: "kinv s" and n: "\<not> s_cnt (vtimers.more s) sp - 1 < 0"
  shows "sched_ok (return MSG_OK (set_s_cnt sp (s_cnt (vtimers.more s) sp - 1) (vtimers.more s)))"
    "keeps_timed (vtimers.more s) (return MSG_OK (set_s_cnt sp (s_cnt (vtimers.more s) sp - 1) (vtimers.more s)))"
proof -
  let ?k = "vtimers.more s"
  let ?k1 = "set_s_cnt sp (s_cnt ?k sp - 1) ?k"
  have "stays ?k ?k1" using sem_count_up [OF kinvD(1) [OF inv]] n by simp
  then have "sched_ok ?k1" "keeps_timed ?k ?k1" using kinvD(2) [OF inv] by (auto simp: stays_def sched_ok_def)
  then show "sched_ok (return MSG_OK ?k1)" "keeps_timed ?k (return MSG_OK ?k1)" by (auto intro: keeps_timed_trans)
qed

section \<open>Calls that may block\<close>

text \<open>With no other thread ready such a call faults; otherwise it switches to another thread.\<close>

lemma chVTDoSetI_more: "chVTDoSetI vt d f p s = Some s' \<Longrightarrow> vtimers.more s' = vtimers.more s"
  by (auto simp: chVTDoSetI_def Let_def split: option.splits)

lemma go_sleep_timeout_empty:
  assumes "queues (vtimers.more s) RList = []"
  shows "go_sleep_timeout fr fi vt st time s = None"
proof -
  have n: "lift (\<lambda>k. chSchGoSleepS st (set_pend f k)) s1 = None" if "vtimers.more s1 = vtimers.more s" for f s1
    unfolding lift_def by (simp add: go_sleep_empty that assms)
  show ?thesis
  proof (cases "chVTDoSetI vt time VT_wakeup (currp (vtimers.more s)) s")
    case None
    then show ?thesis using n [of s] by (simp add: go_sleep_timeout_def)
  next
    case (Some s1)
    then show ?thesis using n [of s] n [OF chVTDoSetI_more [OF Some]] by (simp add: go_sleep_timeout_def)
  qed
qed

lemma sleep_timeout_resume:
  assumes inv: "kinv s" and ne: "queues (vtimers.more s) RList \<noteq> []"
    and g: "\<And>k. currp (g k) = currp k" "\<And>k. pend (g k) = pend k" "\<And>k. registry (g k) = registry k"
      "\<And>k. queues (g k) RList = queues k RList" "\<And>k t. t \<noteq> currp k \<Longrightarrow> p_state (thr (g k) t) = p_state (thr k t)"
    and b: "blocked st (g (vtimers.more s))" and st: "timed_state st"
    and vt: "vt \<noteq> vtlist s" "\<not> chVTIsArmedI vt s" and time: "time \<noteq> 0"
    and fr: "timer_of fr = Some vt"
  shows "\<exists>s'. map_option resume (go_sleep_timeout fr fi vt st time (vtimers.more_update g s)) = Some s' \<and> kinv s'"
proof -
  obtain s1 where "go_sleep_timeout fr fi vt st time (vtimers.more_update g s) = Some s1" "sched_ok (vtimers.more s1)" "timers_ok s1"
    by (rule sleep_timeout_ok [OF inv ne g b st vt time fr]) blast
  then show ?thesis using resume_ok by auto
qed

lemma sleep_call_ok:
  assumes inv: "kinv s" and ne: "queues (vtimers.more s) RList \<noteq> []"
    and vt: "vt \<noteq> vtlist s" "\<not> chVTIsArmedI vt s" and time: "time \<noteq> 0"
  shows "\<exists>s'. chThdSleep vt time s = Some s' \<and> kinv s'"
proof -
  have "blocked CH_STATE_SLEEPING (vtimers.more s)"
    by (rule blocked_state [OF kinvD(1) [OF inv]]) (simp_all add: in_queue_state_def)
  then have "\<exists>s'. map_option resume (go_sleep_timeout (F_timeout vt) F_rdymsg vt CH_STATE_SLEEPING time (vtimers.more_update (\<lambda>k. k) s)) = Some s' \<and> kinv s'"
    by (intro sleep_timeout_resume [OF inv ne] vt time) (simp_all add: timed_state_def)
  then show ?thesis by (simp only: chThdSleep_def chSchGoSleepTimeoutS_def more_update_id)
qed

lemma suspend_ok:
  assumes inv: "kinv s" and ne: "queues (vtimers.more s) RList \<noteq> []" and free: "tref (vtimers.more s) trp = 0"
  shows "\<exists>s'. suspendThread trp s = Some s' \<and> kinv s'"
proof -
  let ?g = "\<lambda>k. set_p_u (currp k) trp (set_tref trp (currp k) k)"
  have "\<exists>s'. map_option resume (lift (\<lambda>k. chSchGoSleepS CH_STATE_SUSPENDED (set_pend F_rdymsg (?g k))) s) = Some s' \<and> kinv s'"
    by (rule sleep_ok [OF inv ne]) (use blocked_suspended [OF kinvD(1) [OF inv] free] in auto)
  moreover have "chThdSuspendS trp = (\<lambda>k. chSchGoSleepS CH_STATE_SUSPENDED (set_pend F_rdymsg (?g k)))"
    by (simp add: fun_eq_iff chThdSuspendS_def Let_def)
  ultimately show ?thesis by (simp only: suspendThread_def)
qed

lemma suspend_timeout_ok:
  assumes inv: "kinv s" and ne: "queues (vtimers.more s) RList \<noteq> []" and free: "tref (vtimers.more s) trp = 0"
    and vt: "vt \<noteq> vtlist s" "\<not> chVTIsArmedI vt s"
  shows "\<exists>s'. suspendThreadTimeout vt trp timeout s = Some s' \<and> kinv s'"
proof (cases "timeout = TIME_IMMEDIATE")
  case True
  have "kinv (resume (vtimers.more_update (return MSG_TIMEOUT) s))"
    by (rule resume_ok) (use kinvD [OF inv] in \<open>auto intro: timers_ok_update\<close>)
  then show ?thesis using True by (simp add: suspendThreadTimeout_def chThdSuspendTimeoutS_def)
next
  case False
  let ?g = "\<lambda>k. set_p_u (currp k) trp (set_tref trp (currp k) k)"
  have "\<exists>s'. map_option resume (go_sleep_timeout (F_timeout vt) F_rdymsg vt CH_STATE_SUSPENDED timeout (vtimers.more_update ?g s)) = Some s' \<and> kinv s'"
    by (intro sleep_timeout_resume [OF inv ne])
      (use vt False blocked_suspended [OF kinvD(1) [OF inv] free] in \<open>auto simp: timed_state_def TIME_IMMEDIATE_def\<close>)
  then show ?thesis using False by (simp add: suspendThreadTimeout_def chThdSuspendTimeoutS_def chSchGoSleepTimeoutS_def)
qed

lemma enqueue_ok:
  assumes inv: "kinv s" and ne: "queues (vtimers.more s) RList \<noteq> []"
    and vt: "vt \<noteq> vtlist s" "\<not> chVTIsArmedI vt s"
  shows "\<exists>s'. map_option resume (chThdEnqueueTimeoutS vt tqp timeout s) = Some s' \<and> kinv s'"
proof (cases "timeout = TIME_IMMEDIATE")
  case True
  have "kinv (resume (vtimers.more_update (return MSG_TIMEOUT) s))"
    by (rule resume_ok) (use kinvD [OF inv] in \<open>auto intro: timers_ok_update\<close>)
  then show ?thesis using True by (simp add: chThdEnqueueTimeoutS_def)
next
  case False
  let ?g = "\<lambda>k. set_queue (TQueue tqp) (queues k (TQueue tqp) @ [currp k]) k"
  have "\<exists>s'. map_option resume (go_sleep_timeout (F_timeout vt) F_rdymsg vt CH_STATE_QUEUED timeout (vtimers.more_update ?g s)) = Some s' \<and> kinv s'"
    by (intro sleep_timeout_resume [OF inv ne])
      (use vt False blocked_queue [OF kinvD(1) [OF inv]] in \<open>auto simp: timed_state_def TIME_IMMEDIATE_def\<close>)
  then show ?thesis using False by (simp add: chThdEnqueueTimeoutS_def chSchGoSleepTimeoutS_def)
qed

lemma sem_wait_ok:
  assumes inv: "kinv s" and ne: "queues (vtimers.more s) RList \<noteq> [] \<or> 0 < s_cnt (vtimers.more s) sp"
  shows "\<exists>s'. chSemWait sp s = Some s' \<and> kinv s'"
proof (cases "s_cnt (vtimers.more s) sp - 1 < 0")
  case True
  let ?k = "vtimers.more s"
  let ?g = "\<lambda>k. sem_enqueue sp (set_s_cnt sp (s_cnt k sp - 1) k)"
  obtain s' where s': "map_option resume (lift (\<lambda>k. chSchGoSleepS CH_STATE_WTSEM (set_pend F_rdymsg (?g k))) s) = Some s'" "kinv s'"
    using sleep_ok [OF inv, of ?g CH_STATE_WTSEM F_rdymsg] ne True blocked_sem [OF kinvD(1) [OF inv] True]
    by (auto simp: sem_enqueue_def)
  have "chSemWaitS sp ?k = chSchGoSleepS CH_STATE_WTSEM (set_pend F_rdymsg (?g ?k))" using True by (simp add: chSemWaitS_def Let_def)
  then have "lift (chSemWaitS sp) s = lift (\<lambda>k. chSchGoSleepS CH_STATE_WTSEM (set_pend F_rdymsg (?g k))) s" by (rule lift_eq)
  then show ?thesis using s' by (metis chSemWait_def)
next
  case False
  let ?k = "vtimers.more s"
  let ?k1 = "set_s_cnt sp (s_cnt ?k sp - 1) ?k"
  note count_down_ok [OF inv False]
  moreover have "chSemWaitS sp ?k = Some (return MSG_OK ?k1)" using False by (simp add: chSemWaitS_def Let_def)
  ultimately show ?thesis unfolding chSemWait_def using kinvD(3) [OF inv] by (intro lift_resume_ok)
qed

lemma sem_wait_timeout_ok:
  assumes inv: "kinv s" and ne: "queues (vtimers.more s) RList \<noteq> [] \<or> 0 < s_cnt (vtimers.more s) sp \<or> time = TIME_IMMEDIATE"
    and vt: "vt \<noteq> vtlist s" "\<not> chVTIsArmedI vt s"
  shows "\<exists>s'. chSemWaitTimeout vt sp time s = Some s' \<and> kinv s'"
proof (cases "s_cnt (vtimers.more s) sp - 1 < 0")
  case True
  let ?k = "vtimers.more s"
  let ?g = "\<lambda>k. sem_enqueue sp (set_s_cnt sp (s_cnt k sp - 1) k)"
  show ?thesis
  proof (cases "time = TIME_IMMEDIATE")
    case t: True
    have "set_s_cnt sp (s_cnt ?k sp) (set_s_cnt sp n ?k) = ?k" for n by (auto intro: kernel.equality simp: set_s_cnt_def)
    then have "chSemWaitTimeoutS vt sp time s = Some (vtimers.more_update (return MSG_TIMEOUT) s)"
      using True t by (simp add: chSemWaitTimeoutS_def Let_def) (cases s, simp)
    moreover have "kinv (resume (vtimers.more_update (return MSG_TIMEOUT) s))"
      by (rule resume_ok) (use kinvD [OF inv] in \<open>auto intro: timers_ok_update\<close>)
    ultimately show ?thesis by (simp add: chSemWaitTimeout_def)
  next
    case False
    have "\<exists>s'. map_option resume (go_sleep_timeout (F_timeout vt) F_rdymsg vt CH_STATE_WTSEM time (vtimers.more_update ?g s)) = Some s' \<and> kinv s'"
      by (intro sleep_timeout_resume [OF inv])
        (use vt ne False True blocked_sem [OF kinvD(1) [OF inv] True] in \<open>auto simp: timed_state_def TIME_IMMEDIATE_def sem_enqueue_def\<close>)
    moreover have "chSemWaitTimeoutS vt sp time s = go_sleep_timeout (F_timeout vt) F_rdymsg vt CH_STATE_WTSEM time (vtimers.more_update ?g s)"
      using True False by (simp add: chSemWaitTimeoutS_def chSchGoSleepTimeoutS_def Let_def o_def)
    ultimately show ?thesis by (simp add: chSemWaitTimeout_def)
  qed
next
  case False
  let ?k = "vtimers.more s"
  let ?k1 = "return MSG_OK (set_s_cnt sp (s_cnt ?k sp - 1) ?k)"
  have "sched_ok ?k1" "keeps_timed ?k ?k1" by (rule count_down_ok [OF inv False])+
  then have "kinv (resume (vtimers.more_update (\<lambda>_. ?k1) s))"
    using timers_ok_update [of s "\<lambda>_. ?k1"] kinvD(3) [OF inv] by (intro resume_ok) simp_all
  moreover have "chSemWaitTimeoutS vt sp time s = Some (vtimers.more_update (\<lambda>_. ?k1) s)"
    using False by (simp add: chSemWaitTimeoutS_def Let_def o_def) (cases s, simp)
  ultimately show ?thesis by (simp add: chSemWaitTimeout_def)
qed


lemma sleep_kernel:
  assumes run: "run_ok k" and pn: "pend k (currp k) = None" and ne: "queues k RList \<noteq> []"
    and g: "currp kg = currp k" "pend kg = pend k" "registry kg = registry k"
      "queues kg RList = queues k RList" "\<And>t. t \<noteq> currp k \<Longrightarrow> p_state (thr kg t) = p_state (thr k t)"
    and b: "blocked st kg"
  shows "\<exists>k'. chSchGoSleepS st (set_pend f kg) = Some k' \<and> sched_ok k' \<and> keeps_timed k k'"
proof -
  let ?k1 = "set_pend f kg"
  have "blocked st ?k1" using b unfolding blocked_def by (subst kcore_cong [of _ "set_p_state (currp kg) st kg"]) simp_all
  moreover have "queues ?k1 RList \<noteq> []" using ne g(4) by simp
  moreover have "keeps_timed k (set_p_state (currp ?k1) st ?k1)"
    using pn g by (auto simp: keeps_timed_def waits_on_def)
  ultimately show ?thesis using go_sleep_blocked by blast
qed

lemma sem_signal_wait_ok:
  assumes inv: "kinv s" and s': "chSemSignalWait sps spw s = Some s'"
  shows "kinv s'"
proof -
  let ?k = "vtimers.more s"
  obtain k1 where k1: "sem_add_one sps ?k = Some k1" "stays ?k k1" using sem_add_one_ok [OF kinvD(1) [OF inv]] .
  then have run: "run_ok k1" and pn: "pend k1 (currp k1) = None" and kt: "keeps_timed ?k k1"
    using kinvD(4) [OF inv] by (auto simp: stays_def)
  obtain k' where "sem_signal_wait sps spw ?k = Some k'" "sched_ok k'" "keeps_timed ?k k'"
  proof (cases "s_cnt k1 spw - 1 < 0")
    case True
    let ?kg = "sem_enqueue spw (set_s_cnt spw (s_cnt k1 spw - 1) k1)"
    have e: "sem_signal_wait sps spw ?k = chSchGoSleepS CH_STATE_WTSEM (set_pend F_rdymsg ?kg)"
      using k1(1) True by (simp add: sem_signal_wait_def Let_def)
    have "queues k1 RList \<noteq> []"
    proof
      assume "queues k1 RList = []"
      then have "sem_signal_wait sps spw ?k = None" unfolding e by (intro go_sleep_empty) (simp add: sem_enqueue_def)
      then show False using s' by (simp add: chSemSignalWait_def lift_def)
    qed
    then obtain k' where "chSchGoSleepS CH_STATE_WTSEM (set_pend F_rdymsg ?kg) = Some k'" "sched_ok k'" "keeps_timed k1 k'"
      using sleep_kernel [OF run pn, of ?kg CH_STATE_WTSEM F_rdymsg] blocked_sem [OF run True] by (auto simp: sem_enqueue_def)
    then show ?thesis using e that keeps_timed_trans [OF kt] by simp
  next
    case False
    let ?k2 = "return MSG_OK (set_s_cnt spw (s_cnt k1 spw - 1) k1)"
    have st: "stays k1 (set_s_cnt spw (s_cnt k1 spw - 1) k1)" using sem_count_up [OF run] False by simp
    then have "run_ok ?k2" unfolding stays_def run_ok_def by (subst kcore_cong [of _ "set_s_cnt spw (s_cnt k1 spw - 1) k1"]) simp_all
    then obtain k' where "chSchRescheduleS ?k2 = Some k'" "switched ?k2 k'" using RescheduleS_ok by blast
    moreover have "keeps_timed ?k ?k2" using st kt by (auto simp: stays_def intro: keeps_timed_trans)
    ultimately show ?thesis using that k1(1) False
      by (simp add: sem_signal_wait_def Let_def switched_def) (metis keeps_timed_trans)
  qed
  then have "\<exists>s''. map_option resume (lift (sem_signal_wait sps spw) s) = Some s'' \<and> kinv s''"
    by (intro lift_resume_ok) (auto intro: kinvD(3) [OF inv])
  then show ?thesis using s' by (auto simp: chSemSignalWait_def)
qed

text \<open>The end of a thread: the threads waiting for it are taken in hand and made ready.\<close>

lemma take_waiting:
  assumes core: "kcore {c} k" and ws: "ws = p_waiting (thr k c)"
  shows "kcore (insert c (set ws)) (set_thr c (\<lambda>t. t\<lparr>p_waiting := []\<rparr>) k)" (is "kcore _ ?k")
proof -
  note D = kcoreD [OF core]
  have e: "p_state (thr ?k t) = p_state (thr k t)" "p_u (thr ?k t) = p_u (thr k t)" "prio ?k t = prio k t" for t by simp_all
  have w: "set (p_waiting (thr ?k t)) = (if t = c then {} else set (p_waiting (thr k t)))" for t by simp
  have o: "ok_queue (thr ?k t) q = ok_queue (thr k t) q" for t q by (cases q) (simp_all only: ok_queue.simps e)
  have f: "queues ?k = queues k" "registry ?k = registry k" "tref ?k = tref k" "s_cnt ?k = s_cnt k" by simp_all
  have st: "p_state (thr k t) = CH_STATE_WTEXIT" if "t \<in> set ws" for t using D(13) that ws by blast
  show ?thesis
  proof (rule kcoreI, unfold e o f)
    show "t \<notin> insert c (set ws) \<and> t \<in> set (registry k) \<and> ok_queue (thr k t) q" if "t \<in> set (queues k q)" for q t
      using that D(3-5) [of t q] st [of t] by (cases q) auto
    show "\<exists>q. t \<in> set (queues k q)" if "t \<in> set (registry k)" "t \<notin> insert c (set ws)" "in_queue_state (p_state (thr k t))" for t
      using that D(6) [of t] by auto
    show "q = q'" if "t \<in> set (queues k q)" "t \<in> set (queues k q')" for q q' t by (rule D(2) [OF that])
    show "ready_sorted ?k" using D(7) unfolding ready_sorted_def e f .
    show "sems_ok ?k" using D(8) by (subst sems_ok_cong [of _ k]) simp_all
    show "distinct (p_waiting (thr ?k t))" for t using D(9) by simp
    show "t1 = t2" if "u \<in> set (p_waiting (thr ?k t1))" "u \<in> set (p_waiting (thr ?k t2))" for t1 t2 u
      using that D(10) [of u t1 t2] unfolding w by (auto split: if_splits)
    show "u \<notin> insert c (set ws) \<and> u \<in> set (registry k) \<and> p_state (thr k u) = CH_STATE_WTEXIT"
      if "u \<in> set (p_waiting (thr ?k t))" for t u
      using that D(11-13) [of u t] D(10) [of u t c] ws unfolding w by (auto split: if_splits)
    show "tref k a \<notin> insert c (set ws) \<and> tref k a \<in> set (registry k) \<and> p_state (thr k (tref k a)) = CH_STATE_SUSPENDED
      \<and> p_u (thr k (tref k a)) = a" if "tref k a \<noteq> 0" for a
      using that D(14-17) [of a] st [of "tref k a"] by auto
    have a: "evt_awaited (thr ?k t) = evt_awaited (thr k t)" for t by (rule evt_awaited_cong) simp_all
    show "t \<in> set (registry k) \<and> \<not> evt_awaited (thr ?k t)" if "t \<notin> insert c (set ws)" "evt_state (p_state (thr k t))" for t
      using that D(23,24) [of t] unfolding a by auto
  qed (use D(1) D(18-22) in auto)
qed

lemma ready_waiting_ok:
  assumes "kcore (insert c (set ws)) k" "distinct ws" "c \<notin> set ws" "set ws \<subseteq> set (registry k)"
  shows "\<exists>k'. ready_waiting ws k = Some k' \<and> kcore {c} k' \<and> keeps_timed k k' \<and> currp k' = currp k \<and> registry k' = registry k
    \<and> pend k' = pend k \<and> thr k' c = thr k c \<and> (queues k RList \<noteq> [] \<or> ws \<noteq> [] \<longrightarrow> queues k' RList \<noteq> [])"
  using assms
proof (induction ws arbitrary: k)
  case Nil
  then show ?case by (simp add: keeps_timed_def)
next
  case (Cons w ws)
  let ?k = "make_ready True w k"
  have r: "w \<in> set (registry k)" using Cons.prems by simp
  have "kcore (insert c (set (w # ws)) - {w}) ?k" by (rule make_ready_core [OF Cons.prems(1)]) (use r in auto)
  moreover have "insert c (set (w # ws)) - {w} = insert c (set ws)" using Cons.prems(2,3) by auto
  ultimately have "kcore (insert c (set ws)) ?k" by simp
  from Cons.IH [OF this] Cons.prems obtain k' where k': "ready_waiting ws ?k = Some k'" "kcore {c} k'" "keeps_timed ?k k'"
    "currp k' = currp k" "registry k' = registry k" "pend k' = pend k" "thr k' c = thr ?k c" "queues ?k RList \<noteq> [] \<longrightarrow> queues k' RList \<noteq> []"
    by auto
  have "thr ?k c = thr k c" using Cons.prems(3) by (simp add: make_ready_def)
  moreover have "insert_prio (prio k) True w (queues k RList) \<noteq> []" by (cases "queues k RList") auto
  ultimately show ?case using k' kcoreD(21) [OF Cons.prems(1) r] keeps_timed_trans [OF keeps_timed_make_ready k'(3)]
    by (simp add: run_ok_ready)
qed


lemma remove_hand_core:
  assumes core: "kcore {c} k" and st: "\<not> evt_state (p_state (thr k c))"
  shows "kcore {} (k\<lparr>registry := remove1 c (registry k)\<rparr>)" (is "kcore {} ?k")
proof -
  note D = kcoreD [OF core]
  have r: "set (registry ?k) = set (registry k) - {c}" using D(19) by simp
  show ?thesis
  proof (rule kcoreI, unfold r)
    show "ready_sorted ?k" using D(7) by (simp add: ready_sorted_def)
    show "sems_ok ?k" using D(8) by (simp add: sems_ok_def)
    show "t = t'" if "w \<in> set (p_waiting (thr ?k t))" "w \<in> set (p_waiting (thr ?k t'))" for t t' w
      by (rule D(10)) (use that in simp_all)
    show "q = q'" if "t \<in> set (queues ?k q)" "t \<in> set (queues ?k q')" for q q' t by (rule D(2)) (use that in simp_all)
    show "\<exists>q. t \<in> set (queues ?k q)" if "t \<in> set (registry k) - {c}" "t \<notin> {}" "in_queue_state (p_state (thr ?k t))" for t
      using that D(6) [of t] by auto
    show "t \<notin> {} \<and> t \<in> set (registry k) - {c} \<and> ok_queue (thr ?k t) q" if "t \<in> set (queues ?k q)" for q t
      using that D(3-5) [of t q] by auto
    show "w \<notin> {} \<and> w \<in> set (registry k) - {c} \<and> p_state (thr ?k w) = CH_STATE_WTEXIT" if "w \<in> set (p_waiting (thr ?k t))" for t w
      using that D(11-13) [of w t] by auto
    show "tref ?k a \<notin> {} \<and> tref ?k a \<in> set (registry k) - {c} \<and> p_state (thr ?k (tref ?k a)) = CH_STATE_SUSPENDED
      \<and> p_u (thr ?k (tref ?k a)) = a" if "tref ?k a \<noteq> 0" for a
      using that D(14-17) [of a] by auto
    show "t \<in> set (registry k) - {c} \<and> \<not> evt_awaited (thr ?k t)" if "t \<notin> {}" "evt_state (p_state (thr ?k t))" for t
      using that D(23,24) [of t] st by auto
  qed (use D(1) D(9) D(18-22) in auto)
qed

lemma exit_ok:
  assumes inv: "kinv s"
    and ne: "queues (vtimers.more s) RList \<noteq> [] \<or> p_waiting (thr (vtimers.more s) (currp (vtimers.more s))) \<noteq> []"
  shows "\<exists>s'. chThdExit msg s = Some s' \<and> kinv s'"
proof -
  let ?k = "vtimers.more s"
  let ?c = "currp ?k"
  note R = run_okD [OF kinvD(1) [OF inv]]
  let ?k1 = "set_p_u ?c msg ?k"
  define ws where "ws = p_waiting (thr ?k1 ?c)"
  define k2 where "k2 = set_thr ?c (\<lambda>t. t\<lparr>p_waiting := []\<rparr>) ?k1"
  have core1: "kcore {?c} ?k1" by (rule set_thr_core [OF R(1)]) (use R in auto)
  have core2: "kcore (insert ?c (set ws)) k2" unfolding k2_def by (rule take_waiting [OF core1 ws_def])
  have d: "distinct ws" unfolding ws_def by (rule kcoreD(9) [OF core1])
  have n: "?c \<notin> set ws" unfolding ws_def using kcoreD(11) [OF core1] by blast
  have r: "set ws \<subseteq> set (registry k2)" unfolding ws_def k2_def kernel_set_simps(4) using kcoreD(12) [OF core1, of _ ?c] by auto
  from ready_waiting_ok [OF core2 d n r]
  obtain k3 where k3': "ready_waiting ws k2 = Some k3" "kcore {?c} k3" "keeps_timed k2 k3" "currp k3 = currp k2"
    "registry k3 = registry k2" "pend k3 = pend k2" "thr k3 ?c = thr k2 ?c" "queues k2 RList \<noteq> [] \<or> ws \<noteq> [] \<longrightarrow> queues k3 RList \<noteq> []"
    by blast
  have k2: "currp k2 = ?c" "registry k2 = registry ?k" "pend k2 = pend ?k" "queues k2 = queues ?k" by (simp_all add: k2_def)
  have ne': "queues ?k RList \<noteq> [] \<or> ws \<noteq> []" using ne by (simp add: ws_def)
  note k3 = k3'(1-3) k3'(4) [unfolded k2] k3'(5) [unfolded k2] k3'(6) [unfolded k2] k3'(7) k3'(8) [unfolded k2, rule_format, OF ne']
  define k4 where "k4 = (if and (p_flags (thr k3 ?c)) CH_FLAG_MODE_MASK = CH_FLAG_MODE_STATIC
    then k3\<lparr>registry := remove1 ?c (registry k3)\<rparr> else k3)"
  have k4: "currp k4 = ?c" "queues k4 = queues k3" "pend k4 = pend ?k" by (simp_all add: k4_def k3)
  have "kcore {?c} (set_p_state ?c CH_STATE_FINAL k3)"
    by (rule set_thr_core [OF k3(2)]) (use R k3 in \<open>auto simp: k2_def\<close>)
  then have "kcore {} (set_p_state ?c CH_STATE_FINAL k4)"
  proof -
    assume core: "kcore {?c} (set_p_state ?c CH_STATE_FINAL k3)"
    have "(set_p_state ?c CH_STATE_FINAL k3)\<lparr>registry := remove1 ?c (registry (set_p_state ?c CH_STATE_FINAL k3))\<rparr> =
        set_p_state ?c CH_STATE_FINAL (k3\<lparr>registry := remove1 ?c (registry k3)\<rparr>)"
      by (simp add: set_thr_def)
    moreover have "kcore ({?c} - {?c}) (set_p_state ?c CH_STATE_FINAL k3)"
      by (rule release_state_core [OF core]) (simp_all add: in_queue_state_def)
    ultimately show ?thesis using remove_hand_core [OF core] by (simp add: k4_def)
  qed
  then have b: "blocked CH_STATE_FINAL k4" by (simp add: blocked_def k4)
  have "keeps_timed ?k k2" by (rule keeps_timed_cong) (auto simp: k2_def)
  then have "keeps_timed ?k k3" using k3(3) keeps_timed_trans by blast
  have kt: "keeps_timed ?k (set_p_state (currp k4) CH_STATE_FINAL k4)"
    unfolding keeps_timed_def
  proof (intro allI impI)
    fix vt t assume w: "waits_on ?k vt t"
    then have "t \<noteq> ?c" using kinvD(4) [OF inv] by (auto simp: waits_on_def)
    moreover have "waits_on k3 vt t" using \<open>keeps_timed ?k k3\<close> w by (simp add: keeps_timed_def)
    ultimately show "waits_on (set_p_state (currp k4) CH_STATE_FINAL k4) vt t"
      unfolding waits_on_def kernel_set_simps k4(1,3) k3(6) by (simp add: k4_def)
  qed
  obtain k' where k': "chSchGoSleepS CH_STATE_FINAL k4 = Some k'" "sched_ok k'" "keeps_timed ?k k'"
    using go_sleep_blocked [OF b _ kt] k3(8) unfolding k4(2) by blast
  have "chThdExitS msg ?k = Some k'"
    using k3(1) k'(1) by (simp add: chThdExitS_def Let_def ws_def k2_def k4_def)
  then show ?thesis unfolding chThdExit_def by (rule lift_resume_ok) (use k' kinvD(3) [OF inv] in auto)
qed

lemma wait_ok:
  assumes inv: "kinv s" and ne: "queues (vtimers.more s) RList \<noteq> []" and tp: "tp \<noteq> currp (vtimers.more s)"
  shows "\<exists>s'. chThdWait tp s = Some s' \<and> kinv s'"
proof (cases "p_state (thr (vtimers.more s) tp) = CH_STATE_FINAL")
  case True
  let ?k = "vtimers.more s"
  let ?k1 = "return (p_u (thr ?k tp)) ?k"
  have "sched_ok ?k1" using kinvD(2) [OF inv] by simp
  note r = chThdRelease_ok [OF this, of tp]
  have "timers_ok (vtimers.more_update (\<lambda>k. chThdRelease tp (return (p_u (thr k tp)) k)) s)"
    by (rule timers_ok_update [OF kinvD(3) [OF inv]]) (rule keeps_timed_trans [OF keeps_timed_return r(2)])
  then have "kinv (vtimers.more_update (\<lambda>k. chThdRelease tp (return (p_u (thr k tp)) k)) s)"
    using r kinvD(4) [OF inv] by (simp add: kinv_def)
  then show ?thesis using True by (simp add: chThdWait_def)
next
  case False
  let ?k = "vtimers.more s"
  let ?kg = "set_thr tp (\<lambda>t. t\<lparr>p_waiting := currp ?k # p_waiting t\<rparr>) ?k"
  have "\<exists>k'. chSchGoSleepS CH_STATE_WTEXIT (set_pend (F_exitcode tp) ?kg) = Some k' \<and> sched_ok k' \<and> keeps_timed ?k k'"
    by (rule sleep_kernel [OF kinvD(1,4) [OF inv] ne]) (use blocked_wait [OF kinvD(1) [OF inv] tp] in auto)
  then obtain k' where k': "chSchGoSleepS CH_STATE_WTEXIT (set_pend (F_exitcode tp) ?kg) = Some k'" "sched_ok k'" "keeps_timed ?k k'"
    by blast
  have "\<exists>s'. map_option resume (lift (\<lambda>k. chSchGoSleepS CH_STATE_WTEXIT (set_pend (F_exitcode tp)
      (set_thr tp (\<lambda>t. t\<lparr>p_waiting := currp k # p_waiting t\<rparr>) k))) s) = Some s' \<and> kinv s'"
    by (rule lift_resume_ok [where k' = k']) (use k' kinvD(3) [OF inv] in auto)
  then show ?thesis using False by (simp add: chThdWait_def Let_def)
qed


lemma sleep_until_ok:
  assumes inv: "kinv s" and ne: "queues (vtimers.more s) RList \<noteq> []" and vt: "vt \<noteq> vtlist s" "\<not> chVTIsArmedI vt s"
  shows "\<exists>s'. chThdSleepUntil vt time s = Some s' \<and> kinv s'"
  using inv sleep_call_ok [OF inv ne vt, of "time - chVTGetSystemTimeX s"] by (auto simp: chThdSleepUntil_def Let_def word_gt_0)

lemma sleep_windowed_ok:
  assumes inv: "kinv s" and ne: "queues (vtimers.more s) RList \<noteq> []" and vt: "vt \<noteq> vtlist s" "\<not> chVTIsArmedI vt s"
  shows "\<exists>s'. chThdSleepUntilWindowed vt prev next s = Some s' \<and> kinv s'"
proof (cases "chVTIsTimeWithinX (chVTGetSystemTimeX s) prev next")
  case True
  then have t: "next - chVTGetSystemTimeX s \<noteq> 0"
    by (auto simp: chVTIsTimeWithinX_def)
  have "blocked CH_STATE_SLEEPING (vtimers.more s)"
    by (rule blocked_state [OF kinvD(1) [OF inv]]) (simp_all add: in_queue_state_def)
  then have "\<exists>s'. map_option resume (go_sleep_timeout (F_timeout_value vt next) (F_value next) vt CH_STATE_SLEEPING
      (next - chVTGetSystemTimeX s) (vtimers.more_update (\<lambda>k. k) s)) = Some s' \<and> kinv s'"
    by (intro sleep_timeout_resume [OF inv ne] vt t) (simp_all add: timed_state_def)
  then show ?thesis using True by (simp only: chThdSleepUntilWindowed_def Let_def more_update_id if_True)
next
  case False
  have "kinv (vtimers.more_update (return next) s)"
    using inv timers_ok_update [of s "return next"] by (simp add: kinv_def)
  then show ?thesis using False by (simp add: chThdSleepUntilWindowed_def Let_def)
qed

end
