(* ===== verification/Mutexes.thy ===== *)
theory Mutexes
  imports Kernel_Calls
begin

text \<open>
  The mutexes of \<^verbatim>\<open>os/rt/src/chmtx.c\<close>, not recursive in this configuration, with priority inheritance: a thread that waits for a
  mutex raises the priority of its owner, of the owner of the mutex that thread waits for, and so on.  The mutexes of a thread
  are linked through \<open>m_next\<close>; \<open>mtx_ok\<close> says that the lists and the owners agree.
\<close>

section \<open>Operations\<close>

definition set_m_owner :: "u32 \<Rightarrow> tid \<Rightarrow> kernel \<Rightarrow> kernel" where
  "set_m_owner mp tp k = k\<lparr>m_owner := (m_owner k)(mp := tp)\<rparr>"

definition set_m_next :: "u32 \<Rightarrow> u32 \<Rightarrow> kernel \<Rightarrow> kernel" where
  "set_m_next mp v k = k\<lparr>m_next := (m_next k)(mp := v)\<rparr>"

abbreviation set_p_prio :: "tid \<Rightarrow> u32 \<Rightarrow> kernel \<Rightarrow> kernel" where
  "set_p_prio tp pr \<equiv> set_thr tp (\<lambda>t. t\<lparr>p_prio := pr\<rparr>)"

abbreviation set_p_mtxlist :: "tid \<Rightarrow> u32 \<Rightarrow> kernel \<Rightarrow> kernel" where
  "set_p_mtxlist tp mp \<equiv> set_thr tp (\<lambda>t. t\<lparr>p_mtxlist := mp\<rparr>)"

definition chMtxObjectInit :: "u32 \<Rightarrow> kernel \<Rightarrow> kernel" where
  "chMtxObjectInit mp k = set_m_owner mp 0 (set_queue (Mtx mp) [] k)"

text \<open>\<^verbatim>\<open>mp->m_owner = tp; mp->m_next = tp->p_mtxlist; tp->p_mtxlist = mp\<close>\<close>

definition mtx_own :: "u32 \<Rightarrow> tid \<Rightarrow> kernel \<Rightarrow> kernel" where
  "mtx_own mp tp k = set_p_mtxlist tp mp (set_m_next mp (p_mtxlist (thr k tp)) (set_m_owner mp tp k))"

text \<open>\<^verbatim>\<open>queue_prio_insert(queue_dequeue(tp), q)\<close>\<close>

definition requeue :: "qid \<Rightarrow> tid \<Rightarrow> kernel \<Rightarrow> kernel" where
  "requeue q tp k = (let k = dequeue tp k in set_queue q (insert_prio (prio k) True tp (queues k q)) k)"

text \<open>The loop that raises the priorities of the owners, from \<open>tp\<close> on; each round raises one more thread to the priority of
  the running one.  A read through \<^verbatim>\<open>NULL\<close> does not come back.\<close>

function mtx_boost :: "tid \<Rightarrow> kernel \<Rightarrow> kernel option" where
  "mtx_boost tp k =
     (if tp = 0 then None
      else if prio k tp < prio k (currp k) then
        (let k = set_p_prio tp (prio k (currp k)) k
         in case p_state (thr k tp) of
              CH_STATE_WTMTX \<Rightarrow>
                (let k = requeue (Mtx (p_u (thr k tp))) tp k in mtx_boost (m_owner k (p_u (thr k tp))) k)
            | CH_STATE_WTCOND \<Rightarrow> Some (requeue (Cond (p_u (thr k tp))) tp k)
            | CH_STATE_READY \<Rightarrow> chSchReadyI tp (dequeue tp k)
            | _ \<Rightarrow> Some k)
      else Some k)"
  by pat_completeness auto
termination
proof (relation "measure (\<lambda>(tp, k). card {t. prio k t < prio k (currp k)})")
  fix tp k ka kb
  assume lt: "prio k tp < prio k (currp k)" and ka: "ka = set_p_prio tp (prio k (currp k)) k"
    and kb: "kb = requeue (Mtx (p_u (thr ka tp))) tp ka"
  have "{t. prio kb t < prio kb (currp kb)} \<subset> {t. prio k t < prio k (currp k)}" using lt by (auto simp: ka kb requeue_def dequeue_def Let_def set_thr_def set_queue_def)
  then show "((m_owner kb (p_u (thr kb tp)), kb), tp, k) \<in> measure (\<lambda>(tp, k). card {t. prio k t < prio k (currp k)})"
    by (simp add: psubset_card_mono)
qed simp

declare mtx_boost.simps [simp del]

text \<open>\<^verbatim>\<open>queue_prio_insert(ctp, &mp->m_queue); ctp->p_u.wtmtxp = mp\<close>\<close>

definition mtx_enqueue :: "u32 \<Rightarrow> kernel \<Rightarrow> kernel" where
  "mtx_enqueue mp k =
     (let ctp = currp k in set_p_u ctp mp (set_queue (Mtx mp) (insert_prio (prio k) True ctp (queues k (Mtx mp))) k))"

definition chMtxLockS :: "u32 \<Rightarrow> kernel \<Rightarrow> kernel option" where
  "chMtxLockS mp k =
     (if m_owner k mp \<noteq> 0 then do {
        k \<leftarrow> mtx_boost (m_owner k mp) k;
        chSchGoSleepS CH_STATE_WTMTX (mtx_enqueue mp k)
      }
      else Some (mtx_own mp (currp k) k))"

definition chMtxLock :: "u32 \<Rightarrow> sys \<Rightarrow> sys option" where
  "chMtxLock mp s = map_option resume (lift (chMtxLockS mp) s)"

definition chMtxTryLockS :: "u32 \<Rightarrow> kernel \<Rightarrow> kernel" where
  "chMtxTryLockS mp k =
     (if m_owner k mp \<noteq> 0 then return 0 k else return 1 (mtx_own mp (currp k) k))"

definition chMtxTryLock :: "u32 \<Rightarrow> sys \<Rightarrow> sys" where
  "chMtxTryLock mp s = vtimers.more_update (chMtxTryLockS mp) s"

text \<open>The scan of the list of owned mutexes for the priority of their first waiting threads.\<close>

partial_function (option) mtx_newprio :: "u32 \<Rightarrow> u32 \<Rightarrow> kernel \<Rightarrow> u32 option" where
  "mtx_newprio lmp newprio k =
     (if lmp \<noteq> 0 then
        mtx_newprio (m_next k lmp)
          (if queues k (Mtx lmp) \<noteq> [] \<and> prio k (hd (queues k (Mtx lmp))) > newprio then prio k (hd (queues k (Mtx lmp))) else newprio) k
      else Some newprio)"

text \<open>\<^verbatim>\<open>tp = queue_fifo_remove(&mp->m_queue)\<close>, which gets the mutex and is made ready.\<close>

definition mtx_hand_over :: "u32 \<Rightarrow> kernel \<Rightarrow> kernel option" where
  "mtx_hand_over mp k =
     (case queues k (Mtx mp) of
        [] \<Rightarrow> None
      | tp # ts \<Rightarrow> chSchReadyI tp (mtx_own mp tp (set_queue (Mtx mp) ts k)))"

definition chMtxUnlockS :: "u32 \<Rightarrow> kernel \<Rightarrow> kernel option" where
  "chMtxUnlockS mp k =
     (let ctp = currp k;
          k = set_p_mtxlist ctp (m_next k mp) k
      in if queues k (Mtx mp) \<noteq> [] then do {
           newprio \<leftarrow> mtx_newprio (p_mtxlist (thr k ctp)) (p_realprio (thr k ctp)) k;
           mtx_hand_over mp (set_p_prio ctp newprio k)
         }
         else Some (set_m_owner mp 0 k))"

text \<open>The code of \<^verbatim>\<open>chMtxUnlock\<close> is that of \<^verbatim>\<open>chMtxUnlockS\<close>, with \<^verbatim>\<open>chSchRescheduleS\<close> when a thread has got the mutex.\<close>

definition mtx_unlock :: "u32 \<Rightarrow> kernel \<Rightarrow> kernel option" where
  "mtx_unlock mp k =
     (if queues k (Mtx mp) \<noteq> [] then do { k \<leftarrow> chMtxUnlockS mp k; chSchRescheduleS k } else chMtxUnlockS mp k)"

definition chMtxUnlock :: "u32 \<Rightarrow> sys \<Rightarrow> sys option" where
  "chMtxUnlock mp s = map_option resume (lift (mtx_unlock mp) s)"

partial_function (option) mtx_unlock_loop :: "kernel \<Rightarrow> kernel option" where
  "mtx_unlock_loop k =
     (let ctp = currp k; mp = p_mtxlist (thr k ctp)
      in if mp \<noteq> 0 then
           (let k = set_p_mtxlist ctp (m_next k mp) k
            in Option.bind (if queues k (Mtx mp) \<noteq> [] then mtx_hand_over mp k else Some (set_m_owner mp 0 k)) mtx_unlock_loop)
         else Some k)"

definition mtx_unlock_all :: "kernel \<Rightarrow> kernel option" where
  "mtx_unlock_all k =
     (let ctp = currp k
      in if p_mtxlist (thr k ctp) \<noteq> 0 then do {
           k \<leftarrow> mtx_unlock_loop k;
           chSchRescheduleS (set_thr ctp (\<lambda>t. t\<lparr>p_prio := p_realprio t\<rparr>) k)
         }
         else Some k)"

definition chMtxUnlockAll :: "sys \<Rightarrow> sys option" where
  "chMtxUnlockAll s = map_option resume (lift mtx_unlock_all s)"

text \<open>The calls of the application, \<^verbatim>\<open>orchard/arduino-chibios.c\<close>.\<close>

definition mutexInit :: "u32 \<Rightarrow> kernel \<Rightarrow> kernel" where "mutexInit mp k = chMtxObjectInit mp k"
definition mutexLock :: "u32 \<Rightarrow> sys \<Rightarrow> sys option" where "mutexLock mp s = chMtxLock mp s"
definition mutexTryLock :: "u32 \<Rightarrow> sys \<Rightarrow> sys" where "mutexTryLock mp s = chMtxTryLock mp s"
definition mutexUnlock :: "u32 \<Rightarrow> sys \<Rightarrow> sys option" where "mutexUnlock mp s = chMtxUnlock mp s"

lemma requeue_simps [simp]:
  "thr (requeue q tp k) = thr k" "currp (requeue q tp k) = currp k" "registry (requeue q tp k) = registry k"
  "m_owner (requeue q tp k) = m_owner k" "m_next (requeue q tp k) = m_next k" "pend (requeue q tp k) = pend k"
  "s_cnt (requeue q tp k) = s_cnt k" "tref (requeue q tp k) = tref k" "ret (requeue q tp k) = ret k"
  "queues (requeue q tp k) = (\<lambda>q'. if q' = q then insert_prio (prio k) True tp (remove1 tp (queues k q)) else remove1 tp (queues k q'))"
  by (auto simp: requeue_def Let_def)

section \<open>Invariant\<close>

text \<open>The list of the mutexes of a thread, along \<open>m_next\<close>.\<close>

fun mtx_list :: "(u32 \<Rightarrow> u32) \<Rightarrow> u32 \<Rightarrow> u32 list \<Rightarrow> bool" where
  "mtx_list nxt p [] \<longleftrightarrow> p = 0"
| "mtx_list nxt p (m # ms) \<longleftrightarrow> p = m \<and> m \<noteq> 0 \<and> mtx_list nxt (nxt m) ms"

definition owns :: "kernel \<Rightarrow> tid \<Rightarrow> u32 list \<Rightarrow> bool" where
  "owns k t ms \<longleftrightarrow> mtx_list (m_next k) (p_mtxlist (thr k t)) ms \<and> distinct ms \<and> set ms = {m. m_owner k m = t}"

text \<open>Each thread has its mutexes in its list, an owner has not ended, and a mutex somebody waits for has one.\<close>

definition mtx_ok :: "kernel \<Rightarrow> bool" where
  "mtx_ok k \<longleftrightarrow> (\<forall>t \<in> set (registry k). p_realprio (thr k t) \<noteq> 0 \<and> (\<exists>ms. owns k t ms))
     \<and> (\<forall>m. m_owner k m \<noteq> 0 \<longrightarrow> m_owner k m \<in> set (registry k) \<and> p_state (thr k (m_owner k m)) \<noteq> CH_STATE_FINAL)
     \<and> (\<forall>m. queues k (Mtx m) \<noteq> [] \<longrightarrow> m_owner k m \<noteq> 0)"

lemma mtx_okD:
  assumes "mtx_ok k"
  shows "t \<in> set (registry k) \<Longrightarrow> p_realprio (thr k t) \<noteq> 0" "t \<in> set (registry k) \<Longrightarrow> \<exists>ms. owns k t ms"
    "m_owner k m \<noteq> 0 \<Longrightarrow> m_owner k m \<in> set (registry k)" "m_owner k m \<noteq> 0 \<Longrightarrow> p_state (thr k (m_owner k m)) \<noteq> CH_STATE_FINAL"
    "queues k (Mtx m) \<noteq> [] \<Longrightarrow> m_owner k m \<noteq> 0"
  using assms by (auto simp: mtx_ok_def)

lemma mtx_okI:
  assumes "\<And>t. t \<in> set (registry k) \<Longrightarrow> p_realprio (thr k t) \<noteq> 0" "\<And>t. t \<in> set (registry k) \<Longrightarrow> \<exists>ms. owns k t ms"
    "\<And>m. m_owner k m \<noteq> 0 \<Longrightarrow> m_owner k m \<in> set (registry k) \<and> p_state (thr k (m_owner k m)) \<noteq> CH_STATE_FINAL"
    "\<And>m. queues k (Mtx m) \<noteq> [] \<Longrightarrow> m_owner k m \<noteq> 0"
  shows "mtx_ok k"
  using assms by (simp add: mtx_ok_def)

lemma mtx_list_cong: "(\<And>m. m \<in> set ms \<Longrightarrow> f m = g m) \<Longrightarrow> mtx_list f p ms \<longleftrightarrow> mtx_list g p ms"
  by (induction ms arbitrary: p) auto

lemma mutex_set_simps [simp]:
  "thr (set_m_owner mp tp k) = thr k" "queues (set_m_owner mp tp k) = queues k" "currp (set_m_owner mp tp k) = currp k"
  "registry (set_m_owner mp tp k) = registry k" "s_cnt (set_m_owner mp tp k) = s_cnt k" "tref (set_m_owner mp tp k) = tref k"
  "pend (set_m_owner mp tp k) = pend k" "ret (set_m_owner mp tp k) = ret k" "m_owner (set_m_owner mp tp k) = (m_owner k)(mp := tp)"
  "m_next (set_m_owner mp tp k) = m_next k"
  "thr (set_m_next mp v k) = thr k" "queues (set_m_next mp v k) = queues k" "currp (set_m_next mp v k) = currp k"
  "registry (set_m_next mp v k) = registry k" "s_cnt (set_m_next mp v k) = s_cnt k" "tref (set_m_next mp v k) = tref k"
  "pend (set_m_next mp v k) = pend k" "ret (set_m_next mp v k) = ret k" "m_owner (set_m_next mp v k) = m_owner k"
  "m_next (set_m_next mp v k) = (m_next k)(mp := v)"
  by (simp_all add: set_m_owner_def set_m_next_def)

lemma mtx_own_simps [simp]:
  "queues (mtx_own mp tp k) = queues k" "currp (mtx_own mp tp k) = currp k" "registry (mtx_own mp tp k) = registry k"
  "s_cnt (mtx_own mp tp k) = s_cnt k" "tref (mtx_own mp tp k) = tref k" "pend (mtx_own mp tp k) = pend k"
  "m_owner (mtx_own mp tp k) = (m_owner k)(mp := tp)" "m_next (mtx_own mp tp k) = (m_next k)(mp := p_mtxlist (thr k tp))"
  "thr (mtx_own mp tp k) = (thr k)(tp := (thr k tp)\<lparr>p_mtxlist := mp\<rparr>)" "ret (mtx_own mp tp k) = ret k"
  by (simp_all add: mtx_own_def)

text \<open>Fields of the mutexes do not matter to the rest of the kernel.\<close>

lemma mtx_own_core:
  assumes "kcore X k"
  shows "kcore X (mtx_own mp tp k)"
proof -
  have "kcore X (set_m_next mp (p_mtxlist (thr k tp)) (set_m_owner mp tp k))" using assms by (subst kcore_cong [of _ k]) simp_all
  then show ?thesis unfolding mtx_own_def by (rule set_thr_irrelevant_core) simp_all
qed

lemma set_m_owner_core: "kcore X (set_m_owner mp tp k) \<longleftrightarrow> kcore X k"
  by (rule kcore_cong) simp_all

section \<open>Raising priorities\<close>

text \<open>The priorities of some threads go up to that of the running thread, and queues are reordered.\<close>

definition boosted :: "kernel \<Rightarrow> kernel \<Rightarrow> bool" where
  "boosted k k' \<longleftrightarrow> currp k' = currp k \<and> pend k' = pend k \<and> registry k' = registry k \<and> m_owner k' = m_owner k \<and> m_next k' = m_next k
     \<and> ret k' = ret k \<and> (\<forall>q. set (queues k' q) = set (queues k q)) \<and> (\<forall>t. thr k' t = (thr k t)\<lparr>p_prio := prio k' t\<rparr>)
     \<and> (\<forall>t. prio k t \<le> prio k' t) \<and> prio k' (currp k) = prio k (currp k)"

lemma boosted_refl: "boosted k k"
  by (simp add: boosted_def)

lemma boosted_trans:
  assumes 1: "boosted k k1" and 2: "boosted k1 k2"
  shows "boosted k k2"
proof -
  have t: "thr k1 t = (thr k t)\<lparr>p_prio := prio k1 t\<rparr>" "thr k2 t = (thr k1 t)\<lparr>p_prio := prio k2 t\<rparr>" for t
    using 1 2 by (simp_all only: boosted_def)
  have "thr k2 t = (thr k t)\<lparr>p_prio := prio k2 t\<rparr>" for t by (subst t(2), subst t(1)) simp
  moreover have "prio k t \<le> prio k2 t" for t using 1 2 order_trans unfolding boosted_def by blast
  ultimately show ?thesis using 1 2 unfolding boosted_def by simp
qed

lemma boostedD:
  assumes "boosted k k'"
  shows "currp k' = currp k" "pend k' = pend k" "registry k' = registry k" "m_owner k' = m_owner k" "m_next k' = m_next k"
    "set (queues k' q) = set (queues k q)" "queues k' q = [] \<longleftrightarrow> queues k q = []" "p_state (thr k' t) = p_state (thr k t)" "p_u (thr k' t) = p_u (thr k t)"
    "p_mtxlist (thr k' t) = p_mtxlist (thr k t)" "p_realprio (thr k' t) = p_realprio (thr k t)" "prio k t \<le> prio k' t"
    "prio k' (currp k) = prio k (currp k)" "p_waiting (thr k' t) = p_waiting (thr k t)"
proof -
  have t: "thr k' t = (thr k t)\<lparr>p_prio := prio k' t\<rparr>" for t using assms by (simp only: boosted_def)
  show "p_state (thr k' t) = p_state (thr k t)" "p_u (thr k' t) = p_u (thr k t)"
    "p_mtxlist (thr k' t) = p_mtxlist (thr k t)" "p_realprio (thr k' t) = p_realprio (thr k t)" "p_waiting (thr k' t) = p_waiting (thr k t)"
    by (subst t, simp)+
  have "set (queues k' q) = {} \<longleftrightarrow> set (queues k q) = {}" using assms by (simp add: boosted_def)
  then show "queues k' q = [] \<longleftrightarrow> queues k q = []" by simp
qed (use assms in \<open>simp_all add: boosted_def\<close>)

lemma mtx_ok_cong:
  assumes "registry k' = registry k" "m_owner k' = m_owner k" "m_next k' = m_next k" "\<And>m. queues k' (Mtx m) = [] \<longleftrightarrow> queues k (Mtx m) = []"
    "\<And>t. p_mtxlist (thr k' t) = p_mtxlist (thr k t)" "\<And>t. p_realprio (thr k' t) = p_realprio (thr k t)"
    "\<And>t. p_state (thr k' t) = CH_STATE_FINAL \<Longrightarrow> p_state (thr k t) = CH_STATE_FINAL"
  shows "mtx_ok k \<Longrightarrow> mtx_ok k'"
  using assms(7) unfolding mtx_ok_def owns_def assms(1-6) by blast

lemma boosted_mtx_ok: "boosted k k' \<Longrightarrow> mtx_ok k \<Longrightarrow> mtx_ok k'"
  using boostedD [of k k'] by (intro mtx_ok_cong [of k' k]) auto

lemma boosted_keeps_timed: "boosted k k' \<Longrightarrow> keeps_timed k k'"
  using boostedD [of k k'] by (intro keeps_timed_cong) auto

text \<open>A thread gets a new priority in the queue it is in.\<close>

lemma boosted_step:
  assumes lt: "prio k tp < prio k (currp k)" and k': "queues k' = queues k" and th: "thr k' = (thr k)(tp := (thr k tp)\<lparr>p_prio := prio k (currp k)\<rparr>)"
    and f: "currp k'' = currp k" "pend k'' = pend k" "registry k'' = registry k" "m_owner k'' = m_owner k" "m_next k'' = m_next k" "ret k'' = ret k"
    and q: "\<And>q. set (queues k'' q) = set (queues k q)" and t: "thr k'' = thr k'"
  shows "boosted k k''"
  using lt unfolding boosted_def f q t th by auto

lemma in_own_queue:
  assumes core: "kcore X k" and t: "tp \<in> set (registry k)" "tp \<notin> X"
  shows "p_state (thr k tp) = CH_STATE_WTMTX \<Longrightarrow> tp \<in> set (queues k (Mtx (p_u (thr k tp))))"
    "p_state (thr k tp) = CH_STATE_WTCOND \<Longrightarrow> tp \<in> set (queues k (Cond (p_u (thr k tp))))"
    "p_state (thr k tp) = CH_STATE_READY \<Longrightarrow> tp \<in> set (queues k RList)"
    "p_state (thr k tp) = CH_STATE_WTSEM \<Longrightarrow> tp \<in> set (queues k (Sem (p_u (thr k tp))))"
    "p_state (thr k tp) = CH_STATE_QUEUED \<Longrightarrow> \<exists>a. tp \<in> set (queues k (TQueue a))"
proof -
  have "\<exists>q. tp \<in> set (queues k q) \<and> ok_queue (thr k tp) q" if "in_queue_state (p_state (thr k tp))"
    using kcoreD(6) [OF core t that] kcoreD(5) [OF core] by blast
  note * = this [unfolded in_queue_state_def]
  show "p_state (thr k tp) = CH_STATE_WTMTX \<Longrightarrow> tp \<in> set (queues k (Mtx (p_u (thr k tp))))"
    "p_state (thr k tp) = CH_STATE_WTCOND \<Longrightarrow> tp \<in> set (queues k (Cond (p_u (thr k tp))))"
    "p_state (thr k tp) = CH_STATE_READY \<Longrightarrow> tp \<in> set (queues k RList)"
    "p_state (thr k tp) = CH_STATE_WTSEM \<Longrightarrow> tp \<in> set (queues k (Sem (p_u (thr k tp))))"
    "p_state (thr k tp) = CH_STATE_QUEUED \<Longrightarrow> \<exists>a. tp \<in> set (queues k (TQueue a))"
    using * by simp_all (metis ok_queue.simps qid.exhaust tstate.distinct)+
qed

lemma dequeue_set_thr: "dequeue tp (set_thr tp f k) = set_thr tp f (dequeue tp k)"
  by (simp add: dequeue_def set_thr_def)

lemma dequeue_core:
  assumes core: "kcore X k" and t: "tp \<in> set (registry k)" "tp \<notin> X"
    and st: "p_state (thr k tp) \<in> {CH_STATE_WTMTX, CH_STATE_WTCOND, CH_STATE_READY}"
  shows "kcore (insert tp X) (dequeue tp k)"
  by (rule grab_by_state [OF core t]) (use st in auto)

lemma requeue_core:
  assumes core: "kcore X k" and t: "tp \<in> set (registry k)" "tp \<notin> X" and q: "q = Mtx a \<or> q = Cond a" "tp \<in> set (queues k q)" and pr: "pr \<noteq> 0"
  shows "kcore X (requeue q tp (set_p_prio tp pr k))"
proof -
  let ?k1 = "set_p_prio tp pr (dequeue tp k)"
  have ok: "ok_queue (thr k tp) q" using kcoreD(5) [OF core q(2)] .
  have "kcore (insert tp X) (dequeue tp k)" by (rule dequeue_core [OF core t]) (use ok q(1) in auto)
  then have c1: "kcore (insert tp X) ?k1" by (rule set_thr_core) (use pr in simp_all)
  have "kcore (insert tp X - {tp}) (requeue q tp (set_p_prio tp pr k))"
  proof (rule release_queue_at_core [OF c1])
    show "ok_queue (thr ?k1 tp) q" using ok q(1) by auto
    show "queues (requeue q tp (set_p_prio tp pr k)) = (queues ?k1)(q := insert_prio (prio ?k1) True tp (remove1 tp (queues k q)))" by auto
    show "sems_ok (requeue q tp (set_p_prio tp pr k))" using kcoreD(8) [OF c1] q(1) unfolding sems_ok_def requeue_simps kernel_set_simps dequeue_simps by auto
  qed (use t q(1) kcoreD(1) [OF core, of q] in auto)
  then show ?thesis using t(2) by (simp add: insert_Diff_if)
qed

lemma remove1_other_queue:
  assumes core: "kcore X k" and q: "tp \<in> set (queues k q)" "q' \<noteq> q"
  shows "remove1 tp (queues k q') = queues k q'"
  using kcoreD(2) [OF core q(1)] q(2) by (metis remove1_idem)

lemma requeue_queues:
  assumes core: "kcore X k" and q: "tp \<in> set (queues k q)"
  shows "set (queues (requeue q tp (set_p_prio tp pr k)) q') = set (queues k q')"
  using remove1_other_queue [OF core q, of q'] kcoreD(1) [OF core, of q] q by auto

lemma boost_requeue:
  assumes run: "run_ok k" and t: "tp \<in> set (registry k)" and lt: "prio k tp < prio k (currp k)"
    and q: "q = Mtx a \<or> q = Cond a" "tp \<in> set (queues k q)"
  shows "run_ok (requeue q tp (set_p_prio tp (prio k (currp k)) k))" "boosted k (requeue q tp (set_p_prio tp (prio k (currp k)) k))"
proof -
  note R = run_okD [OF run]
  let ?k = "requeue q tp (set_p_prio tp (prio k (currp k)) k)"
  have n: "tp \<notin> {currp k}" using lt by auto
  show "boosted k ?k"
    by (rule boosted_step [OF lt, of "set_p_prio tp (prio k (currp k)) k"]) (use requeue_queues [OF R(1) q(2)] in auto)
  have "kcore {currp k} ?k" by (rule requeue_core [OF R(1) t n q R(4)])
  then show "run_ok ?k" using R n by (simp add: run_ok_def)
qed

lemma boost_ready:
  assumes run: "run_ok k" and t: "tp \<in> set (registry k)" and lt: "prio k tp < prio k (currp k)" and st: "p_state (thr k tp) = CH_STATE_READY"
  defines "k' \<equiv> make_ready True tp (set_p_prio tp (prio k (currp k)) (dequeue tp k))"
  shows "chSchReadyI tp (dequeue tp (set_p_prio tp (prio k (currp k)) k)) = Some k'" "run_ok k'" "boosted k k'"
proof -
  note R = run_okD [OF run]
  have n: "tp \<notin> {currp k}" using lt by auto
  have q: "tp \<in> set (queues k RList)" by (rule in_own_queue(3) [OF R(1) t n st])
  show "chSchReadyI tp (dequeue tp (set_p_prio tp (prio k (currp k)) k)) = Some k'"
    using R(4) by (simp add: run_ok_ready k'_def dequeue_set_thr)
  have "kcore (insert tp {currp k}) (dequeue tp k)" by (rule dequeue_core [OF R(1) t n]) (use st in auto)
  then have "kcore (insert tp {currp k}) (set_p_prio tp (prio k (currp k)) (dequeue tp k))" by (rule set_thr_core) (use R in simp_all)
  then have "kcore (insert tp {currp k} - {tp}) k'" unfolding k'_def by (rule make_ready_core) (use t in simp_all)
  moreover have "insert tp {currp k} - {tp} = {currp k}" using n by auto
  ultimately show "run_ok k'" using R n by (simp add: run_ok_def k'_def)
  have s: "set (queues k' q) = set (queues k q)" for q
    using remove1_other_queue [OF R(1) q] kcoreD(1) [OF R(1), of RList] q by (cases "q = RList") (auto simp: k'_def)
  have "thr k' = (thr k)(tp := (thr k tp)\<lparr>p_prio := prio k (currp k)\<rparr>)" using st by (auto simp: k'_def make_ready_def fun_eq_iff)
  then show "boosted k k'" by (intro boosted_step [OF lt, of "set_p_prio tp (prio k (currp k)) k"]) (use s in \<open>auto simp: k'_def\<close>)
qed

lemma boost_other:
  assumes run: "run_ok k" and t: "tp \<in> set (registry k)" and lt: "prio k tp < prio k (currp k)" and st: "p_state (thr k tp) \<noteq> CH_STATE_READY"
  shows "run_ok (set_p_prio tp (prio k (currp k)) k)" "boosted k (set_p_prio tp (prio k (currp k)) k)"
proof -
  note R = run_okD [OF run]
  let ?k = "set_p_prio tp (prio k (currp k)) k"
  have "tp \<notin> set (queues k RList)" using kcoreD(5) [OF R(1), of tp RList] st by auto
  then have "kcore {currp k} ?k" by (rule set_prio_core [OF R(1) _ R(4)])
  then show "run_ok ?k" using R by (auto simp: run_ok_def)
  show "boosted k ?k" by (rule boosted_step [OF lt, of ?k]) auto
qed

lemma mtx_boost_ok:
  assumes "run_ok k" "mtx_ok k" "tp \<in> set (registry k)"
  shows "\<exists>k'. mtx_boost tp k = Some k' \<and> run_ok k' \<and> boosted k k'"
  using assms
proof (induction tp k rule: mtx_boost.induct)
  case (1 tp k)
  note R = run_okD [OF "1.prems"(1)]
  have nz: "tp \<noteq> 0" using kcoreD(20) [OF R(1)] "1.prems"(3) by metis
  show ?case
  proof (cases "prio k tp < prio k (currp k)")
    case False
    then show ?thesis using "1.prems" nz by (auto simp: mtx_boost.simps [of tp k] boosted_refl)
  next
    case True
    let ?k = "set_p_prio tp (prio k (currp k)) k"
    have n: "tp \<notin> {currp k}" using True by auto
    note Q = in_own_queue [OF R(1) "1.prems"(3) n]
    consider (mtx) "p_state (thr k tp) = CH_STATE_WTMTX" | (cond) "p_state (thr k tp) = CH_STATE_WTCOND"
      | (ready) "p_state (thr k tp) = CH_STATE_READY"
      | (other) "p_state (thr k tp) \<notin> {CH_STATE_WTMTX, CH_STATE_WTCOND, CH_STATE_READY}" by auto
    then show ?thesis
    proof cases
      case mtx
      let ?k1 = "requeue (Mtx (p_u (thr k tp))) tp ?k"
      note B = boost_requeue [OF "1.prems"(1,3) True _ Q(1) [OF mtx], of "p_u (thr k tp)", simplified]
      have o: "m_owner k (p_u (thr k tp)) \<in> set (registry k)" using mtx_okD(3,5) [OF "1.prems"(2)] Q(1) [OF mtx] by (metis empty_iff empty_set)
      have "\<exists>k'. mtx_boost (m_owner k (p_u (thr k tp))) ?k1 = Some k' \<and> run_ok k' \<and> boosted ?k1 k'"
        using "1.IH" [OF nz True refl _ refl] mtx B(1) boosted_mtx_ok [OF B(2) "1.prems"(2)] o by simp
      then obtain k' where "mtx_boost (m_owner k (p_u (thr k tp))) ?k1 = Some k'" "run_ok k'" "boosted ?k1 k'" by blast
      then show ?thesis using nz True mtx boosted_trans [OF B(2)] by (simp add: mtx_boost.simps [of tp k] Let_def)
    next
      case cond
      note B = boost_requeue [OF "1.prems"(1,3) True _ Q(2) [OF cond], of "p_u (thr k tp)", simplified]
      show ?thesis using nz True cond B by (simp add: mtx_boost.simps [of tp k] Let_def)
    next
      case ready
      note B = boost_ready [OF "1.prems"(1,3) True ready]
      show ?thesis using nz True ready B by (simp add: mtx_boost.simps [of tp k] Let_def)
    next
      case other
      then have r: "p_state (thr k tp) \<noteq> CH_STATE_READY" by simp
      have "mtx_boost tp k = Some ?k" using nz True other by (simp add: mtx_boost.simps [of tp k] Let_def split: tstate.split)
      then show ?thesis using boost_other [OF "1.prems"(1,3) True r] by simp
    qed
  qed
qed

end
