(* ===== verification/Events.thy ===== *)
theory Events
  imports Kernel_Calls
begin

text \<open>
  Event flags, \<^verbatim>\<open>chevents.c\<close>: sources with a list of listeners, signals, and waits for one, any or all of a set of events, with
  and without a time-out.  The calls keep the invariant of the kernel; the list of a source is what \<^verbatim>\<open>chEvtRegister\<close> and
  \<^verbatim>\<open>chEvtUnregister\<close> make it, a broadcast goes through all of it, and \<^verbatim>\<open>chEvtDispatch\<close> calls the handlers in ascending order.
\<close>

section \<open>Sources and listeners\<close>

definition set_el :: "u32 \<Rightarrow> (listener \<Rightarrow> listener) \<Rightarrow> kernel \<Rightarrow> kernel" where
  "set_el elp f k = k\<lparr>el := (el k)(elp := f (el k elp))\<rparr>"

definition EVENT_MASK :: "nat \<Rightarrow> u32" where
  "EVENT_MASK eid = push_bit eid 1"

text \<open>A source is empty when it points to itself.\<close>

definition chEvtObjectInit :: "u32 \<Rightarrow> kernel \<Rightarrow> kernel" where
  "chEvtObjectInit esp = set_el esp (\<lambda>e. e\<lparr>el_next := esp\<rparr>)"

definition chEvtRegisterMaskWithFlags :: "u32 \<Rightarrow> u32 \<Rightarrow> u32 \<Rightarrow> u32 \<Rightarrow> kernel \<Rightarrow> kernel" where
  "chEvtRegisterMaskWithFlags esp elp events wflags k =
     (let k = set_el elp (\<lambda>e. e\<lparr>el_next := el_next (el k esp)\<rparr>) k;
          k = set_el esp (\<lambda>e. e\<lparr>el_next := elp\<rparr>) k
      in set_el elp (\<lambda>e. e\<lparr>el_listener := currp k, el_events := events, el_flags := 0, el_wflags := wflags\<rparr>) k)"

definition chEvtRegisterMask :: "u32 \<Rightarrow> u32 \<Rightarrow> u32 \<Rightarrow> kernel \<Rightarrow> kernel" where
  "chEvtRegisterMask esp elp events = chEvtRegisterMaskWithFlags esp elp events (- 1)"

definition chEvtRegister :: "u32 \<Rightarrow> u32 \<Rightarrow> nat \<Rightarrow> kernel \<Rightarrow> kernel" where
  "chEvtRegister esp elp event = chEvtRegisterMask esp elp (EVENT_MASK event)"

text \<open>The loop of \<open>chEvtUnregister\<close>, which does not end on a list that never comes back to its source.\<close>

partial_function (option) unregister_loop :: "u32 \<Rightarrow> u32 \<Rightarrow> u32 \<Rightarrow> kernel \<Rightarrow> kernel option" where
  [code]: "unregister_loop esp elp p k =
     (if el_next (el k p) \<noteq> esp then
        if el_next (el k p) = elp then Some (set_el p (\<lambda>e. e\<lparr>el_next := el_next (el k elp)\<rparr>) k)
        else unregister_loop esp elp (el_next (el k p)) k
      else Some k)"

definition chEvtUnregister :: "u32 \<Rightarrow> u32 \<Rightarrow> kernel \<Rightarrow> kernel option" where
  "chEvtUnregister esp elp k = unregister_loop esp elp esp k"

definition chEvtIsListeningI :: "u32 \<Rightarrow> kernel \<Rightarrow> bool" where
  "chEvtIsListeningI esp k \<longleftrightarrow> esp \<noteq> el_next (el k esp)"

definition chEvtGetAndClearFlagsI :: "u32 \<Rightarrow> kernel \<Rightarrow> kernel" where
  "chEvtGetAndClearFlagsI elp k = return (el_flags (el k elp)) (set_el elp (\<lambda>e. e\<lparr>el_flags := 0\<rparr>) k)"

definition chEvtGetAndClearFlags :: "u32 \<Rightarrow> kernel \<Rightarrow> kernel" where
  "chEvtGetAndClearFlags elp k = return (el_flags (el k elp)) (set_el elp (\<lambda>e. e\<lparr>el_flags := 0\<rparr>) k)"

section \<open>Signals\<close>

text \<open>\<^verbatim>\<open>tp->p_epending |= events\<close>\<close>

definition add_pending :: "tid \<Rightarrow> u32 \<Rightarrow> kernel \<Rightarrow> kernel" where
  "add_pending tp events = set_thr tp (\<lambda>t. t\<lparr>p_epending := or (p_epending t) events\<rparr>)"

definition chEvtGetAndClearEvents :: "u32 \<Rightarrow> kernel \<Rightarrow> kernel" where
  "chEvtGetAndClearEvents events k =
     return (and (p_epending (thr k (currp k))) events)
       (set_thr (currp k) (\<lambda>t. t\<lparr>p_epending := and (p_epending t) (not events)\<rparr>) k)"

definition chEvtAddEvents :: "u32 \<Rightarrow> kernel \<Rightarrow> kernel" where
  "chEvtAddEvents events k =
     (let k = add_pending (currp k) events k in return (p_epending (thr k (currp k))) k)"

definition chEvtSignalI :: "tid \<Rightarrow> u32 \<Rightarrow> kernel \<Rightarrow> kernel option" where
  "chEvtSignalI tp events k =
     (let k = add_pending tp events k
      in if evt_awaited (thr k tp) then chSchReadyI tp (set_p_u tp MSG_OK k) else Some k)"

definition chEvtSignal :: "tid \<Rightarrow> u32 \<Rightarrow> sys \<Rightarrow> sys option" where
  "chEvtSignal tp events s = map_option resume (lift (\<lambda>k. Option.bind (chEvtSignalI tp events k) chSchRescheduleS) s)"

text \<open>One listener of a broadcast: with no flags the thread is always signaled.\<close>

definition notify :: "u32 \<Rightarrow> u32 \<Rightarrow> kernel \<Rightarrow> kernel option" where
  "notify flags elp k =
     (let k = set_el elp (\<lambda>e. e\<lparr>el_flags := or (el_flags e) flags\<rparr>) k; e = el k elp
      in if flags = 0 \<or> and (el_flags e) (el_wflags e) \<noteq> 0 then chEvtSignalI (el_listener e) (el_events e) k else Some k)"

partial_function (option) broadcast_loop :: "u32 \<Rightarrow> u32 \<Rightarrow> u32 \<Rightarrow> kernel \<Rightarrow> kernel option" where
  [code]: "broadcast_loop esp flags elp k =
     (if elp \<noteq> esp then do {
        k \<leftarrow> notify flags elp k;
        broadcast_loop esp flags (el_next (el k elp)) k
      }
      else Some k)"

definition chEvtBroadcastFlagsI :: "u32 \<Rightarrow> u32 \<Rightarrow> kernel \<Rightarrow> kernel option" where
  "chEvtBroadcastFlagsI esp flags k = broadcast_loop esp flags (el_next (el k esp)) k"

definition chEvtBroadcastFlags :: "u32 \<Rightarrow> u32 \<Rightarrow> sys \<Rightarrow> sys option" where
  "chEvtBroadcastFlags esp flags s =
     map_option resume (lift (\<lambda>k. Option.bind (chEvtBroadcastFlagsI esp flags k) chSchRescheduleS) s)"

definition chEvtBroadcastI :: "u32 \<Rightarrow> kernel \<Rightarrow> kernel option" where
  "chEvtBroadcastI esp = chEvtBroadcastFlagsI esp 0"

definition chEvtBroadcast :: "u32 \<Rightarrow> sys \<Rightarrow> sys option" where
  "chEvtBroadcast esp = chEvtBroadcastFlags esp 0"

section \<open>Dispatching\<close>

text \<open>The handlers work on a state of their own; handler \<open>eid\<close> may not return.\<close>

partial_function (option) dispatch_loop :: "(nat \<Rightarrow> 's \<Rightarrow> 's option) \<Rightarrow> nat \<Rightarrow> u32 \<Rightarrow> 's \<Rightarrow> 's option" where
  [code]: "dispatch_loop handlers eid events st =
     (if events \<noteq> 0 then
        if and events (EVENT_MASK eid) \<noteq> 0 then do {
          st \<leftarrow> handlers eid st;
          dispatch_loop handlers (eid + 1) (and events (not (EVENT_MASK eid))) st
        }
        else dispatch_loop handlers (eid + 1) events st
      else Some st)"

definition chEvtDispatch :: "(nat \<Rightarrow> 's \<Rightarrow> 's option) \<Rightarrow> u32 \<Rightarrow> 's \<Rightarrow> 's option" where
  "chEvtDispatch handlers events st = dispatch_loop handlers 0 events st"

section \<open>Waits\<close>

definition chEvtWaitOne :: "u32 \<Rightarrow> sys \<Rightarrow> sys option" where
  "chEvtWaitOne events s = map_option resume (lift (\<lambda>k.
     let m = and (p_epending (thr k (currp k))) events
     in if m = 0 then chSchGoSleepS CH_STATE_WTOREVT (set_pend (F_evt Evt_one events) (set_p_u (currp k) events k))
        else Some (evt_take Evt_one events k)) s)"

definition chEvtWaitAny :: "u32 \<Rightarrow> sys \<Rightarrow> sys option" where
  "chEvtWaitAny events s = map_option resume (lift (\<lambda>k.
     let m = and (p_epending (thr k (currp k))) events
     in if m = 0 then chSchGoSleepS CH_STATE_WTOREVT (set_pend (F_evt Evt_any events) (set_p_u (currp k) events k))
        else Some (evt_take Evt_any events k)) s)"

definition chEvtWaitAll :: "u32 \<Rightarrow> sys \<Rightarrow> sys option" where
  "chEvtWaitAll events s = map_option resume (lift (\<lambda>k.
     if and (p_epending (thr k (currp k))) events \<noteq> events
     then chSchGoSleepS CH_STATE_WTANDEVT (set_pend (F_evt Evt_all events) (set_p_u (currp k) events k))
     else Some (evt_take Evt_all events k)) s)"

text \<open>With a time-out: the timer is at \<open>vt\<close> on the stack of the caller.\<close>

definition chEvtWaitOneTimeout :: "tid \<Rightarrow> u32 \<Rightarrow> u32 \<Rightarrow> sys \<Rightarrow> sys option" where
  "chEvtWaitOneTimeout vt events time s = map_option resume
     (let k = vtimers.more s; m = and (p_epending (thr k (currp k))) events
      in if m = 0 then
           if TIME_IMMEDIATE = time then Some (vtimers.more_update (return 0) s)
           else go_sleep_timeout (F_evt_timeout vt Evt_one events) (F_evt_msg Evt_one events) vt CH_STATE_WTOREVT time
                  (vtimers.more_update (\<lambda>k. set_p_u (currp k) events k) s)
         else Some (vtimers.more_update (evt_take Evt_one events) s))"

definition chEvtWaitAnyTimeout :: "tid \<Rightarrow> u32 \<Rightarrow> u32 \<Rightarrow> sys \<Rightarrow> sys option" where
  "chEvtWaitAnyTimeout vt events time s = map_option resume
     (let k = vtimers.more s; m = and (p_epending (thr k (currp k))) events
      in if m = 0 then
           if TIME_IMMEDIATE = time then Some (vtimers.more_update (return 0) s)
           else go_sleep_timeout (F_evt_timeout vt Evt_any events) (F_evt_msg Evt_any events) vt CH_STATE_WTOREVT time
                  (vtimers.more_update (\<lambda>k. set_p_u (currp k) events k) s)
         else Some (vtimers.more_update (evt_take Evt_any events) s))"

definition chEvtWaitAllTimeout :: "tid \<Rightarrow> u32 \<Rightarrow> u32 \<Rightarrow> sys \<Rightarrow> sys option" where
  "chEvtWaitAllTimeout vt events time s = map_option resume
     (let k = vtimers.more s
      in if and (p_epending (thr k (currp k))) events \<noteq> events then
           if TIME_IMMEDIATE = time then Some (vtimers.more_update (return 0) s)
           else go_sleep_timeout (F_evt_timeout vt Evt_all events) (F_evt_msg Evt_all events) vt CH_STATE_WTANDEVT time
                  (vtimers.more_update (\<lambda>k. set_p_u (currp k) events k) s)
         else Some (vtimers.more_update (evt_take Evt_all events) s))"

section \<open>The waits in one form\<close>

definition evt_wait_state :: "evt_mode \<Rightarrow> tstate" where
  "evt_wait_state md = (if md = Evt_all then CH_STATE_WTANDEVT else CH_STATE_WTOREVT)"

definition evt_there :: "evt_mode \<Rightarrow> u32 \<Rightarrow> u32 \<Rightarrow> bool" where
  "evt_there md events pending \<longleftrightarrow> (if md = Evt_all then and pending events = events else and pending events \<noteq> 0)"

definition evt_wait :: "evt_mode \<Rightarrow> u32 \<Rightarrow> kernel \<Rightarrow> kernel option" where
  "evt_wait md events k =
     (if evt_there md events (p_epending (thr k (currp k))) then Some (evt_take md events k)
      else chSchGoSleepS (evt_wait_state md) (set_pend (F_evt md events) (set_p_u (currp k) events k)))"

definition evt_wait_timeout :: "evt_mode \<Rightarrow> tid \<Rightarrow> u32 \<Rightarrow> u32 \<Rightarrow> sys \<Rightarrow> sys option" where
  "evt_wait_timeout md vt events time s =
     (let k = vtimers.more s
      in if evt_there md events (p_epending (thr k (currp k))) then Some (vtimers.more_update (evt_take md events) s)
         else if time = TIME_IMMEDIATE then Some (vtimers.more_update (return 0) s)
         else go_sleep_timeout (F_evt_timeout vt md events) (F_evt_msg md events) vt (evt_wait_state md) time
                (vtimers.more_update (\<lambda>k. set_p_u (currp k) events k) s))"

lemma chEvtWait_eq:
  "chEvtWaitOne events s = map_option resume (lift (evt_wait Evt_one events) s)"
  "chEvtWaitAny events s = map_option resume (lift (evt_wait Evt_any events) s)"
  "chEvtWaitAll events s = map_option resume (lift (evt_wait Evt_all events) s)"
  by (simp_all add: chEvtWaitOne_def chEvtWaitAny_def chEvtWaitAll_def evt_wait_def evt_there_def evt_wait_state_def lift_def Let_def)

lemma chEvtWaitTimeout_eq:
  "chEvtWaitOneTimeout vt events time s = map_option resume (evt_wait_timeout Evt_one vt events time s)"
  "chEvtWaitAnyTimeout vt events time s = map_option resume (evt_wait_timeout Evt_any vt events time s)"
  "chEvtWaitAllTimeout vt events time s = map_option resume (evt_wait_timeout Evt_all vt events time s)"
  by (auto simp: chEvtWaitOneTimeout_def chEvtWaitAnyTimeout_def chEvtWaitAllTimeout_def evt_wait_timeout_def evt_there_def
      evt_wait_state_def Let_def)

lemma evt_wait_state_simps [simp]: "evt_wait_state md \<noteq> CH_STATE_FINAL" "evt_state (evt_wait_state md)"
  by (simp_all add: evt_wait_state_def)

section \<open>The invariant of the kernel\<close>

lemma run_ok_set_thr:
  assumes run: "run_ok k" and f: "\<And>t. p_state (f t) = p_state t" "\<And>t. p_prio (f t) = p_prio t" "\<And>t. p_waiting (f t) = p_waiting t"
    and u: "tp = currp k \<or> (\<forall>t. p_u (f t) = p_u t \<and> p_epending (f t) = p_epending t)"
  shows "run_ok (set_thr tp f k)"
proof -
  note R = run_okD [OF run]
  have "kcore {currp k} (set_thr tp f k)"
  proof (cases "tp = currp k")
    case True then show ?thesis by (intro set_thr_core [OF R(1)]) (use R f in simp_all)
  next
    case False then show ?thesis using u by (intro set_thr_irrelevant_core [OF R(1)] f) simp_all
  qed
  then show ?thesis using R f by (auto simp: run_ok_def)
qed

lemma blocked_evt:
  assumes run: "run_ok k" and n: "\<not> evt_there md events (p_epending (thr k (currp k)))"
  shows "blocked (evt_wait_state md) (set_p_u (currp k) events k)"
proof -
  have "run_ok (set_p_u (currp k) events k)" by (rule run_ok_set_thr [OF run]) simp_all
  then show ?thesis using blocked_state [of "set_p_u (currp k) events k" "evt_wait_state md"] n
    by (auto simp: evt_wait_state_def evt_there_def evt_awaited_def in_queue_state_def split: if_splits)
qed

lemma evt_wait_ok:
  assumes inv: "kinv s" and ne: "queues (vtimers.more s) RList \<noteq> [] \<or> evt_there md events (p_epending (thr (vtimers.more s) (currp (vtimers.more s))))"
  shows "\<exists>s'. map_option resume (lift (evt_wait md events) s) = Some s' \<and> kinv s'"
proof (cases "evt_there md events (p_epending (thr (vtimers.more s) (currp (vtimers.more s))))")
  case True
  then show ?thesis using evt_take_ok [OF kinvD(2) [OF inv]] kinvD(3) [OF inv]
    by (intro lift_resume_ok [of _ s "evt_take md events (vtimers.more s)"]) (simp_all add: evt_wait_def)
next
  case False
  let ?g = "\<lambda>k. set_p_u (currp k) events k"
  have "\<exists>s'. map_option resume (lift (\<lambda>k. chSchGoSleepS (evt_wait_state md) (set_pend (F_evt md events) (?g k))) s) = Some s' \<and> kinv s'"
    by (rule sleep_ok [OF inv]) (use blocked_evt [OF kinvD(1) [OF inv]] ne False in auto)
  then show ?thesis using False by (simp add: evt_wait_def lift_def)
qed

lemma evt_wait_timeout_ok:
  assumes inv: "kinv s" and ne: "queues (vtimers.more s) RList \<noteq> [] \<or> time = TIME_IMMEDIATE
      \<or> evt_there md events (p_epending (thr (vtimers.more s) (currp (vtimers.more s))))"
    and vt: "vt \<noteq> vtlist s" "\<not> chVTIsArmedI vt s"
  shows "\<exists>s'. map_option resume (evt_wait_timeout md vt events time s) = Some s' \<and> kinv s'"
proof -
  let ?th = "evt_there md events (p_epending (thr (vtimers.more s) (currp (vtimers.more s))))"
  let ?g = "\<lambda>k. set_p_u (currp k) events k"
  consider (there) ?th | (now) "\<not> ?th" "time = TIME_IMMEDIATE" | (sleep) "\<not> ?th" "time \<noteq> TIME_IMMEDIATE" by blast
  then show ?thesis
  proof cases
    case there
    have "kinv (resume (vtimers.more_update (evt_take md events) s))"
      by (rule resume_ok) (use evt_take_ok [OF kinvD(2) [OF inv]] timers_ok_update [OF kinvD(3) [OF inv]] in auto)
    then show ?thesis using there by (simp add: evt_wait_timeout_def Let_def)
  next
    case now
    have "kinv (resume (vtimers.more_update (return 0) s))"
      by (rule resume_ok) (use kinvD [OF inv] in \<open>auto intro: timers_ok_update\<close>)
    then show ?thesis using now by (simp add: evt_wait_timeout_def Let_def)
  next
    case sleep
    have "\<exists>s'. map_option resume (go_sleep_timeout (F_evt_timeout vt md events) (F_evt_msg md events) vt (evt_wait_state md) time
        (vtimers.more_update ?g s)) = Some s' \<and> kinv s'"
      by (intro sleep_timeout_resume [OF inv])
        (use vt ne sleep blocked_evt [OF kinvD(1) [OF inv]] in \<open>auto simp: timed_state_def evt_wait_state_def TIME_IMMEDIATE_def\<close>)
    then show ?thesis using sleep by (simp add: evt_wait_timeout_def Let_def)
  qed
qed

lemma add_pending_simps [simp]:
  "currp (add_pending tp events k) = currp k" "pend (add_pending tp events k) = pend k" "registry (add_pending tp events k) = registry k"
  "queues (add_pending tp events k) = queues k" "el (add_pending tp events k) = el k"
  "p_state (thr (add_pending tp events k) t) = p_state (thr k t)" "p_u (thr (add_pending tp events k) t) = p_u (thr k t)"
  "prio (add_pending tp events k) t = prio k t"
  "p_epending (thr (add_pending tp events k) t) = (if t = tp then or (p_epending (thr k t)) events else p_epending (thr k t))"
  by (simp_all add: add_pending_def)

text \<open>A signal either leaves the thread waiting, or finds it waiting for what it now has.\<close>

lemma add_pending_core:
  assumes core: "kcore X k" and n: "tp \<in> X \<or> \<not> evt_awaited (thr (add_pending tp events k) tp)"
  shows "kcore X (add_pending tp events k)" (is "kcore X ?k")
proof -
  note D = kcoreD [OF core]
  have e: "p_waiting (thr ?k t) = p_waiting (thr k t)" for t by (simp add: add_pending_def)
  have o: "ok_queue (thr ?k t) q = ok_queue (thr k t) q" for t q by (cases q) (simp_all only: ok_queue.simps add_pending_simps)
  have f: "s_cnt ?k = s_cnt k" "tref ?k = tref k" by (simp_all add: add_pending_def)
  have a: "\<not> evt_awaited (thr ?k t)" if "t \<notin> X" "evt_state (p_state (thr k t))" for t
  proof (cases "t = tp")
    case True then show ?thesis using n that by simp
  next
    case False then show ?thesis using D(24) [OF that] by (subst evt_awaited_cong [of _ "thr k t"]) simp_all
  qed
  then have "events_ok X ?k" using D(23) by (simp add: events_ok_def)
  then show ?thesis using core
    unfolding kcore_def queues_ok_def waiting_ok_def registry_ok_def ready_sorted_def sems_ok_def e o f add_pending_simps by simp
qed

lemma SignalI_ok:
  assumes run: "run_ok k"
  obtains k' where "chEvtSignalI tp events k = Some k'" "stays k k'"
proof (cases "evt_awaited (thr (add_pending tp events k) tp)")
  case False
  note R = run_okD [OF run]
  have "kcore {currp k} (add_pending tp events k)" by (rule add_pending_core [OF R(1)]) (use False in simp)
  moreover have "keeps_timed k (add_pending tp events k)" by (rule keeps_timed_cong) simp_all
  ultimately have "stays k (add_pending tp events k)" using R by (simp add: stays_def run_ok_def)
  then show ?thesis using False by (intro that [of "add_pending tp events k"]) (simp_all add: chEvtSignalI_def)
next
  case True
  let ?k = "add_pending tp events k" and ?k' = "make_ready True tp (set_p_u tp MSG_OK (add_pending tp events k))"
  note R = run_okD [OF run]
  have st: "p_state (thr k tp) = CH_STATE_WTOREVT \<or> p_state (thr k tp) = CH_STATE_WTANDEVT" using True by (auto simp: evt_awaited_def)
  then have c: "tp \<noteq> currp k" using R(3) by auto
  have t: "tp \<in> set (registry k)" using kcoreD(23) [OF R(1), of tp] st c by auto
  have "queues k = (\<lambda>q. remove1 tp (queues k q))"
    by (rule remove1_not_queued [OF R(1)]) (use st in \<open>auto simp: in_queue_state_def\<close>)
  then have "kcore {tp, currp k} k" by (intro grab_by_state [OF R(1) t]) (use st c in auto)
  then have "kcore {tp, currp k} ?k" by (rule add_pending_core) simp
  then have "kcore {tp, currp k} (set_p_u tp MSG_OK ?k)" by (rule set_thr_core) (use kcoreD(21) [OF R(1) t] in auto)
  then have "kcore ({tp, currp k} - {tp}) ?k'" by (rule make_ready_core) (use t in auto)
  moreover have "{tp, currp k} - {tp} = {currp k}" using c by auto
  moreover have "keeps_timed k ?k'" by (rule keeps_timed_trans [OF keeps_timed_cong keeps_timed_make_ready]) auto
  ultimately have "stays k ?k'" using R c by (simp add: stays_def run_ok_def)
  then show ?thesis using True kcoreD(21) [OF R(1) t] by (intro that [of ?k']) (simp_all add: chEvtSignalI_def run_ok_ready Let_def)
qed

lemma SignalI_effect:
  assumes "chEvtSignalI tp events k = Some k'"
  shows "t \<noteq> tp \<Longrightarrow> thr k' t = thr k t" "registry k' = registry k" "el k' = el k" "pend k' = pend k"
    "p_epending (thr k' tp) = or (p_epending (thr k tp)) events"
    "p_state (thr k' tp) = (if evt_awaited ((thr k tp)\<lparr>p_epending := or (p_epending (thr k tp)) events\<rparr>) then CH_STATE_READY else p_state (thr k tp))"
  using assms by (auto simp: chEvtSignalI_def run_ok_ready make_ready_def add_pending_def Let_def split: if_splits)

lemma set_el_simps [simp]:
  "currp (set_el elp f k) = currp k" "pend (set_el elp f k) = pend k" "registry (set_el elp f k) = registry k"
  "queues (set_el elp f k) = queues k" "thr (set_el elp f k) = thr k" "tref (set_el elp f k) = tref k" "s_cnt (set_el elp f k) = s_cnt k"
  "m_owner (set_el elp f k) = m_owner k" "m_next (set_el elp f k) = m_next k" "ret (set_el elp f k) = ret k"
  "heap_freed (set_el elp f k) = heap_freed k" "el (set_el elp f k) = (el k)(elp := f (el k elp))"
  by (simp_all add: set_el_def)

text \<open>What only changes listeners, as the registration does.\<close>

lemma stays_cong:
  assumes "run_ok k" "thr k' = thr k" "queues k' = queues k" "registry k' = registry k" "tref k' = tref k" "s_cnt k' = s_cnt k"
    "currp k' = currp k" "pend k' = pend k"
  shows "stays k k'"
proof -
  have "kcore {currp k} k' = kcore {currp k} k" by (rule kcore_cong) (use assms in simp_all)
  moreover have "keeps_timed k k'" by (rule keeps_timed_cong) (use assms in simp_all)
  ultimately show ?thesis using assms by (simp add: stays_def run_ok_def)
qed

lemma notify_ok:
  assumes "run_ok k"
  obtains k' where "notify flags elp k = Some k'" "stays k k'"
    "\<And>p. el_next (el k' p) = el_next (el k p)"
proof -
  let ?k = "set_el elp (\<lambda>e. e\<lparr>el_flags := or (el_flags e) flags\<rparr>) k" and ?e = "el k elp"
  have s: "stays k ?k" by (rule stays_cong) (use assms in simp_all)
  show ?thesis
  proof (cases "flags = 0 \<or> and (or (el_flags ?e) flags) (el_wflags ?e) \<noteq> 0")
    case True
    obtain k' where k': "chEvtSignalI (el_listener ?e) (el_events ?e) ?k = Some k'" "stays ?k k'"
      using SignalI_ok [of ?k] s by (auto simp: stays_def)
    show ?thesis
      by (rule that [of k']) (use True k' s SignalI_effect(3) [OF k'(1)] in
          \<open>auto simp: notify_def Let_def intro: stays_trans\<close>)
  next
    case False
    then show ?thesis using s by (intro that [of ?k]) (auto simp: notify_def Let_def)
  qed
qed

lemma broadcast_loop_stays:
  assumes "broadcast_loop esp flags elp k = Some k'"
  shows "run_ok k \<longrightarrow> stays k k'"
proof (rule broadcast_loop.raw_induct [OF _ assms])
  fix f esp flags elp k k'
  assume IH: "\<And>esp flags elp k k'. f esp flags elp k = Some k' \<Longrightarrow> run_ok k \<longrightarrow> stays k k'"
    and s: "(if elp \<noteq> esp then Option.bind (notify flags elp k) (\<lambda>k. f esp flags (el_next (el k elp)) k) else Some k) = Some k'"
  show "run_ok k \<longrightarrow> stays k k'"
  proof
    assume r: "run_ok k"
    obtain k1 where k1: "notify flags elp k = Some k1" "stays k k1" by (rule notify_ok [OF r]) blast
    show "stays k k'"
    proof (cases "elp = esp")
      case True then show ?thesis using s r stays_refl by simp
    next
      case False
      then have "f esp flags (el_next (el k1 elp)) k1 = Some k'" using s k1(1) by simp
      then show ?thesis using IH k1 stays_trans by (metis stays_def)
    qed
  qed
qed

section \<open>The list of a source\<close>

text \<open>\<open>els\<close> are the listeners of the source at \<open>esp\<close>, the last one registered first.\<close>

fun el_chain :: "(u32 \<Rightarrow> listener) \<Rightarrow> u32 \<Rightarrow> u32 list \<Rightarrow> u32 \<Rightarrow> bool" where
  "el_chain e p [] esp \<longleftrightarrow> el_next (e p) = esp"
| "el_chain e p (q # qs) esp \<longleftrightarrow> el_next (e p) = q \<and> el_chain e q qs esp"

definition es_rep :: "kernel \<Rightarrow> u32 \<Rightarrow> u32 list \<Rightarrow> bool" where
  "es_rep k esp els \<longleftrightarrow> el_chain (el k) esp els esp \<and> distinct (esp # els)"

lemma el_chain_cong: "(\<And>p. p \<in> set (q # qs) \<Longrightarrow> el_next (e' p) = el_next (e p)) \<Longrightarrow> el_chain e' q qs esp = el_chain e q qs esp"
  by (induction qs arbitrary: q) auto

lemma es_rep_init: "es_rep (chEvtObjectInit esp k) esp []"
  by (simp add: es_rep_def chEvtObjectInit_def)

lemma es_rep_register:
  assumes "es_rep k esp els" "elp \<notin> set (esp # els)"
  shows "es_rep (chEvtRegisterMaskWithFlags esp elp events wflags k) esp (elp # els)"
proof -
  let ?e = "el (chEvtRegisterMaskWithFlags esp elp events wflags k)"
  have n: "el_next (?e p) = (if p = esp then elp else if p = elp then el_next (el k esp) else el_next (el k p))" for p
    using assms by (auto simp: chEvtRegisterMaskWithFlags_def Let_def)
  have "el_chain ?e elp els esp"
  proof (cases els)
    case Nil then show ?thesis using assms n by (auto simp: es_rep_def)
  next
    case (Cons q qs)
    then have "el_chain ?e q qs esp = el_chain (el k) q qs esp" by (intro el_chain_cong) (use assms n in \<open>auto simp: es_rep_def\<close>)
    then show ?thesis using assms n Cons by (auto simp: es_rep_def)
  qed
  then show ?thesis using assms n by (auto simp: es_rep_def)
qed

text \<open>Other sources keep their lists.\<close>

lemma es_rep_register_other:
  assumes "es_rep k esp' els'" "esp \<notin> set (esp' # els')" "elp \<notin> set (esp' # els')"
  shows "es_rep (chEvtRegisterMaskWithFlags esp elp events wflags k) esp' els'"
proof -
  have "el_chain (el (chEvtRegisterMaskWithFlags esp elp events wflags k)) esp' els' esp' = el_chain (el k) esp' els' esp'"
    by (rule el_chain_cong) (use assms in \<open>auto simp: chEvtRegisterMaskWithFlags_def Let_def\<close>)
  then show ?thesis using assms(1) by (simp add: es_rep_def)
qed

lemma unregister_loop_chain:
  assumes "el_chain (el k) p els esp" "distinct (p # els)" "esp \<notin> set els" "elp \<noteq> esp"
  shows "\<exists>k'. unregister_loop esp elp p k = Some k' \<and> el_chain (el k') p (remove1 elp els) esp \<and> (elp \<notin> set els \<longrightarrow> k' = k)
    \<and> (\<forall>q. q \<notin> set (p # els) \<longrightarrow> el k' q = el k q)"
  using assms
proof (induction els arbitrary: p)
  case Nil then show ?case by (subst unregister_loop.simps) simp
next
  case (Cons q els)
  have n: "el_next (el k p) = q" "q \<noteq> esp" using Cons.prems by auto
  show ?case
  proof (cases "q = elp")
    case True
    let ?k' = "set_el p (\<lambda>e. e\<lparr>el_next := el_next (el k elp)\<rparr>) k"
    have "el_chain (el ?k') p els esp"
    proof (cases els)
      case Nil then show ?thesis using Cons.prems True by simp
    next
      case (Cons r rs)
      have "el_chain (el ?k') r rs esp = el_chain (el k) r rs esp" by (rule el_chain_cong) (use Cons.prems Cons in auto)
      then show ?thesis using Cons.prems True Cons by simp
    qed
    then show ?thesis using n True by (subst unregister_loop.simps) simp
  next
    case False
    obtain k' where k': "unregister_loop esp elp q k = Some k'" "el_chain (el k') q (remove1 elp els) esp" "elp \<notin> set els \<longrightarrow> k' = k"
      "\<forall>r. r \<notin> set (q # els) \<longrightarrow> el k' r = el k r"
      using Cons.IH [of q] Cons.prems by auto
    then have "el_next (el k' p) = q" using Cons.prems n by auto
    then show ?thesis using n False k' by (subst unregister_loop.simps) auto
  qed
qed

lemma es_rep_unregister:
  assumes "es_rep k esp els" "elp \<noteq> esp"
  obtains k' where "chEvtUnregister esp elp k = Some k'" "es_rep k' esp (remove1 elp els)"
    "elp \<notin> set els \<Longrightarrow> k' = k"
proof -
  have "el_chain (el k) esp els esp" "distinct (esp # els)" "esp \<notin> set els" using assms(1) by (auto simp: es_rep_def)
  from unregister_loop_chain [OF this assms(2)]
  obtain k' where k': "unregister_loop esp elp esp k = Some k'" "el_chain (el k') esp (remove1 elp els) esp" "elp \<notin> set els \<longrightarrow> k' = k"
    by blast
  then show ?thesis using assms notin_set_remove1 [of esp els elp] by (intro that [of k']) (auto simp: chEvtUnregister_def es_rep_def)
qed

text \<open>Which listeners of a broadcast are signaled, and what a thread has pending behind it.\<close>

definition notified :: "kernel \<Rightarrow> u32 \<Rightarrow> u32 \<Rightarrow> bool" where
  "notified k flags elp \<longleftrightarrow> flags = 0 \<or> and (or (el_flags (el k elp)) flags) (el_wflags (el k elp)) \<noteq> 0"

definition sent_to :: "kernel \<Rightarrow> u32 \<Rightarrow> tid \<Rightarrow> u32 list \<Rightarrow> u32 \<Rightarrow> u32" where
  "sent_to k flags t els pending =
     fold (\<lambda>elp m. if notified k flags elp \<and> el_listener (el k elp) = t then or m (el_events (el k elp)) else m) els pending"

lemma notify_effect:
  assumes "notify flags elp k = Some k'"
  shows "el k' = (el k)(elp := (el k elp)\<lparr>el_flags := or (el_flags (el k elp)) flags\<rparr>)"
    "p_epending (thr k' t) = sent_to k flags t [elp] (p_epending (thr k t))"
proof -
  let ?k = "set_el elp (\<lambda>e. e\<lparr>el_flags := or (el_flags e) flags\<rparr>) k" and ?e = "el k elp"
  have "el k' = (el k)(elp := ?e\<lparr>el_flags := or (el_flags ?e) flags\<rparr>) \<and> p_epending (thr k' t) = sent_to k flags t [elp] (p_epending (thr k t))"
  proof (cases "notified k flags elp")
    case True
    then have s: "chEvtSignalI (el_listener ?e) (el_events ?e) ?k = Some k'" using assms by (auto simp: notify_def notified_def Let_def split: if_splits)
    then show ?thesis using True SignalI_effect(1) [OF s, of t] SignalI_effect(3,5) [OF s]
      by (cases "t = el_listener ?e") (auto simp: sent_to_def)
  next
    case False
    then show ?thesis using assms by (auto simp: notify_def notified_def sent_to_def Let_def)
  qed
  then show "el k' = (el k)(elp := ?e\<lparr>el_flags := or (el_flags ?e) flags\<rparr>)" "p_epending (thr k' t) = sent_to k flags t [elp] (p_epending (thr k t))" by auto
qed

lemma sent_to_cong: "(\<And>e. e \<in> set els \<Longrightarrow> el k' e = el k e) \<Longrightarrow> sent_to k' flags t els m = sent_to k flags t els m"
  by (induction els arbitrary: m) (simp_all add: sent_to_def notified_def)

lemma broadcast_loop_chain:
  assumes "run_ok k" "distinct els" "esp \<notin> set els"
    "case els of [] \<Rightarrow> elp = esp | e # es \<Rightarrow> elp = e \<and> el_chain (el k) e es esp"
  shows "\<exists>k'. broadcast_loop esp flags elp k = Some k' \<and> (\<forall>t. p_epending (thr k' t) = sent_to k flags t els (p_epending (thr k t)))
    \<and> (\<forall>e. el k' e = (if e \<in> set els then (el k e)\<lparr>el_flags := or (el_flags (el k e)) flags\<rparr> else el k e))"
  using assms
proof (induction els arbitrary: k elp)
  case Nil
  then show ?case by (subst broadcast_loop.simps) (simp add: sent_to_def)
next
  case (Cons e es)
  then have e: "elp = e" "e \<noteq> esp" "el_chain (el k) e es esp" by auto
  obtain k1 where k1: "notify flags e k = Some k1" "stays k k1" "\<And>p. el_next (el k1 p) = el_next (el k p)"
    by (rule notify_ok [OF Cons.prems(1)]) blast
  note E = notify_effect [OF k1(1)]
  have "\<exists>k'. broadcast_loop esp flags (el_next (el k1 e)) k1 = Some k'
      \<and> (\<forall>t. p_epending (thr k' t) = sent_to k1 flags t es (p_epending (thr k1 t)))
      \<and> (\<forall>x. el k' x = (if x \<in> set es then (el k1 x)\<lparr>el_flags := or (el_flags (el k1 x)) flags\<rparr> else el k1 x))"
  proof (rule Cons.IH)
    have "el_chain (el k1) e es esp" using e(3) k1(3) el_chain_cong [of e es "el k1" "el k" esp] by simp
    then show "case es of [] \<Rightarrow> el_next (el k1 e) = esp | x # xs \<Rightarrow> el_next (el k1 e) = x \<and> el_chain (el k1) x xs esp" by (cases es) auto
  qed (use k1 Cons.prems in \<open>auto simp: stays_def\<close>)
  then obtain k' where k': "broadcast_loop esp flags (el_next (el k1 e)) k1 = Some k'"
    "\<And>t. p_epending (thr k' t) = sent_to k1 flags t es (p_epending (thr k1 t))"
    "\<And>x. el k' x = (if x \<in> set es then (el k1 x)\<lparr>el_flags := or (el_flags (el k1 x)) flags\<rparr> else el k1 x)" by blast
  have "broadcast_loop esp flags elp k = Some k'" using e k1(1) k'(1) by (subst broadcast_loop.simps) simp
  moreover have "sent_to k1 flags t es m = sent_to k flags t es m" for t m
    by (rule sent_to_cong) (use E(1) Cons.prems(2) in auto)
  then have "p_epending (thr k' t) = sent_to k flags t (e # es) (p_epending (thr k t))" for t
    using k'(2) [of t] E(2) [of t] by (simp add: sent_to_def)
  moreover have "el k' x = (if x \<in> set (e # es) then (el k x)\<lparr>el_flags := or (el_flags (el k x)) flags\<rparr> else el k x)" for x
    using k'(3) [of x] E(1) Cons.prems(2) by auto
  ultimately show ?case by blast
qed

text \<open>A broadcast ends, and every listener has its flags and its thread the events.\<close>

lemma broadcast_ok:
  assumes run: "run_ok k" and rep: "es_rep k esp els"
  obtains k' where "chEvtBroadcastFlagsI esp flags k = Some k'" "stays k k'" "es_rep k' esp els"
    "\<And>t. p_epending (thr k' t) = sent_to k flags t els (p_epending (thr k t))"
    "\<And>e. e \<in> set els \<Longrightarrow> el_flags (el k' e) = or (el_flags (el k e)) flags"
proof -
  have "case els of [] \<Rightarrow> el_next (el k esp) = esp | e # es \<Rightarrow> el_next (el k esp) = e \<and> el_chain (el k) e es esp"
    using rep by (cases els) (auto simp: es_rep_def)
  with broadcast_loop_chain [OF run, of els esp "el_next (el k esp)" flags] rep
  obtain k' where k': "broadcast_loop esp flags (el_next (el k esp)) k = Some k'"
    "\<And>t. p_epending (thr k' t) = sent_to k flags t els (p_epending (thr k t))"
    "\<And>e. el k' e = (if e \<in> set els then (el k e)\<lparr>el_flags := or (el_flags (el k e)) flags\<rparr> else el k e)"
    by (auto simp: es_rep_def)
  have "el_chain (el k') esp els esp = el_chain (el k) esp els esp" by (rule el_chain_cong) (simp add: k'(3))
  then have "es_rep k' esp els" using rep by (simp add: es_rep_def)
  then show ?thesis using k' broadcast_loop_stays [OF k'(1)] run by (intro that [of k']) (auto simp: chEvtBroadcastFlagsI_def)
qed

section \<open>Bits\<close>

lemma bit_EVENT_MASK: "n < 32 \<Longrightarrow> bit (EVENT_MASK n) i \<longleftrightarrow> i = n"
  by (auto simp: EVENT_MASK_def bit_simps)

lemma and_EVENT_MASK:
  assumes "n < 32"
  shows "and events (EVENT_MASK n) \<noteq> 0 \<longleftrightarrow> bit events n"
proof
  assume "bit events n"
  then have "bit (and events (EVENT_MASK n)) n" using assms by (simp add: bit_and_iff bit_EVENT_MASK)
  then show "and events (EVENT_MASK n) \<noteq> 0" by (metis bit_0_eq bot_apply bot_bool_def)
next
  assume "and events (EVENT_MASK n) \<noteq> 0"
  then obtain i where "bit (and events (EVENT_MASK n)) i" by (metis bit_eqI bit_0_eq bot_apply bot_bool_def)
  then show "bit events n" using assms by (auto simp: bit_and_iff bit_EVENT_MASK)
qed

text \<open>\<^verbatim>\<open>m ^ (m & (m - 1))\<close> is the lowest bit of \<^verbatim>\<open>m\<close>.\<close>

lemma lowest_bit:
  fixes m :: u32
  assumes "bit m n" "\<And>i. i < n \<Longrightarrow> \<not> bit m i"
  shows "xor m (and m (m - 1)) = EVENT_MASK n"
proof -
  have n: "n < 32" using assms(1) bit_imp_le_length by fastforce
  define h where "h = and m (not (mask (Suc n)))"
  have h: "bit h i \<longleftrightarrow> bit m i \<and> n < i" for i
    using bit_imp_le_length [of m i] by (auto simp: h_def bit_and_iff bit_not_iff bit_mask_iff less_Suc_eq_le)
  have l: "bit (mask n :: u32) i \<longleftrightarrow> i < n" for i using n by (auto simp: bit_mask_iff)
  have dis: "and h (EVENT_MASK n) = 0" "and h (mask n) = 0"
    by (rule bit_eqI; simp add: bit_and_iff h l bit_EVENT_MASK [OF n])+
  have b: "bit m i \<longleftrightarrow> bit h i \<or> i = n" for i using assms h by (meson nat_neq_iff)
  have "m = or h (EVENT_MASK n)" by (rule bit_eqI) (simp add: bit_or_iff b bit_EVENT_MASK [OF n])
  then have m: "m = h + EVENT_MASK n" using disjunctive_add_eq_or [OF dis(1)] by simp
  have "m - 1 = h + mask n" unfolding m by (simp add: EVENT_MASK_def mask_eq_exp_minus_1 push_bit_eq_mult)
  then have m1: "m - 1 = or h (mask n)" using disjunctive_add_eq_or [OF dis(2)] by simp
  show ?thesis
    unfolding m1 by (rule bit_eqI) (use h in \<open>auto simp: bit_xor_iff bit_and_iff bit_or_iff b l bit_EVENT_MASK [OF n]\<close>)
qed

text \<open>The handlers are called in ascending order of the events, each once.\<close>

fun call_each :: "(nat \<Rightarrow> 's \<Rightarrow> 's option) \<Rightarrow> nat list \<Rightarrow> 's \<Rightarrow> 's option" where
  "call_each h [] st = Some st"
| "call_each h (i # is) st = Option.bind (h i st) (call_each h is)"

lemma dispatch_loop_eq:
  assumes "\<And>i. i < eid \<Longrightarrow> \<not> bit events i" "eid \<le> 32"
  shows "dispatch_loop h eid events st = call_each h (filter (bit events) [eid..<32]) st"
  using assms
proof (induction "32 - eid" arbitrary: eid events st)
  case 0
  then have "events = 0" by (intro bit_eqI) (auto dest: bit_imp_le_length)
  then show ?case using 0 by (subst dispatch_loop.simps) simp
next
  case (Suc n)
  then have lt: "eid < 32" by simp
  then have up: "[eid..<32] = eid # [Suc eid..<32]" by (simp add: upt_conv_Cons)
  consider (none) "events = 0" | (set) "bit events eid" | (skip) "events \<noteq> 0" "\<not> bit events eid" by blast
  then show ?case
  proof cases
    case none then show ?thesis by (subst dispatch_loop.simps) simp
  next
    case set
    let ?e = "and events (not (EVENT_MASK eid))"
    have b: "bit ?e i \<longleftrightarrow> bit events i \<and> i \<noteq> eid" for i using lt by (auto simp: bit_simps bit_EVENT_MASK dest: bit_imp_le_length)
    have "dispatch_loop h (Suc eid) ?e st' = call_each h (filter (bit ?e) [Suc eid..<32]) st'" for st'
      by (rule Suc.hyps(1)) (use Suc.hyps(2) Suc.prems lt b in \<open>auto simp: less_Suc_eq\<close>)
    moreover have "filter (bit ?e) [Suc eid..<32] = filter (bit events) [Suc eid..<32]" by (rule filter_cong) (auto simp: b)
    ultimately have "dispatch_loop h (Suc eid) ?e = call_each h (filter (bit events) [Suc eid..<32])" by (simp add: fun_eq_iff)
    then show ?thesis using set and_EVENT_MASK [OF lt] up by (subst dispatch_loop.simps) auto
  next
    case skip
    then have "dispatch_loop h (Suc eid) events st = call_each h (filter (bit events) [Suc eid..<32]) st"
      by (intro Suc.hyps(1)) (use Suc.hyps(2) Suc.prems lt in \<open>auto simp: less_Suc_eq\<close>)
    then show ?thesis using skip and_EVENT_MASK [OF lt] up by (subst dispatch_loop.simps) auto
  qed
qed

section \<open>All calls\<close>

text \<open>What the running thread and interrupts may call.\<close>

inductive evt_call :: "sys \<Rightarrow> sys \<Rightarrow> bool" where
  init: "evt_call s (vtimers.more_update (chEvtObjectInit esp) s)"
| register: "evt_call s (vtimers.more_update (chEvtRegisterMaskWithFlags esp elp events wflags) s)"
| unregister: "lift (chEvtUnregister esp elp) s = Some s' \<Longrightarrow> evt_call s s'"
| clear_events: "evt_call s (vtimers.more_update (chEvtGetAndClearEvents events) s)"
| add_events: "evt_call s (vtimers.more_update (chEvtAddEvents events) s)"
| clear_flags: "evt_call s (vtimers.more_update (chEvtGetAndClearFlags elp) s)"
| signal: "chEvtSignal tp events s = Some s' \<Longrightarrow> evt_call s s'"
| signal_irq: "irq (chEvtSignalI tp events) s = Some s' \<Longrightarrow> evt_call s s'"
| broadcast: "chEvtBroadcastFlags esp flags s = Some s' \<Longrightarrow> evt_call s s'"
| broadcast_irq: "irq (chEvtBroadcastFlagsI esp flags) s = Some s' \<Longrightarrow> evt_call s s'"
| wait_one: "chEvtWaitOne events s = Some s' \<Longrightarrow> evt_call s s'"
| wait_any: "chEvtWaitAny events s = Some s' \<Longrightarrow> evt_call s s'"
| wait_all: "chEvtWaitAll events s = Some s' \<Longrightarrow> evt_call s s'"
| wait_one_timeout:
    "vt \<noteq> vtlist s \<Longrightarrow> \<not> chVTIsArmedI vt s \<Longrightarrow> chEvtWaitOneTimeout vt events time s = Some s' \<Longrightarrow> evt_call s s'"
| wait_any_timeout:
    "vt \<noteq> vtlist s \<Longrightarrow> \<not> chVTIsArmedI vt s \<Longrightarrow> chEvtWaitAnyTimeout vt events time s = Some s' \<Longrightarrow> evt_call s s'"
| wait_all_timeout:
    "vt \<noteq> vtlist s \<Longrightarrow> \<not> chVTIsArmedI vt s \<Longrightarrow> chEvtWaitAllTimeout vt events time s = Some s' \<Longrightarrow> evt_call s s'"

lemma quiet_ok:
  assumes inv: "kinv s" and f: "sched_ok (f (vtimers.more s))" "keeps_timed (vtimers.more s) (f (vtimers.more s))"
    "currp (f (vtimers.more s)) = currp (vtimers.more s)" "pend (f (vtimers.more s)) = pend (vtimers.more s)"
  shows "kinv (vtimers.more_update f s)"
  using kinvD(4) [OF inv] f timers_ok_update [OF kinvD(3) [OF inv], of f] by (simp add: kinv_def)

lemma quiet_cong_ok:
  assumes inv: "kinv s" and k: "k' = f (vtimers.more s)"
    and f: "thr k' = thr (vtimers.more s)" "queues k' = queues (vtimers.more s)" "registry k' = registry (vtimers.more s)"
    "s_cnt k' = s_cnt (vtimers.more s)" "tref k' = tref (vtimers.more s)" "currp k' = currp (vtimers.more s)" "pend k' = pend (vtimers.more s)"
  shows "kinv (vtimers.more_update f s)"
proof (rule quiet_ok [OF inv], fold k)
  show "sched_ok k'" using kinvD(2) [OF inv] sched_ok_cong [OF f(1-6)] by simp
  show "keeps_timed (vtimers.more s) k'" by (rule keeps_timed_cong) (simp_all add: f)
qed (simp_all add: f)

lemma unregister_loop_frame:
  assumes "unregister_loop esp elp p k = Some k'"
  shows "\<exists>e. k' = k\<lparr>el := e\<rparr>"
proof (rule unregister_loop.raw_induct [OF _ assms])
  fix f esp elp p k k'
  assume IH: "\<And>esp elp p k k'. f esp elp p k = Some k' \<Longrightarrow> \<exists>e. k' = k\<lparr>el := e\<rparr>"
    and s: "(if el_next (el k p) \<noteq> esp then
      if el_next (el k p) = elp then Some (set_el p (\<lambda>e. e\<lparr>el_next := el_next (el k elp)\<rparr>) k) else f esp elp (el_next (el k p)) k
      else Some k) = Some k'"
  have "\<exists>e. k = k\<lparr>el := e\<rparr>" by (rule exI [of _ "el k"]) simp
  then show "\<exists>e. k' = k\<lparr>el := e\<rparr>" using s IH unfolding set_el_def by (auto split: if_splits)
qed

lemma pending_ok:
  assumes inv: "kinv s"
  shows "kinv (vtimers.more_update (chEvtGetAndClearEvents events) s)" "kinv (vtimers.more_update (chEvtAddEvents events) s)"
proof -
  let ?k = "vtimers.more s"
  have I: "sched_ok (return v (set_thr (currp ?k) (\<lambda>t. t\<lparr>p_epending := g (p_epending t)\<rparr>) ?k))"
    "keeps_timed ?k (return v (set_thr (currp ?k) (\<lambda>t. t\<lparr>p_epending := g (p_epending t)\<rparr>) ?k))" for v g
    using set_thr_irrelevant_sched [OF kinvD(2) [OF inv], of "\<lambda>t. t\<lparr>p_epending := g (p_epending t)\<rparr>" "currp ?k"]
    by (auto intro: keeps_timed_trans)
  show "kinv (vtimers.more_update (chEvtGetAndClearEvents events) s)"
    using quiet_ok [OF inv, of "chEvtGetAndClearEvents events"] I(1,2) [of "and (p_epending (thr ?k (currp ?k))) events" "\<lambda>p. and p (not events)"]
    by (simp add: chEvtGetAndClearEvents_def)
  show "kinv (vtimers.more_update (chEvtAddEvents events) s)"
    using quiet_ok [OF inv, of "chEvtAddEvents events"] I(1,2) [of "or (p_epending (thr ?k (currp ?k))) events" "\<lambda>p. or p events"]
    by (simp add: chEvtAddEvents_def add_pending_def Let_def)
qed

lemma signal_then_ok:
  assumes inv: "kinv s" and s': "map_option resume (lift (\<lambda>k. Option.bind (f k) g) s) = Some s'"
    and f: "\<And>k'. f (vtimers.more s) = Some k' \<Longrightarrow> stays (vtimers.more s) k'"
    and g: "\<And>k. run_ok k \<Longrightarrow> \<exists>k'. g k = Some k' \<and> switched k k'"
  shows "kinv s'"
proof -
  obtain k1 where k1: "f (vtimers.more s) = Some k1" using s' by (auto simp: lift_def split: Option.bind_splits)
  then have "\<exists>s'. map_option resume (lift (\<lambda>k. Option.bind (f k) g) s) = Some s' \<and> kinv s'"
    using f [OF k1] by (intro switched_resume [OF kinvD(3) [OF inv], of f, OF k1] g) (auto simp: stays_def)
  then show ?thesis using s' by simp
qed

lemma evt_wait_empty:
  assumes "queues (vtimers.more s) RList = []" "\<not> evt_there md events (p_epending (thr (vtimers.more s) (currp (vtimers.more s))))"
  shows "lift (evt_wait md events) s = None" "time \<noteq> TIME_IMMEDIATE \<Longrightarrow> evt_wait_timeout md vt events time s = None"
proof -
  show "lift (evt_wait md events) s = None" using assms by (simp add: lift_def evt_wait_def go_sleep_empty)
  show "evt_wait_timeout md vt events time s = None" if "time \<noteq> TIME_IMMEDIATE"
    using that assms by (simp add: evt_wait_timeout_def go_sleep_timeout_empty Let_def)
qed

lemma evt_waits_ok:
  assumes inv: "kinv s"
  shows "map_option resume (lift (evt_wait md events) s) = Some s' \<Longrightarrow> kinv s'"
    "vt \<noteq> vtlist s \<Longrightarrow> \<not> chVTIsArmedI vt s \<Longrightarrow> map_option resume (evt_wait_timeout md vt events time s) = Some s' \<Longrightarrow> kinv s'"
  using evt_wait_ok [OF inv, of md events] evt_wait_timeout_ok [OF inv, of time md events vt] evt_wait_empty [of s md events]
  by fastforce+

lemma evt_call_ok: "evt_call s s' \<Longrightarrow> kinv s \<Longrightarrow> kinv s'"
proof (induction rule: evt_call.induct)
  case (init s esp) then show ?case by (rule quiet_cong_ok [OF _ refl]) (simp_all add: chEvtObjectInit_def)
next
  case (register s esp elp events wflags)
  then show ?case by (rule quiet_cong_ok [OF _ refl]) (simp_all add: chEvtRegisterMaskWithFlags_def Let_def)
next
  case (unregister esp elp s s')
  then obtain e where "s' = vtimers.more_update (\<lambda>_. (vtimers.more s)\<lparr>el := e\<rparr>) s"
    using unregister_loop_frame [of esp elp esp "vtimers.more s"] by (auto simp: lift_def chEvtUnregister_def)
  then show ?case using unregister.prems by (simp only:) (rule quiet_cong_ok [OF _ refl], simp_all)
next
  case (clear_events s events) then show ?case by (rule pending_ok)
next
  case (add_events s events) then show ?case by (rule pending_ok)
next
  case (clear_flags s elp)
  then show ?case by (rule quiet_cong_ok [OF _ refl]) (simp_all add: chEvtGetAndClearFlags_def)
next
  case (signal tp events s s')
  show ?case
    by (rule signal_then_ok [OF signal.prems signal.hyps [unfolded chEvtSignal_def] _ RescheduleS_ok])
      (use SignalI_ok [OF kinvD(1) [OF signal.prems], of tp events] in fastforce)
next
  case (signal_irq tp events s s')
  show ?case
    by (rule signal_then_ok [OF signal_irq.prems signal_irq.hyps [unfolded irq_def] _ port_irq_epilogue_ok])
      (use SignalI_ok [OF kinvD(1) [OF signal_irq.prems], of tp events] in fastforce)
next
  case (broadcast esp flags s s')
  show ?case
    by (rule signal_then_ok [OF broadcast.prems broadcast.hyps [unfolded chEvtBroadcastFlags_def] _ RescheduleS_ok])
      (use broadcast_loop_stays kinvD(1) [OF broadcast.prems] in \<open>auto simp: chEvtBroadcastFlagsI_def\<close>)
next
  case (broadcast_irq esp flags s s')
  show ?case
    by (rule signal_then_ok [OF broadcast_irq.prems broadcast_irq.hyps [unfolded irq_def] _ port_irq_epilogue_ok])
      (use broadcast_loop_stays kinvD(1) [OF broadcast_irq.prems] in \<open>auto simp: chEvtBroadcastFlagsI_def\<close>)
next
  case (wait_one events s s') then show ?case using evt_waits_ok(1) by (simp only: chEvtWait_eq)
next
  case (wait_any events s s') then show ?case using evt_waits_ok(1) by (simp only: chEvtWait_eq)
next
  case (wait_all events s s') then show ?case using evt_waits_ok(1) by (simp only: chEvtWait_eq)
next
  case (wait_one_timeout vt s events time s') then show ?case using evt_waits_ok(2) unfolding chEvtWaitTimeout_eq by blast
next
  case (wait_any_timeout vt s events time s') then show ?case using evt_waits_ok(2) unfolding chEvtWaitTimeout_eq by blast
next
  case (wait_all_timeout vt s events time s') then show ?case using evt_waits_ok(2) unfolding chEvtWaitTimeout_eq by blast
qed

end
