(* ===== verification/Kernel_Frames.thy ===== *)
theory Kernel_Frames
  imports Mutexes Events
begin

text \<open>
  What the calls of \<open>Kernel\<close> leave alone: mutexes, the queues of the threads waiting for them, and priorities.
\<close>

section \<open>What the other calls leave alone\<close>

text \<open>Mutexes, their queues and the priorities stay as they are; threads that end are in \<open>F\<close>.\<close>

definition mframe :: "tid set \<Rightarrow> kernel \<Rightarrow> kernel \<Rightarrow> bool" where
  "mframe F k k' \<longleftrightarrow> m_owner k' = m_owner k \<and> m_next k' = m_next k \<and> (\<forall>m. queues k' (Mtx m) = queues k (Mtx m))
     \<and> (\<forall>t. p_mtxlist (thr k' t) = p_mtxlist (thr k t) \<and> p_realprio (thr k' t) = p_realprio (thr k t) \<and> prio k' t = prio k t)
     \<and> (\<forall>t. p_state (thr k' t) = CH_STATE_FINAL \<longrightarrow> p_state (thr k t) = CH_STATE_FINAL \<or> t \<in> F)
     \<and> set (registry k') \<subseteq> set (registry k)
     \<and> (\<forall>t \<in> set (registry k) - set (registry k'). p_state (thr k t) = CH_STATE_FINAL \<or> t \<in> F)"

lemma mframe_refl [simp]: "mframe F k k"
  by (simp add: mframe_def)

lemma mframe_trans:
  assumes 1: "mframe F k k1" and 2: "mframe F k1 k2"
  shows "mframe F k k2"
proof -
  have "p_state (thr k t) = CH_STATE_FINAL \<or> t \<in> F" if "p_state (thr k2 t) = CH_STATE_FINAL" for t
    using that 1 2 unfolding mframe_def by blast
  moreover have "p_state (thr k t) = CH_STATE_FINAL \<or> t \<in> F" if "t \<in> set (registry k) - set (registry k2)" for t
    using that 1 2 unfolding mframe_def by blast
  moreover have "set (registry k2) \<subseteq> set (registry k)" using 1 2 unfolding mframe_def by blast
  ultimately show ?thesis using 1 2 unfolding mframe_def by simp
qed

lemma mframe_mono: "mframe {} k k' \<Longrightarrow> mframe F k k'"
  by (auto simp: mframe_def)

lemma mframe_mtx_ok:
  assumes f: "mframe F k k'" and ok: "mtx_ok k" and F: "\<And>t m. t \<in> F \<Longrightarrow> m_owner k m \<noteq> t"
  shows "mtx_ok k'"
proof -
  have "m_owner k m \<in> set (registry k') \<and> p_state (thr k' (m_owner k m)) \<noteq> CH_STATE_FINAL" if "m_owner k m \<noteq> 0" for m
    using mtx_okD(3,4) [OF ok that] f F [of "m_owner k m" m] unfolding mframe_def by blast
  then show ?thesis using f ok unfolding mframe_def mtx_ok_def owns_def by auto
qed

named_theorems mframes

lemma mframe_set_thr [mframes]:
  assumes "\<And>x. p_mtxlist (f x) = p_mtxlist x" "\<And>x. p_realprio (f x) = p_realprio x" "\<And>x. p_prio (f x) = p_prio x"
    "p_state (f (thr k t)) = CH_STATE_FINAL \<Longrightarrow> p_state (thr k t) = CH_STATE_FINAL \<or> t \<in> F"
  shows "mframe F k (set_thr t f k)"
  using assms by (auto simp: mframe_def)

lemma mframe_set_queue [mframes]: "(\<And>m. q \<noteq> Mtx m) \<Longrightarrow> mframe F k (set_queue q ts k)"
  by (auto simp: mframe_def)

lemma mframe_simple [mframes]:
  "mframe F k (return v k)" "mframe F k (set_pend fr k)" "mframe F k (set_s_cnt sp n k)" "mframe F k (set_tref a t k)"
  "mframe F k (k\<lparr>currp := t\<rparr>)" "mframe F k (k\<lparr>pend := p\<rparr>)"
  by (simp_all add: mframe_def)

lemma mframe_make_ready [mframes]: "mframe F k (make_ready ge tp k)"
  by (simp add: mframe_def make_ready_def)

lemma mframe_ReadyI: "chSchReadyI tp k = Some k' \<Longrightarrow> mframe F k k'"
  by (auto simp: run_ok_ready mframe_make_ready split: if_splits)

lemma mframe_pick_first:
  assumes "pick_first k = Some k'"
  shows "mframe F k k'"
  using assms by (auto simp: pick_first_def mframe_def split: list.splits if_splits)

lemma mframe_GoSleepS:
  assumes "chSchGoSleepS st k = Some k'" "st = CH_STATE_FINAL \<Longrightarrow> currp k \<in> F"
  shows "mframe F k k'"
proof -
  let ?k = "set_thr (currp k) (\<lambda>t. t\<lparr>p_preempt := CH_CFG_TIME_QUANTUM\<rparr>) (set_p_state (currp k) st k)"
  have "mframe F k ?k" using assms(2) by (auto simp: mframe_def)
  moreover have "pick_first ?k = Some k'" using assms(1) by (simp add: chSchGoSleepS_def Let_def)
  ultimately show ?thesis using mframe_pick_first mframe_trans by blast
qed

lemma mframe_WakeupS: "chSchWakeupS ntp msg k = Some k' \<Longrightarrow> mframe F k k'"
  by (auto simp: chSchWakeupS_def Let_def run_ok_ready mframe_def make_ready_def split: if_splits)

lemma mframe_Reschedule:
  "chSchDoRescheduleAhead k = Some k' \<Longrightarrow> mframe F k k'" "chSchDoRescheduleBehind k = Some k' \<Longrightarrow> mframe F k k'"
  by (auto simp: chSchDoRescheduleAhead_def chSchDoRescheduleBehind_def pick_first_def Let_def run_ok_ready mframe_def make_ready_def
      split: list.splits if_splits)

lemma mframe_switch:
  "chSchRescheduleS k = Some k' \<Longrightarrow> mframe F k k'" "chSchDoYieldS k = Some k' \<Longrightarrow> mframe F k k'"
  "port_irq_epilogue k = Some k' \<Longrightarrow> mframe F k k'"
  using mframe_Reschedule
  by (auto simp: chSchRescheduleS_def chSchDoYieldS_def port_irq_epilogue_def chSchDoReschedule_def split: if_splits)

lemma mframe_Release: "mframe F k (chThdRelease tp k)"
proof -
  have "t = tp" if "t \<in> set xs" "t \<notin> set (remove1 tp xs)" for t and xs :: "tid list" using that by (metis in_set_remove1)
  then show ?thesis by (auto simp: chThdRelease_def Let_def mframe_def dest: subsetD [OF set_remove1_subset])
qed

lemma mframe_evt_take: "mframe F k (evt_take md events k)"
  unfolding evt_take_def Let_def by (rule mframe_trans [OF mframe_set_thr mframe_simple(1)]) simp_all

lemma mframe_evt_woken: "mframe F k (evt_woken md events k)"
  by (simp add: evt_woken_def mframe_evt_take mframe_simple)

lemma mframe_run_frame: "mframe F (vtimers.more s) (vtimers.more (run_frame f s))"
  by (cases f) (auto intro: mframe_simple mframe_Release mframe_evt_take mframe_evt_woken mframe_trans)

lemma mframe_resume: "mframe F (vtimers.more s) (vtimers.more (resume s))"
  using mframe_run_frame [of F "vtimers.more_update (\<lambda>k. k\<lparr>pend := (pend k)(currp k := None)\<rparr>) s"]
  by (auto simp: resume_def Let_def split: option.splits intro: mframe_trans mframe_simple)

text \<open>A call that works on the kernel and then goes on with the thread that runs.\<close>

lemma mframe_call:
  assumes "map_option resume (lift f s) = Some s'" "\<And>k'. f (vtimers.more s) = Some k' \<Longrightarrow> mframe F (vtimers.more s) k'"
  shows "mframe F (vtimers.more s) (vtimers.more s')"
proof -
  obtain k' where k': "f (vtimers.more s) = Some k'" "s' = resume (vtimers.more_update (\<lambda>_. k') s)"
    using assms(1) by (auto simp: lift_def)
  then show ?thesis using assms(2) mframe_resume [of F "vtimers.more_update (\<lambda>_. k') s"] by (auto intro: mframe_trans)
qed


lemma mframe_wakeup:
  assumes core: "kcore X k" and w: "wakeup tp k = Some k'"
  shows "mframe F k k'"
proof (cases "p_state (thr k tp) = CH_STATE_READY")
  case True
  then show ?thesis using w by (simp add: wakeup_eq)
next
  case False
  have "tp \<notin> set (queues k (Mtx m))" if "p_state (thr k tp) \<in> {CH_STATE_WTSEM, CH_STATE_QUEUED, CH_STATE_WTCOND}" for m
    using kcoreD(5) [OF core, of tp "Mtx m"] that by auto
  then have "mframe F k (unlinked tp k)"
    by (auto simp: mframe_def unlinked_def chSemFastSignalI_def remove1_idem split: tstate.split)
  moreover have "mframe F (unlinked tp k) (set_p_u tp MSG_TIMEOUT (unlinked tp k))" by (rule mframe_set_thr) simp_all
  ultimately show ?thesis using False w mframe_ReadyI mframe_trans by (simp add: wakeup_eq)
qed

lemma mframe_call_all:
  assumes "call_all kernel_call cs k = Some k'" "run_ok k" "pend k (currp k) = None"
    "\<And>p. (VT_wakeup, p) \<in> set cs \<Longrightarrow> \<exists>vt. waits_on k vt p"
  shows "mframe F k k'"
  using assms
proof (induction cs arbitrary: k)
  case (Cons c cs)
  obtain f p where c: "c = (f, p)" by (cases c)
  show ?case
  proof (cases f)
    case VT_wakeup
    then obtain vt where w: "waits_on k vt p" using Cons.prems(4) [of p] c by auto
    then have "p \<noteq> currp k" using Cons.prems(3) by (auto simp: waits_on_def)
    with w obtain k1 where k1: "wakeup p k = Some k1" "run_ok k1" "keeps_timed k k1" "currp k1 = currp k" "pend k1 = pend k"
      by (rule wakeup_ok [OF Cons.prems(2)]) blast
    have "mframe F k1 k'"
    proof (rule Cons.IH [OF _ k1(2)])
      show "call_all kernel_call cs k1 = Some k'" using Cons.prems(1) k1(1) by (simp add: c VT_wakeup)
      show "\<exists>vt. waits_on k1 vt q" if "(VT_wakeup, q) \<in> set cs" for q
        using Cons.prems(4) [of q] that k1(3) by (auto simp: keeps_timed_def)
    qed (use Cons.prems(3) k1 in simp)
    then show ?thesis using mframe_wakeup [OF run_okD(1) [OF Cons.prems(2)] k1(1)] mframe_trans by blast
  next
    case VT_post
    then show ?thesis using Cons.IH [OF _ Cons.prems(2,3)] Cons.prems(1,4) by (simp add: c)
  qed
qed simp

lemma mframe_systick:
  assumes inv: "kinv s" and s': "systick s = Some s'"
  shows "mframe F (vtimers.more s) (vtimers.more s')"
proof -
  define s0 where "s0 = vtimers.more_update use_quantum s"
  have k0: "run_ok (vtimers.more s0)" "pend (vtimers.more s0) (currp (vtimers.more s0)) = None"
    using kinvD(1,4) [OF inv] use_quantum_ok by (auto simp: s0_def)
  have t0: "timers_ok s0" unfolding s0_def by (intro timers_ok_update kinvD(3) [OF inv] use_quantum_ok)
  then obtain ds where rep: "vt_rep s0 ds" "vt_live ds" by (auto simp: timers_ok_def)
  obtain s1 k1 where s1: "chSysTimerHandlerI s = Some s1" and k1: "port_irq_epilogue (vtimers.more s1) = Some k1"
    and e: "s' = resume (vtimers.more_update (\<lambda>_. k1) s1)"
    using s' by (auto simp: systick_def lift_def split: Option.bind_splits)
  obtain k' where k': "call_all kernel_call (calls s0 (fired 1 ds)) (vtimers.more s0) = Some k'" and m: "vtimers.more s1 = k'"
    using chVTDoTickI_eq [OF rep, of kernel_call] s1 by (auto simp: chSysTimerHandlerI_def s0_def expired_def split: option.splits)
  have "\<exists>vt. waits_on (vtimers.more s0) vt p" if "(VT_wakeup, p) \<in> set (calls s0 (fired 1 ds))" for p
    by (rule fired_calls_wait [OF t0 rep(1) that])
  then have "mframe F (vtimers.more s0) (vtimers.more s1)" unfolding m by (rule mframe_call_all [OF k' k0])
  moreover have "mframe F (vtimers.more s) (vtimers.more s0)" by (auto simp: s0_def use_quantum_def intro!: mframe_set_thr)
  moreover have "mframe F (vtimers.more s1) k1" by (rule mframe_switch(3) [OF k1])
  moreover have "mframe F k1 (vtimers.more s')" unfolding e using mframe_resume [of F "vtimers.more_update (\<lambda>_. k1) s1"] by simp
  ultimately show ?thesis using mframe_trans by blast
qed


text \<open>Calls from interrupts.\<close>

lemma mframe_set_p_u: "mframe F k (set_p_u tp v k)"
  by (rule mframe_set_thr) simp_all

lemma mframe_ready_msg:
  assumes "chSchReadyI tp (set_p_u tp msg k1) = Some k'" "mframe F k k1"
  shows "mframe F k k'"
  by (rule mframe_trans [OF assms(2) mframe_trans [OF mframe_set_p_u mframe_ReadyI [OF assms(1)]]])

lemma mframe_DoDequeueNextI: "chThdDoDequeueNextI tqp msg k = Some k' \<Longrightarrow> mframe F k k'"
  by (auto simp: chThdDoDequeueNextI_def intro: mframe_set_queue elim: mframe_ready_msg split: list.splits)

lemma mframe_DequeueAllI:
  assumes "chThdDequeueAllI tqp msg k = Some k'"
  shows "mframe F k k'"
proof (rule chThdDequeueAllI.raw_induct [OF _ assms])
  fix f tqp msg k k'
  assume IH: "\<And>tqp msg k k'. f tqp msg k = Some k' \<Longrightarrow> mframe F k k'"
    and s: "(if queues k (TQueue tqp) \<noteq> [] then Option.bind (chThdDoDequeueNextI tqp msg k) (f tqp msg) else Some k) = Some k'"
  show "mframe F k k'"
  proof (cases "queues k (TQueue tqp) = []")
    case False
    then obtain k1 where "chThdDoDequeueNextI tqp msg k = Some k1" "f tqp msg k1 = Some k'" using s by (auto split: Option.bind_splits)
    then show ?thesis using IH mframe_DoDequeueNextI mframe_trans by blast
  qed (use s in simp)
qed

lemma mframe_sem_fifo: "sem_fifo_remove sp k = Some (tp, k') \<Longrightarrow> mframe F k k'"
  by (auto simp: sem_fifo_remove_def intro: mframe_set_queue split: list.splits)

lemma mframe_sem_lifo: "sem_lifo_remove sp k = Some (tp, k') \<Longrightarrow> mframe F k k'"
  by (auto simp: sem_lifo_remove_def intro: mframe_set_queue split: if_splits)

lemma mframe_sem_add_one:
  assumes "sem_add_one sp k = Some k'"
  shows "mframe F k k'"
proof -
  let ?k = "set_s_cnt sp (s_cnt k sp + 1) k"
  have 0: "mframe F k ?k" by (rule mframe_simple)
  show ?thesis
  proof (cases "s_cnt k sp + 1 \<le> 0")
    case True
    then obtain tp k1 k2 where k: "sem_fifo_remove sp ?k = Some (tp, k1)" "chSchReadyI tp k1 = Some k2" "k' = set_p_u tp MSG_OK k2"
      using assms by (auto simp: sem_add_one_def Let_def split: Option.bind_splits)
    show ?thesis unfolding k(3)
      by (rule mframe_trans [OF mframe_trans [OF mframe_trans [OF 0 mframe_sem_fifo [OF k(1)]] mframe_ReadyI [OF k(2)]] mframe_set_p_u])
  qed (use assms 0 in \<open>simp add: sem_add_one_def Let_def\<close>)
qed

lemma mframe_SemSignalI:
  assumes "chSemSignalI sp k = Some k'"
  shows "mframe F k k'"
proof -
  let ?k = "set_s_cnt sp (s_cnt k sp + 1) k"
  have 0: "mframe F k ?k" by (rule mframe_simple)
  show ?thesis
  proof (cases "s_cnt k sp + 1 \<le> 0")
    case True
    then obtain tp k1 where "sem_fifo_remove sp ?k = Some (tp, k1)" "chSchReadyI tp (set_p_u tp MSG_OK k1) = Some k'"
      using assms by (auto simp: chSemSignalI_def Let_def split: Option.bind_splits)
    then show ?thesis using mframe_ready_msg [OF _ mframe_trans [OF 0 mframe_sem_fifo]] by blast
  qed (use assms 0 in \<open>simp add: chSemSignalI_def Let_def\<close>)
qed

lemma mframe_SemAddCounterI: "chSemAddCounterI sp n k = Some k' \<Longrightarrow> mframe F k k'"
proof (induction sp n k arbitrary: k' rule: chSemAddCounterI.induct)
  case (1 sp n k)
  show ?case
  proof (cases "n > 0")
    case True
    then obtain k1 where "sem_add_one sp k = Some k1" "chSemAddCounterI sp (n - 1) k1 = Some k'"
      using "1.prems" by (subst (asm) chSemAddCounterI.simps) (auto simp del: chSemAddCounterI.simps split: Option.bind_splits)
    then show ?thesis using "1.IH" [OF True] mframe_sem_add_one mframe_trans by blast
  qed (use "1.prems" in \<open>subst (asm) chSemAddCounterI.simps, simp\<close>)
qed

lemma mframe_sem_reset_loop: "sem_reset_loop cnt sp k = Some k' \<Longrightarrow> mframe F k k'"
proof (induction cnt sp k arbitrary: k' rule: sem_reset_loop.induct)
  case (1 cnt sp k)
  show ?case
  proof (cases "cnt + 1 \<le> 0")
    case True
    then obtain tp k1 k2 where k: "sem_lifo_remove sp k = Some (tp, k1)" "chSchReadyI tp k1 = Some k2"
      "sem_reset_loop (cnt + 1) sp (set_p_u tp MSG_RESET k2) = Some k'"
      using "1.prems" by (subst (asm) sem_reset_loop.simps) (auto simp del: sem_reset_loop.simps split: Option.bind_splits)
    then have "mframe F (set_p_u tp MSG_RESET k2) k'" using "1.IH" [OF True] by blast
    then show ?thesis by (rule mframe_trans [OF mframe_trans [OF mframe_trans [OF mframe_sem_lifo [OF k(1)] mframe_ReadyI [OF k(2)]] mframe_set_p_u]])
  qed (use "1.prems" in \<open>subst (asm) sem_reset_loop.simps, simp\<close>)
qed

lemma mframe_SemResetI: "chSemResetI sp n k = Some k' \<Longrightarrow> mframe F k k'"
  unfolding chSemResetI_def using mframe_sem_reset_loop mframe_simple(3) mframe_trans by blast

lemma mframe_irq_call: "irq_call f \<Longrightarrow> f k = Some k' \<Longrightarrow> mframe F k k'"
proof (induction rule: irq_call.induct)
  case (1 trp msg)
  then show ?case by (auto simp: chThdResumeI_def Let_def intro: mframe_simple elim: mframe_ready_msg split: if_splits)
next
  case (2 tqp msg) then show ?case using mframe_DoDequeueNextI by (auto simp: chThdDequeueNextI_def split: if_splits)
next
  case (3 tqp msg) then show ?case using mframe_DequeueAllI by blast
next
  case (4 sp) then show ?case using mframe_SemSignalI by blast
next
  case (5 sp n) then show ?case using mframe_SemAddCounterI by blast
next
  case (6 n sp) then show ?case using mframe_SemResetI by blast
qed


text \<open>Calls of the running thread.\<close>

lemma mframe_irq: "irq_call f \<Longrightarrow> irq f s = Some s' \<Longrightarrow> mframe F (vtimers.more s) (vtimers.more s')"
  unfolding irq_def
  by (erule mframe_call) (auto split: Option.bind_splits intro: mframe_trans [OF mframe_irq_call mframe_switch(3)])

lemma mframe_yield: "chThdYield s = Some s' \<Longrightarrow> mframe F (vtimers.more s) (vtimers.more s')"
  unfolding chThdYield_def by (erule mframe_call) (rule mframe_switch)

lemma mframe_sem_reset: "chSemReset sp n s = Some s' \<Longrightarrow> mframe F (vtimers.more s) (vtimers.more s')"
  unfolding chSemReset_def
  by (erule mframe_call) (auto split: Option.bind_splits intro: mframe_trans [OF mframe_SemResetI mframe_switch(1)])

lemma mframe_sem_signal:
  assumes "chSemSignal sp s = Some s'"
  shows "mframe F (vtimers.more s) (vtimers.more s')"
  using assms unfolding chSemSignal_def
proof (rule mframe_call)
  fix k'
  assume a: "sem_signal sp (vtimers.more s) = Some k'"
  let ?k = "set_s_cnt sp (s_cnt (vtimers.more s) sp + 1) (vtimers.more s)"
  have 0: "mframe F (vtimers.more s) ?k" by (rule mframe_simple)
  show "mframe F (vtimers.more s) k'"
  proof (cases "s_cnt ?k sp \<le> 0")
    case True
    then obtain tp k1 where k: "sem_fifo_remove sp ?k = Some (tp, k1)" "chSchWakeupS tp MSG_OK k1 = Some k'"
      using a by (auto simp: sem_signal_def Let_def split: Option.bind_splits)
    show ?thesis by (rule mframe_trans [OF mframe_trans [OF 0 mframe_sem_fifo [OF k(1)]] mframe_WakeupS [OF k(2)]])
  qed (use a 0 in \<open>simp add: sem_signal_def Let_def\<close>)
qed

lemma mframe_sem_enqueue: "mframe F k (sem_enqueue sp k)"
  unfolding sem_enqueue_def by (rule mframe_trans [OF mframe_set_p_u mframe_set_queue]) simp

lemma mframe_sem_sleep:
  assumes "chSchGoSleepS CH_STATE_WTSEM (set_pend f (sem_enqueue sp k)) = Some k'"
  shows "mframe F k k'"
  by (rule mframe_trans [OF mframe_sem_enqueue mframe_trans [OF mframe_simple(2) mframe_GoSleepS [OF assms]]]) simp

lemma mframe_sem_wait: "chSemWait sp s = Some s' \<Longrightarrow> mframe F (vtimers.more s) (vtimers.more s')"
  unfolding chSemWait_def
  by (erule mframe_call)
    (auto simp: chSemWaitS_def Let_def split: if_splits intro: mframe_trans [OF mframe_simple(3) mframe_sem_sleep] mframe_trans [OF mframe_simple(3) mframe_simple(1)])

lemma mframe_sem_signal_wait:
  assumes "chSemSignalWait sps spw s = Some s'"
  shows "mframe F (vtimers.more s) (vtimers.more s')"
  using assms unfolding chSemSignalWait_def
proof (rule mframe_call)
  fix k'
  assume a: "sem_signal_wait sps spw (vtimers.more s) = Some k'"
  then obtain k1 where k1: "sem_add_one sps (vtimers.more s) = Some k1" by (auto simp: sem_signal_wait_def split: Option.bind_splits)
  let ?k2 = "set_s_cnt spw (s_cnt k1 spw - 1) k1"
  have 0: "mframe F (vtimers.more s) ?k2" by (rule mframe_trans [OF mframe_sem_add_one [OF k1] mframe_simple(3)])
  have "mframe F ?k2 k'"
  proof (cases "s_cnt ?k2 spw < 0")
    case True then show ?thesis using a k1 by (intro mframe_sem_sleep [of F_rdymsg spw]) (simp add: sem_signal_wait_def Let_def)
  next
    case False
    then have "chSchRescheduleS (return MSG_OK ?k2) = Some k'" using a k1 by (simp add: sem_signal_wait_def Let_def)
    then show ?thesis by (rule mframe_trans [OF mframe_simple(1) mframe_switch(1)])
  qed
  then show "mframe F (vtimers.more s) k'" by (rule mframe_trans [OF 0])
qed

lemma mframe_thd_resume: "chThdResume trp msg s = Some s' \<Longrightarrow> mframe F (vtimers.more s) (vtimers.more s')"
  unfolding chThdResume_def
  by (erule mframe_call) (auto simp: chThdResumeS_def Let_def split: if_splits intro: mframe_trans [OF mframe_simple(4) mframe_WakeupS])

text \<open>Calls that sleep, with or without a timer.\<close>

lemma mframe_sleep_timeout:
  assumes g: "go_sleep_timeout fr fi vt st time s = Some s1" and st: "st \<noteq> CH_STATE_FINAL"
  shows "mframe F (vtimers.more s) (vtimers.more s1)"
proof -
  have "mframe F k k'" if "chSchGoSleepS st (set_pend f k) = Some k'" for f k k'
    by (rule mframe_trans [OF mframe_simple(2) mframe_GoSleepS [OF that]]) (use st in simp)
  moreover obtain s0 f where "vtimers.more s0 = vtimers.more s" "lift (\<lambda>k. chSchGoSleepS st (set_pend f k)) s0 = Some s1"
    using g chVTDoSetI_more [of vt time VT_wakeup "currp (vtimers.more s)" s]
    by (cases "time = TIME_INFINITE") (auto simp: go_sleep_timeout_def split: Option.bind_splits)
  ultimately show ?thesis by (auto simp: lift_def)
qed

lemma mframe_timeout_call:
  assumes "go_sleep_timeout fr fi vt st time s = Some s1" "st \<noteq> CH_STATE_FINAL" "mframe F k (vtimers.more s)"
  shows "mframe F k (vtimers.more (resume s1))"
  by (rule mframe_trans [OF mframe_trans [OF assms(3) mframe_sleep_timeout [OF assms(1,2)]] mframe_resume])

lemma mframe_return_call: "mframe F (vtimers.more s) (vtimers.more (resume (vtimers.more_update (return v) s)))"
  by (rule mframe_trans [OF _ mframe_resume]) (simp add: mframe_simple)

lemma mframe_sleep: "chThdSleep vt time s = Some s' \<Longrightarrow> mframe F (vtimers.more s) (vtimers.more s')"
  unfolding chThdSleep_def chSchGoSleepTimeoutS_def by (auto elim!: mframe_timeout_call)

lemma mframe_sleep_until: "chThdSleepUntil vt time s = Some s' \<Longrightarrow> mframe F (vtimers.more s) (vtimers.more s')"
  using mframe_sleep by (auto simp: chThdSleepUntil_def Let_def split: if_splits)

lemma mframe_sleep_windowed: "chThdSleepUntilWindowed vt prev next s = Some s' \<Longrightarrow> mframe F (vtimers.more s) (vtimers.more s')"
  unfolding chThdSleepUntilWindowed_def Let_def
  by (auto intro: mframe_simple elim!: mframe_timeout_call split: if_splits)

lemma mframe_suspend: "suspendThread trp s = Some s' \<Longrightarrow> mframe F (vtimers.more s) (vtimers.more s')"
  unfolding suspendThread_def
proof (erule mframe_call)
  fix k'
  let ?k = "vtimers.more s"
  let ?k1 = "set_p_u (currp ?k) trp (set_tref trp (currp ?k) ?k)"
  assume "chThdSuspendS trp ?k = Some k'"
  then have "chSchGoSleepS CH_STATE_SUSPENDED (set_pend F_rdymsg ?k1) = Some k'" by (simp add: chThdSuspendS_def Let_def)
  then have "mframe F (set_pend F_rdymsg ?k1) k'" by (rule mframe_GoSleepS) simp
  then show "mframe F ?k k'" by (rule mframe_trans [OF mframe_trans [OF mframe_trans [OF mframe_simple(4) mframe_set_p_u] mframe_simple(2)]])
qed

lemma mframe_suspend_timeout: "suspendThreadTimeout vt trp timeout s = Some s' \<Longrightarrow> mframe F (vtimers.more s) (vtimers.more s')"
  unfolding suspendThreadTimeout_def chThdSuspendTimeoutS_def chSchGoSleepTimeoutS_def
  by (auto intro: mframe_return_call mframe_trans [OF mframe_simple(4) mframe_set_p_u] elim!: mframe_timeout_call split: if_splits)

lemma mframe_enqueue:
  "map_option resume (chThdEnqueueTimeoutS vt tqp timeout s) = Some s' \<Longrightarrow> mframe F (vtimers.more s) (vtimers.more s')"
  unfolding chThdEnqueueTimeoutS_def chSchGoSleepTimeoutS_def
  by (auto intro: mframe_return_call mframe_set_queue elim!: mframe_timeout_call split: if_splits)

lemma mframe_sem_wait_timeout:
  assumes "chSemWaitTimeout vt sp time s = Some s'"
  shows "mframe F (vtimers.more s) (vtimers.more s')"
proof -
  let ?s = "vtimers.more_update (\<lambda>k. set_s_cnt sp (s_cnt k sp - 1) k) s"
  have 0: "mframe F (vtimers.more s) (vtimers.more ?s)" by (simp add: mframe_simple)
  consider (timed) "map_option resume (chSchGoSleepTimeoutS vt CH_STATE_WTSEM time (vtimers.more_update (sem_enqueue sp) ?s)) = Some s'"
    | (undone) "s' = resume (vtimers.more_update (\<lambda>k. return MSG_TIMEOUT (set_s_cnt sp (s_cnt k sp + 1) k)) ?s)"
    | (ok) "s' = resume (vtimers.more_update (return MSG_OK) ?s)"
    using assms by (auto simp: chSemWaitTimeout_def chSemWaitTimeoutS_def Let_def split: if_splits)
  then show ?thesis
  proof cases
    case timed
    then show ?thesis using mframe_trans [OF 0 mframe_sem_enqueue]
      by (auto simp: chSchGoSleepTimeoutS_def elim!: mframe_timeout_call)
  next
    case undone
    have "mframe F (vtimers.more ?s) (vtimers.more (vtimers.more_update (\<lambda>k. return MSG_TIMEOUT (set_s_cnt sp (s_cnt k sp + 1) k)) ?s))"
      using mframe_trans [OF mframe_simple(3) mframe_simple(1)] by simp
    from mframe_trans [OF mframe_trans [OF 0 this] mframe_resume] show ?thesis unfolding undone .
  next
    case ok
    show ?thesis unfolding ok by (rule mframe_trans [OF 0 mframe_return_call])
  qed
qed

lemma mframe_wait: "chThdWait tp s = Some s' \<Longrightarrow> mframe F (vtimers.more s) (vtimers.more s')"
proof -
  assume a: "chThdWait tp s = Some s'"
  let ?k = "vtimers.more s"
  let ?k1 = "set_thr tp (\<lambda>t. t\<lparr>p_waiting := currp ?k # p_waiting t\<rparr>) ?k"
  show "mframe F (vtimers.more s) (vtimers.more s')"
  proof (cases "p_state (thr ?k tp) = CH_STATE_FINAL")
    case True
    then show ?thesis using a mframe_trans [OF mframe_simple(1) mframe_Release] by (auto simp: chThdWait_def)
  next
    case False
    have "mframe F ?k ?k1" by (rule mframe_set_thr) simp_all
    then have "mframe F ?k k'" if "chSchGoSleepS CH_STATE_WTEXIT (set_pend (F_exitcode tp) ?k1) = Some k'" for k'
      by (rule mframe_trans [OF mframe_trans [OF _ mframe_simple(2)] mframe_GoSleepS [OF that]]) simp
    then show ?thesis using a False unfolding chThdWait_def Let_def by (simp del: map_option_eq_Some) (erule mframe_call, blast)
  qed
qed

lemma mframe_ready_waiting: "ready_waiting ws k = Some k' \<Longrightarrow> mframe F k k'"
proof (induction ws arbitrary: k)
  case (Cons w ws)
  then show ?case using mframe_ReadyI mframe_trans by (auto split: Option.bind_splits) blast
qed simp

lemma ready_waiting_currp: "ready_waiting ws k = Some k' \<Longrightarrow> currp k' = currp k"
proof (induction ws arbitrary: k)
  case (Cons w ws)
  then obtain k1 where "chSchReadyI w k = Some k1" "ready_waiting ws k1 = Some k'" by (auto split: Option.bind_splits)
  then show ?case using Cons.IH by (auto simp: run_ok_ready split: if_splits)
qed simp

lemma mframe_exit:
  assumes "chThdExit msg s = Some s'"
  shows "mframe {currp (vtimers.more s)} (vtimers.more s) (vtimers.more s')"
  using assms unfolding chThdExit_def
proof (rule mframe_call)
  fix k'
  let ?k = "vtimers.more s"
  let ?c = "currp ?k"
  let ?k1 = "set_thr ?c (\<lambda>t. t\<lparr>p_waiting := []\<rparr>) (set_p_u ?c msg ?k)"
  assume "chThdExitS msg ?k = Some k'"
  then obtain k3 where k3: "ready_waiting (p_waiting (thr ?k ?c)) ?k1 = Some k3"
    and k': "chSchGoSleepS CH_STATE_FINAL (if and (p_flags (thr k3 ?c)) CH_FLAG_MODE_MASK = CH_FLAG_MODE_STATIC
      then k3\<lparr>registry := remove1 ?c (registry k3)\<rparr> else k3) = Some k'" (is "chSchGoSleepS _ ?k4 = _")
    by (auto simp: chThdExitS_def Let_def split: Option.bind_splits)
  have "mframe {?c} ?k ?k1" by (rule mframe_trans [OF mframe_set_p_u mframe_set_thr]) simp_all
  then have 3: "mframe {?c} ?k k3" by (rule mframe_trans [OF _ mframe_ready_waiting [OF k3]])
  have "t = ?c" if "t \<in> set xs" "t \<notin> set (remove1 ?c xs)" for t and xs :: "tid list" using that by (metis in_set_remove1)
  then have 4: "mframe {?c} k3 ?k4" by (auto simp: mframe_def dest: subsetD [OF set_remove1_subset])
  have "currp ?k4 = ?c" using ready_waiting_currp [OF k3] by simp
  then have "mframe {?c} ?k4 k'" by (intro mframe_GoSleepS [OF k']) simp
  then show "mframe {?c} ?k k'" by (rule mframe_trans [OF mframe_trans [OF 3 4]])
qed

lemma mframe_updates:
  "mframe F k (chThdTerminate tp k)" "mframe F k (chThdAddRef tp k)" "mframe F k (chSemObjectInit sp n k)"
  unfolding chThdTerminate_def chThdAddRef_def chSemObjectInit_def
  by (auto intro!: mframe_set_thr intro: mframe_trans [OF mframe_set_thr mframe_simple(1)] mframe_trans [OF mframe_set_queue mframe_simple(3)])

text \<open>Events.\<close>

lemma mframe_set_el: "mframe F k (set_el elp f k)"
  by (simp add: mframe_def)

lemma mframe_SignalI:
  assumes "chEvtSignalI tp events k = Some k'"
  shows "mframe F k k'"
proof -
  have 0: "mframe F k (add_pending tp events k)" unfolding add_pending_def by (rule mframe_set_thr) simp_all
  then show ?thesis using assms mframe_ready_msg [OF _ 0] by (auto simp: chEvtSignalI_def Let_def split: if_splits)
qed

lemma mframe_notify: "notify flags elp k = Some k' \<Longrightarrow> mframe F k k'"
  using mframe_trans [OF mframe_set_el mframe_SignalI] mframe_set_el by (auto simp: notify_def Let_def split: if_splits)

lemma mframe_broadcast:
  assumes "chEvtBroadcastFlagsI esp flags k = Some k'"
  shows "mframe F k k'"
proof -
  have "mframe F k k'" if "broadcast_loop esp flags elp k = Some k'" for elp
  proof (rule broadcast_loop.raw_induct [OF _ that])
    fix f esp flags elp k k'
    assume IH: "\<And>esp flags elp k k'. f esp flags elp k = Some k' \<Longrightarrow> mframe F k k'"
      and s: "(if elp \<noteq> esp then Option.bind (notify flags elp k) (\<lambda>k. f esp flags (el_next (el k elp)) k) else Some k) = Some k'"
    show "mframe F k k'"
    proof (cases "elp = esp")
      case False
      then obtain k1 where "notify flags elp k = Some k1" "f esp flags (el_next (el k1 elp)) k1 = Some k'"
        using s by (auto split: Option.bind_splits)
      then show ?thesis using mframe_trans [OF mframe_notify IH] by blast
    qed (use s in simp)
  qed
  then show ?thesis using assms by (simp add: chEvtBroadcastFlagsI_def)
qed

lemma mframe_signal_then:
  assumes "map_option resume (lift (\<lambda>k. Option.bind (f k) g) s) = Some s'" "\<And>k k'. f k = Some k' \<Longrightarrow> mframe F k k'"
    "\<And>k k'. g k = Some k' \<Longrightarrow> mframe F k k'"
  shows "mframe F (vtimers.more s) (vtimers.more s')"
  using assms(1) by (rule mframe_call) (auto split: Option.bind_splits intro: mframe_trans [OF assms(2,3)])

lemma mframe_evt_wait:
  assumes "map_option resume (lift (evt_wait md events) s) = Some s'"
  shows "mframe F (vtimers.more s) (vtimers.more s')"
  using assms
proof (rule mframe_call)
  fix k'
  let ?k = "vtimers.more s"
  assume a: "evt_wait md events ?k = Some k'"
  show "mframe F ?k k'"
  proof (cases "evt_there md events (p_epending (thr ?k (currp ?k)))")
    case True then show ?thesis using a mframe_evt_take by (auto simp: evt_wait_def)
  next
    case False
    then have "chSchGoSleepS (evt_wait_state md) (set_pend (F_evt md events) (set_p_u (currp ?k) events ?k)) = Some k'"
      using a by (simp add: evt_wait_def)
    then show ?thesis by (rule mframe_trans [OF mframe_trans [OF mframe_set_p_u mframe_simple(2)] mframe_GoSleepS]) simp
  qed
qed

lemma mframe_evt_wait_timeout:
  assumes "map_option resume (evt_wait_timeout md vt events time s) = Some s'"
  shows "mframe F (vtimers.more s) (vtimers.more s')"
proof -
  let ?s = "vtimers.more_update (\<lambda>k. set_p_u (currp k) events k) s"
  consider (there) "s' = resume (vtimers.more_update (evt_take md events) s)" | (now) "s' = resume (vtimers.more_update (return 0) s)"
    | (sleep) s1 where "go_sleep_timeout (F_evt_timeout vt md events) (F_evt_msg md events) vt (evt_wait_state md) time ?s = Some s1" "s' = resume s1"
    using assms by (auto simp: evt_wait_timeout_def Let_def split: if_splits)
  then show ?thesis
  proof cases
    case there
    show ?thesis unfolding there by (rule mframe_trans [OF _ mframe_resume]) (simp add: mframe_evt_take)
  next
    case now show ?thesis unfolding now by (rule mframe_return_call)
  next
    case sleep
    show ?thesis unfolding sleep(2)
      by (rule mframe_timeout_call [OF sleep(1)]) (simp_all add: mframe_set_p_u)
  qed
qed

lemma mframe_unregister:
  assumes "chEvtUnregister esp elp k = Some k'"
  shows "mframe F k k'"
proof -
  have "mframe F k k'" if "unregister_loop esp elp p k = Some k'" for p
  proof (rule unregister_loop.raw_induct [OF _ that])
    fix f esp elp p k k'
    assume IH: "\<And>esp elp p k k'. f esp elp p k = Some k' \<Longrightarrow> mframe F k k'"
      and s: "(if el_next (el k p) \<noteq> esp then
        if el_next (el k p) = elp then Some (set_el p (\<lambda>e. e\<lparr>el_next := el_next (el k elp)\<rparr>) k) else f esp elp (el_next (el k p)) k
        else Some k) = Some k'"
    then show "mframe F k k'" using mframe_set_el by (auto split: if_splits)
  qed
  then show ?thesis using assms by (simp add: chEvtUnregister_def)
qed

lemma mframe_evt_call: "evt_call s s' \<Longrightarrow> mframe F (vtimers.more s) (vtimers.more s')"
proof (induction rule: evt_call.induct)
  case (init s esp) then show ?case by (simp add: chEvtObjectInit_def mframe_set_el)
next
  case (register s esp elp events wflags) then show ?case by (simp add: chEvtRegisterMaskWithFlags_def mframe_def Let_def)
next
  case (unregister esp elp s s') then show ?case using mframe_unregister by (auto simp: lift_def)
next
  case (clear_events s events)
  show ?case unfolding chEvtGetAndClearEvents_def by (simp, rule mframe_trans [OF mframe_set_thr mframe_simple(1)]) simp_all
next
  case (add_events s events)
  show ?case unfolding chEvtAddEvents_def add_pending_def Let_def by (simp, rule mframe_trans [OF mframe_set_thr mframe_simple(1)]) simp_all
next
  case (clear_flags s elp) then show ?case using mframe_trans [OF mframe_set_el mframe_simple(1)] by (simp add: chEvtGetAndClearFlags_def)
next
  case (signal tp events s s')
  then show ?case unfolding chEvtSignal_def by (rule mframe_signal_then) (auto intro: mframe_SignalI mframe_switch)
next
  case (signal_irq tp events s s')
  then show ?case unfolding irq_def by (rule mframe_signal_then) (auto intro: mframe_SignalI mframe_switch)
next
  case (broadcast esp flags s s')
  then show ?case unfolding chEvtBroadcastFlags_def by (rule mframe_signal_then) (auto intro: mframe_broadcast mframe_switch)
next
  case (broadcast_irq esp flags s s')
  then show ?case unfolding irq_def by (rule mframe_signal_then) (auto intro: mframe_broadcast mframe_switch)
qed (unfold chEvtWait_eq chEvtWaitTimeout_eq, (erule mframe_evt_wait mframe_evt_wait_timeout)+)

end
