(* ===== verification/Mutex_Calls.thy ===== *)
theory Mutex_Calls
  imports Kernel_Frames
begin

text \<open>
  The calls of \<^verbatim>\<open>chmtx.c\<close> return and keep the invariants of the kernel and of the mutexes; so do the calls that make, end and
  reprioritise threads.
\<close>

section \<open>Owners and their lists\<close>

lemma mtx_list_unique: "mtx_list f p xs \<Longrightarrow> mtx_list f p ys \<Longrightarrow> xs = ys"
proof (induction xs arbitrary: p ys)
  case Nil then show ?case by (cases ys) auto
next
  case (Cons x xs) then show ?case by (cases ys) auto
qed

lemma owns_unique: "owns k t xs \<Longrightarrow> owns k t ys \<Longrightarrow> xs = ys"
  using mtx_list_unique by (auto simp: owns_def)

lemma owns_other:
  assumes "owns k t ms" "m_owner k mp \<noteq> t" "x \<noteq> t" "m_owner k' = (m_owner k)(mp := x)" "\<And>m. m \<noteq> mp \<Longrightarrow> m_next k' m = m_next k m"
    "p_mtxlist (thr k' t) = p_mtxlist (thr k t)"
  shows "owns k' t ms"
proof -
  have "mp \<notin> set ms" using assms(1,2) by (auto simp: owns_def)
  then have "mtx_list (m_next k') p ms = mtx_list (m_next k) p ms" for p using assms(5) by (intro mtx_list_cong) metis
  then show ?thesis using assms by (auto simp: owns_def)
qed

lemma owns_give:
  assumes "owns k t (mp # ms)" "x \<noteq> t" "m_owner k' = (m_owner k)(mp := x)" "\<And>m. m \<noteq> mp \<Longrightarrow> m_next k' m = m_next k m"
    "p_mtxlist (thr k' t) = m_next k mp"
  shows "owns k' t ms"
proof -
  have "mp \<notin> set ms" using assms(1) by (auto simp: owns_def)
  then have "mtx_list (m_next k') p ms = mtx_list (m_next k) p ms" for p using assms(4) by (intro mtx_list_cong) metis
  moreover have "set ms = {m. m_owner k' m = t}" using assms(1-3) by (auto simp: owns_def)
  ultimately show ?thesis using assms by (auto simp: owns_def)
qed

lemma owns_take:
  assumes "owns k t ms" "m_owner k mp \<noteq> t" "mp \<noteq> 0" "m_owner k' = (m_owner k)(mp := t)"
    "m_next k' = (m_next k)(mp := p_mtxlist (thr k t))" "p_mtxlist (thr k' t) = mp"
  shows "owns k' t (mp # ms)"
proof -
  have "mp \<notin> set ms" using assms(1,2) by (auto simp: owns_def)
  then have "mtx_list (m_next k') p ms = mtx_list (m_next k) p ms" for p using assms(5) by (intro mtx_list_cong) auto
  then show ?thesis using assms \<open>mp \<notin> set ms\<close> by (auto simp: owns_def)
qed

lemma owned_first:
  assumes ok: "mtx_ok k" and t: "t \<in> set (registry k)" and mp: "p_mtxlist (thr k t) = mp" "mp \<noteq> 0"
  obtains ms where "owns k t (mp # ms)" "m_owner k mp = t" "mtx_list (m_next k) (m_next k mp) ms"
proof -
  obtain ms where ms: "owns k t ms" using mtx_okD(2) [OF ok t] by blast
  then have "ms = mp # tl ms" using mp by (cases ms) (auto simp: owns_def)
  then obtain ms' where "owns k t (mp # ms')" using ms by metis
  then show ?thesis by (intro that [of ms']) (auto simp: owns_def)
qed

text \<open>The priority \<^verbatim>\<open>chMtxUnlock\<close> computes.\<close>

definition newprio_of :: "kernel \<Rightarrow> u32 \<Rightarrow> u32 list \<Rightarrow> u32" where
  "newprio_of k = foldl (\<lambda>n m. if queues k (Mtx m) \<noteq> [] \<and> prio k (hd (queues k (Mtx m))) > n then prio k (hd (queues k (Mtx m))) else n)"

lemma mtx_newprio_eq: "mtx_list (m_next k) p ms \<Longrightarrow> mtx_newprio p n k = Some (newprio_of k n ms)"
proof (induction ms arbitrary: p n)
  case Nil
  then show ?case by (simp add: mtx_newprio.simps newprio_of_def)
next
  case (Cons m ms)
  then show ?case by (subst mtx_newprio.simps) (simp add: newprio_of_def)
qed

lemma newprio_of_ge: "n \<le> newprio_of k n ms"
proof (induction ms arbitrary: n)
  case (Cons m ms)
  show ?case using Cons [of n] Cons [of "prio k (hd (queues k (Mtx m)))"] by (auto simp: newprio_of_def)
qed (simp add: newprio_of_def)

lemma newprio_of_upper: "m \<in> set ms \<Longrightarrow> queues k (Mtx m) \<noteq> [] \<Longrightarrow> prio k (hd (queues k (Mtx m))) \<le> newprio_of k n ms"
proof (induction ms arbitrary: n)
  case (Cons a ms)
  let ?n = "if queues k (Mtx a) \<noteq> [] \<and> prio k (hd (queues k (Mtx a))) > n then prio k (hd (queues k (Mtx a))) else n"
  have e: "newprio_of k n (a # ms) = newprio_of k ?n ms" by (simp add: newprio_of_def)
  show ?case
  proof (cases "m = a")
    case True
    then have "prio k (hd (queues k (Mtx m))) \<le> ?n" using Cons.prems by auto
    then show ?thesis unfolding e using newprio_of_ge order_trans by blast
  next
    case False
    then show ?thesis unfolding e using Cons by simp
  qed
qed simp

lemma newprio_of_attained:
  "newprio_of k n ms = n \<or> (\<exists>m \<in> set ms. queues k (Mtx m) \<noteq> [] \<and> newprio_of k n ms = prio k (hd (queues k (Mtx m))))"
proof (induction ms arbitrary: n)
  case (Cons a ms)
  let ?n = "if queues k (Mtx a) \<noteq> [] \<and> prio k (hd (queues k (Mtx a))) > n then prio k (hd (queues k (Mtx a))) else n"
  have e: "newprio_of k n (a # ms) = newprio_of k ?n ms" by (simp add: newprio_of_def)
  show ?case unfolding e using Cons [of ?n] by (auto split: if_splits)
qed (simp add: newprio_of_def)

section \<open>Locking\<close>

lemma mtx_enqueue_simps [simp]:
  "currp (mtx_enqueue mp k) = currp k" "registry (mtx_enqueue mp k) = registry k" "pend (mtx_enqueue mp k) = pend k"
  "m_owner (mtx_enqueue mp k) = m_owner k" "m_next (mtx_enqueue mp k) = m_next k" "ret (mtx_enqueue mp k) = ret k"
  "s_cnt (mtx_enqueue mp k) = s_cnt k" "tref (mtx_enqueue mp k) = tref k"
  "queues (mtx_enqueue mp k) = (queues k)(Mtx mp := insert_prio (prio k) True (currp k) (queues k (Mtx mp)))"
  "thr (mtx_enqueue mp k) = (thr k)(currp k := (thr k (currp k))\<lparr>p_u := mp\<rparr>)"
  by (simp_all add: mtx_enqueue_def Let_def)

lemma insert_prio_not_nil [simp]: "insert_prio pr ge t xs \<noteq> []"
  by (cases xs) auto

lemma blocked_mtx:
  assumes run: "run_ok k"
  shows "blocked CH_STATE_WTMTX (mtx_enqueue mp k)"
proof -
  note R = run_okD [OF run]
  let ?c = "currp k"
  let ?k = "set_thr ?c (\<lambda>t. t\<lparr>p_u := mp, p_state := CH_STATE_WTMTX\<rparr>) k"
  let ?k' = "set_p_state ?c CH_STATE_WTMTX (mtx_enqueue mp k)"
  have c: "kcore {?c} ?k" by (rule set_thr_core [OF R(1)]) (use R in auto)
  have "kcore ({?c} - {?c}) ?k'"
    by (rule release_queue_at_core [OF c, where q = "Mtx mp"])
      (use R kcoreD(1) [OF R(1)] kcoreD(3) [OF R(1), of ?c "Mtx mp"] kcoreD(8) [OF R(1)] in \<open>auto simp: sems_ok_def\<close>)
  then show ?thesis by (simp add: blocked_def)
qed

lemma mtx_own_ok:
  assumes run: "run_ok k"
  shows "stays k (mtx_own mp (currp k) k)"
proof -
  note R = run_okD [OF run]
  have "run_ok (mtx_own mp (currp k) k)" using mtx_own_core [OF R(1)] R by (simp add: run_ok_def)
  moreover have "keeps_timed k (mtx_own mp (currp k) k)" by (rule keeps_timed_cong) auto
  ultimately show ?thesis by (simp add: stays_def)
qed

lemma mtx_own_mtx_ok:
  assumes ok: "mtx_ok k" and z: "0 \<notin> set (registry k)" and t: "t \<in> set (registry k)" "p_state (thr k t) \<noteq> CH_STATE_FINAL"
    and mp: "mp \<noteq> 0" "m_owner k mp = 0"
  shows "mtx_ok (mtx_own mp t k)"
proof (rule mtx_okI)
  fix u assume "u \<in> set (registry (mtx_own mp t k))"
  then have u: "u \<in> set (registry k)" "u \<noteq> 0" using z by auto
  then obtain ms where ms: "owns k u ms" using mtx_okD(2) [OF ok] by blast
  show "\<exists>ms. owns (mtx_own mp t k) u ms"
  proof (cases "u = t")
    case True
    then show ?thesis using owns_take [OF ms, of mp "mtx_own mp t k"] mp u by auto
  next
    case False
    then show ?thesis using owns_other [OF ms, of mp t "mtx_own mp t k"] mp u by auto
  qed
qed (use mtx_okD(1,3,4,5) [OF ok] t z mp in \<open>auto split: if_splits\<close>)

lemma MtxLockS_free:
  assumes run: "run_ok k" and ok: "mtx_ok k" and mp: "mp \<noteq> 0" "m_owner k mp = 0"
  shows "chMtxLockS mp k = Some (mtx_own mp (currp k) k)" "stays k (mtx_own mp (currp k) k)" "mtx_ok (mtx_own mp (currp k) k)"
proof -
  note R = run_okD [OF run]
  show "mtx_ok (mtx_own mp (currp k) k)" using R kcoreD(20) [OF R(1)] by (intro mtx_own_mtx_ok ok mp) simp_all
qed (use mtx_own_ok [OF run] mp in \<open>simp_all add: chMtxLockS_def\<close>)

lemma MtxLockS_owned:
  assumes run: "run_ok k" and pn: "pend k (currp k) = None" and ok: "mtx_ok k" and mp: "m_owner k mp \<noteq> 0"
  obtains k1 where "mtx_boost (m_owner k mp) k = Some k1" "run_ok k1" "boosted k k1"
    "queues k RList = [] \<Longrightarrow> chMtxLockS mp k = None"
    "queues k RList \<noteq> [] \<Longrightarrow> \<exists>k'. chMtxLockS mp k = Some k' \<and> sched_ok k' \<and> keeps_timed k k' \<and> mtx_ok k' \<and> mframe {} (mtx_enqueue mp k1) k'"
proof -
  obtain k1 where k1: "mtx_boost (m_owner k mp) k = Some k1" "run_ok k1" "boosted k k1"
    using mtx_boost_ok [OF run ok mtx_okD(3) [OF ok mp]] by blast
  note B = boostedD [OF k1(3)]
  have e: "chMtxLockS mp k = chSchGoSleepS CH_STATE_WTMTX (mtx_enqueue mp k1)" using mp k1(1) by (simp add: chMtxLockS_def)
  have "\<exists>k'. chMtxLockS mp k = Some k' \<and> sched_ok k' \<and> keeps_timed k k' \<and> mtx_ok k' \<and> mframe {} (mtx_enqueue mp k1) k'"
    if ne: "queues k RList \<noteq> []"
  proof -
    have t: "keeps_timed k (set_p_state (currp (mtx_enqueue mp k1)) CH_STATE_WTMTX (mtx_enqueue mp k1))"
      using pn B by (auto simp: keeps_timed_def waits_on_def)
    have "queues (mtx_enqueue mp k1) RList \<noteq> []" using ne B(7) by simp
    then obtain k' where k': "chSchGoSleepS CH_STATE_WTMTX (mtx_enqueue mp k1) = Some k'" "sched_ok k'" "keeps_timed k k'"
      using go_sleep_blocked [OF blocked_mtx [OF k1(2)] _ t] by blast
    have f: "mframe {} (mtx_enqueue mp k1) k'" by (rule mframe_GoSleepS [OF k'(1)]) simp
    have "mtx_ok (mtx_enqueue mp k1)"
    proof (rule mtx_okI)
      note M = mtx_okD [OF boosted_mtx_ok [OF k1(3) ok]]
      show "\<exists>ms. owns (mtx_enqueue mp k1) t ms" if "t \<in> set (registry (mtx_enqueue mp k1))" for t
        using that M(2) [of t] by (auto simp: owns_def)
      show "m_owner (mtx_enqueue mp k1) m \<noteq> 0" if "queues (mtx_enqueue mp k1) (Mtx m) \<noteq> []" for m
        using that M(5) [of m] mp B(4) by (auto split: if_splits)
      show "m_owner (mtx_enqueue mp k1) m \<in> set (registry (mtx_enqueue mp k1))
        \<and> p_state (thr (mtx_enqueue mp k1) (m_owner (mtx_enqueue mp k1) m)) \<noteq> CH_STATE_FINAL" if "m_owner (mtx_enqueue mp k1) m \<noteq> 0" for m
        using that M(3,4) [of m] by auto
    qed (use mtx_okD(1) [OF boosted_mtx_ok [OF k1(3) ok]] in auto)
    then have "mtx_ok k'" by (rule mframe_mtx_ok [OF f]) simp
    then show ?thesis using e k' f by auto
  qed
  moreover have "chMtxLockS mp k = None" if "queues k RList = []" unfolding e using that B(7) by (intro go_sleep_empty) simp
  ultimately show ?thesis using k1 by (intro that)
qed

lemma mtx_lock_ok:
  assumes inv: "kinv s" and ok: "mtx_ok (vtimers.more s)" and mp: "mp \<noteq> 0"
    and ne: "m_owner (vtimers.more s) mp = 0 \<or> queues (vtimers.more s) RList \<noteq> []"
  shows "\<exists>s'. chMtxLock mp s = Some s' \<and> kinv s' \<and> mtx_ok (vtimers.more s')"
proof -
  let ?k = "vtimers.more s"
  obtain k' where k': "chMtxLockS mp ?k = Some k'" "sched_ok k'" "keeps_timed ?k k'" "mtx_ok k'"
  proof (cases "m_owner ?k mp = 0")
    case True
    note F = MtxLockS_free [OF kinvD(1) [OF inv] ok mp True]
    have "sched_ok (mtx_own mp (currp ?k) ?k)" using F(2) kinvD(2) [OF inv] by (auto simp: stays_def sched_ok_def)
    then show ?thesis using F by (intro that) (auto simp: stays_def)
  next
    case False
    then show ?thesis using that ne by (auto intro: MtxLockS_owned [OF kinvD(1,4) [OF inv] ok False])
  qed
  obtain s' where s': "map_option resume (lift (chMtxLockS mp) s) = Some s'" "kinv s'"
    using lift_resume_ok [of "chMtxLockS mp" s k'] k' kinvD(3) [OF inv] by blast
  have "s' = resume (vtimers.more_update (\<lambda>_. k') s)" using s'(1) k'(1) by (simp add: lift_def)
  then have "mtx_ok (vtimers.more s')" using k'(4) mframe_mtx_ok [OF mframe_resume [of "{}" "vtimers.more_update (\<lambda>_. k') s"]] by simp
  then show ?thesis using s' by (auto simp: chMtxLock_def)
qed


lemma TryLockS_ok:
  assumes run: "run_ok k" and ok: "mtx_ok k" and mp: "mp \<noteq> 0"
  shows "stays k (chMtxTryLockS mp k)" "mtx_ok (chMtxTryLockS mp k)"
proof -
  have r: "stays k1 (return v k1)" if "run_ok k1" for v k1
    using that kcore_cong [of "return v k1" k1] by (simp add: stays_def run_ok_def)
  note F = MtxLockS_free [OF run ok mp]
  show "stays k (chMtxTryLockS mp k)"
    using F(2) r [OF run] stays_trans [OF F(2) r] by (auto simp: chMtxTryLockS_def stays_def)
  show "mtx_ok (chMtxTryLockS mp k)"
    using F(3) ok mframe_mtx_ok [OF mframe_simple(1) [where F = "{}"]] by (auto simp: chMtxTryLockS_def)
qed

section \<open>Unlocking\<close>

text \<open>The first thread of the queue is taken in hand and gets the mutex.\<close>

lemma hand_over_ok:
  assumes run: "run_ok k" and q: "queues k (Mtx mp) = tp # ts"
  defines "k' \<equiv> make_ready True tp (mtx_own mp tp (set_queue (Mtx mp) ts k))"
  shows "mtx_hand_over mp k = Some k'" "stays k k'" "tp \<in> set (registry k)" "tp \<noteq> currp k" "p_state (thr k tp) = CH_STATE_WTMTX"
proof -
  note R = run_okD [OF run]
  have t: "tp \<in> set (queues k (Mtx mp))" using q by simp
  show reg: "tp \<in> set (registry k)" and n: "tp \<noteq> currp k" using kcoreD(3,4) [OF R(1) t] by auto
  show o: "p_state (thr k tp) = CH_STATE_WTMTX" using kcoreD(5) [OF R(1) t] by auto
  have "prio k tp \<noteq> 0" using kcoreD(21) [OF R(1) reg] .
  then show "mtx_hand_over mp k = Some k'" by (simp add: mtx_hand_over_def q run_ok_ready k'_def)
  have "kcore {tp, currp k} (set_queue (Mtx mp) ts k)"
    by (rule grab_by_state [OF R(1) reg]) (use n o queue_take [OF R(1), of "Mtx mp" "[]" tp ts] q in auto)
  then have "kcore {tp, currp k} (mtx_own mp tp (set_queue (Mtx mp) ts k))" by (rule mtx_own_core)
  then have "kcore ({tp, currp k} - {tp}) k'" unfolding k'_def by (rule make_ready_core) (use reg in auto)
  moreover have "{tp, currp k} - {tp} = {currp k}" using n by auto
  moreover have "p_state (thr k' t) = (if t = tp then CH_STATE_READY else p_state (thr k t))" for t by (simp add: k'_def)
  ultimately have "run_ok k'" using R n by (simp add: run_ok_def k'_def)
  moreover have "keeps_timed k k'" unfolding k'_def
    by (rule keeps_timed_trans [OF keeps_timed_cong keeps_timed_make_ready]) auto
  ultimately show "stays k k'" by (simp add: stays_def k'_def)
qed

text \<open>The running thread takes the mutex off its list.\<close>

lemma drop_first_ok:
  assumes run: "run_ok k" and f: "\<And>t. p_state (f t) = p_state t" "\<And>t. p_u (f t) = p_u t" "\<And>t. p_waiting (f t) = p_waiting t"
    and pr: "p_prio (f (thr k (currp k))) \<noteq> 0"
  shows "stays k (set_thr (currp k) f k)"
proof -
  note R = run_okD [OF run]
  have "kcore {currp k} (set_thr (currp k) f k)" by (rule set_thr_core [OF R(1)]) (use f pr in auto)
  then have "run_ok (set_thr (currp k) f k)" using R f by (simp add: run_ok_def)
  moreover have "keeps_timed k (set_thr (currp k) f k)" by (rule keeps_timed_cong) (use f in auto)
  ultimately show ?thesis by (simp add: stays_def)
qed

text \<open>The mutex goes from one thread to another one, or to none.\<close>

lemma release_mtx_ok:
  assumes ok: "mtx_ok k" and z: "0 \<notin> set (registry k)" and c: "c \<in> set (registry k)" and l: "owns k c (mp # ms)"
    and x: "x = 0 \<or> x \<in> set (registry k) \<and> p_state (thr k x) \<noteq> CH_STATE_FINAL \<and> x \<noteq> c"
    and k': "registry k' = registry k" "m_owner k' = (m_owner k)(mp := x)"
      "m_next k' = (if x = 0 then m_next k else (m_next k)(mp := p_mtxlist (thr k x)))"
      "\<And>t. p_mtxlist (thr k' t) = (if t = c then m_next k mp else if t = x \<and> x \<noteq> 0 then mp else p_mtxlist (thr k t))"
      "\<And>t. p_realprio (thr k' t) = p_realprio (thr k t)" "\<And>t. p_state (thr k' t) = CH_STATE_FINAL \<Longrightarrow> p_state (thr k t) = CH_STATE_FINAL"
    and q: "\<And>m. queues k' (Mtx m) \<noteq> [] \<Longrightarrow> queues k (Mtx m) \<noteq> [] \<and> (m = mp \<longrightarrow> x \<noteq> 0)"
  shows "mtx_ok k'"
proof (rule mtx_okI, unfold k'(1))
  have mp: "mp \<noteq> 0" "m_owner k mp = c" using l by (auto simp: owns_def)
  have xc: "x \<noteq> c" using x c z by auto
  have nx: "m_next k' m = m_next k m" if "m \<noteq> mp" for m using that by (simp add: k')
  fix u assume u: "u \<in> set (registry k)"
  then obtain ls where ls: "owns k u ls" using mtx_okD(2) [OF ok] by blast
  consider "u = c" | "u = x" | "u \<noteq> c" "u \<noteq> x" by blast
  then show "\<exists>ms. owns k' u ms"
  proof cases
    case 1
    then show ?thesis using owns_give [OF l xc k'(2) nx] k'(4) [of c] by auto
  next
    case 2
    then have "x \<noteq> 0" using u z by auto
    then show ?thesis using owns_take [OF ls _ mp(1), of k'] 2 mp xc k'(2-4) by auto
  next
    case 3
    then show ?thesis using owns_other [OF ls _ _ k'(2) nx] mp k'(4) by auto
  qed
next
  fix m assume "m_owner k' m \<noteq> 0"
  then show "m_owner k' m \<in> set (registry k) \<and> p_state (thr k' (m_owner k' m)) \<noteq> CH_STATE_FINAL"
    using mtx_okD(3,4) [OF ok, of m] x k'(6) [of "m_owner k' m"] by (auto simp: k'(2) split: if_splits)
next
  fix m assume "queues k' (Mtx m) \<noteq> []"
  then show "m_owner k' m \<noteq> 0" using q [of m] mtx_okD(5) [OF ok, of m] by (auto simp: k'(2))
qed (use mtx_okD(1) [OF ok] k'(5) in simp)


text \<open>The state after \<open>mp\<close> is taken off the list of the running thread, whose priority becomes \<open>v\<close> if a thread waits for \<open>mp\<close>.\<close>

definition released :: "u32 \<Rightarrow> u32 \<Rightarrow> kernel \<Rightarrow> kernel" where
  "released mp v k =
     (let c = currp k; k = set_p_mtxlist c (m_next k mp) k
      in case queues k (Mtx mp) of
           [] \<Rightarrow> set_m_owner mp 0 k
         | tp # ts \<Rightarrow> make_ready True tp (mtx_own mp tp (set_queue (Mtx mp) ts (set_p_prio c v k))))"

lemma released_ok:
  assumes run: "run_ok k" and ok: "mtx_ok k" and l: "owns k (currp k) (mp # ms)" and v: "v \<noteq> 0"
  shows "stays k (released mp v k)" "mtx_ok (released mp v k)"
    "queues k (Mtx mp) \<noteq> [] \<Longrightarrow> mtx_hand_over mp (set_p_prio (currp k) v (set_p_mtxlist (currp k) (m_next k mp) k)) = Some (released mp v k)"
proof -
  note R = run_okD [OF run]
  let ?c = "currp k"
  let ?k1 = "set_p_mtxlist ?c (m_next k mp) k"
  note z = kcoreD(20) [OF R(1)]
  note M = release_mtx_ok [OF ok z R(2) l]
  have "stays k (released mp v k) \<and> mtx_ok (released mp v k)
    \<and> (queues k (Mtx mp) \<noteq> [] \<longrightarrow> mtx_hand_over mp (set_p_prio ?c v ?k1) = Some (released mp v k))"
  proof (cases "queues k (Mtx mp)")
    case Nil
    then have e: "released mp v k = set_m_owner mp 0 ?k1" by (simp add: released_def Let_def)
    have 1: "stays k ?k1" by (rule drop_first_ok [OF run]) (use R in simp_all)
    have "mtx_ok (set_m_owner mp 0 ?k1)" by (rule M [of 0]) (use Nil z R(2) in \<open>auto split: if_splits\<close>)
    then show ?thesis unfolding e using Nil 1 set_m_owner_core [of _ mp 0 ?k1]
      by (auto simp: stays_def run_ok_def intro: keeps_timed_trans keeps_timed_cong)
  next
    case (Cons tp ts)
    let ?k2 = "set_p_prio ?c v ?k1"
    have 2: "stays k ?k2" using drop_first_ok [OF run, of "\<lambda>t. t\<lparr>p_mtxlist := m_next k mp, p_prio := v\<rparr>"] v by simp
    then have r2: "run_ok ?k2" by (simp add: stays_def)
    have q: "queues ?k2 (Mtx mp) = tp # ts" using Cons by simp
    note H = hand_over_ok [OF r2 q]
    have e: "released mp v k = make_ready True tp (mtx_own mp tp (set_queue (Mtx mp) ts ?k2))" using Cons by (simp add: released_def Let_def)
    have "mtx_ok (released mp v k)" unfolding e
      by (rule M [of tp]) (use H(3-5) z Cons in \<open>auto simp: make_ready_def split: if_splits\<close>)
    moreover have "stays k (released mp v k)" unfolding e by (rule stays_trans [OF 2]) (use H(2) in simp)
    ultimately show ?thesis using H(1) e by simp
  qed
  then show "stays k (released mp v k)" "mtx_ok (released mp v k)"
    "queues k (Mtx mp) \<noteq> [] \<Longrightarrow> mtx_hand_over mp (set_p_prio ?c v ?k1) = Some (released mp v k)" by auto
qed

lemma UnlockS_ok:
  assumes run: "run_ok k" and ok: "mtx_ok k" and mp: "p_mtxlist (thr k (currp k)) = mp" "mp \<noteq> 0"
  obtains ms v where "owns k (currp k) (mp # ms)" "v = newprio_of k (p_realprio (thr k (currp k))) ms"
    "chMtxUnlockS mp k = Some (released mp v k)" "stays k (released mp v k)" "mtx_ok (released mp v k)"
proof -
  note R = run_okD [OF run]
  let ?c = "currp k"
  let ?k1 = "set_p_mtxlist ?c (m_next k mp) k"
  obtain ms where ms: "owns k ?c (mp # ms)" "mtx_list (m_next k) (m_next k mp) ms" using owned_first [OF ok R(2) mp] by blast
  define v where "v = newprio_of k (p_realprio (thr k ?c)) ms"
  have "v \<noteq> 0" using newprio_of_ge [of "p_realprio (thr k ?c)" k ms] mtx_okD(1) [OF ok R(2)] by (auto simp: v_def)
  note O = released_ok [OF run ok ms(1) this]
  have "newprio_of ?k1 = newprio_of k"
  proof -
    have "prio ?k1 t = prio k t" for t by simp
    then show ?thesis unfolding newprio_of_def by (simp only: kernel_set_simps)
  qed
  then have n: "mtx_newprio (p_mtxlist (thr ?k1 ?c)) (p_realprio (thr ?k1 ?c)) ?k1 = Some v"
    using mtx_newprio_eq [of ?k1 "m_next k mp" ms] ms(2) by (simp add: v_def)
  have "chMtxUnlockS mp k = Some (released mp v k)"
  proof (cases "queues k (Mtx mp)")
    case Nil
    then show ?thesis by (simp add: chMtxUnlockS_def released_def Let_def)
  next
    case (Cons tp ts)
    then show ?thesis using O(3) n by (simp add: chMtxUnlockS_def Let_def)
  qed
  then show ?thesis using that ms(1) v_def O by blast
qed


lemma call_mtx_ok:
  assumes f: "f (vtimers.more s) = Some k'" and k': "sched_ok k'" "keeps_timed (vtimers.more s) k'" "mtx_ok k'" and t: "timers_ok s"
  shows "\<exists>s'. map_option resume (lift f s) = Some s' \<and> kinv s' \<and> mtx_ok (vtimers.more s') \<and> mframe {} k' (vtimers.more s')"
proof -
  have m: "mframe {} k' (vtimers.more (resume (vtimers.more_update (\<lambda>_. k') s)))"
    using mframe_resume [of "{}" "vtimers.more_update (\<lambda>_. k') s"] by simp
  have "mtx_ok (vtimers.more (resume (vtimers.more_update (\<lambda>_. k') s)))" by (rule mframe_mtx_ok [OF m k'(3)]) simp
  then show ?thesis using lift_resume_ok [of f s k', OF f k'(1,2) t] f m by (simp add: lift_def)
qed

lemma mtx_unlock_ok:
  assumes inv: "kinv s" and ok: "mtx_ok (vtimers.more s)" and mp: "p_mtxlist (thr (vtimers.more s) (currp (vtimers.more s))) = mp" "mp \<noteq> 0"
  obtains s' ms v where "owns (vtimers.more s) (currp (vtimers.more s)) (mp # ms)"
    "v = newprio_of (vtimers.more s) (p_realprio (thr (vtimers.more s) (currp (vtimers.more s)))) ms"
    "chMtxUnlock mp s = Some s'" "kinv s'" "mtx_ok (vtimers.more s')" "mframe {} (released mp v (vtimers.more s)) (vtimers.more s')"
proof -
  let ?k = "vtimers.more s"
  obtain ms v where u: "owns ?k (currp ?k) (mp # ms)" "v = newprio_of ?k (p_realprio (thr ?k (currp ?k))) ms"
    "chMtxUnlockS mp ?k = Some (released mp v ?k)" "stays ?k (released mp v ?k)" "mtx_ok (released mp v ?k)"
    by (rule UnlockS_ok [OF kinvD(1) [OF inv] ok mp])
  obtain k' where k': "mtx_unlock mp ?k = Some k'" "sched_ok k'" "keeps_timed ?k k'" "mframe {} (released mp v ?k) k'"
  proof (cases "queues ?k (Mtx mp) = []")
    case True
    have "sched_ok (released mp v ?k)" using True u(4) kinvD(2) [OF inv] by (auto simp: stays_def sched_ok_def released_def Let_def)
    then show ?thesis using that [of "released mp v ?k"] True u(3,4) by (simp add: mtx_unlock_def stays_def)
  next
    case False
    have "run_ok (released mp v ?k)" using u(4) by (simp add: stays_def)
    then obtain k' where k': "chSchRescheduleS (released mp v ?k) = Some k'" "switched (released mp v ?k) k'" using RescheduleS_ok by blast
    then show ?thesis using that [of k'] False u(3,4) mframe_switch(1) [OF k'(1)]
      by (auto simp: mtx_unlock_def switched_def stays_def intro: keeps_timed_trans)
  qed
  have "mtx_ok k'" by (rule mframe_mtx_ok [OF k'(4) u(5)]) simp
  from call_mtx_ok [of "mtx_unlock mp" s k', OF k'(1-3) this kinvD(3) [OF inv]] obtain s' where s': "chMtxUnlock mp s = Some s'" "kinv s'"
    "mtx_ok (vtimers.more s')" "mframe {} k' (vtimers.more s')" by (auto simp: chMtxUnlock_def)
  show ?thesis by (rule that [OF u(1,2) s'(1-3) mframe_trans [OF k'(4) s'(4)]])
qed

definition release_all :: "u32 list \<Rightarrow> kernel \<Rightarrow> kernel" where
  "release_all ms k = foldl (\<lambda>k m. released m (prio k (currp k)) k) k ms"

lemma set_p_prio_same: "set_p_prio c (prio k c) k = k"
  by (simp add: set_thr_def)

lemma released_owns:
  assumes run: "run_ok k" and l: "owns k (currp k) (mp # ms)"
  shows "owns (released mp v k) (currp k) ms"
proof (cases "queues k (Mtx mp)")
  case Nil
  have "currp k \<noteq> 0" using run_okD(2) [OF run] kcoreD(20) [OF run_okD(1) [OF run]] by metis
  then show ?thesis using Nil by (intro owns_give [OF l, of 0]) (simp_all add: released_def Let_def)
next
  case (Cons tp ts)
  then have "tp \<noteq> currp k" using kcoreD(3) [OF run_okD(1) [OF run], of tp "Mtx mp"] by auto
  then show ?thesis using Cons by (intro owns_give [OF l, of tp]) (simp_all add: released_def Let_def make_ready_def)
qed

lemma mtx_unlock_loop_ok:
  assumes "run_ok k" "mtx_ok k" "owns k (currp k) ms"
  shows "mtx_unlock_loop k = Some (release_all ms k) \<and> stays k (release_all ms k) \<and> mtx_ok (release_all ms k)
    \<and> owns (release_all ms k) (currp k) []"
  using assms
proof (induction ms arbitrary: k)
  case Nil
  then show ?case by (subst mtx_unlock_loop.simps) (simp add: release_all_def owns_def stays_refl)
next
  case (Cons mp ms)
  let ?c = "currp k" and ?k' = "released mp (prio k (currp k)) k"
  note R = run_okD [OF Cons.prems(1)]
  note O = released_ok [OF Cons.prems R(4)]
  have mp: "p_mtxlist (thr k ?c) = mp" "mp \<noteq> 0" using Cons.prems(3) by (auto simp: owns_def)
  have c: "currp ?k' = ?c" using O(1) by (simp add: stays_def)
  have "mtx_unlock_loop k = mtx_unlock_loop ?k'"
  proof (cases "queues k (Mtx mp) = []")
    case True
    then show ?thesis using mp by (subst mtx_unlock_loop.simps) (simp add: released_def Let_def)
  next
    case False
    have "set_p_prio ?c (prio k ?c) (set_p_mtxlist ?c (m_next k mp) k) = set_p_mtxlist ?c (m_next k mp) k"
      using set_p_prio_same [of ?c "set_p_mtxlist ?c (m_next k mp) k"] by (simp del: set_thr_twice)
    then show ?thesis using mp False O(3) by (subst mtx_unlock_loop.simps) (simp add: Let_def del: set_thr_twice)
  qed
  moreover have "run_ok ?k'" "owns ?k' (currp ?k') ms" using O(1) released_owns [OF Cons.prems(1,3)] c by (simp_all add: stays_def)
  then have "mtx_unlock_loop ?k' = Some (release_all ms ?k') \<and> stays ?k' (release_all ms ?k') \<and> mtx_ok (release_all ms ?k')
    \<and> owns (release_all ms ?k') (currp ?k') []" using Cons.IH O(2) by blast
  ultimately show ?case using c stays_trans [OF O(1)] by (simp add: release_all_def)
qed

lemma mtx_unlock_all_ok:
  assumes inv: "kinv s" and ok: "mtx_ok (vtimers.more s)"
  obtains s' where "chMtxUnlockAll s = Some s'" "kinv s'" "mtx_ok (vtimers.more s')"
    "p_mtxlist (thr (vtimers.more s) (currp (vtimers.more s))) = 0 \<Longrightarrow> mframe {} (vtimers.more s) (vtimers.more s')"
    "\<And>ms. owns (vtimers.more s) (currp (vtimers.more s)) ms \<Longrightarrow> ms \<noteq> [] \<Longrightarrow>
      mframe {} (set_thr (currp (vtimers.more s)) (\<lambda>t. t\<lparr>p_prio := p_realprio t\<rparr>) (release_all ms (vtimers.more s))) (vtimers.more s')"
proof -
  let ?k = "vtimers.more s"
  let ?c = "currp ?k"
  note R = run_okD [OF kinvD(1) [OF inv]]
  obtain ms where ms: "owns ?k ?c ms" using mtx_okD(2) [OF ok R(2)] by blast
  show ?thesis
  proof (cases "ms = []")
    case True
    then have z: "p_mtxlist (thr ?k ?c) = 0" using ms by (simp add: owns_def)
    then have "mtx_unlock_all ?k = Some ?k" by (simp add: mtx_unlock_all_def)
    from call_mtx_ok [of mtx_unlock_all s ?k, OF this kinvD(2) [OF inv] _ ok kinvD(3) [OF inv]] obtain s' where s': "chMtxUnlockAll s = Some s'" "kinv s'"
      "mtx_ok (vtimers.more s')" "mframe {} ?k (vtimers.more s')" by (auto simp: chMtxUnlockAll_def keeps_timed_def)
    show ?thesis by (rule that [OF s'(1-3)]) (use s'(4) owns_unique [OF _ ms] True in auto)
  next
    case False
    then have nz: "p_mtxlist (thr ?k ?c) \<noteq> 0" using ms by (cases ms) (auto simp: owns_def)
    let ?k1 = "release_all ms ?k"
    let ?k2 = "set_thr ?c (\<lambda>t. t\<lparr>p_prio := p_realprio t\<rparr>) ?k1"
    note L = mtx_unlock_loop_ok [OF kinvD(1) [OF inv] ok ms]
    then have 1: "stays ?k ?k1" "currp ?k1 = ?c" "run_ok ?k1" "registry ?k1 = registry ?k" by (auto simp: stays_def)
    have 2: "stays ?k1 ?k2"
      using drop_first_ok [OF 1(3), of "\<lambda>t. t\<lparr>p_prio := p_realprio t\<rparr>"] mtx_okD(1) [of ?k1 ?c] L R(2) 1 by simp
    have ok2: "mtx_ok ?k2" using L by (intro mtx_ok_cong [of ?k2 ?k1]) (auto split: if_splits)
    obtain k' where k': "chSchRescheduleS ?k2 = Some k'" "switched ?k2 k'" using RescheduleS_ok 2 by (auto simp: stays_def)
    have f: "mframe {} ?k2 k'" by (rule mframe_switch(1) [OF k'(1)])
    have "mtx_ok k'" by (rule mframe_mtx_ok [OF f ok2]) simp
    moreover have "mtx_unlock_all ?k = Some k'" using nz L k'(1) by (simp add: mtx_unlock_all_def Let_def)
    moreover have "sched_ok k'" "keeps_timed ?k k'" using k'(2) stays_trans [OF 1(1) 2]
      by (auto simp: switched_def stays_def intro: keeps_timed_trans)
    ultimately obtain s' where s': "chMtxUnlockAll s = Some s'" "kinv s'" "mtx_ok (vtimers.more s')" "mframe {} k' (vtimers.more s')"
      using call_mtx_ok [of mtx_unlock_all s k'] kinvD(3) [OF inv] by (auto simp: chMtxUnlockAll_def)
    show ?thesis
    proof (rule that [OF s'(1-3)])
      show "mframe {} (set_thr ?c (\<lambda>t. t\<lparr>p_prio := p_realprio t\<rparr>) (release_all ms' ?k)) (vtimers.more s')" if "owns ?k ?c ms'" for ms'
        using mframe_trans [OF f s'(4)] owns_unique [OF that ms] by simp
    qed (use nz in simp)
  qed
qed


section \<open>Calls that change threads\<close>

lemma create_mtx_ok:
  assumes ok: "mtx_ok (vtimers.more s)" and new: "wsp \<notin> set (registry (vtimers.more s))" "wsp \<noteq> 0" "pr \<noteq> 0"
    and s': "chThdCreateStatic wsp pr s = Some s'"
  shows "mtx_ok (vtimers.more s') \<and> mframe {} (thread_init wsp pr (return wsp (vtimers.more s))) (vtimers.more s')"
proof -
  let ?k = "vtimers.more s"
  let ?k1 = "thread_init wsp pr (return wsp ?k)"
  have e: "m_owner ?k1 = m_owner ?k" "m_next ?k1 = m_next ?k" "queues ?k1 = queues ?k" "registry ?k1 = registry ?k @ [wsp]"
    "thr ?k1 wsp = (thr ?k wsp)\<lparr>p_prio := pr, p_state := CH_STATE_WTSTART, p_flags := CH_FLAG_MODE_STATIC,
       p_preempt := CH_CFG_TIME_QUANTUM, p_realprio := pr, p_mtxlist := 0, p_epending := 0, p_refs := 1, p_name := 0, p_waiting := []\<rparr>"
    "\<And>t. t \<noteq> wsp \<Longrightarrow> thr ?k1 t = thr ?k t"
    by (simp_all add: thread_init_def Let_def)
  have n: "m_owner ?k m \<noteq> wsp" for m using mtx_okD(3) [OF ok, of m] new(1,2) by auto
  have "mtx_ok ?k1"
  proof (rule mtx_okI)
    fix t assume t: "t \<in> set (registry ?k1)"
    show "p_realprio (thr ?k1 t) \<noteq> 0" using t mtx_okD(1) [OF ok, of t] new(3) by (cases "t = wsp") (auto simp: e)
    show "\<exists>ms. owns ?k1 t ms"
    proof (cases "t = wsp")
      case True
      then have "owns ?k1 t []" using n by (auto simp: owns_def e)
      then show ?thesis by blast
    next
      case False
      then show ?thesis using t mtx_okD(2) [OF ok, of t] by (auto simp: owns_def e)
    qed
  next
    fix m assume "m_owner ?k1 m \<noteq> 0"
    then show "m_owner ?k1 m \<in> set (registry ?k1) \<and> p_state (thr ?k1 (m_owner ?k1 m)) \<noteq> CH_STATE_FINAL"
      using mtx_okD(3,4) [OF ok, of m] n [of m] by (simp add: e)
  qed (use mtx_okD(5) [OF ok] e in simp)
  moreover obtain k' where k': "chSchWakeupS wsp MSG_OK ?k1 = Some k'" "s' = resume (vtimers.more_update (\<lambda>_. k') s)"
    using s' by (auto simp: chThdCreateStatic_def lift_def create_static_def)
  have f: "mframe {} ?k1 (vtimers.more s')"
    using mframe_trans [OF mframe_WakeupS [OF k'(1)]] mframe_resume [of "{}" "vtimers.more_update (\<lambda>_. k') s"] by (simp add: k'(2))
  ultimately show ?thesis using mframe_mtx_ok [OF f] f by simp
qed

lemma set_priority_mtx_ok:
  assumes ok: "mtx_ok (vtimers.more s)" and pr: "newprio \<noteq> 0" and s': "chThdSetPriority newprio s = Some s'"
  defines "k \<equiv> vtimers.more s"
  defines "c \<equiv> currp k"
  defines "k1 \<equiv> set_thr c (\<lambda>t. (if prio k c = p_realprio (thr k c) \<or> newprio > prio k c then t\<lparr>p_prio := newprio\<rparr> else t)\<lparr>p_realprio := newprio\<rparr>) k"
  shows "mtx_ok (vtimers.more s') \<and> mframe {} k1 (vtimers.more s')"
proof -
  have "set_priority newprio k = chSchRescheduleS (return (p_realprio (thr k c)) k1)"
    unfolding set_priority_def k1_def c_def
    by (cases "prio k (currp k) = p_realprio (thr k (currp k)) \<or> newprio > prio k (currp k)") (simp_all only: Let_def if_True if_False set_thr_twice)
  then obtain k' where k': "chSchRescheduleS (return (p_realprio (thr k c)) k1) = Some k'" "s' = resume (vtimers.more_update (\<lambda>_. k') s)"
    using s' by (auto simp: chThdSetPriority_def lift_def k_def)
  have f: "mframe {} k1 (vtimers.more s')"
    using mframe_trans [OF mframe_trans [OF mframe_simple(1) mframe_switch(1) [OF k'(1)]]] mframe_resume [of "{}" "vtimers.more_update (\<lambda>_. k') s"]
    by (simp add: k'(2))
  have "mtx_ok k1"
  proof (rule mtx_okI)
    fix t assume t: "t \<in> set (registry k1)"
    show "p_realprio (thr k1 t) \<noteq> 0" using t mtx_okD(1) [OF ok, of t] pr by (auto simp: k1_def k_def)
    show "\<exists>ms. owns k1 t ms" using t mtx_okD(2) [OF ok, of t] by (auto simp: k1_def k_def owns_def)
  next
    fix m assume "m_owner k1 m \<noteq> 0"
    then show "m_owner k1 m \<in> set (registry k1) \<and> p_state (thr k1 (m_owner k1 m)) \<noteq> CH_STATE_FINAL"
      using mtx_okD(3,4) [OF ok, of m] by (auto simp: k1_def k_def)
  qed (use mtx_okD(5) [OF ok] in \<open>simp add: k1_def k_def\<close>)
  then show ?thesis using mframe_mtx_ok [OF f] f by simp
qed

lemma exit_mtx_ok:
  assumes ok: "mtx_ok (vtimers.more s)" and inv: "kinv s"
    and none: "p_mtxlist (thr (vtimers.more s) (currp (vtimers.more s))) = 0" and s': "chThdExit msg s = Some s'"
  shows "mtx_ok (vtimers.more s')"
proof (rule mframe_mtx_ok [OF mframe_exit [OF s'] ok])
  fix t m assume t: "t \<in> {currp (vtimers.more s)}"
  obtain ms where "owns (vtimers.more s) t ms" using mtx_okD(2) [OF ok] run_okD(2) [OF kinvD(1) [OF inv]] t by blast
  then show "m_owner (vtimers.more s) m \<noteq> t" using none t by (cases ms) (auto simp: owns_def)
qed

end
