(* ===== verification/Kernel_Steps.thy ===== *)
theory Kernel_Steps
  imports Mutex_Calls
begin

text \<open>
  The kernel as a transition system: from \<open>chSysInit\<close>, the running thread makes calls, interrupts wake threads and the tick
  comes, in any order.  Every state that is reached satisfies the invariant of \<open>Kernel_Invariant\<close>.
\<close>

section \<open>Start\<close>

text \<open>Cleared memory, with the header of the timer list at \<open>vtl\<close>.\<close>

definition zero_thread :: thread where
  "zero_thread = \<lparr>p_prio = 0, p_name = 0, p_state = CH_STATE_READY, p_flags = 0, p_refs = 0, p_preempt = 0, p_u = 0,
     p_waiting = [], p_epending = 0, p_mtxlist = 0, p_realprio = 0\<rparr>"

definition zero_kernel :: kernel where
  "zero_kernel = \<lparr>thr = (\<lambda>_. zero_thread), queues = (\<lambda>_. []), currp = 0, registry = [], s_cnt = (\<lambda>_. 0), m_owner = (\<lambda>_. 0),
     m_next = (\<lambda>_. 0), tref = (\<lambda>_. 0), el = (\<lambda>_. \<lparr>el_next = 0, el_listener = 0, el_events = 0, el_flags = 0, el_wflags = 0\<rparr>),
     pend = (\<lambda>_. None), ret = (\<lambda>_. 0), heap_freed = []\<rparr>"

definition zero_sys :: "tid \<Rightarrow> sys" where
  "zero_sys vtl = \<lparr>p_next = (\<lambda>_. 0), p_prev = (\<lambda>_. 0), vtlist = vtl, vt_delta = (\<lambda>_. 0), vt_func = (\<lambda>_. None),
     vt_par = (\<lambda>_. 0), vt_systime = 0, \<dots> = zero_kernel\<rparr>"

definition scheduler_init :: "kernel \<Rightarrow> kernel" where
  "scheduler_init k = (set_queue RList [] k)\<lparr>registry := []\<rparr>"

text \<open>The main thread at \<open>mainthread\<close> has the idle priority; \<open>name\<close> is the address of its name.\<close>

definition chSysInit :: "tid \<Rightarrow> u32 \<Rightarrow> sys \<Rightarrow> sys" where
  "chSysInit mainthread name s =
     (let s = vtimers.more_update scheduler_init s;
          s = vt_init s
      in vtimers.more_update (\<lambda>k.
           let k = (thread_init mainthread IDLEPRIO k)\<lparr>currp := mainthread\<rparr>;
               k = set_p_state mainthread CH_STATE_CURRENT k
           in set_thr mainthread (\<lambda>t. t\<lparr>p_name := name\<rparr>) k) s)"

lemma chSysInit_ok:
  assumes "mainthread \<noteq> 0"
  shows "kinv (chSysInit mainthread name (zero_sys vtl))"
proof -
  have z: "kcore {} zero_kernel"
    by (rule kcoreI) (auto simp: zero_kernel_def zero_thread_def ready_sorted_def sems_ok_def)
  have i: "scheduler_init zero_kernel = zero_kernel" by (auto simp: scheduler_init_def zero_kernel_def set_queue_def intro: kernel.equality)
  let ?k1 = "(thread_init mainthread IDLEPRIO zero_kernel)\<lparr>currp := mainthread\<rparr>"
  have "kcore {mainthread} (thread_init mainthread IDLEPRIO zero_kernel)"
    by (rule thread_init_core [OF z]) (use assms in \<open>simp_all add: zero_kernel_def IDLEPRIO_def\<close>)
  then have "kcore {mainthread} ?k1" by (subst kcore_cong [of _ "thread_init mainthread IDLEPRIO zero_kernel"]) simp_all
  then have c: "kcore {mainthread} (set_thr mainthread (\<lambda>t. t\<lparr>p_state := CH_STATE_CURRENT, p_name := name\<rparr>) ?k1)"
    by (rule set_thr_core) (simp_all add: IDLEPRIO_def)
  have k: "vtimers.more (chSysInit mainthread name (zero_sys vtl)) =
      set_thr mainthread (\<lambda>t. t\<lparr>p_state := CH_STATE_CURRENT, p_name := name\<rparr>) ?k1"
    by (simp add: chSysInit_def zero_sys_def vt_init_def i Let_def)
  have "vt_rep (vt_init (vtimers.more_update scheduler_init (zero_sys vtl))) []"
    by (rule vt_init_rep) (simp add: zero_sys_def)
  then have "timers_ok (chSysInit mainthread name (zero_sys vtl))"
    unfolding timers_ok_def chSysInit_def Let_def
    by (auto simp: vt_live_def vt_init_def zero_sys_def intro!: exI [of _ "[]"])
  then show ?thesis unfolding kinv_def k sched_ok_def run_ok_def using c by (simp add: zero_kernel_def)
qed

section \<open>Steps\<close>

text \<open>The conditions of the calls are those of the debug checks: priorities are not 0, a delay is not 0, a thread waits for
  another one, a reference is free, a timer on the stack is a new one, and mutexes are unlocked in the reverse order.  A thread
  gives back its mutexes before it ends: this one is a rule for the application, \<open>chThdExit\<close> has no check for it.  With \<open>d\<close>, a thread does not lower its priority while it has a mutex.\<close>

definition may_set_priority :: "u32 \<Rightarrow> kernel \<Rightarrow> bool" where
  "may_set_priority newprio k \<longleftrightarrow> prio k (currp k) \<le> newprio \<or> p_mtxlist (thr k (currp k)) = 0"

inductive kstep :: "bool \<Rightarrow> sys \<Rightarrow> sys \<Rightarrow> bool" for d where
  tick: "systick s = Some s' \<Longrightarrow> kstep d s s'"
| irq: "irq_call f \<Longrightarrow> irq f s = Some s' \<Longrightarrow> kstep d s s'"
| create: "wsp \<notin> set (registry (vtimers.more s)) \<Longrightarrow> wsp \<noteq> 0 \<Longrightarrow> pr \<noteq> 0 \<Longrightarrow> chThdCreateStatic wsp pr s = Some s' \<Longrightarrow> kstep d s s'"
| set_priority: "newprio \<noteq> 0 \<Longrightarrow> (d \<Longrightarrow> may_set_priority newprio (vtimers.more s)) \<Longrightarrow> chThdSetPriority newprio s = Some s' \<Longrightarrow> kstep d s s'"
| yield: "chThdYield s = Some s' \<Longrightarrow> kstep d s s'"
| exit: "p_mtxlist (thr (vtimers.more s) (currp (vtimers.more s))) = 0 \<Longrightarrow> chThdExit msg s = Some s' \<Longrightarrow> kstep d s s'"
| wait: "tp \<noteq> currp (vtimers.more s) \<Longrightarrow> chThdWait tp s = Some s' \<Longrightarrow> kstep d s s'"
| sleep: "vt \<noteq> vtlist s \<Longrightarrow> \<not> chVTIsArmedI vt s \<Longrightarrow> time \<noteq> TIME_IMMEDIATE \<Longrightarrow> chThdSleep vt time s = Some s' \<Longrightarrow> kstep d s s'"
| sleep_until: "vt \<noteq> vtlist s \<Longrightarrow> \<not> chVTIsArmedI vt s \<Longrightarrow> chThdSleepUntil vt time s = Some s' \<Longrightarrow> kstep d s s'"
| sleep_windowed:
    "vt \<noteq> vtlist s \<Longrightarrow> \<not> chVTIsArmedI vt s \<Longrightarrow> chThdSleepUntilWindowed vt prev next s = Some s' \<Longrightarrow> kstep d s s'"
| suspend: "tref (vtimers.more s) trp = 0 \<Longrightarrow> suspendThread trp s = Some s' \<Longrightarrow> kstep d s s'"
| suspend_timeout: "vt \<noteq> vtlist s \<Longrightarrow> \<not> chVTIsArmedI vt s \<Longrightarrow> tref (vtimers.more s) trp = 0 \<Longrightarrow>
    suspendThreadTimeout vt trp timeout s = Some s' \<Longrightarrow> kstep d s s'"
| resume_thread: "chThdResume trp msg s = Some s' \<Longrightarrow> kstep d s s'"
| enqueue: "vt \<noteq> vtlist s \<Longrightarrow> \<not> chVTIsArmedI vt s \<Longrightarrow> map_option resume (chThdEnqueueTimeoutS vt tqp timeout s) = Some s' \<Longrightarrow> kstep d s s'"
| sem_wait: "chSemWait sp s = Some s' \<Longrightarrow> kstep d s s'"
| sem_wait_timeout: "vt \<noteq> vtlist s \<Longrightarrow> \<not> chVTIsArmedI vt s \<Longrightarrow> chSemWaitTimeout vt sp time s = Some s' \<Longrightarrow> kstep d s s'"
| sem_signal: "chSemSignal sp s = Some s' \<Longrightarrow> kstep d s s'"
| sem_reset: "0 \<le> n \<Longrightarrow> chSemReset sp n s = Some s' \<Longrightarrow> kstep d s s'"
| sem_signal_wait: "chSemSignalWait sps spw s = Some s' \<Longrightarrow> kstep d s s'"
| sem_init: "queues (vtimers.more s) (Sem sp) = [] \<Longrightarrow> 0 \<le> n \<Longrightarrow> kstep d s (vtimers.more_update (chSemObjectInit sp n) s)"
| terminate: "kstep d s (vtimers.more_update (chThdTerminate tp) s)"
| add_ref: "kstep d s (vtimers.more_update (chThdAddRef tp) s)"
| release: "kstep d s (vtimers.more_update (chThdRelease tp) s)"
| mtx_init: "m_owner (vtimers.more s) mp = 0 \<Longrightarrow> kstep d s (vtimers.more_update (chMtxObjectInit mp) s)"
| mtx_lock: "mp \<noteq> 0 \<Longrightarrow> chMtxLock mp s = Some s' \<Longrightarrow> kstep d s s'"
| mtx_try_lock: "mp \<noteq> 0 \<Longrightarrow> kstep d s (chMtxTryLock mp s)"
| mtx_unlock: "mp \<noteq> 0 \<Longrightarrow> p_mtxlist (thr (vtimers.more s) (currp (vtimers.more s))) = mp \<Longrightarrow> chMtxUnlock mp s = Some s' \<Longrightarrow> kstep d s s'"
| mtx_unlock_all: "chMtxUnlockAll s = Some s' \<Longrightarrow> kstep d s s'"
| events: "evt_call s s' \<Longrightarrow> kstep d s s'"

text \<open>With no other thread ready a call that blocks does not return.\<close>

lemma blocking_needs_ready:
  assumes e: "queues (vtimers.more s) RList = []"
  shows "chThdSleep vt time s = None" "suspendThread trp s = None"
    "timeout \<noteq> TIME_IMMEDIATE \<Longrightarrow> suspendThreadTimeout vt trp timeout s = None"
    "timeout \<noteq> TIME_IMMEDIATE \<Longrightarrow> chThdEnqueueTimeoutS vt tqp timeout s = None"
    "s_cnt (vtimers.more s) sp \<le> 0 \<Longrightarrow> chSemWait sp s = None"
    "s_cnt (vtimers.more s) sp \<le> 0 \<Longrightarrow> timeout \<noteq> TIME_IMMEDIATE \<Longrightarrow> chSemWaitTimeout vt sp timeout s = None"
    "p_state (thr (vtimers.more s) tp) \<noteq> CH_STATE_FINAL \<Longrightarrow> chThdWait tp s = None"
  using e
  by (simp_all add: chThdSleep_def suspendThread_def suspendThreadTimeout_def chSchGoSleepTimeoutS_def go_sleep_timeout_empty
      chThdSuspendS_def chThdSuspendTimeoutS_def chThdEnqueueTimeoutS_def chSemWait_def chSemWaitS_def chSemWaitTimeout_def
      chSemWaitTimeoutS_def chThdWait_def lift_def go_sleep_empty sem_enqueue_def Let_def)

lemma exit_needs_ready:
  assumes "queues (vtimers.more s) RList = []" "p_waiting (thr (vtimers.more s) (currp (vtimers.more s))) = []"
  shows "chThdExit msg s = None"
  using assms by (simp add: chThdExit_def chThdExitS_def lift_def go_sleep_empty Let_def)


lemma sem_init_ok:
  assumes inv: "kinv s" and e: "queues (vtimers.more s) (Sem sp) = []" and n: "0 \<le> n"
  shows "kinv (vtimers.more_update (chSemObjectInit sp n) s)"
proof -
  let ?k = "vtimers.more s"
  have "0 \<le> s_cnt ?k sp" using kcoreD(8) [OF run_okD(1) [OF kinvD(1) [OF inv]]] e by (auto simp: sems_ok_def split: if_splits dest: spec [of _ sp])
  then have "stays ?k (set_s_cnt sp n ?k)" using sem_count_up [OF kinvD(1) [OF inv]] n by simp
  moreover have "chSemObjectInit sp n ?k = set_s_cnt sp n ?k"
    using e by (intro kernel.equality) (simp_all add: chSemObjectInit_def set_s_cnt_def set_queue_def fun_upd_idem)
  ultimately have "sched_ok (chSemObjectInit sp n ?k)" "keeps_timed ?k (chSemObjectInit sp n ?k)"
    "pend (chSemObjectInit sp n ?k) (currp (chSemObjectInit sp n ?k)) = None"
    using kinvD [OF inv] by (auto simp: stays_def sched_ok_def)
  then show ?thesis using timers_ok_update [OF kinvD(3) [OF inv]] by (simp add: kinv_def)
qed

lemma irrelevant_ok:
  assumes inv: "kinv s" and f: "\<And>t. p_state (f t) = p_state t" "\<And>t. p_u (f t) = p_u t" "\<And>t. p_prio (f t) = p_prio t"
    "\<And>t. p_waiting (f t) = p_waiting t" "\<And>t. p_epending (f t) = p_epending t"
  shows "kinv (vtimers.more_update (set_thr tp f) s)" "kinv (vtimers.more_update (\<lambda>k. return v (set_thr tp f k)) s)"
proof -
  let ?k = "vtimers.more s"
  have "kcore {currp ?k} (set_thr tp f ?k)" by (rule set_thr_irrelevant_core [OF run_okD(1) [OF kinvD(1) [OF inv]] f(1-4)]) (simp add: f(5))
  then have s: "sched_ok (set_thr tp f ?k)" using kinvD(2) [OF inv] f by (auto simp: sched_ok_def run_ok_def)
  have t: "keeps_timed ?k (set_thr tp f ?k)" by (rule keeps_timed_cong) (use f in auto)
  show "kinv (vtimers.more_update (set_thr tp f) s)"
    using s timers_ok_update [of s "set_thr tp f", OF kinvD(3) [OF inv] t] kinvD(4) [OF inv] by (simp add: kinv_def)
  have "timers_ok (vtimers.more_update (\<lambda>k. return v (set_thr tp f k)) s)"
    by (rule timers_ok_update [OF kinvD(3) [OF inv]]) (rule keeps_timed_trans [OF t keeps_timed_return])
  then show "kinv (vtimers.more_update (\<lambda>k. return v (set_thr tp f k)) s)"
    using s kinvD(4) [OF inv] by (simp add: kinv_def)
qed

lemma release_ok:
  assumes inv: "kinv s"
  shows "kinv (vtimers.more_update (chThdRelease tp) s)"
  using chThdRelease_ok [OF kinvD(2) [OF inv], of tp] kinvD(4) [OF inv] timers_ok_update [OF kinvD(3) [OF inv], of "chThdRelease tp"]
  by (simp add: kinv_def)

lemma timeout_immediate_ok: "kinv s \<Longrightarrow> kinv (resume (vtimers.more_update (return v) s))"
  by (rule resume_ok) (auto simp: kinvD intro: timers_ok_update)

lemma wait_final_ok:
  assumes inv: "kinv s" and f: "p_state (thr (vtimers.more s) tp) = CH_STATE_FINAL"
  shows "\<exists>s'. chThdWait tp s = Some s' \<and> kinv s'"
proof -
  have "kinv (vtimers.more_update (return (p_u (thr (vtimers.more s) tp))) s)"
    using inv timers_ok_update [of s "return (p_u (thr (vtimers.more s) tp))"] by (simp add: kinv_def)
  from release_ok [OF this, of tp] show ?thesis using f by (simp add: chThdWait_def Let_def o_def) (cases s, simp)
qed

lemma mtx_init_ok:
  assumes "mtx_ok k" "m_owner k mp = 0"
  shows "chMtxObjectInit mp k = k"
proof -
  have "queues k (Mtx mp) = []" using mtx_okD(5) [OF assms(1), of mp] assms(2) by blast
  then show ?thesis using assms(2)
    by (intro kernel.equality) (simp_all add: chMtxObjectInit_def set_m_owner_def set_queue_def fun_upd_idem)
qed

lemma mtx_lock_step:
  assumes "kinv s" "mtx_ok (vtimers.more s)" "mp \<noteq> 0" "chMtxLock mp s = Some s'"
  shows "kinv s' \<and> mtx_ok (vtimers.more s')"
proof -
  let ?k = "vtimers.more s"
  have "m_owner ?k mp = 0 \<or> queues ?k RList \<noteq> []"
  proof (rule ccontr)
    assume n: "\<not> (m_owner ?k mp = 0 \<or> queues ?k RList \<noteq> [])"
    then have "chMtxLockS mp ?k = None" using MtxLockS_owned [OF kinvD(1,4) [OF assms(1)] assms(2), of mp] by metis
    then show False using assms(4) by (simp add: chMtxLock_def lift_def)
  qed
  then show ?thesis using mtx_lock_ok [OF assms(1-3)] assms(4) by auto
qed

lemma mtx_try_lock_step:
  assumes "kinv s" "mtx_ok (vtimers.more s)" "mp \<noteq> 0"
  shows "kinv (chMtxTryLock mp s) \<and> mtx_ok (vtimers.more (chMtxTryLock mp s))"
proof -
  let ?k = "vtimers.more s"
  note T = TryLockS_ok [OF kinvD(1) [OF assms(1)] assms(2,3)]
  have q: "queues (chMtxTryLockS mp ?k) = queues ?k" "\<And>t. prio (chMtxTryLockS mp ?k) t = prio ?k t" by (simp_all add: chMtxTryLockS_def)
  have "sched_ok (chMtxTryLockS mp ?k)" using T(1) kinvD(2) [OF assms(1)] by (simp add: sched_ok_def stays_def q)
  then show ?thesis using T timers_ok_update [OF kinvD(3) [OF assms(1)], of "chMtxTryLockS mp"] kinvD(4) [OF assms(1)]
    by (simp add: chMtxTryLock_def kinv_def stays_def)
qed

lemma kstep_inv: "kstep d s s' \<Longrightarrow> kinv s \<Longrightarrow> mtx_ok (vtimers.more s) \<Longrightarrow> kinv s'"
proof (induction rule: kstep.induct)
  case (tick s s') then show ?case using systick_ok by fastforce
next
  case (irq f s s') then show ?case using irq_ok by fastforce
next
  case (create wsp s pr s') then show ?case using create_ok by fastforce
next
  case (set_priority newprio s s') then show ?case using set_priority_ok by fastforce
next
  case (yield s s') then show ?case using yield_ok by fastforce
next
  case (exit s msg s')
  show ?case
  proof (cases "queues (vtimers.more s) RList = [] \<and> p_waiting (thr (vtimers.more s) (currp (vtimers.more s))) = []")
    case True then show ?thesis using exit exit_needs_ready [of s msg] by simp
  next
    case False then show ?thesis using exit exit_ok [of s msg] by auto
  qed
next
  case (wait tp s s')
  show ?case
  proof (cases "queues (vtimers.more s) RList = [] \<and> p_state (thr (vtimers.more s) tp) \<noteq> CH_STATE_FINAL")
    case True then show ?thesis using wait blocking_needs_ready(7) [of s tp] by simp
  next
    case False then show ?thesis using wait wait_ok [of s tp] wait_final_ok [of s tp] by auto
  qed
next
  case (sleep vt s time s')
  then have "queues (vtimers.more s) RList \<noteq> []" using blocking_needs_ready(1) [of s vt time] by auto
  then show ?case using sleep sleep_call_ok [of s vt time] by (auto simp: TIME_IMMEDIATE_def)
next
  case (sleep_until vt s time s')
  show ?case
  proof (cases "queues (vtimers.more s) RList = []")
    case True
    then show ?thesis using sleep_until blocking_needs_ready(1) [OF True]
      by (auto simp: chThdSleepUntil_def Let_def split: if_splits)
  next
    case False then show ?thesis using sleep_until sleep_until_ok [of s vt time] by auto
  qed
next
  case (sleep_windowed vt s prev "next" s')
  show ?case
  proof (cases "queues (vtimers.more s) RList = []")
    case True
    then have "s' = vtimers.more_update (return next) s"
      using sleep_windowed by (auto simp: chThdSleepUntilWindowed_def Let_def go_sleep_timeout_empty split: if_splits)
    then show ?thesis using sleep_windowed timers_ok_update [of s "return next"] by (simp add: kinv_def)
  next
    case False then show ?thesis using sleep_windowed sleep_windowed_ok [of s vt prev "next"] by auto
  qed
next
  case (suspend s trp s')
  then have "queues (vtimers.more s) RList \<noteq> []" using blocking_needs_ready(2) [of s trp] by auto
  then show ?case using suspend suspend_ok [of s trp] by auto
next
  case (suspend_timeout vt s trp timeout s')
  then show ?case using suspend_timeout_ok [of s trp vt timeout] blocking_needs_ready(3) [of s timeout vt trp]
    timeout_immediate_ok [of s MSG_TIMEOUT]
    by (cases "timeout = TIME_IMMEDIATE"; cases "queues (vtimers.more s) RList = []")
      (auto simp: suspendThreadTimeout_def chThdSuspendTimeoutS_def)
next
  case (resume_thread trp msg s s') then show ?case using thd_resume_ok [of s trp msg] by auto
next
  case (enqueue vt s tqp timeout s')
  then show ?case using enqueue_ok [of s vt tqp timeout] blocking_needs_ready(4) [of s timeout vt tqp]
    timeout_immediate_ok [of s MSG_TIMEOUT]
    by (cases "timeout = TIME_IMMEDIATE"; cases "queues (vtimers.more s) RList = []") (auto simp: chThdEnqueueTimeoutS_def)
next
  case (sem_wait sp s s')
  then show ?case using sem_wait_ok [of s sp] blocking_needs_ready(5) [of s sp]
    by (cases "queues (vtimers.more s) RList = [] \<and> s_cnt (vtimers.more s) sp \<le> 0") auto
next
  case (sem_wait_timeout vt s sp time s')
  then show ?case using sem_wait_timeout_ok [of s sp time vt] blocking_needs_ready(6) [of s sp time vt]
    by (cases "queues (vtimers.more s) RList = [] \<and> s_cnt (vtimers.more s) sp \<le> 0 \<and> time \<noteq> TIME_IMMEDIATE") auto
next
  case (sem_signal sp s s') then show ?case using sem_signal_ok [of s sp] by auto
next
  case (sem_reset n sp s s') then show ?case using sem_reset_ok [of s n sp] by auto
next
  case (sem_signal_wait sps spw s s') then show ?case using sem_signal_wait_ok by blast
next
  case (sem_init s sp n) then show ?case using sem_init_ok by blast
next
  case (terminate s tp) then show ?case unfolding chThdTerminate_def by (intro irrelevant_ok(1)) simp_all
next
  case (add_ref s tp) then show ?case unfolding chThdAddRef_def by (intro irrelevant_ok(2)) simp_all
next
  case (release s tp) then show ?case using release_ok by blast
next
  case (mtx_init s mp) then show ?case using mtx_init_ok [of "vtimers.more s" mp] by (cases s) simp
next
  case (mtx_lock mp s s') then show ?case using mtx_lock_step by blast
next
  case (mtx_try_lock mp s) then show ?case using mtx_try_lock_step by blast
next
  case (mtx_unlock mp s s')
  obtain s'' where "chMtxUnlock mp s = Some s''" "kinv s''"
    by (rule mtx_unlock_ok [OF mtx_unlock.prems mtx_unlock.hyps(2,1)]) blast
  then show ?case using mtx_unlock.hyps(3) by simp
next
  case (mtx_unlock_all s s')
  obtain s'' where "chMtxUnlockAll s = Some s''" "kinv s''" by (rule mtx_unlock_all_ok [OF mtx_unlock_all.prems]) blast
  then show ?case using mtx_unlock_all.hyps by simp
next
  case (events s s') then show ?case using evt_call_ok by blast
qed

text \<open>The steps that matter to mutexes and priorities; all others leave them alone.\<close>

lemma kstep_cases:
  assumes "kstep d s s'" "kinv s" "mtx_ok (vtimers.more s)"
  obtains (frame) "mframe {} (vtimers.more s) (vtimers.more s')"
    | (create) wsp pr where "wsp \<notin> set (registry (vtimers.more s))" "wsp \<noteq> 0" "pr \<noteq> 0" "chThdCreateStatic wsp pr s = Some s'"
    | (set_priority) newprio where "newprio \<noteq> 0" "d \<Longrightarrow> may_set_priority newprio (vtimers.more s)" "chThdSetPriority newprio s = Some s'"
    | (exit) msg where "p_mtxlist (thr (vtimers.more s) (currp (vtimers.more s))) = 0" "chThdExit msg s = Some s'"
    | (mtx_lock) mp where "mp \<noteq> 0" "chMtxLock mp s = Some s'"
    | (mtx_try_lock) mp where "mp \<noteq> 0" "s' = chMtxTryLock mp s"
    | (mtx_unlock) mp where "mp \<noteq> 0" "p_mtxlist (thr (vtimers.more s) (currp (vtimers.more s))) = mp" "chMtxUnlock mp s = Some s'"
    | (mtx_unlock_all) "chMtxUnlockAll s = Some s'"
  using assms(1)
proof cases
  case tick from frame [OF mframe_systick [OF assms(2) this]] show ?thesis .
next
  case (irq f) from frame [OF mframe_irq [OF this]] show ?thesis .
next
  case yield from frame [OF mframe_yield [OF this]] show ?thesis .
next
  case (wait tp) from frame [OF mframe_wait [OF wait(2)]] show ?thesis .
next
  case (sleep vt time) from frame [OF mframe_sleep [OF sleep(4)]] show ?thesis .
next
  case (sleep_until vt time) from frame [OF mframe_sleep_until [OF sleep_until(3)]] show ?thesis .
next
  case (sleep_windowed vt prev "next") from frame [OF mframe_sleep_windowed [OF sleep_windowed(3)]] show ?thesis .
next
  case (suspend trp) from frame [OF mframe_suspend [OF suspend(2)]] show ?thesis .
next
  case (suspend_timeout vt trp timeout) from frame [OF mframe_suspend_timeout [OF suspend_timeout(4)]] show ?thesis .
next
  case (resume_thread trp msg) from frame [OF mframe_thd_resume [OF this]] show ?thesis .
next
  case (enqueue vt tqp timeout) from frame [OF mframe_enqueue [OF enqueue(3)]] show ?thesis .
next
  case (sem_wait sp) from frame [OF mframe_sem_wait [OF this]] show ?thesis .
next
  case (sem_wait_timeout vt sp time) from frame [OF mframe_sem_wait_timeout [OF sem_wait_timeout(3)]] show ?thesis .
next
  case (sem_signal sp) from frame [OF mframe_sem_signal [OF this]] show ?thesis .
next
  case (sem_reset n sp) from frame [OF mframe_sem_reset [OF sem_reset(2)]] show ?thesis .
next
  case (sem_signal_wait sps spw) from frame [OF mframe_sem_signal_wait [OF this]] show ?thesis .
next
  case (sem_init sp n) then show ?thesis using frame mframe_updates(3) by simp
next
  case (terminate tp) then show ?thesis using frame mframe_updates(1) by simp
next
  case (add_ref tp) then show ?thesis using frame mframe_updates(2) by simp
next
  case (release tp) then show ?thesis using frame mframe_Release by simp
next
  case events from frame [OF mframe_evt_call [OF this]] show ?thesis .
next
  case (mtx_init mp) then show ?thesis using frame mtx_init_ok [OF assms(3)] by simp
qed (use create set_priority exit mtx_lock mtx_try_lock mtx_unlock mtx_unlock_all in blast)+

lemma kstep_mtx_ok:
  assumes "kstep d s s'" "kinv s" "mtx_ok (vtimers.more s)"
  shows "mtx_ok (vtimers.more s')"
  using assms
proof (cases rule: kstep_cases)
  case frame then show ?thesis by (rule mframe_mtx_ok [OF _ assms(3)]) simp
next
  case (create wsp pr) then show ?thesis using create_mtx_ok assms(3) by blast
next
  case (set_priority newprio) then show ?thesis using set_priority_mtx_ok assms(3) by blast
next
  case (exit msg) then show ?thesis using exit_mtx_ok assms by blast
next
  case (mtx_lock mp) then show ?thesis using mtx_lock_step assms by blast
next
  case (mtx_try_lock mp) then show ?thesis using mtx_try_lock_step assms by blast
next
  case (mtx_unlock mp)
  obtain s'' where "chMtxUnlock mp s = Some s''" "mtx_ok (vtimers.more s'')"
    by (rule mtx_unlock_ok [OF assms(2,3) mtx_unlock(2,1)]) blast
  then show ?thesis using mtx_unlock(3) by simp
next
  case mtx_unlock_all
  obtain s'' where "chMtxUnlockAll s = Some s''" "mtx_ok (vtimers.more s'')" by (rule mtx_unlock_all_ok [OF assms(2,3)]) blast
  then show ?thesis using mtx_unlock_all by simp
qed

section \<open>Reachable states\<close>

inductive kreach :: "bool \<Rightarrow> sys \<Rightarrow> bool" for d where
  start: "mainthread \<noteq> 0 \<Longrightarrow> kreach d (chSysInit mainthread name (zero_sys vtl))"
| step: "kreach d s \<Longrightarrow> kstep d s s' \<Longrightarrow> kreach d s'"

lemma chSysInit_mtx_ok:
  assumes "mainthread \<noteq> 0"
  shows "mtx_ok (vtimers.more (chSysInit mainthread name (zero_sys vtl)))"
proof (rule mtx_okI)
  let ?k = "vtimers.more (chSysInit mainthread name (zero_sys vtl))"
  show "\<exists>ms. owns ?k t ms" if "t \<in> set (registry ?k)" for t
    using that assms by (intro exI [of _ "[]"]) (simp add: owns_def chSysInit_def zero_sys_def zero_kernel_def scheduler_init_def
      vt_init_def thread_init_def Let_def set_thr_def set_queue_def)
qed (simp_all add: chSysInit_def zero_sys_def zero_kernel_def scheduler_init_def vt_init_def thread_init_def Let_def set_thr_def
    set_queue_def IDLEPRIO_def)

lemma kreach_ok: "kreach d s \<Longrightarrow> kinv s \<and> mtx_ok (vtimers.more s)"
  by (induction rule: kreach.induct) (auto intro: chSysInit_ok chSysInit_mtx_ok kstep_inv kstep_mtx_ok)

lemmas kreach_inv = kreach_ok [THEN conjunct1]
lemmas kreach_mtx_ok = kreach_ok [THEN conjunct2]

lemma kreach_sched: "kreach d s \<Longrightarrow> sched_ok (vtimers.more s)"
  using kreach_inv by (simp add: kinv_def)

section \<open>Two threads\<close>

text \<open>A start with the main thread at 0x100 and a second one of a higher priority, which waits on a semaphore or sleeps.\<close>

definition demo_start :: sys where
  "demo_start = chSysInit 0x100 0 (zero_sys 0x900)"

lemmas kernel_eval = demo_start_def chSysInit_def zero_sys_def zero_kernel_def zero_thread_def scheduler_init_def vt_init_def
  thread_init_def chThdCreateStatic_def create_static_def lift_def chSchWakeupS_def chSchReadyI_def return_def set_thr_def
  set_queue_def resume_def Let_def chSchGoSleepS_def pick_first_def set_pend_def

lemma demo_prio [simp]: "\<not> (64 :: u32) \<le> 1"
  by (simp add: word_le_nat_alt)

lemma demo_two_threads:
  "\<exists>s. Option.bind (chThdCreateStatic 0x200 64 demo_start) (chSemWait 0x50) = Some s
    \<and> queues (vtimers.more s) (Sem 0x50) = [0x200] \<and> queues (vtimers.more s) RList = [] \<and> currp (vtimers.more s) = 0x100
    \<and> prio (vtimers.more s) 0x200 = 64 \<and> prio (vtimers.more s) 0x100 = 1"
  by (simp add: kernel_eval chSemWait_def chSemWaitS_def sem_enqueue_def set_s_cnt_def IDLEPRIO_def)

lemma vt_scan_stop: "d \<le> vt_delta s p \<Longrightarrow> vt_scan s p d = Some (p, d)"
  by (subst vt_scan.simps) (auto simp: not_less)

lemma demo_sleeper:
  "\<exists>s. Option.bind (chThdCreateStatic 0x200 64 demo_start) (chThdSleep 0x700 1) = Some s
    \<and> vt_rep s [(0x700, 1)] \<and> vt_func s 0x700 = Some VT_wakeup \<and> vt_par s 0x700 = 0x200
    \<and> p_state (thr (vtimers.more s) 0x200) = CH_STATE_SLEEPING"
  by (simp add: kernel_eval chThdSleep_def chSchGoSleepTimeoutS_def go_sleep_timeout_def chVTDoSetI_def vt_scan_stop
      IDLEPRIO_def TIME_INFINITE_def set_p_next_def set_p_prev_def set_vt_delta_def set_vt_func_def link_before_def vt_rep_def queue_rep_def)

lemma demo_reach:
  assumes "Option.bind (chThdCreateStatic 0x200 64 demo_start) f = Some s" "\<And>s1. kreach d s1 \<Longrightarrow> f s1 = Some s \<Longrightarrow>
    vtlist s1 = 0x900 \<Longrightarrow> vt_func s1 = (\<lambda>_. None) \<Longrightarrow> kstep d s1 s"
  shows "kreach d s"
proof -
  obtain s1 where s1: "chThdCreateStatic 0x200 64 demo_start = Some s1" "f s1 = Some s" using assms(1) by (auto split: Option.bind_splits)
  have "kreach d demo_start" unfolding demo_start_def by (rule kreach.start) simp
  moreover have "kstep d demo_start s1" by (rule kstep.create [of "0x200" _ 64, OF _ _ _ s1(1)]) (simp_all add: kernel_eval)
  ultimately have "kreach d s1" by (rule kreach.step)
  moreover have "vtlist s1 = 0x900" "vt_func s1 = (\<lambda>_. None)" using s1(1) by (auto simp: kernel_eval IDLEPRIO_def)
  ultimately show ?thesis using assms(2) s1(2) kreach.step by blast
qed

lemma demo_waiting:
  "\<exists>s. kreach d s \<and> queues (vtimers.more s) (Sem 0x50) = [0x200] \<and> queues (vtimers.more s) RList = [] \<and> currp (vtimers.more s) = 0x100
    \<and> prio (vtimers.more s) 0x200 = 64 \<and> prio (vtimers.more s) 0x100 = 1"
  using demo_two_threads demo_reach [of "chSemWait 0x50" _ d] by (auto intro: kstep.sem_wait)

lemma demo_sleeping:
  "\<exists>s. kreach d s \<and> vt_rep s [(0x700, 1)] \<and> vt_func s 0x700 = Some VT_wakeup \<and> vt_par s 0x700 = 0x200
    \<and> p_state (thr (vtimers.more s) 0x200) = CH_STATE_SLEEPING"
proof -
  obtain s where s: "Option.bind (chThdCreateStatic 0x200 64 demo_start) (chThdSleep 0x700 1) = Some s" "vt_rep s [(0x700, 1)]"
    "vt_func s 0x700 = Some VT_wakeup" "vt_par s 0x700 = 0x200" "p_state (thr (vtimers.more s) 0x200) = CH_STATE_SLEEPING"
    using demo_sleeper by blast
  have "kreach d s"
    by (rule demo_reach [OF s(1)], rule kstep.sleep [of "0x700" _ 1]) (simp_all add: chVTIsArmedI_def TIME_IMMEDIATE_def)
  then show ?thesis using s(2-5) by blast
qed

text \<open>
  C5: in every state the kernel reaches, by any sequence of thread calls, calls from interrupts and ticks, the running
  thread is the only one in the state CURRENT and is in no queue; no ready thread has a higher priority than it and the
  ready list is sorted; the threads of a queue are distinct and in no other queue.  A live thread is ready exactly when it
  is in the ready list, waits on a semaphore or a mutex exactly when it is in the queue of the semaphore or mutex it names,
  and is in the state QUEUED exactly when it is in a queue of its own kind.  The counter of a semaphore is not negative
  when no thread waits for it, and otherwise minus the number of waiting threads.
\<close>

theorem kernel_invariant:
  assumes "kreach d s"
  defines "k \<equiv> vtimers.more s"
  shows "p_state (thr k (currp k)) = CH_STATE_CURRENT \<and> currp k \<in> set (registry k)
    \<and> (\<forall>t \<in> set (registry k). p_state (thr k t) = CH_STATE_CURRENT \<longrightarrow> t = currp k)
    \<and> (\<forall>q. currp k \<notin> set (queues k q) \<and> distinct (queues k q))
    \<and> (\<forall>q q' t. t \<in> set (queues k q) \<and> t \<in> set (queues k q') \<longrightarrow> q = q')
    \<and> sorted_wrt (\<lambda>a b. prio k b \<le> prio k a) (currp k # queues k RList)
    \<and> (\<forall>t \<in> set (registry k). p_state (thr k t) = CH_STATE_READY \<longleftrightarrow> t \<in> set (queues k RList))
    \<and> (\<forall>t \<in> set (registry k). \<forall>sp. p_state (thr k t) = CH_STATE_WTSEM \<and> p_u (thr k t) = sp \<longleftrightarrow> t \<in> set (queues k (Sem sp)))
    \<and> (\<forall>t \<in> set (registry k). \<forall>mp. p_state (thr k t) = CH_STATE_WTMTX \<and> p_u (thr k t) = mp \<longleftrightarrow> t \<in> set (queues k (Mtx mp)))
    \<and> (\<forall>t \<in> set (registry k). p_state (thr k t) = CH_STATE_QUEUED \<longleftrightarrow> (\<exists>tqp. t \<in> set (queues k (TQueue tqp))))
    \<and> (\<forall>q. set (queues k q) \<subseteq> set (registry k))
    \<and> (\<forall>sp. if queues k (Sem sp) = [] then 0 \<le> s_cnt k sp else s_cnt k sp = - int (length (queues k (Sem sp))))"
proof -
  have sc: "sched_ok k" unfolding k_def by (rule kreach_sched [OF assms(1)])
  then have core: "kcore {currp k} k" and run: "run_ok k" by (auto simp: sched_ok_def run_ok_def)
  have so: "sorted_wrt (\<lambda>a b. prio k b \<le> prio k a) (currp k # queues k RList)"
    using sc kcoreD(7) [OF core] by (auto simp: sched_ok_def ready_sorted_def)
  have Q: "t \<in> set (queues k q) \<Longrightarrow> ok_queue (thr k t) q" for t q by (rule kcoreD(5) [OF core])
  have N: "t \<notin> {currp k}" if "p_state (thr k t) \<noteq> CH_STATE_CURRENT" for t using that run by (auto simp: run_ok_def)
  have r: "p_state (thr k t) = CH_STATE_READY \<longleftrightarrow> t \<in> set (queues k RList)" if "t \<in> set (registry k)" for t
    using in_own_queue(3) [OF core that N] Q [of t RList] by auto
  have w: "p_state (thr k t) = CH_STATE_WTSEM \<and> p_u (thr k t) = sp \<longleftrightarrow> t \<in> set (queues k (Sem sp))"
    if "t \<in> set (registry k)" for t sp
    using in_own_queue(4) [OF core that N] Q [of t "Sem sp"] by auto
  have m: "p_state (thr k t) = CH_STATE_WTMTX \<and> p_u (thr k t) = mp \<longleftrightarrow> t \<in> set (queues k (Mtx mp))"
    if "t \<in> set (registry k)" for t mp
    using in_own_queue(1) [OF core that N] Q [of t "Mtx mp"] by auto
  have tq: "p_state (thr k t) = CH_STATE_QUEUED \<longleftrightarrow> (\<exists>tqp. t \<in> set (queues k (TQueue tqp)))" if "t \<in> set (registry k)" for t
    using in_own_queue(5) [OF core that N] Q [of t "TQueue a" for a] by auto
  have "p_state (thr k (currp k)) = CH_STATE_CURRENT" "currp k \<in> set (registry k)" using run by (auto simp: run_ok_def)
  moreover have "\<forall>t \<in> set (registry k). p_state (thr k t) = CH_STATE_CURRENT \<longrightarrow> t = currp k"
    using core by (auto simp: kcore_def registry_ok_def)
  moreover have "\<forall>q. currp k \<notin> set (queues k q) \<and> distinct (queues k q)"
    using kcoreD(1) [OF core] kcoreD(3) [OF core] by blast
  moreover have "\<forall>q q' t. t \<in> set (queues k q) \<and> t \<in> set (queues k q') \<longrightarrow> q = q'" using kcoreD(2) [OF core] by blast
  moreover have "\<forall>q. set (queues k q) \<subseteq> set (registry k)" using kcoreD(4) [OF core] by blast
  moreover note kcoreD(8) [OF core, unfolded sems_ok_def]
  ultimately show ?thesis using so r w m tq by blast
qed

theorem kernel_invariant_witness:
  "\<exists>s. kreach True s \<and> queues (vtimers.more s) (Sem 0x50) = [0x200] \<and> s_cnt (vtimers.more s) 0x50 = - 1
    \<and> p_state (thr (vtimers.more s) 0x200) = CH_STATE_WTSEM \<and> p_state (thr (vtimers.more s) 0x100) = CH_STATE_CURRENT"
proof -
  obtain s where s: "kreach True s" "queues (vtimers.more s) (Sem 0x50) = [0x200]" "currp (vtimers.more s) = 0x100" using demo_waiting by blast
  note inv = kernel_invariant [OF s(1)]
  have "s_cnt (vtimers.more s) 0x50 = - int (length (queues (vtimers.more s) (Sem 0x50)))" using inv s(2) by (metis list.distinct(1))
  moreover have "0x200 \<in> set (registry (vtimers.more s))" using inv s(2) by (metis list.set_intros(1) subsetD)
  with inv s(2) have "p_state (thr (vtimers.more s) 0x200) = CH_STATE_WTSEM" by (metis list.set_intros(1))
  ultimately show ?thesis using inv s by (intro exI [of _ s]) simp
qed


text \<open>The code a thread runs when it goes on changes neither queues nor states.\<close>

lemma chThdRelease_frame [simp]:
  "queues (chThdRelease tp k) = queues k" "s_cnt (chThdRelease tp k) = s_cnt k" "currp (chThdRelease tp k) = currp k"
  "p_state (thr (chThdRelease tp k) t) = p_state (thr k t)" "p_u (thr (chThdRelease tp k) t) = p_u (thr k t)"
  "p_prio (thr (chThdRelease tp k) t) = p_prio (thr k t)"
  by (simp_all add: chThdRelease_def Let_def)

lemma evt_take_frame [simp]:
  "queues (evt_take md events k) = queues k" "s_cnt (evt_take md events k) = s_cnt k" "currp (evt_take md events k) = currp k"
  "p_state (thr (evt_take md events k) t) = p_state (thr k t)" "p_u (thr (evt_take md events k) t) = p_u (thr k t)"
  "p_prio (thr (evt_take md events k) t) = p_prio (thr k t)"
  by (simp_all add: evt_take_def Let_def)

lemma evt_woken_frame [simp]:
  "queues (evt_woken md events k) = queues k" "s_cnt (evt_woken md events k) = s_cnt k" "currp (evt_woken md events k) = currp k"
  "p_state (thr (evt_woken md events k) t) = p_state (thr k t)" "p_u (thr (evt_woken md events k) t) = p_u (thr k t)"
  "p_prio (thr (evt_woken md events k) t) = p_prio (thr k t)"
  by (simp_all add: evt_woken_def)

lemma run_frame_frame [simp]:
  "queues (vtimers.more (run_frame f s)) = queues (vtimers.more s)" "s_cnt (vtimers.more (run_frame f s)) = s_cnt (vtimers.more s)"
  "currp (vtimers.more (run_frame f s)) = currp (vtimers.more s)"
  "p_state (thr (vtimers.more (run_frame f s)) t) = p_state (thr (vtimers.more s) t)"
  "p_u (thr (vtimers.more (run_frame f s)) t) = p_u (thr (vtimers.more s) t)"
  "p_prio (thr (vtimers.more (run_frame f s)) t) = p_prio (thr (vtimers.more s) t)"
  by (cases f; simp)+

lemma resume_frame [simp]:
  "queues (vtimers.more (resume s)) = queues (vtimers.more s)" "s_cnt (vtimers.more (resume s)) = s_cnt (vtimers.more s)"
  "currp (vtimers.more (resume s)) = currp (vtimers.more s)"
  "p_state (thr (vtimers.more (resume s)) t) = p_state (thr (vtimers.more s) t)"
  "p_u (thr (vtimers.more (resume s)) t) = p_u (thr (vtimers.more s) t)"
  "p_prio (thr (vtimers.more (resume s)) t) = p_prio (thr (vtimers.more s) t)"
  by (simp_all add: resume_def Let_def split: option.splits)

lemma insert_prio_same: "(\<And>x. pr x = pr' x) \<Longrightarrow> insert_prio pr ge t xs = insert_prio pr' ge t xs"
  by (metis ext)

text \<open>
  C12: \<open>chSemSignal\<close> on a semaphore with waiting threads returns and hands the semaphore to the thread that has waited
  longest: that thread leaves the queue, the others keep their order, the counter goes up by one and the message of the thread is
  MSG_OK. It runs at once if its priority is above that of the caller, which then is ready; otherwise the caller goes on
  and the thread is put into the ready list behind the threads of its priority.
\<close>

theorem sem_signal_wakes_first:
  assumes s: "kreach d s" and q: "queues (vtimers.more s) (Sem sp) = t # ts"
  defines "k \<equiv> vtimers.more s"
  shows "\<exists>s'. chSemSignal sp s = Some s' \<and> queues (vtimers.more s') (Sem sp) = ts
    \<and> s_cnt (vtimers.more s') sp = s_cnt k sp + 1 \<and> p_u (thr (vtimers.more s') t) = MSG_OK
    \<and> (if prio k t \<le> prio k (currp k)
       then currp (vtimers.more s') = currp k \<and> p_state (thr (vtimers.more s') t) = CH_STATE_READY
         \<and> queues (vtimers.more s') RList = insert_prio (prio k) True t (queues k RList)
       else currp (vtimers.more s') = t \<and> p_state (thr (vtimers.more s') t) = CH_STATE_CURRENT
         \<and> queues (vtimers.more s') RList = insert_prio (prio k) True (currp k) (queues k RList))"
proof -
  have run: "run_ok k" using kreach_sched [OF s] by (simp add: k_def sched_ok_def)
  note core = run_okD(1) [OF run]
  have tq: "t \<in> set (queues k (Sem sp))" using q by (simp add: k_def)
  have t: "t \<noteq> currp k" "prio k t \<noteq> 0" "prio k (currp k) \<noteq> 0"
    using kcoreD(3,4) [OF core tq] core run by (auto simp: kcore_def registry_ok_def run_ok_def)
  have n: "s_cnt k sp < 0" using kcoreD(8) [OF core] q by (auto simp: sems_ok_def k_def dest!: spec [of _ sp])
  show ?thesis using n t q
    by (auto simp: chSemSignal_def lift_def sem_signal_def sem_fifo_remove_def chSchWakeupS_def chSchReadyI_def Let_def
        k_def [symmetric] intro!: exI insert_prio_same)
qed


theorem sem_signal_wakes_first_witness:
  "\<exists>s s'. chSemSignal 0x50 s = Some s' \<and> queues (vtimers.more s) (Sem 0x50) = [0x200] \<and> queues (vtimers.more s') (Sem 0x50) = []
    \<and> currp (vtimers.more s) = 0x100 \<and> currp (vtimers.more s') = 0x200 \<and> queues (vtimers.more s') RList = [0x100]"
proof -
  obtain s where s: "kreach True s" "queues (vtimers.more s) (Sem 0x50) = [0x200]" "queues (vtimers.more s) RList = []"
    "currp (vtimers.more s) = 0x100" "prio (vtimers.more s) 0x200 = 64" "prio (vtimers.more s) 0x100 = 1" using demo_waiting by blast
  show ?thesis using sem_signal_wakes_first [OF s(1,2)] s by auto
qed

section \<open>Time-outs\<close>

lemma wakeup_others:
  assumes "wakeup q k = Some k'" "t \<noteq> q"
  shows "thr k' t = thr k t"
  using assms by (auto simp: wakeup_def chSchReadyI_def Let_def chSemFastSignalI_def dequeue_def split: tstate.splits if_splits)

lemma wakeup_self:
  assumes "wakeup t k = Some k'" "p_state (thr k t) \<noteq> CH_STATE_READY"
  shows "p_state (thr k' t) = CH_STATE_READY" "p_u (thr k' t) = MSG_TIMEOUT"
  using assms by (auto simp: wakeup_def chSchReadyI_def Let_def chSemFastSignalI_def dequeue_def split: tstate.splits if_splits)

lemma wakeup_ready: "p_state (thr k t) = CH_STATE_READY \<Longrightarrow> wakeup t k = Some k"
  by (simp add: wakeup_def)

text \<open>The functions of a tick leave a thread they have woken up as it is.\<close>

lemma call_all_ready:
  assumes "call_all kernel_call cs k = Some k'" "p_state (thr k t) = CH_STATE_READY"
  shows "thr k' t = thr k t"
  using assms
proof (induction cs arbitrary: k)
  case (Cons c cs)
  obtain k1 where k1: "kernel_call c k = Some k1" "call_all kernel_call cs k1 = Some k'"
    using Cons.prems(1) by (auto split: Option.bind_splits)
  have "thr k1 t = thr k t"
    using k1(1) Cons.prems(2) wakeup_others [of _ k k1 t] wakeup_ready [of k t] by (cases c; cases "fst c") force+
  then show ?case using Cons.IH [OF k1(2)] Cons.prems(2) by simp
qed simp

lemma call_all_wakes:
  assumes "call_all kernel_call cs k = Some k'" "(VT_wakeup, t) \<in> set cs" "p_state (thr k t) \<noteq> CH_STATE_READY"
  shows "p_state (thr k' t) = CH_STATE_READY \<and> p_u (thr k' t) = MSG_TIMEOUT"
  using assms
proof (induction cs arbitrary: k)
  case (Cons c cs)
  obtain k1 where k1: "kernel_call c k = Some k1" "call_all kernel_call cs k1 = Some k'"
    using Cons.prems(1) by (auto split: Option.bind_splits)
  show ?case
  proof (cases "c = (VT_wakeup, t)")
    case True
    then show ?thesis using wakeup_self [of t k k1] k1 Cons.prems(3) call_all_ready [OF k1(2), of t] by simp
  next
    case False
    then have "thr k1 t = thr k t"
      using k1(1) wakeup_others [of _ k k1 t] by (cases c; cases "fst c") force+
    then show ?thesis using Cons.IH [OF k1(2)] Cons.prems(2,3) False by auto
  qed
qed simp


lemma reschedule_keeps:
  assumes "chSchDoRescheduleAhead k = Some k' \<or> chSchDoRescheduleBehind k = Some k'" "p_state (thr k t) = CH_STATE_READY" "t \<noteq> currp k"
  shows "p_state (thr k' t) \<in> {CH_STATE_READY, CH_STATE_CURRENT} \<and> p_u (thr k' t) = p_u (thr k t)"
  using assms
  by (auto simp: chSchDoRescheduleAhead_def chSchDoRescheduleBehind_def pick_first_def chSchReadyI_def Let_def
      split: list.splits if_splits Option.bind_splits)

lemma port_irq_epilogue_keeps:
  assumes "port_irq_epilogue k = Some k'" "p_state (thr k t) = CH_STATE_READY" "t \<noteq> currp k"
  shows "p_state (thr k' t) \<in> {CH_STATE_READY, CH_STATE_CURRENT} \<and> p_u (thr k' t) = p_u (thr k t)"
  using assms reschedule_keeps [of k k' t]
  by (auto simp: port_irq_epilogue_def chSchDoReschedule_def split: if_splits)

text \<open>The delta list is determined by the state.\<close>

lemma linked_unique:
  assumes "linked l (a # xs @ [h])" "linked l (a # ys @ [h])" "h \<notin> set xs" "h \<notin> set ys"
  shows "xs = ys"
  using assms
proof (induction xs arbitrary: a ys)
  case Nil then show ?case by (cases ys) auto
next
  case (Cons x xs) then show ?case by (cases ys) auto
qed

lemma vt_rep_unique:
  assumes "vt_rep s ds" "vt_rep s ds'"
  shows "ds = ds'"
proof -
  have "map fst ds = map fst ds'"
    using assms linked_unique [of s "vtlist s" "map fst ds" "vtlist s" "map fst ds'"] by (simp add: vt_rep_def queue_rep_def)
  then show ?thesis using assms unfolding vt_rep_def by (metis pair_list_eqI)
qed

lemma resume_vt_func: "vt_func (resume s) vt = Some f \<Longrightarrow> vt_func s vt = Some f"
proof -
  have "vt_func (run_frame fr s1) vt = Some f \<Longrightarrow> vt_func s1 vt = Some f" for fr s1
    by (cases fr) (auto split: if_splits)
  then show "vt_func (resume s) vt = Some f \<Longrightarrow> vt_func s vt = Some f"
    by (fastforce simp: resume_def Let_def split: option.splits)
qed

lemma chSysTimerHandlerI_wakes:
  assumes inv: "kinv s" and rep: "vt_rep s ds" and last: "(vt, 1) \<in> set (remaining 0 ds)"
    and w: "vt_func s vt = Some VT_wakeup" "vt_par s vt = t" and nr: "p_state (thr (vtimers.more s) t) \<noteq> CH_STATE_READY"
    and s1: "chSysTimerHandlerI s = Some s1"
  shows "p_state (thr (vtimers.more s1) t) = CH_STATE_READY \<and> p_u (thr (vtimers.more s1) t) = MSG_TIMEOUT \<and> vt_func s1 vt = None"
proof -
  define s0 where "s0 = vtimers.more_update use_quantum s"
  have live: "vt_live ds" using inv vt_rep_unique [OF rep] by (auto simp: kinv_def timers_ok_def)
  have rep0: "vt_rep s0 ds" by (simp add: s0_def rep)
  have f: "vt \<in> set (fired 1 ds)" using last by (force simp: fired_def)
  then have c: "(VT_wakeup, t) \<in> set (calls s0 (fired 1 ds))" using w by (force simp: calls_def s0_def)
  have tick: "chVTDoTickI (quiet kernel_call) s0 = Some s1" using s1 by (simp add: chSysTimerHandlerI_def s0_def)
  obtain k' where k': "call_all kernel_call (calls s0 (fired 1 ds)) (vtimers.more s0) = Some k'"
    and x: "\<exists>ds'. expired (s0\<lparr>vt_systime := vt_systime s0 + 1\<rparr>) (fired 1 ds) ds' k' s1"
    using chVTDoTickI_eq [OF rep0 live, of kernel_call] tick by (auto split: option.splits)
  from call_all_wakes [OF k' c] nr have "p_state (thr k' t) = CH_STATE_READY \<and> p_u (thr k' t) = MSG_TIMEOUT" by (simp add: s0_def)
  with x f show ?thesis by (auto simp: expired_def)
qed

text \<open>
  C8: a thread that waits with a time-out, sleeping, suspended, in a thread queue or on a semaphore, is woken up by the tick
  at which its timer has one tick left, whatever other timers end at that tick: the tick returns, the thread is ready or
  running after it, its message is MSG_TIMEOUT and the timer is no longer armed.
\<close>

theorem timeout_wakes_thread:
  assumes s: "kreach d s" and rep: "vt_rep s ds" and last: "(vt, 1) \<in> set (remaining 0 ds)"
    and w: "vt_func s vt = Some VT_wakeup" "vt_par s vt = t" and nr: "p_state (thr (vtimers.more s) t) \<noteq> CH_STATE_READY"
  shows "\<exists>s'. systick s = Some s' \<and> p_state (thr (vtimers.more s') t) \<in> {CH_STATE_READY, CH_STATE_CURRENT}
    \<and> p_u (thr (vtimers.more s') t) = MSG_TIMEOUT \<and> \<not> chVTIsArmedI vt s'"
proof -
  note inv = kreach_inv [OF s]
  obtain s1 where s1: "chSysTimerHandlerI s = Some s1" "run_ok (vtimers.more s1)" "timers_ok s1"
    "currp (vtimers.more s1) = currp (vtimers.more s)"
    by (rule chSysTimerHandlerI_ok [of s]) (use inv in \<open>auto simp: kinv_def sched_ok_def\<close>)
  obtain k' where k': "port_irq_epilogue (vtimers.more s1) = Some k'" using port_irq_epilogue_ok [OF s1(2)] by blast
  note W = chSysTimerHandlerI_wakes [OF inv rep last w nr s1(1)]
  have "t \<noteq> currp (vtimers.more s1)" using W s1(2) by (auto simp: run_ok_def)
  with W port_irq_epilogue_keeps [OF k', of t]
  have "p_state (thr k' t) \<in> {CH_STATE_READY, CH_STATE_CURRENT}" "p_u (thr k' t) = MSG_TIMEOUT" by auto
  moreover have "vt_func (resume (vtimers.more_update (\<lambda>_. k') s1)) vt = None"
    using W resume_vt_func [of "vtimers.more_update (\<lambda>_. k') s1" vt] by (cases "vt_func (resume (vtimers.more_update (\<lambda>_. k') s1)) vt") auto
  ultimately show ?thesis using s1(1) k' by (simp add: systick_def lift_def chVTIsArmedI_def)
qed
theorem timeout_wakes_thread_witness:
  "\<exists>s s'. p_state (thr (vtimers.more s) 0x200) = CH_STATE_SLEEPING \<and> systick s = Some s'
    \<and> p_state (thr (vtimers.more s') 0x200) \<in> {CH_STATE_READY, CH_STATE_CURRENT} \<and> \<not> chVTIsArmedI 0x700 s'"
proof -
  obtain s where s: "kreach True s" "vt_rep s [(0x700, 1)]" "vt_func s 0x700 = Some VT_wakeup" "vt_par s 0x700 = 0x200"
    "p_state (thr (vtimers.more s) 0x200) = CH_STATE_SLEEPING" using demo_sleeping by blast
  show ?thesis using timeout_wakes_thread [OF s(1,2) _ s(3,4)] s(5) by auto
qed

end
