(* ===== verification/Priority_Inheritance.thy ===== *)
theory Priority_Inheritance
  imports Kernel_Steps
begin

text \<open>
  Priority inheritance of the mutexes: the priority of a thread is always the highest of its base priority and those of the
  threads waiting for its mutexes.  The loop of \<open>chMtxLockS\<close> restores this along the chain of owners (\<open>raising\<close> is its loop invariant),
  and \<open>chMtxUnlock\<close> by scanning the mutexes that are left.
\<close>

section \<open>Inherited priorities\<close>

text \<open>The threads waiting for a mutex of \<open>t\<close>.\<close>

definition waiters :: "kernel \<Rightarrow> tid \<Rightarrow> tid set" where
  "waiters k t = {w. \<exists>m. m_owner k m = t \<and> w \<in> set (queues k (Mtx m))}"

text \<open>The priority \<open>pr t\<close> is the highest of the base priority and those of the threads in \<open>W\<close>.\<close>

definition inherits :: "tid set \<Rightarrow> (tid \<Rightarrow> u32) \<Rightarrow> u32 \<Rightarrow> tid \<Rightarrow> bool" where
  "inherits W pr base t \<longleftrightarrow> base \<le> pr t \<and> (\<forall>w \<in> W. pr w \<le> pr t) \<and> (pr t = base \<or> (\<exists>w \<in> W. pr w = pr t))"

definition mtx_sorted :: "kernel \<Rightarrow> bool" where
  "mtx_sorted k \<longleftrightarrow> (\<forall>m. sorted_wrt (\<lambda>a b. prio k b \<le> prio k a) (queues k (Mtx m)))"

definition pi_ok :: "kernel \<Rightarrow> bool" where
  "pi_ok k \<longleftrightarrow> mtx_sorted k \<and> (\<forall>t \<in> set (registry k). inherits (waiters k t) (prio k) (p_realprio (thr k t)) t)"

lemma inherits_Max:
  assumes "inherits W pr base t" "finite W"
  shows "pr t = Max (insert base (pr ` W))"
proof (rule Max_eqI [symmetric])
  show "pr t \<in> insert base (pr ` W)" using assms(1) by (metis imageI inherits_def insert_iff)
qed (use assms in \<open>auto simp: inherits_def\<close>)

lemma inherits_cong:
  assumes "\<And>w. w \<in> W \<Longrightarrow> pr' w = pr w" "pr' t = pr t"
  shows "inherits W pr' base t \<longleftrightarrow> inherits W pr base t"
  using assms by (auto simp: inherits_def)

lemma mframe_pi_ok:
  assumes f: "mframe F k k'" and ok: "pi_ok k"
  shows "pi_ok k'"
proof -
  have e: "waiters k' = waiters k" "\<And>t. prio k' t = prio k t" "\<And>t. p_realprio (thr k' t) = p_realprio (thr k t)"
    "\<And>m. queues k' (Mtx m) = queues k (Mtx m)" "set (registry k') \<subseteq> set (registry k)"
    using f by (auto simp: mframe_def waiters_def fun_eq_iff)
  show ?thesis using ok e(5) unfolding pi_ok_def mtx_sorted_def inherits_def e(1-4) by blast
qed

lemma waiters_running:
  assumes "run_ok k"
  shows "currp k \<notin> waiters k t"
proof
  assume "currp k \<in> waiters k t"
  then obtain m where "currp k \<in> set (queues k (Mtx m))" by (auto simp: waiters_def)
  from kcoreD(3) [OF run_okD(1) [OF assms] this] show False by simp
qed

text \<open>A thread waits for one owner only.\<close>

lemma waiters_one:
  assumes core: "kcore X k" and w: "w \<in> set (queues k (Mtx m))"
  shows "w \<in> waiters k t \<longleftrightarrow> t = m_owner k m"
proof -
  have "m' = m" if "w \<in> set (queues k (Mtx m'))" for m' using kcoreD(2) [OF core w that] by simp
  then show ?thesis using w unfolding waiters_def by blast
qed

lemma waiters_none:
  assumes core: "kcore X k" and w: "p_state (thr k w) \<noteq> CH_STATE_WTMTX"
  shows "w \<notin> waiters k t" "w \<notin> set (queues k (Mtx m))"
  using kcoreD(5) [OF core, of w] w by (fastforce simp: waiters_def)+

section \<open>The loop that raises priorities\<close>

text \<open>In the loop everything is as it should be, with the running thread counted as waiting, except that \<open>tp\<close> may still
  have to be raised to the priority \<open>p\<close>.\<close>

definition raising :: "(tid \<Rightarrow> tid set) \<Rightarrow> u32 \<Rightarrow> tid \<Rightarrow> kernel \<Rightarrow> bool" where
  "raising W p tp k \<longleftrightarrow> mtx_sorted k
     \<and> (\<forall>t \<in> set (registry k) - {tp}. inherits (W t) (prio k) (p_realprio (thr k t)) t)
     \<and> p_realprio (thr k tp) \<le> prio k tp \<and> (\<forall>w \<in> W tp. prio k w \<le> max (prio k tp) p) \<and> (\<exists>w \<in> W tp. prio k w = p)
     \<and> (p \<le> prio k tp \<longrightarrow> prio k tp = p_realprio (thr k tp) \<or> (\<exists>w \<in> W tp. prio k w = prio k tp))"

lemma raising_done:
  assumes "raising W p tp k" "p \<le> prio k tp"
  shows "mtx_sorted k \<and> (\<forall>t \<in> set (registry k). inherits (W t) (prio k) (p_realprio (thr k t)) t)"
proof -
  have "inherits (W tp) (prio k) (p_realprio (thr k tp)) tp" using assms by (auto simp: raising_def inherits_def max_def)
  then show ?thesis using assms by (auto simp: raising_def)
qed

lemma raised_self:
  assumes r: "raising W p tp k" "prio k tp < p" and k': "\<And>t. prio k' t = (if t = tp then p else prio k t)"
    "\<And>t. p_realprio (thr k' t) = p_realprio (thr k t)"
  shows "inherits (W tp) (prio k') (p_realprio (thr k' tp)) tp"
proof -
  obtain w where "w \<in> W tp" "prio k w = p" using r by (auto simp: raising_def)
  moreover have "prio k u \<le> p" if "u \<in> W tp" for u using r that by (auto simp: raising_def max_def split: if_splits)
  moreover have "p_realprio (thr k tp) \<le> p" using r by (auto simp: raising_def)
  ultimately show ?thesis using r(2) by (auto simp: inherits_def k')
qed

lemma raised_other:
  assumes "inherits (W t) (prio k) (p_realprio (thr k t)) t" "t \<noteq> tp" "tp \<notin> W t"
    and k': "\<And>t. prio k' t = (if t = tp then p else prio k t)" "\<And>t. p_realprio (thr k' t) = p_realprio (thr k t)"
  shows "inherits (W t) (prio k') (p_realprio (thr k' t)) t"
  using assms(1-3) unfolding k'(2) by (subst inherits_cong [where pr = "prio k"]) (auto simp: k'(1))

text \<open>The raised thread waits for no mutex: the loop ends.\<close>

lemma raised_end:
  assumes r: "raising W p tp k" "prio k tp < p" and k': "\<And>t. prio k' t = (if t = tp then p else prio k t)"
    "\<And>t. p_realprio (thr k' t) = p_realprio (thr k t)" "registry k' = registry k" "\<And>m. queues k' (Mtx m) = queues k (Mtx m)"
    and n: "\<And>t. tp \<notin> W t" "\<And>m. tp \<notin> set (queues k (Mtx m))"
  shows "mtx_sorted k' \<and> (\<forall>t \<in> set (registry k'). inherits (W t) (prio k') (p_realprio (thr k' t)) t)"
proof -
  have "inherits (W t) (prio k') (p_realprio (thr k' t)) t" if t: "t \<in> set (registry k)" for t
  proof (cases "t = tp")
    case True then show ?thesis using raised_self [OF r k'(1,2)] by simp
  next
    case False
    then have "inherits (W t) (prio k) (p_realprio (thr k t)) t" using r(1) t by (simp add: raising_def)
    then show ?thesis by (rule raised_other [OF _ False n(1) k'(1,2)])
  qed
  moreover have "sorted_wrt (\<lambda>a b. prio k' b \<le> prio k' a) (queues k (Mtx m))" for m
  proof (rule sorted_wrt_mono_rel)
    show "sorted_wrt (\<lambda>a b. prio k b \<le> prio k a) (queues k (Mtx m))" using r(1) by (simp add: raising_def mtx_sorted_def)
    show "prio k' y \<le> prio k' x" if "x \<in> set (queues k (Mtx m))" "y \<in> set (queues k (Mtx m))" "prio k y \<le> prio k x" for x y
      using that n(2) [of m] by (auto simp: k'(1))
  qed
  ultimately show ?thesis by (simp add: mtx_sorted_def k'(3,4))
qed

text \<open>The raised thread waits for a mutex: its owner is next.\<close>

lemma raised_next:
  assumes r: "raising W p tp k" "prio k tp < p" and k': "\<And>t. prio k' t = (if t = tp then p else prio k t)"
    "\<And>t. p_realprio (thr k' t) = p_realprio (thr k t)" "registry k' = registry k"
    and q: "tp \<in> W o'" "\<And>t. t \<noteq> o' \<Longrightarrow> tp \<notin> W t" and o: "o' \<in> set (registry k)" and s: "mtx_sorted k'"
  shows "raising W p o' k'"
proof -
  have i: "inherits (W t) (prio k') (p_realprio (thr k' t)) t" if "t \<in> set (registry k') - {o'}" for t
  proof (cases "t = tp")
    case True then show ?thesis using raised_self [OF r k'(1,2)] by simp
  next
    case False
    then have "inherits (W t) (prio k) (p_realprio (thr k t)) t" using r(1) that by (simp add: raising_def k'(3))
    then show ?thesis by (rule raised_other [OF _ False q(2) k'(1,2)]) (use that in simp)
  qed
  have tp: "prio k' tp = p" by (simp add: k')
  show ?thesis
  proof (cases "o' = tp")
    case True
    have "inherits (W tp) (prio k') (p_realprio (thr k' tp)) tp" by (rule raised_self [OF r k'(1,2)])
    then show ?thesis using i s q(1) tp True by (auto simp: raising_def inherits_def max_def)
  next
    case False
    then have h: "inherits (W o') (prio k) (p_realprio (thr k o')) o'" using r(1) o by (simp add: raising_def)
    have "\<exists>w \<in> W o'. prio k' w = prio k' o'" if a: "p \<le> prio k' o'" "prio k' o' \<noteq> p_realprio (thr k' o')"
    proof -
      obtain w where w: "w \<in> W o'" "prio k w = prio k o'" using h a False by (auto simp: inherits_def k')
      then have "w \<noteq> tp" using a(1) r(2) False by (auto simp: k')
      then show ?thesis using w False by (auto simp: k')
    qed
    moreover have "prio k' w \<le> max (prio k' o') p" if "w \<in> W o'" for w
      using h that False by (auto simp: inherits_def k' max_def intro: order_trans)
    moreover have "p_realprio (thr k' o') \<le> prio k' o'" using h False by (simp add: inherits_def k')
    ultimately show ?thesis using i s q(1) tp by (auto simp: raising_def)
  qed
qed


lemma mtx_boost_raises:
  assumes "run_ok k" "mtx_ok k" "tp \<in> set (registry k)" "raising W (prio k (currp k)) tp k"
    and "\<And>t. W t \<subseteq> waiters k t \<union> {currp k}" "\<And>t. waiters k t \<subseteq> W t" and "mtx_boost tp k = Some k'"
  shows "mtx_sorted k' \<and> (\<forall>t \<in> set (registry k'). inherits (W t) (prio k') (p_realprio (thr k' t)) t)"
  using assms
proof (induction tp k rule: mtx_boost.induct)
  case (1 tp k)
  note prems = "1.prems"
  note R = run_okD [OF prems(1)]
  have nz: "tp \<noteq> 0" using kcoreD(20) [OF R(1)] prems(3) by metis
  show ?case
  proof (cases "prio k tp < prio k (currp k)")
    case False
    then have "k' = k" using prems(7) nz by (simp add: mtx_boost.simps [of tp k])
    then show ?thesis using raising_done [OF prems(4)] False by simp
  next
    case True
    let ?k = "set_p_prio tp (prio k (currp k)) k"
    have n: "tp \<notin> {currp k}" using True by auto
    note Q = in_own_queue [OF R(1) prems(3) n]
    show ?thesis
    proof (cases "p_state (thr k tp) = CH_STATE_WTMTX")
      case mtx: True
      let ?m = "p_u (thr k tp)"
      let ?k1 = "requeue (Mtx ?m) tp ?k"
      note B = boost_requeue [OF prems(1,3) True _ Q(1) [OF mtx], of ?m, simplified]
      have o: "m_owner k ?m \<in> set (registry k)" using mtx_okD(3,5) [OF prems(2)] Q(1) [OF mtx] by (metis empty_iff empty_set)
      have one: "tp \<in> waiters k t \<longleftrightarrow> t = m_owner k ?m" for t by (rule waiters_one [OF R(1) Q(1) [OF mtx]])
      have e: "prio ?k1 t = (if t = tp then prio k (currp k) else prio k t)" for t by simp
      have ws: "waiters ?k1 = waiters k" unfolding waiters_def boostedD(4,6) [OF B(2)] ..
      have "mtx_sorted ?k1" unfolding mtx_sorted_def
      proof
        fix m
        have s: "sorted_wrt (\<lambda>a b. prio k b \<le> prio k a) (remove1 tp (queues k (Mtx m)))"
          by (rule sorted_wrt_remove1) (use prems(4) in \<open>simp add: raising_def mtx_sorted_def\<close>)
        have d: "tp \<notin> set (remove1 tp (queues k (Mtx m)))" using kcoreD(1) [OF R(1), of "Mtx m"] by simp
        have r: "sorted_wrt (\<lambda>a b. prio ?k1 b \<le> prio ?k1 a) (remove1 tp (queues k (Mtx m)))"
          by (rule sorted_wrt_mono_rel [OF _ s]) (use d in \<open>auto simp: e\<close>)
        have q: "queues ?k1 (Mtx m) = (if m = ?m then insert_prio (prio ?k1) True tp (remove1 tp (queues k (Mtx m))) else remove1 tp (queues k (Mtx m)))"
          by simp
        show "sorted_wrt (\<lambda>a b. prio ?k1 b \<le> prio ?k1 a) (queues ?k1 (Mtx m))"
          unfolding q using r sorted_insert_prio [OF r, of True tp] by (simp only: split: if_split) blast
      qed
      moreover have "tp \<in> W t \<longleftrightarrow> t = m_owner k ?m" for t using prems(5,6) [of t] one [of t] n by auto
      ultimately have "raising W (prio k (currp k)) (m_owner k ?m) ?k1"
        by (intro raised_next [OF prems(4) True e]) (use o in auto)
      moreover have "mtx_boost (m_owner k ?m) ?k1 = Some k'" using prems(7) nz True mtx by (simp add: mtx_boost.simps [of tp k] Let_def)
      ultimately show ?thesis
        using "1.IH" [OF nz True refl _ refl] mtx B(1) boosted_mtx_ok [OF B(2) prems(2)] o prems(5,6) ws n by simp
    next
      case False
      have w: "tp \<notin> W t" for t using waiters_none(1) [OF R(1) False, of t] prems(5) [of t] n by auto
      have q: "tp \<notin> set (queues k (Mtx m))" for m using waiters_none(2) [OF R(1) False] .
      have "(k' = requeue (Cond (p_u (thr k tp))) tp ?k) \<or> (k' = make_ready True tp (set_p_prio tp (prio k (currp k)) (dequeue tp k))) \<or> k' = ?k"
        using prems(7) nz True False R(4)
        by (simp add: mtx_boost.simps [of tp k] Let_def run_ok_ready dequeue_set_thr split: tstate.splits)
      then show ?thesis
        by (intro raised_end [OF prems(4) True]) (use w q in \<open>auto simp: remove1_idem\<close>)
    qed
  qed
qed


section \<open>Calls\<close>

lemma lock_pi_ok:
  assumes run: "run_ok k" and ok: "mtx_ok k" and pi: "pi_ok k" and mp: "m_owner k mp \<noteq> 0" and k1: "mtx_boost (m_owner k mp) k = Some k1"
    "run_ok k1" "boosted k k1"
  shows "pi_ok (mtx_enqueue mp k1)"
proof -
  let ?o = "m_owner k mp" and ?c = "currp k"
  define W where "W t = waiters k t \<union> (if t = ?o then {?c} else {})" for t
  note B = boostedD [OF k1(3)]
  have o: "?o \<in> set (registry k)" by (rule mtx_okD(3) [OF ok mp])
  have "inherits (waiters k ?o) (prio k) (p_realprio (thr k ?o)) ?o" using pi o by (simp add: pi_ok_def)
  then have "raising W (prio k ?c) ?o k"
    using pi by (auto simp: raising_def pi_ok_def W_def inherits_def max_def)
  then have r: "mtx_sorted k1 \<and> (\<forall>t \<in> set (registry k1). inherits (W t) (prio k1) (p_realprio (thr k1 t)) t)"
    by (rule mtx_boost_raises [OF run ok o _ _ _ k1(1)]) (auto simp: W_def)
  have w: "waiters (mtx_enqueue mp k1) = W"
  proof
    fix t
    have "waiters k1 t = waiters k t" unfolding waiters_def B(4,6) ..
    moreover have "waiters (mtx_enqueue mp k1) t = waiters k1 t \<union> (if t = ?o then {?c} else {})"
      using B(1,4) by (auto simp: waiters_def split: if_splits)
    ultimately show "waiters (mtx_enqueue mp k1) t = W t" by (simp add: W_def)
  qed
  have p: "prio (mtx_enqueue mp k1) t = prio k1 t" "p_realprio (thr (mtx_enqueue mp k1) t) = p_realprio (thr k1 t)" for t by simp_all
  have "sorted_wrt (\<lambda>a b. prio k1 b \<le> prio k1 a) (queues (mtx_enqueue mp k1) (Mtx m))" for m
  proof -
    have s: "sorted_wrt (\<lambda>a b. prio k1 b \<le> prio k1 a) (queues k1 (Mtx m))" using r by (simp add: mtx_sorted_def)
    show ?thesis using s sorted_insert_prio [OF s, of True "currp k1"] by (cases "m = mp") simp_all
  qed
  then show ?thesis using r unfolding pi_ok_def mtx_sorted_def w p by simp
qed

lemma mtx_own_pi_ok:
  assumes "mtx_ok k" "pi_ok k" "m_owner k mp = 0" "t \<noteq> 0" "0 \<notin> set (registry k)"
  shows "pi_ok (mtx_own mp t k)"
proof -
  have q: "queues k (Mtx mp) = []" using mtx_okD(5) [OF assms(1), of mp] assms(3) by blast
  have w: "waiters (mtx_own mp t k) u = waiters k u" if "u \<noteq> 0" for u
    using q assms(3,4) that by (fastforce simp: waiters_def split: if_splits)
  have p: "prio (mtx_own mp t k) u = prio k u" "p_realprio (thr (mtx_own mp t k) u) = p_realprio (thr k u)" for u by simp_all
  have "inherits (waiters (mtx_own mp t k) u) (prio k) (p_realprio (thr k u)) u" if u: "u \<in> set (registry k)" for u
  proof -
    have "u \<noteq> 0" using u assms(5) by auto
    then show ?thesis using assms(2) u by (simp add: w pi_ok_def)
  qed
  then show ?thesis using assms(2) unfolding pi_ok_def mtx_sorted_def p mtx_own_simps(1,3) by blast
qed

text \<open>Handing a mutex over: for the threads but the running one, and for that one with its new priority.\<close>

definition pi_others :: "tid \<Rightarrow> kernel \<Rightarrow> bool" where
  "pi_others c k \<longleftrightarrow> mtx_sorted k \<and> (\<forall>t \<in> set (registry k) - {c}. inherits (waiters k t) (prio k) (p_realprio (thr k t)) t)"

lemma pi_ok_others: "pi_ok k \<longleftrightarrow> pi_others c k \<and> (c \<in> set (registry k) \<longrightarrow> inherits (waiters k c) (prio k) (p_realprio (thr k c)) c)"
  by (auto simp: pi_ok_def pi_others_def)

lemma released_nil:
  assumes q: "queues k (Mtx mp) = []"
  shows "prio (released mp v k) t = prio k t" "p_realprio (thr (released mp v k) t) = p_realprio (thr k t)"
    "queues (released mp v k) = queues k" "registry (released mp v k) = registry k" "m_owner (released mp v k) = (m_owner k)(mp := 0)"
    "currp (released mp v k) = currp k"
  using q by (simp_all add: released_def Let_def)

lemma released_cons:
  assumes q: "queues k (Mtx mp) = tp # ts" and n: "tp \<noteq> currp k"
  shows "prio (released mp v k) t = (if t = currp k then v else prio k t)" "p_realprio (thr (released mp v k) t) = p_realprio (thr k t)"
    "queues (released mp v k) (Mtx m) = (if m = mp then ts else queues k (Mtx m))" "registry (released mp v k) = registry k"
    "m_owner (released mp v k) = (m_owner k)(mp := tp)" "currp (released mp v k) = currp k"
  using q n by (simp_all add: released_def Let_def)

lemma waiters_released:
  assumes mp: "m_owner k mp = c" and ws: "\<And>m. queues k' (Mtx m) = (if m = mp then ts else queues k (Mtx m))"
    and o: "m_owner k' = (m_owner k)(mp := tp)" and t: "t \<noteq> c"
  shows "waiters k' t = (if t = tp then waiters k t \<union> set ts else waiters k t)"
  using assms by (fastforce simp: waiters_def split: if_splits)

lemma mtx_sorted_running:
  assumes run: "run_ok k" and s: "mtx_sorted k" and p: "\<And>t. prio k' t = (if t = currp k then v else prio k t)"
    and q: "\<And>m. queues k' (Mtx m) = (if m = mp then ts else queues k (Mtx m))" and ts: "queues k (Mtx mp) = us @ ts"
  shows "mtx_sorted k'"
  unfolding mtx_sorted_def
proof
  fix m
  have n: "currp k \<notin> set (queues k (Mtx m))" for m using kcoreD(3) [OF run_okD(1) [OF run], of "currp k" "Mtx m"] by auto
  have sk: "sorted_wrt (\<lambda>a b. prio k b \<le> prio k a) (queues k (Mtx m))" for m using s by (simp add: mtx_sorted_def)
  have s1: "sorted_wrt (\<lambda>a b. prio k b \<le> prio k a) (queues k' (Mtx m))" using sk [of mp] sk [of m] ts by (auto simp: q sorted_wrt_append)
  have n1: "currp k \<notin> set (queues k' (Mtx m))" using n [of mp] n [of m] ts by (auto simp: q)
  show "sorted_wrt (\<lambda>a b. prio k' b \<le> prio k' a) (queues k' (Mtx m))"
    by (rule sorted_wrt_mono_rel [OF _ s1]) (use n1 in \<open>auto simp: p\<close>)
qed

lemma released_pi_others:
  assumes run: "run_ok k" and pi: "pi_others (currp k) k" and mp: "m_owner k mp = currp k" and z: "0 \<notin> set (registry k)"
  shows "pi_others (currp k) (released mp v k)"
proof (cases "queues k (Mtx mp)")
  case Nil
  note N = released_nil [OF Nil]
  have "waiters (released mp v k) t = waiters k t" if "t \<noteq> currp k" "t \<noteq> 0" for t
    using that mp Nil by (fastforce simp: waiters_def N split: if_splits)
  moreover have "t \<noteq> 0" if "t \<in> set (registry k)" for t using that z by auto
  ultimately show ?thesis using pi unfolding pi_others_def mtx_sorted_def N by simp
next
  case (Cons tp ts)
  have t: "tp \<in> set (queues k (Mtx mp))" using Cons by simp
  have n: "tp \<noteq> currp k" using kcoreD(3) [OF run_okD(1) [OF run] t] by auto
  note C = released_cons [OF Cons n]
  have s: "mtx_sorted (released mp v k)"
    using pi Cons by (intro mtx_sorted_running [OF run _ C(1,3), of "[tp]"]) (simp_all add: pi_others_def)
  have "inherits (waiters (released mp v k) u) (prio (released mp v k)) (p_realprio (thr k u)) u"
    if u: "u \<in> set (registry k) - {currp k}" for u
  proof -
    have w: "waiters (released mp v k) u = (if u = tp then waiters k u \<union> set ts else waiters k u)"
      by (rule waiters_released [OF mp C(3,5)]) (use u in simp)
    have c: "currp k \<notin> waiters (released mp v k) u"
      using waiters_running [OF run, of u] kcoreD(3) [OF run_okD(1) [OF run], of "currp k" "Mtx mp"] Cons by (auto simp: w)
    have h: "inherits (waiters k u) (prio k) (p_realprio (thr k u)) u" using pi u by (simp add: pi_others_def)
    have le: "prio k x \<le> prio k tp" if "x \<in> set ts" for x
      using pi Cons that by (auto simp: pi_others_def mtx_sorted_def dest: spec [of _ mp])
    have "inherits (waiters (released mp v k) u) (prio k) (p_realprio (thr k u)) u"
      using h le unfolding w by (auto simp: inherits_def)
    then show ?thesis using c u by (subst inherits_cong [where pr = "prio k"]) (auto simp: C(1))
  qed
  then show ?thesis using s by (simp add: pi_others_def C(2,4))
qed



lemma released_pi_ok:
  assumes run: "run_ok k" and ok: "mtx_ok k" and pi: "pi_ok k" and l: "owns k (currp k) (mp # ms)"
  defines "v \<equiv> newprio_of k (p_realprio (thr k (currp k))) ms"
  shows "pi_ok (released mp v k)"
proof -
  note R = run_okD [OF run]
  let ?c = "currp k"
  have mp: "m_owner k mp = ?c" and ms: "mp \<notin> set ms" "\<And>m. m \<in> set ms \<longleftrightarrow> m_owner k m = ?c \<and> m \<noteq> mp" using l by (auto simp: owns_def)
  have h: "inherits (waiters k ?c) (prio k) (p_realprio (thr k ?c)) ?c" using pi R(2) by (simp add: pi_ok_def)
  have "inherits (waiters (released mp v k) ?c) (prio (released mp v k)) (p_realprio (thr k ?c)) ?c"
  proof (cases "queues k (Mtx mp)")
    case Nil
    have "m_owner (released mp v k) m = m_owner k m" if "w \<in> set (queues k (Mtx m))" for w m
      using that Nil by (auto simp: released_nil [OF Nil])
    then have "waiters (released mp v k) ?c = waiters k ?c" unfolding waiters_def released_nil(3) [OF Nil] by (intro Collect_cong) metis
    then show ?thesis using h by (simp add: released_nil [OF Nil])
  next
    case (Cons tp ts)
    have t: "tp \<in> set (queues k (Mtx mp))" using Cons by simp
    have n: "tp \<noteq> ?c" using kcoreD(3) [OF R(1) t] by auto
    note C = released_cons [OF Cons n]
    have w: "waiters (released mp v k) ?c = {w. \<exists>m \<in> set ms. w \<in> set (queues k (Mtx m))}"
      using n ms(2) by (auto simp: waiters_def C(3,5) split: if_splits)
    have le: "prio k w \<le> v" if "m \<in> set ms" "w \<in> set (queues k (Mtx m))" for m w
    proof -
      have "sorted_wrt (\<lambda>a b. prio k b \<le> prio k a) (queues k (Mtx m))" using pi by (simp add: pi_ok_def mtx_sorted_def)
      then have "prio k w \<le> prio k (hd (queues k (Mtx m)))" using that(2) by (cases "queues k (Mtx m)") auto
      also have "\<dots> \<le> v" unfolding v_def using that by (intro newprio_of_upper) auto
      finally show ?thesis .
    qed
    have at: "v = p_realprio (thr k ?c) \<or> (\<exists>m \<in> set ms. \<exists>w \<in> set (queues k (Mtx m)). prio k w = v)"
      using newprio_of_attained [of k "p_realprio (thr k ?c)" ms] unfolding v_def by (metis hd_in_set)
    have c: "?c \<noteq> w" if "w \<in> set (queues k (Mtx m))" for m w using kcoreD(3) [OF R(1) that] by auto
    have e: "prio (released mp v k) w = prio k w" if "w \<in> set (queues k (Mtx m))" for m w using c [OF that] by (simp add: C(1))
    have pc: "prio (released mp v k) ?c = v" by (simp add: C(1))
    have "p_realprio (thr k ?c) \<le> v" unfolding v_def by (rule newprio_of_ge)
    moreover have "prio (released mp v k) x \<le> v" if "x \<in> waiters (released mp v k) ?c" for x using that le e unfolding w by fastforce
    moreover have "v = p_realprio (thr k ?c) \<or> (\<exists>x \<in> waiters (released mp v k) ?c. prio (released mp v k) x = v)"
      using at e unfolding w by fastforce
    ultimately show ?thesis unfolding inherits_def pc by blast
  qed
  moreover have "pi_others ?c (released mp v k)"
    using pi R kcoreD(20) [OF R(1)] by (intro released_pi_others [OF run _ mp]) (simp_all add: pi_ok_others [of k ?c])
  moreover have "p_realprio (thr (released mp v k) ?c) = p_realprio (thr k ?c)"
  proof (cases "queues k (Mtx mp)")
    case (Cons tp ts)
    then have "tp \<noteq> ?c" using kcoreD(3) [OF R(1), of tp "Mtx mp"] by auto
    then show ?thesis using released_cons(2) [OF Cons] by simp
  qed (simp add: released_nil)
  ultimately show ?thesis by (simp add: pi_ok_others [of _ ?c])
qed

lemma release_all_pi:
  assumes "run_ok k" "mtx_ok k" "owns k (currp k) ms" "pi_others (currp k) k"
  shows "pi_others (currp k) (release_all ms k) \<and> (p_realprio (thr (release_all ms k) (currp k)) = p_realprio (thr k (currp k)))"
  using assms
proof (induction ms arbitrary: k)
  case (Cons mp ms)
  let ?k = "released mp (prio k (currp k)) k"
  note R = run_okD [OF Cons.prems(1)]
  note O = released_ok [OF Cons.prems(1-3) R(4)]
  have c: "currp ?k = currp k" "run_ok ?k" using O(1) by (auto simp: stays_def)
  have mp: "m_owner k mp = currp k" using Cons.prems(3) by (auto simp: owns_def)
  have p: "pi_others (currp k) ?k" by (rule released_pi_others [OF Cons.prems(1,4) mp kcoreD(20) [OF R(1)]])
  have "p_realprio (thr ?k (currp k)) = p_realprio (thr k (currp k))"
  proof (cases "queues k (Mtx mp)")
    case (Cons tp ts)
    then have "tp \<noteq> currp k" using kcoreD(3) [OF R(1), of tp "Mtx mp"] by auto
    then show ?thesis using released_cons(2) [OF Cons] by simp
  qed (simp add: released_nil)
  then show ?case using Cons.IH [OF c(2) O(2)] released_owns [OF Cons.prems(1,3)] p c(1) by (simp add: release_all_def)
qed (simp add: release_all_def)


lemma mtx_lock_pi:
  assumes inv: "kinv s" and ok: "mtx_ok (vtimers.more s)" and pi: "pi_ok (vtimers.more s)" and mp: "mp \<noteq> 0"
    and s': "chMtxLock mp s = Some s'"
  shows "pi_ok (vtimers.more s')"
proof -
  let ?k = "vtimers.more s"
  note R = run_okD [OF kinvD(1) [OF inv]]
  obtain k' where k': "chMtxLockS mp ?k = Some k'" "s' = resume (vtimers.more_update (\<lambda>_. k') s)"
    using s' by (auto simp: chMtxLock_def lift_def)
  have "pi_ok k'"
  proof (cases "m_owner ?k mp = 0")
    case True
    have "currp ?k \<noteq> 0" using R(2) kcoreD(20) [OF R(1)] by metis
    then show ?thesis using True k'(1) mtx_own_pi_ok [OF ok pi True _ kcoreD(20) [OF R(1)]] by (auto simp: chMtxLockS_def)
  next
    case False
    obtain k1 where k1: "mtx_boost (m_owner ?k mp) ?k = Some k1" "run_ok k1" "boosted ?k k1"
      using mtx_boost_ok [OF kinvD(1) [OF inv] ok mtx_okD(3) [OF ok False]] by blast
    have g: "chSchGoSleepS CH_STATE_WTMTX (mtx_enqueue mp k1) = Some k'" using k'(1) False k1(1) by (simp add: chMtxLockS_def)
    have "mframe {} (mtx_enqueue mp k1) k'" by (rule mframe_GoSleepS [OF g]) simp
    then show ?thesis using lock_pi_ok [OF kinvD(1) [OF inv] ok pi False k1] by (rule mframe_pi_ok)
  qed
  then show ?thesis unfolding k'(2) using mframe_pi_ok [OF mframe_resume [of "{}" "vtimers.more_update (\<lambda>_. k') s"]] by simp
qed

lemma try_lock_pi:
  assumes inv: "kinv s" and ok: "mtx_ok (vtimers.more s)" and pi: "pi_ok (vtimers.more s)"
  shows "pi_ok (vtimers.more (chMtxTryLock mp s))"
proof -
  note R = run_okD [OF kinvD(1) [OF inv]]
  have "currp (vtimers.more s) \<noteq> 0" using R(2) kcoreD(20) [OF R(1)] by metis
  then show ?thesis using pi mtx_own_pi_ok [OF ok pi _ _ kcoreD(20) [OF R(1)], of mp] mframe_pi_ok [OF mframe_simple(1) [of "{}"]]
    by (simp add: chMtxTryLock_def chMtxTryLockS_def)
qed

lemma running_prio_pi:
  assumes run: "run_ok k" and pi: "pi_others (currp k) k" and pr: "\<And>t. prio k' t = (if t = currp k then v else prio k t)"
    and k': "queues k' = queues k" "m_owner k' = m_owner k" "registry k' = registry k"
      "\<And>t. t \<noteq> currp k \<Longrightarrow> p_realprio (thr k' t) = p_realprio (thr k t)"
  shows "pi_others (currp k) k'"
proof -
  have w: "waiters k' = waiters k" by (simp add: waiters_def k' fun_eq_iff)
  have "mtx_sorted k'"
    by (rule mtx_sorted_running [OF run _ pr, where mp = 0 and us = "[]" and ts = "queues k (Mtx 0)"]) (use pi in \<open>simp_all add: k' pi_others_def\<close>)
  moreover have "inherits (waiters k' t) (prio k') (p_realprio (thr k' t)) t" if "t \<in> set (registry k') - {currp k}" for t
    using that pi waiters_running [OF run, of t] unfolding w
    by (subst inherits_cong [where pr = "prio k"]) (auto simp: pr k' pi_others_def)
  ultimately show ?thesis by (simp add: pi_others_def)
qed

lemma owns_waiters: "owns k t [] \<Longrightarrow> waiters k t = {}"
  by (auto simp: owns_def waiters_def)

lemma unlock_all_pi:
  assumes inv: "kinv s" and ok: "mtx_ok (vtimers.more s)" and pi: "pi_ok (vtimers.more s)" and s': "chMtxUnlockAll s = Some s'"
  shows "pi_ok (vtimers.more s')"
proof -
  let ?k = "vtimers.more s"
  let ?c = "currp ?k"
  note R = run_okD [OF kinvD(1) [OF inv]]
  obtain ms where ms: "owns ?k ?c ms" using mtx_okD(2) [OF ok R(2)] by blast
  obtain s'' where "chMtxUnlockAll s = Some s''" and f: "p_mtxlist (thr ?k ?c) = 0 \<Longrightarrow> mframe {} ?k (vtimers.more s'')"
    "ms \<noteq> [] \<Longrightarrow> mframe {} (set_thr ?c (\<lambda>t. t\<lparr>p_prio := p_realprio t\<rparr>) (release_all ms ?k)) (vtimers.more s'')"
    by (rule mtx_unlock_all_ok [OF inv ok]) (use ms in blast)
  then have e: "s'' = s'" using s' by simp
  show ?thesis
  proof (cases "ms = []")
    case True
    then have "p_mtxlist (thr ?k ?c) = 0" using ms by (simp add: owns_def)
    then show ?thesis using mframe_pi_ok [OF f(1) pi] e by simp
  next
    case False
    let ?k1 = "release_all ms ?k"
    let ?k2 = "set_thr ?c (\<lambda>t. t\<lparr>p_prio := p_realprio t\<rparr>) ?k1"
    note L = mtx_unlock_loop_ok [OF kinvD(1) [OF inv] ok ms]
    then have c: "run_ok ?k1" "currp ?k1 = ?c" by (auto simp: stays_def)
    have "pi_others ?c ?k1" using release_all_pi [OF kinvD(1) [OF inv] ok ms] pi by (simp add: pi_ok_others [of _ ?c])
    then have "pi_others ?c ?k2" using running_prio_pi [OF c(1), of ?k2 "p_realprio (thr ?k1 ?c)"] c(2) by simp
    moreover have "waiters ?k2 ?c = {}" using owns_waiters [of ?k1 ?c] L by (simp add: waiters_def)
    ultimately have "pi_ok ?k2" by (simp add: pi_ok_others [of _ ?c] inherits_def)
    then show ?thesis using mframe_pi_ok [OF f(2) [OF False]] e by simp
  qed
qed


lemma create_pi:
  assumes inv: "kinv s" and ok: "mtx_ok (vtimers.more s)" and pi: "pi_ok (vtimers.more s)"
    and new: "wsp \<notin> set (registry (vtimers.more s))" "wsp \<noteq> 0" "pr \<noteq> 0" and s': "chThdCreateStatic wsp pr s = Some s'"
  shows "pi_ok (vtimers.more s')"
proof -
  let ?k = "vtimers.more s"
  let ?k1 = "thread_init wsp pr (return wsp ?k)"
  note core = run_okD(1) [OF kinvD(1) [OF inv]]
  have f: "mframe {} ?k1 (vtimers.more s')" using create_mtx_ok [OF ok new s'] by simp
  have e: "m_owner ?k1 = m_owner ?k" "queues ?k1 = queues ?k" "registry ?k1 = registry ?k @ [wsp]"
    "prio ?k1 wsp = pr" "p_realprio (thr ?k1 wsp) = pr" "\<And>t. t \<noteq> wsp \<Longrightarrow> thr ?k1 t = thr ?k t"
    by (simp_all add: thread_init_def Let_def)
  have w: "waiters ?k1 = waiters ?k" by (simp add: waiters_def e fun_eq_iff)
  have n: "wsp \<notin> set (queues ?k q)" for q using kcoreD(4) [OF core] new(1) by blast
  have nw: "x \<noteq> wsp" if "x \<in> waiters ?k t" for x t using that n by (auto simp: waiters_def)
  have "m_owner ?k m \<noteq> wsp" for m using mtx_okD(3) [OF ok, of m] new(1,2) by auto
  then have none: "waiters ?k wsp = {}" by (simp add: waiters_def)
  have i: "inherits (waiters ?k1 t) (prio ?k1) (p_realprio (thr ?k1 t)) t" if t: "t \<in> set (registry ?k1)" for t
  proof (cases "t = wsp")
    case True
    then show ?thesis using none unfolding w by (simp add: inherits_def e)
  next
    case False
    then have "inherits (waiters ?k t) (prio ?k) (p_realprio (thr ?k t)) t" using pi t by (simp add: pi_ok_def)
    then show ?thesis unfolding w using False nw by (subst inherits_cong [where pr = "prio ?k"]) (auto simp: e(6))
  qed
  have "sorted_wrt (\<lambda>a b. prio ?k1 b \<le> prio ?k1 a) (queues ?k (Mtx m))" for m
  proof (rule sorted_wrt_mono_rel)
    show "sorted_wrt (\<lambda>a b. prio ?k b \<le> prio ?k a) (queues ?k (Mtx m))" using pi by (simp add: pi_ok_def mtx_sorted_def)
    show "prio ?k1 y \<le> prio ?k1 x" if "x \<in> set (queues ?k (Mtx m))" "y \<in> set (queues ?k (Mtx m))" "prio ?k y \<le> prio ?k x" for x y
      using that n [of "Mtx m"] by (metis e(6))
  qed
  then have "pi_ok ?k1" using i by (simp add: pi_ok_def mtx_sorted_def e(2))
  then show ?thesis by (rule mframe_pi_ok [OF f])
qed

lemma set_priority_pi:
  assumes inv: "kinv s" and ok: "mtx_ok (vtimers.more s)" and pi: "pi_ok (vtimers.more s)"
    and pr: "newprio \<noteq> 0" "may_set_priority newprio (vtimers.more s)" and s': "chThdSetPriority newprio s = Some s'"
  shows "pi_ok (vtimers.more s')"
proof -
  let ?k = "vtimers.more s"
  let ?c = "currp ?k"
  let ?f = "\<lambda>t. (if prio ?k ?c = p_realprio (thr ?k ?c) \<or> newprio > prio ?k ?c then t\<lparr>p_prio := newprio\<rparr> else t)\<lparr>p_realprio := newprio\<rparr>"
  let ?k1 = "set_thr ?c ?f ?k"
  note run = kinvD(1) [OF inv] and R = run_okD [OF kinvD(1) [OF inv]]
  have f: "mframe {} ?k1 (vtimers.more s')" using set_priority_mtx_ok [OF ok pr(1) s'] by simp
  have h: "inherits (waiters ?k ?c) (prio ?k) (p_realprio (thr ?k ?c)) ?c" using pi R(2) by (simp add: pi_ok_def)
  obtain ms where ms: "owns ?k ?c ms" using mtx_okD(2) [OF ok R(2)] by blast
  have none: "waiters ?k ?c = {}" if "p_mtxlist (thr ?k ?c) = 0"
    using that ms owns_waiters [of ?k ?c] by (cases ms) (auto simp: owns_def)
  have pc: "prio ?k1 ?c = newprio"
  proof (cases "prio ?k ?c \<le> newprio")
    case True then show ?thesis by auto
  next
    case False
    then have "prio ?k ?c = p_realprio (thr ?k ?c)" using pr(2) h none by (auto simp: may_set_priority_def inherits_def)
    then show ?thesis by simp
  qed
  have p: "prio ?k1 t = (if t = ?c then newprio else prio ?k t)" for t using pc by simp
  have w: "waiters ?k1 = waiters ?k" by (simp add: waiters_def fun_eq_iff)
  have "pi_others ?c ?k1" using pi by (intro running_prio_pi [OF run _ p]) (simp_all add: pi_ok_others [of _ ?c])
  moreover have "prio ?k1 x \<le> newprio" if "x \<in> waiters ?k ?c" for x
  proof -
    have "prio ?k ?c \<le> newprio" using pr(2) none that by (auto simp: may_set_priority_def)
    moreover have "prio ?k x \<le> prio ?k ?c" using h that by (simp add: inherits_def)
    ultimately show ?thesis unfolding p by (auto intro: order_trans)
  qed
  then have "inherits (waiters ?k1 ?c) (prio ?k1) (p_realprio (thr ?k1 ?c)) ?c" unfolding w inherits_def pc by simp
  ultimately have "pi_ok ?k1" by (simp add: pi_ok_others [of _ ?c])
  then show ?thesis by (rule mframe_pi_ok [OF f])
qed

lemma kstep_pi:
  assumes "kstep True s s'" "kinv s" "mtx_ok (vtimers.more s)" "pi_ok (vtimers.more s)"
  shows "pi_ok (vtimers.more s')"
  using assms(1-3)
proof (cases rule: kstep_cases)
  case frame then show ?thesis by (rule mframe_pi_ok [OF _ assms(4)])
next
  case (create wsp pr) then show ?thesis using create_pi assms by blast
next
  case (set_priority newprio) then show ?thesis using set_priority_pi assms by blast
next
  case (exit msg) then show ?thesis using mframe_pi_ok [OF mframe_exit assms(4)] by blast
next
  case (mtx_lock mp) then show ?thesis using mtx_lock_pi assms by blast
next
  case (mtx_try_lock mp) then show ?thesis using try_lock_pi assms by blast
next
  case (mtx_unlock mp)
  obtain s'' ms v where u: "owns (vtimers.more s) (currp (vtimers.more s)) (mp # ms)"
    "v = newprio_of (vtimers.more s) (p_realprio (thr (vtimers.more s) (currp (vtimers.more s)))) ms"
    "chMtxUnlock mp s = Some s''" "mframe {} (released mp v (vtimers.more s)) (vtimers.more s'')"
    by (rule mtx_unlock_ok [OF assms(2,3) mtx_unlock(2,1)]) blast
  show ?thesis using mframe_pi_ok [OF u(4)] released_pi_ok [OF kinvD(1) [OF assms(2)] assms(3,4) u(1)] u(2,3) mtx_unlock(3) by simp
next
  case mtx_unlock_all then show ?thesis using unlock_all_pi assms by blast
qed

lemma kreach_pi: "kreach True s \<Longrightarrow> pi_ok (vtimers.more s)"
proof (induction rule: kreach.induct)
  case (start mainthread name vtl)
  let ?k = "vtimers.more (chSysInit mainthread name (zero_sys vtl))"
  have q: "queues ?k = (\<lambda>_. [])" "\<And>t. t \<in> set (registry ?k) \<Longrightarrow> prio ?k t = p_realprio (thr ?k t)"
    by (auto simp: chSysInit_def zero_sys_def zero_kernel_def scheduler_init_def vt_init_def thread_init_def Let_def set_thr_def set_queue_def)
  show ?case using q(2) by (simp add: pi_ok_def mtx_sorted_def inherits_def waiters_def q(1))
next
  case (step s s') then show ?case using kstep_pi kreach_ok by blast
qed

section \<open>Examples\<close>

lemmas mutex_eval = kernel_eval chMtxLock_def chMtxLockS_def mtx_own_def set_m_owner_def set_m_next_def mtx_boost.simps mtx_enqueue_def
  requeue_def dequeue_def

lemma demo_lt [simp]: "(1 :: u32) < 64" "(32 :: u32) \<le> 64" "\<not> (32 :: u32) < 1" "\<not> (32 :: u32) \<le> 1"
  by (simp_all add: word_less_nat_alt word_le_nat_alt)

text \<open>The main thread locks a mutex, and a thread of a higher priority waits for it.\<close>

lemma demo_inherit_run:
  "\<exists>s1 s2 s3. chMtxLock 0x60 demo_start = Some s1 \<and> chThdCreateStatic 0x200 64 s1 = Some s2 \<and> chMtxLock 0x60 s2 = Some s3
    \<and> registry (vtimers.more s1) = [0x100] \<and> registry (vtimers.more s3) = [0x100, 0x200] \<and> m_owner (vtimers.more s3) 0x60 = 0x100
    \<and> m_owner (vtimers.more s3) = (\<lambda>m. if m = 0x60 then 0x100 else 0)
    \<and> queues (vtimers.more s3) (Mtx 0x60) = [0x200] \<and> queues (vtimers.more s3) RList = [] \<and> currp (vtimers.more s3) = 0x100
    \<and> p_realprio (thr (vtimers.more s3) 0x100) = 1 \<and> prio (vtimers.more s3) 0x200 = 64 \<and> p_mtxlist (thr (vtimers.more s3) 0x100) = 0x60"
  by (simp add: mutex_eval IDLEPRIO_def fun_eq_iff del: split_paired_Ex)


text \<open>The owner of the mutex has a higher priority than the thread that waits.\<close>

lemma demo_drop_run:
  "\<exists>s1 s2 s3 s4 s5 s6. chThdCreateStatic 0x200 64 demo_start = Some s1 \<and> chMtxLock 0x60 s1 = Some s2
    \<and> chThdCreateStatic 0x300 32 s2 = Some s3 \<and> suspendThread 0x70 s3 = Some s4 \<and> chMtxLock 0x60 s4 = Some s5
    \<and> chThdResume 0x70 0 s5 = Some s6
    \<and> registry (vtimers.more demo_start) = [0x100] \<and> registry (vtimers.more s2) = [0x100, 0x200] \<and> tref (vtimers.more s3) 0x70 = 0
    \<and> currp (vtimers.more s6) = 0x200 \<and> m_owner (vtimers.more s6) 0x60 = 0x200
    \<and> queues (vtimers.more s6) (Mtx 0x60) = [0x300]
    \<and> prio (vtimers.more s6) 0x200 = 64 \<and> p_realprio (thr (vtimers.more s6) 0x200) = 64 \<and> prio (vtimers.more s6) 0x300 = 32"
  by (simp add: mutex_eval IDLEPRIO_def suspendThread_def chThdSuspendS_def set_tref_def chThdResume_def chThdResumeS_def
     chSchRescheduleS_def chSchIsRescRequiredI_def firstprio_def del: split_paired_Ex)

lemma demo_inherit:
  "\<exists>s. kreach True s \<and> registry (vtimers.more s) = [0x100, 0x200] \<and> m_owner (vtimers.more s) = (\<lambda>m. if m = 0x60 then 0x100 else 0)
    \<and> queues (vtimers.more s) (Mtx 0x60) = [0x200] \<and> currp (vtimers.more s) = 0x100
    \<and> p_realprio (thr (vtimers.more s) 0x100) = 1 \<and> prio (vtimers.more s) 0x200 = 64 \<and> p_mtxlist (thr (vtimers.more s) 0x100) = 0x60"
proof -
  obtain s1 s2 s3 where s: "chMtxLock 0x60 demo_start = Some s1" "chThdCreateStatic 0x200 64 s1 = Some s2" "chMtxLock 0x60 s2 = Some s3"
    "registry (vtimers.more s1) = [0x100]" "registry (vtimers.more s3) = [0x100, 0x200]"
    "m_owner (vtimers.more s3) = (\<lambda>m. if m = 0x60 then 0x100 else 0)" "queues (vtimers.more s3) (Mtx 0x60) = [0x200]" "currp (vtimers.more s3) = 0x100"
    "p_realprio (thr (vtimers.more s3) 0x100) = 1" "prio (vtimers.more s3) 0x200 = 64" "p_mtxlist (thr (vtimers.more s3) 0x100) = 0x60"
    using demo_inherit_run by blast
  have "kreach True demo_start" unfolding demo_start_def by (rule kreach.start) simp
  moreover have "kstep True demo_start s1" by (rule kstep.mtx_lock [OF _ s(1)]) simp
  moreover have "kstep True s1 s2" by (rule kstep.create [OF _ _ _ s(2)]) (simp_all add: s(4))
  moreover have "kstep True s2 s3" by (rule kstep.mtx_lock [OF _ s(3)]) simp
  ultimately have "kreach True s3" by (meson kreach.step)
  then show ?thesis using s by blast
qed

section \<open>Properties\<close>

text \<open>
  C6: priority inheritance.  In every state the kernel reaches while no thread lowers its priority with a mutex locked, the
  priority of each thread is the highest of its base priority and the priorities of all threads that wait for a mutex it
  owns, no more and no less, however long the chains of owners that wait themselves; and the threads waiting for a mutex
  are queued by priority.
\<close>

theorem priority_inheritance:
  assumes s: "kreach True s" and t: "t \<in> set (registry (vtimers.more s))"
  defines "k \<equiv> vtimers.more s"
  shows "prio k t = Max (insert (p_realprio (thr k t)) (prio k ` {w. \<exists>m. m_owner k m = t \<and> w \<in> set (queues k (Mtx m))}))
    \<and> (\<forall>m. sorted_wrt (\<lambda>a b. prio k b \<le> prio k a) (queues k (Mtx m)))"
proof -
  have pi: "pi_ok k" using kreach_pi [OF s] by (simp add: k_def)
  have core: "kcore {currp k} k" using kreach_sched [OF s] by (simp add: sched_ok_def run_ok_def k_def)
  have "waiters k t \<subseteq> set (registry k)" using kcoreD(4) [OF core] by (auto simp: waiters_def)
  then have "finite (waiters k t)" by (rule finite_subset) simp
  moreover have "inherits (waiters k t) (prio k) (p_realprio (thr k t)) t" using pi t by (simp add: pi_ok_def k_def)
  ultimately show ?thesis using inherits_Max [of "waiters k t" "prio k"] pi by (simp add: waiters_def pi_ok_def mtx_sorted_def)
qed

theorem priority_inheritance_witness:
  "\<exists>s. kreach True s \<and> m_owner (vtimers.more s) 0x60 = 0x100 \<and> queues (vtimers.more s) (Mtx 0x60) = [0x200]
    \<and> p_realprio (thr (vtimers.more s) 0x100) = 1 \<and> prio (vtimers.more s) 0x100 = 64"
proof -
  obtain s where s: "kreach True s" "registry (vtimers.more s) = [0x100, 0x200]" "m_owner (vtimers.more s) = (\<lambda>m. if m = 0x60 then 0x100 else 0)"
    "queues (vtimers.more s) (Mtx 0x60) = [0x200]" "p_realprio (thr (vtimers.more s) 0x100) = 1" "prio (vtimers.more s) 0x200 = 64"
    using demo_inherit by blast
  have "{w. \<exists>m. m_owner (vtimers.more s) m = 0x100 \<and> w \<in> set (queues (vtimers.more s) (Mtx m))} = {0x200}"
    using s(3,4) by (auto split: if_splits)
  then have "prio (vtimers.more s) 0x100 = Max {1, 64}" using priority_inheritance [OF s(1), of "0x100"] s by simp
  then show ?thesis using s by (auto simp: max_def)
qed

text \<open>The end of a thread does not look at its mutexes.\<close>

lemma ready_waiting_queue: "ready_waiting ws k = Some k' \<Longrightarrow> set (queues k' RList) = set (queues k RList) \<union> set ws"
proof (induction ws arbitrary: k)
  case (Cons w ws)
  then obtain k1 where "chSchReadyI w k = Some k1" "ready_waiting ws k1 = Some k'" by (auto split: Option.bind_splits)
  then show ?case using Cons.IH by (auto simp: run_ok_ready split: if_splits)
qed simp

lemma exit_final:
  assumes inv: "kinv s" and s': "chThdExit msg s = Some s'"
  shows "p_state (thr (vtimers.more s') (currp (vtimers.more s))) = CH_STATE_FINAL"
proof -
  let ?k = "vtimers.more s"
  let ?c = "currp ?k"
  let ?k1 = "set_thr ?c (\<lambda>t. t\<lparr>p_waiting := []\<rparr>) (set_p_u ?c msg ?k)"
  note core = run_okD(1) [OF kinvD(1) [OF inv]]
  obtain k3 k' where k3: "ready_waiting (p_waiting (thr ?k ?c)) ?k1 = Some k3"
    and k': "chSchGoSleepS CH_STATE_FINAL (if and (p_flags (thr k3 ?c)) CH_FLAG_MODE_MASK = CH_FLAG_MODE_STATIC
      then k3\<lparr>registry := remove1 ?c (registry k3)\<rparr> else k3) = Some k'" and e: "s' = resume (vtimers.more_update (\<lambda>_. k') s)"
    using s' by (auto simp: chThdExit_def lift_def chThdExitS_def Let_def split: Option.bind_splits)
  have "?c \<notin> set (queues k3 RList)"
    using ready_waiting_queue [OF k3] kcoreD(3) [OF core, of ?c RList] kcoreD(11) [OF core, of ?c ?c] by auto
  then have "p_state (thr k' ?c) = CH_STATE_FINAL"
    using k' ready_waiting_currp [OF k3] by (auto simp: chSchGoSleepS_def Let_def pick_first_def split: list.splits if_splits)
  then show ?thesis by (simp add: e)
qed

text \<open>
  C7: in every state the kernel reaches when no thread ends while it has a mutex, each mutex that is locked belongs to one
  thread that has not ended, the list of a thread along \<^verbatim>\<open>m_next\<close> ends and holds exactly the mutexes it owns, each once, a free
  mutex has no waiting threads, and the threads in the queue of a mutex are those that wait for it, none of them running.
  The condition is the application's: from such a state \<open>chThdExit\<close> of the running thread, which does not check it, leaves
  every mutex of that thread locked and owned by it, with the same waiting threads, and the thread ended.
\<close>

theorem mutex_ownership:
  assumes s: "kreach d s"
  defines "k \<equiv> vtimers.more s"
  shows "(\<forall>m. m_owner k m \<noteq> 0 \<longrightarrow> m_owner k m \<in> set (registry k) \<and> p_state (thr k (m_owner k m)) \<noteq> CH_STATE_FINAL)
    \<and> (\<forall>t \<in> set (registry k). \<exists>ms. mtx_list (m_next k) (p_mtxlist (thr k t)) ms \<and> distinct ms \<and> set ms = {m. m_owner k m = t})
    \<and> (\<forall>m. m_owner k m = 0 \<longrightarrow> queues k (Mtx m) = [])
    \<and> (\<forall>t \<in> set (registry k). \<forall>m. t \<in> set (queues k (Mtx m)) \<longleftrightarrow> p_state (thr k t) = CH_STATE_WTMTX \<and> p_u (thr k t) = m)
    \<and> (\<forall>msg s' m. chThdExit msg s = Some s' \<longrightarrow> m_owner k m = currp k \<longrightarrow>
        m_owner (vtimers.more s') m = currp k \<and> queues (vtimers.more s') (Mtx m) = queues k (Mtx m)
        \<and> p_state (thr (vtimers.more s') (currp k)) = CH_STATE_FINAL)"
proof -
  note M = mtx_okD [OF kreach_mtx_ok [OF s], folded k_def]
  have run: "run_ok k" using kreach_sched [OF s] by (simp add: sched_ok_def k_def)
  note R = run_okD [OF run]
  have "t \<in> set (queues k (Mtx m)) \<longleftrightarrow> p_state (thr k t) = CH_STATE_WTMTX \<and> p_u (thr k t) = m" if "t \<in> set (registry k)" for t m
  proof
    assume w: "p_state (thr k t) = CH_STATE_WTMTX \<and> p_u (thr k t) = m"
    then have "t \<notin> {currp k}" using R(3) by auto
    then show "t \<in> set (queues k (Mtx m))" using in_own_queue(1) [OF R(1) that] w by simp
  next
    assume "t \<in> set (queues k (Mtx m))"
    then show "p_state (thr k t) = CH_STATE_WTMTX \<and> p_u (thr k t) = m" using kcoreD(5) [OF R(1)] by fastforce
  qed
  moreover have "m_owner (vtimers.more s') m = currp k \<and> queues (vtimers.more s') (Mtx m) = queues k (Mtx m)
      \<and> p_state (thr (vtimers.more s') (currp k)) = CH_STATE_FINAL"
    if "chThdExit msg s = Some s'" "m_owner k m = currp k" for msg s' m
    using mframe_exit [OF that(1)] exit_final [OF kreach_inv [OF s] that(1)] that(2) by (simp add: mframe_def k_def)
  ultimately show ?thesis using M unfolding owns_def by blast
qed

theorem mutex_ownership_witness:
  "\<exists>s. kreach True s \<and> m_owner (vtimers.more s) 0x60 = 0x100 \<and> p_state (thr (vtimers.more s) 0x200) = CH_STATE_WTMTX
    \<and> mtx_list (m_next (vtimers.more s)) (p_mtxlist (thr (vtimers.more s) 0x100)) [0x60]"
proof -
  obtain s where s: "kreach True s" "registry (vtimers.more s) = [0x100, 0x200]" "m_owner (vtimers.more s) = (\<lambda>m. if m = 0x60 then 0x100 else 0)"
    "queues (vtimers.more s) (Mtx 0x60) = [0x200]" using demo_inherit by blast
  note own = mutex_ownership [OF s(1)]
  obtain ms where ms: "mtx_list (m_next (vtimers.more s)) (p_mtxlist (thr (vtimers.more s) 0x100)) ms" "distinct ms"
    "set ms = {m. m_owner (vtimers.more s) m = 0x100}"
    using own [THEN conjunct2, THEN conjunct1, THEN bspec, of "0x100"] s(2) by auto
  have "set ms = {0x60}" using ms(3) s(3) by auto
  then have "length ms = 1" using distinct_card [OF ms(2)] by simp
  then have e: "ms = [0x60]" using \<open>set ms = {0x60}\<close> by (cases ms) auto
  have "p_state (thr (vtimers.more s) 0x200) = CH_STATE_WTMTX"
    using own [THEN conjunct2, THEN conjunct2, THEN conjunct2, THEN conjunct1, THEN bspec, THEN spec, of "0x200" "0x60"] s(2,4) by simp
  then show ?thesis using ms(1) e s(1,3) by (intro exI [of _ s]) simp
qed

text \<open>
  C13: \<open>chMtxUnlock\<close> of the last locked mutex, when threads wait for it, returns and gives it to the waiting thread of the
  highest priority that has waited longest: that thread owns the mutex, leaves the queue, where no thread has a higher
  priority, and is ready or running; the caller goes back to its list without the mutex, and no other mutex changes its owner.
\<close>

theorem mutex_unlock_hands_over:
  assumes s: "kreach True s" and q: "queues (vtimers.more s) (Mtx mp) = tp # ts"
    and mp: "mp \<noteq> 0" "p_mtxlist (thr (vtimers.more s) (currp (vtimers.more s))) = mp"
  defines "k \<equiv> vtimers.more s"
  shows "\<exists>s'. chMtxUnlock mp s = Some s' \<and> m_owner (vtimers.more s') = (m_owner k)(mp := tp) \<and> queues (vtimers.more s') (Mtx mp) = ts
    \<and> (\<forall>w \<in> set ts. prio k w \<le> prio k tp) \<and> p_mtxlist (thr (vtimers.more s') tp) = mp
    \<and> p_mtxlist (thr (vtimers.more s') (currp k)) = m_next k mp
    \<and> p_state (thr (vtimers.more s') tp) \<in> {CH_STATE_READY, CH_STATE_CURRENT}"
proof -
  note inv = kreach_inv [OF s] and ok = kreach_mtx_ok [OF s]
  note run = kinvD(1) [OF inv, folded k_def]
  have n: "tp \<noteq> currp k" using kcoreD(3) [OF run_okD(1) [OF run], of tp "Mtx mp"] q by (auto simp: k_def)
  have qk: "queues k (Mtx mp) = tp # ts" using q by (simp add: k_def)
  obtain ms v where u: "chMtxUnlockS mp k = Some (released mp v k)"
    by (rule UnlockS_ok [OF run ok [folded k_def] mp(2) [folded k_def] mp(1)])
  have r: "m_owner (released mp v k) = (m_owner k)(mp := tp)" "queues (released mp v k) (Mtx mp) = ts" "currp (released mp v k) = currp k"
    "p_mtxlist (thr (released mp v k) tp) = mp" "p_mtxlist (thr (released mp v k) (currp k)) = m_next k mp"
    "p_state (thr (released mp v k) tp) = CH_STATE_READY"
    using qk n by (simp_all add: released_def Let_def)
  obtain s' where s': "chMtxUnlock mp s = Some s'" by (rule mtx_unlock_ok [OF inv ok mp(2,1)]) blast
  then obtain k' where k': "chSchRescheduleS (released mp v k) = Some k'" "s' = resume (vtimers.more_update (\<lambda>_. k') s)"
    using u qk by (auto simp: chMtxUnlock_def lift_def mtx_unlock_def k_def)
  have f: "mframe {} (released mp v k) (vtimers.more s')" unfolding k'(2)
    using mframe_trans [OF mframe_switch(1) [OF k'(1)]] mframe_resume [of "{}" "vtimers.more_update (\<lambda>_. k') s"] by simp
  have "p_state (thr k' tp) \<in> {CH_STATE_READY, CH_STATE_CURRENT}"
    using k'(1) reschedule_keeps [of "released mp v k" k' tp] r(3,6) n by (auto simp: chSchRescheduleS_def split: if_splits)
  then have "p_state (thr (vtimers.more s') tp) \<in> {CH_STATE_READY, CH_STATE_CURRENT}" by (simp add: k'(2))
  moreover have "\<forall>w \<in> set ts. prio k w \<le> prio k tp"
    using kreach_pi [OF s] qk by (auto simp: pi_ok_def mtx_sorted_def k_def dest: spec [of _ mp])
  ultimately show ?thesis using s' f r unfolding mframe_def by auto
qed

theorem mutex_unlock_hands_over_witness:
  "\<exists>s s'. kreach True s \<and> m_owner (vtimers.more s) 0x60 = 0x100 \<and> chMtxUnlock 0x60 s = Some s' \<and> m_owner (vtimers.more s') 0x60 = 0x200
    \<and> queues (vtimers.more s') (Mtx 0x60) = []"
proof -
  obtain s where s: "kreach True s" "queues (vtimers.more s) (Mtx 0x60) = [0x200]" "m_owner (vtimers.more s) = (\<lambda>m. if m = 0x60 then 0x100 else 0)"
    "currp (vtimers.more s) = 0x100" "p_mtxlist (thr (vtimers.more s) 0x100) = 0x60" using demo_inherit by blast
  show ?thesis using mutex_unlock_hands_over [OF s(1,2)] s by auto
qed

text \<open>
  C37: \<open>chThdSetPriority\<close> does not respect inheritance: in any state the kernel reaches, when the priority of the running
  thread is its base priority, it has a mutex for which a thread waits, and the new priority is below that of the waiting
  thread, the call returns with the priority of the caller at the new value, so the owner of the mutex is below the thread
  that still waits for it.
\<close>

theorem set_priority_drops_inheritance:
  assumes s: "kreach d s"
  defines "k \<equiv> vtimers.more s"
  assumes p: "prio k (currp k) = p_realprio (thr k (currp k))" and m: "m_owner k m = currp k" "w \<in> set (queues k (Mtx m))"
    and new: "newprio \<noteq> 0" "newprio < prio k w"
  shows "\<exists>s'. chThdSetPriority newprio s = Some s' \<and> m_owner (vtimers.more s') m = currp k \<and> w \<in> set (queues (vtimers.more s') (Mtx m))
    \<and> p_state (thr (vtimers.more s') (currp k)) \<noteq> CH_STATE_FINAL
    \<and> prio (vtimers.more s') (currp k) = newprio \<and> prio (vtimers.more s') (currp k) < prio (vtimers.more s') w"
proof -
  have run: "run_ok k" using kreach_sched [OF s] by (simp add: sched_ok_def k_def)
  note R = run_okD [OF run]
  have w: "w \<noteq> currp k" using kcoreD(3) [OF R(1) m(2)] by simp
  obtain s' where s': "chThdSetPriority newprio s = Some s'" using set_priority_ok [OF kreach_inv [OF s] new(1)] by blast
  note f = set_priority_mtx_ok [OF kreach_mtx_ok [OF s] new(1) s', THEN conjunct2, folded k_def]
  show ?thesis using s' f p m new(2) w R(3) unfolding mframe_def by (intro exI [of _ s']) (auto split: if_splits)
qed

theorem set_priority_drops_inheritance_witness:
  "\<exists>s s'. kreach True s \<and> prio (vtimers.more s) 0x200 = 64 \<and> chThdSetPriority 16 s = Some s' \<and> m_owner (vtimers.more s') 0x60 = 0x200
    \<and> 0x300 \<in> set (queues (vtimers.more s') (Mtx 0x60)) \<and> prio (vtimers.more s') 0x200 = 16 \<and> 16 < prio (vtimers.more s') 0x300"
proof -
  obtain s1 s2 s3 s4 s5 s6 where s: "chThdCreateStatic 0x200 64 demo_start = Some s1" "chMtxLock 0x60 s1 = Some s2"
    "chThdCreateStatic 0x300 32 s2 = Some s3" "suspendThread 0x70 s3 = Some s4" "chMtxLock 0x60 s4 = Some s5"
    "chThdResume 0x70 0 s5 = Some s6"
    "registry (vtimers.more demo_start) = [0x100]" "registry (vtimers.more s2) = [0x100, 0x200]" "tref (vtimers.more s3) 0x70 = 0"
    and f: "currp (vtimers.more s6) = 0x200" "m_owner (vtimers.more s6) 0x60 = 0x200" "queues (vtimers.more s6) (Mtx 0x60) = [0x300]"
    "prio (vtimers.more s6) 0x200 = 64" "p_realprio (thr (vtimers.more s6) 0x200) = 64" "prio (vtimers.more s6) 0x300 = 32"
    using demo_drop_run by blast
  have "kreach True demo_start" unfolding demo_start_def by (rule kreach.start) simp
  moreover have "kstep True demo_start s1" by (rule kstep.create [OF _ _ _ s(1)]) (simp_all add: s(7))
  moreover have "kstep True s1 s2" by (rule kstep.mtx_lock [OF _ s(2)]) simp
  moreover have "kstep True s2 s3" by (rule kstep.create [OF _ _ _ s(3)]) (simp_all add: s(8))
  moreover have "kstep True s3 s4" by (rule kstep.suspend [OF s(9,4)])
  moreover have "kstep True s4 s5" by (rule kstep.mtx_lock [OF _ s(5)]) simp
  moreover have "kstep True s5 s6" by (rule kstep.resume_thread [OF s(6)])
  ultimately have r: "kreach True s6" by (meson kreach.step)
  then show ?thesis using set_priority_drops_inheritance [OF r, of "0x60" "0x300" 16] f by auto
qed

end
