(* ===== verification/Event_Waits.thy ===== *)
theory Event_Waits
  imports Kernel_Steps
begin

text \<open>
  Events in the reachable states of the kernel: no thread waits for events it already has, a signal ends the wait it is for
  and the wait returns the right events, a broadcast reaches all listeners, and handlers are dispatched in order.
\<close>

section \<open>A waiting thread\<close>

text \<open>The thread at 0x200 waits for event 1 or 2, and the main thread runs.\<close>

lemma demo_evt_run:
  "\<exists>s s1. chThdCreateStatic 0x200 64 demo_start = Some s \<and> chEvtWaitOne 6 s = Some s1
    \<and> currp (vtimers.more s) = 0x200 \<and> p_epending (thr (vtimers.more s) 0x200) = 0 \<and> currp (vtimers.more s1) = 0x100
    \<and> prio (vtimers.more s1) 0x100 = 1 \<and> prio (vtimers.more s1) 0x200 = 64
    \<and> p_state (thr (vtimers.more s1) 0x200) = CH_STATE_WTOREVT \<and> p_u (thr (vtimers.more s1) 0x200) = 6"
  by (simp add: kernel_eval chEvtWaitOne_def IDLEPRIO_def)

lemma demo_evt:
  "\<exists>s s1. kreach d s \<and> kreach d s1 \<and> chEvtWaitOne 6 s = Some s1
    \<and> currp (vtimers.more s) = 0x200 \<and> p_epending (thr (vtimers.more s) 0x200) = 0 \<and> currp (vtimers.more s1) = 0x100
    \<and> prio (vtimers.more s1) 0x100 = 1 \<and> prio (vtimers.more s1) 0x200 = 64
    \<and> p_state (thr (vtimers.more s1) 0x200) = CH_STATE_WTOREVT \<and> p_u (thr (vtimers.more s1) 0x200) = 6"
proof -
  obtain s s1 where s: "chThdCreateStatic 0x200 64 demo_start = Some s" "chEvtWaitOne 6 s = Some s1"
    "currp (vtimers.more s) = 0x200" "p_epending (thr (vtimers.more s) 0x200) = 0" "currp (vtimers.more s1) = 0x100"
    "prio (vtimers.more s1) 0x100 = 1" "prio (vtimers.more s1) 0x200 = 64"
    "p_state (thr (vtimers.more s1) 0x200) = CH_STATE_WTOREVT" "p_u (thr (vtimers.more s1) 0x200) = 6"
    using demo_evt_run by blast
  have "kreach d demo_start" unfolding demo_start_def by (rule kreach.start) simp
  moreover have "kstep d demo_start s" by (rule kstep.create [of "0x200" _ 64, OF _ _ _ s(1)]) (simp_all add: kernel_eval)
  ultimately have r: "kreach d s" by (rule kreach.step)
  have "kreach d s1" by (rule kreach.step [OF r kstep.events [OF evt_call.wait_one [OF s(2)]]])
  then show ?thesis using r s by blast
qed

section \<open>No event is lost\<close>

definition waits_for_events :: "kernel \<Rightarrow> tid \<Rightarrow> bool" where
  "waits_for_events k t \<longleftrightarrow> p_state (thr k t) = CH_STATE_WTOREVT \<or> p_state (thr k t) = CH_STATE_WTANDEVT"

text \<open>
  C9: in every state the kernel reaches, a thread that waits for any of a set of events has none of them pending, and
  one that waits for all of them has not all of them pending: whatever signals, broadcasts, time-outs and calls from
  interrupts came, and in whatever order, no thread sleeps through events that were meant for it.
\<close>

theorem no_lost_events:
  assumes s: "kreach d s" and w: "waits_for_events (vtimers.more s) t"
  defines "x \<equiv> thr (vtimers.more s) t"
  shows "t \<in> set (registry (vtimers.more s))
    \<and> (if p_state x = CH_STATE_WTOREVT then and (p_epending x) (p_u x) = 0 else and (p_epending x) (p_u x) \<noteq> p_u x)"
proof -
  let ?k = "vtimers.more s"
  note R = run_okD [OF kinvD(1) [OF kreach_inv [OF s]]]
  have e: "evt_state (p_state (thr ?k t))" and c: "t \<noteq> currp ?k" using w R(3) by (auto simp: waits_for_events_def evt_state_def)
  have "t \<in> set (registry ?k)" "\<not> evt_awaited (thr ?k t)" using kcoreD(23,24) [OF R(1), of t] e c by auto
  then show ?thesis using w by (auto simp: evt_awaited_def waits_for_events_def x_def)
qed
theorem no_lost_events_witness:
  "\<exists>s. kreach True s \<and> waits_for_events (vtimers.more s) 0x200 \<and> p_u (thr (vtimers.more s) 0x200) = 6
    \<and> 0x200 \<in> set (registry (vtimers.more s)) \<and> and (p_epending (thr (vtimers.more s) 0x200)) 6 = 0"
proof -
  obtain s where s: "kreach True s" "p_state (thr (vtimers.more s) 0x200) = CH_STATE_WTOREVT" "p_u (thr (vtimers.more s) 0x200) = 6"
    using demo_evt by blast
  then have "waits_for_events (vtimers.more s) 0x200" by (simp add: waits_for_events_def)
  from no_lost_events [OF s(1) this] show ?thesis using s by (auto simp: waits_for_events_def)
qed

section \<open>A signal ends a wait\<close>

lemma run_frame_others:
  assumes "t \<noteq> currp (vtimers.more s)"
  shows "p_epending (thr (vtimers.more (run_frame f s)) t) = p_epending (thr (vtimers.more s) t)"
    "pend (vtimers.more (run_frame f s)) = pend (vtimers.more s)"
proof -
  have r: "p_epending (thr (chThdRelease tp k) u) = p_epending (thr k u)" "pend (chThdRelease tp k) = pend k" for tp u k
    by (simp_all add: chThdRelease_def Let_def)
  show "p_epending (thr (vtimers.more (run_frame f s)) t) = p_epending (thr (vtimers.more s) t)"
    "pend (vtimers.more (run_frame f s)) = pend (vtimers.more s)"
    using assms by (cases f; simp add: r evt_woken_def evt_take_def Let_def)+
qed

lemma resume_others:
  assumes "t \<noteq> currp (vtimers.more s)"
  shows "p_epending (thr (vtimers.more (resume s)) t) = p_epending (thr (vtimers.more s) t)"
    "pend (vtimers.more (resume s)) t = pend (vtimers.more s) t"
proof -
  let ?s = "vtimers.more_update (\<lambda>k. k\<lparr>pend := (pend k)(currp k := None)\<rparr>) s"
  show "p_epending (thr (vtimers.more (resume s)) t) = p_epending (thr (vtimers.more s) t)"
    using run_frame_others(1) [of t ?s] assms by (simp add: resume_def Let_def split: option.split)
  show "pend (vtimers.more (resume s)) t = pend (vtimers.more s) t"
    using run_frame_others(2) [of t ?s] assms by (simp add: resume_def Let_def split: option.split)
qed

text \<open>The running thread has gone to sleep in one of the waits.\<close>

lemma evt_wait_sleeps:
  assumes inv: "kinv s" and s1: "map_option resume (lift (evt_wait md events) s) = Some s1"
    and n: "\<not> evt_there md events (p_epending (thr (vtimers.more s) (currp (vtimers.more s))))"
  defines "c \<equiv> currp (vtimers.more s)"
  shows "pend (vtimers.more s1) c = Some (F_evt md events)" "p_state (thr (vtimers.more s1) c) = evt_wait_state md"
    "p_u (thr (vtimers.more s1) c) = events" "p_epending (thr (vtimers.more s1) c) = p_epending (thr (vtimers.more s) c)"
    "currp (vtimers.more s1) \<noteq> c"
proof -
  let ?k = "vtimers.more s"
  obtain k' where k': "chSchGoSleepS (evt_wait_state md) (set_pend (F_evt md events) (set_p_u c events ?k)) = Some k'"
    "s1 = resume (vtimers.more_update (\<lambda>_. k') s)" using s1 n by (auto simp: lift_def evt_wait_def c_def)
  obtain t ts where q: "queues ?k RList = t # ts" using k'(1) by (auto simp: chSchGoSleepS_def pick_first_def Let_def split: list.splits)
  have "t \<noteq> c" using kcoreD(3) [OF run_okD(1) [OF kinvD(1) [OF inv]], of t RList] q by (auto simp: c_def)
  then have f: "pend k' c = Some (F_evt md events)" "p_state (thr k' c) = evt_wait_state md" "p_u (thr k' c) = events"
    "p_epending (thr k' c) = p_epending (thr ?k c)" "currp k' \<noteq> c"
    using k'(1) q by (auto simp: chSchGoSleepS_def pick_first_def c_def)
  then show "pend (vtimers.more s1) c = Some (F_evt md events)" "p_state (thr (vtimers.more s1) c) = evt_wait_state md"
    "p_u (thr (vtimers.more s1) c) = events" "p_epending (thr (vtimers.more s1) c) = p_epending (thr ?k c)" "currp (vtimers.more s1) \<noteq> c"
    using resume_others [of c "vtimers.more_update (\<lambda>_. k') s"] unfolding k'(2) by simp_all
qed

text \<open>A signal for a thread above the running one that has what it waits for: it runs at once and takes its events.\<close>

lemma signal_resumes:
  assumes inv: "kinv s" and w: "pend (vtimers.more s) t = Some (F_evt md events)" "p_state (thr (vtimers.more s) t) = evt_wait_state md"
      "p_u (thr (vtimers.more s) t) = events"
    and up: "prio (vtimers.more s) (currp (vtimers.more s)) < prio (vtimers.more s) t"
    and there: "evt_there md events (or (p_epending (thr (vtimers.more s) t)) ev)"
  defines "p \<equiv> or (p_epending (thr (vtimers.more s) t)) ev"
  shows "\<exists>s'. chEvtSignal t ev s = Some s' \<and> currp (vtimers.more s') = t \<and> p_state (thr (vtimers.more s') t) = CH_STATE_CURRENT
    \<and> ret (vtimers.more s') t = evt_taken md events p \<and> p_epending (thr (vtimers.more s') t) = and p (not (evt_taken md events p))"
proof -
  let ?k = "vtimers.more s"
  let ?c = "currp ?k"
  define k1 where "k1 = make_ready True t (set_p_u t MSG_OK (add_pending t ev ?k))"
  note R = run_okD [OF kinvD(1) [OF inv]]
  have c: "t \<noteq> ?c" using w(2) R(3) by (auto simp: evt_wait_state_def split: if_splits)
  have aw: "evt_awaited (thr (add_pending t ev ?k) t)"
    using w there by (auto simp: evt_awaited_def evt_wait_state_def evt_there_def split: if_splits)
  have p0: "prio ?k t \<noteq> 0" using up by (auto simp: word_less_nat_alt)
  have sig: "chEvtSignalI t ev ?k = Some k1" using aw p0 by (simp add: chEvtSignalI_def run_ok_ready k1_def Let_def)
  have hd: "insert_prio pr True t xs = t # xs" if "\<forall>x \<in> set xs. pr x < pr t" for pr :: "tid \<Rightarrow> u32" and xs
    using that by (cases xs) (auto simp: not_le [symmetric])
  have "\<forall>x \<in> set (queues ?k RList). prio ?k x < prio ?k t" using kinvD(2) [OF inv] up by (auto simp: sched_ok_def intro: le_less_trans)
  moreover have "prio (set_p_u t MSG_OK (add_pending t ev ?k)) = prio ?k" by (auto simp: fun_eq_iff)
  ultimately have q: "queues k1 RList = t # queues ?k RList"
    unfolding k1_def make_ready_def by (simp only: kernel_set_simps add_pending_simps hd fun_upd_same)
  have f: "prio k1 x = prio ?k x" "currp k1 = ?c" "pend k1 = pend ?k" "p_epending (thr k1 t) = p" for x
    by (simp_all add: k1_def make_ready_def p_def)
  define k2 where "k2 = set_p_state t CH_STATE_CURRENT ((set_queue RList (queues ?k RList) k1)\<lparr>currp := t\<rparr>)"
  define k3 where "k3 = set_queue RList (insert_prio (prio (set_p_state ?c CH_STATE_READY k2)) False ?c (queues k2 RList)) (set_p_state ?c CH_STATE_READY k2)"
  have res: "chSchRescheduleS k1 = Some k3"
    using up by (simp add: chSchRescheduleS_def chSchIsRescRequiredI_def firstprio_def q f chSchDoRescheduleAhead_def pick_first_def
        k2_def [symmetric] k3_def Let_def)
  have g: "currp k3 = t" "pend k3 = pend ?k" "p_epending (thr k3 t) = p" "p_state (thr k3 t) = CH_STATE_CURRENT"
    using c f by (simp_all add: k3_def k2_def)
  have "chEvtSignal t ev s = Some (resume (vtimers.more_update (\<lambda>_. k3) s))" using sig res by (simp add: chEvtSignal_def lift_def)
  moreover have "vtimers.more (resume (vtimers.more_update (\<lambda>_. k3) s)) = evt_take md events (k3\<lparr>pend := (pend k3)(t := None)\<rparr>)"
    using w(1) g by (simp add: resume_def Let_def)
  ultimately show ?thesis using g by (simp add: evt_take_def Let_def)
qed

lemma lowest_bit_exists:
  fixes m :: u32
  assumes "m \<noteq> 0"
  obtains n where "bit m n" "\<forall>i < n. \<not> bit m i"
proof -
  have "\<exists>n. bit m n" using assms by (metis bit_eqI bit_0_eq bot_apply bot_bool_def)
  then show ?thesis using that exists_least_iff [of "bit m"] by blast
qed

text \<open>
  C15: a thread that has called \<open>chEvtWaitOne\<close> with none of its events pending sleeps until one of them is signaled.  When the
  running thread, of a lower priority, signals events of which the waiting one wants some, \<open>chEvtSignal\<close> switches to the
  waiting thread: its call returns the lowest of the wanted events that are now pending, and just that one is cleared.
\<close>

theorem signal_ends_wait_one:
  assumes s: "kreach d s" and c: "c = currp (vtimers.more s)" "pending = p_epending (thr (vtimers.more s) c)"
    and n: "and pending events = 0" and w: "chEvtWaitOne events s = Some s1"
    and up: "prio (vtimers.more s1) (currp (vtimers.more s1)) < prio (vtimers.more s1) c"
    and ev: "and (or pending ev) events \<noteq> 0"
  shows "p_state (thr (vtimers.more s1) c) = CH_STATE_WTOREVT
    \<and> (\<exists>s2 m. chEvtSignal c ev s1 = Some s2 \<and> currp (vtimers.more s2) = c \<and> p_state (thr (vtimers.more s2) c) = CH_STATE_CURRENT
      \<and> ret (vtimers.more s2) c = EVENT_MASK m \<and> bit (and (or pending ev) events) m \<and> (\<forall>i < m. \<not> bit (and (or pending ev) events) i)
      \<and> p_epending (thr (vtimers.more s2) c) = and (or pending ev) (not (EVENT_MASK m)))"
proof -
  have w': "map_option resume (lift (evt_wait Evt_one events) s) = Some s1" using w by (simp only: chEvtWait_eq)
  have th: "\<not> evt_there Evt_one events (p_epending (thr (vtimers.more s) (currp (vtimers.more s))))" using n c by (simp add: evt_there_def)
  note S = evt_wait_sleeps [OF kreach_inv [OF s] w' th, folded c(1), folded c(2)]
  have "kreach d s1" using s w by (intro kreach.step [OF s] kstep.events evt_call.wait_one)
  note inv = kreach_inv [OF this]
  have there: "evt_there Evt_one events (or (p_epending (thr (vtimers.more s1) c)) ev)" using ev by (simp add: evt_there_def S(4))
  note R = signal_resumes [OF inv S(1-3) up there, unfolded S(4)]
  obtain m where m: "bit (and (or pending ev) events) m" "\<forall>i < m. \<not> bit (and (or pending ev) events) i"
    by (rule lowest_bit_exists [OF ev])
  have "evt_taken Evt_one events (or pending ev) = EVENT_MASK m" using lowest_bit [OF m(1)] m(2) by (simp add: evt_taken_def Let_def)
  then show ?thesis using R m S(2) by (auto simp: evt_wait_state_def)
qed

theorem signal_ends_wait_one_witness:
  "\<exists>s s1 s2. kreach True s \<and> currp (vtimers.more s) = 0x200 \<and> chEvtWaitOne 6 s = Some s1 \<and> chEvtSignal 0x200 0xC s1 = Some s2
    \<and> currp (vtimers.more s2) = 0x200 \<and> ret (vtimers.more s2) 0x200 = 4 \<and> p_epending (thr (vtimers.more s2) 0x200) = 8"
proof -
  obtain s s1 where s: "kreach True s" "chEvtWaitOne 6 s = Some s1" "currp (vtimers.more s) = 0x200"
    "p_epending (thr (vtimers.more s) 0x200) = 0" "currp (vtimers.more s1) = 0x100"
    "prio (vtimers.more s1) 0x100 = 1" "prio (vtimers.more s1) 0x200 = 64" using demo_evt by blast
  have b: "bit (4 :: u32) i \<longleftrightarrow> i = 2" for i using bit_EVENT_MASK [of 2 i] by (simp add: EVENT_MASK_def)
  have "prio (vtimers.more s1) (currp (vtimers.more s1)) < prio (vtimers.more s1) 0x200" using s by (simp add: word_less_nat_alt)
  from signal_ends_wait_one [OF s(1) s(3) [symmetric] s(4) [symmetric], of 6 s1 "0xC", OF _ s(2) this]
  obtain s2 m where "chEvtSignal 0x200 0xC s1 = Some s2" "currp (vtimers.more s2) = 0x200" "ret (vtimers.more s2) 0x200 = EVENT_MASK m"
    "bit (4 :: u32) m" "p_epending (thr (vtimers.more s2) 0x200) = and 0xC (not (EVENT_MASK m))" by auto
  then show ?thesis using s b by (auto simp: EVENT_MASK_def)
qed

section \<open>Sources, listeners and handlers\<close>

text \<open>
  C21: \<open>chEvtBroadcastFlags\<close> on a source whose list is well formed ends: every listener has the flags added to
  its own, and the thread of every listener that accepts one of its flags (of every listener when there are no flags) has the
  events of the listener added to its pending ones, while no other thread gets any.
\<close>

theorem broadcast_reaches_listeners:
  assumes s: "kreach d s" and rep: "es_rep (vtimers.more s) esp els"
  defines "k \<equiv> vtimers.more s"
  shows "\<exists>k'. chEvtBroadcastFlagsI esp flags k = Some k' \<and> es_rep k' esp els
    \<and> (\<forall>e \<in> set els. el_flags (el k' e) = or (el_flags (el k e)) flags)
    \<and> (\<forall>t. p_epending (thr k' t) = fold or
        (map (\<lambda>e. el_events (el k e))
          (filter (\<lambda>e. el_listener (el k e) = t \<and> (flags = 0 \<or> and (or (el_flags (el k e)) flags) (el_wflags (el k e)) \<noteq> 0)) els))
        (p_epending (thr k t)))"
proof -
  have f: "sent_to k flags t es p = fold or (map (\<lambda>e. el_events (el k e))
      (filter (\<lambda>e. el_listener (el k e) = t \<and> (flags = 0 \<or> and (or (el_flags (el k e)) flags) (el_wflags (el k e)) \<noteq> 0)) es)) p" for t es p
    by (induction es arbitrary: p) (auto simp: sent_to_def notified_def or.commute)
  obtain k' where "chEvtBroadcastFlagsI esp flags k = Some k'" "es_rep k' esp els"
    "\<And>t. p_epending (thr k' t) = sent_to k flags t els (p_epending (thr k t))"
    "\<And>e. e \<in> set els \<Longrightarrow> el_flags (el k' e) = or (el_flags (el k e)) flags"
    unfolding k_def by (rule broadcast_ok [OF kinvD(1) [OF kreach_inv [OF s]] rep]) blast
  then show ?thesis unfolding f by blast
qed

lemma demo_listener:
  "\<exists>s. kreach d s \<and> es_rep (vtimers.more s) 0x60 [0x70] \<and> el_listener (el (vtimers.more s) 0x70) = 0x100
    \<and> el_events (el (vtimers.more s) 0x70) = 2 \<and> el_wflags (el (vtimers.more s) 0x70) = 1 \<and> el_flags (el (vtimers.more s) 0x70) = 0
    \<and> p_epending (thr (vtimers.more s) 0x100) = 0"
proof -
  let ?s1 = "vtimers.more_update (chEvtObjectInit 0x60) demo_start"
  let ?s2 = "vtimers.more_update (chEvtRegisterMaskWithFlags 0x60 0x70 2 1) ?s1"
  have "kreach d demo_start" unfolding demo_start_def by (rule kreach.start) simp
  then have "kreach d ?s1" by (rule kreach.step [OF _ kstep.events [OF evt_call.init]])
  then have "kreach d ?s2" by (rule kreach.step [OF _ kstep.events [OF evt_call.register]])
  moreover have "es_rep (vtimers.more ?s2) 0x60 [0x70]" using es_rep_register [OF es_rep_init] by simp
  moreover have "currp (vtimers.more demo_start) = 0x100" "p_epending (thr (vtimers.more demo_start) 0x100) = 0"
    by (simp_all add: kernel_eval)
  ultimately show ?thesis by (intro exI [of _ ?s2]) (simp add: chEvtRegisterMaskWithFlags_def chEvtObjectInit_def Let_def)
qed

theorem broadcast_reaches_listeners_witness:
  "\<exists>s k'. kreach True s \<and> es_rep (vtimers.more s) 0x60 [0x70] \<and> chEvtBroadcastFlagsI 0x60 5 (vtimers.more s) = Some k'
    \<and> el_flags (el k' 0x70) = 5 \<and> p_epending (thr k' 0x100) = 2"
proof -
  obtain s where s: "kreach True s" "es_rep (vtimers.more s) 0x60 [0x70]" "el_listener (el (vtimers.more s) 0x70) = 0x100"
    "el_events (el (vtimers.more s) 0x70) = 2" "el_wflags (el (vtimers.more s) 0x70) = 1" "el_flags (el (vtimers.more s) 0x70) = 0"
    "p_epending (thr (vtimers.more s) 0x100) = 0" using demo_listener by blast
  from broadcast_reaches_listeners [OF s(1,2), of 5] obtain k' where k': "chEvtBroadcastFlagsI 0x60 5 (vtimers.more s) = Some k'"
    "el_flags (el k' 0x70) = 5" and p: "p_epending (thr k' 0x100) = 2" using s(3-7) by (auto split: if_splits)
  then show ?thesis using s by blast
qed

text \<open>
  C35: \<open>chEvtRegisterMaskWithFlags\<close> puts a new listener in front of the list of a source, for the running thread and with no
  flags; \<open>chEvtUnregister\<close> of it always ends and takes just that listener out again, so that all other listeners
  and the source are as they were.
\<close>

theorem register_unregister_roundtrip:
  fixes events wflags :: u32
  assumes "es_rep k esp els" "elp \<notin> set (esp # els)"
  defines "k1 \<equiv> chEvtRegisterMaskWithFlags esp elp events wflags k"
  shows "es_rep k1 esp (elp # els) \<and> el_listener (el k1 elp) = currp k \<and> el_events (el k1 elp) = events \<and> el_flags (el k1 elp) = 0
    \<and> (\<exists>k2. chEvtUnregister esp elp k1 = Some k2 \<and> es_rep k2 esp els \<and> (\<forall>e. e \<noteq> elp \<longrightarrow> el k2 e = el k e))"
proof -
  have rep: "es_rep k1 esp (elp # els)" unfolding k1_def by (rule es_rep_register [OF assms(1,2)])
  have ne: "elp \<noteq> esp" using assms(2) by simp
  let ?k2 = "set_el esp (\<lambda>e. e\<lparr>el_next := el_next (el k1 elp)\<rparr>) k1"
  have n: "el_next (el k1 esp) = elp" "el_next (el k1 elp) = el_next (el k esp)" using ne by (simp_all add: k1_def chEvtRegisterMaskWithFlags_def Let_def)
  have u: "chEvtUnregister esp elp k1 = Some ?k2"
    unfolding chEvtUnregister_def using n(1) ne by (subst unregister_loop.simps) simp
  obtain k2 where k2: "chEvtUnregister esp elp k1 = Some k2" "es_rep k2 esp (remove1 elp (elp # els))" by (rule es_rep_unregister [OF rep ne]) blast
  have "el ?k2 e = el k e" if "e \<noteq> elp" for e using that n(2) by (auto simp: k1_def chEvtRegisterMaskWithFlags_def Let_def)
  then show ?thesis using rep u k2 ne by (auto simp: k1_def chEvtRegisterMaskWithFlags_def Let_def)
qed
theorem register_unregister_roundtrip_witness:
  "es_rep (chEvtRegisterMaskWithFlags 0x60 0x70 2 1 (chEvtObjectInit 0x60 zero_kernel)) 0x60 [0x70]
    \<and> (\<exists>k2. chEvtUnregister 0x60 0x70 (chEvtRegisterMaskWithFlags 0x60 0x70 2 1 (chEvtObjectInit 0x60 zero_kernel)) = Some k2 \<and> es_rep k2 0x60 [])"
  using register_unregister_roundtrip [OF es_rep_init [of "0x60" zero_kernel], of "0x70" 2 1] by auto

text \<open>
  C36: \<open>chEvtDispatch\<close> calls the handlers of exactly the events of its mask, each once and in ascending order, and ends when they
  all return, for every mask of 32 events.
\<close>

theorem dispatch_in_order:
  "chEvtDispatch handlers events st = call_each handlers (filter (bit events) [0..<32]) st"
  unfolding chEvtDispatch_def by (rule dispatch_loop_eq) simp_all

end
