(* ===== verification/App_Start.thy ===== *)
theory App_Start
  imports App_Heap Updater Arduino_IO Kernel_Steps
begin

text \<open>
  The start of the application, \<^verbatim>\<open>chBootToApp\<close> and \<^verbatim>\<open>app_thread\<close> of \<^verbatim>\<open>esplanade_app.c\<close>: the memory of the program is set up from its
  header, the interrupts get their priorities, the thread of the program is made, and it makes its heap and calls the
  constructors.  Here the runtime library, the heap, the interrupt controller and the kernel meet.
\<close>

section \<open>The header of the program\<close>

definition data_load_start :: "mem \<Rightarrow> u32" where "data_load_start m = load32 m (STORAGE_PROGRAM_OFFSET + 0x00)"
definition data_start :: "mem \<Rightarrow> u32" where "data_start m = load32 m (STORAGE_PROGRAM_OFFSET + 0x04)"
definition data_end :: "mem \<Rightarrow> u32" where "data_end m = load32 m (STORAGE_PROGRAM_OFFSET + 0x08)"
definition bss_start :: "mem \<Rightarrow> u32" where "bss_start m = load32 m (STORAGE_PROGRAM_OFFSET + 0x0C)"
definition bss_end :: "mem \<Rightarrow> u32" where "bss_end m = load32 m (STORAGE_PROGRAM_OFFSET + 0x10)"
definition app_entry :: "mem \<Rightarrow> u32" where "app_entry m = load32 m (STORAGE_PROGRAM_OFFSET + 0x14)"
definition const_start :: "mem \<Rightarrow> u32" where "const_start m = load32 m (STORAGE_PROGRAM_OFFSET + 0x20)"
definition const_end :: "mem \<Rightarrow> u32" where "const_end m = load32 m (STORAGE_PROGRAM_OFFSET + 0x24)"
definition heap_start :: "mem \<Rightarrow> u32" where "heap_start m = load32 m (STORAGE_PROGRAM_OFFSET + 0x28)"
definition heap_end :: "mem \<Rightarrow> u32" where "heap_end m = load32 m (STORAGE_PROGRAM_OFFSET + 0x2C)"

text \<open>\<^verbatim>\<open>sizeof(thread_t)\<close>: sixteen words with the configuration of the board.\<close>

definition sizeof_thread_t :: u32 where "sizeof_thread_t = 64"

definition NORMALPRIO :: u32 where "NORMALPRIO = 64"

section \<open>Priorities of the interrupts\<close>

definition NVIC_GetPriority :: "int \<Rightarrow> nvic \<Rightarrow> u32" where
  "NVIC_GetPriority irqn n =
     (if irqn < 0 then
        drop_bit 6 (drop_bit (prio_shift irqn) (SHP n (unat (drop_bit 2 (((word_of_int irqn :: u32) AND 0xF) - 8)))) AND 0xFF)
      else
        drop_bit 6 (drop_bit (prio_shift irqn) (IP n (unat (drop_bit 2 (word_of_int irqn :: u32)))) AND 0xFF))"

abbreviation (input) SVCall_IRQn :: int where "SVCall_IRQn \<equiv> -5"
abbreviation (input) PendSV_IRQn :: int where "PendSV_IRQn \<equiv> -2"
abbreviation (input) SysTick_IRQn :: int where "SysTick_IRQn \<equiv> -1"

definition lower_irq :: "int \<Rightarrow> nvic \<Rightarrow> nvic" where
  "lower_irq irq_num n = (if NVIC_GetPriority irq_num n < 3 then NVIC_SetPriority irq_num 3 n else n)"

text \<open>\<^verbatim>\<open>CORTEX_NUM_VECTORS\<close> is 32.\<close>

definition set_irq_priorities :: "nvic \<Rightarrow> nvic" where
  "set_irq_priorities n =
     fold (\<lambda>i. lower_irq (int i)) [0..<32] (NVIC_SetPriority SysTick_IRQn 3 (NVIC_SetPriority PendSV_IRQn 3 (NVIC_SetPriority SVCall_IRQn 0 n)))"

section \<open>chBootToApp\<close>

text \<open>Memory, interrupt controller, kernel, the variables of the file, and whether the driver of the converter is started.  The records
  of the threads are in the state of the kernel and not in the memory.  \<open>boot_caller\<close> is the thread that is inside \<^verbatim>\<open>chBootToApp\<close>, in
  the call of \<^verbatim>\<open>chThdCreateStatic\<close>: the new thread may run before that call returns to it.\<close>

record device =
  dmem :: mem
  dnvic :: nvic
  dsys :: sys
  app_start_time :: u32
  esplanadeThread :: tid
  avoid_isr_lock :: int
  adc_started :: bool
  boot_caller :: "tid option"

definition load_app :: "mem \<Rightarrow> mem" where
  "load_app m =
     (let m = memset (bss_start m) 0 (bss_end m - bss_start m) m
      in memcpy (data_start m) (data_load_start m) (data_end m - data_start m) m)"

text \<open>The rest of \<^verbatim>\<open>chBootToApp\<close>, when its caller runs and has the value of \<^verbatim>\<open>chThdCreateStatic\<close>.\<close>

definition boot_return :: "device \<Rightarrow> device" where
  "boot_return d =
     (let k = vtimers.more (dsys d)
      in if boot_caller d = Some (currp k) then d\<lparr>esplanadeThread := ret k (currp k), boot_caller := None\<rparr> else d)"

text \<open>\<^verbatim>\<open>arduinoIoInit\<close> does nothing, \<^verbatim>\<open>arduinoToneInit\<close> clears the timer at \<open>tone_timer\<close>.  The result is the state when a thread goes on
  after the creation, the caller or the new thread.\<close>

definition chBootToApp :: "tid \<Rightarrow> device \<Rightarrow> device option" where
  "chBootToApp tone_timer d =
     (let s = chVTObjectInit tone_timer (dsys d);
          d = d\<lparr>app_start_time := chVTGetSystemTimeX s, dmem := load_app (dmem d), dnvic := set_irq_priorities (dnvic d),
                boot_caller := Some (currp (vtimers.more s))\<rparr>
      in map_option (\<lambda>s. boot_return (d\<lparr>dsys := s\<rparr>)) (chThdCreateStatic (heap_start (dmem d)) NORMALPRIO s))"

definition avoidIsrLock :: "int \<Rightarrow> device \<Rightarrow> int \<times> device" where
  "avoidIsrLock val d = (0, d\<lparr>avoid_isr_lock := val\<rparr>)"

text \<open>Where the stack of the thread starts, from the size of its working area and \<^verbatim>\<open>PORT_SETUP_CONTEXT\<close>: the saved registers are taken off
  when the thread starts.\<close>

definition wa_size :: "mem \<Rightarrow> u32" where
  "wa_size m = (heap_end m - heap_start m) AND NOT 7"

definition app_stack_top :: "mem \<Rightarrow> u32" where
  "app_stack_top m = heap_start m + wa_size m"

section \<open>app_thread\<close>

text \<open>The descriptor of the heap is at \<open>app_heap\<close>, its list header at \<open>hf\<close>.\<close>

definition app_heap_buf :: "mem \<Rightarrow> u32" where
  "app_heap_buf m = MEM_ALIGN_NEXT (heap_start m + sizeof_thread_t)"

definition app_heap_size :: "mem \<Rightarrow> u32" where
  "app_heap_size m = MEM_ALIGN_NEXT (heap_end m - (heap_start m + sizeof_thread_t) - sizeof_thread_t)"

definition app_heap_init :: "u32 \<Rightarrow> u32 \<Rightarrow> mem \<Rightarrow> memory_heap_t \<times> mem" where
  "app_heap_init app_heap hf m = chHeapObjectInit app_heap hf (app_heap_buf m) (app_heap_size m) m"

definition chRegSetThreadName :: "u32 \<Rightarrow> kernel \<Rightarrow> kernel" where
  "chRegSetThreadName name k = set_thr (currp k) (\<lambda>t. t\<lparr>p_name := name\<rparr>) k"

definition ArduinoInit :: "device \<Rightarrow> device" where
  "ArduinoInit d = d\<lparr>adc_started := True\<rparr>"

text \<open>\<open>call\<close> is the code of the program at an address; it works on the whole device and may not return.\<close>

partial_function (option) constructors :: "(u32 \<Rightarrow> device \<Rightarrow> device option) \<Rightarrow> u32 \<Rightarrow> device \<Rightarrow> device option" where
  [code]: "constructors call func d =
     (if func \<noteq> const_end (dmem d) then do {
        d \<leftarrow> call (load32 (dmem d) func) d;
        constructors call (func + 4) d
      }
      else Some d)"

text \<open>The name of the thread is the string at \<open>name\<close>.\<close>

definition app_thread :: "(u32 \<Rightarrow> device \<Rightarrow> device option) \<Rightarrow> u32 \<Rightarrow> u32 \<Rightarrow> u32 \<Rightarrow> device \<Rightarrow> device option" where
  "app_thread call name app_heap hf d =
     (let d = d\<lparr>dsys := vtimers.more_update (chRegSetThreadName name) (dsys d)\<rparr>;
          d = d\<lparr>dmem := snd (app_heap_init app_heap hf (dmem d))\<rparr>;
          d = ArduinoInit d
      in do {
        d \<leftarrow> constructors call (const_start (dmem d)) d;
        call (app_entry (dmem d)) d
      })"

section \<open>The memory of the program\<close>

text \<open>The layout a linker gives the program: the parts that are written lie apart from each other, from the image of the data and
  from the header.\<close>

definition bss_size :: "mem \<Rightarrow> nat" where "bss_size m = unat (bss_end m - bss_start m)"
definition data_size :: "mem \<Rightarrow> nat" where "data_size m = unat (data_end m - data_start m)"

definition image_layout :: "mem \<Rightarrow> bool" where
  "image_layout m \<longleftrightarrow>
     apart STORAGE_PROGRAM_OFFSET 0x30 (bss_start m) (bss_size m) \<and> apart STORAGE_PROGRAM_OFFSET 0x30 (data_start m) (data_size m) \<and>
     apart (bss_start m) (bss_size m) (data_start m) (data_size m) \<and>
     apart (data_load_start m) (data_size m) (bss_start m) (bss_size m) \<and>
     apart (data_start m) (data_size m) (data_load_start m) (data_size m)"

lemmas header_defs = data_load_start_def data_start_def data_end_def bss_start_def bss_end_def app_entry_def const_start_def
  const_end_def heap_start_def heap_end_def

lemma apart_disjoint: "apart a n b k \<Longrightarrow> in_range x a n \<Longrightarrow> \<not> in_range x b k"
  by (auto simp: apart_def in_range_unat)

lemma load32_cong:
  assumes "\<And>i. i < 4 \<Longrightarrow> m' (a + of_nat i) = m (a + of_nat i)"
  shows "load32 m' a = load32 m a"
  using assms [of 0] assms [of 1] assms [of 2] assms [of 3] by (simp add: load32_def)

text \<open>Memory that agrees on the header of the program has the same header.\<close>

definition same_header :: "mem \<Rightarrow> mem \<Rightarrow> bool" where
  "same_header m m' \<longleftrightarrow> (\<forall>x. in_range x STORAGE_PROGRAM_OFFSET 0x30 \<longrightarrow> m' x = m x)"

lemma same_header_load:
  assumes "same_header m m'" "i + 4 \<le> 0x30"
  shows "load32 m' (STORAGE_PROGRAM_OFFSET + of_nat i) = load32 m (STORAGE_PROGRAM_OFFSET + of_nat i)"
proof (rule load32_cong)
  fix j :: nat assume "j < 4"
  then have "in_range (STORAGE_PROGRAM_OFFSET + of_nat (i + j)) STORAGE_PROGRAM_OFFSET 0x30"
    using assms(2) by (intro in_range_offset) simp_all
  then show "m' (STORAGE_PROGRAM_OFFSET + of_nat i + of_nat j) = m (STORAGE_PROGRAM_OFFSET + of_nat i + of_nat j)"
    using assms(1) by (simp add: same_header_def add.assoc)
qed

lemma same_header_fields:
  assumes "same_header m m'"
  shows "data_load_start m' = data_load_start m" "data_start m' = data_start m" "data_end m' = data_end m" "bss_start m' = bss_start m"
    "bss_end m' = bss_end m" "app_entry m' = app_entry m" "const_start m' = const_start m" "const_end m' = const_end m"
    "heap_start m' = heap_start m" "heap_end m' = heap_end m"
  using same_header_load [OF assms, of 0] same_header_load [OF assms, of 4] same_header_load [OF assms, of 8]
    same_header_load [OF assms, of 12] same_header_load [OF assms, of 16] same_header_load [OF assms, of 20]
    same_header_load [OF assms, of 32] same_header_load [OF assms, of 36] same_header_load [OF assms, of 40]
    same_header_load [OF assms, of 44]
  by (simp_all add: header_defs)

lemma load_app_apply:
  assumes lay: "image_layout m"
  shows "load_app m x =
    (if in_range x (bss_start m) (bss_size m) then 0
     else if in_range x (data_start m) (data_size m) then m (data_load_start m + (x - data_start m)) else m x)"
proof -
  let ?m1 = "memset (bss_start m) 0 (bss_end m - bss_start m) m"
  have s: "?m1 y = (if in_range y (bss_start m) (bss_size m) then 0 else m y)" for y by (simp add: memset_apply bss_size_def)
  have "same_header m ?m1" using lay apart_disjoint by (auto simp: same_header_def s image_layout_def)
  note H = same_header_fields [OF this]
  have l: "load_app m = memcpy (data_start m) (data_load_start m) (data_end m - data_start m) ?m1" by (simp add: load_app_def Let_def H)
  show ?thesis
  proof (cases "in_range x (data_start m) (data_size m)")
    case True
    have nc: "no_clobber (data_start m) (data_load_start m) (data_end m - data_start m)"
      using lay by (intro no_clobber_apart) (simp add: image_layout_def data_size_def)
    have "\<not> in_range x (bss_start m) (bss_size m)" using True lay apart_disjoint by (auto simp: image_layout_def)
    moreover have "in_range (data_load_start m + (x - data_start m)) (data_load_start m) (data_size m)" using True by (simp add: in_range_def)
    then have "\<not> in_range (data_load_start m + (x - data_start m)) (bss_start m) (bss_size m)"
      using lay apart_disjoint by (auto simp: image_layout_def)
    ultimately show ?thesis using memcpy.copy_inside [OF nc, of x ?m1] True by (simp add: l s data_size_def)
  next
    case False
    then show ?thesis using memcpy.copy_outside [of x "data_start m" "data_end m - data_start m"] by (simp add: l s data_size_def)
  qed
qed

lemma load_app_header: "image_layout m \<Longrightarrow> same_header m (load_app m)"
  using apart_disjoint unfolding same_header_def by (auto simp: load_app_apply image_layout_def)

section \<open>Priorities\<close>

text \<open>The register a priority is in, and that the priority is bits 6 and 7 of its byte.\<close>

definition prio_index :: "int \<Rightarrow> nat" where
  "prio_index irqn = unat (drop_bit 2 (if irqn < 0 then ((word_of_int irqn :: u32) AND 0xF) - 8 else word_of_int irqn))"

definition prio_word :: "int \<Rightarrow> nvic \<Rightarrow> u32" where
  "prio_word irqn n = (if irqn < 0 then SHP n (prio_index irqn) else IP n (prio_index irqn))"

lemma mask_constants: "(3 :: u32) = mask 2" "(0xFF :: u32) = mask 8"
  by (simp_all add: mask_eq_exp_minus_1)

lemma bit_3: "bit (3 :: u32) k \<longleftrightarrow> k < 2"
  unfolding mask_constants by (simp only: bit_mask_iff) auto

lemma prio_shift_mod: "prio_shift i = unat (word_of_int i :: u32) mod 4 * 8"
  unfolding prio_shift_def mask_constants by (simp only: unsigned_take_bit_eq flip: take_bit_eq_mask) (simp add: take_bit_eq_mod)

lemma prio_shift_cases: "prio_shift i \<in> {0, 8, 16, 24}"
proof -
  have "unat (word_of_int i :: u32) mod 4 < 4" by simp
  then show ?thesis unfolding prio_shift_mod by force
qed

lemma NVIC_GetPriority_bit:
  "bit (NVIC_GetPriority irqn n) k \<longleftrightarrow> k < 2 \<and> bit (prio_word irqn n) (prio_shift irqn + 6 + k)"
  unfolding NVIC_GetPriority_def prio_word_def prio_index_def mask_constants by (auto simp: bit_simps ac_simps)

lemma set_prio_byte_high:
  assumes "k < 2"
  shows "bit (set_prio_byte i p w) (prio_shift j + 6 + k) \<longleftrightarrow> (if prio_shift i = prio_shift j then bit p k else bit w (prio_shift j + 6 + k))"
proof -
  have "prio_shift j + 6 + k < 32" "prio_shift i \<le> 24" using prio_shift_cases [of i] prio_shift_cases [of j] assms by auto
  note B = set_prio_byte_bit [OF this, of p w]
  show ?thesis using prio_shift_cases [of i] prio_shift_cases [of j] assms unfolding B by auto
qed

definition same_slot :: "int \<Rightarrow> int \<Rightarrow> bool" where
  "same_slot i j \<longleftrightarrow> (i < 0) = (j < 0) \<and> prio_index i = prio_index j \<and> prio_shift i = prio_shift j"

lemma prio_word_set:
  "prio_word j (NVIC_SetPriority i p n) =
    (if (i < 0) = (j < 0) \<and> prio_index i = prio_index j then set_prio_byte i p (prio_word j n) else prio_word j n)"
  by (auto simp: prio_word_def NVIC_SetPriority_def prio_index_def Let_def)

lemma priority_set: "NVIC_GetPriority j (NVIC_SetPriority i p n) = (if same_slot i j then p AND 3 else NVIC_GetPriority j n)"
proof (rule bit_word_eqI)
  fix k :: nat
  show "bit (NVIC_GetPriority j (NVIC_SetPriority i p n)) k \<longleftrightarrow> bit (if same_slot i j then p AND 3 else NVIC_GetPriority j n) k"
    using bit_3 [of k]
    by (cases "k < 2") (simp_all add: NVIC_GetPriority_bit prio_word_set set_prio_byte_high same_slot_def bit_and_iff)
qed

lemma same_slot_irq: "i < 32 \<Longrightarrow> j < 32 \<Longrightarrow> same_slot (int i) (int j) \<longleftrightarrow> i = j"
proof -
  assume ij: "i < 32" "j < 32"
  then have "unat (word_of_int (int i) :: u32) = i" "unat (word_of_int (int j) :: u32) = j" by (simp_all add: unat_of_nat)
  note u = this
  have "prio_index (int i) = i div 4" "prio_index (int j) = j div 4"
    unfolding prio_index_def by (simp_all only: unat_drop_bit_eq u of_nat_less_0_iff if_False) (simp_all add: drop_bit_eq_div)
  moreover have "prio_shift (int i) = i mod 4 * 8" "prio_shift (int j) = j mod 4 * 8" by (simp_all only: prio_shift_mod u)
  moreover have "i = j" if "i div 4 = j div 4" "i mod 4 = j mod 4" using that by (metis div_mult_mod_eq)
  ultimately show ?thesis by (auto simp: same_slot_def)
qed

lemma lower_irq_priority:
  assumes "i < 32" "j < 32"
  shows "NVIC_GetPriority (int j) (lower_irq (int i) n) = (if i = j then 3 else NVIC_GetPriority (int j) n)"
proof -
  have "NVIC_GetPriority (int i) n = NVIC_GetPriority (int i) n AND mask 2"
    by (rule bit_word_eqI) (auto simp: NVIC_GetPriority_bit bit_simps)
  then have "NVIC_GetPriority (int i) n \<le> 3" using word_and_le1 [of "NVIC_GetPriority (int i) n" "mask 2"] by (simp add: mask_eq_exp_minus_1)
  then have "NVIC_GetPriority (int i) n = 3" if "\<not> NVIC_GetPriority (int i) n < 3" using that by simp
  then show ?thesis using assms by (auto simp: lower_irq_def priority_set same_slot_irq)
qed

lemma lower_irqs:
  assumes "k \<le> 32" "j < k"
  shows "NVIC_GetPriority (int j) (fold (\<lambda>i. lower_irq (int i)) [0..<k] n) = 3"
  using assms by (induction k) (auto simp: lower_irq_priority less_Suc_eq)

lemma lower_irqs_system: "i < 0 \<Longrightarrow> NVIC_GetPriority i (fold (\<lambda>i. lower_irq (int i)) is n) = NVIC_GetPriority i n"
  by (induction "is" arbitrary: n) (simp_all add: lower_irq_def priority_set same_slot_def)

lemma set_irq_priorities_ok:
  "j < 32 \<Longrightarrow> NVIC_GetPriority (int j) (set_irq_priorities n) = 3"
  "NVIC_GetPriority SVCall_IRQn (set_irq_priorities n) = 0" "NVIC_GetPriority PendSV_IRQn (set_irq_priorities n) = 3"
  "NVIC_GetPriority SysTick_IRQn (set_irq_priorities n) = 3"
  by (simp_all add: set_irq_priorities_def lower_irqs lower_irqs_system priority_set same_slot_def prio_shift_def prio_index_def)

section \<open>The thread of the program\<close>

lemma create_runs:
  assumes inv: "kinv s" and new: "wsp \<notin> set (registry (vtimers.more s))" "wsp \<noteq> 0"
    and pr: "prio (vtimers.more s) (currp (vtimers.more s)) < pr"
  obtains s' where "chThdCreateStatic wsp pr s = Some s'" "kinv s'" "currp (vtimers.more s') = wsp"
    "p_state (thr (vtimers.more s') wsp) = CH_STATE_CURRENT" "prio (vtimers.more s') wsp = pr"
    "p_state (thr (vtimers.more s') (currp (vtimers.more s))) = CH_STATE_READY" "ret (vtimers.more s') (currp (vtimers.more s)) = wsp"
proof -
  let ?k = "vtimers.more s"
  have "pr \<noteq> 0" using pr by (metis word_not_simps(1))
  then obtain s' where s': "chThdCreateStatic wsp pr s = Some s'" "kinv s'" using create_ok [OF inv new] by blast
  have ne: "currp ?k \<noteq> wsp" using run_okD(2) [OF kinvD(1) [OF inv]] new(1) by auto
  let ?k1 = "set_p_u wsp MSG_OK (thread_init wsp pr (return wsp ?k))"
  have k1: "currp ?k1 = currp ?k" "prio ?k1 wsp = pr" "prio ?k1 (currp ?k) = prio ?k (currp ?k)"
    using ne by (simp_all add: thread_init_def Let_def)
  then have "\<not> prio ?k1 wsp \<le> prio ?k1 (currp ?k1)" using pr by simp
  then obtain k2 where k2: "chSchReadyI (currp ?k) ?k1 = Some k2"
      "s' = resume (vtimers.more_update (\<lambda>_. set_p_state wsp CH_STATE_CURRENT (k2\<lparr>currp := wsp\<rparr>)) s)"
    using s'(1) k1 by (auto simp: chThdCreateStatic_def lift_def create_static_def chSchWakeupS_def Let_def split: Option.bind_splits)
  have "prio k2 wsp = pr" "p_state (thr k2 (currp ?k)) = CH_STATE_READY" "ret k2 (currp ?k) = wsp" "pend k2 wsp = None"
    using k2(1) ne k1 by (auto simp: chSchReadyI_def Let_def thread_init_def return_def split: if_splits)
  then show ?thesis using that [OF s'] k2(2) ne by (simp add: resume_def)
qed

section \<open>The heap and the constructors\<close>

lemma app_heap_unat:
  assumes sz: "unat (heap_start m) + 128 < unat (heap_end m)"
  shows "unat (app_heap_buf m) = (unat (heap_start m) + 71) div 8 * 8"
    "unat (app_heap_size m) = (unat (heap_end m) - unat (heap_start m) - 121) div 8 * 8"
proof -
  have e: "unat (heap_end m) < 2 ^ 32" by (rule unat_u32_lt)
  have s: "unat (heap_start m + sizeof_thread_t) = unat (heap_start m) + 64"
    using sz e unat_offset [of "heap_start m" 64] by (simp add: sizeof_thread_t_def)
  have s64: "unat sizeof_thread_t = 64" by (simp add: sizeof_thread_t_def)
  have 1: "unat (heap_end m - (heap_start m + sizeof_thread_t)) = unat (heap_end m) - (unat (heap_start m) + 64)"
    using sz s by (subst unat_sub) (auto simp: word_le_nat_alt)
  then have z: "unat (heap_end m - (heap_start m + sizeof_thread_t) - sizeof_thread_t) = unat (heap_end m) - unat (heap_start m) - 128"
    using sz s64 by (subst unat_sub) (auto simp: word_le_nat_alt)
  have "unat (MEM_ALIGN_NEXT (heap_start m + sizeof_thread_t)) = (unat (heap_start m) + 64 + 7) div 8 * 8"
    using MEM_ALIGN_NEXT_unat [of "heap_start m + sizeof_thread_t"] sz e unfolding s by linarith
  then show "unat (app_heap_buf m) = (unat (heap_start m) + 71) div 8 * 8" by (simp add: app_heap_buf_def)
  have "unat (heap_end m) - unat (heap_start m) - 128 + 7 < 2 ^ 32" using sz e by linarith
  moreover have "unat (heap_end m) - unat (heap_start m) - 128 + 7 = unat (heap_end m) - unat (heap_start m) - 121" using sz by linarith
  ultimately show "unat (app_heap_size m) = (unat (heap_end m) - unat (heap_start m) - 121) div 8 * 8"
    using MEM_ALIGN_NEXT_unat [of "heap_end m - (heap_start m + sizeof_thread_t) - sizeof_thread_t"] unfolding z app_heap_size_def by metis
qed

lemma round_bounds: "(x :: nat) div 8 * 8 \<le> x" "x \<le> x div 8 * 8 + 7"
  by presburger+

lemma round_exact: "(x :: nat) mod 8 = 0 \<Longrightarrow> (x + 7) div 8 * 8 = x"
  by presburger

lemma app_heap_area:
  assumes sz: "unat (heap_start m) + 128 < unat (heap_end m)"
    and hf: "al8 hf" "unat hf + 8 \<le> unat (heap_start m) \<or> unat (heap_end m) \<le> unat hf"
  shows "heap_area hf (app_heap_buf m) (app_heap_size m)" "unat (heap_start m) + 64 \<le> unat (app_heap_buf m)"
    "unat (app_heap_buf m) + unat (app_heap_size m) \<le> unat (heap_end m)"
    "unat (heap_end m) - unat (heap_start m) - 128 \<le> unat (app_heap_size m)"
proof -
  define s e b z where "s = unat (heap_start m)" "e = unat (heap_end m)" "b = unat (app_heap_buf m)" "z = unat (app_heap_size m)"
  note d = this
  have e: "e < 2 ^ 32" unfolding d by (rule unat_u32_lt)
  have b: "b \<le> s + 71" "s + 71 \<le> b + 7" "z \<le> e - s - 121" "e - s - 121 \<le> z + 7"
    using app_heap_unat [OF sz] round_bounds unfolding d by metis+
  have se: "s + 128 < e" using sz by (simp only: d)
  have z8: "z mod 8 = 0" using al8_align by (simp add: d app_heap_size_def al8_def)
  have "z \<noteq> 0" using b(4) se by linarith
  then have "8 \<le> z" using z8 by presburger
  moreover have "app_heap_buf m \<noteq> 0" using b(2) by (auto simp: d)
  moreover have "unat hf + 8 < b \<or> b + z \<le> unat hf" using hf(2) b se unfolding d(1,2) [symmetric] by linarith
  moreover have "b + z < 2 ^ 32" using b se e by linarith
  ultimately show "heap_area hf (app_heap_buf m) (app_heap_size m)"
    using hf(1) al8_align unfolding heap_area_def d(3,4) by (simp add: app_heap_buf_def app_heap_size_def)
  show "unat (heap_start m) + 64 \<le> unat (app_heap_buf m)" "unat (app_heap_buf m) + unat (app_heap_size m) \<le> unat (heap_end m)"
    "unat (heap_end m) - unat (heap_start m) - 128 \<le> unat (app_heap_size m)"
    using b se unfolding d [symmetric] by linarith+
qed

text \<open>What the loop over the constructors is to do: call the functions of a table once each, in order.\<close>

fun run_all :: "(u32 \<Rightarrow> device \<Rightarrow> device option) \<Rightarrow> u32 list \<Rightarrow> device \<Rightarrow> device option" where
  "run_all call [] d = Some d"
| "run_all call (f # fs) d = Option.bind (call f d) (run_all call fs)"

definition table :: "mem \<Rightarrow> u32 \<Rightarrow> nat \<Rightarrow> u32 list" where
  "table m a n = map (\<lambda>i. load32 m (a + 4 * of_nat i)) [0..<n]"

text \<open>Memory below \<open>r\<close> is the flash, which the program does not write.\<close>

definition same_rom :: "nat \<Rightarrow> mem \<Rightarrow> mem \<Rightarrow> bool" where
  "same_rom r m m' \<longleftrightarrow> (\<forall>x. unat x < r \<longrightarrow> m' x = m x)"

definition keeps_rom :: "nat \<Rightarrow> (u32 \<Rightarrow> device \<Rightarrow> device option) \<Rightarrow> bool" where
  "keeps_rom r call \<longleftrightarrow> (\<forall>f d d'. call f d = Some d' \<longrightarrow> same_rom r (dmem d) (dmem d'))"

lemma same_rom_trans: "same_rom r m m' \<Longrightarrow> same_rom r m' m'' \<Longrightarrow> same_rom r m m''"
  by (simp add: same_rom_def)

lemma same_rom_header: "same_rom r m m' \<Longrightarrow> 0x5930 \<le> r \<Longrightarrow> same_header m m'"
  by (auto simp: same_rom_def same_header_def in_range_unat)

lemma same_rom_load: "same_rom r m m' \<Longrightarrow> unat a + 4 \<le> r \<Longrightarrow> r < 2 ^ 32 \<Longrightarrow> load32 m' a = load32 m a"
  by (rule load32_cong) (simp add: same_rom_def unat_offset)

lemma table_Suc: "table m a (Suc n) = load32 m a # table m (a + 4) n"
  unfolding table_def by (simp add: upt_conv_Cons map_Suc_upt [symmetric] algebra_simps del: upt_Suc)

lemma run_all_rom: "keeps_rom r call \<Longrightarrow> run_all call fs d = Some d' \<Longrightarrow> same_rom r (dmem d) (dmem d')"
proof (induction fs arbitrary: d)
  case (Cons f fs)
  then obtain d1 where d1: "call f d = Some d1" "run_all call fs d1 = Some d'" by (auto split: Option.bind_splits)
  then have "same_rom r (dmem d) (dmem d1)" using Cons.prems(1) by (auto simp: keeps_rom_def)
  then show ?case using Cons.IH [OF Cons.prems(1) d1(2)] by (rule same_rom_trans)
qed (simp add: same_rom_def)

lemma table_rom:
  assumes "same_rom r m m'" "unat a + 4 * n \<le> r" "r < 2 ^ 32"
  shows "table m' a n = table m a n"
  unfolding table_def
proof (rule map_cong [OF refl])
  fix i assume "i \<in> set [0..<n]"
  then have "unat (a + 4 * of_nat i) = unat a + 4 * i" using unat_offset [of a "4 * i"] assms(2,3) by simp
  then show "load32 m' (a + 4 * of_nat i) = load32 m (a + 4 * of_nat i)"
    using \<open>i \<in> set [0..<n]\<close> assms by (intro same_rom_load [OF assms(1)]) simp_all
qed

lemma constructors_run:
  assumes "keeps_rom r call" "0x5930 \<le> r" "r < 2 ^ 32" "const_end (dmem d) = a + of_nat (4 * n)" "unat a + 4 * n \<le> r"
  shows "constructors call a d = run_all call (table (dmem d) a n) d"
  using assms(4,5)
proof (induction n arbitrary: a d)
  case 0
  then show ?case by (subst constructors.simps) (simp add: table_def)
next
  case (Suc n)
  have "unat (of_nat (4 * Suc n) :: u32) = 4 * Suc n" using Suc.prems(2) assms(3) by (simp only: unat_of_nat) simp
  then have ne: "a \<noteq> const_end (dmem d)" unfolding Suc.prems(1) by (metis add_cancel_left_right mult_is_0 nat.distinct(1) unsigned_0 zero_neq_numeral)
  have "constructors call (a + 4) d' = run_all call (table (dmem d) (a + 4) n) d'" if "call (load32 (dmem d) a) d = Some d'" for d'
  proof -
    have rom: "same_rom r (dmem d) (dmem d')" using assms(1) that by (auto simp: keeps_rom_def)
    have u: "unat (a + 4) = unat a + 4" using unat_offset [of a 4] Suc.prems(2) assms(3) by simp
    have "const_end (dmem d') = a + 4 + of_nat (4 * n)"
      using same_header_fields(8) [OF same_rom_header [OF rom assms(2)]] Suc.prems(1) by simp
    moreover have r: "unat (a + 4) + 4 * n \<le> r" using u Suc.prems(2) by simp
    ultimately have "constructors call (a + 4) d' = run_all call (table (dmem d') (a + 4) n) d'" by (rule Suc.IH)
    then show ?thesis using table_rom [OF rom r assms(3)] by simp
  qed
  then show ?case by (subst constructors.simps) (auto simp: ne table_Suc split: Option.bind_splits)
qed

lemma app_heap_rom:
  assumes "al8 hf" "r \<le> unat hf" "r \<le> unat (app_heap_buf m)"
  shows "same_rom r m (snd (app_heap_init app_heap hf m))"
proof -
  have b: "al8 (app_heap_buf m)" by (simp add: app_heap_buf_def al8_align)
  have "\<not> in_range x hf 8" "\<not> in_range x (app_heap_buf m) 8" if "unat x < r" for x
    using that assms(2,3) al8_bound [OF assms(1)] al8_bound [OF b] by (auto simp: in_range_unat)
  then show ?thesis using assms(1) b by (auto simp: same_rom_def app_heap_init_def chHeapObjectInit_def set_outside)
qed

section \<open>Properties of the start\<close>

text \<open>
  C23: from any state of the kernel in which a thread below the normal priority runs, \<^verbatim>\<open>chBootToApp\<close> reaches the switch to the
  program with everything set up: its zero-initialised memory is zero, its initialised memory is the image in flash, every other byte is
  unchanged; supervisor calls have the highest priority, the pending supervisor call, the tick and every device interrupt the lowest; and the
  thread of the program, in the memory the header names, is running at normal priority while the caller is ready, with the kernel in a
  reachable state.  The caller is still inside the call: \<open>esplanadeThread\<close> has its old value as long as the caller does not run, and the
  address of the thread when the caller goes on with the value it got.
\<close>

theorem boot_sets_up_application:
  assumes reach: "kreach c (dsys d)" and tone: "vt_func (dsys d) tone_timer = None" and lay: "image_layout (dmem d)"
    and new: "heap_start (dmem d) \<notin> set (registry (vtimers.more (dsys d)))" "heap_start (dmem d) \<noteq> 0"
    and low: "prio (vtimers.more (dsys d)) (currp (vtimers.more (dsys d))) < NORMALPRIO"
  defines "m \<equiv> dmem d"
  shows "\<exists>d'. chBootToApp tone_timer d = Some d' \<and>
    (\<forall>x. dmem d' x = (if in_range x (bss_start m) (bss_size m) then 0
       else if in_range x (data_start m) (data_size m) then m (data_load_start m + (x - data_start m)) else m x)) \<and>
    (\<forall>i < 32. NVIC_GetPriority (int i) (dnvic d') = 3) \<and> NVIC_GetPriority SVCall_IRQn (dnvic d') = 0 \<and>
    NVIC_GetPriority PendSV_IRQn (dnvic d') = 3 \<and> NVIC_GetPriority SysTick_IRQn (dnvic d') = 3 \<and>
    app_start_time d' = chVTGetSystemTimeX (dsys d) \<and> kreach c (dsys d') \<and>
    currp (vtimers.more (dsys d')) = heap_start m \<and> prio (vtimers.more (dsys d')) (heap_start m) = 64 \<and>
    p_state (thr (vtimers.more (dsys d')) (currp (vtimers.more (dsys d)))) = CH_STATE_READY \<and>
    esplanadeThread d' = esplanadeThread d \<and>
    (\<forall>s. currp (vtimers.more s) \<noteq> currp (vtimers.more (dsys d)) \<longrightarrow> esplanadeThread (boot_return (d'\<lparr>dsys := s\<rparr>)) = esplanadeThread d) \<and>
    (\<forall>s. currp (vtimers.more s) = currp (vtimers.more (dsys d)) \<and> ret (vtimers.more s) (currp (vtimers.more s)) =
        ret (vtimers.more (dsys d')) (currp (vtimers.more s)) \<longrightarrow> esplanadeThread (boot_return (d'\<lparr>dsys := s\<rparr>)) = heap_start m)"
proof -
  have id: "chVTObjectInit tone_timer (dsys d) = dsys d" using tone by (simp add: chVTObjectInit_def set_vt_func_def fun_upd_idem)
  have h: "heap_start (load_app (dmem d)) = heap_start (dmem d)" by (rule same_header_fields(9) [OF load_app_header [OF lay]])
  obtain s' where s': "chThdCreateStatic (heap_start (dmem d)) NORMALPRIO (dsys d) = Some s'" "currp (vtimers.more s') = heap_start (dmem d)"
    "prio (vtimers.more s') (heap_start (dmem d)) = NORMALPRIO" "p_state (thr (vtimers.more s') (currp (vtimers.more (dsys d)))) = CH_STATE_READY"
    "ret (vtimers.more s') (currp (vtimers.more (dsys d))) = heap_start (dmem d)"
    using create_runs [OF kreach_inv [OF reach] new low] by metis
  have "kstep c (dsys d) s'" by (rule kstep.create [OF new _ s'(1)]) (simp add: NORMALPRIO_def)
  then have "kreach c s'" using reach kreach.step by blast
  moreover have n: "currp (vtimers.more (dsys d)) \<noteq> heap_start (dmem d)"
    using run_okD(2) [OF kinvD(1) [OF kreach_inv [OF reach]]] new(1) by auto
  moreover have "chBootToApp tone_timer d = Some (d\<lparr>app_start_time := chVTGetSystemTimeX (dsys d), dmem := load_app (dmem d),
      dnvic := set_irq_priorities (dnvic d), dsys := s', boot_caller := Some (currp (vtimers.more (dsys d)))\<rparr>)"
    using s'(1,2) n by (simp add: chBootToApp_def boot_return_def Let_def id h)
  ultimately show ?thesis using s'(2-5)
    by (auto simp: m_def load_app_apply [OF lay] set_irq_priorities_ok NORMALPRIO_def boot_return_def Let_def)
qed

text \<open>
  C26: \<^verbatim>\<open>app_thread\<close> makes a working heap inside the memory the header names, behind the record of the thread and of all but 128 bytes of it, then
  calls every constructor of the table once, in order, and then the entry of the program; for any code of the program that leaves the flash as
  it is, and a table of any length.
\<close>

theorem app_thread_runs_program:
  assumes keeps: "keeps_rom r call" and r: "0x5930 \<le> r" "r \<le> unat hf" "r \<le> unat (heap_start (dmem d))"
    and tbl: "const_end (dmem d) = const_start (dmem d) + of_nat (4 * n)" "unat (const_start (dmem d)) + 4 * n \<le> r"
    and sz: "unat (heap_start (dmem d)) + 128 < unat (heap_end (dmem d))"
    and hf: "al8 hf" "unat hf + 8 \<le> unat (heap_start (dmem d)) \<or> unat (heap_end (dmem d)) \<le> unat hf"
  defines "m \<equiv> dmem d"
  shows "\<exists>h m1 lo hi. app_heap_init app_heap hf m = (h, m1) \<and> heap_ok h lo hi \<lparr>hmem = m1, hcore = core\<rparr> [] \<and>
    unat (heap_start m) + 64 \<le> lo \<and> hi \<le> unat (heap_end m) \<and> unat (heap_end m) - unat (heap_start m) - 128 \<le> hi - lo \<and>
    app_thread call name app_heap hf d =
      Option.bind (run_all call (table m (const_start m) n)
          (d\<lparr>dsys := vtimers.more_update (chRegSetThreadName name) (dsys d), dmem := m1, adc_started := True\<rparr>))
        (call (app_entry m))"
proof -
  note A = app_heap_area [OF sz hf]
  obtain h m1 where i: "app_heap_init app_heap hf m = (h, m1)" by fastforce
  define d1 where "d1 = d\<lparr>dsys := vtimers.more_update (chRegSetThreadName name) (dsys d), dmem := m1, adc_started := True\<rparr>"
  have d1: "dmem d1 = m1" by (simp add: d1_def)
  have r32: "r < 2 ^ 32" using r(2) unat_u32_lt [of hf] by simp
  have ok: "heap_ok h (unat (app_heap_buf m)) (unat (app_heap_buf m) + unat (app_heap_size m)) \<lparr>hmem = m1, hcore = core\<rparr> []"
    using heap_init_ok(1) [OF A(1)] i unfolding app_heap_init_def m_def by blast
  have rom: "same_rom r m m1" using app_heap_rom [OF hf(1) r(2), of m app_heap] A(2) r(3) i by (simp add: m_def)
  note H = same_header_fields [OF same_rom_header [OF rom r(1)]]
  have "constructors call (const_start m) d1 = run_all call (table m1 (const_start m) n) d1"
    using constructors_run [OF keeps r(1) r32, of d1 "const_start m" n] tbl by (simp add: d1 H m_def)
  also have "table m1 (const_start m) n = table m (const_start m) n" using table_rom [OF rom _ r32] tbl(2) by (simp add: m_def)
  finally have c: "constructors call (const_start m) d1 = run_all call (table m (const_start m) n) d1" .
  have e: "app_entry (dmem d') = app_entry m" if "run_all call (table m (const_start m) n) d1 = Some d'" for d'
    using same_header_fields(6) [OF same_rom_header [OF run_all_rom [OF keeps that] r(1)]] H(6) d1 by simp
  have "app_thread call name app_heap hf d = Option.bind (constructors call (const_start m1) d1) (\<lambda>d. call (app_entry (dmem d)) d)"
    using i by (simp add: app_thread_def Let_def d1_def m_def ArduinoInit_def)
  also have "\<dots> = Option.bind (run_all call (table m (const_start m) n) d1) (call (app_entry m))"
    unfolding H(7) c using e by (cases "run_all call (table m (const_start m) n) d1") auto
  finally show ?thesis using i ok A(2-4) unfolding m_def d1_def by (intro exI [of _ h] exI [of _ m1] exI) auto
qed

lemma app_stack_top_le:
  assumes "unat (heap_start m) \<le> unat (heap_end m)"
  shows "unat (app_stack_top m) \<le> unat (heap_end m)"
proof -
  have d: "unat (heap_end m - heap_start m) = unat (heap_end m) - unat (heap_start m)" using assms by (simp add: unat_sub word_le_nat_alt)
  have "wa_size m = MEM_ALIGN_PREV (heap_end m - heap_start m)" by (simp add: wa_size_def MEM_ALIGN_PREV_def)
  then have "unat (wa_size m) \<le> unat (heap_end m) - unat (heap_start m)" using d round_bounds(1) by (simp add: MEM_ALIGN_PREV_unat)
  then have "unat (heap_start m) + unat (wa_size m) \<le> unat (heap_end m)" using assms by linarith
  moreover then have "unat (app_stack_top m) = unat (heap_start m) + unat (wa_size m)"
    using unat_offset [of "heap_start m" "unat (wa_size m)"] unat_u32_lt [of "heap_end m"] by (simp add: app_stack_top_def)
  ultimately show ?thesis by simp
qed

text \<open>
  C39: the heap of the program covers the stack of its thread.  The stack grows down from the end of the memory the header names, and all of that
  memory but 64 bytes at its end is given to the heap: one \<^verbatim>\<open>malloc\<close> of a size the heap can serve returns a block that reaches to within 64 bytes of
  the start of the stack, which the thread is using.
\<close>

theorem app_heap_covers_stack:
  assumes sz: "unat (heap_start m) + 128 < unat (heap_end m)"
    and hf: "al8 hf" "unat hf + 8 \<le> unat (heap_start m) \<or> unat (heap_end m) \<le> unat hf"
    and init: "app_heap_init app_heap hf m = (h, m1)"
  shows "\<exists>p s'. malloc h (app_heap_size m - 8) \<lparr>hmem = m1, hcore = core\<rparr> = Some (p, s') \<and> p \<noteq> 0 \<and>
    unat (app_stack_top m) \<le> unat p + unat (app_heap_size m - 8) + 64"
proof -
  note A = app_heap_area [OF sz hf]
  let ?lo = "unat (app_heap_buf m)" and ?hi = "unat (app_heap_buf m) + unat (app_heap_size m)"
  let ?s = "\<lparr>hmem = m1, hcore = core\<rparr>"
  have i: "chHeapObjectInit app_heap hf (app_heap_buf m) (app_heap_size m) m = (h, m1)" using init by (simp add: app_heap_init_def)
  note ok = heap_init_ok [OF A(1) i]
  have a: "al8 hf" "al8 (app_heap_buf m)" "hf \<noteq> app_heap_buf m" "8 \<le> unat (app_heap_size m)" "app_heap_buf m \<noteq> 0" "?hi < 2 ^ 32"
    using A(1) by (auto simp: heap_area_def)
  have z: "unat (app_heap_size m - 8) = unat (app_heap_size m) - 8" using a(4) by (simp add: unat_sub word_le_nat_alt)
  have "chain (hmem ?s) (h_free h) [(app_heap_buf m, app_heap_size m - 8)]"
    using i a by (auto simp: chHeapObjectInit_def header_get_set)
  note M = malloc_correct [OF ok(1) _ this, of "app_heap_size m - 8"]
  have "(unat (app_heap_size m - 8) + 7) div 8 * 8 = unat (app_heap_size m - 8)"
  proof -
    have "al8 (app_heap_size m - 8)" using a(4) by (intro al8_diff) (simp_all add: app_heap_size_def al8_align word_le_nat_alt)
    then show ?thesis unfolding al8_def by (rule round_exact)
  qed
  moreover have small: "unat (app_heap_size m - 8) + 7 < 2 ^ 32" using unat_u32_lt [of "app_heap_size m"] z a(4) by linarith
  ultimately obtain p s' where p: "malloc h (app_heap_size m - 8) ?s = Some (p, s')" "p \<noteq> 0"
      "heap_ok h ?lo ?hi s' [(p - 8, get_size (hmem s') (p - 8))]"
    using M [OF small] by auto
  have pl: "placed ?lo ?hi (p - 8, get_size (hmem s') (p - 8))" using p(3) by (auto simp: heap_ok_def)
  then have "?lo \<le> unat (p - 8)" "unat (p - 8) + 8 < 2 ^ 32" using a(6) by (auto simp: placed_def)
  then have "?lo + 8 \<le> unat p" using unat_offset [of "p - 8" 8] by simp
  moreover have "unat (app_stack_top m) \<le> unat (heap_end m)" using sz by (intro app_stack_top_le) simp
  ultimately have "unat (app_stack_top m) \<le> unat p + unat (app_heap_size m - 8) + 64" using A(2,4) z a(4) sz by linarith
  then show ?thesis using p(1,2) by blast
qed

section \<open>A program\<close>

text \<open>A header in flash, two constructors, and sixteen bytes each of initialised and of zero-initialised memory.\<close>

definition demo_image :: mem where
  "demo_image = (\<lambda>_. 0)(0x5901 := 0x64, 0x5904 := 0x10, 0x5907 := 0x20, 0x5908 := 0x20, 0x590B := 0x20, 0x590F := 0x20, 0x5910 := 0x10, 0x5913 := 0x20,
     0x5915 := 0x63, 0x5921 := 0x60, 0x5924 := 0x08, 0x5925 := 0x60, 0x5929 := 0x01, 0x592B := 0x20, 0x592D := 0x04, 0x592F := 0x20,
     0x6001 := 0x61, 0x6005 := 0x62, 0x6400 := 7)"

lemma demo_image_header:
  "data_load_start demo_image = 0x6400" "data_start demo_image = 0x20000010" "data_end demo_image = 0x20000020"
  "bss_start demo_image = 0x20000000" "bss_end demo_image = 0x20000010" "app_entry demo_image = 0x6300" "const_start demo_image = 0x6000"
  "const_end demo_image = 0x6008" "heap_start demo_image = 0x20000100" "heap_end demo_image = 0x20000400"
  by (simp_all add: header_defs load32_def demo_image_def le32_def)

lemma demo_image_layout: "image_layout demo_image"
  by (simp add: image_layout_def demo_image_header bss_size_def data_size_def apart_def)

definition demo_device :: device where
  "demo_device = \<lparr>dmem = demo_image, dnvic = \<lparr>SHP = (\<lambda>_. 0), IP = (\<lambda>_. 0)\<rparr>, dsys = demo_start, app_start_time = 0, esplanadeThread = 0, avoid_isr_lock = 0,
     adc_started = False, boot_caller = None\<rparr>"

theorem boot_sets_up_application_witness:
  "\<exists>d'. chBootToApp 0x800 demo_device = Some d' \<and> dmem d' 0x20000010 = 7 \<and> NVIC_GetPriority 5 (dnvic d') = 3 \<and>
    currp (vtimers.more (dsys d')) = 0x20000100"
proof -
  have "kreach True demo_start" unfolding demo_start_def by (rule kreach.start) simp
  then have r: "kreach True (dsys demo_device)" by (simp add: demo_device_def)
  have o: "vt_func (dsys demo_device) 0x800 = None" "image_layout (dmem demo_device)"
    "heap_start (dmem demo_device) \<notin> set (registry (vtimers.more (dsys demo_device)))" "heap_start (dmem demo_device) \<noteq> 0"
    "prio (vtimers.more (dsys demo_device)) (currp (vtimers.more (dsys demo_device))) < NORMALPRIO"
    by (simp_all add: demo_device_def demo_image_layout demo_image_header kernel_eval NORMALPRIO_def IDLEPRIO_def)
  obtain d' where d': "chBootToApp 0x800 demo_device = Some d'" "\<forall>i < 32. NVIC_GetPriority (int i) (dnvic d') = 3"
    "dmem d' 0x20000010 = (if in_range 0x20000010 (bss_start (dmem demo_device)) (bss_size (dmem demo_device)) then 0
       else if in_range 0x20000010 (data_start (dmem demo_device)) (data_size (dmem demo_device))
       then dmem demo_device (data_load_start (dmem demo_device) + (0x20000010 - data_start (dmem demo_device))) else dmem demo_device 0x20000010)"
    "currp (vtimers.more (dsys d')) = heap_start (dmem demo_device)"
    using boot_sets_up_application [OF r o] by blast
  have "NVIC_GetPriority 5 (dnvic d') = 3" using d'(2) [rule_format, of 5] by simp
  moreover have "dmem d' 0x20000010 = 7" "currp (vtimers.more (dsys d')) = 0x20000100"
    using d'(3,4) by (simp_all add: demo_device_def demo_image_header bss_size_def data_size_def in_range_def) (simp add: demo_image_def)
  ultimately show ?thesis using d'(1) by (intro exI [of _ d']) simp
qed

text \<open>Code that adds its address to the start time.\<close>

definition demo_code :: "u32 \<Rightarrow> device \<Rightarrow> device option" where
  "demo_code f d = Some (d\<lparr>app_start_time := 2 * app_start_time d + f\<rparr>)"

lemma demo_table: "table demo_image 0x6000 2 = [0x6100, 0x6200]"
proof -
  have "load32 demo_image 0x6000 = 0x6100" "load32 demo_image 0x6004 = 0x6200" by (simp_all add: load32_def demo_image_def le32_def)
  then have "table demo_image 0x6000 (Suc (Suc 0)) = [0x6100, 0x6200]" unfolding table_Suc by (simp add: table_def)
  then show ?thesis by (simp only: numeral_2_eq_2)
qed

theorem app_thread_runs_program_witness:
  "map_option app_start_time (app_thread demo_code 0x7000 0x1FFFFC00 0x1FFFFC08 demo_device) = Some (4 * 0x6100 + 2 * 0x6200 + 0x6300)"
proof -
  have k: "keeps_rom 0x8000 demo_code" by (simp add: keeps_rom_def demo_code_def same_rom_def)
  have m: "dmem demo_device = demo_image" by (simp add: demo_device_def)
  obtain m1 s1 where "app_thread demo_code 0x7000 0x1FFFFC00 0x1FFFFC08 demo_device =
      Option.bind (run_all demo_code [0x6100, 0x6200] (demo_device\<lparr>dsys := s1, dmem := m1, adc_started := True\<rparr>)) (demo_code 0x6300)"
    using app_thread_runs_program [OF k, of "0x1FFFFC08" demo_device 2 "0x1FFFFC00" undefined "0x7000"]
    by (auto simp: m demo_image_header demo_table al8_def)
  then show ?thesis by (simp add: demo_code_def demo_device_def)
qed

theorem app_heap_covers_stack_witness:
  "\<exists>p s'. malloc (fst (app_heap_init 0x1FFFFC00 0x1FFFFC08 demo_image)) (app_heap_size demo_image - 8)
      \<lparr>hmem = snd (app_heap_init 0x1FFFFC00 0x1FFFFC08 demo_image), hcore = core_init 0 0\<rparr> = Some (p, s') \<and>
    p \<noteq> 0 \<and> unat (app_stack_top demo_image) \<le> unat p + unat (app_heap_size demo_image - 8) + 64"
  by (rule app_heap_covers_stack [OF _ _ _ prod.collapse [symmetric]]) (simp_all add: demo_image_header al8_def)

end
