(* ===== verification/Spec2Isabelle.thy ===== *)
theory Spec2Isabelle
  imports Main_Loop App_Heap Arduino_Math Printf_Spec Priority_Inheritance Event_Waits App_Start
begin

text \<open>
  \<^bold>\<open>The boot loader and operating system of the Chibitronics "Love to Code" board.\<close>

  The firmware (\<^verbatim>\<open>src/orchard\<close>, on top of ChibiOS/RT in \<^verbatim>\<open>src/os\<close>) receives programs as sound.  The
  microphone is sampled by an interrupt into a double buffer (\<^verbatim>\<open>esplanade_analog.c\<close>); a
  frequency-shift-keying demodulator turns samples into bits (\<^verbatim>\<open>esplanade_demod.c\<close>); the MAC layer
  turns bits into packets (\<^verbatim>\<open>esplanade_mac.c\<close>); the updater checks packets with the Murmur3 hash
  (\<^verbatim>\<open>murmur3.c\<close>), writes them to flash (\<^verbatim>\<open>flash.c\<close>) and boots the program (\<^verbatim>\<open>esplanade_updater.c\<close>);
  \<^verbatim>\<open>main.c\<close> is the loop that ties these together.  A booted program uses the runtime library
  (\<^verbatim>\<open>__aeabi.c\<close>, \<^verbatim>\<open>math.c\<close>) and the heap (\<^verbatim>\<open>chheap.c\<close>, \<^verbatim>\<open>chmemcore.c\<close>, \<^verbatim>\<open>esplanade_app.c\<close>).

  \<^bold>\<open>Theories.\<close>

  \<^item> \<open>LTC_Prelude\<close>: machine words, byte-addressed memory (little-endian loads and stores, byte ranges),
    the shared lemmas.
  \<^item> \<open>C_Library\<close>: the runtime library.  The copy routines meet the locale \<open>mem_copy\<close>.
  \<^item> \<open>Murmur3\<close>: the hash.  Its block loop meets the locale \<open>block_hash\<close>, which gives the detection of
    any error confined to one word.
  \<^item> \<open>Mac_Layer\<close>: the receiver as a state machine over bits; \<open>None\<close> is a store outside an array.
    The lemmas show that this does not happen and that every well-formed frame is delivered.
  \<^item> \<open>Demodulator\<close>: the sampling interrupt and the demodulator, with the consumer of bits as an argument
    described by the locale \<open>bit_sink\<close>.  The filter tables are generated by a host program and are a
    parameter; \<open>dsp_tables_ok\<close> says what the generator guarantees.  Samples and sums are unbounded
    integers; the theorem on overflow justifies this for the 32-bit code.
  \<^item> \<open>Flash_Driver\<close>: the driver of the flash controller.  The controller is not code of the
    repository: the record \<open>ftfx\<close> of register accesses is a parameter, \<open>ftfx_documented\<close> states the
    documented behaviour, and \<open>sim_hw\<close> is a device that satisfies it.  Waiting for the controller is a
    partial function, so that a controller that never finishes yields \<open>None\<close>.
  \<^item> \<open>Updater\<close>: the update protocol over the driver, with the storage header and block map in
    device memory; \<open>upd_run\<close> is reachability by packets, resets, changes of RAM and boots of the program, over any number of
    updates.  A length of more than the 0x2700 bytes of the storage area is accepted by the code; what is shown of hashes is for lengths up
    to that.
  \<^item> \<open>Main_Loop\<close>: the composition.  The loop is cut at its accesses to the variables of the sampling interrupt
    (\<open>loop_pc\<close>, \<open>loop_step\<close>), \<open>boot_step\<close> lets the interrupt run between any two of them, and \<open>bit_sink\<close> is
    interpreted with the MAC layer.
  \<^item> \<open>App_Heap\<close>: the core allocator and the first-fit heap on byte-addressed memory, with \<open>malloc\<close>,
    \<open>free\<close> and \<open>realloc\<close>; the locale \<open>allocator\<close> is the contract of a client that allocates, releases and writes to its blocks.

  \<^item> \<open>Arduino_IO\<close>: the pin, PWM and tone calls of a program (\<^verbatim>\<open>arduino-io.c\<close>, \<^verbatim>\<open>arduino-pwm.c\<close>) on the registers of the
    ports and of the timer, with the interrupts that drive the software PWM; in normal mode a program drives only its
    own pins, and of the others it can at most switch an input between digital and analog by reading it.
  \<^item> \<open>Arduino_Math\<close>: \<^verbatim>\<open>arduino-math.c\<close>, the random numbers and their range.
  \<^item> \<open>Formatted_Output\<close>: \<^verbatim>\<open>chprintf.c\<close>, the streams of \<^verbatim>\<open>memstreams.c\<close> and \<^verbatim>\<open>nullstreams.c\<close> and the conversions of \<^verbatim>\<open>__aeabi.c\<close> on
    byte memory.  Widths, precisions and the count are 32-bit words that wrap around, as \<^verbatim>\<open>int\<close> is.  Floating-point arithmetic is not code of the repository: the record \<open>float_lib\<close> is an argument.  The loops over
    formats and digits are partial functions; the theorems show that they return.
  \<^item> \<open>Printf_Spec\<close>: what a format of the documented form prints, as a list of \<open>item\<close>s, stars and long modifiers included; the locale \<open>sequential_stream\<close> is the contract of a stream, which
    the memory stream and the null stream meet.
  \<^item> \<open>Thread_Queues\<close>: the circular lists of \<^verbatim>\<open>chschd.h\<close> on their links; \<open>queue_rep\<close> relates a header to the list of its threads,
    every operation refines one on lists, and the locale \<open>fifo_queue\<close> is the contract of a queue.
  \<^item> \<open>Virtual_Timers\<close>: the delta list of \<^verbatim>\<open>chvt.c\<close> on the same links; \<open>remaining\<close> gives each timer the ticks it has left, and a
    tick is shown to take one from each and to call the functions of those that are over.
  \<^item> \<open>Arduino_Timers\<close>: the timers of a program (\<^verbatim>\<open>arduino-chibios.c\<close>) and the clock (\<^verbatim>\<open>arduino-time.c\<close>).
  \<^item> \<open>Kernel\<close>: scheduler, threads and semaphores (\<^verbatim>\<open>chschd.c\<close>, \<^verbatim>\<open>chthreads.c\<close>, \<^verbatim>\<open>chsem.c\<close>) over lists of threads and the virtual
    timers.  \<open>kernel\<close> is the record of the threads, the queues, the counters and the running thread; a call ends at its
    context switch, and what is left of it is a \<open>frame\<close> that \<open>resume\<close> runs when the thread goes on.  \<open>None\<close> is a call that does
    not return.
  \<^item> \<open>Kernel_Invariant\<close>, \<open>Kernel_Calls\<close>: the invariant \<open>kinv\<close> and that each operation returns and keeps it.
  \<^item> \<open>Mutexes\<close>, \<open>Mutex_Calls\<close>: the mutexes of \<^verbatim>\<open>chmtx.c\<close> with their owners, the links between the mutexes of a thread and the
    priorities they pass on; the loop over the chain of owners is shown to end, since each round raises one more thread, and
    every call to keep \<open>kinv\<close> and \<open>mtx_ok\<close>.  \<open>Kernel_Frames\<close> holds what the other calls leave alone.
  \<^item> \<open>Kernel_Steps\<close>: the kernel as a transition system \<open>kstep\<close> from \<open>chSysInit\<close>, the states \<open>kreach\<close> it reaches, and what holds in
    all of them.  The flag of \<open>kreach\<close> says whether threads keep from lowering their priority while they have a mutex.  In all
    runs of \<open>kstep\<close> a thread gives back its mutexes before it ends; the code does not check this, and \<open>Priority_Inheritance\<close> shows
    what \<open>chThdExit\<close> leaves otherwise.
  \<^item> \<open>Priority_Inheritance\<close>: in those states the priority of a thread is exactly the highest of its own and of those that wait
    for its mutexes.
  \<^item> \<open>Events\<close>, \<open>Event_Waits\<close>: the events of \<^verbatim>\<open>chevents.c\<close>.  \<open>es_rep\<close> relates a source to the list of its listeners; the loops along
    the links are partial functions and are shown to end on such a list.  \<open>kinv\<close> says that no thread waits for
    events it has, so that this holds in all reachable states; a signal is followed through the switch to the thread it wakes.
  \<^item> \<open>App_Start\<close>: \<^verbatim>\<open>chBootToApp\<close> and \<^verbatim>\<open>app_thread\<close> of \<^verbatim>\<open>esplanade_app.c\<close> on one \<open>device\<close> with memory, interrupt controller and kernel.  The
    program is loaded as its header says and its thread runs, before the caller goes on (\<open>boot_return\<close>); the thread makes the heap and calls the constructors and the
    entry.  The code of the program is an argument that leaves the flash alone (\<open>keeps_rom\<close>), and may not return.

  The record of the kernel extends that of the timers, which extends that of the links, so that the three are one state
  and the functions of the timers change the kernel; a locale of one theory is interpreted on the definitions of the theory
  that provides it.

  \<^bold>\<open>What is not modelled.\<close>  Peripherals behind the HAL (ADC set-up, serial port, I2C, LEDs), fault
  handlers, host-side generators, the objects of the kernel a program of the board does not reach
  (condition variables, messages, mailboxes, I/O queues, threads on the heap), the debug checks that the
  configuration switches off, and the parts of the ChibiOS tree that are not part of the firmware.
\<close>

end
